(* ===== verification/Prelude.thy ===== *)
theory Prelude
  imports Main "HOL-Library.Word"
begin

text \<open>
  Shared vocabulary of the development: names for the C integer types, the convention for
  memory accesses (a C buffer is a list; an access outside the buffer is \<open>None\<close>), the
  collections of simplification rules that the component theories extend, and generic
  lemmas on lists and words.
\<close>

unbundle bit_operations_syntax

section \<open>Integer types of the C code\<close>

type_synonym u8 = "8 word"
type_synonym u16 = "16 word"
type_synonym u32 = "32 word"
type_synonym buf = "u8 list"

text \<open>
  \<open>byte_ops\<close> collects the lemmas that split words into bytes and join them again;
  \<open>frame_simps\<close> collects the frame facts (fields an operation leaves alone).
\<close>

named_theorems byte_ops
named_theorems frame_simps

section \<open>Bytes and words\<close>

abbreviation byte16 :: "u8 \<Rightarrow> u16" where "byte16 b \<equiv> ucast b"
abbreviation byte32 :: "u8 \<Rightarrow> u32" where "byte32 b \<equiv> ucast b"

definition lo8 :: "'a::len word \<Rightarrow> u8" where
  "lo8 w = ucast w"

definition byte_of :: "nat \<Rightarrow> 'a::len word \<Rightarrow> u8" where
  "byte_of i w = ucast (drop_bit (8 * i) w)"

lemma bit_byte_of [byte_ops]: "bit (byte_of i w) n \<longleftrightarrow> n < 8 \<and> bit w (8 * i + n)"
  by (auto simp: byte_of_def bit_ucast_iff bit_drop_bit_eq)

lemma bit_lo8 [byte_ops]: "bit (lo8 w) n \<longleftrightarrow> n < 8 \<and> bit w n"
  by (auto simp: lo8_def bit_ucast_iff)

text \<open>Big-endian and little-endian joins, as the shifts and ors of the C code.\<close>

definition join16 :: "u8 \<Rightarrow> u8 \<Rightarrow> u16" where
  "join16 hi lo = push_bit 8 (ucast hi) OR ucast lo"

definition join32 :: "u8 \<Rightarrow> u8 \<Rightarrow> u8 \<Rightarrow> u8 \<Rightarrow> u32" where
  "join32 b3 b2 b1 b0 =
     push_bit 24 (ucast b3) OR push_bit 16 (ucast b2) OR push_bit 8 (ucast b1) OR ucast b0"

lemma byte_bit_bound [dest]: "bit (b :: u8) n \<Longrightarrow> n < 8"
  using bit_imp_le_length [of b n] by simp

lemma bit_join16 [byte_ops]:
  "bit (join16 hi lo) n \<longleftrightarrow> (if n < 8 then bit lo n else n < 16 \<and> bit hi (n - 8))"
  by (auto simp: join16_def bit_or_iff bit_push_bit_iff bit_ucast_iff)

lemma bit_join32 [byte_ops]:
  "bit (join32 b3 b2 b1 b0) n \<longleftrightarrow>
     (if n < 8 then bit b0 n else if n < 16 then bit b1 (n - 8)
      else if n < 24 then bit b2 (n - 16) else n < 32 \<and> bit b3 (n - 24))"
  by (auto simp: join32_def bit_or_iff bit_push_bit_iff bit_ucast_iff)

lemma join16_bytes [simp]: "join16 (byte_of 1 w) (byte_of 0 w) = w"
  by (rule bit_word_eqI) (auto simp: byte_ops)

lemma byte0_join16 [simp]: "byte_of 0 (join16 hi lo) = lo"
  by (rule bit_word_eqI) (auto simp: byte_ops)

lemma byte1_join16 [simp]: "byte_of 1 (join16 hi lo) = hi"
  by (rule bit_word_eqI) (auto simp: byte_ops)

lemmas byte_Suc0_join16 [simp] = byte1_join16 [unfolded One_nat_def]

lemmas join16_bytes_Suc0 [simp] = join16_bytes [unfolded One_nat_def]

lemma join16_eq_iff [simp]: "join16 a b = join16 c d \<longleftrightarrow> a = c \<and> b = d"
  by (metis byte0_join16 byte1_join16)

lemma join32_bytes [simp]:
  "join32 (byte_of 3 w) (byte_of 2 w) (byte_of 1 w) (byte_of 0 w) = w"
  by (rule bit_word_eqI) (auto simp: byte_ops)

lemma bytes_join32 [simp]:
  "byte_of 0 (join32 b3 b2 b1 b0) = b0"
  "byte_of 1 (join32 b3 b2 b1 b0) = b1"
  "byte_of 2 (join32 b3 b2 b1 b0) = b2"
  "byte_of 3 (join32 b3 b2 b1 b0) = b3"
  by (rule bit_word_eqI, auto simp: byte_ops)+

lemmas bytes_Suc0_join32 [simp] = bytes_join32(2) [unfolded One_nat_def]

lemmas join32_bytes_Suc0 [simp] = join32_bytes [unfolded One_nat_def]

lemma byte_of_xor: "byte_of i (x XOR y) = byte_of i x XOR byte_of i y"
  by (rule bit_word_eqI) (auto simp: byte_ops bit_xor_iff)

lemma byte_of_byte16 [simp]:
  "byte_of 0 (byte16 b) = b" "byte_of 1 (byte16 b) = 0" "byte_of (Suc 0) (byte16 b) = 0"
  by (rule bit_word_eqI, auto simp: byte_ops bit_ucast_iff)+

lemma byte16_high_zero: "byte_of 1 w = 0 \<Longrightarrow> w = byte16 (byte_of 0 w)"
proof -
  assume "byte_of 1 w = 0"
  then have "join16 0 (byte_of 0 w) = w" using join16_bytes [of w] by simp
  then show ?thesis by (simp add: join16_def)
qed

lemma unat_byte32 [simp]: "unat (byte32 b) = unat b"
  using unsigned_less [of b, where ?'a = nat]
  by (simp add: unsigned_ucast_eq take_bit_nat_eq_self)

lemma unat_byte16 [simp]: "unat (byte16 b) = unat b"
  using unsigned_less [of b, where ?'a = nat]
  by (simp add: unsigned_ucast_eq take_bit_nat_eq_self)

lemma xor_cancel [simp]:
  "x XOR z = y XOR z \<longleftrightarrow> x = y" "z XOR x = z XOR y \<longleftrightarrow> x = y" for x :: "'a::len word"
  by (metis xor.assoc xor.commute xor.left_neutral xor_self_eq)+

lemma xor_eq_0 [simp]: "x XOR y = 0 \<longleftrightarrow> x = y" for x :: "'a::len word"
  by (metis xor_self_eq xor_cancel(1))

section \<open>Buffers\<close>

text \<open>Reading and writing a buffer at an offset; \<open>None\<close> is an access outside it.\<close>

definition buf_read :: "'a list \<Rightarrow> nat \<Rightarrow> nat \<Rightarrow> 'a list option" where
  "buf_read m off n = (if off + n \<le> length m then Some (take n (drop off m)) else None)"

definition overlay :: "'a list \<Rightarrow> nat \<Rightarrow> 'a list \<Rightarrow> 'a list" where
  "overlay m off xs = take off m @ xs @ drop (off + length xs) m"

definition buf_write :: "'a list \<Rightarrow> nat \<Rightarrow> 'a list \<Rightarrow> 'a list option" where
  "buf_write m off xs =
     (if off + length xs \<le> length m then Some (overlay m off xs) else None)"

lemma length_overlay [simp]: "off + length xs \<le> length m \<Longrightarrow> length (overlay m off xs) = length m"
  by (simp add: overlay_def)

lemma overlay_Nil [simp]: "overlay m off [] = m"
  by (simp add: overlay_def)

lemma overlay_read [simp]:
  "off + length xs \<le> length m \<Longrightarrow> take (length xs) (drop off (overlay m off xs)) = xs"
  by (simp add: overlay_def)

lemma nth_overlay:
  "off + length xs \<le> length m \<Longrightarrow> i < length m \<Longrightarrow>
   overlay m off xs ! i = (if off \<le> i \<and> i < off + length xs then xs ! (i - off) else m ! i)"
  by (auto simp: overlay_def nth_append)

lemma take_overlay [simp]: "off \<le> length m \<Longrightarrow> n \<le> off \<Longrightarrow> take n (overlay m off xs) = take n m"
  by (simp add: overlay_def min_def)

lemma drop_overlay [simp]:
  "off + length xs \<le> length m \<Longrightarrow> off + length xs \<le> n \<Longrightarrow> drop n (overlay m off xs) = drop n m"
  by (simp add: overlay_def)

lemma overlay_prefix:
  "take off m = p \<Longrightarrow> off + length xs \<le> length m \<Longrightarrow>
   take (off + length xs) (overlay m off xs) = p @ xs"
  by (auto simp: overlay_def)

lemma buf_read_write [simp]:
  "buf_write m off xs = Some m' \<Longrightarrow> buf_read m' off (length xs) = Some xs"
  by (auto simp: buf_write_def buf_read_def split: if_splits)

lemma buf_write_length: "buf_write m off xs = Some m' \<Longrightarrow> length m' = length m"
  by (auto simp: buf_write_def split: if_splits)

section \<open>Lists and options\<close>

lemma unat_of_nat32: "n < 2 ^ 32 \<Longrightarrow> unat (of_nat n :: u32) = n"
  by (simp add: unsigned_of_nat take_bit_nat_eq_self)

lemma unat_pred: "n \<noteq> 0 \<Longrightarrow> unat (n :: 'a::len word) = Suc (unat (n - 1))"
  by (metis Suc_pred' unat_gt_0 unat_minus_one)

lemma unat_u8_less [simp]: "unat (b :: u8) < 256"
  using unsigned_less [of b] by simp

lemma list4E:
  assumes "4 \<le> length xs"
  obtains a b c d r where "xs = a # b # c # d # r"
  using assms by (auto simp: numeral_eq_Suc Suc_le_length_iff)

lemma list8E:
  assumes "length xs = 8"
  obtains a b c d e f g h where "xs = [a, b, c, d, e, f, g, h]"
  using assms by (auto simp: numeral_eq_Suc length_Suc_conv)

lemma map_option_eq_SomeD: "map_option f x = Some y \<Longrightarrow> \<exists>z. x = Some z \<and> f z = y"
  by (cases x) auto

text \<open>One bit of a flag byte.\<close>

lemma and_power_bit: "k < 8 \<Longrightarrow> w AND 2 ^ k \<noteq> 0 \<longleftrightarrow> bit w k" for w :: u8
proof
  have "\<not> bit w k \<Longrightarrow> w AND 2 ^ k = 0" by (rule bit_word_eqI) (auto simp: bit_and_iff bit_exp_iff)
  then show "w AND 2 ^ k \<noteq> 0 \<Longrightarrow> bit w k" by blast
next
  assume "k < 8" "bit w k"
  then have "bit (w AND 2 ^ k) k" by (simp add: bit_and_iff bit_exp_iff)
  then show "w AND 2 ^ k \<noteq> 0" by (metis bit_0_eq bot_apply bot_bool_def)
qed

end
