(* ===== verification/Crc16.thy ===== *)
theory Crc16
  imports Prelude
begin

text \<open>
  The table-driven Modbus CRC-16 of \<open>src/applications/normal_calc.c\<close>: the two tables, the
  whole-buffer routine, and the running form that the firmware download uses. The bitwise
  CRC of the Modbus standard is the reference. A pointer into a byte array is the list of
  the bytes from it to the end of the array; reading past that end is \<open>None\<close>.
\<close>

section \<open>CRC-16\<close>

definition table_crc_hi :: "u8 list" where
  "table_crc_hi = [
  0, 193, 129, 64, 1, 192, 128, 65, 1, 192, 128, 65, 0, 193, 129, 64, 1, 192, 128, 65, 0,
   193, 129, 64, 0, 193, 129, 64, 1, 192, 128, 65, 1, 192, 128, 65, 0, 193, 129, 64, 0,
   193, 129, 64, 1, 192, 128, 65, 0, 193, 129, 64, 1, 192, 128, 65, 1, 192, 128, 65, 0,
   193, 129, 64, 1, 192, 128, 65, 0, 193, 129, 64, 0, 193, 129, 64, 1, 192, 128, 65, 0,
   193, 129, 64, 1, 192, 128, 65, 1, 192, 128, 65, 0, 193, 129, 64, 0, 193, 129, 64, 1,
   192, 128, 65, 1, 192, 128, 65, 0, 193, 129, 64, 1, 192, 128, 65, 0, 193, 129, 64, 0,
   193, 129, 64, 1, 192, 128, 65, 1, 192, 128, 65, 0, 193, 129, 64, 0, 193, 129, 64, 1,
   192, 128, 65, 0, 193, 129, 64, 1, 192, 128, 65, 1, 192, 128, 65, 0, 193, 129, 64, 0,
   193, 129, 64, 1, 192, 128, 65, 1, 192, 128, 65, 0, 193, 129, 64, 1, 192, 128, 65, 0,
   193, 129, 64, 0, 193, 129, 64, 1, 192, 128, 65, 0, 193, 129, 64, 1, 192, 128, 65, 1,
   192, 128, 65, 0, 193, 129, 64, 1, 192, 128, 65, 0, 193, 129, 64, 0, 193, 129, 64, 1,
   192, 128, 65, 1, 192, 128, 65, 0, 193, 129, 64, 0, 193, 129, 64, 1, 192, 128, 65, 0,
   193, 129, 64, 1, 192, 128, 65, 1, 192, 128, 65, 0, 193, 129, 64]"

definition table_crc_lo :: "u8 list" where
  "table_crc_lo = [
  0, 192, 193, 1, 195, 3, 2, 194, 198, 6, 7, 199, 5, 197, 196, 4, 204, 12, 13, 205, 15,
   207, 206, 14, 10, 202, 203, 11, 201, 9, 8, 200, 216, 24, 25, 217, 27, 219, 218, 26, 30,
   222, 223, 31, 221, 29, 28, 220, 20, 212, 213, 21, 215, 23, 22, 214, 210, 18, 19, 211,
   17, 209, 208, 16, 240, 48, 49, 241, 51, 243, 242, 50, 54, 246, 247, 55, 245, 53, 52,
   244, 60, 252, 253, 61, 255, 63, 62, 254, 250, 58, 59, 251, 57, 249, 248, 56, 40, 232,
   233, 41, 235, 43, 42, 234, 238, 46, 47, 239, 45, 237, 236, 44, 228, 36, 37, 229, 39,
   231, 230, 38, 34, 226, 227, 35, 225, 33, 32, 224, 160, 96, 97, 161, 99, 163, 162, 98,
   102, 166, 167, 103, 165, 101, 100, 164, 108, 172, 173, 109, 175, 111, 110, 174, 170,
   106, 107, 171, 105, 169, 168, 104, 120, 184, 185, 121, 187, 123, 122, 186, 190, 126,
   127, 191, 125, 189, 188, 124, 180, 116, 117, 181, 119, 183, 182, 118, 114, 178, 179,
   115, 177, 113, 112, 176, 80, 144, 145, 81, 147, 83, 82, 146, 150, 86, 87, 151, 85, 149,
   148, 84, 156, 92, 93, 157, 95, 159, 158, 94, 90, 154, 155, 91, 153, 89, 88, 152, 136,
   72, 73, 137, 75, 139, 138, 74, 78, 142, 143, 79, 141, 77, 76, 140, 68, 132, 133, 69,
   135, 71, 70, 134, 130, 66, 67, 131, 65, 129, 128, 64]"

text \<open>One iteration of the loop: \<open>(crc_hi, crc_lo)\<close> and the next byte of the buffer.\<close>

definition crc_step :: "u8 \<times> u8 \<Rightarrow> u8 \<Rightarrow> u8 \<times> u8" where
  "crc_step st b =
     (let i = unat (fst st XOR b)
      in (snd st XOR table_crc_hi ! i, table_crc_lo ! i))"

text \<open>\<open>while (buffer_length--)\<close>: the count is a \<open>uint16_t\<close>, the buffer is read from its start.\<close>

fun crc_loop :: "buf \<Rightarrow> u16 \<Rightarrow> u8 \<times> u8 \<Rightarrow> (u8 \<times> u8) option" where
  "crc_loop [] n st = (if n = 0 then Some st else None)"
| "crc_loop (b # bs) n st = (if n = 0 then Some st else crc_loop bs (n - 1) (crc_step st b))"

definition modbus_rtu_crc16 :: "buf \<Rightarrow> u16 \<Rightarrow> u16 option" where
  "modbus_rtu_crc16 buffer n =
     map_option (\<lambda>(crc_hi, crc_lo). join16 crc_hi crc_lo) (crc_loop buffer n (0xFF, 0xFF))"

definition modbus_rtu_crc16_frame :: "buf \<Rightarrow> u16 \<Rightarrow> u16 \<Rightarrow> u16 option" where
  "modbus_rtu_crc16_frame buffer n init_crc =
     map_option (\<lambda>(crc_hi, crc_lo). join16 crc_hi crc_lo)
       (crc_loop buffer n (byte_of 1 init_crc, byte_of 0 init_crc))"

section \<open>CRC-16: the bitwise reference and its tables\<close>

text \<open>
  The reference is the CRC of the Modbus standard: the register is exclusive-ored with each
  byte, then shifted right eight times, with the polynomial \<open>0xA001\<close> (reflected
  \<open>0x8005\<close>) whenever a one bit leaves it.
\<close>

definition crc_bit :: "u16 \<Rightarrow> u16" where
  "crc_bit c = (if bit c 0 then drop_bit 1 c XOR 0xA001 else drop_bit 1 c)"

fun crc_bits :: "nat \<Rightarrow> u16 \<Rightarrow> u16" where
  "crc_bits 0 c = c"
| "crc_bits (Suc n) c = crc_bits n (crc_bit c)"

definition crc_ref_byte :: "u16 \<Rightarrow> u8 \<Rightarrow> u16" where
  "crc_ref_byte c b = crc_bits 8 (c XOR byte16 b)"

definition crc_ref :: "u8 list \<Rightarrow> u16" where
  "crc_ref bs = foldl crc_ref_byte 0xFFFF bs"

text \<open>
  The C code keeps the register in two bytes, and its \<open>crc_hi\<close> is the low half of the
  reference register: the result is the reference CRC with its bytes swapped.
\<close>

definition crc_abs :: "u8 \<times> u8 \<Rightarrow> u16" where
  "crc_abs st = join16 (snd st) (fst st)"

definition swap16 :: "u16 \<Rightarrow> u16" where
  "swap16 w = join16 (byte_of 0 w) (byte_of 1 w)"

lemma swap16_swap16 [simp]: "swap16 (swap16 w) = w"
  by (simp add: swap16_def)

lemma swap16_crc_abs: "swap16 (crc_abs (h, l)) = join16 h l"
  by (simp add: swap16_def crc_abs_def)

lemma crc_bit_xor: "crc_bit (x XOR y) = crc_bit x XOR crc_bit y"
  by (rule bit_word_eqI) (auto simp: crc_bit_def bit_xor_iff bit_drop_bit_eq)

lemma crc_bits_xor: "crc_bits n (x XOR y) = crc_bits n x XOR crc_bits n y"
  by (induction n arbitrary: x y) (auto simp: crc_bit_xor)

lemma crc_bit_even: "\<not> bit c 0 \<Longrightarrow> crc_bit c = drop_bit 1 c"
  by (simp add: crc_bit_def)

lemma crc_bit_push:
  assumes "n < 8"
  shows "crc_bit (push_bit (Suc n) (byte16 b)) = push_bit n (byte16 b)"
proof -
  have "\<not> bit (push_bit (Suc n) (byte16 b)) 0"
    by (simp only: bit_push_bit_iff) simp
  then have "crc_bit (push_bit (Suc n) (byte16 b)) = drop_bit 1 (push_bit (Suc n) (byte16 b))"
    by (rule crc_bit_even)
  also have "\<dots> = push_bit n (byte16 b)"
    using assms
    by (intro bit_word_eqI) (auto simp only: bit_drop_bit_eq bit_push_bit_iff bit_ucast_iff o_def, auto)
  finally show ?thesis .
qed

lemma crc_bits_high: "n \<le> 8 \<Longrightarrow> crc_bits n (push_bit n (byte16 b)) = byte16 b"
  by (induction n) (simp_all only: crc_bits.simps crc_bit_push, simp_all)

lemma crc_bits8:
  "crc_bits 8 c = crc_bit (crc_bit (crc_bit (crc_bit (crc_bit (crc_bit (crc_bit (crc_bit c)))))))"
  by (simp add: eval_nat_numeral)

text \<open>
  Both tables are linear, so each is generated from its eight entries at powers of two:
  the upper half of a table is the lower half exclusive-ored with one base value.
\<close>

fun lin_table :: "u16 list \<Rightarrow> u16 list" where
  "lin_table [] = [0]"
| "lin_table (b # bs) = lin_table bs @ map (\<lambda>t. t XOR b) (lin_table bs)"

fun crc_bases :: "nat \<Rightarrow> u16 list" where
  "crc_bases 0 = []"
| "crc_bases (Suc k) = crc_bits 8 (2 ^ k) # crc_bases k"

lemma length_crc_bases [simp]: "length (crc_bases k) = k"
  by (induction k) auto

lemma length_lin_table [simp]: "length (lin_table bs) = 2 ^ length bs"
  by (induction bs) auto

lemma crc_bases_8:
  "crc_bases 8 = [0xA001, 0xF001, 0xD801, 0xCC01, 0xC601, 0xC301, 0xC181, 0xC0C1]"
proof -
  have "crc_bases (Suc (Suc (Suc (Suc (Suc (Suc (Suc (Suc 0)))))))) =
      map (crc_bits 8) [128, 64, 32, 16, 8, 4, 2, 1]"
    by simp
  also have "\<dots> = [0xA001, 0xF001, 0xD801, 0xCC01, 0xC601, 0xC301, 0xC181, 0xC0C1]"
    by (simp add: crc_bits8 crc_bit_def)
  finally have *: "crc_bases (Suc (Suc (Suc (Suc (Suc (Suc (Suc (Suc 0)))))))) = \<dots>" .
  have "(8::nat) = Suc (Suc (Suc (Suc (Suc (Suc (Suc (Suc 0)))))))" by simp
  then show ?thesis by (simp only: *)
qed

lemma of_nat_add_exp:
  assumes "j < 2 ^ k"
  shows "(of_nat (2 ^ k + j) :: 'a::len word) = of_nat j XOR 2 ^ k"
proof -
  have low: "\<not> bit j n" if "k \<le> n" for n
  proof -
    have "j < 2 ^ n"
      using assms that by (meson less_le_trans one_le_numeral power_increasing)
    then show ?thesis by (simp add: bit_iff_odd)
  qed
  have "2 ^ k + j = 2 ^ k OR j"
    by (rule disjunctive_add) (use low in \<open>auto simp: bit_exp_iff\<close>)
  then show ?thesis
    by (intro bit_word_eqI) (use low in \<open>auto simp: bit_of_nat_iff bit_or_iff bit_xor_iff bit_exp_iff\<close>)
qed

lemma lin_table_nth: "i < 2 ^ k \<Longrightarrow> lin_table (crc_bases k) ! i = crc_bits 8 (of_nat i)"
proof (induction k arbitrary: i)
  case 0
  then show ?case by (simp add: crc_bits8 crc_bit_def)
next
  case (Suc k)
  show ?case
  proof (cases "i < 2 ^ k")
    case True
    with Suc.IH show ?thesis by (simp add: nth_append)
  next
    case False
    then have i: "i = 2 ^ k + (i - 2 ^ k)" and j: "i - 2 ^ k < 2 ^ k"
      using Suc.prems by auto
    have "lin_table (crc_bases (Suc k)) ! i = lin_table (crc_bases k) ! (i - 2 ^ k) XOR crc_bits 8 (2 ^ k)"
      using False j by (simp add: nth_append)
    also have "\<dots> = crc_bits 8 (of_nat (i - 2 ^ k) XOR 2 ^ k)"
      by (simp only: Suc.IH [OF j] crc_bits_xor)
    also have "\<dots> = crc_bits 8 (of_nat i)"
      by (simp only: of_nat_add_exp [OF j, symmetric] i [symmetric])
    finally show ?thesis .
  qed
qed

lemma crc_tables: "map2 join16 table_crc_lo table_crc_hi = lin_table (crc_bases 8)"
  by (simp add: crc_bases_8 table_crc_lo_def table_crc_hi_def join16_def)

lemma length_crc_tables [simp]: "length table_crc_hi = 256" "length table_crc_lo = 256"
  by (simp_all add: table_crc_hi_def table_crc_lo_def)

lemma crc_table_nth:
  "join16 (table_crc_lo ! unat i) (table_crc_hi ! unat i) = crc_bits 8 (byte16 i)"
proof -
  have lt: "unat i < 256" by simp
  then have "join16 (table_crc_lo ! unat i) (table_crc_hi ! unat i) = lin_table (crc_bases 8) ! unat i"
    by (simp flip: crc_tables)
  also have "\<dots> = crc_bits 8 (of_nat (unat i))"
    using lt by (intro lin_table_nth) simp
  also have "of_nat (unat i) = byte16 i" by simp
  finally show ?thesis .
qed

lemma crc_abs_step: "crc_abs (crc_step st b) = crc_ref_byte (crc_abs st) b"
proof -
  obtain h l where st: "st = (h, l)" by (cases st)
  have split: "crc_abs st XOR byte16 b = push_bit 8 (byte16 l) XOR byte16 (h XOR b)"
    unfolding st crc_abs_def
    by (rule bit_word_eqI) (auto simp: byte_ops bit_xor_iff bit_push_bit_iff bit_ucast_iff)
  have "crc_ref_byte (crc_abs st) b = byte16 l XOR crc_bits 8 (byte16 (h XOR b))"
    by (simp only: crc_ref_byte_def split crc_bits_xor crc_bits_high order_refl)
  also have "\<dots> = byte16 l XOR join16 (table_crc_lo ! unat (h XOR b)) (table_crc_hi ! unat (h XOR b))"
    by (simp only: crc_table_nth)
  also have "\<dots> = crc_abs (crc_step st b)"
    unfolding st crc_abs_def crc_step_def Let_def fst_conv snd_conv
    by (rule bit_word_eqI) (auto simp: byte_ops bit_xor_iff bit_ucast_iff)
  finally show ?thesis by simp
qed

lemma crc_abs_foldl: "crc_abs (foldl crc_step st bs) = foldl crc_ref_byte (crc_abs st) bs"
  by (induction bs arbitrary: st) (simp_all add: crc_abs_step)

section \<open>The loop reads exactly the counted bytes\<close>

lemma crc_loop_foldl:
  "crc_loop bs n st =
     (if unat n \<le> length bs then Some (foldl crc_step st (take (unat n) bs)) else None)"
proof (induction bs n st rule: crc_loop.induct)
  case (1 n st)
  then show ?case by (auto simp: unat_eq_zero)
next
  case (2 b bs n st)
  show ?case
  proof (cases "n = 0")
    case False
    then have n: "unat n = Suc (unat (n - 1))"
      by (rule unat_pred)
    with 2 [OF False] False show ?thesis by simp
  qed simp
qed

lemma crc_hi_lo_0 [simp]: "table_crc_hi ! 0 = 0" "table_crc_lo ! 0 = 0"
  by (simp_all add: table_crc_hi_def table_crc_lo_def)

lemma crc16_foldl:
  "modbus_rtu_crc16 bs n =
     (if unat n \<le> length bs
      then Some (swap16 (crc_abs (foldl crc_step (0xFF, 0xFF) (take (unat n) bs)))) else None)"
  by (auto simp: modbus_rtu_crc16_def crc_loop_foldl swap16_def crc_abs_def split: prod.splits)

lemma crc16_frame_foldl:
  "modbus_rtu_crc16_frame bs n c =
     (if unat n \<le> length bs
      then Some (swap16 (crc_abs (foldl crc_step (byte_of 1 c, byte_of 0 c) (take (unat n) bs)))) else None)"
  by (auto simp: modbus_rtu_crc16_frame_def crc_loop_foldl swap16_def crc_abs_def split: prod.splits)

lemma crc_bytes_swap_abs [simp]:
  "byte_of 1 (swap16 (crc_abs st)) = fst st" "byte_of 0 (swap16 (crc_abs st)) = snd st"
  "byte_of (Suc 0) (swap16 (crc_abs st)) = fst st"
  by (simp_all add: swap16_def crc_abs_def)

lemma unat_len16: "length xs < 2 ^ 16 \<Longrightarrow> unat (of_nat (length xs) :: u16) = length xs"
  by (simp add: unat_of_nat take_bit_nat_eq_self_iff)

lemma crc_step_residue: "swap16 (crc_abs (crc_step (crc_step st (fst st)) (snd st))) = 0"
  by (simp add: crc_step_def crc_abs_def swap16_def) (simp add: join16_def)

section \<open>Injectivity of the register\<close>

text \<open>A bit leaving the register is recovered from the top bit, so no step loses information.\<close>

lemma crc_bit_inj: "crc_bit x = crc_bit y \<Longrightarrow> x = y"
proof -
  assume eq: "crc_bit x = crc_bit y"
  have top: "bit (crc_bit z) 15 = bit z 0" for z
    by (auto simp: crc_bit_def bit_xor_iff bit_drop_bit_eq dest: bit_imp_le_length)
  have zero: "bit x 0 = bit y 0" using eq top [of x] top [of y] by simp
  have "drop_bit 1 x = drop_bit 1 y"
    using eq zero by (simp add: crc_bit_def del: One_nat_def split: if_splits)
  then have "bit x (Suc n) = bit y (Suc n)" for n
    by (metis bit_drop_bit_eq comp_apply plus_1_eq_Suc)
  with zero show "x = y"
    by (intro bit_word_eqI) (metis not0_implies_Suc)
qed

lemma crc_bits_inj: "crc_bits n x = crc_bits n y \<Longrightarrow> x = y"
  by (induction n arbitrary: x y) (auto dest: crc_bit_inj)

lemma crc_abs_inj: "crc_abs s = crc_abs t \<Longrightarrow> s = t"
  by (cases s; cases t) (simp add: crc_abs_def)

lemma crc_ref_byte_inj:
  "crc_ref_byte c b = crc_ref_byte d b \<Longrightarrow> c = d"
  "crc_ref_byte c b = crc_ref_byte c b' \<Longrightarrow> b = b'"
proof -
  assume "crc_ref_byte c b = crc_ref_byte d b"
  then have "c XOR byte16 b = d XOR byte16 b"
    unfolding crc_ref_byte_def by (rule crc_bits_inj)
  then show "c = d" by simp
next
  assume "crc_ref_byte c b = crc_ref_byte c b'"
  then have "c XOR byte16 b = c XOR byte16 b'"
    unfolding crc_ref_byte_def by (rule crc_bits_inj)
  then show "b = b'" by (metis byte_of_byte16(1) xor_cancel(2))
qed

lemma crc_ref_foldl_inj: "foldl crc_ref_byte c bs = foldl crc_ref_byte d bs \<Longrightarrow> c = d"
  by (induction bs arbitrary: c d) (auto dest: crc_ref_byte_inj(1))

text \<open>
  Two adjacent bytes: the second step can cancel a difference in the low half of the
  register only, and the first step always leaves a difference in the high half.
\<close>

lemma crc_ref_high:
  assumes "byte_of 1 (crc_bits 8 (byte16 x)) = byte_of 1 (crc_bits 8 (byte16 y))"
  shows "x = y"
proof -
  define d where "d = byte16 x XOR byte16 y"
  have "byte_of 1 (crc_bits 8 d) = 0"
    using assms unfolding d_def crc_bits_xor byte_of_xor by simp
  then have "crc_bits 8 d = byte16 (byte_of 0 (crc_bits 8 d))"
    by (rule byte16_high_zero)
  also have "\<dots> = crc_bits 8 (push_bit 8 (byte16 (byte_of 0 (crc_bits 8 d))))"
    by (rule crc_bits_high [symmetric]) simp
  finally have d: "d = push_bit 8 (byte16 (byte_of 0 (crc_bits 8 d)))"
    by (rule crc_bits_inj)
  have "byte_of 0 d = 0"
    by (subst d) (rule bit_word_eqI, auto simp: byte_ops bit_push_bit_iff)
  then show "x = y" unfolding d_def byte_of_xor by simp
qed

lemma crc_ref_two_bytes:
  assumes "crc_ref_byte (crc_ref_byte c a) b = crc_ref_byte (crc_ref_byte c a') b'"
  shows "a = a' \<and> b = b'"
proof -
  let ?r = "crc_ref_byte c a" and ?r' = "crc_ref_byte c a'"
  have "?r XOR byte16 b = ?r' XOR byte16 b'"
    using assms unfolding crc_ref_byte_def [of ?r] crc_ref_byte_def [of ?r'] by (rule crc_bits_inj)
  then have "byte_of 1 (?r XOR byte16 b) = byte_of 1 (?r' XOR byte16 b')" by simp
  then have "byte_of 1 (crc_bits 8 (byte16 a)) = byte_of 1 (crc_bits 8 (byte16 a'))"
    unfolding crc_ref_byte_def crc_bits_xor byte_of_xor by simp
  then have "a = a'" by (rule crc_ref_high)
  with assms show ?thesis by (auto dest: crc_ref_byte_inj(2))
qed

section \<open>Properties\<close>

text \<open>
  C28: over the first \<open>buffer_length\<close> bytes, \<open>modbus_rtu_crc16\<close> computes the bitwise
  CRC-16/Modbus (initial value \<open>0xFFFF\<close>, polynomial \<open>0xA001\<close>) with its two bytes swapped,
  and it reads outside the buffer exactly when \<open>buffer_length\<close> exceeds its size.
\<close>

theorem crc16_is_reference:
  "modbus_rtu_crc16 bs n =
     (if unat n \<le> length bs then Some (swap16 (crc_ref (take (unat n) bs))) else None)"
  by (simp add: crc16_foldl crc_abs_foldl crc_ref_def) (simp add: crc_abs_def join16_def)

text \<open>
  The CRC of a message received in pieces is the CRC of the whole: continuing
  \<open>modbus_rtu_crc16_frame\<close> from the value of a prefix gives \<open>modbus_rtu_crc16\<close> of the
  concatenation, as long as the total length fits the 16-bit count.
\<close>

theorem crc16_frame_resumes:
  assumes "length xs + length ys < 2 ^ 16"
  shows "Option.bind (modbus_rtu_crc16 xs (of_nat (length xs)))
           (modbus_rtu_crc16_frame ys (of_nat (length ys)))
         = modbus_rtu_crc16 (xs @ ys) (of_nat (length (xs @ ys)))"
proof -
  have "unat (of_nat (length xs) :: u16) = length xs" "unat (of_nat (length ys) :: u16) = length ys"
    "unat (of_nat (length (xs @ ys)) :: u16) = length (xs @ ys)"
    using assms by (intro unat_len16, simp)+
  then show ?thesis
    by (simp add: crc16_foldl crc16_frame_foldl del: of_nat_add)
qed

theorem crc16_frame_resumes_witness:
  "Option.bind (modbus_rtu_crc16 [1, 3] 2) (modbus_rtu_crc16_frame [0, 9] 2)
     = modbus_rtu_crc16 [1, 3, 0, 9] 4"
  using crc16_frame_resumes [of "[1, 3]" "[0, 9]"] by simp

text \<open>
  Two messages of the same length that differ only within two adjacent bytes (an error
  burst of up to 16 bits) never have the same CRC.
\<close>

theorem crc16_detects_burst:
  assumes "length pre + 2 + length post < 2 ^ 16" and "(a, b) \<noteq> (a', b')"
  shows "modbus_rtu_crc16 (pre @ [a, b] @ post) (of_nat (length pre + 2 + length post)) \<noteq>
         modbus_rtu_crc16 (pre @ [a', b'] @ post) (of_nat (length pre + 2 + length post))"
proof
  assume eq: "modbus_rtu_crc16 (pre @ [a, b] @ post) (of_nat (length pre + 2 + length post)) =
    modbus_rtu_crc16 (pre @ [a', b'] @ post) (of_nat (length pre + 2 + length post))"
  have "unat (of_nat (length (pre @ [a, b] @ post)) :: u16) = length (pre @ [a, b] @ post)"
    by (rule unat_len16) (use assms(1) in simp)
  then have len: "unat (of_nat (length pre + 2 + length post) :: u16) = length pre + 2 + length post"
    by simp
  define c where "c = foldl crc_ref_byte 0xFFFF pre"
  have "foldl crc_ref_byte c ([a, b] @ post) = foldl crc_ref_byte c ([a', b'] @ post)"
    using eq arg_cong [where f = swap16, of "swap16 _" "swap16 _"]
    unfolding crc16_is_reference len c_def by (auto simp: crc_ref_def dest: arg_cong [where f = swap16])
  then have "crc_ref_byte (crc_ref_byte c a) b = crc_ref_byte (crc_ref_byte c a') b'"
    by (auto dest: crc_ref_foldl_inj)
  then show False using assms(2) by (auto dest: crc_ref_two_bytes)
qed

theorem crc16_detects_burst_witness:
  "modbus_rtu_crc16 [7, 1, 2, 9] 4 \<noteq> modbus_rtu_crc16 [7, 1, 130, 9] 4"
  using crc16_detects_burst [of "[7]" "[9]" 1 2 1 130] by simp

text \<open>
  A message followed by its CRC, high byte of the returned value first, has CRC zero.
\<close>

theorem crc16_residue:
  assumes "modbus_rtu_crc16 bs (of_nat (length bs)) = Some c" and "length bs + 2 < 2 ^ 16"
  shows "modbus_rtu_crc16 (bs @ [byte_of 1 c, byte_of 0 c]) (of_nat (length bs + 2)) = Some 0"
proof -
  have "unat (of_nat (length bs) :: u16) = length bs"
    by (rule unat_len16) (use assms(2) in simp)
  then have c: "c = swap16 (crc_abs (foldl crc_step (0xFF, 0xFF) bs))"
    using assms(1) by (simp add: crc16_foldl)
  have "unat (of_nat (length (bs @ [byte_of 1 c, byte_of 0 c])) :: u16) = length bs + 2"
    by (subst unat_len16) (use assms(2) in auto)
  then have len: "unat (of_nat (length bs + 2) :: u16) = length bs + 2" by simp
  show ?thesis
    unfolding crc16_foldl len c by (simp add: crc_step_residue)
qed

theorem crc16_residue_witness:
  "modbus_rtu_crc16 [1, 3, 0x40, 0x21] 4 = Some 0"
proof -
  have "modbus_rtu_crc16 [1, 3] 2 = Some 0x4021"
    by (simp add: modbus_rtu_crc16_def crc_step_def table_crc_hi_def table_crc_lo_def join16_def)
  moreover have "byte_of 1 (0x4021 :: u16) = 0x40" "byte_of 0 (0x4021 :: u16) = 0x21"
    by code_simp+
  ultimately show ?thesis using crc16_residue [of "[1, 3]" "0x4021"] by simp
qed

end
