(* ===== verification/NormalCalc.thy ===== *)
theory NormalCalc
  imports Crc16
begin

text \<open>
  The integer helpers of \<open>src/applications/normal_calc.c\<close> and \<open>normal_calc.h\<close>:
  the little-endian buffer accessors, the event words, the nibble permutations and the
  substitution tables, and the derivation of the 16-byte chip identifier.
\<close>

section \<open>Little-endian buffer accessors\<close>

definition write_u16_to_buf :: "u16 \<Rightarrow> buf \<Rightarrow> buf option" where
  "write_u16_to_buf d b = buf_write b 0 [byte_of 0 d, byte_of 1 d]"

definition write_u32_to_buf :: "u32 \<Rightarrow> buf \<Rightarrow> buf option" where
  "write_u32_to_buf d b = buf_write b 0 [byte_of 0 d, byte_of 1 d, byte_of 2 d, byte_of 3 d]"

definition get_u16_from_buf :: "buf \<Rightarrow> u16 option" where
  "get_u16_from_buf b = (if 2 \<le> length b then Some (join16 (b ! 1) (b ! 0)) else None)"

definition get_u32_from_buf :: "buf \<Rightarrow> u32 option" where
  "get_u32_from_buf b =
     (if 4 \<le> length b then Some (join32 (b ! 3) (b ! 2) (b ! 1) (b ! 0)) else None)"

section \<open>Event words\<close>

text \<open>The bodies run under the global-variable protection, so each is one atomic step.\<close>

definition my_event_set_bit :: "u32 \<Rightarrow> u32 \<Rightarrow> u32" where
  "my_event_set_bit ev set_mask = ev OR set_mask"

definition my_event_clear_bit :: "u32 \<Rightarrow> u32 \<Rightarrow> u32" where
  "my_event_clear_bit ev clear_mask = ev AND NOT clear_mask"

definition my_event_clear :: "u32 \<Rightarrow> u32" where
  "my_event_clear ev = 0"

definition my_event_val :: "u32 \<Rightarrow> u32" where
  "my_event_val ev = ev"

section \<open>Nibble permutations and substitution tables\<close>

definition U8_ToBIT_ENCRY :: "u8 \<Rightarrow> u8" where
  "U8_ToBIT_ENCRY x = drop_bit 4 (x AND 0xf0) OR push_bit 4 (x AND 0x0f)"

definition U8_ToBIT_DECOD :: "u8 \<Rightarrow> u8" where
  "U8_ToBIT_DECOD x = drop_bit 4 (x AND 0xf0) OR push_bit 4 (x AND 0x0f)"

definition U16_ToBIT_ENCRY :: "u16 \<Rightarrow> u16" where
  "U16_ToBIT_ENCRY x =
     push_bit 12 (x AND 0x000f) OR drop_bit 4 (x AND 0x00f0) OR
     drop_bit 4 (x AND 0x0f00) OR drop_bit 4 (x AND 0xf000)"

definition U16_ToBIT_DECOD :: "u16 \<Rightarrow> u16" where
  "U16_ToBIT_DECOD x =
     push_bit 4 (x AND 0x000f) OR push_bit 4 (x AND 0x00f0) OR
     push_bit 4 (x AND 0x0f00) OR drop_bit 12 (x AND 0xf000)"

definition U32_ToBIT_ENCRY :: "u32 \<Rightarrow> u32" where
  "U32_ToBIT_ENCRY x =
     push_bit 28 (x AND 0x0000000f) OR drop_bit 4 (x AND 0x000000f0) OR
     drop_bit 4 (x AND 0x00000f00) OR drop_bit 4 (x AND 0x0000f000) OR
     drop_bit 4 (x AND 0x000f0000) OR drop_bit 4 (x AND 0x00f00000) OR
     drop_bit 4 (x AND 0x0f000000) OR drop_bit 4 (x AND 0xf0000000)"

definition U32_ToBIT_DECOD :: "u32 \<Rightarrow> u32" where
  "U32_ToBIT_DECOD x =
     push_bit 4 (x AND 0x0000000f) OR push_bit 4 (x AND 0x000000f0) OR
     push_bit 4 (x AND 0x00000f00) OR push_bit 4 (x AND 0x0000f000) OR
     push_bit 4 (x AND 0x000f0000) OR push_bit 4 (x AND 0x00f00000) OR
     push_bit 4 (x AND 0x0f000000) OR drop_bit 28 (x AND 0xf0000000)"

definition encry_array :: "u8 list" where
  "encry_array = [
  80, 139, 5, 85, 96, 149, 20, 56, 78, 74, 171, 118, 226, 181, 152, 194, 223, 229, 145,
   236, 6, 251, 122, 143, 55, 216, 140, 4, 158, 242, 111, 210, 68, 231, 35, 233, 71, 39,
   211, 126, 93, 83, 123, 244, 37, 67, 240, 76, 141, 142, 193, 77, 155, 3, 174, 182, 212,
   0, 45, 73, 198, 222, 227, 64, 137, 250, 40, 16, 189, 156, 154, 166, 176, 246, 27, 7, 34,
   133, 213, 57, 94, 121, 249, 28, 23, 130, 88, 17, 253, 255, 115, 89, 90, 10, 168, 201,
   239, 188, 101, 91, 220, 153, 164, 172, 52, 42, 72, 232, 224, 190, 61, 116, 237, 8, 60,
   207, 53, 31, 119, 238, 184, 22, 9, 129, 79, 51, 205, 192, 247, 124, 245, 162, 135, 66,
   12, 206, 230, 165, 26, 24, 50, 204, 95, 43, 161, 36, 138, 30, 180, 179, 159, 92, 107,
   214, 97, 157, 131, 209, 19, 58, 221, 65, 241, 218, 125, 105, 177, 44, 186, 69, 200, 59,
   108, 252, 32, 103, 195, 41, 234, 117, 112, 225, 208, 175, 202, 109, 235, 38, 183, 98,
   81, 196, 104, 54, 150, 219, 2, 100, 187, 228, 147, 128, 25, 197, 47, 203, 114, 248, 48,
   254, 82, 87, 148, 243, 146, 70, 127, 49, 178, 163, 132, 102, 18, 170, 86, 106, 14, 1,
   173, 151, 33, 185, 217, 215, 75, 84, 13, 199, 62, 167, 144, 191, 136, 29, 11, 15, 21,
   160, 169, 110, 99, 46, 120, 113, 134, 63]"

definition decode_array :: "u8 list" where
  "decode_array = [
  57, 227, 196, 53, 27, 2, 20, 75, 113, 122, 93, 244, 134, 236, 226, 245, 67, 87, 222, 158,
   6, 246, 121, 84, 139, 202, 138, 74, 83, 243, 147, 117, 174, 230, 76, 34, 145, 44, 187,
   37, 66, 177, 105, 143, 167, 58, 251, 204, 208, 217, 140, 125, 104, 116, 193, 24, 7, 79,
   159, 171, 114, 110, 238, 255, 63, 161, 133, 45, 32, 169, 215, 36, 106, 59, 9, 234, 47,
   51, 8, 124, 0, 190, 210, 41, 235, 3, 224, 211, 86, 91, 92, 99, 151, 40, 80, 142, 4, 154,
   189, 250, 197, 98, 221, 175, 192, 165, 225, 152, 172, 185, 249, 30, 180, 253, 206, 90,
   111, 179, 11, 118, 252, 81, 22, 42, 129, 164, 39, 216, 201, 123, 85, 156, 220, 77, 254,
   132, 242, 64, 146, 1, 26, 48, 49, 23, 240, 18, 214, 200, 212, 5, 194, 229, 14, 101, 70,
   52, 69, 155, 28, 150, 247, 144, 131, 219, 102, 137, 71, 239, 94, 248, 223, 10, 103, 228,
   54, 183, 72, 166, 218, 149, 148, 13, 55, 188, 120, 231, 168, 198, 97, 68, 109, 241, 127,
   50, 15, 176, 191, 203, 60, 237, 170, 95, 184, 205, 141, 126, 135, 115, 182, 157, 31, 38,
   56, 78, 153, 233, 25, 232, 163, 195, 100, 160, 61, 16, 108, 181, 12, 62, 199, 17, 136,
   33, 107, 35, 178, 186, 19, 112, 119, 96, 46, 162, 29, 213, 43, 130, 73, 128, 207, 82,
   65, 21, 173, 88, 209, 89]"

section \<open>The 16-byte chip identifier\<close>

text \<open>
  \<open>for(i=0;i<8;i++) U_8byte[8+i] = U_8byte[i]+1\<close>, then the CRC of the first 14 bytes is
  stored low byte first in bytes 14 and 15.
\<close>

fun uid_fill :: "nat \<Rightarrow> nat \<Rightarrow> buf \<Rightarrow> buf" where
  "uid_fill 0 i u = u"
| "uid_fill (Suc k) i u = uid_fill k (Suc i) (u[8 + i := u ! i + 1])"

definition UID_to_16Byte :: "buf \<Rightarrow> buf option" where
  "UID_to_16Byte u =
     (if length u < 16 then None
      else let u1 = uid_fill 8 0 u
           in case modbus_rtu_crc16 u1 14 of
                None \<Rightarrow> None
              | Some crc16 \<Rightarrow> Some (u1[14 := byte_of 0 crc16, 15 := byte_of 1 crc16]))"

section \<open>Interfaces: byte codecs and buffer fields\<close>

text \<open>
  A codec is a pair of mutually inverse maps. The clients need only the two laws: encoding
  is a bijection, and encoding a buffer element by element is undone the same way.
\<close>

locale codec =
  fixes enc :: "'a \<Rightarrow> 'a" and dec :: "'a \<Rightarrow> 'a"
  assumes dec_enc: "dec (enc x) = x" and enc_dec: "enc (dec x) = x"
begin

lemma bij_enc: "bij enc"
  by (metis bijI' dec_enc enc_dec)

lemma map_dec_enc: "map dec (map enc xs) = xs"
  by (simp add: o_def dec_enc)

lemma round_trip: "dec (enc x) = x \<and> enc (dec x) = x"
  by (simp add: dec_enc enc_dec)

end

text \<open>
  A field of a byte buffer: \<open>put\<close> stores a value in the first \<open>width\<close> bytes or fails
  when the buffer is shorter, \<open>get\<close> reads it back.
\<close>

locale buffer_field =
  fixes put :: "'v \<Rightarrow> buf \<Rightarrow> buf option" and get :: "buf \<Rightarrow> 'v option" and width :: nat
  assumes put_defined: "put v b = None \<longleftrightarrow> length b < width"
    and get_defined: "get b = None \<longleftrightarrow> length b < width"
    and put_length: "put v b = Some b' \<Longrightarrow> length b' = length b"
    and put_frame: "put v b = Some b' \<Longrightarrow> drop width b' = drop width b"
    and get_put: "put v b = Some b' \<Longrightarrow> get b' = Some v"
    and put_get: "get b = Some v \<Longrightarrow> put v b = Some b"
begin

lemma last_put_wins: "put v b = Some b1 \<Longrightarrow> put w b1 = Some b2 \<Longrightarrow> get b2 = Some w"
  by (rule get_put)

lemma field_laws:
  assumes "width \<le> length b"
  shows "\<exists>b'. put v b = Some b' \<and> get b' = Some v \<and> length b' = length b \<and>
              drop width b' = drop width b"
  using assms put_defined [of v b] put_length put_frame get_put by (cases "put v b") auto

lemma get_total: "width \<le> length b \<Longrightarrow> \<exists>v. get b = Some v \<and> put v b = Some b"
  using get_defined [of b] put_get by (cases "get b") auto

end

interpretation u16_field: buffer_field write_u16_to_buf get_u16_from_buf 2
proof unfold_locales
  fix b :: buf and v assume "get_u16_from_buf b = Some v"
  then show "write_u16_to_buf v b = Some b"
    by (cases b; cases "tl b")
      (auto simp: get_u16_from_buf_def write_u16_to_buf_def buf_write_def overlay_def split: if_splits)
qed (auto simp: get_u16_from_buf_def write_u16_to_buf_def buf_write_def overlay_def nth_append
      numeral_2_eq_2 split: if_splits)

lemma join32_bytes_Sucs:
  "join32 (byte_of (Suc (Suc (Suc 0))) w) (byte_of (Suc (Suc 0)) w) (byte_of (Suc 0) w) (byte_of 0 w) = w"
  using join32_bytes [of w] by (simp only: numeral_2_eq_2 numeral_3_eq_3 One_nat_def)

interpretation u32_field: buffer_field write_u32_to_buf get_u32_from_buf 4
proof unfold_locales
  fix b :: buf and v assume get: "get_u32_from_buf b = Some v"
  then have "4 \<le> length b" by (auto simp: get_u32_from_buf_def split: if_splits)
  then obtain b0 b1 b2 b3 r where "b = b0 # b1 # b2 # b3 # r"
    by (auto simp: numeral_eq_Suc Suc_le_length_iff)
  with get show "write_u32_to_buf v b = Some b"
    by (auto simp: get_u32_from_buf_def write_u32_to_buf_def buf_write_def overlay_def)
qed (auto simp: get_u32_from_buf_def write_u32_to_buf_def buf_write_def overlay_def nth_append
      eval_nat_numeral join32_bytes_Sucs split: if_splits)

section \<open>The ciphers are codecs\<close>

lemma upt256: "[0..<256] = 0 # 1 # [2..<256]"
  by (simp add: upt_rec)

lemma length_cipher_tables [simp]: "length encry_array = 256" "length decode_array = 256"
  by (simp_all add: encry_array_def decode_array_def)

lemma decode_encry_table: "map (\<lambda>b. decode_array ! unat b) encry_array = map of_nat [0..<256]"
  by (simp add: encry_array_def decode_array_def upt256 upt_rec_numeral)

lemma encry_decode_table: "map (\<lambda>b. encry_array ! unat b) decode_array = map of_nat [0..<256]"
  by (simp add: encry_array_def decode_array_def upt256 upt_rec_numeral)

lemma table_inverse:
  assumes "map (\<lambda>b. s ! unat b) t = map of_nat [0..<256]" and "length t = 256"
  shows "s ! unat (t ! unat (b :: u8)) = (b :: u8)"
proof -
  have "map (\<lambda>b. s ! unat b) t ! unat b = map of_nat [0..<256] ! unat b"
    by (simp only: assms(1))
  then show ?thesis by (simp add: assms(2))
qed

definition sub_encry :: "u8 \<Rightarrow> u8" where
  "sub_encry b = encry_array ! unat b"

definition sub_decode :: "u8 \<Rightarrow> u8" where
  "sub_decode b = decode_array ! unat b"

interpretation sub: codec sub_encry sub_decode
  by unfold_locales
    (simp_all add: sub_encry_def sub_decode_def table_inverse decode_encry_table encry_decode_table)

text \<open>A mask of one nibble keeps the bits of that nibble; the masks are those of the macros.\<close>

lemma bit_and_nibble:
  "bit (x AND push_bit k (mask 4)) n \<longleftrightarrow> k \<le> n \<and> n < k + 4 \<and> bit x n" for x :: "'a::len word"
  by (auto simp: bit_simps dest: bit_imp_le_length)

lemma bit_nibbles8:
  "bit ((x::u8) AND 0xf) n \<longleftrightarrow> 0 \<le> n \<and> n < 4 \<and> bit x n"
  "bit ((x::u8) AND 0xf0) n \<longleftrightarrow> 4 \<le> n \<and> n < 8 \<and> bit x n"
  using bit_and_nibble [of x 0 n] bit_and_nibble [of x 4 n]
  by (simp_all add: mask_eq_decr_exp)

lemma bit_nibbles16:
  "bit ((x::u16) AND 0xf) n \<longleftrightarrow> 0 \<le> n \<and> n < 4 \<and> bit x n"
  "bit ((x::u16) AND 0xf0) n \<longleftrightarrow> 4 \<le> n \<and> n < 8 \<and> bit x n"
  "bit ((x::u16) AND 0xf00) n \<longleftrightarrow> 8 \<le> n \<and> n < 12 \<and> bit x n"
  "bit ((x::u16) AND 0xf000) n \<longleftrightarrow> 12 \<le> n \<and> n < 16 \<and> bit x n"
  using bit_and_nibble [of x 0 n] bit_and_nibble [of x 4 n] bit_and_nibble [of x 8 n] bit_and_nibble [of x 12 n]
  by (simp_all add: mask_eq_decr_exp)

lemma bit_nibbles32:
  "bit ((x::u32) AND 0xf) n \<longleftrightarrow> 0 \<le> n \<and> n < 4 \<and> bit x n"
  "bit ((x::u32) AND 0xf0) n \<longleftrightarrow> 4 \<le> n \<and> n < 8 \<and> bit x n"
  "bit ((x::u32) AND 0xf00) n \<longleftrightarrow> 8 \<le> n \<and> n < 12 \<and> bit x n"
  "bit ((x::u32) AND 0xf000) n \<longleftrightarrow> 12 \<le> n \<and> n < 16 \<and> bit x n"
  "bit ((x::u32) AND 0xf0000) n \<longleftrightarrow> 16 \<le> n \<and> n < 20 \<and> bit x n"
  "bit ((x::u32) AND 0xf00000) n \<longleftrightarrow> 20 \<le> n \<and> n < 24 \<and> bit x n"
  "bit ((x::u32) AND 0xf000000) n \<longleftrightarrow> 24 \<le> n \<and> n < 28 \<and> bit x n"
  "bit ((x::u32) AND 0xf0000000) n \<longleftrightarrow> 28 \<le> n \<and> n < 32 \<and> bit x n"
  using bit_and_nibble [of x 0 n] bit_and_nibble [of x 4 n] bit_and_nibble [of x 8 n] bit_and_nibble [of x 12 n] bit_and_nibble [of x 16 n] bit_and_nibble [of x 20 n] bit_and_nibble [of x 24 n] bit_and_nibble [of x 28 n]
  by (simp_all add: mask_eq_decr_exp)

lemma bit_U8_encry: "bit (U8_ToBIT_ENCRY x) n \<longleftrightarrow> n < 8 \<and> bit x (if n < 4 then n + 4 else n - 4)"
  unfolding U8_ToBIT_ENCRY_def
  by (simp only: bit_or_iff bit_push_bit_iff bit_drop_bit_eq comp_apply bit_nibbles8)
    (auto simp: add.commute)

lemma bit_U16_encry: "bit (U16_ToBIT_ENCRY x) n \<longleftrightarrow> n < 16 \<and> bit x (if n < 12 then n + 4 else n - 12)"
  unfolding U16_ToBIT_ENCRY_def
  by (simp only: bit_or_iff bit_push_bit_iff bit_drop_bit_eq comp_apply bit_nibbles16)
    (auto simp: add.commute)

lemma bit_U16_decod: "bit (U16_ToBIT_DECOD x) n \<longleftrightarrow> n < 16 \<and> bit x (if n < 4 then n + 12 else n - 4)"
  unfolding U16_ToBIT_DECOD_def
  by (simp only: bit_or_iff bit_push_bit_iff bit_drop_bit_eq comp_apply bit_nibbles16)
    (auto simp: add.commute)

lemma upt32: "[0..<32] = [0, 1, 2, 3, 4, 5, 6, 7, 8, 9, 10, 11, 12, 13, 14, 15, 16, 17, 18, 19, 20, 21, 22, 23, 24, 25, 26, 27, 28, 29, 30, 31]"
  by (simp add: upt_rec)

lemma bit_U32_encry: "bit (U32_ToBIT_ENCRY x) n \<longleftrightarrow> n < 32 \<and> bit x (if n < 28 then n + 4 else n - 28)"
proof (cases "n < 32")
  case True
  then have "n \<in> set [0..<32]" by simp
  then show ?thesis
    unfolding U32_ToBIT_ENCRY_def bit_or_iff bit_push_bit_iff bit_drop_bit_eq comp_apply bit_nibbles32
    by (simp only: upt32 list.set) (elim insertE emptyE; simp)
qed (auto dest: bit_imp_le_length)

lemma bit_U32_decod: "bit (U32_ToBIT_DECOD x) n \<longleftrightarrow> n < 32 \<and> bit x (if n < 4 then n + 28 else n - 4)"
proof (cases "n < 32")
  case True
  then have "n \<in> set [0..<32]" by simp
  then show ?thesis
    unfolding U32_ToBIT_DECOD_def bit_or_iff bit_push_bit_iff bit_drop_bit_eq comp_apply bit_nibbles32
    by (simp only: upt32 list.set) (elim insertE emptyE; simp)
qed (auto dest: bit_imp_le_length)

interpretation nib8: codec U8_ToBIT_ENCRY U8_ToBIT_DECOD
proof -
  have "U8_ToBIT_DECOD = U8_ToBIT_ENCRY"
    by (rule ext) (simp only: U8_ToBIT_DECOD_def U8_ToBIT_ENCRY_def)
  then show "codec U8_ToBIT_ENCRY U8_ToBIT_DECOD"
    by unfold_locales (auto intro!: bit_word_eqI simp: bit_U8_encry split: if_splits)
qed

interpretation nib16: codec U16_ToBIT_ENCRY U16_ToBIT_DECOD
  by unfold_locales (auto intro!: bit_word_eqI simp: bit_U16_encry bit_U16_decod split: if_splits)

interpretation nib32: codec U32_ToBIT_ENCRY U32_ToBIT_DECOD
  by unfold_locales (auto intro!: bit_word_eqI simp: bit_U32_encry bit_U32_decod split: if_splits)

section \<open>The identifier\<close>

lemma length_uid_fill [simp]: "length (uid_fill k i u) = length u"
  by (induction k i u rule: uid_fill.induct) auto

lemma uid_fill_nth:
  "i + k \<le> 8 \<Longrightarrow> 16 \<le> length u \<Longrightarrow>
   uid_fill k i u ! j = (if 8 + i \<le> j \<and> j < 8 + i + k then u ! (j - 8) + 1 else u ! j)"
  by (induction k i u rule: uid_fill.induct) (auto simp: nth_list_update)

lemma uid_fill_8: "16 \<le> length u \<Longrightarrow>
   uid_fill 8 0 u ! j = (if 8 \<le> j \<and> j < 16 then u ! (j - 8) + 1 else u ! j)"
  by (simp add: uid_fill_nth)

lemma take_uid_fill:
  "16 \<le> length u \<Longrightarrow> take 14 (uid_fill 8 0 u) = take 8 u @ map (\<lambda>x. x + 1) (take 6 u)"
  by (rule nth_equalityI) (auto simp: uid_fill_8 nth_append)

section \<open>Properties\<close>

text \<open>
  Every cipher of the module is undone by its partner in both directions: the
  substitution tables are inverse permutations of the bytes, and the 8, 16 and 32-bit
  nibble permutations are inverse to each other.
\<close>

theorem ciphers_round_trip:
  "decode_array ! unat (encry_array ! unat b) = b \<and> encry_array ! unat (decode_array ! unat b) = b \<and>
   U8_ToBIT_DECOD (U8_ToBIT_ENCRY b) = b \<and>
   U16_ToBIT_DECOD (U16_ToBIT_ENCRY w) = w \<and> U16_ToBIT_ENCRY (U16_ToBIT_DECOD w) = w \<and>
   U32_ToBIT_DECOD (U32_ToBIT_ENCRY d) = d \<and> U32_ToBIT_ENCRY (U32_ToBIT_DECOD d) = d"
  using sub.round_trip [of b] nib8.dec_enc nib16.round_trip nib32.round_trip
  by (simp add: sub_encry_def sub_decode_def)

text \<open>
  The 32-bit accessors: writing succeeds exactly on buffers of at least four bytes,
  reading gives the value back, the length and the bytes after the field are kept, and
  writing back what was read changes nothing.
\<close>

theorem u32_field_round_trip:
  assumes "4 \<le> length b"
  shows "(\<exists>b'. write_u32_to_buf v b = Some b' \<and> get_u32_from_buf b' = Some v \<and>
               length b' = length b \<and> drop 4 b' = drop 4 b) \<and>
         (\<exists>w. get_u32_from_buf b = Some w \<and> write_u32_to_buf w b = Some b)"
  using assms u32_field.field_laws u32_field.get_total by blast

text \<open>
  \<open>UID_to_16Byte\<close> on a buffer of at least 16 bytes keeps the eight identifier bytes
  and everything after byte 15, fills bytes 8 to 13 with the first six bytes plus one
  (modulo 256), and stores in bytes 14 and 15 the CRC of bytes 0 to 13, low byte first.
\<close>

theorem UID_to_16Byte_layout:
  assumes "16 \<le> length u"
  shows "\<exists>crc. modbus_rtu_crc16 (take 8 u @ map (\<lambda>x. x + 1) (take 6 u)) 14 = Some crc \<and>
     UID_to_16Byte u = Some (take 8 u @ map (\<lambda>x. x + 1) (take 6 u) @
                             [byte_of 0 crc, byte_of 1 crc] @ drop 16 u)"
proof -
  let ?p = "take 8 u @ map (\<lambda>x. x + 1) (take 6 u)"
  have crc: "modbus_rtu_crc16 (uid_fill 8 0 u) 14 = modbus_rtu_crc16 ?p 14"
    using assms by (simp add: crc16_foldl take_uid_fill)
  obtain c where c: "modbus_rtu_crc16 ?p 14 = Some c"
    using assms by (simp add: crc16_foldl)
  have "(uid_fill 8 0 u)[14 := byte_of 0 c, 15 := byte_of 1 c] ! i =
      (?p @ [byte_of 0 c, byte_of 1 c] @ drop 16 u) ! i" if "i < length u" for i
    using assms that
    by (cases "i < 14"; cases "i = 14"; cases "i = 15") (auto simp: nth_list_update uid_fill_8 nth_append)
  then have "(uid_fill 8 0 u)[14 := byte_of 0 c, 15 := byte_of 1 c] =
      ?p @ [byte_of 0 c, byte_of 1 c] @ drop 16 u"
    using assms by (intro nth_equalityI) auto
  with assms c show ?thesis by (simp add: UID_to_16Byte_def Let_def crc)
qed

theorem u32_field_round_trip_witness:
  "(\<exists>b'. write_u32_to_buf 0x12345678 [9, 9, 9, 9, 7] = Some b' \<and> get_u32_from_buf b' = Some 0x12345678 \<and>
     length b' = length [9, 9, 9, 9, 7] \<and> drop 4 b' = drop 4 [9, 9, 9, 9, 7])"
  using u32_field_round_trip [of "[9, 9, 9, 9, 7]" "0x12345678"] by simp

theorem UID_to_16Byte_layout_witness:
  "\<exists>crc. modbus_rtu_crc16 [1, 2, 3, 4, 5, 6, 7, 255, 2, 3, 4, 5, 6, 7] 14 = Some crc \<and>
     UID_to_16Byte ([1, 2, 3, 4, 5, 6, 7, 255] @ replicate 8 0) =
       Some ([1, 2, 3, 4, 5, 6, 7, 255, 2, 3, 4, 5, 6, 7, byte_of 0 crc, byte_of 1 crc])"
  using UID_to_16Byte_layout [of "[1, 2, 3, 4, 5, 6, 7, 255] @ replicate 8 0"]
  by (simp add: numeral_eq_Suc)

end
