(* ===== verification/UidEncryption.thy ===== *)
theory UidEncryption
  imports NormalCalc
begin

text \<open>
  The chip-bound key of \<open>src/applications/UID_Encryption.c\<close> and its use at start-up in
  \<open>my_encry.c\<close> and \<open>init.c\<close>: the five key algorithms, the byte-order conversion, key
  calculation and key check, and the list of tasks that the result of the check lets run.
  \<open>C\<close> is the custom identifier and \<open>U\<close> the chip identifier, both 12-byte arrays.
\<close>

section \<open>Key algorithms\<close>

datatype eKeyLengthType = LENGTH_4 | LENGTH_8 | LENGTH_12

fun key_bytes :: "eKeyLengthType \<Rightarrow> nat" where
  "key_bytes LENGTH_4 = 4"
| "key_bytes LENGTH_8 = 8"
| "key_bytes LENGTH_12 = 12"

datatype eEndiaType = LITTLE_ENDIA | BIG_ENDIA

datatype eAlgorithmType = ALGORITHM_0 | ALGORITHM_1 | ALGORITHM_2 | ALGORITHM_3 | ALGORITHM_4

text \<open>Each algorithm stores the first four key bytes, then those that the key length adds.\<close>

definition Algorithm_0 :: "buf \<Rightarrow> buf \<Rightarrow> nat \<Rightarrow> buf \<Rightarrow> buf" where
  "Algorithm_0 C U KeyLength key =
    (let key = overlay key 0 [
        (U ! 0 XOR (C ! 3 AND C ! 2)) XOR C ! 1,
        C ! 1 OR (U ! 2 XOR (C ! 3 AND C ! 3)),
        (C ! 2 XOR C ! 1) OR (U ! 0 XOR C ! 0),
        ((C ! 3 AND C ! 0) XOR C ! 1) OR U ! 2];
         key = (if KeyLength = 8 then overlay key 4 [
        (U ! 4 XOR (C ! 7 AND C ! 5)) XOR C ! 5,
        C ! 5 OR (U ! 6 XOR (C ! 4 AND C ! 7)),
        (C ! 6 XOR C ! 5) OR (U ! 7 XOR C ! 4),
        ((C ! 7 AND C ! 4) XOR C ! 6) OR U ! 6] else key)
     in if KeyLength = 12 then overlay key 0 [
        (U ! 0 XOR (C ! 1 AND C ! 2)) XOR C ! 3,
        C ! 1 OR (U ! 1 XOR (C ! 3 AND C ! 4)),
        (C ! 2 XOR C ! 1) OR (U ! 2 XOR C ! 5),
        ((C ! 3 AND C ! 1) XOR C ! 5) OR U ! 3,
        (U ! 4 XOR (C ! 5 AND C ! 6)) XOR C ! 7,
        C ! 5 OR (U ! 5 XOR (C ! 7 AND C ! 8)),
        (C ! 6 XOR C ! 7) OR (U ! 6 XOR C ! 9),
        ((C ! 7 AND C ! 8) XOR C ! 9) OR U ! 7,
        (U ! 8 XOR (C ! 9 AND C ! 10)) XOR C ! 11,
        C ! 9 OR (U ! 9 XOR (C ! 11 AND C ! 0)),
        (C ! 10 XOR C ! 11) OR (U ! 0 XOR C ! 1),
        ((C ! 11 AND C ! 0) XOR C ! 1) OR U ! 2] else key)"

definition Algorithm_1 :: "buf \<Rightarrow> buf \<Rightarrow> nat \<Rightarrow> buf \<Rightarrow> buf" where
  "Algorithm_1 C U KeyLength key =
    (let key = overlay key 0 [
        ((U ! 0 XOR C ! 1) XOR C ! 2) XOR C ! 3,
        ((C ! 1 XOR U ! 1) XOR C ! 3) XOR C ! 0,
        ((C ! 2 XOR C ! 1) XOR U ! 2) XOR C ! 3,
        ((C ! 3 XOR C ! 1) XOR C ! 0) XOR U ! 3];
         key = (if KeyLength = 8 then overlay key 4 [
        ((U ! 4 XOR C ! 5) XOR C ! 6) XOR C ! 7,
        ((C ! 5 XOR U ! 5) XOR C ! 7) XOR C ! 2,
        ((C ! 6 XOR C ! 7) XOR U ! 6) XOR C ! 3,
        ((C ! 7 XOR C ! 4) XOR C ! 5) XOR U ! 4] else key)
     in if KeyLength = 12 then overlay key 0 [
        ((U ! 0 XOR C ! 1) XOR C ! 2) XOR C ! 3,
        ((C ! 1 XOR U ! 1) XOR C ! 3) XOR C ! 4,
        ((C ! 2 XOR C ! 1) XOR U ! 2) XOR C ! 5,
        ((C ! 3 XOR C ! 1) XOR C ! 5) XOR U ! 3,
        ((U ! 4 XOR C ! 5) XOR C ! 6) XOR C ! 7,
        ((C ! 5 XOR U ! 5) XOR C ! 7) XOR C ! 8,
        ((C ! 6 XOR C ! 7) XOR U ! 6) XOR C ! 9,
        ((C ! 7 XOR C ! 8) XOR C ! 9) XOR U ! 7,
        ((U ! 8 XOR C ! 9) XOR C ! 10) XOR C ! 11,
        ((C ! 9 XOR U ! 9) XOR C ! 11) XOR C ! 0,
        ((C ! 10 XOR C ! 11) XOR U ! 0) XOR C ! 1,
        ((C ! 11 XOR C ! 0) XOR C ! 1) XOR U ! 2] else key)"

definition Algorithm_2 :: "buf \<Rightarrow> buf \<Rightarrow> nat \<Rightarrow> buf \<Rightarrow> buf" where
  "Algorithm_2 C U KeyLength key =
    (let key = overlay key 0 [
        ((U ! 0 AND C ! 1) XOR C ! 2) XOR C ! 3,
        (C ! 1 XOR (U ! 1 AND C ! 3)) XOR C ! 0,
        (C ! 2 OR (C ! 1 XOR U ! 2)) OR C ! 3,
        (C ! 3 XOR C ! 1) OR (C ! 0 XOR U ! 3)];
         key = (if KeyLength = 8 then overlay key 4 [
        (U ! 4 XOR (C ! 5 AND C ! 6)) XOR C ! 7,
        C ! 5 OR (U ! 5 XOR (C ! 7 AND C ! 2)),
        ((C ! 6 AND C ! 7) XOR U ! 6) OR C ! 3,
        (C ! 7 XOR C ! 4) OR (C ! 1 XOR U ! 2)] else key)
     in if KeyLength = 12 then overlay key 0 [
        ((U ! 0 AND C ! 1) XOR C ! 2) XOR C ! 3,
        (C ! 1 XOR (U ! 1 AND C ! 3)) XOR C ! 4,
        (C ! 2 OR (C ! 1 XOR U ! 2)) OR C ! 5,
        (C ! 3 XOR C ! 1) OR (C ! 5 XOR U ! 3),
        (U ! 4 XOR (C ! 5 AND C ! 6)) XOR C ! 7,
        C ! 5 OR (U ! 5 XOR (C ! 7 AND C ! 8)),
        ((C ! 6 AND C ! 7) XOR U ! 6) OR C ! 9,
        (C ! 7 XOR C ! 8) OR (C ! 9 XOR U ! 7),
        (U ! 8 XOR (C ! 9 AND C ! 10)) XOR C ! 11,
        (C ! 9 XOR U ! 9) OR (C ! 11 AND C ! 0),
        ((C ! 10 AND C ! 11) XOR U ! 0) XOR C ! 1,
        (C ! 11 XOR (C ! 0 AND C ! 1)) XOR U ! 2] else key)"

definition Algorithm_3 :: "buf \<Rightarrow> buf \<Rightarrow> nat \<Rightarrow> buf \<Rightarrow> buf" where
  "Algorithm_3 C U KeyLength key =
    (let key = overlay key 0 [
        ((U ! 0 AND C ! 1) XOR C ! 2) XOR C ! 3,
        (U ! 1 XOR (C ! 2 AND C ! 3)) XOR C ! 4,
        (U ! 2 OR (C ! 3 XOR C ! 4)) OR C ! 5,
        (U ! 3 XOR C ! 4) OR (C ! 5 XOR C ! 6)];
         key = (if KeyLength = 8 then overlay key 4 [
        (C ! 4 XOR (U ! 5 AND C ! 6)) XOR C ! 7,
        C ! 5 OR (U ! 6 XOR (C ! 7 AND C ! 4)),
        ((C ! 6 AND U ! 7) XOR C ! 6) OR C ! 3,
        (C ! 7 XOR U ! 4) OR (C ! 5 XOR C ! 6)] else key)
     in if KeyLength = 12 then overlay key 0 [
        ((U ! 0 AND C ! 1) XOR C ! 2) XOR C ! 3,
        (U ! 1 XOR (C ! 2 AND C ! 3)) XOR C ! 4,
        (U ! 2 OR (C ! 3 XOR C ! 4)) OR C ! 5,
        (U ! 3 XOR C ! 4) OR (C ! 5 XOR C ! 6),
        (C ! 4 XOR (U ! 5 AND C ! 6)) XOR C ! 7,
        C ! 5 OR (U ! 6 XOR (C ! 7 AND C ! 8)),
        ((C ! 6 AND U ! 7) XOR C ! 6) OR C ! 9,
        (C ! 7 XOR U ! 8) OR (C ! 9 XOR C ! 10),
        (C ! 8 XOR (C ! 9 AND U ! 10)) XOR C ! 11,
        (C ! 9 XOR C ! 10) OR (U ! 11 AND C ! 0),
        ((C ! 10 AND C ! 11) XOR U ! 0) XOR C ! 1,
        (C ! 11 XOR (C ! 0 AND U ! 1)) XOR C ! 2] else key)"

definition Algorithm_4 :: "buf \<Rightarrow> buf \<Rightarrow> nat \<Rightarrow> buf \<Rightarrow> buf" where
  "Algorithm_4 C U KeyLength key =
    (let key = overlay key 0 [
        (U ! 0 AND C ! 1) XOR (U ! 2 AND C ! 3),
        (C ! 1 XOR (U ! 2 AND C ! 3)) XOR U ! 4,
        (C ! 2 OR (U ! 3 XOR U ! 4)) OR C ! 3,
        (U ! 3 - C ! 0) OR (C ! 2 XOR U ! 3)];
         key = (if KeyLength = 8 then overlay key 4 [
        (U ! 4 XOR (C ! 5 AND U ! 6)) XOR C ! 7,
        C ! 5 OR (U ! 6 XOR (C ! 7 AND U ! 8)),
        ((C ! 6 AND U ! 7) XOR C ! 6) OR U ! 9,
        (U ! 7 - C ! 3) OR (U ! 9 XOR C ! 5)] else key)
     in if KeyLength = 12 then overlay key 0 [
        (U ! 0 AND C ! 1) XOR (U ! 2 AND C ! 3),
        (C ! 1 XOR (U ! 2 AND C ! 3)) XOR U ! 4,
        (C ! 2 OR (U ! 3 XOR U ! 4)) OR C ! 5,
        (U ! 3 - C ! 4) OR (C ! 5 XOR U ! 6),
        (U ! 4 XOR (C ! 5 AND U ! 6)) XOR C ! 7,
        C ! 5 OR (U ! 6 XOR (C ! 7 AND U ! 8)),
        ((C ! 6 AND U ! 7) XOR C ! 6) OR U ! 9,
        (U ! 7 - C ! 8) OR (U ! 9 XOR C ! 10),
        (C ! 8 XOR (U ! 9 AND C ! 10)) XOR U ! 11,
        (U ! 9 XOR C ! 10) OR (U ! 11 AND C ! 0),
        ((U ! 10 AND C ! 11) XOR U ! 0) XOR C ! 1,
        ((C ! 11 - U ! 0) AND C ! 1) XOR U ! 2] else key)"

fun Algorithm_Fun_Array :: "eAlgorithmType \<Rightarrow> buf \<Rightarrow> buf \<Rightarrow> nat \<Rightarrow> buf \<Rightarrow> buf" where
  "Algorithm_Fun_Array ALGORITHM_0 = Algorithm_0"
| "Algorithm_Fun_Array ALGORITHM_1 = Algorithm_1"
| "Algorithm_Fun_Array ALGORITHM_2 = Algorithm_2"
| "Algorithm_Fun_Array ALGORITHM_3 = Algorithm_3"
| "Algorithm_Fun_Array ALGORITHM_4 = Algorithm_4"

section \<open>Byte order\<close>

definition BigLittleSwap32 :: "u32 \<Rightarrow> u32" where
  "BigLittleSwap32 A =
     drop_bit 24 (A AND 0xFF000000) OR drop_bit 8 (A AND 0x00FF0000) OR
     push_bit 8 (A AND 0x0000FF00) OR push_bit 24 (A AND 0x000000FF)"

text \<open>The buffer is read and written as 32-bit words of a little-endian machine.\<close>

fun interconvert_from :: "nat \<Rightarrow> nat \<Rightarrow> buf \<Rightarrow> buf option" where
  "interconvert_from i 0 b = Some b"
| "interconvert_from i (Suc k) b =
     (case get_u32_from_buf (drop (4 * i) b) of
        None \<Rightarrow> None
      | Some w \<Rightarrow>
          (case write_u32_to_buf (BigLittleSwap32 w) (drop (4 * i) b) of
             None \<Rightarrow> None
           | Some t \<Rightarrow> interconvert_from (Suc i) k (take (4 * i) b @ t)))"

definition LittleEndia_BigEndia_Interconvert_32 :: "buf \<Rightarrow> nat \<Rightarrow> buf option" where
  "LittleEndia_BigEndia_Interconvert_32 pBuffer WordLen = interconvert_from 0 WordLen pBuffer"

section \<open>Calculation and check\<close>

text \<open>\<open>None\<close>: an identifier array of fewer than 12 bytes, or a key array too short.\<close>

definition UID_Encryption_Key_Calculate ::
    "buf \<Rightarrow> buf \<Rightarrow> buf \<Rightarrow> eKeyLengthType \<Rightarrow> eEndiaType \<Rightarrow> eAlgorithmType \<Rightarrow> buf option" where
  "UID_Encryption_Key_Calculate pKey pUID pCustomID keyLength endiaType AlgorithmNum =
     (if length pCustomID < 12 \<or> length pUID < 12 \<or> length pKey < key_bytes keyLength then None
      else
        let key = Algorithm_Fun_Array AlgorithmNum pCustomID pUID (key_bytes keyLength) pKey
        in if endiaType = BIG_ENDIA
           then LittleEndia_BigEndia_Interconvert_32 key (key_bytes keyLength div 4)
           else Some key)"

text \<open>The comparison loop: 1 at the first differing byte, 0 when the first \<open>n\<close> agree.\<close>

fun key_compare :: "nat \<Rightarrow> buf \<Rightarrow> buf \<Rightarrow> u8" where
  "key_compare (Suc n) (k # pk) (b # pb) = (if k \<noteq> b then 1 else key_compare n pk pb)"
| "key_compare n pk pb = 0"

definition UID_Encryption_Key_Check ::
    "buf \<Rightarrow> buf \<Rightarrow> buf \<Rightarrow> eKeyLengthType \<Rightarrow> eEndiaType \<Rightarrow> eAlgorithmType \<Rightarrow> u8 option" where
  "UID_Encryption_Key_Check pKey pUID pCustomID keyLength endiaType AlgorithmNum =
     (if length pCustomID < 12 \<or> length pUID < 12 \<or> length pKey < key_bytes keyLength then None
      else
        let KeyBuf = Algorithm_Fun_Array AlgorithmNum pCustomID pUID (key_bytes keyLength)
                       (replicate 12 0)
        in map_option (key_compare (key_bytes keyLength) pKey)
             (if endiaType = BIG_ENDIA
              then LittleEndia_BigEndia_Interconvert_32 KeyBuf (key_bytes keyLength div 4)
              else Some KeyBuf))"

section \<open>Start-up\<close>

definition myCID :: buf where
  "myCID = [0x15, 0x10, 0x21, 0x91, 0x12, 0x41, 0x51, 0x36, 0x74, 0x51, 0x20, 0x05]"

text \<open>
  \<open>my_encry_init\<close>: the value of \<open>is_encry_ok\<close>, for either setting of the compile-time
  switch \<open>STM32_UID_ENCRY\<close>; \<open>key_flash\<close> and \<open>uid_rom\<close> are the bytes at
  \<open>0x0800C000\<close> and \<open>0x1FFF7A10\<close>.
\<close>

definition my_encry_init :: "bool \<Rightarrow> buf \<Rightarrow> buf \<Rightarrow> u8 option" where
  "my_encry_init STM32_UID_ENCRY key_flash uid_rom =
     (if STM32_UID_ENCRY
      then map_option (\<lambda>checkResult. if checkResult = 0 then 1 else 0)
             (UID_Encryption_Key_Check key_flash uid_rom myCID LENGTH_12 LITTLE_ENDIA ALGORITHM_0)
      else Some 1)"

datatype task = can_task | lcr_task | BD_task | WS2812B_task | BOARD_SWITCH_task

definition Task_Init :: "u8 \<Rightarrow> task list" where
  "Task_Init is_encry_ok =
     can_task # (if is_encry_ok \<noteq> 0 then [lcr_task, BD_task, WS2812B_task, BOARD_SWITCH_task] else [])"

section \<open>The algorithms write a prefix that does not depend on the key array\<close>

definition key_out :: "eAlgorithmType \<Rightarrow> buf \<Rightarrow> buf \<Rightarrow> eKeyLengthType \<Rightarrow> buf" where
  "key_out alg C U len = take (key_bytes len) (Algorithm_Fun_Array alg C U (key_bytes len) (replicate 12 0))"

lemmas algorithm_defs =
  Algorithm_0_def Algorithm_1_def Algorithm_2_def Algorithm_3_def Algorithm_4_def

lemma key_list_cases:
  assumes "key_bytes len \<le> length key"
  obtains (L4) a b c d r where "len = LENGTH_4" "key = a # b # c # d # r"
  | (L8) a b c d e f g h r where "len = LENGTH_8" "key = a # b # c # d # e # f # g # h # r"
  | (L12) a b c d e f g h i j k l r where "len = LENGTH_12"
      "key = a # b # c # d # e # f # g # h # i # j # k # l # r"
  using assms by (cases len) (auto simp: numeral_eq_Suc Suc_le_length_iff)

lemma algorithm_prefix:
  assumes "key_bytes len \<le> length key"
  shows "Algorithm_Fun_Array alg C U (key_bytes len) key = key_out alg C U len @ drop (key_bytes len) key"
  using assms
  by (cases rule: key_list_cases; cases alg)
    (simp_all add: key_out_def algorithm_defs overlay_def Let_def)

lemma length_key_out [simp]: "length (key_out alg C U len) = key_bytes len"
  by (cases len; cases alg) (simp_all add: key_out_def algorithm_defs overlay_def Let_def)

section \<open>The byte swap reverses groups of four\<close>

lemma BigLittleSwap32_join: "BigLittleSwap32 (join32 b3 b2 b1 b0) = join32 b0 b1 b2 b3"
proof -
  have m: "(0xFF000000 :: u32) = push_bit 24 (mask 8)" "(0x00FF0000 :: u32) = push_bit 16 (mask 8)"
    "(0x0000FF00 :: u32) = push_bit 8 (mask 8)" "(0x000000FF :: u32) = mask 8"
    by (simp_all add: mask_eq_decr_exp)
  show ?thesis
    unfolding BigLittleSwap32_def m
    by (rule bit_word_eqI)
      (auto simp: bit_or_iff bit_and_iff bit_push_bit_iff bit_drop_bit_eq bit_mask_iff bit_join32)
qed

fun rev_groups :: "nat \<Rightarrow> buf \<Rightarrow> buf" where
  "rev_groups (Suc k) (a # b # c # d # r) = d # c # b # a # rev_groups k r"
| "rev_groups k b = b"

lemma rev_groups_twice: "rev_groups k (rev_groups k b) = b"
  by (induction k b rule: rev_groups.induct) auto

lemma few_groups:
  "4 * k \<le> Suc 0 \<longleftrightarrow> k = 0" "4 * k \<le> Suc (Suc 0) \<longleftrightarrow> k = 0"
  "4 * k \<le> Suc (Suc (Suc 0)) \<longleftrightarrow> k = 0"
  by arith+

lemma rev_groups_append: "4 * k \<le> length b \<Longrightarrow> rev_groups k (b @ r) = rev_groups k b @ r"
  by (induction k b rule: rev_groups.induct) (auto simp: few_groups)

lemma length_rev_groups [simp]: "length (rev_groups k b) = length b"
  by (induction k b rule: rev_groups.induct) auto

lemma interconvert_from_groups:
  "4 * (i + k) \<le> length b \<Longrightarrow>
   interconvert_from i k b = Some (take (4 * i) b @ rev_groups k (drop (4 * i) b))"
proof (induction i k b rule: interconvert_from.induct)
  case (2 i k b)
  then have "4 \<le> length (drop (4 * i) b)" by simp
  then obtain a0 a1 a2 a3 r where d: "drop (4 * i) b = a0 # a1 # a2 # a3 # r"
    by (rule list4E)
  let ?t = "a3 # a2 # a1 # a0 # r"
  have get: "get_u32_from_buf (drop (4 * i) b) = Some (join32 a3 a2 a1 a0)"
    by (simp add: d get_u32_from_buf_def)
  have put: "write_u32_to_buf (BigLittleSwap32 (join32 a3 a2 a1 a0)) (drop (4 * i) b) = Some ?t"
    by (simp add: d BigLittleSwap32_join write_u32_to_buf_def buf_write_def overlay_def)
  have le: "4 * i \<le> length b" using 2 by simp
  have "interconvert_from (Suc i) k (take (4 * i) b @ ?t) =
      Some (take (4 * Suc i) (take (4 * i) b @ ?t) @ rev_groups k (drop (4 * Suc i) (take (4 * i) b @ ?t)))"
    by (rule "2.IH" [OF get put]) (use "2.prems" arg_cong [OF d, of length] in auto)
  then show ?case by (simp add: get [unfolded d] put [unfolded d] d min_absorb2 [OF le])
qed simp

lemma interconvert_groups:
  "4 * k \<le> length b \<Longrightarrow> LittleEndia_BigEndia_Interconvert_32 b k = Some (rev_groups k b)"
  by (simp add: LittleEndia_BigEndia_Interconvert_32_def interconvert_from_groups)

section \<open>Calculation and check in closed form\<close>

definition chip_key :: "buf \<Rightarrow> buf \<Rightarrow> eKeyLengthType \<Rightarrow> eEndiaType \<Rightarrow> eAlgorithmType \<Rightarrow> buf" where
  "chip_key U C len en alg =
     (if en = BIG_ENDIA then rev_groups (key_bytes len div 4) (key_out alg C U len)
      else key_out alg C U len)"

lemma length_chip_key [simp]: "length (chip_key U C len en alg) = key_bytes len"
  by (simp add: chip_key_def)

lemma key_bytes_div: "4 * (key_bytes len div 4) = key_bytes len"
  by (cases len) auto

lemma key_bytes_le: "key_bytes len \<le> 12"
  by (cases len) auto

lemma calculate_eq:
  "12 \<le> length C \<Longrightarrow> 12 \<le> length U \<Longrightarrow> key_bytes len \<le> length key \<Longrightarrow>
   UID_Encryption_Key_Calculate key U C len en alg =
     Some (chip_key U C len en alg @ drop (key_bytes len) key)"
  by (simp add: UID_Encryption_Key_Calculate_def Let_def algorithm_prefix chip_key_def
      interconvert_groups key_bytes_div rev_groups_append)

lemma key_compare_take:
  "n \<le> length pk \<Longrightarrow> n \<le> length pb \<Longrightarrow> key_compare n pk pb = (if take n pk = take n pb then 0 else 1)"
  by (induction n pk pb rule: key_compare.induct) auto

lemma check_eq:
  "12 \<le> length C \<Longrightarrow> 12 \<le> length U \<Longrightarrow> key_bytes len \<le> length key \<Longrightarrow>
   UID_Encryption_Key_Check key U C len en alg =
     Some (if take (key_bytes len) key = chip_key U C len en alg then 0 else 1)"
  using key_bytes_le [of len]
  by (simp add: UID_Encryption_Key_Check_def Let_def algorithm_prefix chip_key_def
      interconvert_groups key_bytes_div rev_groups_append key_compare_take)

section \<open>Properties\<close>

text \<open>
  The check accepts exactly the calculated key. Whatever key \<open>k\<close>
  \<open>UID_Encryption_Key_Calculate\<close> stores (over any previous contents), the check with the
  same identifiers, length, byte order and algorithm returns 0 on a key array whose first
  \<open>keyLength\<close> bytes are those of \<open>k\<close>, and 1 on every other key array.
\<close>

theorem key_check_accepts_calculated:
  assumes "UID_Encryption_Key_Calculate k0 U C len en alg = Some k"
    and "key_bytes len \<le> length key"
  shows "UID_Encryption_Key_Check key U C len en alg =
           Some (if take (key_bytes len) key = take (key_bytes len) k then 0 else 1)"
proof -
  have len: "12 \<le> length C" "12 \<le> length U" "key_bytes len \<le> length k0"
    using assms(1) by (auto simp: UID_Encryption_Key_Calculate_def split: if_splits)
  then have "take (key_bytes len) k = chip_key U C len en alg"
    using assms(1) by (auto simp: calculate_eq)
  with len assms(2) show ?thesis by (simp add: check_eq)
qed

theorem key_check_accepts_calculated_witness:
  "\<exists>k. UID_Encryption_Key_Calculate (replicate 12 0) (replicate 12 7) myCID LENGTH_8 BIG_ENDIA ALGORITHM_4 = Some k \<and>
       UID_Encryption_Key_Check k (replicate 12 7) myCID LENGTH_8 BIG_ENDIA ALGORITHM_4 = Some 0"
proof -
  have c: "UID_Encryption_Key_Calculate (replicate 12 0) (replicate 12 7) myCID LENGTH_8 BIG_ENDIA ALGORITHM_4 =
      Some (chip_key (replicate 12 7) myCID LENGTH_8 BIG_ENDIA ALGORITHM_4 @ drop 8 (replicate 12 0))"
    by (simp add: calculate_eq myCID_def)
  show ?thesis
    using key_check_accepts_calculated [OF c, of "chip_key (replicate 12 7) myCID LENGTH_8 BIG_ENDIA ALGORITHM_4"] c
    by (simp add: check_eq myCID_def)
qed

text \<open>
  With algorithm 1 and a 12-byte key, two chips share a key only if the first ten bytes
  of their identifiers agree; with algorithms 0 and 1 the last two bytes have no influence,
  so a key is accepted on every chip that agrees with its own in the first ten bytes.
\<close>

theorem key_uid_dependence:
  assumes "length U = 12" and "length U' = 12" and "12 \<le> length C"
  shows "(UID_Encryption_Key_Calculate key U C LENGTH_12 en ALGORITHM_1 =
          UID_Encryption_Key_Calculate key U' C LENGTH_12 en ALGORITHM_1 \<and> 12 \<le> length key
            \<longrightarrow> take 10 U = take 10 U') \<and>
         (take 10 U = take 10 U' \<and> alg \<in> {ALGORITHM_0, ALGORITHM_1}
            \<longrightarrow> UID_Encryption_Key_Check key U C LENGTH_12 en alg =
                UID_Encryption_Key_Check key U' C LENGTH_12 en alg)"
proof -
  obtain u0 u1 u2 u3 u4 u5 u6 u7 u8 u9 u10 u11
    where U: "U = [u0, u1, u2, u3, u4, u5, u6, u7, u8, u9, u10, u11]"
    using assms(1) by (auto simp: numeral_eq_Suc length_Suc_conv)
  obtain v0 v1 v2 v3 v4 v5 v6 v7 v8 v9 v10 v11
    where V: "U' = [v0, v1, v2, v3, v4, v5, v6, v7, v8, v9, v10, v11]"
    using assms(2) by (auto simp: numeral_eq_Suc length_Suc_conv)
  have inj: "chip_key U C LENGTH_12 en alg = chip_key U' C LENGTH_12 en alg \<longleftrightarrow>
      key_out alg C U LENGTH_12 = key_out alg C U' LENGTH_12" for alg
    by (metis chip_key_def rev_groups_twice)
  have alg1: "key_out ALGORITHM_1 C U LENGTH_12 = key_out ALGORITHM_1 C U' LENGTH_12 \<Longrightarrow> take 10 U = take 10 U'"
    by (simp add: U V key_out_def Algorithm_1_def overlay_def Let_def)
  have same: "key_out alg C U LENGTH_12 = key_out alg C U' LENGTH_12"
    if "take 10 U = take 10 U'" "alg \<in> {ALGORITHM_0, ALGORITHM_1}"
    using that by (elim insertE emptyE) (simp_all add: U V key_out_def Algorithm_0_def Algorithm_1_def)
  have "chip_key U C LENGTH_12 en ALGORITHM_1 = chip_key U' C LENGTH_12 en ALGORITHM_1"
    if "12 \<le> length key" and "UID_Encryption_Key_Calculate key U C LENGTH_12 en ALGORITHM_1 =
          UID_Encryption_Key_Calculate key U' C LENGTH_12 en ALGORITHM_1"
    using that assms by (simp add: calculate_eq)
  then have "UID_Encryption_Key_Calculate key U C LENGTH_12 en ALGORITHM_1 =
          UID_Encryption_Key_Calculate key U' C LENGTH_12 en ALGORITHM_1 \<and> 12 \<le> length key
            \<longrightarrow> take 10 U = take 10 U'"
    using inj alg1 by blast
  moreover have "UID_Encryption_Key_Check key U C LENGTH_12 en alg =
                UID_Encryption_Key_Check key U' C LENGTH_12 en alg"
    if "take 10 U = take 10 U'" "alg \<in> {ALGORITHM_0, ALGORITHM_1}"
  proof (cases "12 \<le> length key")
    case True
    have "chip_key U C LENGTH_12 en alg = chip_key U' C LENGTH_12 en alg"
      using inj same [OF that] by blast
    with assms True show ?thesis by (simp add: check_eq)
  next
    case False
    then show ?thesis by (simp add: UID_Encryption_Key_Check_def)
  qed
  ultimately show ?thesis by blast
qed

theorem key_uid_dependence_witness:
  "UID_Encryption_Key_Check (replicate 12 5) [1, 2, 3, 4, 5, 6, 7, 8, 9, 10, 11, 12] myCID LENGTH_12 LITTLE_ENDIA ALGORITHM_0 =
   UID_Encryption_Key_Check (replicate 12 5) [1, 2, 3, 4, 5, 6, 7, 8, 9, 10, 99, 99] myCID LENGTH_12 LITTLE_ENDIA ALGORITHM_0"
  using key_uid_dependence [of "[1, 2, 3, 4, 5, 6, 7, 8, 9, 10, 11, 12]"
      "[1, 2, 3, 4, 5, 6, 7, 8, 9, 10, 99, 99]" myCID "replicate 12 5" LITTLE_ENDIA ALGORITHM_0]
  by (simp add: myCID_def)

text \<open>
  C38: start-up. With the key check compiled in, the measuring, sensor, light and switch
  tasks start exactly when the first 12 bytes of the key area are the key calculated for
  the chip; the CAN task starts in any case. With the check compiled out, as the source is
  configured, all tasks always start.
\<close>

theorem startup_gated_by_key:
  assumes "UID_Encryption_Key_Calculate k0 uid_rom myCID LENGTH_12 LITTLE_ENDIA ALGORITHM_0 = Some k"
    and "12 \<le> length key_flash"
  shows "map_option Task_Init (my_encry_init True key_flash uid_rom) =
           Some (if take 12 key_flash = take 12 k
                 then [can_task, lcr_task, BD_task, WS2812B_task, BOARD_SWITCH_task]
                 else [can_task]) \<and>
         map_option Task_Init (my_encry_init False key_flash uid_rom) =
           Some [can_task, lcr_task, BD_task, WS2812B_task, BOARD_SWITCH_task]"
proof -
  have len: "12 \<le> length uid_rom" "12 \<le> length k0" "length myCID = 12"
    using assms(1) by (auto simp: UID_Encryption_Key_Calculate_def myCID_def split: if_splits)
  then have "take 12 k = chip_key uid_rom myCID LENGTH_12 LITTLE_ENDIA ALGORITHM_0"
    using assms(1) by (auto simp: calculate_eq)
  with len assms(2) show ?thesis
    by (simp add: my_encry_init_def Task_Init_def check_eq)
qed

theorem startup_gated_by_key_witness:
  "map_option Task_Init (my_encry_init True (replicate 16 0) (replicate 12 7)) = Some [can_task]"
proof -
  have c: "UID_Encryption_Key_Calculate (replicate 12 0) (replicate 12 7) myCID LENGTH_12 LITTLE_ENDIA ALGORITHM_0 =
      Some (chip_key (replicate 12 7) myCID LENGTH_12 LITTLE_ENDIA ALGORITHM_0)"
    by (simp add: calculate_eq myCID_def)
  have "take 12 (replicate 16 0) \<noteq> take 12 (chip_key (replicate 12 7) myCID LENGTH_12 LITTLE_ENDIA ALGORITHM_0)"
    by (simp add: chip_key_def key_out_def Algorithm_0_def myCID_def overlay_def Let_def numeral_eq_Suc)
  then show ?thesis using startup_gated_by_key [OF c, of "replicate 16 0"] by simp
qed

end
