(* ===== verification/Float32.thy ===== *)
theory Float32
  imports Complex_Main
begin

text \<open>
  The arithmetic of the C type \<open>float\<close> on finite values. A finite float is the rational it
  stands for; an operation is the exact rational operation followed by rounding to the
  nearest multiple of the unit in the last place, ties to even, with 24 bits of precision
  and gradual underflow below \<open>2 powi -126\<close>. Infinities and NaN are outside the model: the
  theorems that use it keep their operands in ranges where no operation overflows.
\<close>

type_synonym f32 = rat

section \<open>Rounding\<close>

fun ilog2_nat :: "nat \<Rightarrow> nat" where
  "ilog2_nat n = (if n < 2 then 0 else Suc (ilog2_nat (n div 2)))"

declare ilog2_nat.simps [simp del]

text \<open>The exponent of a positive rational: \<open>2 powi e \<le> x < 2 powi (e + 1)\<close>.\<close>

definition ilog2 :: "rat \<Rightarrow> int" where
  "ilog2 x =
     (let (p, q) = quotient_of x;
          e = int (ilog2_nat (nat p)) - int (ilog2_nat (nat q))
      in if 2 powi e \<le> x then e else e - 1)"

definition round_even :: "rat \<Rightarrow> int" where
  "round_even x =
     (let f = floor x; r = x - of_int f
      in if r < 1 / 2 then f else if 1 / 2 < r then f + 1 else if even f then f else f + 1)"

definition f32_exp :: "rat \<Rightarrow> int" where
  "f32_exp x = max (ilog2 \<bar>x\<bar>) (-126)"

definition f32_round :: "rat \<Rightarrow> f32" where
  "f32_round x =
     (if x = 0 then 0
      else let u = 2 powi (f32_exp x - 23) in of_int (round_even (x / u)) * u)"

definition f32_add :: "f32 \<Rightarrow> f32 \<Rightarrow> f32" where "f32_add a b = f32_round (a + b)"
definition f32_sub :: "f32 \<Rightarrow> f32 \<Rightarrow> f32" where "f32_sub a b = f32_round (a - b)"
definition f32_mul :: "f32 \<Rightarrow> f32 \<Rightarrow> f32" where "f32_mul a b = f32_round (a * b)"
definition f32_div :: "f32 \<Rightarrow> f32 \<Rightarrow> f32" where "f32_div a b = f32_round (a / b)"

section \<open>The exponent\<close>

lemma powi_add1: "(2 :: rat) powi (e + 1) = 2 * 2 powi e"
  by (simp add: power_int_add)

lemma powi_diff1: "(2 :: rat) powi (e - 1) = 2 powi e / 2"
  by (simp add: power_int_diff)

lemma powi_shift:
  "(2 :: rat) powi (e + 1) = 2 ^ 24 * 2 powi (e - 23)" "(2 :: rat) powi e = 2 ^ 23 * 2 powi (e - 23)"
proof -
  have "(2 :: rat) powi (24 + (e - 23)) = 2 powi 24 * 2 powi (e - 23)"
    "(2 :: rat) powi (23 + (e - 23)) = 2 powi 23 * 2 powi (e - 23)"
    by (intro power_int_add; simp)+
  then show "(2 :: rat) powi (e + 1) = 2 ^ 24 * 2 powi (e - 23)" "(2 :: rat) powi e = 2 ^ 23 * 2 powi (e - 23)"
    by (simp_all add: add.commute)
qed

lemma powi_less_imp: "(2 :: rat) powi i < 2 powi j \<Longrightarrow> i < j"
  by (meson leD linorder_not_less one_le_numeral power_int_increasing)

lemma ilog2_nat_bounds: "0 < n \<Longrightarrow> 2 ^ ilog2_nat n \<le> n \<and> n < 2 ^ Suc (ilog2_nat n)"
proof (induction n rule: ilog2_nat.induct)
  case (1 n)
  show ?case
  proof (cases "n < 2")
    case True
    with 1 show ?thesis by (simp add: ilog2_nat.simps [of n])
  next
    case False
    with 1 have "2 ^ ilog2_nat (n div 2) \<le> n div 2 \<and> n div 2 < 2 ^ Suc (ilog2_nat (n div 2))"
      by simp
    with False show ?thesis by (simp add: ilog2_nat.simps [of n]) linarith
  qed
qed

lemma ilog2_bounds:
  assumes "0 < x"
  shows "2 powi ilog2 x \<le> x" and "x < 2 powi (ilog2 x + 1)"
proof -
  obtain p q where pq: "quotient_of x = (p, q)" by force
  then have q: "0 < q" and x: "x = of_int p / of_int q"
    using quotient_of_denom_pos quotient_of_div by blast+
  with assms have p: "0 < p" by (simp add: zero_less_divide_iff)
  define a b where "a = ilog2_nat (nat p)" and "b = ilog2_nat (nat q)"
  have bounds: "2 ^ a \<le> nat p" "nat p < 2 ^ Suc a" "2 ^ b \<le> nat q" "nat q < 2 ^ Suc b"
    using ilog2_nat_bounds [of "nat p"] ilog2_nat_bounds [of "nat q"] p q
    by (auto simp: a_def b_def)
  have conv: "of_nat (nat k) = (of_int k :: rat)" if "0 < k" for k
    using that by simp
  have rp: "2 ^ a \<le> (of_int p :: rat)" "(of_int p :: rat) < 2 ^ Suc a"
    using of_nat_mono [OF bounds(1), where 'a = rat] of_nat_less_iff [where 'a = rat, THEN iffD2, OF bounds(2)]
    by (simp_all only: conv [OF p] of_nat_power of_nat_numeral)
  have rq: "2 ^ b \<le> (of_int q :: rat)" "(of_int q :: rat) < 2 ^ Suc b"
    using of_nat_mono [OF bounds(3), where 'a = rat] of_nat_less_iff [where 'a = rat, THEN iffD2, OF bounds(4)]
    by (simp_all only: conv [OF q] of_nat_power of_nat_numeral)
  have ab: "(2 :: rat) powi (int a - int b) = 2 ^ a / 2 ^ b"
    by (simp add: power_int_diff)
  have up: "x < 2 powi (int a - int b + 1)"
  proof -
    have "of_int p * 2 ^ b < (2 ^ Suc a * of_int q :: rat)"
      using rp rq p q by (intro mult_less_le_imp_less) (auto)
    then show ?thesis
      using q unfolding powi_add1 ab by (simp add: x field_simps)
  qed
  have lo: "2 powi (int a - int b - 1) \<le> x"
  proof -
    have "of_int q * 2 ^ a \<le> (2 ^ Suc b * of_int p :: rat)"
      using rp rq p by (intro mult_mono) (auto)
    then show ?thesis
      using q unfolding powi_diff1 ab by (simp add: x field_simps)
  qed
  have e: "ilog2 x = (if 2 powi (int a - int b) \<le> x then int a - int b else int a - int b - 1)"
    by (simp add: ilog2_def pq Let_def a_def b_def)
  show "2 powi ilog2 x \<le> x" using lo by (simp add: e)
  show "x < 2 powi (ilog2 x + 1)" using up by (auto simp: e not_le)
qed

lemma ilog2_unique:
  assumes "2 powi e \<le> x" and "x < 2 powi (e + 1)"
  shows "ilog2 x = e"
proof -
  have "0 < x" using assms(1) by (meson less_le_trans zero_less_numeral zero_less_power_int)
  note b = ilog2_bounds [OF this]
  have "(2 :: rat) powi ilog2 x < 2 powi (e + 1)" "(2 :: rat) powi e < 2 powi (ilog2 x + 1)"
    using assms b by linarith+
  then have "ilog2 x < e + 1" "e < ilog2 x + 1" by (auto dest: powi_less_imp)
  then show ?thesis by linarith
qed

lemma ilog2_mono: "0 < x \<Longrightarrow> x \<le> y \<Longrightarrow> ilog2 x \<le> ilog2 y"
proof (rule ccontr)
  assume xy: "0 < x" "x \<le> y" and "\<not> ilog2 x \<le> ilog2 y"
  then have "(2 :: rat) powi (ilog2 y + 1) \<le> 2 powi ilog2 x"
    by (intro power_int_increasing) auto
  with xy ilog2_bounds [of x] ilog2_bounds [of y] show False by linarith
qed

section \<open>Rounding to an integer\<close>

lemma round_even_mono: "x \<le> y \<Longrightarrow> round_even x \<le> round_even y"
proof -
  assume xy: "x \<le> y"
  then have f: "floor x \<le> floor y" by (rule floor_mono)
  show ?thesis
  proof (cases "floor x = floor y")
    case True
    with xy show ?thesis by (auto simp: round_even_def Let_def)
  next
    case False
    with f have "floor x + 1 \<le> floor y" by simp
    then show ?thesis by (auto simp: round_even_def Let_def)
  qed
qed

lemma round_even_of_int [simp]: "round_even (of_int n) = n"
  by (simp add: round_even_def)

lemma round_even_le_int: "x \<le> of_int n \<Longrightarrow> round_even x \<le> n"
  using round_even_mono [of x "of_int n"] by simp

lemma round_even_ge_int: "of_int n \<le> x \<Longrightarrow> n \<le> round_even x"
  using round_even_mono [of "of_int n" x] by simp

lemma round_even_minus: "round_even (- x) = - round_even x"
proof (cases "x = of_int (floor x)")
  case True
  then show ?thesis by (metis of_int_minus round_even_of_int)
next
  case False
  then have "ceiling x = floor x + 1" by (simp add: ceiling_altdef)
  then have fl: "floor (- x) = - floor x - 1" by (simp add: ceiling_def)
  show ?thesis
    unfolding round_even_def Let_def fl by auto
qed

section \<open>Rounding is odd, monotone, and exact on 24-bit integers\<close>

lemma f32_round_0 [simp]: "f32_round 0 = 0"
  by (simp add: f32_round_def)

lemma f32_round_minus: "f32_round (- x) = - f32_round x"
  by (simp add: f32_round_def f32_exp_def Let_def round_even_minus)

lemma ulp_pos [simp]: "0 < (2 :: rat) powi e"
  by simp

lemma f32_round_nonneg: "0 \<le> x \<Longrightarrow> 0 \<le> f32_round x"
  using round_even_ge_int [of 0]
  by (auto simp: f32_round_def Let_def intro!: mult_nonneg_nonneg)

lemma f32_exp_upper: "0 < x \<Longrightarrow> x < 2 powi (f32_exp x + 1)"
proof -
  assume x: "0 < x"
  have "(2 :: rat) powi (ilog2 x + 1) \<le> 2 powi (f32_exp x + 1)"
    using x by (intro power_int_increasing) (auto simp: f32_exp_def)
  with ilog2_bounds(2) [OF x] show ?thesis by linarith
qed

lemma f32_round_le_binade:
  assumes "0 < x"
  shows "f32_round x \<le> 2 powi (f32_exp x + 1)"
proof -
  let ?u = "(2 :: rat) powi (f32_exp x - 23)"
  have p: "2 powi (f32_exp x + 1) = 2 ^ 24 * ?u"
    by (rule powi_shift)
  have "x / ?u \<le> of_int (2 ^ 24)"
    using f32_exp_upper [OF assms] unfolding p by (simp add: divide_le_eq)
  then have "round_even (x / ?u) \<le> 2 ^ 24" by (rule round_even_le_int)
  then have "of_int (round_even (x / ?u)) \<le> (2 ^ 24 :: rat)"
    by (metis of_int_le_iff of_int_numeral of_int_power)
  then show ?thesis
    using assms unfolding p by (simp add: f32_round_def Let_def)
qed

lemma f32_round_ge_binade:
  assumes "0 < x" and "-126 \<le> ilog2 x"
  shows "2 powi (f32_exp x) \<le> f32_round x"
proof -
  let ?u = "(2 :: rat) powi (f32_exp x - 23)"
  have e: "f32_exp x = ilog2 x" using assms by (simp add: f32_exp_def)
  have p: "2 powi f32_exp x = 2 ^ 23 * ?u"
    by (rule powi_shift)
  have "of_int (2 ^ 23) \<le> x / ?u"
    using ilog2_bounds(1) [OF assms(1)] p unfolding e by (simp add: le_divide_eq)
  then have "2 ^ 23 \<le> round_even (x / ?u)" by (rule round_even_ge_int)
  then have "(2 ^ 23 :: rat) \<le> of_int (round_even (x / ?u))"
    by (metis of_int_le_iff of_int_numeral of_int_power)
  then show ?thesis
    using assms unfolding p by (simp add: f32_round_def Let_def)
qed

lemma f32_round_mono_pos:
  assumes "0 < x" and "x \<le> y"
  shows "f32_round x \<le> f32_round y"
proof (cases "f32_exp x = f32_exp y")
  case True
  have "round_even (x / 2 powi (f32_exp x - 23)) \<le> round_even (y / 2 powi (f32_exp x - 23))"
    using assms by (intro round_even_mono divide_right_mono) auto
  then show ?thesis
    using assms True by (simp add: f32_round_def Let_def)
next
  case False
  have y: "0 < y" and le: "ilog2 x \<le> ilog2 y"
    using assms ilog2_mono by auto
  with False assms have lt: "f32_exp x < f32_exp y" and big: "-126 \<le> ilog2 y"
    by (auto simp: f32_exp_def)
  have "f32_round x \<le> 2 powi (f32_exp x + 1)"
    by (rule f32_round_le_binade) fact
  also have "\<dots> \<le> 2 powi (f32_exp y)"
    using lt by (intro power_int_increasing) auto
  also have "\<dots> \<le> f32_round y"
    by (rule f32_round_ge_binade) fact+
  finally show ?thesis .
qed

lemma f32_round_mono: "x \<le> y \<Longrightarrow> f32_round x \<le> f32_round y"
proof -
  assume xy: "x \<le> y"
  consider "0 < x" | "x \<le> 0" "0 \<le> y" | "y < 0" by linarith
  then show ?thesis
  proof cases
    case 1
    then show ?thesis using xy by (rule f32_round_mono_pos)
  next
    case 2
    then have "0 \<le> f32_round (- x)" "0 \<le> f32_round y"
      by (simp_all only: f32_round_nonneg neg_0_le_iff_le)
    then show ?thesis by (simp add: f32_round_minus)
  next
    case 3
    then have "f32_round (- y) \<le> f32_round (- x)"
      using xy by (intro f32_round_mono_pos) auto
    then show ?thesis by (simp add: f32_round_minus)
  qed
qed

lemma f32_round_exact:
  assumes "\<bar>n\<bar> \<le> 2 ^ 24" and "-149 \<le> k"
  shows "f32_round (of_int n * 2 powi k) = of_int n * 2 powi k"
proof (cases "n = 0")
  case False
  define x where "x = (of_int n :: rat) * 2 powi k"
  have pos: "0 < \<bar>x\<bar>" using False by (simp add: x_def)
  have absx: "\<bar>x\<bar> = of_int \<bar>n\<bar> * 2 powi k" by (simp add: x_def abs_mult)
  have le: "f32_exp x - 23 \<le> k \<or> (\<bar>n\<bar> = 2 ^ 24 \<and> f32_exp x - 23 \<le> k + 1)"
  proof (cases "\<bar>n\<bar> = 2 ^ 24")
    case True
    have "\<bar>x\<bar> = 2 powi (24 + k)"
      unfolding absx True by (simp add: power_int_add)
    then have "ilog2 \<bar>x\<bar> = 24 + k"
      by (intro ilog2_unique) (auto simp: power_int_add)
    with True assms show ?thesis by (simp add: f32_exp_def)
  next
    case False
    with assms(1) have "\<bar>n\<bar> < 2 ^ 24" by simp
    then have "(of_int \<bar>n\<bar> :: rat) < 2 ^ 24"
      by (metis of_int_less_iff of_int_numeral of_int_power)
    then have "\<bar>x\<bar> < 2 powi (24 + k)"
      unfolding absx by (simp add: power_int_add)
    then have "(2 :: rat) powi ilog2 \<bar>x\<bar> < 2 powi (24 + k)"
      using ilog2_bounds(1) [OF pos] by linarith
    then have "ilog2 \<bar>x\<bar> < 24 + k" by (rule powi_less_imp)
    then have "f32_exp x - 23 \<le> k"
      using assms(2) by (simp add: f32_exp_def)
    then show ?thesis ..
  qed
  then obtain m where m: "x / 2 powi (f32_exp x - 23) = of_int m"
  proof (elim disjE conjE)
    assume "f32_exp x - 23 \<le> k"
    then obtain d where d: "k = f32_exp x - 23 + int d" by (metis zle_iff_zadd)
    have "(2 :: rat) powi k = 2 powi (f32_exp x - 23) * 2 ^ d"
      unfolding d by (simp add: power_int_add)
    then have "x = of_int (n * 2 ^ d) * 2 powi (f32_exp x - 23)"
      by (simp add: x_def mult.commute)
    then have "x / 2 powi (f32_exp x - 23) = of_int (n * 2 ^ d)"
      by (metis nonzero_mult_div_cancel_right ulp_pos less_irrefl)
    then show thesis by (rule that)
  next
    assume n: "\<bar>n\<bar> = 2 ^ 24" and "f32_exp x - 23 \<le> k + 1"
    then obtain d where d: "k + 1 = f32_exp x - 23 + int d" by (metis zle_iff_zadd)
    have "2 dvd n" using n by (metis dvd_abs_iff dvd_power zero_less_numeral)
    then obtain h where h: "n = h * 2" by (auto elim: dvdE simp: mult.commute)
    have xh: "x = of_int h * 2 powi (k + 1)"
      unfolding x_def h by (simp add: power_int_add)
    have pk: "(2 :: rat) powi (k + 1) = 2 ^ d * 2 powi (f32_exp x - 23)"
      unfolding d by (simp add: power_int_add)
    have "x = of_int (h * 2 ^ d) * 2 powi (f32_exp x - 23)"
      using xh unfolding pk by (simp only: of_int_mult of_int_power of_int_numeral mult.assoc)
    then have "x / 2 powi (f32_exp x - 23) = of_int (h * 2 ^ d)"
      by (metis nonzero_mult_div_cancel_right ulp_pos less_irrefl)
    then show thesis by (rule that)
  qed
  have "f32_round x = x"
    using pos m by (simp add: f32_round_def Let_def) (metis divide_eq_eq ulp_pos less_irrefl)
  then show ?thesis by (simp add: x_def)
qed simp

lemma f32_round_int: "\<bar>n\<bar> \<le> 2 ^ 24 \<Longrightarrow> f32_round (of_int n) = of_int n"
  using f32_round_exact [of n 0] by simp

lemmas f32_defs = f32_add_def f32_sub_def f32_mul_def f32_div_def

end
