(* ===== verification/NtcTemp.thy ===== *)
theory NtcTemp
  imports Float32
begin

text \<open>
  The thermistor conversion of \<open>src/applications/normal_calc.c\<close>: the resistance table, the
  linear interpolation in single precision, the binary search for the bracketing entries
  and the temperature estimate. Resistances are finite floats.
\<close>

section \<open>Table and functions\<close>

definition tempLookupTable :: "(f32 \<times> f32) list" where
  "tempLookupTable =
    [(-40, 197390), (-30, 114340), (-20, 68915), (-10, 42889), (0, 32116), (25, 10000),
     (30, 8047), (35, 6523), (40, 5318), (45, 4357), (50, 3588), (60, 2466), (75, 1452),
     (90, 890), (100, 657)]"

definition TABLE_SIZE :: nat where
  "TABLE_SIZE = length tempLookupTable"

abbreviation temp_at :: "nat \<Rightarrow> f32" where "temp_at i \<equiv> fst (tempLookupTable ! i)"
abbreviation res_at :: "nat \<Rightarrow> f32" where "res_at i \<equiv> snd (tempLookupTable ! i)"

definition Interpolate :: "f32 \<Rightarrow> f32 \<Rightarrow> f32 \<Rightarrow> f32 \<Rightarrow> f32 \<Rightarrow> f32" where
  "Interpolate x x1 y1 x2 y2 =
     f32_add y1 (f32_div (f32_mul (f32_sub y2 y1) (f32_sub x x1)) (f32_sub x2 x1))"

function search_loop :: "f32 \<Rightarrow> int \<Rightarrow> int \<Rightarrow> int" where
  "search_loop target left right =
     (if left \<le> right then
        let mid = left + (right - left) div 2;
            current = res_at (nat mid);
            next = res_at (nat (mid + 1))
        in if target \<le> current \<and> next \<le> target then mid
           else if current < target then search_loop target left (mid - 1)
           else search_loop target (mid + 1) right
      else 0)"
  by pat_completeness auto
termination
  by (relation "measure (\<lambda>(t, l, r). nat (r - l + 1))") (auto simp: Let_def)

declare search_loop.simps [simp del]

definition binarySearch :: "f32 \<Rightarrow> int" where
  "binarySearch target = search_loop target 0 (int TABLE_SIZE - 2)"

definition EstimateTemperature :: "f32 \<Rightarrow> f32" where
  "EstimateTemperature r =
     (if res_at 0 \<le> r then temp_at 0
      else if r \<le> res_at (TABLE_SIZE - 1) then temp_at (TABLE_SIZE - 1)
      else let i = nat (binarySearch r)
           in Interpolate r (res_at i) (temp_at i) (res_at (i + 1)) (temp_at (i + 1)))"

section \<open>The table: whole numbers, temperatures rising, resistances falling\<close>

definition int_table :: "(int \<times> int) list" where
  "int_table =
    [(-40, 197390), (-30, 114340), (-20, 68915), (-10, 42889), (0, 32116), (25, 10000),
     (30, 8047), (35, 6523), (40, 5318), (45, 4357), (50, 3588), (60, 2466), (75, 1452),
     (90, 890), (100, 657)]"

lemma TABLE_SIZE_15 [simp]: "TABLE_SIZE = 15"
  by (simp add: TABLE_SIZE_def tempLookupTable_def)

lemma table_ints: "tempLookupTable = map (\<lambda>(t, r). (of_int t, of_int r)) int_table"
  by (simp add: tempLookupTable_def int_table_def)

lemma length_int_table: "length int_table = 15"
  by (simp add: int_table_def)

lemma table_at:
  "i < 15 \<Longrightarrow> temp_at i = of_int (fst (int_table ! i)) \<and> res_at i = of_int (snd (int_table ! i))"
  by (simp add: table_ints length_int_table split_beta)

lemma int_table_step:
  assumes "i < 14"
  shows "fst (int_table ! i) < fst (int_table ! Suc i) \<and> snd (int_table ! Suc i) < snd (int_table ! i) \<and>
    \<bar>fst (int_table ! i)\<bar> \<le> 100 \<and> \<bar>fst (int_table ! Suc i)\<bar> \<le> 100 \<and>
    0 \<le> snd (int_table ! Suc i) \<and> snd (int_table ! i) \<le> 200000 \<and>
    (fst (int_table ! Suc i) - fst (int_table ! i)) * (snd (int_table ! i) - snd (int_table ! Suc i)) \<le> 2 ^ 24"
proof -
  have "i \<in> {0, 1, 2, 3, 4, 5, 6, 7, 8, 9, 10, 11, 12, 13}" using assms by (simp, arith)
  then show ?thesis by (elim insertE emptyE) (simp_all add: int_table_def)
qed

lemma res_step: "i < 14 \<Longrightarrow> res_at (Suc i) < res_at i"
  using int_table_step [of i] by (simp add: table_at)

lemma res_antimono: "i \<le> j \<Longrightarrow> j < 15 \<Longrightarrow> res_at j \<le> res_at i"
proof (induction j)
  case (Suc j)
  then show ?case using res_step [of j] by (cases "i = Suc j") auto
qed simp

lemma temp_mono: "i \<le> j \<Longrightarrow> j < 15 \<Longrightarrow> temp_at i \<le> temp_at j"
proof (induction j)
  case (Suc j)
  then show ?case using int_table_step [of j] by (cases "i = Suc j") (auto simp: table_at)
qed simp

section \<open>The search finds the bracketing entries\<close>

lemma search_loop_brackets:
  assumes "0 \<le> l" and "l \<le> r" and "r \<le> 13"
    and "target \<le> res_at (nat l)" and "res_at (nat (r + 1)) \<le> target"
  shows "\<exists>i \<le> 13. search_loop target l r = int i \<and> target \<le> res_at i \<and> res_at (Suc i) \<le> target"
  using assms
proof (induction target l r rule: search_loop.induct)
  case (1 t l r)
  define mid where "mid = l + (r - l) div 2"
  have mid: "l \<le> mid" "mid \<le> r" using "1.prems" by (auto simp: mid_def)
  have nat_mid: "nat (mid + 1) = Suc (nat mid)" using mid "1.prems" by simp
  consider (hit) "t \<le> res_at (nat mid)" "res_at (nat (mid + 1)) \<le> t"
    | (low) "res_at (nat mid) < t" | (high) "t < res_at (nat (mid + 1))" "t \<le> res_at (nat mid)"
    by linarith
  then show ?case
  proof cases
    case hit
    then have "search_loop t l r = mid"
      using "1.prems" by (simp add: search_loop.simps [of t l r] mid_def Let_def)
    with hit mid "1.prems" nat_mid show ?thesis by (intro exI [of _ "nat mid"]) auto
  next
    case low
    then have eq: "search_loop t l r = search_loop t l (mid - 1)"
      using "1.prems" by (simp add: search_loop.simps [of t l r] mid_def Let_def)
    have "l \<noteq> mid" using low "1.prems"(4) by auto
    then show ?thesis
      unfolding eq using low mid "1.prems"
      by (intro "1.IH"(1) [OF _ mid_def refl refl]) auto
  next
    case high
    then have eq: "search_loop t l r = search_loop t (mid + 1) r"
      using "1.prems" by (auto simp: search_loop.simps [of t l r] mid_def Let_def)
    have "mid \<noteq> r" using high "1.prems"(5) by auto
    then show ?thesis
      unfolding eq using high mid "1.prems"
      by (intro "1.IH"(2) [OF _ mid_def refl refl]) auto
  qed
qed

lemma binarySearch_brackets:
  assumes "res_at 14 \<le> t" and "t \<le> res_at 0"
  shows "\<exists>i \<le> 13. binarySearch t = int i \<and> t \<le> res_at i \<and> res_at (Suc i) \<le> t"
  unfolding binarySearch_def using assms by (intro search_loop_brackets) auto

section \<open>Interpolation in single precision stays between its end points\<close>

definition segment_ok :: "int \<Rightarrow> int \<Rightarrow> int \<Rightarrow> int \<Rightarrow> bool" where
  "segment_ok x1 y1 x2 y2 \<longleftrightarrow>
     x2 < x1 \<and> 0 \<le> x2 \<and> x1 \<le> 200000 \<and> y1 < y2 \<and> \<bar>y1\<bar> \<le> 100 \<and> \<bar>y2\<bar> \<le> 100 \<and>
     (y2 - y1) * (x1 - x2) \<le> 2 ^ 24"

lemma f32_sub_int: "\<bar>a - b\<bar> \<le> 2 ^ 24 \<Longrightarrow> f32_sub (of_int a) (of_int b) = of_int (a - b)"
  using f32_round_int [of "a - b"] by (simp add: f32_sub_def)

lemma Interpolate_unfold:
  assumes "segment_ok x1 y1 x2 y2"
  shows "Interpolate x (of_int x1) (of_int y1) (of_int x2) (of_int y2) =
    f32_round (of_int y1 + f32_round (f32_round (of_int (y2 - y1) * f32_round (x - of_int x1)) / of_int (x2 - x1)))"
proof -
  have "\<bar>y2 - y1\<bar> \<le> 2 ^ 24" "\<bar>x2 - x1\<bar> \<le> 2 ^ 24"
    using assms unfolding segment_ok_def by (auto simp: abs_le_iff)
  then have "f32_sub (of_int y2) (of_int y1) = of_int (y2 - y1)"
    "f32_sub (of_int x2) (of_int x1) = of_int (x2 - x1)"
    by (auto intro: f32_sub_int simp del: of_int_diff)
  then show ?thesis
    unfolding Interpolate_def f32_add_def f32_div_def f32_mul_def by (simp add: f32_sub_def)
qed

lemma Interpolate_antimono:
  assumes ok: "segment_ok x1 y1 x2 y2" and le: "x \<le> x'"
  shows "Interpolate x' (of_int x1) (of_int y1) (of_int x2) (of_int y2) \<le>
         Interpolate x (of_int x1) (of_int y1) (of_int x2) (of_int y2)"
proof -
  have "f32_round (of_int (y2 - y1) * f32_round (x - of_int x1)) \<le>
        f32_round (of_int (y2 - y1) * f32_round (x' - of_int x1))"
    using ok le by (intro f32_round_mono mult_left_mono) (auto simp: segment_ok_def)
  then have "f32_round (of_int (y2 - y1) * f32_round (x' - of_int x1)) / of_int (x2 - x1) \<le>
        f32_round (of_int (y2 - y1) * f32_round (x - of_int x1)) / of_int (x2 - x1)"
    using ok by (intro divide_right_mono_neg) (auto simp: segment_ok_def)
  then show ?thesis
    unfolding Interpolate_unfold [OF ok] by (intro f32_round_mono add_left_mono)
qed

lemma Interpolate_ends:
  assumes ok: "segment_ok x1 y1 x2 y2"
  shows "Interpolate (of_int x1) (of_int x1) (of_int y1) (of_int x2) (of_int y2) = of_int y1"
    and "Interpolate (of_int x2) (of_int x1) (of_int y1) (of_int x2) (of_int y2) = of_int y2"
proof -
  show "Interpolate (of_int x1) (of_int x1) (of_int y1) (of_int x2) (of_int y2) = of_int y1"
    using ok f32_round_int [of y1] by (simp add: Interpolate_unfold segment_ok_def)
  have area: "\<bar>(y2 - y1) * (x2 - x1)\<bar> \<le> 2 ^ 24"
    using ok by (simp add: segment_ok_def abs_mult abs_minus_commute)
  have d: "f32_round (of_int x2 - of_int x1) = of_int (x2 - x1)"
    using ok f32_round_int [of "x2 - x1"] by (simp add: segment_ok_def)
  have p: "f32_round (of_int (y2 - y1) * of_int (x2 - x1)) = of_int (y2 - y1) * of_int (x2 - x1)"
    using f32_round_int [OF area] by simp
  have q: "of_int (y2 - y1) * of_int (x2 - x1) / of_int (x2 - x1) = (of_int (y2 - y1) :: rat)"
    using ok by (simp add: segment_ok_def)
  have r: "f32_round (of_int (y2 - y1)) = of_int (y2 - y1)"
    using ok by (intro f32_round_int) (auto simp: segment_ok_def)
  show "Interpolate (of_int x2) (of_int x1) (of_int y1) (of_int x2) (of_int y2) = of_int y2"
    unfolding Interpolate_unfold [OF ok] d p q r
    using ok f32_round_int [of y2] by (simp add: segment_ok_def)
qed

lemma table_segment:
  "i < 14 \<Longrightarrow> segment_ok (snd (int_table ! i)) (fst (int_table ! i)) (snd (int_table ! Suc i)) (fst (int_table ! Suc i))"
  using int_table_step [of i] by (auto simp: segment_ok_def)

definition segment :: "nat \<Rightarrow> f32 \<Rightarrow> f32" where
  "segment i r = Interpolate r (res_at i) (temp_at i) (res_at (Suc i)) (temp_at (Suc i))"

lemma segment_antimono: "i < 14 \<Longrightarrow> r \<le> r' \<Longrightarrow> segment i r' \<le> segment i r"
  unfolding segment_def using Interpolate_antimono [OF table_segment] by (simp add: table_at)

lemma segment_bounds:
  assumes "i < 14" and "r \<le> res_at i" and "res_at (Suc i) \<le> r"
  shows "temp_at i \<le> segment i r" and "segment i r \<le> temp_at (Suc i)"
proof -
  have ends: "segment i (res_at i) = temp_at i" "segment i (res_at (Suc i)) = temp_at (Suc i)"
    unfolding segment_def using assms(1) Interpolate_ends [OF table_segment] by (simp_all add: table_at)
  show "temp_at i \<le> segment i r" "segment i r \<le> temp_at (Suc i)"
    using segment_antimono [OF assms(1,2)] segment_antimono [OF assms(1,3)] ends by simp_all
qed

text \<open>The estimate as the segment of the bracketing entries.\<close>

lemma estimate_cases:
  obtains (cold) "res_at 0 \<le> r" "EstimateTemperature r = temp_at 0"
  | (hot) "r \<le> res_at 14" "r < res_at 0" "EstimateTemperature r = temp_at 14"
  | (mid) i where "i < 14" "r \<le> res_at i" "res_at (Suc i) \<le> r" "res_at 14 < r" "r < res_at 0"
      "EstimateTemperature r = segment i r"
proof -
  consider "res_at 0 \<le> r" | "r \<le> res_at 14" "r < res_at 0" | "res_at 14 < r" "r < res_at 0"
    by linarith
  then show ?thesis
  proof cases
    case 3
    then obtain i where i: "i \<le> 13" "binarySearch r = int i" "r \<le> res_at i" "res_at (Suc i) \<le> r"
      using binarySearch_brackets [of r] by auto
    then have "EstimateTemperature r = segment i r"
      using 3 by (simp add: EstimateTemperature_def segment_def Let_def)
    with i 3 show ?thesis by (intro mid [of i]) auto
  qed (auto intro: cold hot simp: EstimateTemperature_def)
qed

section \<open>Properties\<close>

text \<open>
  Between the ends of the table the search returns the index of an entry whose
  resistance is not below the target and whose successor's is not above it, and the
  estimated temperature lies between the temperatures of these two entries, although every
  operation of the interpolation rounds to single precision.
\<close>

theorem temperature_bracketed:
  assumes "657 < r" and "r < 197390"
  shows "\<exists>i \<le> 13. binarySearch r = int i \<and>
    snd (tempLookupTable ! Suc i) \<le> r \<and> r \<le> snd (tempLookupTable ! i) \<and>
    fst (tempLookupTable ! i) \<le> EstimateTemperature r \<and>
    EstimateTemperature r \<le> fst (tempLookupTable ! Suc i)"
proof -
  have ends: "res_at 14 < r" "r < res_at 0"
    using assms by (simp_all add: tempLookupTable_def)
  then obtain i where i: "i \<le> 13" "binarySearch r = int i" "r \<le> res_at i" "res_at (Suc i) \<le> r"
    using binarySearch_brackets [of r] by auto
  then have "EstimateTemperature r = segment i r"
    using ends by (simp add: EstimateTemperature_def segment_def Let_def)
  with i segment_bounds [of i r] show ?thesis by auto
qed

theorem temperature_bracketed_witness:
  "\<exists>i \<le> 13. binarySearch 9000 = int i \<and>
    snd (tempLookupTable ! Suc i) \<le> 9000 \<and> 9000 \<le> snd (tempLookupTable ! i) \<and>
    fst (tempLookupTable ! i) \<le> EstimateTemperature 9000 \<and>
    EstimateTemperature 9000 \<le> fst (tempLookupTable ! Suc i)"
  using temperature_bracketed [of 9000] by simp

text \<open>
  The estimate is monotone over all resistances, clamped ends and segment borders
  included: a larger resistance never gives a higher temperature.
\<close>

theorem temperature_antimono:
  assumes "r \<le> r'"
  shows "EstimateTemperature r' \<le> EstimateTemperature r"
proof (cases r rule: estimate_cases)
  case cold
  then show ?thesis using assms by (cases r' rule: estimate_cases) auto
next
  case hot
  have "EstimateTemperature r' \<le> temp_at 14"
  proof (cases r' rule: estimate_cases)
    case (mid i)
    then show ?thesis using segment_bounds [of i r'] temp_mono [of "Suc i" 14] by simp
  qed (use temp_mono [of 0 14] in auto)
  with hot show ?thesis by simp
next
  case (mid i)
  note i = mid
  show ?thesis
  proof (cases r' rule: estimate_cases)
    case cold
    then show ?thesis using i segment_bounds [of i r] temp_mono [of 0 i] by simp
  next
    case hot
    then show ?thesis using i assms by simp
  next
    case (mid j)
    show ?thesis
    proof (cases "j < i")
      case True
      have "segment j r' \<le> temp_at (Suc j)" using mid by (intro segment_bounds)
      also have "\<dots> \<le> temp_at i" using True i by (intro temp_mono) auto
      also have "\<dots> \<le> segment i r" using i by (intro segment_bounds)
      finally show ?thesis using i mid by simp
    next
      case False
      show ?thesis
      proof (cases "j = i")
        case True
        then show ?thesis using i mid assms by (simp add: segment_antimono)
      next
        case False
        then have "res_at j \<le> res_at (Suc i)"
          using \<open>\<not> j < i\<close> mid by (intro res_antimono) auto
        then have "r = r'" using i mid assms by linarith
        then show ?thesis by simp
      qed
    qed
  qed
qed

theorem temperature_antimono_witness:
  "EstimateTemperature 9001 \<le> EstimateTemperature 9000"
  using temperature_antimono [of 9000 9001] by simp

end
