(* ===== verification/Kernel.thy ===== *)
theory Kernel
  imports Prelude
begin

text \<open>
  The state of the RT-Thread kernel (\<open>src/rt-thread/src\<close>, single core, 32 priorities, as
  \<open>rtconfig.h\<close> configures it) and its thread scheduler, \<open>scheduler.c\<close> and \<open>thread.c\<close>.
  A thread is a number, with 0 for \<open>RT_NULL\<close>. The intrusive list node \<open>tlist\<close> of a thread is
  in at most one list: a ready list or the suspend list of a kernel object; lists are
  Isabelle lists of threads, head first, and unlinking a node removes the thread from
  whichever list holds it. Interrupts are disabled around every operation modelled, so each
  is one atomic step; the context switch itself is the change of \<open>rt_current_thread\<close>.
\<close>

section \<open>State\<close>

type_synonym tid = nat

abbreviation (input) RT_NULL :: tid where "RT_NULL \<equiv> 0"

definition RT_EOK :: int where "RT_EOK = 0"
definition RT_ERROR :: int where "RT_ERROR = 1"
definition RT_ETIMEOUT :: int where "RT_ETIMEOUT = 2"
definition RT_EFULL :: int where "RT_EFULL = 3"
definition RT_EEMPTY :: int where "RT_EEMPTY = 4"
definition RT_EINVAL :: int where "RT_EINVAL = 10"

lemmas rt_err_defs = RT_EOK_def RT_ERROR_def RT_ETIMEOUT_def RT_EFULL_def RT_EEMPTY_def

definition RT_THREAD_INIT :: u8 where "RT_THREAD_INIT = 0"
definition RT_THREAD_READY :: u8 where "RT_THREAD_READY = 1"
definition RT_THREAD_SUSPEND :: u8 where "RT_THREAD_SUSPEND = 2"
definition RT_THREAD_RUNNING :: u8 where "RT_THREAD_RUNNING = 3"
definition RT_THREAD_CLOSE :: u8 where "RT_THREAD_CLOSE = 4"
definition RT_THREAD_STAT_MASK :: u8 where "RT_THREAD_STAT_MASK = 7"
definition RT_THREAD_STAT_YIELD :: u8 where "RT_THREAD_STAT_YIELD = 8"

lemmas stat_defs = RT_THREAD_INIT_def RT_THREAD_READY_def RT_THREAD_SUSPEND_def
  RT_THREAD_RUNNING_def RT_THREAD_CLOSE_def RT_THREAD_STAT_MASK_def RT_THREAD_STAT_YIELD_def

datatype timer_id = thread_timer tid | user_timer nat

record rt_thread =
  stat :: u8
  error :: int
  current_priority :: u8
  number_mask :: u32
  event_set :: u32
  event_info :: u8
  thread_init_tick :: u32
  remaining_tick :: u32

record rt_timer =
  flag :: u8
  init_tick :: u32
  timeout_tick :: u32

record kernel =
  threads :: "tid \<Rightarrow> rt_thread"
  rt_thread_priority_table :: "nat \<Rightarrow> tid list"
  rt_thread_ready_priority_group :: u32
  rt_current_thread :: tid
  rt_current_priority :: u8
  rt_scheduler_lock_nest :: int
  suspend_lists :: "nat \<Rightarrow> tid list"
  rt_tick :: u32
  timers :: "timer_id \<Rightarrow> rt_timer"
  timer_list :: "timer_id list"
  soft_timer_list :: "timer_id list"
  expired_list :: "timer_id list"
  soft_timer_idle :: bool
  timer_thread :: tid

definition upd_thread :: "tid \<Rightarrow> (rt_thread \<Rightarrow> rt_thread) \<Rightarrow> kernel \<Rightarrow> kernel" where
  "upd_thread t f s = s\<lparr>threads := (threads s)(t := f (threads s t))\<rparr>"

definition upd_timer :: "timer_id \<Rightarrow> (rt_timer \<Rightarrow> rt_timer) \<Rightarrow> kernel \<Rightarrow> kernel" where
  "upd_timer i f s = s\<lparr>timers := (timers s)(i := f (timers s i))\<rparr>"

text \<open>The status bits of a thread.\<close>

definition status :: "rt_thread \<Rightarrow> u8" where
  "status th = stat th AND RT_THREAD_STAT_MASK"

definition set_status :: "u8 \<Rightarrow> rt_thread \<Rightarrow> rt_thread" where
  "set_status v th = th\<lparr>stat := v OR (stat th AND NOT RT_THREAD_STAT_MASK)\<rparr>"

definition yield_flag :: "rt_thread \<Rightarrow> bool" where
  "yield_flag th \<longleftrightarrow> stat th AND RT_THREAD_STAT_YIELD \<noteq> 0"

definition clear_yield :: "rt_thread \<Rightarrow> rt_thread" where
  "clear_yield th = th\<lparr>stat := stat th AND NOT RT_THREAD_STAT_YIELD\<rparr>"

definition set_yield :: "rt_thread \<Rightarrow> rt_thread" where
  "set_yield th = th\<lparr>stat := stat th OR RT_THREAD_STAT_YIELD\<rparr>"

text \<open>The literals of the status masks are read bit by bit as they stand.\<close>

declare bit_numeral_word_iff [simp del] bit_neg_numeral_word_iff [simp del]

lemma bit_seven [simp]: "bit (7 :: u8) n \<longleftrightarrow> n < 3"
proof -
  have m: "(7 :: u8) = mask 3" by (simp add: mask_eq_exp_minus_1)
  show ?thesis unfolding m bit_mask_iff by auto
qed

lemma bit_eight [simp]: "bit (8 :: u8) n \<longleftrightarrow> n = 3"
proof -
  have m: "(8 :: u8) = 2 ^ 3" by simp
  show ?thesis unfolding m bit_exp_iff by auto
qed

lemma bit_not_seven [simp]: "bit (- 8 :: u8) n \<longleftrightarrow> n < 8 \<and> 3 \<le> n"
proof -
  have m: "(- 8 :: u8) = NOT 7" by simp
  show ?thesis unfolding m bit_not_iff by auto
qed

lemma bit_not_eight [simp]: "bit (- 9 :: u8) n \<longleftrightarrow> n < 8 \<and> n \<noteq> 3"
proof -
  have m: "(- 9 :: u8) = NOT 8" by simp
  show ?thesis unfolding m bit_not_iff by auto
qed

text \<open>The values of the status field are below 8, so they survive the masking.\<close>

lemma status_values:
  "RT_THREAD_INIT AND 7 = RT_THREAD_INIT" "RT_THREAD_READY AND 7 = RT_THREAD_READY"
  "RT_THREAD_SUSPEND AND 7 = RT_THREAD_SUSPEND" "RT_THREAD_RUNNING AND 7 = RT_THREAD_RUNNING"
  "RT_THREAD_CLOSE AND 7 = RT_THREAD_CLOSE"
  by (simp_all add: stat_defs)

lemma status_set_status: "v AND 7 = v \<Longrightarrow> status (set_status v th) = v"
proof -
  assume v: "v AND 7 = v"
  show ?thesis
  proof (rule bit_word_eqI)
    fix n assume "n < LENGTH(8)"
    have "bit v n \<Longrightarrow> n < 3" using v bit_and_iff [of v 7 n] by (simp add: bit_seven)
    then show "bit (status (set_status v th)) n \<longleftrightarrow> bit v n"
      by (auto simp: status_def set_status_def RT_THREAD_STAT_MASK_def bit_and_iff bit_or_iff
          bit_not_iff bit_seven)
  qed
qed

lemma status_clear_yield [simp]: "status (clear_yield th) = status th"
  by (rule bit_word_eqI)
    (auto simp: status_def clear_yield_def stat_defs bit_and_iff bit_not_iff bit_seven bit_eight)

lemma status_set_yield [simp]: "status (set_yield th) = status th"
  by (rule bit_word_eqI)
    (auto simp: status_def set_yield_def stat_defs bit_and_iff bit_or_iff bit_seven bit_eight)

lemma status_of_set [simp]:
  "status (set_status RT_THREAD_INIT th) = RT_THREAD_INIT"
  "status (set_status RT_THREAD_READY th) = RT_THREAD_READY"
  "status (set_status RT_THREAD_SUSPEND th) = RT_THREAD_SUSPEND"
  "status (set_status RT_THREAD_RUNNING th) = RT_THREAD_RUNNING"
  "status (set_status RT_THREAD_CLOSE th) = RT_THREAD_CLOSE"
  by (simp_all add: status_set_status status_values)

lemma yield_clear [simp]: "\<not> yield_flag (clear_yield th)"
  by (simp add: yield_flag_def clear_yield_def and.assoc)

lemma yield_set [simp]: "yield_flag (set_yield th)"
proof -
  have "bit (stat (set_yield th) AND RT_THREAD_STAT_YIELD) 3"
    by (simp add: set_yield_def stat_defs bit_and_iff bit_or_iff bit_eight)
  then show ?thesis by (auto simp: yield_flag_def)
qed

lemma status_distinct [simp]:
  "RT_THREAD_READY \<noteq> RT_THREAD_RUNNING" "RT_THREAD_RUNNING \<noteq> RT_THREAD_READY"
  "RT_THREAD_READY \<noteq> RT_THREAD_SUSPEND" "RT_THREAD_SUSPEND \<noteq> RT_THREAD_READY"
  "RT_THREAD_RUNNING \<noteq> RT_THREAD_SUSPEND" "RT_THREAD_SUSPEND \<noteq> RT_THREAD_RUNNING"
  "RT_THREAD_CLOSE \<noteq> RT_THREAD_SUSPEND" "RT_THREAD_SUSPEND \<noteq> RT_THREAD_CLOSE"
  "RT_THREAD_CLOSE \<noteq> RT_THREAD_READY" "RT_THREAD_READY \<noteq> RT_THREAD_CLOSE"
  "RT_THREAD_CLOSE \<noteq> RT_THREAD_RUNNING" "RT_THREAD_RUNNING \<noteq> RT_THREAD_CLOSE"
  "RT_THREAD_INIT \<noteq> RT_THREAD_SUSPEND" "RT_THREAD_SUSPEND \<noteq> RT_THREAD_INIT"
  "RT_THREAD_INIT \<noteq> RT_THREAD_READY" "RT_THREAD_READY \<noteq> RT_THREAD_INIT"
  "RT_THREAD_INIT \<noteq> RT_THREAD_RUNNING" "RT_THREAD_RUNNING \<noteq> RT_THREAD_INIT"
  by (simp_all add: stat_defs)

lemma status_frame [simp]:
  "current_priority (set_status v th) = current_priority th"
  "number_mask (set_status v th) = number_mask th"
  "error (set_status v th) = error th"
  "current_priority (clear_yield th) = current_priority th"
  "number_mask (clear_yield th) = number_mask th"
  "error (clear_yield th) = error th"
  "current_priority (set_yield th) = current_priority th"
  "number_mask (set_yield th) = number_mask th"
  "error (set_yield th) = error th"
  by (simp_all add: set_status_def clear_yield_def set_yield_def)

lemma status_update_frame [simp]:
  "status (th\<lparr>error := e\<rparr>) = status th" "status (th\<lparr>remaining_tick := r\<rparr>) = status th"
  "status (th\<lparr>event_set := es\<rparr>) = status th" "status (th\<lparr>event_info := ei\<rparr>) = status th"
  "status (th\<lparr>current_priority := q\<rparr>) = status th" "status (th\<lparr>number_mask := m\<rparr>) = status th"
  by (simp_all add: status_def)

section \<open>Scheduler\<close>

text \<open>The node of a thread leaves the list it is linked in.\<close>

definition rt_list_remove :: "tid \<Rightarrow> kernel \<Rightarrow> kernel" where
  "rt_list_remove t s =
     s\<lparr>rt_thread_priority_table := (\<lambda>p. removeAll t (rt_thread_priority_table s p)),
       suspend_lists := (\<lambda>q. removeAll t (suspend_lists s q))\<rparr>"

text \<open>Position of the least set bit, counted from 1; 0 for the zero word.\<close>

definition rt_ffs :: "u32 \<Rightarrow> nat" where
  "rt_ffs w = (case List.find (bit w) [0..<32] of None \<Rightarrow> 0 | Some n \<Rightarrow> Suc n)"

definition highest_priority_thread :: "kernel \<Rightarrow> tid \<times> nat" where
  "highest_priority_thread s =
     (let p = rt_ffs (rt_thread_ready_priority_group s) - 1
      in (hd (rt_thread_priority_table s p), p))"

definition rt_schedule_insert_thread :: "tid \<Rightarrow> kernel \<Rightarrow> kernel" where
  "rt_schedule_insert_thread t s =
     (if t = rt_current_thread s then upd_thread t (set_status RT_THREAD_RUNNING) s
      else
        let s = upd_thread t (set_status RT_THREAD_READY) s;
            p = unat (current_priority (threads s t))
        in s\<lparr>rt_thread_priority_table :=
               (rt_thread_priority_table s)(p := rt_thread_priority_table s p @ [t]),
             rt_thread_ready_priority_group :=
               rt_thread_ready_priority_group s OR number_mask (threads s t)\<rparr>)"

definition rt_schedule_remove_thread :: "tid \<Rightarrow> kernel \<Rightarrow> kernel" where
  "rt_schedule_remove_thread t s =
     (let s = rt_list_remove t s
      in if rt_thread_priority_table s (unat (current_priority (threads s t))) = []
         then s\<lparr>rt_thread_ready_priority_group :=
                  rt_thread_ready_priority_group s AND NOT (number_mask (threads s t))\<rparr>
         else s)"

definition rt_schedule :: "kernel \<Rightarrow> kernel" where
  "rt_schedule s =
     (if rt_scheduler_lock_nest s = 0 \<and> rt_thread_ready_priority_group s \<noteq> 0 then
        let c = rt_current_thread s;
            (highest, p) = highest_priority_thread s;
            running = status (threads s c) = RT_THREAD_RUNNING;
            keep = running \<and>
              (unat (current_priority (threads s c)) < p \<or>
               unat (current_priority (threads s c)) = p \<and> \<not> yield_flag (threads s c));
            to_thread = (if keep then c else highest);
            need_insert_from_thread = (running \<and> \<not> keep);
            s = (if running then upd_thread c clear_yield s else s)
        in if to_thread \<noteq> c then
             let s = s\<lparr>rt_current_priority := of_nat p, rt_current_thread := to_thread\<rparr>;
                 s = (if need_insert_from_thread then rt_schedule_insert_thread c s else s);
                 s = rt_schedule_remove_thread to_thread s
             in upd_thread to_thread (set_status RT_THREAD_RUNNING) s
           else upd_thread c (set_status RT_THREAD_RUNNING) (rt_schedule_remove_thread c s)
      else s)"

text \<open>
  The nesting depth is an \<open>rt_int16_t\<close> in the code; here it does not wrap, which is the same for
  fewer than 32768 nested calls.
\<close>

definition rt_enter_critical :: "kernel \<Rightarrow> kernel" where
  "rt_enter_critical s = s\<lparr>rt_scheduler_lock_nest := rt_scheduler_lock_nest s + 1\<rparr>"

definition rt_exit_critical :: "kernel \<Rightarrow> kernel" where
  "rt_exit_critical s =
     (let s = s\<lparr>rt_scheduler_lock_nest := rt_scheduler_lock_nest s - 1\<rparr>
      in if rt_scheduler_lock_nest s \<le> 0
         then let s = s\<lparr>rt_scheduler_lock_nest := 0\<rparr>
              in if rt_current_thread s \<noteq> RT_NULL then rt_schedule s else s
         else s)"

section \<open>Invariant\<close>

text \<open>
  \<open>tables_ok\<close>: the bit map names the priorities whose ready list is not empty, and every
  thread in a ready list has the priority of the list. \<open>sched_inv\<close> adds what the status
  of a thread says about where it is linked.
\<close>

definition prio_of :: "kernel \<Rightarrow> tid \<Rightarrow> nat" where
  "prio_of s t = unat (current_priority (threads s t))"

definition status_of :: "kernel \<Rightarrow> tid \<Rightarrow> u8" where
  "status_of s t = status (threads s t)"

definition prio_ok :: "kernel \<Rightarrow> tid \<Rightarrow> bool" where
  "prio_ok s t \<longleftrightarrow> prio_of s t < 32 \<and> number_mask (threads s t) = 2 ^ prio_of s t"

definition tables_ok :: "kernel \<Rightarrow> bool" where
  "tables_ok s \<longleftrightarrow>
     (\<forall>p. bit (rt_thread_ready_priority_group s) p \<longleftrightarrow> rt_thread_priority_table s p \<noteq> []) \<and>
     (\<forall>p. distinct (rt_thread_priority_table s p)) \<and>
     (\<forall>p t. t \<in> set (rt_thread_priority_table s p) \<longrightarrow> prio_of s t = p)"

definition is_ready :: "kernel \<Rightarrow> tid \<Rightarrow> bool" where
  "is_ready s t \<longleftrightarrow> t \<in> set (rt_thread_priority_table s (prio_of s t))"

definition waits_ok :: "kernel \<Rightarrow> bool" where
  "waits_ok s \<longleftrightarrow>
     (\<forall>q. distinct (suspend_lists s q)) \<and>
     (\<forall>q t. t \<in> set (suspend_lists s q) \<longrightarrow> status_of s t = RT_THREAD_SUSPEND) \<and>
     (\<forall>q q' t. t \<in> set (suspend_lists s q) \<longrightarrow> t \<in> set (suspend_lists s q') \<longrightarrow> q = q')"

definition sched_inv :: "kernel \<Rightarrow> bool" where
  "sched_inv s \<longleftrightarrow>
     tables_ok s \<and> waits_ok s \<and>
     (\<forall>t. is_ready s t \<longleftrightarrow> status_of s t = RT_THREAD_READY) \<and>
     (\<forall>t. status_of s t = RT_THREAD_RUNNING \<longrightarrow> t = rt_current_thread s) \<and>
     status_of s (rt_current_thread s) \<noteq> RT_THREAD_READY \<and>
     (\<forall>t. status_of s t \<noteq> RT_THREAD_INIT \<longrightarrow> prio_ok s t)"

lemma tables_okD:
  assumes "tables_ok s"
  shows "bit (rt_thread_ready_priority_group s) p \<longleftrightarrow> rt_thread_priority_table s p \<noteq> []"
    and "distinct (rt_thread_priority_table s p)"
    and "t \<in> set (rt_thread_priority_table s p) \<Longrightarrow> prio_of s t = p"
  using assms by (auto simp: tables_ok_def)

lemma upd_thread_sel [simp]:
  "threads (upd_thread t f s) = (threads s)(t := f (threads s t))"
  "rt_thread_priority_table (upd_thread t f s) = rt_thread_priority_table s"
  "rt_thread_ready_priority_group (upd_thread t f s) = rt_thread_ready_priority_group s"
  "rt_current_thread (upd_thread t f s) = rt_current_thread s"
  "rt_current_priority (upd_thread t f s) = rt_current_priority s"
  "rt_scheduler_lock_nest (upd_thread t f s) = rt_scheduler_lock_nest s"
  "suspend_lists (upd_thread t f s) = suspend_lists s" "rt_tick (upd_thread t f s) = rt_tick s"
  "timers (upd_thread t f s) = timers s" "timer_list (upd_thread t f s) = timer_list s"
  "soft_timer_list (upd_thread t f s) = soft_timer_list s"
  "expired_list (upd_thread t f s) = expired_list s"
  "soft_timer_idle (upd_thread t f s) = soft_timer_idle s"
  "timer_thread (upd_thread t f s) = timer_thread s"
  by (simp_all add: upd_thread_def)

lemma upd_timer_sel [simp]:
  "timers (upd_timer i f s) = (timers s)(i := f (timers s i))"
  "threads (upd_timer i f s) = threads s"
  "rt_thread_priority_table (upd_timer i f s) = rt_thread_priority_table s"
  "rt_thread_ready_priority_group (upd_timer i f s) = rt_thread_ready_priority_group s"
  "rt_current_thread (upd_timer i f s) = rt_current_thread s"
  "rt_current_priority (upd_timer i f s) = rt_current_priority s"
  "rt_scheduler_lock_nest (upd_timer i f s) = rt_scheduler_lock_nest s"
  "suspend_lists (upd_timer i f s) = suspend_lists s" "rt_tick (upd_timer i f s) = rt_tick s"
  "timer_list (upd_timer i f s) = timer_list s"
  "soft_timer_list (upd_timer i f s) = soft_timer_list s"
  "expired_list (upd_timer i f s) = expired_list s"
  "soft_timer_idle (upd_timer i f s) = soft_timer_idle s"
  "timer_thread (upd_timer i f s) = timer_thread s"
  by (simp_all add: upd_timer_def)

lemma rt_list_remove_sel [simp]:
  "threads (rt_list_remove t s) = threads s"
  "rt_thread_priority_table (rt_list_remove t s) p = removeAll t (rt_thread_priority_table s p)"
  "rt_thread_ready_priority_group (rt_list_remove t s) = rt_thread_ready_priority_group s"
  "rt_current_thread (rt_list_remove t s) = rt_current_thread s"
  "rt_current_priority (rt_list_remove t s) = rt_current_priority s"
  "rt_scheduler_lock_nest (rt_list_remove t s) = rt_scheduler_lock_nest s"
  "suspend_lists (rt_list_remove t s) q = removeAll t (suspend_lists s q)"
  "rt_tick (rt_list_remove t s) = rt_tick s" "timers (rt_list_remove t s) = timers s"
  "timer_list (rt_list_remove t s) = timer_list s"
  "soft_timer_list (rt_list_remove t s) = soft_timer_list s"
  "expired_list (rt_list_remove t s) = expired_list s"
  "soft_timer_idle (rt_list_remove t s) = soft_timer_idle s"
  "timer_thread (rt_list_remove t s) = timer_thread s"
  by (simp_all add: rt_list_remove_def)

lemma insert_thread_sel [simp]:
  "rt_current_thread (rt_schedule_insert_thread t s) = rt_current_thread s"
  "rt_current_priority (rt_schedule_insert_thread t s) = rt_current_priority s"
  "rt_scheduler_lock_nest (rt_schedule_insert_thread t s) = rt_scheduler_lock_nest s"
  "suspend_lists (rt_schedule_insert_thread t s) = suspend_lists s"
  "rt_tick (rt_schedule_insert_thread t s) = rt_tick s"
  "timers (rt_schedule_insert_thread t s) = timers s"
  "timer_list (rt_schedule_insert_thread t s) = timer_list s"
  "soft_timer_list (rt_schedule_insert_thread t s) = soft_timer_list s"
  "expired_list (rt_schedule_insert_thread t s) = expired_list s"
  "soft_timer_idle (rt_schedule_insert_thread t s) = soft_timer_idle s"
  "timer_thread (rt_schedule_insert_thread t s) = timer_thread s"
  "current_priority (threads (rt_schedule_insert_thread t s) u) = current_priority (threads s u)"
  "number_mask (threads (rt_schedule_insert_thread t s) u) = number_mask (threads s u)"
  "error (threads (rt_schedule_insert_thread t s) u) = error (threads s u)"
  by (simp_all add: rt_schedule_insert_thread_def Let_def)

lemma remove_thread_sel [simp]:
  "threads (rt_schedule_remove_thread t s) = threads s"
  "rt_thread_priority_table (rt_schedule_remove_thread t s) p =
     removeAll t (rt_thread_priority_table s p)"
  "rt_current_thread (rt_schedule_remove_thread t s) = rt_current_thread s"
  "rt_current_priority (rt_schedule_remove_thread t s) = rt_current_priority s"
  "rt_scheduler_lock_nest (rt_schedule_remove_thread t s) = rt_scheduler_lock_nest s"
  "suspend_lists (rt_schedule_remove_thread t s) q = removeAll t (suspend_lists s q)"
  "rt_tick (rt_schedule_remove_thread t s) = rt_tick s"
  "timers (rt_schedule_remove_thread t s) = timers s"
  "timer_list (rt_schedule_remove_thread t s) = timer_list s"
  "soft_timer_list (rt_schedule_remove_thread t s) = soft_timer_list s"
  "expired_list (rt_schedule_remove_thread t s) = expired_list s"
  "soft_timer_idle (rt_schedule_remove_thread t s) = soft_timer_idle s"
  "timer_thread (rt_schedule_remove_thread t s) = timer_thread s"
  by (simp_all add: rt_schedule_remove_thread_def Let_def)

lemma prio_status_sel [simp]:
  "prio_of (upd_thread t f s) u =
     (if u = t then unat (current_priority (f (threads s t))) else prio_of s u)"
  "status_of (upd_thread t f s) u = (if u = t then status (f (threads s t)) else status_of s u)"
  "prio_of (upd_timer i g s) u = prio_of s u" "status_of (upd_timer i g s) u = status_of s u"
  "prio_of (rt_list_remove t s) u = prio_of s u"
  "status_of (rt_list_remove t s) u = status_of s u"
  "prio_of (rt_schedule_insert_thread t s) u = prio_of s u"
  "prio_of (rt_schedule_remove_thread t s) u = prio_of s u"
  "status_of (rt_schedule_remove_thread t s) u = status_of s u"
  by (simp_all add: prio_of_def status_of_def)

lemma bit_one_push: "bit (2 ^ p :: u32) n \<longleftrightarrow> n = p \<and> n < 32"
  by (auto simp: bit_exp_iff)

lemma tables_ok_insert:
  assumes "tables_ok s" "prio_ok s t" "t \<noteq> rt_current_thread s" "\<not> is_ready s t"
  shows "tables_ok (rt_schedule_insert_thread t s)"
  using assms
  by (auto simp: tables_ok_def rt_schedule_insert_thread_def Let_def bit_or_iff prio_ok_def
      bit_one_push is_ready_def prio_of_def split: if_splits)

lemma tables_ok_remove:
  assumes ok: "tables_ok s" and p: "prio_ok s t"
  shows "tables_ok (rt_schedule_remove_thread t s)"
proof -
  have "bit (rt_thread_ready_priority_group (rt_schedule_remove_thread t s)) n \<longleftrightarrow>
      removeAll t (rt_thread_priority_table s n) \<noteq> []" for n
  proof (cases "n = prio_of s t")
    case True
    then show ?thesis
      using ok p by (auto simp: rt_schedule_remove_thread_def Let_def tables_ok_def bit_and_iff
          bit_not_iff prio_ok_def bit_one_push prio_of_def)
  next
    case False
    then have "t \<notin> set (rt_thread_priority_table s n)" using ok by (auto simp: tables_ok_def)
    moreover have "n < 32" if "rt_thread_priority_table s n \<noteq> []"
      using ok that bit_imp_le_length [of "rt_thread_ready_priority_group s" n]
      by (simp add: tables_ok_def)
    ultimately show ?thesis
      using ok p False by (auto simp: rt_schedule_remove_thread_def Let_def tables_ok_def bit_and_iff
          bit_not_iff prio_ok_def bit_one_push prio_of_def dest: bit_imp_le_length)
  qed
  then show ?thesis
    using ok by (auto simp: tables_ok_def distinct_removeAll)
qed

lemma kernel_frame [simp]:
  "prio_of (s\<lparr>rt_current_thread := c\<rparr>) = prio_of s"
  "prio_of (s\<lparr>rt_current_priority := cp\<rparr>) = prio_of s"
  "prio_of (s\<lparr>suspend_lists := l\<rparr>) = prio_of s"
  "prio_of (s\<lparr>rt_scheduler_lock_nest := k\<rparr>) = prio_of s"
  "status_of (s\<lparr>rt_current_thread := c\<rparr>) = status_of s"
  "status_of (s\<lparr>rt_current_priority := cp\<rparr>) = status_of s"
  "status_of (s\<lparr>suspend_lists := l\<rparr>) = status_of s"
  "status_of (s\<lparr>rt_scheduler_lock_nest := k\<rparr>) = status_of s"
  by (auto simp: prio_of_def status_of_def fun_eq_iff)

lemma tables_ok_frame [simp]:
  "tables_ok (s\<lparr>rt_current_thread := c\<rparr>) = tables_ok s"
  "tables_ok (s\<lparr>rt_current_priority := cp\<rparr>) = tables_ok s"
  "tables_ok (s\<lparr>suspend_lists := l\<rparr>) = tables_ok s"
  "prio_ok (s\<lparr>rt_current_thread := c\<rparr>) = prio_ok s"
  "prio_ok (s\<lparr>rt_current_priority := cp\<rparr>) = prio_ok s"
  "prio_ok (s\<lparr>suspend_lists := l\<rparr>) = prio_ok s"
  "is_ready (s\<lparr>rt_current_thread := c\<rparr>) = is_ready s"
  "is_ready (s\<lparr>rt_current_priority := cp\<rparr>) = is_ready s"
  "is_ready (s\<lparr>suspend_lists := l\<rparr>) = is_ready s"
  by (auto simp: tables_ok_def prio_ok_def is_ready_def fun_eq_iff)

lemma keep_prio_upd:
  assumes "\<And>th. current_priority (f th) = current_priority th"
  shows "prio_of (upd_thread t f s) u = prio_of s u"
    and "tables_ok (upd_thread t f s) = tables_ok s"
    and "is_ready (upd_thread t f s) u = is_ready s u"
  using assms by (auto simp: tables_ok_def is_ready_def prio_of_def)

lemma keep_mask_upd:
  assumes "\<And>th. current_priority (f th) = current_priority th"
    and "\<And>th. number_mask (f th) = number_mask th"
  shows "prio_ok (upd_thread t f s) u = prio_ok s u"
  using assms by (auto simp: prio_ok_def prio_of_def)

lemma prio_ok_ops [simp]:
  "prio_ok (rt_schedule_insert_thread t s) u = prio_ok s u"
  "prio_ok (rt_schedule_remove_thread t s) u = prio_ok s u"
  by (simp_all add: prio_ok_def)

lemma status_insert [simp]:
  "status_of (rt_schedule_insert_thread t s) u =
     (if u = t then (if t = rt_current_thread s then RT_THREAD_RUNNING else RT_THREAD_READY)
      else status_of s u)"
  by (auto simp: rt_schedule_insert_thread_def Let_def status_of_def)

lemma table_insert:
  "rt_thread_priority_table (rt_schedule_insert_thread t s) p =
     (if t \<noteq> rt_current_thread s \<and> p = prio_of s t then rt_thread_priority_table s p @ [t]
      else rt_thread_priority_table s p)"
  by (auto simp: rt_schedule_insert_thread_def Let_def prio_of_def)

lemma is_ready_insert [simp]:
  "is_ready (rt_schedule_insert_thread t s) u \<longleftrightarrow>
     is_ready s u \<or> t \<noteq> rt_current_thread s \<and> u = t"
  by (auto simp: is_ready_def table_insert)

lemma is_ready_remove [simp]:
  "is_ready (rt_schedule_remove_thread t s) u \<longleftrightarrow> is_ready s u \<and> u \<noteq> t"
  by (auto simp: is_ready_def)

text \<open>The thread that the scheduler finds is the head of the first ready list not empty.\<close>

lemma rt_ffs_least:
  assumes "w \<noteq> 0"
  shows "bit w (rt_ffs w - 1)" "\<And>q. q < rt_ffs w - 1 \<Longrightarrow> \<not> bit w q" "rt_ffs w - 1 < 32"
proof -
  obtain k where k: "k < 32" "bit w k"
    using assms bit_imp_le_length [of w] by (auto simp: bit_eq_iff)
  then obtain n where n: "List.find (bit w) [0..<32] = Some n"
    using find_None_iff2 [of "bit w" "[0..<32]"] by (cases "List.find (bit w) [0..<32]") auto
  then have "rt_ffs w = Suc n" by (simp add: rt_ffs_def)
  moreover have "n < 32" "bit w n" "\<forall>j<n. \<not> bit w j"
    using n by (auto simp: find_Some_iff)
  ultimately show "bit w (rt_ffs w - 1)" "\<And>q. q < rt_ffs w - 1 \<Longrightarrow> \<not> bit w q"
    "rt_ffs w - 1 < 32"
    by auto
qed

lemma highest_thread:
  assumes ok: "tables_ok s" and g: "rt_thread_ready_priority_group s \<noteq> 0"
    and h: "highest_priority_thread s = (t, p)"
  shows "rt_thread_priority_table s p \<noteq> []" "t = hd (rt_thread_priority_table s p)"
    and "prio_of s t = p" "is_ready s t" "p < 32"
    and "\<And>u. is_ready s u \<Longrightarrow> p \<le> prio_of s u"
proof -
  have p: "p = rt_ffs (rt_thread_ready_priority_group s) - 1"
    and t: "t = hd (rt_thread_priority_table s p)"
    using h by (auto simp: highest_priority_thread_def Let_def)
  note least = rt_ffs_least [OF g, folded p]
  show ne: "rt_thread_priority_table s p \<noteq> []" "t = hd (rt_thread_priority_table s p)" "p < 32"
    using least ok t by (auto simp: tables_ok_def)
  show pr: "prio_of s t = p" using ok ne by (simp add: tables_ok_def)
  show "is_ready s t" using ne pr by (simp add: is_ready_def)
  show "p \<le> prio_of s u" if "is_ready s u" for u
  proof -
    have "rt_thread_priority_table s (prio_of s u) \<noteq> []" using that by (auto simp: is_ready_def)
    then show ?thesis using least(2) [of "prio_of s u"] ok by (force simp: tables_ok_def not_less)
  qed
qed

text \<open>What one call of \<open>rt_schedule\<close> does, by the fate of the running thread.\<close>

definition keeps_cpu :: "kernel \<Rightarrow> bool" where
  "keeps_cpu s \<longleftrightarrow>
     status_of s (rt_current_thread s) = RT_THREAD_RUNNING \<and>
     (let p = snd (highest_priority_thread s); c = prio_of s (rt_current_thread s)
      in c < p \<or> c = p \<and> \<not> yield_flag (threads s (rt_current_thread s)))"

lemma schedule_cases:
  obtains (idle) "rt_schedule s = s"
      "rt_scheduler_lock_nest s \<noteq> 0 \<or> rt_thread_ready_priority_group s = 0"
  | (keep) s' where "rt_scheduler_lock_nest s = 0" "rt_thread_ready_priority_group s \<noteq> 0"
      "keeps_cpu s"
      "s' = upd_thread (rt_current_thread s) clear_yield s"
      "rt_schedule s = upd_thread (rt_current_thread s) (set_status RT_THREAD_RUNNING)
         (rt_schedule_remove_thread (rt_current_thread s) s')"
  | (switch) s' t p where "rt_scheduler_lock_nest s = 0" "rt_thread_ready_priority_group s \<noteq> 0"
      "\<not> keeps_cpu s" "highest_priority_thread s = (t, p)" "t \<noteq> rt_current_thread s"
      "s' = (if status_of s (rt_current_thread s) = RT_THREAD_RUNNING
             then rt_schedule_insert_thread (rt_current_thread s)
                    (upd_thread (rt_current_thread s) clear_yield s
                       \<lparr>rt_current_priority := of_nat p, rt_current_thread := t\<rparr>)
             else s\<lparr>rt_current_priority := of_nat p, rt_current_thread := t\<rparr>)"
      "rt_schedule s = upd_thread t (set_status RT_THREAD_RUNNING) (rt_schedule_remove_thread t s')"
  | (odd) "rt_thread_ready_priority_group s \<noteq> 0" "\<not> keeps_cpu s"
      "fst (highest_priority_thread s) = rt_current_thread s"
proof (cases "rt_scheduler_lock_nest s = 0 \<and> rt_thread_ready_priority_group s \<noteq> 0")
  case False
  then show thesis by (intro idle) (auto simp: rt_schedule_def)
next
  case True
  obtain t p where h: "highest_priority_thread s = (t, p)" by (rule prod.exhaust)
  show thesis
  proof (cases "keeps_cpu s")
    case k: True
    then show thesis
      using True h by (intro keep [OF _ _ _ refl])
        (auto simp: rt_schedule_def keeps_cpu_def Let_def prio_of_def status_of_def)
  next
    case k: False
    show thesis
    proof (cases "t = rt_current_thread s")
      case True
      then show thesis using odd k h \<open>_ \<and> _\<close> by auto
    next
      case t: False
      then show thesis
        using True h k by (intro switch [OF _ _ _ h _ refl])
          (auto simp: rt_schedule_def keeps_cpu_def Let_def prio_of_def status_of_def)
    qed
  qed
qed

lemma sched_invD:
  assumes "sched_inv s"
  shows "tables_ok s" "waits_ok s" "is_ready s t \<longleftrightarrow> status_of s t = RT_THREAD_READY"
    and "status_of s t = RT_THREAD_RUNNING \<Longrightarrow> t = rt_current_thread s"
    and "status_of s (rt_current_thread s) \<noteq> RT_THREAD_READY"
    and "status_of s t \<noteq> RT_THREAD_INIT \<Longrightarrow> prio_ok s t"
  using assms by (auto simp: sched_inv_def)

lemma not_waiting:
  "waits_ok s \<Longrightarrow> status_of s t \<noteq> RT_THREAD_SUSPEND \<Longrightarrow> t \<notin> set (suspend_lists s q)"
  by (auto simp: waits_ok_def)

lemma sched_inv_schedule:
  assumes inv: "sched_inv s"
  shows "sched_inv (rt_schedule s)"
proof (cases s rule: schedule_cases)
  case idle
  then show ?thesis using inv by simp
next
  case odd
  then have "is_ready s (rt_current_thread s)"
    using highest_thread [OF sched_invD(1) [OF inv]]
    by (metis prod.collapse)
  then show ?thesis using sched_invD(3,5) [OF inv] by simp
next
  case (keep s')
  let ?c = "rt_current_thread s"
  have run: "status_of s ?c = RT_THREAD_RUNNING" using keep(3) by (simp add: keeps_cpu_def)
  then have pc: "prio_ok s ?c" using sched_invD(6) [OF inv] by simp
  have t: "tables_ok (rt_schedule_remove_thread ?c s')"
    unfolding keep(4) using sched_invD(1) [OF inv] pc
    by (intro tables_ok_remove) (simp_all add: keep_prio_upd keep_mask_upd)
  have w: "removeAll ?c (suspend_lists s q) = suspend_lists s q" for q
    using not_waiting [OF sched_invD(2) [OF inv], of ?c q] run by simp
  let ?r = "rt_schedule s"
  have st: "status_of ?r u = status_of s u" for u
    using run unfolding keep(5) keep(4) by (simp add: status_of_def)
  have nr: "\<not> is_ready s ?c" using sched_invD(3,5) [OF inv] by simp
  have rd: "is_ready ?r u \<longleftrightarrow> is_ready s u" for u
    using nr unfolding keep(5) keep(4) by (auto simp: keep_prio_upd)
  have pr: "prio_ok ?r u = prio_ok s u" for u
    unfolding keep(5) keep(4) by (simp add: keep_mask_upd)
  have cur: "rt_current_thread ?r = ?c" unfolding keep(5) keep(4) by simp
  have tr: "tables_ok ?r" unfolding keep(5) using t by (simp add: keep_prio_upd)
  have sl: "suspend_lists ?r = suspend_lists s"
    using w unfolding keep(5) keep(4) by (simp add: fun_eq_iff)
  have "waits_ok ?r"
    using sched_invD(2) [OF inv] unfolding waits_ok_def sl st .
  with tr show ?thesis
    using inv unfolding sched_inv_def cur rd pr st by blast
next
  case (switch s' t p)
  let ?c = "rt_current_thread s"
  note top = highest_thread [OF sched_invD(1) [OF inv] switch(2,4)]
  have rt: "status_of s t = RT_THREAD_READY" using top sched_invD(3) [OF inv] by simp
  have pt: "prio_ok s t" using rt sched_invD(6) [OF inv] by simp
  have nrc: "\<not> is_ready s ?c" using sched_invD(3,5) [OF inv] by simp
  have pc: "status_of s ?c = RT_THREAD_RUNNING \<Longrightarrow> prio_ok s ?c"
    using sched_invD(6) [OF inv, of ?c] by simp
  let ?s1 = "upd_thread ?c clear_yield s\<lparr>rt_current_priority := of_nat p, rt_current_thread := t\<rparr>"
  have s1: "tables_ok ?s1" "prio_ok ?s1 u = prio_ok s u" "is_ready ?s1 u = is_ready s u"
    "status_of ?s1 u = status_of s u" "rt_current_thread ?s1 = t"
    "suspend_lists ?s1 = suspend_lists s" for u
    using sched_invD(1) [OF inv] by (auto simp: keep_prio_upd keep_mask_upd status_of_def)
  have s'_all: "tables_ok s' \<and> (prio_ok s' u = prio_ok s u) \<and> rt_current_thread s' = t \<and>
        suspend_lists s' = suspend_lists s \<and>
        (is_ready s' u \<longleftrightarrow> is_ready s u \<or> u = ?c \<and> status_of s ?c = RT_THREAD_RUNNING) \<and>
        status_of s' u = (if u = ?c \<and> status_of s ?c = RT_THREAD_RUNNING then RT_THREAD_READY
                          else status_of s u)" for u
  proof (cases "status_of s ?c = RT_THREAD_RUNNING")
    case True
    then have e: "s' = rt_schedule_insert_thread ?c ?s1" by (simp add: switch(6))
    have "tables_ok s'"
      unfolding e using s1 pc [OF True] nrc switch(5) by (intro tables_ok_insert) auto
    moreover have "prio_ok s' u = prio_ok s u" "rt_current_thread s' = t"
      "suspend_lists s' = suspend_lists s" "is_ready s' u \<longleftrightarrow> is_ready s u \<or> u = ?c"
      "status_of s' u = (if u = ?c then RT_THREAD_READY else status_of s u)"
      unfolding e prio_ok_ops insert_thread_sel is_ready_insert status_insert
      using s1 switch(5) by auto
    ultimately show ?thesis
      using True by simp
  next
    case False
    then show ?thesis
      using sched_invD(1) [OF inv] by (simp add: switch(6))
  qed
  have s': "tables_ok s'" "prio_ok s' u = prio_ok s u" "rt_current_thread s' = t"
    "suspend_lists s' = suspend_lists s"
    "is_ready s' u \<longleftrightarrow> is_ready s u \<or> u = ?c \<and> status_of s ?c = RT_THREAD_RUNNING"
    "status_of s' u = (if u = ?c \<and> status_of s ?c = RT_THREAD_RUNNING then RT_THREAD_READY
                       else status_of s u)" for u
    using s'_all [of u] by blast+
  let ?r = "rt_schedule s"
  have t: "tables_ok ?r"
    unfolding switch(7) using s' pt by (simp add: keep_prio_upd tables_ok_remove)
  have w: "suspend_lists ?r = suspend_lists s"
    using not_waiting [OF sched_invD(2) [OF inv], of t] rt s'(4)
    unfolding switch(7) by (auto simp: fun_eq_iff)
  have cur: "rt_current_thread ?r = t" unfolding switch(7) using s' by simp
  have st: "status_of ?r u = (if u = t then RT_THREAD_RUNNING else status_of s' u)" for u
    unfolding switch(7) by (simp add: status_of_def)
  have rd: "is_ready ?r u \<longleftrightarrow> u \<noteq> t \<and> is_ready s' u" for u
    unfolding switch(7) by (auto simp: keep_prio_upd)
  have pr: "prio_ok ?r u = prio_ok s u" for u
    unfolding switch(7) using s' by (simp add: keep_mask_upd)
  have wk: "waits_ok ?r"
    using sched_invD(2) [OF inv] rt switch(5) unfolding waits_ok_def w
    by (auto simp: st s'(6) split: if_splits)
  have A: "is_ready ?r u \<longleftrightarrow> status_of ?r u = RT_THREAD_READY" for u
    using sched_invD(3) [OF inv, of u] unfolding rd st s'(5) s'(6) by auto
  have B: "status_of ?r u = RT_THREAD_RUNNING \<Longrightarrow> u = t" for u
    using sched_invD(4) [OF inv, of u] unfolding st s'(6) by (auto split: if_splits)
  have C: "status_of ?r u \<noteq> RT_THREAD_INIT \<Longrightarrow> prio_ok ?r u" for u
    using sched_invD(6) [OF inv, of u] pt sched_invD(6) [OF inv, of ?c] unfolding pr st s'(6)
    by (auto split: if_splits)
  show ?thesis
    unfolding sched_inv_def cur
    by (intro conjI allI impI) (rule t, rule wk, rule A, erule B, simp add: st, erule C)
qed

text \<open>The fields that a scheduling does not touch.\<close>

lemma schedule_frame [simp]:
  "rt_scheduler_lock_nest (rt_schedule s) = rt_scheduler_lock_nest s"
  "rt_tick (rt_schedule s) = rt_tick s" "timers (rt_schedule s) = timers s"
  "timer_list (rt_schedule s) = timer_list s"
  "soft_timer_list (rt_schedule s) = soft_timer_list s"
  "expired_list (rt_schedule s) = expired_list s"
  "soft_timer_idle (rt_schedule s) = soft_timer_idle s"
  "timer_thread (rt_schedule s) = timer_thread s"
  "prio_of (rt_schedule s) u = prio_of s u"
  "error (threads (rt_schedule s) u) = error (threads s u)"
  by (auto simp: rt_schedule_def Let_def prio_of_def split: prod.splits)

lemma schedule_suspend_lists:
  assumes "sched_inv s"
  shows "suspend_lists (rt_schedule s) = suspend_lists s"
proof (cases s rule: schedule_cases)
  case (keep s')
  have "status_of s (rt_current_thread s) \<noteq> RT_THREAD_SUSPEND" using keep(3) by (simp add: keeps_cpu_def)
  then show ?thesis
    unfolding keep(5) keep(4) using not_waiting [OF sched_invD(2) [OF assms]] by (simp add: fun_eq_iff)
next
  case (switch s' t p)
  have "is_ready s t" using highest_thread [OF sched_invD(1) [OF assms] switch(2,4)] by simp
  then have "status_of s t \<noteq> RT_THREAD_SUSPEND" using sched_invD(3) [OF assms] by simp
  then show ?thesis
    unfolding switch(7) switch(6) using not_waiting [OF sched_invD(2) [OF assms]]
    by (simp add: fun_eq_iff)
next
  case odd
  then have "is_ready s (rt_current_thread s)"
    using highest_thread [OF sched_invD(1) [OF assms]] by (metis prod.collapse)
  then show ?thesis using sched_invD(3,5) [OF assms] by simp
qed simp

lemma schedule_best:
  assumes inv: "sched_inv s" and lock: "rt_scheduler_lock_nest s = 0"
    and u: "is_ready (rt_schedule s) u"
  shows "prio_of s (rt_current_thread (rt_schedule s)) \<le> prio_of s u \<and>
    status_of (rt_schedule s) (rt_current_thread (rt_schedule s)) = RT_THREAD_RUNNING"
proof (cases s rule: schedule_cases)
  case idle
  then have "rt_thread_ready_priority_group s = 0" using lock by simp
  then have "rt_thread_priority_table s q = []" for q
    using sched_invD(1) [OF inv] by (simp add: tables_ok_def)
  then show ?thesis using u idle(1) by (simp add: is_ready_def)
next
  case odd
  then have "is_ready s (rt_current_thread s)"
    using highest_thread [OF sched_invD(1) [OF inv]] by (metis prod.collapse)
  then show ?thesis using sched_invD(3,5) [OF inv] by simp
next
  case (keep s')
  obtain t p where h: "highest_priority_thread s = (t, p)" by (rule prod.exhaust)
  have "is_ready s u" using u unfolding keep(5) keep(4) by (simp add: keep_prio_upd)
  then have "p \<le> prio_of s u" using highest_thread [OF sched_invD(1) [OF inv] keep(2) h] by simp
  then show ?thesis using keep(3) h unfolding keep(5) keep(4) by (auto simp: keeps_cpu_def Let_def)
next
  case (switch s' t p)
  note top = highest_thread [OF sched_invD(1) [OF inv] switch(2,4)]
  have "is_ready s u \<or> u = rt_current_thread s \<and> status_of s u = RT_THREAD_RUNNING"
    using u switch(5) unfolding switch(7) switch(6) by (auto simp: keep_prio_upd split: if_splits)
  moreover have "p \<le> prio_of s u" if "is_ready s u" using top(6) that by simp
  moreover have "p \<le> prio_of s u" if "u = rt_current_thread s" "status_of s u = RT_THREAD_RUNNING"
    using switch(3,4) that by (simp add: keeps_cpu_def Let_def not_less)
  moreover have "rt_current_thread (rt_schedule s) = t"
    unfolding switch(7) switch(6) by simp
  ultimately show ?thesis using top(3) unfolding switch(7) by (auto simp: status_of_def)
qed

lemma schedule_running:
  assumes inv: "sched_inv s" and lock: "rt_scheduler_lock_nest s = 0"
    and some: "status_of s (rt_current_thread s) = RT_THREAD_RUNNING \<or> (\<exists>u. is_ready s u)"
  shows "status_of (rt_schedule s) (rt_current_thread (rt_schedule s)) = RT_THREAD_RUNNING"
proof (cases s rule: schedule_cases)
  case idle
  then have "rt_thread_ready_priority_group s = 0" using lock by simp
  then have "rt_thread_priority_table s q = []" for q
    using sched_invD(1) [OF inv] by (simp add: tables_ok_def)
  then show ?thesis using some idle(1) by (simp add: is_ready_def)
next
  case odd
  then have "is_ready s (rt_current_thread s)"
    using highest_thread [OF sched_invD(1) [OF inv]] by (metis prod.collapse)
  then show ?thesis using sched_invD(3,5) [OF inv] by simp
qed (auto simp: status_of_def)

lemma ready_after_schedule:
  assumes inv: "sched_inv s" and t: "is_ready s t"
  shows "is_ready (rt_schedule s) t \<or> rt_current_thread (rt_schedule s) = t"
proof (cases s rule: schedule_cases)
  case (keep s')
  have "t \<noteq> rt_current_thread s" using sched_invD(3,5) [OF inv] t by metis
  then show ?thesis using t unfolding keep(5) keep(4) by (simp add: keep_prio_upd)
next
  case (switch s' t' p)
  then show ?thesis using t unfolding switch(7) by (auto simp: switch(6) keep_prio_upd)
next
  case odd
  then have "is_ready s (rt_current_thread s)"
    using highest_thread [OF sched_invD(1) [OF inv]] by (metis prod.collapse)
  then show ?thesis using sched_invD(3,5) [OF inv] by simp
qed (use t in simp)

end
