(* ===== verification/Thread.thy ===== *)
theory Thread
  imports Kernel
begin

text \<open>
  Threads and timers of the RT-Thread kernel: \<open>thread.c\<close>, \<open>timer.c\<close> (with
  \<open>RT_TIMER_SKIP_LIST_LEVEL\<close> 1, so that a timer list is a plain list) and \<open>clock.c\<close>.
  A blocking call ends for the caller where it calls \<open>rt_schedule\<close>; what the thread does
  when it runs again is a definition of its own. The timer of a thread is
  \<open>thread_timer t\<close>, with \<open>_thread_timeout\<close> as its callback; the callbacks of other timers
  are an argument of the tick.
\<close>

section \<open>Timers\<close>

definition RT_TIMER_FLAG_ACTIVATED :: u8 where "RT_TIMER_FLAG_ACTIVATED = 1"
definition RT_TIMER_FLAG_PERIODIC :: u8 where "RT_TIMER_FLAG_PERIODIC = 2"
definition RT_TIMER_FLAG_SOFT_TIMER :: u8 where "RT_TIMER_FLAG_SOFT_TIMER = 4"

definition RT_TICK_HALF :: u32 where "RT_TICK_HALF = 0x7FFFFFFF"

definition has_flag :: "u8 \<Rightarrow> kernel \<Rightarrow> timer_id \<Rightarrow> bool" where
  "has_flag f s i \<longleftrightarrow> flag (timers s i) AND f \<noteq> 0"

definition set_flag :: "u8 \<Rightarrow> timer_id \<Rightarrow> kernel \<Rightarrow> kernel" where
  "set_flag f i = upd_timer i (\<lambda>tm. tm\<lparr>flag := flag tm OR f\<rparr>)"

definition clear_flag :: "u8 \<Rightarrow> timer_id \<Rightarrow> kernel \<Rightarrow> kernel" where
  "clear_flag f i = upd_timer i (\<lambda>tm. tm\<lparr>flag := flag tm AND NOT f\<rparr>)"

definition timer_init :: "timer_id \<Rightarrow> u32 \<Rightarrow> u8 \<Rightarrow> kernel \<Rightarrow> kernel" where
  "timer_init i time f =
     upd_timer i (\<lambda>_. \<lparr>flag = f AND NOT RT_TIMER_FLAG_ACTIVATED, init_tick = time, timeout_tick = 0\<rparr>)"

definition timer_remove :: "timer_id \<Rightarrow> kernel \<Rightarrow> kernel" where
  "timer_remove i s =
     s\<lparr>timer_list := removeAll i (timer_list s),
       soft_timer_list := removeAll i (soft_timer_list s),
       expired_list := removeAll i (expired_list s)\<rparr>"

definition timer_list_next_timeout :: "kernel \<Rightarrow> timer_id list \<Rightarrow> u32 option" where
  "timer_list_next_timeout s l =
     (case l of [] \<Rightarrow> None | i # _ \<Rightarrow> Some (timeout_tick (timers s i)))"

definition rt_timer_stop :: "timer_id \<Rightarrow> kernel \<Rightarrow> kernel \<times> int" where
  "rt_timer_stop i s =
     (if \<not> has_flag RT_TIMER_FLAG_ACTIVATED s i then (s, - RT_ERROR)
      else (clear_flag RT_TIMER_FLAG_ACTIVATED i (timer_remove i s), RT_EOK))"

text \<open>The insertion goes past the timers that are due no later than the new one.\<close>

fun timer_insert :: "(timer_id \<Rightarrow> u32) \<Rightarrow> u32 \<Rightarrow> timer_id \<Rightarrow> timer_id list \<Rightarrow> timer_id list" where
  "timer_insert tk due i [] = [i]"
| "timer_insert tk due i (t # ts) =
     (if tk t - due = 0 then t # timer_insert tk due i ts
      else if tk t - due < RT_TICK_HALF then i # t # ts
      else t # timer_insert tk due i ts)"

section \<open>Threads\<close>

text \<open>
  \<open>rt_thread_suspend\<close> and the calls that block assert that they act on the thread that runs, in
  thread context and with the scheduler unlocked (\<open>RT_ASSERT(thread == rt_thread_self())\<close>,
  \<open>RT_DEBUG_SCHEDULER_AVAILABLE\<close>, \<open>RT_DEBUG_IN_THREAD_CONTEXT\<close>). Interrupt nesting is not in
  the state: these checks are the caller's obligation here, and the definitions are the calls
  that pass them. \<open>kernel_step\<close> suspends the current thread only.
\<close>

definition rt_thread_suspend :: "tid \<Rightarrow> kernel \<Rightarrow> kernel \<times> int" where
  "rt_thread_suspend t s =
     (if status_of s t \<noteq> RT_THREAD_READY \<and> status_of s t \<noteq> RT_THREAD_RUNNING then (s, - RT_ERROR)
      else
        let s = rt_schedule_remove_thread t s;
            s = upd_thread t (set_status RT_THREAD_SUSPEND) s
        in (fst (rt_timer_stop (thread_timer t) s), RT_EOK))"

definition rt_thread_resume :: "tid \<Rightarrow> kernel \<Rightarrow> kernel \<times> int" where
  "rt_thread_resume t s =
     (if status_of s t \<noteq> RT_THREAD_SUSPEND then (s, - RT_ERROR)
      else
        let s = rt_list_remove t s;
            s = fst (rt_timer_stop (thread_timer t) s)
        in (rt_schedule_insert_thread t s, RT_EOK))"

definition timer_enlist :: "timer_id \<Rightarrow> kernel \<Rightarrow> kernel" where
  "timer_enlist i s =
     (let s = clear_flag RT_TIMER_FLAG_ACTIVATED i (timer_remove i s);
          s = upd_timer i (\<lambda>tm. tm\<lparr>timeout_tick := rt_tick s + init_tick tm\<rparr>) s;
          ins = timer_insert (\<lambda>j. timeout_tick (timers s j)) (timeout_tick (timers s i)) i;
          s = (if has_flag RT_TIMER_FLAG_SOFT_TIMER s i
               then s\<lparr>soft_timer_list := ins (soft_timer_list s)\<rparr>
               else s\<lparr>timer_list := ins (timer_list s)\<rparr>)
      in set_flag RT_TIMER_FLAG_ACTIVATED i s)"

definition rt_timer_start :: "timer_id \<Rightarrow> kernel \<Rightarrow> kernel" where
  "rt_timer_start i s =
     (let s = timer_enlist i s
      in if has_flag RT_TIMER_FLAG_SOFT_TIMER s i \<and> soft_timer_idle s \<and>
            status_of s (timer_thread s) = RT_THREAD_SUSPEND
         then rt_schedule (fst (rt_thread_resume (timer_thread s) s)) else s)"

definition set_timer_time :: "timer_id \<Rightarrow> u32 \<Rightarrow> kernel \<Rightarrow> kernel" where
  "set_timer_time i time = upd_timer i (\<lambda>tm. tm\<lparr>init_tick := time\<rparr>)"

text \<open>
  \<open>rt_timer_control\<close>; the second component is what it stores through \<open>arg\<close>. The state query
  runs on into the query of the remaining time, there is no \<open>break\<close> between the two.
\<close>

definition rt_timer_control :: "timer_id \<Rightarrow> nat \<Rightarrow> u32 \<Rightarrow> kernel \<Rightarrow> (kernel \<times> u32) option" where
  "rt_timer_control i cmd arg s =
     (if cmd = 1 then Some (s, init_tick (timers s i))
      else if cmd = 0 then
        (if arg < RT_TICK_HALF then Some (set_timer_time i arg s, arg) else None)
      else if cmd = 2 then Some (clear_flag RT_TIMER_FLAG_PERIODIC i s, arg)
      else if cmd = 3 then Some (set_flag RT_TIMER_FLAG_PERIODIC i s, arg)
      else if cmd = 4 then
        (let arg = (if has_flag RT_TIMER_FLAG_ACTIVATED s i then 1 else (0 :: u32));
             arg = timeout_tick (timers s i)
         in Some (s, arg))
      else if cmd = 5 then Some (s, timeout_tick (timers s i))
      else Some (s, arg))"

text \<open>\<open>None\<close>: the assertion that the thread is suspended fails.\<close>

definition thread_timeout :: "tid \<Rightarrow> kernel \<Rightarrow> kernel option" where
  "thread_timeout t s =
     (if status_of s t \<noteq> RT_THREAD_SUSPEND then None
      else
        let s = upd_thread t (\<lambda>th. th\<lparr>error := - RT_ETIMEOUT\<rparr>) s;
            s = rt_schedule_insert_thread t (rt_list_remove t s)
        in Some (rt_schedule s))"

definition thread_init :: "tid \<Rightarrow> u8 \<Rightarrow> u32 \<Rightarrow> kernel \<Rightarrow> kernel option" where
  "thread_init t prio tick s =
     (if prio < 32 then
        Some (timer_init (thread_timer t) 0 0
          (upd_thread t (\<lambda>_. \<lparr>stat = RT_THREAD_INIT, error = RT_EOK, current_priority = prio,
             number_mask = 0, event_set = 0, event_info = 0, thread_init_tick = tick,
             remaining_tick = tick\<rparr>) s))
      else None)"

definition rt_thread_startup :: "tid \<Rightarrow> kernel \<Rightarrow> kernel option" where
  "rt_thread_startup t s =
     (if status_of s t \<noteq> RT_THREAD_INIT then None
      else
        let s = upd_thread t (\<lambda>th. th\<lparr>number_mask := 2 ^ unat (current_priority th)\<rparr>) s;
            s = upd_thread t (\<lambda>th. th\<lparr>stat := RT_THREAD_SUSPEND\<rparr>) s;
            s = fst (rt_thread_resume t s)
        in Some (if rt_current_thread s \<noteq> RT_NULL then rt_schedule s else s))"

definition rt_system_scheduler_init :: "kernel \<Rightarrow> kernel" where
  "rt_system_scheduler_init s =
     s\<lparr>rt_scheduler_lock_nest := 0, rt_thread_priority_table := (\<lambda>p. []),
       rt_thread_ready_priority_group := 0\<rparr>"

definition rt_system_scheduler_start :: "kernel \<Rightarrow> kernel" where
  "rt_system_scheduler_start s =
     (let (t, p) = highest_priority_thread s;
          s = rt_schedule_remove_thread t (s\<lparr>rt_current_thread := t\<rparr>)
      in upd_thread t (\<lambda>th. th\<lparr>stat := RT_THREAD_RUNNING\<rparr>) s)"

definition rt_thread_exit :: "kernel \<Rightarrow> kernel" where
  "rt_thread_exit s =
     (let t = rt_current_thread s;
          s = rt_schedule_remove_thread t s;
          s = clear_flag RT_TIMER_FLAG_ACTIVATED (thread_timer t) (timer_remove (thread_timer t) s);
          s = upd_thread t (\<lambda>th. th\<lparr>stat := RT_THREAD_CLOSE\<rparr>) s
      in rt_schedule s)"

definition rt_thread_yield :: "kernel \<Rightarrow> kernel" where
  "rt_thread_yield s =
     rt_schedule (upd_thread (rt_current_thread s)
       (\<lambda>th. set_yield (th\<lparr>remaining_tick := thread_init_tick th\<rparr>)) s)"

text \<open>\<open>None\<close>: the assertion on the length of the timeout fails.\<close>

definition start_thread_timer :: "tid \<Rightarrow> u32 \<Rightarrow> kernel \<Rightarrow> kernel option" where
  "start_thread_timer t tick s =
     map_option (\<lambda>(s, _). rt_timer_start (thread_timer t) s) (rt_timer_control (thread_timer t) 0 tick s)"

definition rt_thread_sleep :: "u32 \<Rightarrow> kernel \<Rightarrow> kernel option" where
  "rt_thread_sleep tick s =
     (let t = rt_current_thread s;
          s = upd_thread t (\<lambda>th. th\<lparr>error := RT_EOK\<rparr>) s;
          s = fst (rt_thread_suspend t s)
      in map_option rt_schedule (start_thread_timer t tick s))"

definition rt_thread_sleep_resumed :: "tid \<Rightarrow> kernel \<Rightarrow> kernel \<times> int" where
  "rt_thread_sleep_resumed t s =
     (let s = (if error (threads s t) = - RT_ETIMEOUT
               then upd_thread t (\<lambda>th. th\<lparr>error := RT_EOK\<rparr>) s else s)
      in (s, error (threads s t)))"

definition rt_thread_change_priority :: "tid \<Rightarrow> u8 \<Rightarrow> kernel \<Rightarrow> kernel" where
  "rt_thread_change_priority t prio s =
     (let setp = (\<lambda>th. th\<lparr>current_priority := prio, number_mask := 2 ^ unat prio\<rparr>)
      in if status_of s t = RT_THREAD_READY
         then rt_schedule_insert_thread t (upd_thread t setp (rt_schedule_remove_thread t s))
         else upd_thread t setp s)"

section \<open>Clock tick\<close>

text \<open>
  The hard timers run from the tick interrupt, earliest first, until the head is not due.
  A callback may stop or restart its own timer: then the timer is no longer in the list of
  expired timers when the callback returns. \<open>None\<close>: the fuel ran out or an assertion failed.
\<close>

definition timer_callback :: "(nat \<Rightarrow> kernel \<Rightarrow> kernel) \<Rightarrow> timer_id \<Rightarrow> kernel \<Rightarrow> kernel option" where
  "timer_callback cb i s = (case i of thread_timer t \<Rightarrow> thread_timeout t s | user_timer n \<Rightarrow> Some (cb n s))"

definition timer_expire :: "timer_id \<Rightarrow> kernel \<Rightarrow> kernel" where
  "timer_expire i s =
     (let s = timer_remove i s;
          s = (if has_flag RT_TIMER_FLAG_PERIODIC s i then s
               else clear_flag RT_TIMER_FLAG_ACTIVATED i s)
      in s\<lparr>expired_list := i # expired_list s\<rparr>)"

definition timer_rearm :: "timer_id \<Rightarrow> kernel \<Rightarrow> kernel" where
  "timer_rearm i s =
     (if expired_list s = [] then s
      else
        let s = timer_remove i s
        in if has_flag RT_TIMER_FLAG_PERIODIC s i \<and> has_flag RT_TIMER_FLAG_ACTIVATED s i
           then rt_timer_start i (clear_flag RT_TIMER_FLAG_ACTIVATED i s) else s)"

fun rt_timer_check :: "nat \<Rightarrow> (nat \<Rightarrow> kernel \<Rightarrow> kernel) \<Rightarrow> kernel \<Rightarrow> kernel option" where
  "rt_timer_check 0 cb s = None"
| "rt_timer_check (Suc fuel) cb s =
     (case timer_list s of
        [] \<Rightarrow> Some s
      | i # _ \<Rightarrow>
          if rt_tick s - timeout_tick (timers s i) < RT_TICK_HALF
          then
            (case timer_callback cb i (timer_expire i s) of
               None \<Rightarrow> None
             | Some s' \<Rightarrow> rt_timer_check fuel cb (timer_rearm i s'))
          else Some s)"

definition rt_tick_increase :: "nat \<Rightarrow> (nat \<Rightarrow> kernel \<Rightarrow> kernel) \<Rightarrow> kernel \<Rightarrow> kernel option" where
  "rt_tick_increase fuel cb s =
     (let s = s\<lparr>rt_tick := rt_tick s + 1\<rparr>;
          t = rt_current_thread s;
          s = upd_thread t (\<lambda>th. th\<lparr>remaining_tick := remaining_tick th - 1\<rparr>) s;
          s = (if remaining_tick (threads s t) = 0
               then rt_schedule (upd_thread t
                      (\<lambda>th. set_yield (th\<lparr>remaining_tick := thread_init_tick th\<rparr>)) s)
               else s)
      in rt_timer_check fuel cb s)"

definition rt_tick_from_millisecond :: "int \<Rightarrow> u32" where
  "rt_tick_from_millisecond ms =
     (if ms < 0 then word_of_int (-1)
      else word_of_int (1000 * (ms div 1000)) +
           word_of_int ((1000 * (ms mod 1000) + 999) div 1000))"

section \<open>The invariant of the scheduler\<close>

definition core ::
    "kernel \<Rightarrow> (tid \<Rightarrow> rt_thread) \<times> (nat \<Rightarrow> tid list) \<times> u32 \<times> tid \<times> (nat \<Rightarrow> tid list)" where
  "core s = (threads s, rt_thread_priority_table s, rt_thread_ready_priority_group s,
             rt_current_thread s, suspend_lists s)"

lemma core_eq:
  assumes "core s' = core s"
  shows "sched_inv s' = sched_inv s" "status_of s' = status_of s" "prio_of s' = prio_of s"
    "is_ready s' = is_ready s" "prio_ok s' = prio_ok s" "tables_ok s' = tables_ok s"
    "waits_ok s' = waits_ok s"
  using assms
  by (auto simp: core_def sched_inv_def tables_ok_def waits_ok_def is_ready_def prio_ok_def
      status_of_def prio_of_def fun_eq_iff)

lemma timer_core [simp]:
  "core (upd_timer i f s) = core s" "core (set_flag b i s) = core s"
  "core (clear_flag b i s) = core s" "core (timer_init i time b s) = core s"
  "core (timer_remove i s) = core s" "core (fst (rt_timer_stop i s)) = core s"
  "core (set_timer_time i time s) = core s" "core (s\<lparr>expired_list := l\<rparr>) = core s"
  "core (s\<lparr>timer_list := l\<rparr>) = core s" "core (s\<lparr>soft_timer_list := l\<rparr>) = core s"
  "core (s\<lparr>rt_tick := k\<rparr>) = core s"
  by (auto simp: core_def set_flag_def clear_flag_def timer_init_def timer_remove_def
      rt_timer_stop_def set_timer_time_def)

lemma sched_invI:
  assumes "tables_ok s" "waits_ok s" "\<And>u. is_ready s u \<longleftrightarrow> status_of s u = RT_THREAD_READY"
    and "\<And>u. status_of s u = RT_THREAD_RUNNING \<Longrightarrow> u = rt_current_thread s"
    and "status_of s (rt_current_thread s) \<noteq> RT_THREAD_READY"
    and "\<And>u. status_of s u \<noteq> RT_THREAD_INIT \<Longrightarrow> prio_ok s u"
  shows "sched_inv s"
  using assms unfolding sched_inv_def by blast

lemma sched_inv_upd:
  assumes "sched_inv s" "\<And>th. status (f th) = status th"
    "\<And>th. current_priority (f th) = current_priority th" "\<And>th. number_mask (f th) = number_mask th"
  shows "sched_inv (upd_thread t f s)"
proof -
  have st: "status_of (upd_thread t f s) u = status_of s u" for u
    using assms(2) by (auto simp: status_of_def)
  show ?thesis
    using assms(1) keep_prio_upd [of f t s, OF assms(3)] keep_mask_upd [of f t s, OF assms(3,4)] st
    by (simp add: sched_inv_def waits_ok_def)
qed

lemma sched_inv_suspend:
  assumes inv: "sched_inv s" and t: "t = rt_current_thread s"
    and ok: "snd (rt_thread_suspend t s) = RT_EOK"
  shows "sched_inv (fst (rt_thread_suspend t s))"
    and "status_of (fst (rt_thread_suspend t s)) t = RT_THREAD_SUSPEND"
    and "rt_current_thread (fst (rt_thread_suspend t s)) = rt_current_thread s"
    and "t \<notin> set (suspend_lists (fst (rt_thread_suspend t s)) q)"
proof -
  have run: "status_of s t = RT_THREAD_RUNNING"
    using ok sched_invD(5) [OF inv] t by (auto simp: rt_thread_suspend_def rt_err_defs split: if_splits)
  let ?s = "upd_thread t (set_status RT_THREAD_SUSPEND) (rt_schedule_remove_thread t s)"
  have c: "core (fst (rt_thread_suspend t s)) = core ?s"
    using run by (simp add: rt_thread_suspend_def Let_def)
  have "tables_ok (rt_schedule_remove_thread t s)"
    using sched_invD(1,6) [OF inv] run by (intro tables_ok_remove) auto
  then have tb: "tables_ok ?s" by (simp add: keep_prio_upd)
  have sl: "removeAll t (suspend_lists s q) = suspend_lists s q" for q
    using not_waiting [OF sched_invD(2) [OF inv], of t q] run by simp
  have w: "waits_ok ?s"
    using sched_invD(2) [OF inv] by (auto simp: waits_ok_def sl)
  have rd: "is_ready ?s u \<longleftrightarrow> u \<noteq> t \<and> is_ready s u" for u by (auto simp: keep_prio_upd)
  have st: "status_of ?s u = (if u = t then RT_THREAD_SUSPEND else status_of s u)" for u
    by (simp add: status_of_def)
  have pr: "prio_ok ?s u = prio_ok s u" for u by (simp add: keep_mask_upd)
  have "sched_inv ?s"
  proof (rule sched_invI [OF tb w])
    show "is_ready ?s u \<longleftrightarrow> status_of ?s u = RT_THREAD_READY" for u
      using sched_invD(3) [OF inv, of u] unfolding rd st by auto
    show "status_of ?s u = RT_THREAD_RUNNING \<Longrightarrow> u = rt_current_thread ?s" for u
      using sched_invD(4) [OF inv, of u] unfolding st by (auto split: if_splits)
    show "status_of ?s (rt_current_thread ?s) \<noteq> RT_THREAD_READY" unfolding st using t by simp
    show "status_of ?s u \<noteq> RT_THREAD_INIT \<Longrightarrow> prio_ok ?s u" for u
      using sched_invD(6) [OF inv, of u] run unfolding st pr by (auto split: if_splits)
  qed
  then show "sched_inv (fst (rt_thread_suspend t s))" using core_eq [OF c] by simp
  show "status_of (fst (rt_thread_suspend t s)) t = RT_THREAD_SUSPEND" using core_eq [OF c] st by simp
  show "rt_current_thread (fst (rt_thread_suspend t s)) = rt_current_thread s"
    using c by (simp add: core_def)
  show "t \<notin> set (suspend_lists (fst (rt_thread_suspend t s)) q)"
    using c by (simp add: core_def)
qed

lemma sched_inv_requeue:
  assumes inv: "sched_inv s" and t: "status_of s t = RT_THREAD_SUSPEND"
  shows "sched_inv (rt_schedule_insert_thread t (rt_list_remove t s))"
proof -
  let ?rem = "rt_list_remove t s"
  let ?s = "rt_schedule_insert_thread t ?rem"
  have nr: "\<not> is_ready s t" using sched_invD(3) [OF inv] t by simp
  have same: "removeAll t (rt_thread_priority_table s p) = rt_thread_priority_table s p" for p
  proof (intro removeAll_id notI)
    assume "t \<in> set (rt_thread_priority_table s p)"
    then show False using nr sched_invD(1) [OF inv] by (auto simp: tables_ok_def is_ready_def)
  qed
  have t0: "tables_ok ?rem" "is_ready ?rem u = is_ready s u" "prio_ok ?rem u = prio_ok s u" for u
    using sched_invD(1) [OF inv] unfolding tables_ok_def is_ready_def prio_ok_def
      rt_list_remove_sel prio_status_sel same by blast+
  have pt: "prio_ok s t" using sched_invD(6) [OF inv, of t] t by simp
  have tb: "tables_ok ?s"
  proof (cases "t = rt_current_thread s")
    case True
    then show ?thesis using t0 by (simp add: rt_schedule_insert_thread_def keep_prio_upd)
  next
    case False
    then show ?thesis using t0 pt nr by (intro tables_ok_insert) auto
  qed
  have w: "waits_ok ?s"
    using sched_invD(2) [OF inv] by (auto simp: waits_ok_def distinct_removeAll)
  show ?thesis
  proof (rule sched_invI [OF tb w])
    show "is_ready ?s u \<longleftrightarrow> status_of ?s u = RT_THREAD_READY" for u
      using sched_invD(3) [OF inv, of u] nr t by (auto simp: t0)
    show "status_of ?s u = RT_THREAD_RUNNING \<Longrightarrow> u = rt_current_thread ?s" for u
      using sched_invD(4) [OF inv, of u] by (auto split: if_splits)
    show "status_of ?s (rt_current_thread ?s) \<noteq> RT_THREAD_READY"
      using sched_invD(5) [OF inv] by auto
    show "status_of ?s u \<noteq> RT_THREAD_INIT \<Longrightarrow> prio_ok ?s u" for u
      using sched_invD(6) [OF inv, of u] pt by (auto simp: t0 split: if_splits)
  qed
qed

lemma sched_inv_resume:
  assumes "sched_inv s"
  shows "sched_inv (fst (rt_thread_resume t s))"
proof (cases "status_of s t = RT_THREAD_SUSPEND")
  case True
  let ?s = "fst (rt_timer_stop (thread_timer t) (rt_list_remove t s))"
  have c: "core ?s = core (rt_list_remove t s)" by simp
  have "core (rt_schedule_insert_thread t ?s) = core (rt_schedule_insert_thread t (rt_list_remove t s))"
    using c by (auto simp: core_def rt_schedule_insert_thread_def Let_def)
  then have "sched_inv (rt_schedule_insert_thread t ?s)"
    using core_eq(1) sched_inv_requeue [OF assms True] by blast
  then show ?thesis using True by (simp add: rt_thread_resume_def Let_def)
qed (use assms in \<open>simp add: rt_thread_resume_def\<close>)

lemma resume_sel:
  "rt_current_thread (fst (rt_thread_resume t s)) = rt_current_thread s"
  "rt_scheduler_lock_nest (fst (rt_thread_resume t s)) = rt_scheduler_lock_nest s"
  "suspend_lists (fst (rt_thread_resume t s)) q =
     (if status_of s t = RT_THREAD_SUSPEND then removeAll t (suspend_lists s q)
      else suspend_lists s q)"
  "error (threads (fst (rt_thread_resume t s)) u) = error (threads s u)"
  "prio_of (fst (rt_thread_resume t s)) u = prio_of s u"
  by (auto simp: rt_thread_resume_def Let_def rt_timer_stop_def clear_flag_def timer_remove_def
      prio_of_def)

lemma resume_status:
  "status_of s t = RT_THREAD_SUSPEND \<Longrightarrow>
   status_of (fst (rt_thread_resume t s)) u =
     (if u = t then (if t = rt_current_thread s then RT_THREAD_RUNNING else RT_THREAD_READY)
      else status_of s u)"
  by (auto simp: rt_thread_resume_def Let_def rt_timer_stop_def clear_flag_def timer_remove_def
      status_of_def rt_schedule_insert_thread_def)

lemma timer_enlist_core [simp]: "core (timer_enlist i s) = core s"
  by (simp add: timer_enlist_def Let_def)

lemma sched_inv_timer_start:
  assumes "sched_inv s"
  shows "sched_inv (rt_timer_start i s)"
proof -
  have "sched_inv (timer_enlist i s)" using core_eq(1) [OF timer_enlist_core] assms by simp
  then show ?thesis
    unfolding rt_timer_start_def Let_def
    by (auto intro!: sched_inv_schedule sched_inv_resume)
qed

lemma sched_inv_timeout:
  assumes "sched_inv s" "thread_timeout t s = Some s'"
  shows "sched_inv s'"
proof -
  have "status_of s t = RT_THREAD_SUSPEND" using assms(2) by (auto simp: thread_timeout_def split: if_splits)
  then show ?thesis
    using assms by (auto simp: thread_timeout_def Let_def status_of_def
        intro!: sched_inv_schedule sched_inv_requeue sched_inv_upd)
qed

lemma sched_inv_timer_check:
  assumes "\<forall>n s. sched_inv s \<longrightarrow> sched_inv (cb n s)"
  shows "sched_inv s \<Longrightarrow> rt_timer_check fuel cb s = Some s' \<Longrightarrow> sched_inv s'"
proof (induction fuel arbitrary: s)
  case (Suc fuel)
  show ?case
  proof (cases "timer_list s")
    case Nil
    then show ?thesis using Suc.prems by simp
  next
    case (Cons i l)
    show ?thesis
    proof (cases "rt_tick s - timeout_tick (timers s i) < RT_TICK_HALF")
      case True
      then obtain r where r: "timer_callback cb i (timer_expire i s) = Some r"
        "rt_timer_check fuel cb (timer_rearm i r) = Some s'"
        using Suc.prems(2) Cons by (auto split: option.splits)
      have "sched_inv (timer_expire i s)"
        using Suc.prems(1) core_eq(1) [of "timer_expire i s" s] by (simp add: timer_expire_def Let_def)
      then have "sched_inv r"
        using r(1) assms sched_inv_timeout
        by (auto simp: timer_callback_def split: timer_id.splits)
      then have "sched_inv (timer_rearm i r)"
        using core_eq(1) [of "timer_remove i r" r]
          core_eq(1) [of "clear_flag RT_TIMER_FLAG_ACTIVATED i (timer_remove i r)" r]
        by (simp add: timer_rearm_def Let_def sched_inv_timer_start)
      then show ?thesis using Suc.IH r(2) by blast
    next
      case False
      then show ?thesis using Suc.prems Cons by simp
    qed
  qed
qed simp

lemma sched_inv_tick:
  assumes cb: "\<forall>n s. sched_inv s \<longrightarrow> sched_inv (cb n s)" and inv: "sched_inv s"
    and t: "rt_tick_increase fuel cb s = Some s'"
  shows "sched_inv s'"
proof -
  let ?a = "s\<lparr>rt_tick := rt_tick s + 1\<rparr>"
  let ?b = "upd_thread (rt_current_thread ?a) (\<lambda>th. th\<lparr>remaining_tick := remaining_tick th - 1\<rparr>) ?a"
  have a: "sched_inv ?a" using inv core_eq(1) [of ?a s] by simp
  have b: "sched_inv ?b" using a by (intro sched_inv_upd) auto
  have c: "sched_inv (rt_schedule (upd_thread (rt_current_thread ?a)
      (\<lambda>th. set_yield (th\<lparr>remaining_tick := thread_init_tick th\<rparr>)) ?b))"
    by (rule sched_inv_schedule, rule sched_inv_upd [OF b]) auto
  have "rt_timer_check fuel cb ?b = Some s' \<or> rt_timer_check fuel cb
      (rt_schedule (upd_thread (rt_current_thread ?a)
        (\<lambda>th. set_yield (th\<lparr>remaining_tick := thread_init_tick th\<rparr>)) ?b)) = Some s'"
    using t unfolding rt_tick_increase_def Let_def
    by (cases "remaining_tick (threads ?b (rt_current_thread ?a)) = 0")
      (simp_all only: if_True if_False simp_thms)
  then show ?thesis
    using sched_inv_timer_check [OF cb b] sched_inv_timer_check [OF cb c] by blast
qed

lemma status_plain [simp]: "status (th\<lparr>stat := RT_THREAD_SUSPEND\<rparr>) = RT_THREAD_SUSPEND"
  "status (th\<lparr>stat := RT_THREAD_CLOSE\<rparr>) = RT_THREAD_CLOSE"
  by (simp_all add: status_def RT_THREAD_STAT_MASK_def status_values)

text \<open>A thread that is started and one that ends, before the scheduler is called.\<close>

abbreviation (input) born :: "tid \<Rightarrow> kernel \<Rightarrow> kernel" where
  "born t s \<equiv> upd_thread t
     (\<lambda>th. th\<lparr>number_mask := 2 ^ unat (current_priority th)\<rparr>\<lparr>stat := RT_THREAD_SUSPEND\<rparr>) s"

abbreviation (input) gone :: "kernel \<Rightarrow> kernel" where
  "gone s \<equiv> upd_thread (rt_current_thread s) (\<lambda>th. th\<lparr>stat := RT_THREAD_CLOSE\<rparr>)
     (clear_flag RT_TIMER_FLAG_ACTIVATED (thread_timer (rt_current_thread s))
       (timer_remove (thread_timer (rt_current_thread s)) (rt_schedule_remove_thread (rt_current_thread s) s)))"

lemma sched_inv_born:
  assumes inv: "sched_inv s" and p: "prio_of s t < 32" and init: "status_of s t = RT_THREAD_INIT"
  shows "sched_inv (born t s)"
proof -
  let ?r = "born t s"
  show ?thesis
  proof (rule sched_invI)
    show "tables_ok ?r" using sched_invD(1) [OF inv] by (simp add: keep_prio_upd)
    show "waits_ok ?r" using sched_invD(2) [OF inv] by (simp add: waits_ok_def)
    show "is_ready ?r u \<longleftrightarrow> status_of ?r u = RT_THREAD_READY" for u
      using sched_invD(3) [OF inv, of u] init by (auto simp: keep_prio_upd)
    show "status_of ?r u = RT_THREAD_RUNNING \<Longrightarrow> u = rt_current_thread ?r" for u
      using sched_invD(4) [OF inv, of u] by (auto split: if_splits)
    show "status_of ?r (rt_current_thread ?r) \<noteq> RT_THREAD_READY"
      using sched_invD(5) [OF inv] by auto
    show "status_of ?r u \<noteq> RT_THREAD_INIT \<Longrightarrow> prio_ok ?r u" for u
      using sched_invD(6) [OF inv, of u] p by (auto simp: prio_ok_def prio_of_def split: if_splits)
  qed
qed

lemma startup_cases:
  assumes "rt_thread_startup t s = Some s'"
  shows "status_of s t = RT_THREAD_INIT"
    and "s' = rt_schedule (fst (rt_thread_resume t (born t s))) \<or> s' = fst (rt_thread_resume t (born t s))"
  using assms by (auto simp: rt_thread_startup_def Let_def upd_thread_def comp_def split: if_splits)

lemma sched_inv_startup:
  assumes inv: "sched_inv s" and p: "prio_of s t < 32" and st: "rt_thread_startup t s = Some s'"
  shows "sched_inv s'"
  using startup_cases(2) [OF st] sched_inv_resume [OF sched_inv_born [OF inv p startup_cases(1) [OF st]]]
  by (auto intro: sched_inv_schedule)

lemma sched_inv_gone:
  assumes inv: "sched_inv s" and run: "status_of s (rt_current_thread s) = RT_THREAD_RUNNING"
  shows "sched_inv (gone s)"
proof -
  let ?t = "rt_current_thread s"
  let ?r = "upd_thread ?t (\<lambda>th. th\<lparr>stat := RT_THREAD_CLOSE\<rparr>) (rt_schedule_remove_thread ?t s)"
  have c: "core (upd_thread ?t (\<lambda>th. th\<lparr>stat := RT_THREAD_CLOSE\<rparr>)
      (clear_flag RT_TIMER_FLAG_ACTIVATED (thread_timer ?t)
        (timer_remove (thread_timer ?t) (rt_schedule_remove_thread ?t s)))) = core ?r"
    by (simp add: core_def clear_flag_def timer_remove_def)
  have tb: "tables_ok (rt_schedule_remove_thread ?t s)"
    using sched_invD(1,6) [OF inv] run by (intro tables_ok_remove) auto
  have sl: "removeAll ?t (suspend_lists s q) = suspend_lists s q" for q
    using not_waiting [OF sched_invD(2) [OF inv], of ?t q] run by simp
  have "sched_inv ?r"
  proof (rule sched_invI)
    show "tables_ok ?r" using tb by (simp add: keep_prio_upd)
    show "waits_ok ?r"
      using sched_invD(2) [OF inv] run by (auto simp: waits_ok_def sl)
    show "is_ready ?r u \<longleftrightarrow> status_of ?r u = RT_THREAD_READY" for u
      using sched_invD(3) [OF inv, of u] by (auto simp: keep_prio_upd)
    show "status_of ?r u = RT_THREAD_RUNNING \<Longrightarrow> u = rt_current_thread ?r" for u
      using sched_invD(4) [OF inv, of u] by (auto split: if_splits)
    show "status_of ?r (rt_current_thread ?r) \<noteq> RT_THREAD_READY" by simp
    show "status_of ?r u \<noteq> RT_THREAD_INIT \<Longrightarrow> prio_ok ?r u" for u
      using sched_invD(6) [OF inv, of u] run by (auto simp: keep_mask_upd split: if_splits)
  qed
  then show ?thesis using core_eq(1) [OF c] by simp
qed

lemma sched_inv_exit:
  "sched_inv s \<Longrightarrow> status_of s (rt_current_thread s) = RT_THREAD_RUNNING \<Longrightarrow> sched_inv (rt_thread_exit s)"
  unfolding rt_thread_exit_def Let_def by (intro sched_inv_schedule sched_inv_gone)

lemma sched_inv_yield: "sched_inv s \<Longrightarrow> sched_inv (rt_thread_yield s)"
  unfolding rt_thread_yield_def by (intro sched_inv_schedule sched_inv_upd) auto

lemma sched_inv_start_timer:
  "sched_inv s \<Longrightarrow> start_thread_timer t tick s = Some s' \<Longrightarrow> sched_inv s'"
  using core_eq(1) [of "set_timer_time (thread_timer t) tick s" s]
  by (auto simp: start_thread_timer_def rt_timer_control_def intro!: sched_inv_timer_start
      split: if_splits)

lemma sched_inv_sleep:
  assumes inv: "sched_inv s" and sl: "rt_thread_sleep tick s = Some s'"
  shows "sched_inv s'"
proof -
  let ?t = "rt_current_thread s"
  let ?r = "upd_thread ?t (\<lambda>th. th\<lparr>error := RT_EOK\<rparr>) s"
  have 1: "sched_inv ?r" using inv by (intro sched_inv_upd) auto
  have "sched_inv (fst (rt_thread_suspend ?t ?r))"
  proof (cases "snd (rt_thread_suspend ?t ?r) = RT_EOK")
    case True
    then show ?thesis using sched_inv_suspend [OF 1] by simp
  next
    case False
    then have "fst (rt_thread_suspend ?t ?r) = ?r"
      by (auto simp: rt_thread_suspend_def Let_def split: if_splits)
    then show ?thesis using 1 by simp
  qed
  moreover obtain r where "start_thread_timer ?t tick (fst (rt_thread_suspend ?t ?r)) = Some r"
    "s' = rt_schedule r"
    using sl by (auto simp: rt_thread_sleep_def Let_def)
  ultimately show ?thesis
    using sched_inv_start_timer sched_inv_schedule by blast
qed

lemma sched_inv_change_priority:
  assumes inv: "sched_inv s" and p: "unat prio < 32"
  shows "sched_inv (rt_thread_change_priority t prio s)"
proof -
  let ?f = "\<lambda>th. th\<lparr>current_priority := prio, number_mask := 2 ^ unat prio\<rparr>"
  have st: "status (?f th) = status th" for th by (simp add: status_def)
  have sto: "status_of (upd_thread t ?f r) u = status_of r u" for r u
    using st by (simp add: status_of_def)
  have nrt: "t \<notin> set (rt_thread_priority_table s q)" if "\<not> is_ready s t" for q
    using that sched_invD(1) [OF inv] by (auto simp: tables_ok_def is_ready_def)
  have po: "prio_ok (upd_thread t ?f r) u = (if u = t then True else prio_ok r u)" for r u
    using p by (simp add: prio_ok_def prio_of_def)
  show ?thesis
  proof (cases "status_of s t = RT_THREAD_READY")
    case False
    let ?r = "upd_thread t ?f s"
    have nr: "t \<notin> set (rt_thread_priority_table s q)" for q
      using nrt False sched_invD(3) [OF inv] by blast
    have "sched_inv ?r"
    proof (rule sched_invI)
      have "(u \<in> set (rt_thread_priority_table s q) \<longrightarrow> prio_of ?r u = q) \<longleftrightarrow>
          (u \<in> set (rt_thread_priority_table s q) \<longrightarrow> prio_of s u = q)" for u q
        using nr by auto
      then show "tables_ok ?r"
        using sched_invD(1) [OF inv] unfolding tables_ok_def upd_thread_sel by blast
      show "waits_ok ?r" using sched_invD(2) [OF inv] unfolding waits_ok_def sto by simp
      show "is_ready ?r u \<longleftrightarrow> status_of ?r u = RT_THREAD_READY" for u
        using sched_invD(3) [OF inv, of u] False nr unfolding sto by (auto simp: is_ready_def)
      show "status_of ?r u = RT_THREAD_RUNNING \<Longrightarrow> u = rt_current_thread ?r" for u
        using sched_invD(4) [OF inv, of u] unfolding sto by simp
      show "status_of ?r (rt_current_thread ?r) \<noteq> RT_THREAD_READY"
        using sched_invD(5) [OF inv] unfolding sto by simp
      show "status_of ?r u \<noteq> RT_THREAD_INIT \<Longrightarrow> prio_ok ?r u" for u
        using sched_invD(6) [OF inv, of u] unfolding sto po by simp
    qed
    then show ?thesis using False by (simp add: rt_thread_change_priority_def)
  next
    case True
    have tc: "t \<noteq> rt_current_thread s" using True sched_invD(5) [OF inv] by auto
    let ?m = "upd_thread t ?f (rt_schedule_remove_thread t s)"
    let ?r = "rt_schedule_insert_thread t ?m"
    have pt: "prio_ok s t" using True sched_invD(6) [OF inv] by simp
    have tm: "tables_ok ?m"
    proof -
      let ?d = "rt_schedule_remove_thread t s"
      have "(u \<in> set (rt_thread_priority_table ?d q) \<longrightarrow> prio_of ?m u = q) \<longleftrightarrow>
          (u \<in> set (rt_thread_priority_table ?d q) \<longrightarrow> prio_of ?d u = q)" for u q
        by auto
      then show ?thesis
        using tables_ok_remove [OF sched_invD(1) [OF inv] pt]
        unfolding tables_ok_def upd_thread_sel by blast
    qed
    have nm: "\<not> is_ready ?m t" by (simp add: is_ready_def)
    have rm: "is_ready ?m u \<longleftrightarrow> is_ready s u \<and> u \<noteq> t" for u by (auto simp: is_ready_def)
    have sl: "removeAll t (suspend_lists s q) = suspend_lists s q" for q
      using not_waiting [OF sched_invD(2) [OF inv], of t q] True by simp
    have sr: "status_of ?r u = status_of s u" for u
      using True tc st by (simp add: status_of_def rt_schedule_insert_thread_def Let_def)
    have "sched_inv ?r"
    proof (rule sched_invI)
      show "tables_ok ?r" using tm nm po tc by (intro tables_ok_insert) auto
      show "waits_ok ?r"
        using sched_invD(2) [OF inv] unfolding waits_ok_def sr by (simp add: sl)
      show "is_ready ?r u \<longleftrightarrow> status_of ?r u = RT_THREAD_READY" for u
        using sched_invD(3) [OF inv, of u] True tc unfolding sr is_ready_insert rm by auto
      show "status_of ?r u = RT_THREAD_RUNNING \<Longrightarrow> u = rt_current_thread ?r" for u
        using sched_invD(4) [OF inv, of u] unfolding sr by simp
      show "status_of ?r (rt_current_thread ?r) \<noteq> RT_THREAD_READY"
        using sched_invD(5) [OF inv] unfolding sr by simp
      show "status_of ?r u \<noteq> RT_THREAD_INIT \<Longrightarrow> prio_ok ?r u" for u
        using sched_invD(6) [OF inv, of u] unfolding sr prio_ok_ops(1) po by simp
    qed
    then show ?thesis using True by (simp add: rt_thread_change_priority_def Let_def)
  qed
qed

section \<open>Reachable states\<close>

text \<open>
  The steps of the kernel: what the running thread or an interrupt can call. A thread
  starts with a priority below 32, only a suspended thread times out, and a thread that is
  linked in a suspend list has just been suspended (the kernel objects do this, with
  interrupts disabled, see the next theories).
\<close>

inductive kernel_step :: "kernel \<Rightarrow> kernel \<Rightarrow> bool" where
  "kernel_step s (rt_schedule s)"
| "snd (rt_thread_suspend (rt_current_thread s) s) = RT_EOK \<Longrightarrow>
   kernel_step s (fst (rt_thread_suspend (rt_current_thread s) s))"
| "kernel_step s (fst (rt_thread_resume t s))"
| "kernel_step s (rt_thread_yield s)"
| "rt_thread_sleep tick s = Some s' \<Longrightarrow> kernel_step s s'"
| "prio_of s t < 32 \<Longrightarrow> rt_thread_startup t s = Some s' \<Longrightarrow> kernel_step s s'"
| "status_of s (rt_current_thread s) = RT_THREAD_RUNNING \<Longrightarrow> kernel_step s (rt_thread_exit s)"
| "unat prio < 32 \<Longrightarrow> kernel_step s (rt_thread_change_priority t prio s)"
| "kernel_step s (rt_timer_start i s)"
| "kernel_step s (fst (rt_timer_stop i s))"
| "rt_timer_control i cmd arg s = Some (s', r) \<Longrightarrow> kernel_step s s'"
| "kernel_step s (rt_enter_critical s)"
| "kernel_step s (rt_exit_critical s)"
| "rt_tick_increase fuel (\<lambda>n s. s) s = Some s' \<Longrightarrow> kernel_step s s'"
| "status_of s t = RT_THREAD_INIT \<Longrightarrow> thread_init t prio tick s = Some s' \<Longrightarrow> kernel_step s s'"
| "rt_current_thread s = RT_NULL \<Longrightarrow> status_of s RT_NULL = RT_THREAD_INIT \<Longrightarrow>
   rt_thread_ready_priority_group s \<noteq> 0 \<Longrightarrow> kernel_step s (rt_system_scheduler_start s)"

text \<open>Before the scheduler starts there is no running thread and nothing is linked.\<close>

definition boot_kernel :: kernel where
  "boot_kernel = rt_system_scheduler_init
     \<lparr>threads = (\<lambda>t. \<lparr>stat = RT_THREAD_INIT, error = RT_EOK, current_priority = 0, number_mask = 0,
        event_set = 0, event_info = 0, thread_init_tick = 0, remaining_tick = 0\<rparr>),
      rt_thread_priority_table = (\<lambda>p. []), rt_thread_ready_priority_group = 0,
      rt_current_thread = RT_NULL, rt_current_priority = 0, rt_scheduler_lock_nest = 0,
      suspend_lists = (\<lambda>q. []), rt_tick = 0,
      timers = (\<lambda>i. \<lparr>flag = 0, init_tick = 0, timeout_tick = 0\<rparr>),
      timer_list = [], soft_timer_list = [], expired_list = [], soft_timer_idle = True,
      timer_thread = 1\<rparr>"

inductive kernel_reachable :: "kernel \<Rightarrow> bool" where
  "kernel_reachable boot_kernel"
| "kernel_reachable s \<Longrightarrow> kernel_step s s' \<Longrightarrow> kernel_reachable s'"

lemma sched_inv_boot: "sched_inv boot_kernel"
  by (simp add: sched_inv_def tables_ok_def waits_ok_def is_ready_def boot_kernel_def
      rt_system_scheduler_init_def status_of_def status_def stat_defs)

lemma sched_inv_init:
  assumes inv: "sched_inv s" and t: "status_of s t = RT_THREAD_INIT"
    and i: "thread_init t prio tick s = Some s'"
  shows "sched_inv s'"
proof -
  let ?f = "\<lambda>_. \<lparr>stat = RT_THREAD_INIT, error = RT_EOK, current_priority = prio, number_mask = 0,
             event_set = 0, event_info = 0, thread_init_tick = tick, remaining_tick = tick\<rparr>"
  let ?r = "upd_thread t ?f s"
  have st: "status_of ?r u = status_of s u" for u
    using t by (simp add: status_of_def status_def RT_THREAD_INIT_def)
  have nr: "t \<notin> set (rt_thread_priority_table s p)" for p
    using tables_okD(3) [OF sched_invD(1) [OF inv], of t p] sched_invD(3) [OF inv, of t] t
    by (auto simp: is_ready_def)
  have pr: "u \<in> set (rt_thread_priority_table s p) \<Longrightarrow> prio_of ?r u = prio_of s u" for u p
    using nr by auto
  have "sched_inv ?r"
  proof (rule sched_invI)
    show "tables_ok ?r"
      using sched_invD(1) [OF inv] pr unfolding tables_ok_def upd_thread_sel by blast
    show "waits_ok ?r" using sched_invD(2) [OF inv] unfolding waits_ok_def st upd_thread_sel .
    show "is_ready ?r u \<longleftrightarrow> status_of ?r u = RT_THREAD_READY" for u
    proof (cases "u = t")
      case True
      then show ?thesis using nr t unfolding st by (simp add: is_ready_def)
    next
      case False
      then show ?thesis using sched_invD(3) [OF inv, of u] unfolding st by (simp add: is_ready_def)
    qed
    show "status_of ?r u = RT_THREAD_RUNNING \<Longrightarrow> u = rt_current_thread ?r" for u
      using sched_invD(4) [OF inv, of u] unfolding st by simp
    show "status_of ?r (rt_current_thread ?r) \<noteq> RT_THREAD_READY"
      using sched_invD(5) [OF inv] unfolding st by simp
    show "status_of ?r u \<noteq> RT_THREAD_INIT \<Longrightarrow> prio_ok ?r u" for u
      using sched_invD(6) [OF inv, of u] t unfolding st by (auto simp: prio_ok_def prio_of_def)
  qed
  moreover have "core s' = core ?r" using i by (auto simp: thread_init_def split: if_splits)
  ultimately show ?thesis using core_eq(1) by metis
qed

lemma sched_inv_start:
  assumes inv: "sched_inv s" and c: "status_of s (rt_current_thread s) = RT_THREAD_INIT"
    and g: "rt_thread_ready_priority_group s \<noteq> 0"
  shows "sched_inv (rt_system_scheduler_start s)"
proof -
  obtain t p where h: "highest_priority_thread s = (t, p)" by (rule prod.exhaust)
  note top = highest_thread [OF sched_invD(1) [OF inv] g h]
  have rt: "status_of s t = RT_THREAD_READY" using top(4) sched_invD(3) [OF inv] by blast
  have pt: "prio_ok s t" using rt sched_invD(6) [OF inv, of t] by simp
  let ?d = "rt_schedule_remove_thread t (s\<lparr>rt_current_thread := t\<rparr>)"
  let ?r = "upd_thread t (\<lambda>th. th\<lparr>stat := RT_THREAD_RUNNING\<rparr>) ?d"
  have e: "rt_system_scheduler_start s = ?r" by (simp add: rt_system_scheduler_start_def h)
  have st: "status_of ?r u = (if u = t then RT_THREAD_RUNNING else status_of s u)" for u
    by (simp add: status_of_def) (simp add: status_def RT_THREAD_STAT_MASK_def status_values)
  have sl: "removeAll t (suspend_lists s q) = suspend_lists s q" for q
    using not_waiting [OF sched_invD(2) [OF inv], of t q] rt by simp
  show ?thesis
    unfolding e
  proof (rule sched_invI)
    show "tables_ok ?r"
      using tables_ok_remove [of "s\<lparr>rt_current_thread := t\<rparr>" t] sched_invD(1) [OF inv] pt
      by (simp add: keep_prio_upd)
    show "waits_ok ?r" using sched_invD(2) [OF inv] rt
      unfolding waits_ok_def st by (auto simp: sl)
    show "is_ready ?r u \<longleftrightarrow> status_of ?r u = RT_THREAD_READY" for u
      using sched_invD(3) [OF inv, of u] unfolding st by (auto simp: keep_prio_upd)
    show "status_of ?r u = RT_THREAD_RUNNING \<Longrightarrow> u = rt_current_thread ?r" for u
      using sched_invD(4) [OF inv, of u] c unfolding st by (auto split: if_splits)
    show "status_of ?r (rt_current_thread ?r) \<noteq> RT_THREAD_READY" unfolding st by simp
    show "status_of ?r u \<noteq> RT_THREAD_INIT \<Longrightarrow> prio_ok ?r u" for u
      using sched_invD(6) [OF inv, of u] pt unfolding st by (auto simp: keep_mask_upd split: if_splits)
  qed
qed

lemma sched_inv_lock: "sched_inv s \<Longrightarrow> sched_inv (s\<lparr>rt_scheduler_lock_nest := k\<rparr>)"
proof -
  have c: "core (s\<lparr>rt_scheduler_lock_nest := k\<rparr>) = core s" by (simp add: core_def)
  show "sched_inv s \<Longrightarrow> sched_inv (s\<lparr>rt_scheduler_lock_nest := k\<rparr>)"
    using core_eq(1) [OF c] by simp
qed

lemma sched_inv_step: "kernel_step s s' \<Longrightarrow> sched_inv s \<Longrightarrow> sched_inv s'"
proof (induction rule: kernel_step.induct)
  case (1 s)
  then show ?case by (rule sched_inv_schedule)
next
  case (2 s)
  then show ?case by (intro sched_inv_suspend(1)) auto
next
  case (3 s t)
  then show ?case by (rule sched_inv_resume)
next
  case (4 s)
  then show ?case by (rule sched_inv_yield)
next
  case (5 tick s s')
  then show ?case by (metis sched_inv_sleep)
next
  case (6 s t s')
  then show ?case by (metis sched_inv_startup)
next
  case (7 s)
  then show ?case by (intro sched_inv_exit) auto
next
  case (8 prio s t)
  then show ?case by (intro sched_inv_change_priority) auto
next
  case (9 s i)
  then show ?case by (rule sched_inv_timer_start)
next
  case (10 s i)
  then show ?case using core_eq(1) [of "fst (rt_timer_stop i s)" s] by simp
next
  case (11 i cmd arg s s' r)
  then have "core s' = core s" by (auto simp: rt_timer_control_def split: if_splits)
  then show ?case using 11 core_eq(1) by metis
next
  case (12 s)
  then show ?case unfolding rt_enter_critical_def by (rule sched_inv_lock)
next
  case (13 s)
  have "sched_inv (s\<lparr>rt_scheduler_lock_nest := k\<rparr>)" for k using 13 by (rule sched_inv_lock)
  then show ?case
    using sched_inv_schedule by (simp add: rt_exit_critical_def Let_def)
next
  case (14 fuel s s')
  then show ?case using sched_inv_tick [of "\<lambda>n s. s"] by blast
next
  case (15 s t prio tick s')
  then show ?case by (metis sched_inv_init)
next
  case (16 s)
  then show ?case by (intro sched_inv_start) auto
qed

lemma reachable_inv: "kernel_reachable s \<Longrightarrow> sched_inv s"
  by (induction rule: kernel_reachable.induct) (auto intro: sched_inv_boot sched_inv_step)

section \<open>Round robin\<close>

definition top_group :: "kernel \<Rightarrow> bool" where
  "top_group s \<longleftrightarrow>
     sched_inv s \<and> rt_scheduler_lock_nest s = 0 \<and>
     status_of s (rt_current_thread s) = RT_THREAD_RUNNING \<and>
     (\<forall>u. is_ready s u \<longrightarrow> prio_of s (rt_current_thread s) \<le> prio_of s u)"

lemma yield_rotates:
  assumes top: "top_group s" and c: "c = rt_current_thread s" and p: "p = prio_of s c"
    and tab: "rt_thread_priority_table s p = t # ts"
  shows "rt_current_thread (rt_thread_yield s) = t"
    and "rt_thread_priority_table (rt_thread_yield s) p = ts @ [c]"
    and "top_group (rt_thread_yield s)" and "prio_of (rt_thread_yield s) t = p"
proof -
  define Y where "Y = upd_thread c (\<lambda>th. set_yield (th\<lparr>remaining_tick := thread_init_tick th\<rparr>)) s"
  have inv: "sched_inv Y" unfolding Y_def using top by (auto simp: top_group_def intro: sched_inv_upd)
  have y: "rt_current_thread Y = c" "prio_of Y u = prio_of s u" "is_ready Y u = is_ready s u"
    "status_of Y u = status_of s u" for u
    by (auto simp: Y_def c keep_prio_upd status_of_def prio_of_def)
  have tab': "rt_thread_priority_table Y p = t # ts" using tab by (simp add: Y_def)
  have pt: "prio_of s t = p"
    using tables_okD(3) [OF sched_invD(1) [OF inv], of t p] tab' y(2) [of t] by simp
  have rt: "is_ready Y t" using tab' pt y(2) by (simp add: is_ready_def)
  have g: "rt_thread_ready_priority_group Y \<noteq> 0"
  proof
    assume "rt_thread_ready_priority_group Y = 0"
    then have "\<not> bit (rt_thread_ready_priority_group Y) p" by simp
    then show False using tables_okD(1) [OF sched_invD(1) [OF inv], of p] tab' by simp
  qed
  have dt: "distinct (t # ts)" using tables_okD(2) [OF sched_invD(1) [OF inv], of p] tab' by simp
  have "status_of Y t = RT_THREAD_READY" using rt sched_invD(3) [OF inv, of t] by blast
  moreover have "status_of Y c \<noteq> RT_THREAD_READY" using sched_invD(5) [OF inv] y(1) by simp
  ultimately have tc: "t \<noteq> c" by auto
  obtain h q where h: "highest_priority_thread Y = (h, q)" by (rule prod.exhaust)
  note top' = highest_thread [OF sched_invD(1) [OF inv] g h]
  have "q \<le> p" using top'(6) [OF rt] pt y(2) by simp
  moreover have "p \<le> q" using top top'(3,4) y c p by (auto simp: top_group_def)
  ultimately have q: "q = p" "h = t" using top'(2) tab' by auto
  have lock: "rt_scheduler_lock_nest Y = 0" using top by (simp add: top_group_def Y_def)
  have nk: "\<not> keeps_cpu Y"
    using h q p y by (simp add: keeps_cpu_def Let_def) (simp add: Y_def)
  have run: "status_of Y c = RT_THREAD_RUNNING" using top y by (simp add: top_group_def c)
  have e: "rt_thread_yield s = rt_schedule Y" by (simp add: rt_thread_yield_def c Y_def)
  have cur: "rt_current_thread (rt_schedule Y) = t \<and>
      rt_thread_priority_table (rt_schedule Y) p = ts @ [c]"
  proof (cases Y rule: schedule_cases)
    case (switch s' t' p')
    then have t': "t' = t" "p' = p" using h q by auto
    let ?z = "upd_thread c clear_yield Y\<lparr>rt_current_priority := of_nat p', rt_current_thread := t'\<rparr>"
    have s': "s' = rt_schedule_insert_thread c ?z"
      unfolding switch(6) y(1) if_P [OF run] by (rule refl)
    have "prio_of ?z c = p" using y p by (simp add: prio_of_def)
    then have "rt_thread_priority_table s' p = (t # ts) @ [c]"
      unfolding s' table_insert using tab' tc t' by simp
    then show ?thesis
      using t' tc dt unfolding switch(7) by (simp add: s')
  qed (use lock g nk h q tc y in auto)
  show "rt_current_thread (rt_thread_yield s) = t" using cur e by simp
  show "rt_thread_priority_table (rt_thread_yield s) p = ts @ [c]" using cur e by simp
  show "prio_of (rt_thread_yield s) t = p" using pt e y by simp
  have "is_ready (rt_schedule Y) c" using cur y p by (simp add: is_ready_def)
  then have "status_of (rt_schedule Y) t = RT_THREAD_RUNNING"
    using schedule_best [OF inv lock] cur by metis
  moreover have "p \<le> prio_of (rt_schedule Y) u" if "is_ready (rt_schedule Y) u" for u
    using schedule_best [OF inv lock that] cur pt y by simp
  ultimately show "top_group (rt_thread_yield s)"
    using cur lock sched_inv_schedule [OF inv] pt y by (simp add: top_group_def e)
qed

lemma yields_rotate:
  "top_group s \<Longrightarrow> k \<le> length (rt_thread_priority_table s (prio_of s (rt_current_thread s))) \<Longrightarrow>
   let p = prio_of s (rt_current_thread s); r = (rt_thread_yield ^^ k) s;
       ring = rt_current_thread s # rt_thread_priority_table s p
   in top_group r \<and> rt_current_thread r = ring ! k \<and> prio_of r (ring ! k) = p \<and>
      rt_thread_priority_table r p = drop (Suc k) ring @ take k ring"
proof (induction k)
  case 0
  then show ?case by simp
next
  case (Suc k)
  let ?p = "prio_of s (rt_current_thread s)"
  let ?r = "(rt_thread_yield ^^ k) s"
  let ?ring = "rt_current_thread s # rt_thread_priority_table s ?p"
  have ih: "top_group ?r" "rt_current_thread ?r = ?ring ! k" "prio_of ?r (?ring ! k) = ?p"
    "rt_thread_priority_table ?r ?p = drop (Suc k) ?ring @ take k ?ring"
    using Suc by (auto simp: Let_def)
  have "drop (Suc k) ?ring = ?ring ! Suc k # drop (Suc (Suc k)) ?ring"
    using Suc.prems(2) by (intro Cons_nth_drop_Suc [symmetric]) simp
  then have tab: "rt_thread_priority_table ?r ?p =
      ?ring ! Suc k # (drop (Suc (Suc k)) ?ring @ take k ?ring)"
    using ih(4) by simp
  note y = yield_rotates [OF ih(1) refl, of ?p, OF _ tab, unfolded ih(2), OF ih(3) [symmetric]]
  have "take (Suc k) ?ring = take k ?ring @ [?ring ! k]"
    using Suc.prems(2) by (intro take_Suc_conv_app_nth) simp
  then show ?case using y by (simp add: Let_def)
qed

section \<open>The timer list is in the order of the deadlines\<close>

text \<open>The ticks left until a timer is due, and the list in their order.\<close>

definition ticks_left :: "kernel \<Rightarrow> timer_id \<Rightarrow> u32" where
  "ticks_left s i = timeout_tick (timers s i) - rt_tick s"

definition timers_sorted :: "kernel \<Rightarrow> bool" where
  "timers_sorted s \<longleftrightarrow>
     sorted (map (\<lambda>i. unat (ticks_left s i)) (timer_list s)) \<and> distinct (timer_list s) \<and>
     (\<forall>i \<in> set (timer_list s). ticks_left s i < RT_TICK_HALF)"

lemma tick_order:
  fixes a b :: u32
  assumes "a < RT_TICK_HALF" "b < RT_TICK_HALF"
  shows "a - b \<noteq> 0 \<and> a - b < RT_TICK_HALF \<longleftrightarrow> b < a"
proof -
  have ab: "unat a < 0x7FFFFFFF" "unat b < 0x7FFFFFFF"
    using assms by (simp_all add: RT_TICK_HALF_def word_less_nat_alt)
  show ?thesis
  proof (cases "b \<le> a")
    case True
    then have "unat (a - b) = unat a - unat b" by (simp add: unat_sub_if' word_le_nat_alt)
    then show ?thesis
      using True ab by (auto simp: RT_TICK_HALF_def word_less_nat_alt word_le_nat_alt order_le_less
          simp flip: word_unat_eq_iff)
  next
    case False
    then have "unat (a - b) = unat a + 2 ^ 32 - unat b" by (simp add: unat_sub_if' word_le_nat_alt)
    then show ?thesis
      using False ab by (auto simp: RT_TICK_HALF_def word_less_nat_alt word_le_nat_alt)
  qed
qed

lemma timer_insert_split:
  "sorted (map (\<lambda>j. unat (tk j - now)) l) \<Longrightarrow> \<forall>j \<in> set l. tk j - now < RT_TICK_HALF \<Longrightarrow>
   due - now < RT_TICK_HALF \<Longrightarrow>
   timer_insert tk due i l =
     filter (\<lambda>j. tk j - now \<le> due - now) l @ i # filter (\<lambda>j. due - now < tk j - now) l"
proof (induction l)
  case (Cons t l)
  have o: "tk t - due \<noteq> 0 \<and> tk t - due < RT_TICK_HALF \<longleftrightarrow> due - now < tk t - now"
    using tick_order [of "tk t - now" "due - now"] Cons.prems by simp
  show ?case
  proof (cases "due - now < tk t - now")
    case True
    have "due - now < tk j - now" if "j \<in> set l" for j
      using Cons.prems(1) that True by (fastforce simp: word_less_nat_alt)
    then have "filter (\<lambda>j. tk j - now \<le> due - now) l = []"
      "filter (\<lambda>j. due - now < tk j - now) l = l"
      by (auto simp: filter_empty_conv not_le filter_id_conv)
    then show ?thesis using True o by (auto simp: not_le)
  next
    case False
    have "timer_insert tk due i (t # l) = t # timer_insert tk due i l" using False o by auto
    then show ?thesis using False Cons by (auto simp: not_less)
  qed
qed simp

lemma timer_start_list:
  assumes srt: "timers_sorted s" and hard: "\<not> has_flag RT_TIMER_FLAG_SOFT_TIMER s i"
    and time: "init_tick (timers s i) < RT_TICK_HALF"
  shows "timer_list (rt_timer_start i s) =
      filter (\<lambda>j. ticks_left s j \<le> init_tick (timers s i)) (removeAll i (timer_list s)) @ i #
      filter (\<lambda>j. init_tick (timers s i) < ticks_left s j) (removeAll i (timer_list s))"
    and "ticks_left (rt_timer_start i s) i = init_tick (timers s i)"
    and "j \<noteq> i \<Longrightarrow> ticks_left (rt_timer_start i s) j = ticks_left s j"
    and "rt_tick (rt_timer_start i s) = rt_tick s"
proof -
  let ?e = "timer_enlist i s"
  have flag: "(flag (timers s i) AND NOT 1) AND 4 = flag (timers s i) AND 4"
    "((flag (timers s i) AND NOT 1) OR 1) AND 4 = flag (timers s i) AND 4"
  proof -
    have b4: "bit (4 :: u8) n \<longleftrightarrow> n = 2" for n
    proof -
      have "(4 :: u8) = 2 ^ 2" by simp
      then show ?thesis by (simp only: bit_exp_iff) auto
    qed
    have m2: "bit (- 2 :: u8) n \<longleftrightarrow> n < 8 \<and> 0 < n" for n
    proof -
      have m: "(- 2 :: u8) = NOT 1" by simp
      show ?thesis unfolding m bit_not_iff by (auto simp: bit_1_iff)
    qed
    show "(flag (timers s i) AND NOT 1) AND 4 = flag (timers s i) AND 4"
      by (rule bit_word_eqI) (auto simp: bit_and_iff b4 m2)
    show "((flag (timers s i) AND NOT 1) OR 1) AND 4 = flag (timers s i) AND 4"
      by (rule bit_word_eqI) (auto simp: bit_and_iff bit_or_iff b4 m2 bit_1_iff)
  qed
  have hf: "\<not> has_flag RT_TIMER_FLAG_SOFT_TIMER ?e i"
    using hard flag
    by (auto simp: has_flag_def timer_enlist_def Let_def set_flag_def clear_flag_def timer_remove_def
        RT_TIMER_FLAG_SOFT_TIMER_def RT_TIMER_FLAG_ACTIVATED_def)
  have e: "rt_timer_start i s = ?e" using hf by (simp add: rt_timer_start_def Let_def)
  let ?l = "removeAll i (timer_list s)" and ?tk = "\<lambda>j. timeout_tick (timers s j)"
  have ins: "timer_insert ((\<lambda>j. timeout_tick (timers s j))(i := due)) due i l = timer_insert ?tk due i l"
    if "i \<notin> set l" for due l
    using that by (induction l) auto
  have "timer_list ?e = timer_insert ?tk (rt_tick s + init_tick (timers s i)) i ?l"
    using hard flag(1) ins [of ?l "rt_tick s + init_tick (timers s i)"]
    by (simp add: timer_enlist_def Let_def set_flag_def clear_flag_def timer_remove_def has_flag_def
        RT_TIMER_FLAG_SOFT_TIMER_def RT_TIMER_FLAG_ACTIVATED_def fun_upd_def if_distrib cong: if_cong)
  also have "\<dots> = filter (\<lambda>j. ticks_left s j \<le> init_tick (timers s i)) ?l @ i #
      filter (\<lambda>j. init_tick (timers s i) < ticks_left s j) ?l"
    using timer_insert_split [of ?tk "rt_tick s" ?l "rt_tick s + init_tick (timers s i)" i] srt time
    by (auto simp: timers_sorted_def ticks_left_def removeAll_filter_not_eq sorted_filter)
  finally show "timer_list (rt_timer_start i s) =
      filter (\<lambda>j. ticks_left s j \<le> init_tick (timers s i)) ?l @ i #
      filter (\<lambda>j. init_tick (timers s i) < ticks_left s j) ?l"
    unfolding e .
  show "ticks_left (rt_timer_start i s) i = init_tick (timers s i)"
    "rt_tick (rt_timer_start i s) = rt_tick s"
    unfolding e by (auto simp: ticks_left_def timer_enlist_def Let_def set_flag_def clear_flag_def timer_remove_def)
  show "j \<noteq> i \<Longrightarrow> ticks_left (rt_timer_start i s) j = ticks_left s j"
    unfolding e by (auto simp: ticks_left_def timer_enlist_def Let_def set_flag_def clear_flag_def timer_remove_def)
qed

section \<open>Properties\<close>

text \<open>A small system for the witnesses: threads 2 and 3 of priority 5, thread 4 of priority 6.\<close>

definition start_at :: "tid \<Rightarrow> u8 \<Rightarrow> kernel \<Rightarrow> kernel" where
  "start_at t prio s = the (rt_thread_startup t (the (thread_init t prio 10 s)))"

definition demo_kernel :: kernel where
  "demo_kernel = rt_system_scheduler_start (start_at 4 6 (start_at 3 5 (start_at 2 5 boot_kernel)))"

lemma start_at_reachable:
  assumes "kernel_reachable s" "status_of s t = RT_THREAD_INIT" "prio < 32"
  shows "kernel_reachable (start_at t prio s)"
proof -
  obtain s1 where s1: "thread_init t prio 10 s = Some s1" using assms(3) by (simp add: thread_init_def)
  have st: "status_of s1 t = RT_THREAD_INIT" "prio_of s1 t = unat prio"
    using s1 by (auto simp: thread_init_def timer_init_def status_of_def prio_of_def split: if_splits)
      (simp add: status_def RT_THREAD_STAT_MASK_def status_values)
  then obtain s2 where s2: "rt_thread_startup t s1 = Some s2" by (simp add: rt_thread_startup_def Let_def)
  have "unat prio < 32" using assms(3) by (simp add: word_less_nat_alt)
  then show ?thesis
    using kernel_reachable.intros(2) [OF kernel_reachable.intros(2) [OF assms(1) kernel_step.intros(15)
        [OF assms(2) s1]] kernel_step.intros(6) [OF _ s2]] st s1 s2
    by (simp add: start_at_def)
qed

lemma demo_reachable: "kernel_reachable demo_kernel"
proof -
  have "kernel_reachable (start_at 4 6 (start_at 3 5 (start_at 2 5 boot_kernel)))" (is "kernel_reachable ?s")
    by (intro start_at_reachable kernel_reachable.intros(1)) code_simp+
  moreover have "rt_current_thread ?s = RT_NULL" "status_of ?s RT_NULL = RT_THREAD_INIT"
    "rt_thread_ready_priority_group ?s \<noteq> 0"
    by code_simp+
  ultimately show ?thesis
    unfolding demo_kernel_def using kernel_reachable.intros(2) kernel_step.intros(16) by blast
qed

text \<open>
  C3: in every state the kernel can reach from start-up, the priority bit map names exactly
  the priorities that have ready threads, a thread is in the ready list of its own priority
  exactly when its status is READY, a thread waits in at most one suspend list and then its
  status is SUSPEND, and only the current thread is RUNNING.
\<close>

theorem kernel_invariant:
  assumes "kernel_reachable s"
  shows "sched_inv s"
  using assms by (rule reachable_inv)

theorem kernel_invariant_witness:
  "sched_inv demo_kernel \<and> rt_current_thread demo_kernel = 2 \<and>
   rt_thread_priority_table demo_kernel 5 = [3] \<and> rt_thread_ready_priority_group demo_kernel = 0x60"
  by (intro conjI kernel_invariant demo_reachable) code_simp+

text \<open>
  C20: call \<open>rt_schedule\<close> while the scheduler is not locked and there is something to run: the
  current thread is running or some thread is ready, as is the idle thread whenever it is not
  running. Then the current thread afterwards is running, and no ready thread is more urgent
  (has a smaller priority number) than it.
\<close>

theorem schedule_runs_most_urgent:
  assumes "kernel_reachable s" "rt_scheduler_lock_nest s = 0"
    and "status_of s (rt_current_thread s) = RT_THREAD_RUNNING \<or> (\<exists>u. is_ready s u)"
  shows "status_of (rt_schedule s) (rt_current_thread (rt_schedule s)) = RT_THREAD_RUNNING \<and>
    (\<forall>u. is_ready (rt_schedule s) u \<longrightarrow>
       prio_of (rt_schedule s) (rt_current_thread (rt_schedule s)) \<le> prio_of (rt_schedule s) u)"
  using schedule_best [OF reachable_inv [OF assms(1)] assms(2)]
    schedule_running [OF reachable_inv [OF assms(1)] assms(2,3)] by simp

theorem schedule_runs_most_urgent_witness:
  "let s = rt_schedule (rt_thread_change_priority 4 1 demo_kernel)
   in rt_current_thread s = 4 \<and> status_of s 4 = RT_THREAD_RUNNING \<and> is_ready s 3 \<and> prio_of s 4 \<le> prio_of s 3"
proof -
  let ?s = "rt_thread_change_priority 4 1 demo_kernel"
  have "kernel_reachable ?s"
    by (rule kernel_reachable.intros(2) [OF demo_reachable kernel_step.intros(8)]) simp
  moreover have "rt_scheduler_lock_nest ?s = 0" "status_of ?s (rt_current_thread ?s) = RT_THREAD_RUNNING"
    "is_ready (rt_schedule ?s) 3" "rt_current_thread (rt_schedule ?s) = 4"
    by code_simp+
  ultimately show ?thesis using schedule_runs_most_urgent [of ?s] by (simp add: Let_def)
qed

text \<open>
  Round robin. When the running thread is among the most urgent, the threads of its
  priority take turns: the k-th yield in a row brings the k-th thread of the ready list to
  the processor, and after a full round the threads are again in the order they had, so
  none of them waits for more than the length of the list.
\<close>

theorem yield_is_round_robin:
  assumes "top_group s" "p = prio_of s (rt_current_thread s)"
    and "ring = rt_current_thread s # rt_thread_priority_table s p" "k < length ring"
  shows "rt_current_thread ((rt_thread_yield ^^ k) s) = ring ! k \<and>
    rt_thread_priority_table ((rt_thread_yield ^^ k) s) p = drop (Suc k) ring @ take k ring"
  using yields_rotate [of s k] assms by (simp add: Let_def)

theorem yield_is_round_robin_witness:
  "rt_current_thread ((rt_thread_yield ^^ 1) demo_kernel) = 3 \<and>
   rt_thread_priority_table ((rt_thread_yield ^^ 1) demo_kernel) 5 = [2]"
proof -
  have "rt_scheduler_lock_nest demo_kernel = 0" "status_of demo_kernel 2 = RT_THREAD_RUNNING"
    "rt_current_thread demo_kernel = 2" "prio_of demo_kernel 2 = 5"
    "rt_thread_priority_table demo_kernel 5 = [3]"
    by code_simp+
  note c = this
  have bits: "bit (0x60 :: u32) q \<Longrightarrow> 5 \<le> q" for q
  proof -
    have "(0x60 :: u32) = push_bit 5 3" by simp
    then show "bit (0x60 :: u32) q \<Longrightarrow> 5 \<le> q" by (simp only: bit_push_bit_iff)
  qed
  have "5 \<le> prio_of demo_kernel u" if "is_ready demo_kernel u" for u
  proof -
    have "rt_thread_priority_table demo_kernel (prio_of demo_kernel u) \<noteq> []"
      using that by (auto simp: is_ready_def)
    moreover have "rt_thread_ready_priority_group demo_kernel = 0x60" by code_simp
    ultimately show ?thesis
      using tables_okD(1) [OF sched_invD(1) [OF reachable_inv [OF demo_reachable]]] bits by metis
  qed
  then have "top_group demo_kernel"
    using c reachable_inv [OF demo_reachable] by (simp add: top_group_def)
  then show ?thesis
    using yield_is_round_robin [of demo_kernel 5 "[2, 3]" 1] c by simp
qed

text \<open>
  Starting a hard timer keeps the timer list in the order of the deadlines, also when
  the 32-bit tick counter wraps: the timer goes behind every timer that is due no later
  and before every timer that is due later, and is due after its own period.
\<close>

theorem timer_start_keeps_order:
  assumes "timers_sorted s" "\<not> has_flag RT_TIMER_FLAG_SOFT_TIMER s i"
    and "init_tick (timers s i) < RT_TICK_HALF"
  shows "timers_sorted (rt_timer_start i s) \<and>
    set (timer_list (rt_timer_start i s)) = insert i (set (timer_list s)) \<and>
    timeout_tick (timers (rt_timer_start i s) i) = rt_tick s + init_tick (timers s i)"
proof -
  note r = timer_start_list [OF assms]
  let ?d = "init_tick (timers s i)" and ?l = "removeAll i (timer_list s)" and ?r = "rt_timer_start i s"
  have same: "ticks_left ?r j = ticks_left s j" if "j \<in> set ?l" for j using r(3) that by simp
  have l: "sorted (map (\<lambda>j. unat (ticks_left s j)) ?l)" "distinct ?l"
    "\<forall>j \<in> set ?l. ticks_left s j < RT_TICK_HALF"
    using assms(1) by (auto simp: timers_sorted_def removeAll_filter_not_eq sorted_filter)
  have mp: "map (\<lambda>j. unat (ticks_left ?r j)) (filter P ?l) = map (\<lambda>j. unat (ticks_left s j)) (filter P ?l)" for P
    using same by (intro map_cong) auto
  then have "sorted (map (\<lambda>j. unat (ticks_left ?r j)) (timer_list ?r))"
    using l(1) unfolding r(1) map_append list.map mp r(2)
    by (auto simp: sorted_append sorted_filter same word_le_nat_alt word_less_nat_alt)
  moreover have "distinct (timer_list ?r)" using l(2) unfolding r(1) by auto
  moreover have st: "set (timer_list ?r) = insert i (set (timer_list s))"
    unfolding r(1) by auto
  moreover have "\<forall>j \<in> set (timer_list ?r). ticks_left ?r j < RT_TICK_HALF"
  proof
    fix j assume "j \<in> set (timer_list ?r)"
    then show "ticks_left ?r j < RT_TICK_HALF"
      using l(3) same assms(3) r(2) unfolding st by (cases "j = i") auto
  qed
  moreover have "timeout_tick (timers ?r i) = rt_tick s + ?d"
    using r(2,4) by (simp add: ticks_left_def diff_eq_eq)
  ultimately show ?thesis by (simp add: timers_sorted_def)
qed

theorem timer_start_keeps_order_witness:
  "let s = rt_timer_start (user_timer 1) (set_timer_time (user_timer 1) 50
             (rt_timer_start (user_timer 2) (set_timer_time (user_timer 2) 25
               (boot_kernel\<lparr>rt_tick := 0xFFFFFFF0\<rparr>))))
   in timers_sorted s \<and> timer_list s = [user_timer 2, user_timer 1] \<and>
      timeout_tick (timers s (user_timer 1)) = 34"
proof -
  let ?b = "boot_kernel\<lparr>rt_tick := 0xFFFFFFF0\<rparr>"
  let ?s1 = "rt_timer_start (user_timer 2) (set_timer_time (user_timer 2) 25 ?b)"
  let ?s2 = "set_timer_time (user_timer 1) 50 ?s1"
  have "timer_list ?s1 = [user_timer 2]" "unat (ticks_left ?s1 (user_timer 2)) = 25"
    "ticks_left ?s1 (user_timer 2) < RT_TICK_HALF" "timer_list ?s2 = [user_timer 2]"
    "ticks_left ?s2 (user_timer 2) < RT_TICK_HALF"
    by code_simp+
  then have "timers_sorted ?s2" by (simp add: timers_sorted_def)
  moreover have "\<not> has_flag RT_TIMER_FLAG_SOFT_TIMER ?s2 (user_timer 1)"
    "init_tick (timers ?s2 (user_timer 1)) < RT_TICK_HALF"
    "timer_list (rt_timer_start (user_timer 1) ?s2) = [user_timer 2, user_timer 1]"
    "rt_tick ?s2 + init_tick (timers ?s2 (user_timer 1)) = 34"
    by code_simp+
  ultimately show ?thesis
    using timer_start_keeps_order [of ?s2 "user_timer 1"] by (simp add: Let_def)
qed

end
