(* ===== verification/Ipc.thy ===== *)
theory Ipc
  imports Thread "HOL-Library.While_Combinator"
begin

text \<open>
  The suspend lists of the kernel objects and the semaphore, from
  \<open>src/rt-thread/src/ipc.c\<close>. A call that may block has an outcome: the value it returns, or
  \<open>Blocked\<close> when the calling thread is suspended in it; what the thread does when it runs
  again is the definition with the suffix \<open>_resumed\<close>. The suspend list of an object is named
  by a number. \<open>None\<close>: an assertion of the code fails.
\<close>

section \<open>Suspend lists\<close>

datatype ipc_flag = RT_IPC_FLAG_FIFO | RT_IPC_FLAG_PRIO

datatype 'a outcome = Return 'a | Blocked

fun prio_insert :: "(tid \<Rightarrow> nat) \<Rightarrow> tid \<Rightarrow> tid list \<Rightarrow> tid list" where
  "prio_insert prio t [] = [t]"
| "prio_insert prio t (u # us) = (if prio t < prio u then t # u # us else u # prio_insert prio t us)"

definition ipc_list_suspend :: "nat \<Rightarrow> tid \<Rightarrow> ipc_flag \<Rightarrow> kernel \<Rightarrow> kernel" where
  "ipc_list_suspend q t fl s =
     (let s = fst (rt_thread_suspend t s);
          l = suspend_lists s q
      in s\<lparr>suspend_lists := (suspend_lists s)(q :=
            (case fl of RT_IPC_FLAG_FIFO \<Rightarrow> l @ [t]
             | RT_IPC_FLAG_PRIO \<Rightarrow> prio_insert (prio_of s) t l))\<rparr>)"

definition ipc_list_resume :: "nat \<Rightarrow> kernel \<Rightarrow> kernel" where
  "ipc_list_resume q s = fst (rt_thread_resume (hd (suspend_lists s q)) s)"

definition resume_with_error :: "nat \<Rightarrow> kernel \<Rightarrow> kernel" where
  "resume_with_error q s =
     (let t = hd (suspend_lists s q)
      in fst (rt_thread_resume t (upd_thread t (\<lambda>th. th\<lparr>error := - RT_ERROR\<rparr>) s)))"

definition ipc_list_resume_all :: "nat \<Rightarrow> kernel \<Rightarrow> kernel" where
  "ipc_list_resume_all q s = while (\<lambda>s. suspend_lists s q \<noteq> []) (resume_with_error q) s"

section \<open>Semaphore\<close>

record rt_semaphore =
  sem_value :: u16
  sem_flag :: ipc_flag
  sem_queue :: nat

definition rt_sem_init :: "nat \<Rightarrow> u32 \<Rightarrow> ipc_flag \<Rightarrow> rt_semaphore option" where
  "rt_sem_init q value fl =
     (if value < 0x10000 then Some \<lparr>sem_value = ucast value, sem_flag = fl, sem_queue = q\<rparr> else None)"

definition rt_sem_take ::
    "rt_semaphore \<Rightarrow> int \<Rightarrow> kernel \<Rightarrow> (rt_semaphore \<times> kernel \<times> int outcome) option" where
  "rt_sem_take sem time s =
     (if 0 < sem_value sem then Some (sem\<lparr>sem_value := sem_value sem - 1\<rparr>, s, Return RT_EOK)
      else if time = 0 then Some (sem, s, Return (- RT_ETIMEOUT))
      else
        let t = rt_current_thread s;
            s = upd_thread t (\<lambda>th. th\<lparr>error := RT_EOK\<rparr>) s;
            s = ipc_list_suspend (sem_queue sem) t (sem_flag sem) s
        in map_option (\<lambda>s. (sem, rt_schedule s, Blocked))
             (if 0 < time then start_thread_timer t (word_of_int time) s else Some s))"

definition rt_sem_take_resumed :: "tid \<Rightarrow> kernel \<Rightarrow> int" where
  "rt_sem_take_resumed t s =
     (if error (threads s t) \<noteq> RT_EOK then error (threads s t) else RT_EOK)"

definition rt_sem_trytake ::
    "rt_semaphore \<Rightarrow> kernel \<Rightarrow> (rt_semaphore \<times> kernel \<times> int outcome) option" where
  "rt_sem_trytake sem s = rt_sem_take sem 0 s"

definition rt_sem_release :: "rt_semaphore \<Rightarrow> kernel \<Rightarrow> rt_semaphore \<times> kernel \<times> int" where
  "rt_sem_release sem s =
     (if suspend_lists s (sem_queue sem) \<noteq> []
      then (sem, rt_schedule (ipc_list_resume (sem_queue sem) s), RT_EOK)
      else if sem_value sem < 0xFFFF then (sem\<lparr>sem_value := sem_value sem + 1\<rparr>, s, RT_EOK)
      else (sem, s, - RT_EFULL))"

definition rt_sem_detach :: "rt_semaphore \<Rightarrow> kernel \<Rightarrow> kernel" where
  "rt_sem_detach sem s = ipc_list_resume_all (sem_queue sem) s"

text \<open>\<open>created\<close>: whether \<open>rt_object_allocate\<close> finds memory; without it the result is the null pointer.\<close>

definition rt_sem_create :: "bool \<Rightarrow> nat \<Rightarrow> u32 \<Rightarrow> ipc_flag \<Rightarrow> rt_semaphore option option" where
  "rt_sem_create created q value fl =
     (if value < 0x10000 then
        Some (if created then Some \<lparr>sem_value = ucast value, sem_flag = fl, sem_queue = q\<rparr> else None)
      else None)"

definition rt_sem_delete :: "rt_semaphore \<Rightarrow> kernel \<Rightarrow> kernel" where
  "rt_sem_delete sem s = ipc_list_resume_all (sem_queue sem) s"

text \<open>\<open>reset\<close>: the command is \<open>RT_IPC_CMD_RESET\<close>, with the new value as its argument.\<close>

definition rt_sem_control ::
    "rt_semaphore \<Rightarrow> bool \<Rightarrow> u32 \<Rightarrow> kernel \<Rightarrow> rt_semaphore \<times> kernel \<times> int" where
  "rt_sem_control sem reset arg s =
     (if reset then
        (sem\<lparr>sem_value := ucast arg\<rparr>, rt_schedule (ipc_list_resume_all (sem_queue sem) s), RT_EOK)
      else (sem, s, - RT_ERROR))"

section \<open>The suspend lists keep the invariant of the scheduler\<close>

lemma set_prio_insert [simp]: "set (prio_insert p t l) = insert t (set l)"
  by (induction l) auto

lemma distinct_prio_insert [simp]: "distinct (prio_insert p t l) \<longleftrightarrow> t \<notin> set l \<and> distinct l"
  by (induction l) auto

lemma sorted_prio_insert: "sorted (map p l) \<Longrightarrow> sorted (map p (prio_insert p t l))"
  by (induction l) (auto simp: not_less)

lemma enlist_eq:
  "ipc_list_suspend q t fl s =
     (let r = fst (rt_thread_suspend t s)
      in r\<lparr>suspend_lists := (suspend_lists r)(q := suspend_lists (ipc_list_suspend q t fl s) q)\<rparr>)"
  by (simp add: ipc_list_suspend_def Let_def)

lemma sched_inv_enlist:
  assumes inv: "sched_inv s" and t: "status_of s t = RT_THREAD_SUSPEND"
    and free: "\<And>q. t \<notin> set (suspend_lists s q)"
    and l: "set l = insert t (set (suspend_lists s q))" "distinct l"
  shows "sched_inv (s\<lparr>suspend_lists := (suspend_lists s)(q := l)\<rparr>)" (is "sched_inv ?r")
proof (rule sched_invI)
  show "tables_ok ?r" using sched_invD(1) [OF inv] by simp
  show "waits_ok ?r"
    using sched_invD(2) [OF inv] t free l unfolding waits_ok_def
    by (auto split: if_splits)
qed (use inv in \<open>auto simp: sched_inv_def\<close>)

lemma sched_inv_ipc_suspend:
  assumes inv: "sched_inv s" and t: "t = rt_current_thread s"
    and run: "status_of s t = RT_THREAD_RUNNING"
  shows "sched_inv (ipc_list_suspend q t fl s)"
    and "status_of (ipc_list_suspend q t fl s) t = RT_THREAD_SUSPEND"
    and "rt_current_thread (ipc_list_suspend q t fl s) = t"
    and "set (suspend_lists (ipc_list_suspend q t fl s) q) = insert t (set (suspend_lists s q))"
    and "q' \<noteq> q \<Longrightarrow> suspend_lists (ipc_list_suspend q t fl s) q' = suspend_lists s q'"
proof -
  have ok: "snd (rt_thread_suspend t s) = RT_EOK" using run by (simp add: rt_thread_suspend_def Let_def)
  note r = sched_inv_suspend [OF inv t ok]
  have sl: "suspend_lists (fst (rt_thread_suspend t s)) q = suspend_lists s q" for q
    using not_waiting [OF sched_invD(2) [OF inv], of t q] run
    by (simp add: rt_thread_suspend_def Let_def rt_timer_stop_def clear_flag_def timer_remove_def)
  let ?r = "fst (rt_thread_suspend t s)"
  have d: "distinct (suspend_lists s q)" using sched_invD(2) [OF inv] by (simp add: waits_ok_def)
  show "sched_inv (ipc_list_suspend q t fl s)"
    unfolding ipc_list_suspend_def Let_def
    by (rule sched_inv_enlist [OF r(1,2,4)]) (use r(4) sl d in \<open>auto split: ipc_flag.splits\<close>)
  show "status_of (ipc_list_suspend q t fl s) t = RT_THREAD_SUSPEND"
    using r(2) by (simp add: ipc_list_suspend_def Let_def)
  show "rt_current_thread (ipc_list_suspend q t fl s) = t"
    using r(3) t by (simp add: ipc_list_suspend_def Let_def)
  show "set (suspend_lists (ipc_list_suspend q t fl s) q) = insert t (set (suspend_lists s q))"
    using sl by (auto simp: ipc_list_suspend_def Let_def split: ipc_flag.splits)
  show "q' \<noteq> q \<Longrightarrow> suspend_lists (ipc_list_suspend q t fl s) q' = suspend_lists s q'"
    using sl by (simp add: ipc_list_suspend_def Let_def)
qed

lemma waiting_status: "waits_ok s \<Longrightarrow> t \<in> set (suspend_lists s q) \<Longrightarrow> status_of s t = RT_THREAD_SUSPEND"
  unfolding waits_ok_def by blast

lemma waiting_unique:
  "waits_ok s \<Longrightarrow> t \<in> set (suspend_lists s q) \<Longrightarrow> t \<in> set (suspend_lists s q') \<Longrightarrow> q = q'"
  unfolding waits_ok_def by blast

lemma ipc_resume_facts:
  assumes inv: "sched_inv s" and ne: "suspend_lists s q = t # ts"
  shows "sched_inv (ipc_list_resume q s)" "suspend_lists (ipc_list_resume q s) q = ts"
    and "q' \<noteq> q \<Longrightarrow> suspend_lists (ipc_list_resume q s) q' = suspend_lists s q'"
    and "status_of (ipc_list_resume q s) t =
      (if t = rt_current_thread s then RT_THREAD_RUNNING else RT_THREAD_READY)"
    and "error (threads (ipc_list_resume q s) u) = error (threads s u)"
proof -
  have t: "t \<in> set (suspend_lists s q)" using ne by simp
  have st: "status_of s t = RT_THREAD_SUSPEND" by (rule waiting_status [OF sched_invD(2) [OF inv] t])
  have d: "distinct (t # ts)" using sched_invD(2) [OF inv] ne unfolding waits_ok_def by metis
  show "sched_inv (ipc_list_resume q s)" by (simp add: ipc_list_resume_def sched_inv_resume inv)
  show "suspend_lists (ipc_list_resume q s) q = ts"
    using st d by (simp add: ipc_list_resume_def resume_sel ne)
  show "q' \<noteq> q \<Longrightarrow> suspend_lists (ipc_list_resume q s) q' = suspend_lists s q'"
  proof -
    assume "q' \<noteq> q"
    then have "t \<notin> set (suspend_lists s q')"
      using waiting_unique [OF sched_invD(2) [OF inv] t, of q'] by blast
    then show ?thesis by (simp add: ipc_list_resume_def resume_sel ne)
  qed
  show "status_of (ipc_list_resume q s) t =
      (if t = rt_current_thread s then RT_THREAD_RUNNING else RT_THREAD_READY)"
    using st by (simp add: ipc_list_resume_def resume_status ne)
  show "error (threads (ipc_list_resume q s) u) = error (threads s u)"
    by (simp add: ipc_list_resume_def resume_sel)
qed

lemma resume_error_lists:
  assumes inv: "sched_inv s" and ne: "suspend_lists s q \<noteq> []"
  shows "suspend_lists (resume_with_error q s) q = tl (suspend_lists s q)"
    and "sched_inv (resume_with_error q s)"
    and "q' \<noteq> q \<Longrightarrow> suspend_lists (resume_with_error q s) q' = suspend_lists s q'"
proof -
  let ?t = "hd (suspend_lists s q)"
  let ?u = "upd_thread ?t (\<lambda>th. th\<lparr>error := - RT_ERROR\<rparr>) s"
  have st: "status_of ?u ?t = RT_THREAD_SUSPEND"
    using waiting_status [OF sched_invD(2) [OF inv] hd_in_set [OF ne]] by (simp add: status_of_def)
  have d: "distinct (suspend_lists s q)" using sched_invD(2) [OF inv] by (simp add: waits_ok_def)
  then have "removeAll ?t (suspend_lists s q) = tl (suspend_lists s q)"
    using ne by (cases "suspend_lists s q") auto
  then show "suspend_lists (resume_with_error q s) q = tl (suspend_lists s q)"
    using st by (simp add: resume_with_error_def Let_def resume_sel)
  show "sched_inv (resume_with_error q s)"
    unfolding resume_with_error_def Let_def
    by (intro sched_inv_resume sched_inv_upd [OF inv]) auto
  show "q' \<noteq> q \<Longrightarrow> suspend_lists (resume_with_error q s) q' = suspend_lists s q'"
  proof -
    assume q: "q' \<noteq> q"
    have "?t \<notin> set (suspend_lists s q')"
      using sched_invD(2) [OF inv] ne q hd_in_set [OF ne] unfolding waits_ok_def by blast
    then show ?thesis using st by (simp add: resume_with_error_def Let_def resume_sel)
  qed
qed

lemma resume_all_inv:
  "sched_inv s \<Longrightarrow> sched_inv (ipc_list_resume_all q s) \<and> suspend_lists (ipc_list_resume_all q s) q = [] \<and>
     (\<forall>q'. q' \<noteq> q \<longrightarrow> suspend_lists (ipc_list_resume_all q s) q' = suspend_lists s q')"
proof (induction "length (suspend_lists s q)" arbitrary: s)
  case 0
  then show ?case by (simp add: ipc_list_resume_all_def while_unfold)
next
  case (Suc n)
  then have ne: "suspend_lists s q \<noteq> []" by auto
  note r = resume_error_lists [OF Suc.prems ne]
  have "ipc_list_resume_all q s = ipc_list_resume_all q (resume_with_error q s)"
    unfolding ipc_list_resume_all_def by (subst while_unfold) (simp add: ne)
  then show ?case using Suc r by simp
qed

lemma resume_error_thread:
  assumes inv: "sched_inv s" and ne: "suspend_lists s q = t # ts"
  shows "error (threads (resume_with_error q s) u) = (if u = t then - RT_ERROR else error (threads s u))"
    "status_of (resume_with_error q s) u =
       (if u = t then (if t = rt_current_thread s then RT_THREAD_RUNNING else RT_THREAD_READY) else status_of s u)"
    "rt_current_thread (resume_with_error q s) = rt_current_thread s"
proof -
  let ?u = "upd_thread t (\<lambda>th. th\<lparr>error := - RT_ERROR\<rparr>) s"
  have st: "status_of ?u t = RT_THREAD_SUSPEND"
    using waiting_status [OF sched_invD(2) [OF inv], of t q] ne by (simp add: status_of_def)
  have su: "status_of ?u v = status_of s v" for v by (simp add: status_of_def)
  have r: "resume_with_error q s = fst (rt_thread_resume t ?u)" by (simp add: resume_with_error_def ne)
  show "error (threads (resume_with_error q s) u) = (if u = t then - RT_ERROR else error (threads s u))"
    unfolding r by (simp add: resume_sel)
  show "status_of (resume_with_error q s) u =
       (if u = t then (if t = rt_current_thread s then RT_THREAD_RUNNING else RT_THREAD_READY) else status_of s u)"
    unfolding r resume_status [OF st] su by simp
  show "rt_current_thread (resume_with_error q s) = rt_current_thread s"
    unfolding r by (simp add: resume_sel)
qed

lemma resume_all_run:
  "sched_inv s \<Longrightarrow>
   \<exists>s'. while_option (\<lambda>s. suspend_lists s q \<noteq> []) (resume_with_error q) s = Some s' \<and>
     ipc_list_resume_all q s = s' \<and> suspend_lists s' q = [] \<and>
     (\<forall>t. (error (threads s' t), status_of s' t) =
        (if t \<in> set (suspend_lists s q)
         then (- RT_ERROR, if t = rt_current_thread s then RT_THREAD_RUNNING else RT_THREAD_READY)
         else (error (threads s t), status_of s t)))"
proof (induction "length (suspend_lists s q)" arbitrary: s)
  case 0
  then show ?case by (simp add: ipc_list_resume_all_def while_unfold while_option_unfold)
next
  case (Suc n)
  then obtain t ts where ne: "suspend_lists s q = t # ts" by (cases "suspend_lists s q") auto
  let ?r = "resume_with_error q s"
  have r: "suspend_lists ?r q = ts" "sched_inv ?r"
    using resume_error_lists [OF Suc.prems, of q] ne by simp_all
  note th = resume_error_thread [OF Suc.prems ne]
  have d: "t \<notin> set ts" using sched_invD(2) [OF Suc.prems] ne unfolding waits_ok_def by (metis distinct.simps(2))
  obtain s' where IH: "while_option (\<lambda>s. suspend_lists s q \<noteq> []) (resume_with_error q) ?r = Some s'"
    "ipc_list_resume_all q ?r = s'" "suspend_lists s' q = []"
    "\<forall>u. (error (threads s' u), status_of s' u) =
        (if u \<in> set ts
         then (- RT_ERROR, if u = rt_current_thread s then RT_THREAD_RUNNING else RT_THREAD_READY)
         else (error (threads ?r u), status_of ?r u))"
    using Suc.hyps(1) [of ?r] Suc.hyps(2) r ne th(3) by auto
  have "ipc_list_resume_all q s = ipc_list_resume_all q ?r"
    unfolding ipc_list_resume_all_def by (subst while_unfold) (simp add: ne)
  moreover have "while_option (\<lambda>s. suspend_lists s q \<noteq> []) (resume_with_error q) s = Some s'"
    using IH(1) by (subst while_option_unfold) (simp add: ne)
  moreover have "(error (threads s' u), status_of s' u) =
      (if u \<in> set (t # ts)
       then (- RT_ERROR, if u = rt_current_thread s then RT_THREAD_RUNNING else RT_THREAD_READY)
       else (error (threads s u), status_of s u))" for u
    using IH(4) th(1,2) d by (cases "u = t") auto
  ultimately show ?case using IH(2,3) ne by auto
qed

text \<open>Who waits when the object goes away finds an error in its control block.\<close>

lemma resume_all_error:
  assumes "sched_inv s" "t \<in> set (suspend_lists s q)"
  shows "error (threads (ipc_list_resume_all q s) t) = - RT_ERROR"
proof -
  obtain s' where s: "ipc_list_resume_all q s = s'"
    and all: "\<forall>t. (error (threads s' t), status_of s' t) =
       (if t \<in> set (suspend_lists s q)
        then (- RT_ERROR, if t = rt_current_thread s then RT_THREAD_RUNNING else RT_THREAD_READY)
        else (error (threads s t), status_of s t))"
    using resume_all_run [OF assms(1)] by blast
  show ?thesis using all [THEN spec, of t] assms(2) by (simp add: s)
qed

lemma sem_gone_fails_waiters:
  assumes "sched_inv s" "t \<in> set (suspend_lists s (sem_queue sem))"
  shows "rt_sem_take_resumed t (rt_sem_delete sem s) = - RT_ERROR"
    and "rt_sem_take_resumed t (rt_sem_detach sem s) = - RT_ERROR"
  using resume_all_error [OF assms]
  by (simp_all add: rt_sem_take_resumed_def rt_sem_delete_def rt_sem_detach_def rt_err_defs)

section \<open>What blocking and timing out change\<close>

lemma start_timer_frame:
  assumes "sched_inv s" "start_thread_timer t tick s = Some s'" "timer_thread s \<notin> set (suspend_lists s q)"
  shows "suspend_lists s' q = suspend_lists s q" "error (threads s' u) = error (threads s u)"
proof -
  let ?i = "thread_timer t" and ?s0 = "set_timer_time (thread_timer t) tick s"
  let ?e = "timer_enlist ?i ?s0"
  have s': "s' = rt_timer_start ?i ?s0"
    using assms(2) by (auto simp: start_thread_timer_def rt_timer_control_def split: if_splits)
  have c: "core ?e = core s" by simp
  have e: "sched_inv ?e" "suspend_lists ?e = suspend_lists s" "threads ?e = threads s"
    using c core_eq(1) [OF c] assms(1) by (auto simp: core_def)
  have "timer_thread ?e = timer_thread s"
    by (simp add: timer_enlist_def set_timer_time_def Let_def set_flag_def clear_flag_def timer_remove_def upd_timer_def)
  then have "removeAll (timer_thread ?e) (suspend_lists s q) = suspend_lists s q" using assms(3) by simp
  then show "suspend_lists s' q = suspend_lists s q" "error (threads s' u) = error (threads s u)"
    unfolding s' using e sched_inv_resume [OF e(1)]
    by (auto simp: rt_timer_start_def Let_def schedule_suspend_lists resume_sel)
qed

lemma timeout_frame:
  assumes "sched_inv s" "thread_timeout t s = Some s'"
  shows "suspend_lists s' q = removeAll t (suspend_lists s q)"
    and "error (threads s' u) = (if u = t then - RT_ETIMEOUT else error (threads s u))"
proof -
  let ?u = "upd_thread t (\<lambda>th. th\<lparr>error := - RT_ETIMEOUT\<rparr>) s"
  let ?i = "rt_schedule_insert_thread t (rt_list_remove t ?u)"
  have st: "status_of s t = RT_THREAD_SUSPEND" "s' = rt_schedule ?i"
    using assms(2) by (auto simp: thread_timeout_def Let_def split: if_splits)
  have "sched_inv ?u" by (rule sched_inv_upd [OF assms(1)]) auto
  then have i: "sched_inv ?i" using st(1) by (intro sched_inv_requeue) (auto simp: status_of_def)
  show "suspend_lists s' q = removeAll t (suspend_lists s q)"
    using st(2) schedule_suspend_lists [OF i] by simp
  have "error (threads ?i u) = (if u = t then - RT_ETIMEOUT else error (threads s u))"
    by (simp add: rt_schedule_insert_thread_def Let_def rt_list_remove_def set_status_def upd_thread_def)
  then show "error (threads s' u) = (if u = t then - RT_ETIMEOUT else error (threads s u))"
    using st(2) by simp
qed

section \<open>Semaphore tokens\<close>

text \<open>
  A semaphore in its kernel. \<open>in_take\<close>: the threads whose call of \<open>rt_sem_take\<close> blocked and
  has not returned yet; \<open>granted\<close>: the calls that have returned \<open>RT_EOK\<close>; \<open>released\<close>: the
  releases that have. \<open>sem_step\<close>: what can happen to it. A call that blocked returns, in
  \<open>finish\<close>, what \<open>rt_sem_take_resumed\<close> reads from the thread when it runs again. The timer thread
  takes no semaphore, and nothing else in the kernel touches the list of the semaphore or the
  error of a thread that is in a take.
\<close>

record sem_sys =
  sem :: rt_semaphore
  krn :: kernel
  in_take :: "tid set"
  granted :: nat
  released :: nat

abbreviation waiting :: "sem_sys \<Rightarrow> tid list" where
  "waiting x \<equiv> suspend_lists (krn x) (sem_queue (sem x))"

inductive sem_step :: "sem_sys \<Rightarrow> sem_sys \<Rightarrow> bool" where
  take_now: "rt_sem_take (sem x) time (krn x) = Some (m, k, Return r) \<Longrightarrow>
     sem_step x (x\<lparr>sem := m, krn := k, granted := granted x + (if r = RT_EOK then 1 else 0)\<rparr>)"
| take_block: "rt_sem_take (sem x) time (krn x) = Some (m, k, Blocked) \<Longrightarrow>
     status_of (krn x) (rt_current_thread (krn x)) = RT_THREAD_RUNNING \<Longrightarrow>
     rt_current_thread (krn x) \<notin> in_take x \<Longrightarrow>
     timer_thread (krn x) \<notin> insert (rt_current_thread (krn x)) (in_take x) \<Longrightarrow>
     sem_step x (x\<lparr>sem := m, krn := k, in_take := insert (rt_current_thread (krn x)) (in_take x)\<rparr>)"
| finish: "t = rt_current_thread (krn x) \<Longrightarrow> t \<in> in_take x \<Longrightarrow> status_of (krn x) t = RT_THREAD_RUNNING \<Longrightarrow>
     sem_step x (x\<lparr>in_take := in_take x - {t},
       granted := granted x + (if rt_sem_take_resumed t (krn x) = RT_EOK then 1 else 0)\<rparr>)"
| release: "rt_sem_release (sem x) (krn x) = (m, k, r) \<Longrightarrow>
     sem_step x (x\<lparr>sem := m, krn := k, released := released x + (if r = RT_EOK then 1 else 0)\<rparr>)"
| expire: "t \<in> set (waiting x) \<Longrightarrow> thread_timeout t (krn x) = Some k \<Longrightarrow> sem_step x (x\<lparr>krn := k\<rparr>)"
| other: "kernel_step (krn x) k \<Longrightarrow>
     suspend_lists k (sem_queue (sem x)) = waiting x \<Longrightarrow>
     (\<forall>t \<in> in_take x. error (threads k t) = error (threads (krn x) t)) \<Longrightarrow>
     sem_step x (x\<lparr>krn := k\<rparr>)"

inductive sem_reachable :: "sem_sys \<Rightarrow> sem_sys \<Rightarrow> bool" for x0 where
  "sem_reachable x0 x0"
| "sem_reachable x0 x \<Longrightarrow> sem_step x x' \<Longrightarrow> sem_reachable x0 x'"

text \<open>The threads that no longer wait and whose call will return \<open>RT_EOK\<close>.\<close>

definition handed :: "sem_sys \<Rightarrow> tid set" where
  "handed x = {t \<in> in_take x. t \<notin> set (waiting x) \<and> rt_sem_take_resumed t (krn x) = RT_EOK}"

definition sem_ok :: "sem_sys \<Rightarrow> bool" where
  "sem_ok x \<longleftrightarrow> sched_inv (krn x) \<and> (0 < sem_value (sem x) \<longrightarrow> waiting x = []) \<and>
     finite (in_take x) \<and> set (waiting x) \<subseteq> in_take x \<and>
     (\<forall>t \<in> set (waiting x). error (threads (krn x) t) = RT_EOK)"

definition tokens :: "sem_sys \<Rightarrow> int" where
  "tokens x = int (unat (sem_value (sem x))) + int (granted x) + int (card (handed x)) - int (released x)"

lemma resumed_ok [simp]: "rt_sem_take_resumed t s = RT_EOK \<longleftrightarrow> error (threads s t) = RT_EOK"
  by (simp add: rt_sem_take_resumed_def)

lemma timeout_code: "- RT_ETIMEOUT \<noteq> RT_EOK"
  by (simp add: rt_err_defs)

lemma sem_okD:
  assumes "sem_ok x"
  shows "sched_inv (krn x)" "0 < sem_value (sem x) \<Longrightarrow> waiting x = []" "finite (in_take x)"
    and "set (waiting x) \<subseteq> in_take x" "t \<in> set (waiting x) \<Longrightarrow> error (threads (krn x) t) = RT_EOK"
    and "finite (handed x)"
  using assms by (auto simp: sem_ok_def handed_def)

lemma u16_pos_pred: "0 < (v :: u16) \<Longrightarrow> int (unat (v - 1)) = int (unat v) - 1"
  by (subst unat_minus_one) (auto simp: word_less_nat_alt)

lemma u16_succ: "(v :: u16) < 0xFFFF \<Longrightarrow> int (unat (v + 1)) = int (unat v) + 1"
  by (subst unat_plus_simple [THEN iffD1]) (auto simp: word_less_nat_alt word_le_nat_alt unat_word_ariths)

lemma sem_take_block:
  assumes tk: "rt_sem_take m time s = Some (m', k, Blocked)" and inv: "sched_inv s"
    and run: "status_of s (rt_current_thread s) = RT_THREAD_RUNNING"
  shows "m' = m \<and> sched_inv k \<and> \<not> 0 < sem_value m"
    and "timer_thread s \<notin> insert (rt_current_thread s) (set (suspend_lists s (sem_queue m))) \<Longrightarrow>
      set (suspend_lists k (sem_queue m)) = insert (rt_current_thread s) (set (suspend_lists s (sem_queue m))) \<and>
      (\<forall>u. error (threads k u) = (if u = rt_current_thread s then RT_EOK else error (threads s u)))"
proof -
  let ?t = "rt_current_thread s" and ?q = "sem_queue m"
  let ?u = "upd_thread ?t (\<lambda>th. th\<lparr>error := RT_EOK\<rparr>) s"
  let ?w = "ipc_list_suspend ?q ?t (sem_flag m) ?u"
  have u: "sched_inv ?u" by (rule sched_inv_upd [OF inv]) auto
  have su: "status_of ?u ?t = RT_THREAD_RUNNING" using run by (simp add: status_of_def)
  have cu: "?t = rt_current_thread ?u" by simp
  note r = sched_inv_ipc_suspend [OF u cu su, where q = ?q and fl = "sem_flag m"]
  obtain s1 where s1: "m' = m" "k = rt_schedule s1" "\<not> 0 < sem_value m"
    "s1 = ?w \<or> start_thread_timer ?t (word_of_int time) ?w = Some s1"
    using tk by (auto simp: rt_sem_take_def Let_def split: if_splits)
  then have k: "sched_inv s1" using r(1) sched_inv_start_timer by blast
  then show "m' = m \<and> sched_inv k \<and> \<not> 0 < sem_value m" using s1 sched_inv_schedule by blast
  have w: "timer_thread ?w = timer_thread s"
    "error (threads ?w v) = (if v = ?t then RT_EOK else error (threads s v))" for v
    by (auto simp: ipc_list_suspend_def Let_def rt_thread_suspend_def rt_timer_stop_def clear_flag_def
        timer_remove_def rt_schedule_remove_thread_def rt_list_remove_def upd_thread_def upd_timer_def set_status_def)
  assume tt: "timer_thread s \<notin> insert ?t (set (suspend_lists s ?q))"
  then have "timer_thread ?w \<notin> set (suspend_lists ?w ?q)" using r(4) w(1) by simp
  then have "suspend_lists s1 ?q = suspend_lists ?w ?q" "error (threads s1 v) = error (threads ?w v)" for v
    using s1(4) start_timer_frame [OF r(1), of ?t "word_of_int time" s1 ?q] by auto
  then show "set (suspend_lists k ?q) = insert ?t (set (suspend_lists s ?q)) \<and>
      (\<forall>u. error (threads k u) = (if u = ?t then RT_EOK else error (threads s u)))"
    using r(4) s1(2) schedule_suspend_lists [OF k] w(2) by simp
qed

lemma sem_step_ok:
  assumes "sem_step x x'" "sem_ok x"
  shows "sem_ok x' \<and> tokens x' = tokens x"
  using assms(1)
proof cases
  case (take_now time m k r)
  then show ?thesis
    using assms(2) u16_pos_pred [of "sem_value (sem x)"]
    by (auto simp: rt_sem_take_def Let_def sem_ok_def tokens_def handed_def rt_err_defs split: if_splits)
next
  case (take_block time m k)
  let ?t = "rt_current_thread (krn x)"
  note ok = sem_okD [OF assms(2)]
  have tt: "timer_thread (krn x) \<notin> insert ?t (set (waiting x))" using take_block(5) ok(4) by auto
  note b = sem_take_block(1) [OF take_block(2) ok(1) take_block(3)]
    sem_take_block(2) [OF take_block(2) ok(1) take_block(3) tt]
  have "handed x' = handed x"
    using b take_block(1,4) by (auto simp: handed_def)
  then show ?thesis
    using b ok take_block(1) by (auto simp: sem_ok_def tokens_def)
next
  case (finish t)
  note ok = sem_okD [OF assms(2)]
  have t: "t \<notin> set (waiting x)"
    using not_waiting [OF sched_invD(2) [OF ok(1)], of t] finish(4) by simp
  show ?thesis
  proof (cases "error (threads (krn x) t) = RT_EOK")
    case True
    then have "t \<in> handed x" "handed x' = handed x - {t}" using t finish by (auto simp: handed_def)
    then have "card (handed x) = Suc (card (handed x'))" using ok(6) by (metis card.remove)
    then show ?thesis using assms(2) finish(1) t True by (auto simp: sem_ok_def tokens_def)
  next
    case False
    then have "handed x' = handed x" using finish by (auto simp: handed_def)
    then show ?thesis using assms(2) finish(1) t False by (auto simp: sem_ok_def tokens_def)
  qed
next
  case (release m k r)
  let ?q = "sem_queue (sem x)"
  note ok = sem_okD [OF assms(2)]
  show ?thesis
  proof (cases "waiting x")
    case Nil
    then show ?thesis
      using release assms(2) u16_succ [of "sem_value (sem x)"]
      by (auto simp: rt_sem_release_def sem_ok_def tokens_def handed_def rt_err_defs split: if_splits)
  next
    case (Cons t ts)
    note f = ipc_resume_facts [OF ok(1) Cons]
    have z: "\<not> 0 < sem_value (sem x)" using ok(2) Cons by auto
    have x': "x' = x\<lparr>krn := rt_schedule (ipc_list_resume ?q (krn x)), released := Suc (released x)\<rparr>"
      using release Cons by (cases x) (auto simp: rt_sem_release_def)
    have w: "waiting x' = ts" "error (threads (krn x') u) = error (threads (krn x) u)" for u
      using f(2,5) schedule_suspend_lists [OF f(1)] by (simp_all add: x')
    have d: "t \<notin> set ts" using sched_invD(2) [OF ok(1)] Cons unfolding waits_ok_def by (metis distinct.simps(2))
    have t: "t \<in> in_take x" "error (threads (krn x) t) = RT_EOK" "t \<notin> handed x"
      using ok(4,5) Cons by (auto simp: handed_def)
    have "handed x' = insert t (handed x)"
      using w d t Cons unfolding handed_def by (auto simp: x')
    then have "card (handed x') = Suc (card (handed x))" using t(3) ok(6) by simp
    moreover have "sem_ok x'"
      unfolding sem_ok_def w using ok Cons z sched_inv_schedule [OF f(1)] by (auto simp: x')
    ultimately show ?thesis by (simp add: tokens_def x')
  qed
next
  case (expire t k)
  note ok = sem_okD [OF assms(2)]
  have z: "\<not> 0 < sem_value (sem x)" using ok(2) expire(2) by auto
  note f = timeout_frame [OF ok(1) expire(3)]
  have "handed x' = handed x"
    using f ok(5) [of t] expire(1,2) timeout_code by (auto simp: handed_def)
  moreover have "sem_ok x'"
    using f ok z expire sched_inv_timeout by (auto simp: sem_ok_def)
  ultimately show ?thesis using expire(1) by (simp add: tokens_def)
next
  case (other k)
  have "handed x' = handed x" using other by (auto simp: handed_def)
  moreover have "sem_ok x'" using other assms(2) sched_inv_step by (auto simp: sem_ok_def subset_iff)
  ultimately show ?thesis using other(1) by (simp add: tokens_def)
qed

lemma sem_reachable_ok: "sem_reachable x0 x \<Longrightarrow> sem_ok x0 \<Longrightarrow> sem_ok x \<and> tokens x = tokens x0"
  by (induction rule: sem_reachable.induct) (auto dest: sem_step_ok)

text \<open>
  C11: no token is lost or made up, whatever the order of takes, releases, timeouts and
  schedulings: the value of the semaphore, the takes that have returned \<open>RT_EOK\<close>, and the
  threads that have left the list and will return \<open>RT_EOK\<close> when they run, always add up to the
  initial value and the releases accepted; and as long as the value is positive nobody waits.
\<close>

theorem semaphore_conserves_tokens:
  assumes "rt_sem_init q v fl = Some m" "sched_inv k" "suspend_lists k q = []"
    and "sem_reachable \<lparr>sem = m, krn = k, in_take = {}, granted = 0, released = 0\<rparr> x"
  shows "unat (sem_value (sem x)) + granted x +
      card {t \<in> in_take x. t \<notin> set (suspend_lists (krn x) (sem_queue (sem x))) \<and>
        rt_sem_take_resumed t (krn x) = RT_EOK} = unat v + released x \<and>
    (0 < sem_value (sem x) \<longrightarrow> suspend_lists (krn x) (sem_queue (sem x)) = [])"
proof -
  let ?x0 = "\<lparr>sem = m, krn = k, in_take = {}, granted = 0, released = 0\<rparr>"
  have v: "unat v < 65536" using assms(1) by (auto simp: rt_sem_init_def word_less_nat_alt split: if_splits)
  then have m: "unat (sem_value m) = unat v" "sem_queue m = q"
    using assms(1) by (auto simp: rt_sem_init_def unsigned_ucast_eq take_bit_nat_eq_self split: if_splits)
  have "sem_ok ?x0" using assms(2,3) m(2) by (simp add: sem_ok_def)
  then have x: "sem_ok x" "tokens x = tokens ?x0" using sem_reachable_ok [OF assms(4)] by auto
  have "int (unat (sem_value (sem x))) + int (granted x) + int (card (handed x)) - int (released x) = int (unat v)"
    using x(2) m(1) unfolding tokens_def by (simp add: handed_def del: of_nat_unat)
  then have "unat (sem_value (sem x)) + granted x + card (handed x) = unat v + released x" by linarith
  then show ?thesis using sem_okD(2) [OF x(1)] unfolding handed_def by blast
qed

text \<open>Three calls: the take of the only token, a take that blocks, the release that hands it over.\<close>

theorem semaphore_conserves_tokens_witness:
  "\<exists>m k k'. rt_sem_init 7 1 RT_IPC_FLAG_FIFO = Some m \<and>
     (let m1 = m\<lparr>sem_value := 0\<rparr> in
      rt_sem_take m 0 demo_kernel = Some (m1, demo_kernel, Return RT_EOK) \<and>
      rt_sem_take m1 (-1) demo_kernel = Some (m1, k, Blocked) \<and> rt_current_thread k = 3 \<and>
      suspend_lists k 7 = [2] \<and> rt_sem_release m1 k = (m1, k', RT_EOK) \<and>
      0 + 1 + card {t \<in> {2}. t \<notin> set (suspend_lists k' 7) \<and> rt_sem_take_resumed t k' = RT_EOK} = (1 + 1 :: nat))"
proof -
  let ?m = "\<lparr>sem_value = 1, sem_flag = RT_IPC_FLAG_FIFO, sem_queue = 7\<rparr>"
  let ?m1 = "\<lparr>sem_value = 0, sem_flag = RT_IPC_FLAG_FIFO, sem_queue = 7\<rparr>"
  let ?k = "rt_schedule (ipc_list_suspend 7 2 RT_IPC_FLAG_FIFO
              (upd_thread 2 (\<lambda>th. th\<lparr>error := RT_EOK\<rparr>) demo_kernel))"
  let ?k' = "rt_schedule (ipc_list_resume 7 ?k)"
  let ?x0 = "\<lparr>sem = ?m, krn = demo_kernel, in_take = {}, granted = 0, released = 0\<rparr>"
  let ?x1 = "\<lparr>sem = ?m1, krn = demo_kernel, in_take = {}, granted = 1, released = 0\<rparr>"
  let ?x2 = "\<lparr>sem = ?m1, krn = ?k, in_take = {2}, granted = 1, released = 0\<rparr>"
  let ?x3 = "\<lparr>sem = ?m1, krn = ?k', in_take = {2}, granted = 1, released = 1\<rparr>"
  have i: "rt_sem_init 7 1 RT_IPC_FLAG_FIFO = Some ?m" by code_simp
  have t1: "rt_sem_take ?m 0 demo_kernel = Some (?m1, demo_kernel, Return RT_EOK)"
    by (simp add: rt_sem_take_def)
  have c: "rt_current_thread demo_kernel = 2" "status_of demo_kernel 2 = RT_THREAD_RUNNING"
    "timer_thread demo_kernel = 1" by code_simp+
  have t2: "rt_sem_take ?m1 (-1) demo_kernel = Some (?m1, ?k, Blocked)"
    by (simp add: rt_sem_take_def Let_def c)
  have l: "suspend_lists ?k 7 = [2]" by code_simp
  have t3: "rt_sem_release ?m1 ?k = (?m1, ?k', RT_EOK)"
    using l by (simp add: rt_sem_release_def)
  have "sem_reachable ?x0 ?x1"
    using sem_reachable.intros(2) [OF sem_reachable.intros(1) sem_step.take_now [of ?x0 0]] t1 by simp
  from sem_reachable.intros(2) [OF this sem_step.take_block [where time = "-1"]]
  have "sem_reachable ?x0 ?x2"
    using t2 c by simp
  from sem_reachable.intros(2) [OF this sem_step.release] t3
  have "sem_reachable ?x0 ?x3" by simp
  moreover have "suspend_lists demo_kernel 7 = []" by code_simp
  ultimately have "unat (0 :: u16) + 1 + card {t \<in> {2}. t \<notin> set (suspend_lists ?k' 7) \<and>
      rt_sem_take_resumed t ?k' = RT_EOK} = unat (1 :: u32) + 1"
    using semaphore_conserves_tokens [OF i reachable_inv [OF demo_reachable], of ?x3] by simp
  moreover have "rt_current_thread ?k = 3" by code_simp
  ultimately show ?thesis using i t1 t2 t3 l
    by (intro exI [of _ ?m] exI [of _ ?k] exI [of _ ?k']) (simp add: Let_def del: resumed_ok)
qed

text \<open>
  A release with waiting threads hands its token to the first of them: the value stays
  as it is, the thread leaves the list and becomes ready without an error, and it is
  scheduled if it is the most urgent; without waiting threads the release counts, up to 65535.
\<close>

theorem semaphore_release_wakes_first:
  assumes "sched_inv s" "suspend_lists s (sem_queue m) = t # ts"
    and "t \<noteq> rt_current_thread s" "rt_scheduler_lock_nest s = 0"
    and "rt_sem_release m s = (m', s', r)"
  shows "m' = m \<and> r = RT_EOK \<and> suspend_lists s' (sem_queue m) = ts \<and>
    rt_sem_take_resumed t s' = (if error (threads s t) = RT_EOK then RT_EOK else error (threads s t)) \<and>
    (rt_current_thread s' = t \<or> is_ready s' t \<and> prio_of s' (rt_current_thread s') \<le> prio_of s' t)"
proof -
  note inv = assms(1)
  let ?k = "ipc_list_resume (sem_queue m) s"
  note f = ipc_resume_facts [OF inv assms(2)]
  have e: "m' = m" "r = RT_EOK" "s' = rt_schedule ?k"
    using assms(2,5) by (auto simp: rt_sem_release_def)
  have lock: "rt_scheduler_lock_nest ?k = 0"
    using assms(4) by (simp add: ipc_list_resume_def resume_sel)
  have rt: "is_ready ?k t" using f(4) assms(3) sched_invD(3) [OF f(1)] by simp
  have "rt_current_thread s' = t \<or> is_ready s' t"
  proof -
    have "is_ready (rt_schedule ?k) t \<or> rt_current_thread (rt_schedule ?k) = t"
      using ready_after_schedule [OF f(1) rt] .
    then show ?thesis using e by auto
  qed
  then show ?thesis
    using e f schedule_best [OF f(1) lock, of t] schedule_suspend_lists [OF f(1)]
    by (auto simp: rt_sem_take_resumed_def)
qed

theorem semaphore_release_wakes_first_witness:
  "let m = \<lparr>sem_value = 0, sem_flag = RT_IPC_FLAG_FIFO, sem_queue = 7\<rparr>;
       s = fst (snd (the (rt_sem_take m (-1) demo_kernel)));
       s' = fst (snd (rt_sem_release m s))
   in suspend_lists s 7 = [2] \<and> suspend_lists s' 7 = [] \<and> rt_current_thread s' = 3 \<and> is_ready s' 2"
proof -
  let ?m = "\<lparr>sem_value = 0, sem_flag = RT_IPC_FLAG_FIFO, sem_queue = 7\<rparr>"
  let ?s = "rt_schedule (ipc_list_suspend 7 2 RT_IPC_FLAG_FIFO
              (upd_thread 2 (\<lambda>th. th\<lparr>error := RT_EOK\<rparr>) demo_kernel))"
  have c: "rt_current_thread demo_kernel = 2" "status_of demo_kernel 2 = RT_THREAD_RUNNING" by code_simp+
  have t: "rt_sem_take ?m (-1) demo_kernel = Some (?m, ?s, Blocked)"
    by (simp add: rt_sem_take_def Let_def c)
  have inv: "sched_inv ?s"
    using sem_take_block [OF t reachable_inv [OF demo_reachable]] c by simp
  have s: "suspend_lists ?s 7 = [2]" "rt_current_thread ?s = 3" "rt_scheduler_lock_nest ?s = 0"
    by code_simp+
  obtain m' s' r where r: "rt_sem_release ?m ?s = (m', s', r)" by (rule prod_cases3)
  have "rt_current_thread (fst (snd (rt_sem_release ?m ?s))) = 3" by code_simp
  then have "rt_current_thread s' = 3" using r by simp
  then show ?thesis
    using semaphore_release_wakes_first [OF inv _ _ _ r, of 2 "[]"] s t r by (simp add: Let_def)
qed

section \<open>Waking all waiters\<close>

text \<open>
  The states of the kernel together with the suspend lists of all its objects: the calls of
  \<open>kernel_step\<close>, blocking on an object, waking its first waiter or all of them, and the error
  codes that the calls store in threads.
\<close>

inductive ipc_reachable :: "kernel \<Rightarrow> bool" where
  "ipc_reachable boot_kernel"
| "ipc_reachable s \<Longrightarrow> kernel_step s s' \<Longrightarrow> ipc_reachable s'"
| "ipc_reachable s \<Longrightarrow> status_of s (rt_current_thread s) = RT_THREAD_RUNNING \<Longrightarrow>
   ipc_reachable (ipc_list_suspend q (rt_current_thread s) fl s)"
| "ipc_reachable s \<Longrightarrow> suspend_lists s q \<noteq> [] \<Longrightarrow> ipc_reachable (ipc_list_resume q s)"
| "ipc_reachable s \<Longrightarrow> ipc_reachable (ipc_list_resume_all q s)"
| "ipc_reachable s \<Longrightarrow> ipc_reachable (upd_thread t (\<lambda>th. th\<lparr>error := e\<rparr>) s)"

lemma ipc_reachable_inv: "ipc_reachable s \<Longrightarrow> sched_inv s"
proof (induction rule: ipc_reachable.induct)
  case 1
  then show ?case by (rule sched_inv_boot)
next
  case (2 s s')
  then show ?case using sched_inv_step by blast
next
  case (3 s q fl)
  then show ?case using sched_inv_ipc_suspend(1) by blast
next
  case (4 s q)
  then show ?case by (simp add: ipc_list_resume_def sched_inv_resume)
next
  case (5 s q)
  then show ?case using resume_all_inv by blast
next
  case (6 s t e)
  then show ?case by (intro sched_inv_upd) auto
qed

lemma kernel_ipc_reachable: "kernel_reachable s \<Longrightarrow> ipc_reachable s"
  by (induction rule: kernel_reachable.induct) (auto intro: ipc_reachable.intros)

text \<open>
  C23: waking all waiters ends: from every state that threads, interrupts and the objects they
  block on can reach, the loop that wakes the threads of a suspend list (when an object is
  detached or reset) comes to its end, leaves the list empty, every thread that waited is ready
  (or running, if it had just been suspended) with the error code \<open>-RT_ERROR\<close>, and no other
  thread is touched.
\<close>

theorem resume_all_terminates:
  assumes "ipc_reachable s"
  shows "\<exists>s'. while_option (\<lambda>s. suspend_lists s q \<noteq> []) (resume_with_error q) s = Some s' \<and>
     ipc_list_resume_all q s = s' \<and> suspend_lists s' q = [] \<and>
     (\<forall>t. (error (threads s' t), status_of s' t) =
        (if t \<in> set (suspend_lists s q)
         then (- RT_ERROR, if t = rt_current_thread s then RT_THREAD_RUNNING else RT_THREAD_READY)
         else (error (threads s t), status_of s t)))"
  by (rule resume_all_run [OF ipc_reachable_inv [OF assms]])

text \<open>Two threads wait for the object 7 when all its waiters are woken.\<close>

theorem resume_all_terminates_witness:
  "let s1 = rt_schedule (ipc_list_suspend 7 2 RT_IPC_FLAG_FIFO demo_kernel);
       s2 = rt_schedule (ipc_list_suspend 7 3 RT_IPC_FLAG_FIFO s1);
       s' = ipc_list_resume_all 7 s2
   in suspend_lists s2 7 = [2, 3] \<and> suspend_lists s' 7 = [] \<and>
      status_of s' 2 = RT_THREAD_READY \<and> error (threads s' 3) = - RT_ERROR"
proof -
  let ?s1 = "rt_schedule (ipc_list_suspend 7 2 RT_IPC_FLAG_FIFO demo_kernel)"
  let ?s2 = "rt_schedule (ipc_list_suspend 7 3 RT_IPC_FLAG_FIFO ?s1)"
  have c: "rt_current_thread demo_kernel = 2" "status_of demo_kernel 2 = RT_THREAD_RUNNING"
    "rt_current_thread ?s1 = 3" "status_of ?s1 3 = RT_THREAD_RUNNING"
    "suspend_lists ?s2 7 = [2, 3]" "rt_current_thread ?s2 \<noteq> 2" by code_simp+
  have "ipc_reachable ?s1"
    using ipc_reachable.intros(2) [OF ipc_reachable.intros(3) kernel_step.intros(1)]
      kernel_ipc_reachable [OF demo_reachable] c(1,2) by metis
  then have "ipc_reachable ?s2"
    using ipc_reachable.intros(2) [OF ipc_reachable.intros(3) kernel_step.intros(1)] c(3,4) by metis
  then obtain s' where s': "ipc_list_resume_all 7 ?s2 = s'" "suspend_lists s' 7 = []"
    "\<forall>t. (error (threads s' t), status_of s' t) =
      (if t \<in> set (suspend_lists ?s2 7)
       then (- RT_ERROR, if t = rt_current_thread ?s2 then RT_THREAD_RUNNING else RT_THREAD_READY)
       else (error (threads ?s2 t), status_of ?s2 t))"
    using resume_all_terminates [of ?s2 7] by blast
  have "status_of s' 2 = RT_THREAD_READY" "error (threads s' 3) = - RT_ERROR"
    using s'(3) [rule_format, of 2] s'(3) [rule_format, of 3] c(5,6) by (simp_all split: if_splits)
  then show ?thesis unfolding Let_def s'(1) using s'(2) c(5) by simp
qed

end
