(* ===== verification/Fifo.thy ===== *)
theory Fifo
  imports Prelude
begin

text \<open>
  The contract of a bounded first-in-first-out buffer, as the clients of the message queue
  and of the ring buffer rely on it. \<open>holds q xs\<close>: the buffer is well formed and contains
  \<open>xs\<close>, oldest first; \<open>fits q x\<close>: the buffer can store \<open>x\<close>.
\<close>

datatype 'a fifo_op = Put 'a | Get

datatype 'a fifo_reply = Accepted | Refused | Got 'a | Nothing

text \<open>The specification: a list with a bound on its length.\<close>

fun spec_step :: "nat \<Rightarrow> 'a fifo_op \<Rightarrow> 'a list \<Rightarrow> 'a fifo_reply \<times> 'a list" where
  "spec_step n (Put x) xs = (if length xs < n then (Accepted, xs @ [x]) else (Refused, xs))"
| "spec_step n Get [] = (Nothing, [])"
| "spec_step n Get (x # xs) = (Got x, xs)"

fun spec_run :: "nat \<Rightarrow> 'a fifo_op list \<Rightarrow> 'a list \<Rightarrow> 'a fifo_reply list \<times> 'a list" where
  "spec_run n [] xs = ([], xs)"
| "spec_run n (a # as) xs =
     (let (r, xs) = spec_step n a xs; (rs, xs) = spec_run n as xs in (r # rs, xs))"

text \<open>An implementation, given by its two operations.\<close>

fun impl_step ::
    "('a \<Rightarrow> 'q \<Rightarrow> 'q option) \<Rightarrow> ('q \<Rightarrow> ('a \<times> 'q) option) \<Rightarrow> 'a fifo_op \<Rightarrow> 'q \<Rightarrow> 'a fifo_reply \<times> 'q" where
  "impl_step enq deq (Put x) q = (case enq x q of None \<Rightarrow> (Refused, q) | Some q \<Rightarrow> (Accepted, q))"
| "impl_step enq deq Get q = (case deq q of None \<Rightarrow> (Nothing, q) | Some (x, q) \<Rightarrow> (Got x, q))"

fun impl_run ::
    "('a \<Rightarrow> 'q \<Rightarrow> 'q option) \<Rightarrow> ('q \<Rightarrow> ('a \<times> 'q) option) \<Rightarrow> 'a fifo_op list \<Rightarrow> 'q \<Rightarrow>
     'a fifo_reply list \<times> 'q" where
  "impl_run enq deq [] q = ([], q)"
| "impl_run enq deq (a # as) q =
     (let (r, q) = impl_step enq deq a q; (rs, q) = impl_run enq deq as q in (r # rs, q))"

locale bounded_fifo =
  fixes holds :: "'q \<Rightarrow> 'a list \<Rightarrow> bool"
    and fits :: "'q \<Rightarrow> 'a \<Rightarrow> bool"
    and cap :: "'q \<Rightarrow> nat"
    and enq :: "'a \<Rightarrow> 'q \<Rightarrow> 'q option"
    and deq :: "'q \<Rightarrow> ('a \<times> 'q) option"
  assumes enq_room: "holds q xs \<Longrightarrow> fits q x \<Longrightarrow> length xs < cap q \<Longrightarrow>
      \<exists>q'. enq x q = Some q' \<and> holds q' (xs @ [x]) \<and> cap q' = cap q \<and> fits q' = fits q"
    and enq_full: "holds q xs \<Longrightarrow> length xs = cap q \<Longrightarrow> enq x q = None"
    and deq_some: "holds q (x # xs) \<Longrightarrow>
      \<exists>q'. deq q = Some (x, q') \<and> holds q' xs \<and> cap q' = cap q \<and> fits q' = fits q"
    and deq_none: "holds q [] \<Longrightarrow> deq q = None"
    and bound: "holds q xs \<Longrightarrow> length xs \<le> cap q"
begin

lemma step_refines:
  assumes h: "holds q xs" and ok: "\<And>x. a = Put x \<Longrightarrow> fits q x"
  shows "\<exists>q'. impl_step enq deq a q = (fst (spec_step (cap q) a xs), q') \<and>
    holds q' (snd (spec_step (cap q) a xs)) \<and> cap q' = cap q \<and> fits q' = fits q"
proof (cases a)
  case (Put x)
  show ?thesis
  proof (cases "length xs < cap q")
    case True
    then show ?thesis using enq_room [OF h ok [OF Put] True] Put by auto
  next
    case False
    then have "length xs = cap q" using bound [OF h] by simp
    then show ?thesis using enq_full [OF h] Put h by simp
  qed
next
  case Get
  show ?thesis
  proof (cases xs)
    case Nil
    then show ?thesis using deq_none h Get by simp
  next
    case (Cons x ys)
    then show ?thesis using deq_some [OF h [unfolded Cons]] Get by auto
  qed
qed

lemma run_refines:
  "holds q xs \<Longrightarrow> \<forall>x. Put x \<in> set as \<longrightarrow> fits q x \<Longrightarrow>
   \<exists>q'. impl_run enq deq as q = (fst (spec_run (cap q) as xs), q') \<and>
     holds q' (snd (spec_run (cap q) as xs))"
proof (induction as arbitrary: q xs)
  case (Cons a as)
  obtain r ys where sp: "spec_step (cap q) a xs = (r, ys)" by (rule prod.exhaust)
  obtain q1 where 1: "impl_step enq deq a q = (r, q1)" "holds q1 ys" "cap q1 = cap q" "fits q1 = fits q"
    using step_refines [OF Cons.prems(1), of a] Cons.prems(2) sp by auto
  then show ?case
    using Cons.IH [of q1 ys] Cons.prems(2) sp by (auto simp: Let_def split: prod.splits)
qed simp

end


text \<open>The contract with a second way in, at the front: urgent messages.\<close>

datatype 'a deque_op = Fifo "'a fifo_op" | Push 'a

fun dspec_step :: "nat \<Rightarrow> 'a deque_op \<Rightarrow> 'a list \<Rightarrow> 'a fifo_reply \<times> 'a list" where
  "dspec_step n (Fifo a) xs = spec_step n a xs"
| "dspec_step n (Push x) xs = (if length xs < n then (Accepted, x # xs) else (Refused, xs))"

fun dspec_run :: "nat \<Rightarrow> 'a deque_op list \<Rightarrow> 'a list \<Rightarrow> 'a fifo_reply list \<times> 'a list" where
  "dspec_run n [] xs = ([], xs)"
| "dspec_run n (a # as) xs =
     (let (r, xs) = dspec_step n a xs; (rs, xs) = dspec_run n as xs in (r # rs, xs))"

fun dimpl_step ::
    "('a \<Rightarrow> 'q \<Rightarrow> 'q option) \<Rightarrow> ('q \<Rightarrow> ('a \<times> 'q) option) \<Rightarrow> ('a \<Rightarrow> 'q \<Rightarrow> 'q option) \<Rightarrow> 'a deque_op \<Rightarrow> 'q \<Rightarrow>
     'a fifo_reply \<times> 'q" where
  "dimpl_step enq deq push (Fifo a) q = impl_step enq deq a q"
| "dimpl_step enq deq push (Push x) q = (case push x q of None \<Rightarrow> (Refused, q) | Some q \<Rightarrow> (Accepted, q))"

fun dimpl_run ::
    "('a \<Rightarrow> 'q \<Rightarrow> 'q option) \<Rightarrow> ('q \<Rightarrow> ('a \<times> 'q) option) \<Rightarrow> ('a \<Rightarrow> 'q \<Rightarrow> 'q option) \<Rightarrow> 'a deque_op list \<Rightarrow> 'q \<Rightarrow>
     'a fifo_reply list \<times> 'q" where
  "dimpl_run enq deq push [] q = ([], q)"
| "dimpl_run enq deq push (a # as) q =
     (let (r, q) = dimpl_step enq deq push a q; (rs, q) = dimpl_run enq deq push as q in (r # rs, q))"

text \<open>What an operation stores.\<close>

fun stores :: "'a deque_op \<Rightarrow> 'a option" where
  "stores (Fifo (Put x)) = Some x"
| "stores (Fifo Get) = None"
| "stores (Push x) = Some x"

locale bounded_deque = bounded_fifo +
  fixes push :: "'b \<Rightarrow> 'a \<Rightarrow> 'a option"
  assumes push_room: "holds q xs \<Longrightarrow> fits q x \<Longrightarrow> length xs < cap q \<Longrightarrow>
      \<exists>q'. push x q = Some q' \<and> holds q' (x # xs) \<and> cap q' = cap q \<and> fits q' = fits q"
    and push_full: "holds q xs \<Longrightarrow> length xs = cap q \<Longrightarrow> push x q = None"
begin

lemma deque_step_refines:
  assumes h: "holds q xs" and ok: "\<And>x. stores a = Some x \<Longrightarrow> fits q x"
  shows "\<exists>q'. dimpl_step enq deq push a q = (fst (dspec_step (cap q) a xs), q') \<and>
    holds q' (snd (dspec_step (cap q) a xs)) \<and> cap q' = cap q \<and> fits q' = fits q"
proof (cases a)
  case (Fifo b)
  then show ?thesis using step_refines [OF h, of b] ok by auto
next
  case (Push x)
  show ?thesis
  proof (cases "length xs < cap q")
    case True
    then show ?thesis using push_room [OF h _ True, of x] ok Push by auto
  next
    case False
    then have "length xs = cap q" using bound [OF h] by simp
    then show ?thesis using push_full [OF h] Push h by simp
  qed
qed

lemma deque_run_refines:
  "holds q xs \<Longrightarrow> \<forall>a \<in> set as. \<forall>x. stores a = Some x \<longrightarrow> fits q x \<Longrightarrow>
   \<exists>q'. dimpl_run enq deq push as q = (fst (dspec_run (cap q) as xs), q') \<and>
     holds q' (snd (dspec_run (cap q) as xs))"
proof (induction as arbitrary: q xs)
  case (Cons a as)
  obtain r ys where sp: "dspec_step (cap q) a xs = (r, ys)" by (rule prod.exhaust)
  obtain q1 where 1: "dimpl_step enq deq push a q = (r, q1)" "holds q1 ys" "cap q1 = cap q" "fits q1 = fits q"
    using deque_step_refines [OF Cons.prems(1), of a] Cons.prems(2) sp by auto
  then show ?case
    using Cons.IH [of q1 ys] Cons.prems(2) sp by (auto simp: Let_def split: prod.splits)
qed simp

end

end
