(* ===== verification/Mq.thy ===== *)
theory Mq
  imports Ipc Fifo
begin

text \<open>
  The message queue of \<open>src/rt-thread/src/ipc.c\<close>. The pool is an array of slots, each a
  link and the bytes of a message; the queue and the free slots are linked lists through the
  pool. Sending takes a slot off the free list, fills it with interrupts enabled, and links
  it at the end; receiving unlinks the first slot, copies it with interrupts enabled, and
  gives it back. Each of these steps is a definition, so that the steps of several threads
  can be interleaved.
\<close>

section \<open>State and steps\<close>

record rt_mq =
  mq_next :: "nat \<Rightarrow> nat option"
  mq_data :: "nat \<Rightarrow> buf"
  msg_size :: u16
  max_msgs :: u16
  entry :: u16
  msg_queue_head :: "nat option"
  msg_queue_tail :: "nat option"
  msg_queue_free :: "nat option"
  mq_flag :: ipc_flag
  mq_receivers :: nat
  mq_senders :: nat

definition RT_ALIGN :: "u32 \<Rightarrow> u32" where
  "RT_ALIGN sz = (sz + 3) AND NOT 3"

definition mq_link_free :: "nat \<Rightarrow> (nat \<Rightarrow> nat option) \<times> nat option" where
  "mq_link_free n = fold (\<lambda>i (nx, fr). (nx(i := fr), Some i)) [0..<n] (\<lambda>_. None, None)"

text \<open>\<open>rq\<close> and \<open>sq\<close> name the two suspend lists; \<open>pool\<close> is what the allocation returns.\<close>

definition rt_mq_create ::
    "u32 \<Rightarrow> u32 \<Rightarrow> ipc_flag \<Rightarrow> nat \<Rightarrow> nat \<Rightarrow> (nat \<Rightarrow> buf) option \<Rightarrow> rt_mq option" where
  "rt_mq_create sz msgs fl rq sq pool =
     (case pool of
        None \<Rightarrow> None
      | Some mem \<Rightarrow>
          let (nx, fr) = mq_link_free (unat (ucast msgs :: u16))
          in Some \<lparr>mq_next = nx, mq_data = mem, msg_size = ucast (RT_ALIGN sz),
                   max_msgs = ucast msgs, entry = 0, msg_queue_head = None, msg_queue_tail = None,
                   msg_queue_free = fr, mq_flag = fl, mq_receivers = rq, mq_senders = sq\<rparr>)"

text \<open>
  \<open>rt_mq_init\<close> on a pool of \<open>pool_size\<close> bytes, \<open>mem\<close> by slots; a slot begins with a pointer of
  four bytes.
\<close>

definition rt_mq_init :: "u32 \<Rightarrow> u32 \<Rightarrow> ipc_flag \<Rightarrow> nat \<Rightarrow> nat \<Rightarrow> (nat \<Rightarrow> buf) \<Rightarrow> rt_mq" where
  "rt_mq_init sz pool_size fl rq sq mem =
     (let size = ucast (RT_ALIGN sz) :: u16;
          msgs = ucast (pool_size div (ucast size + 4)) :: u16;
          (nx, fr) = mq_link_free (unat msgs)
      in \<lparr>mq_next = nx, mq_data = mem, msg_size = size, max_msgs = msgs, entry = 0,
           msg_queue_head = None, msg_queue_tail = None, msg_queue_free = fr, mq_flag = fl,
           mq_receivers = rq, mq_senders = sq\<rparr>)"

definition mq_take_free :: "rt_mq \<Rightarrow> (nat \<times> rt_mq) option" where
  "mq_take_free mq =
     (case msg_queue_free mq of
        None \<Rightarrow> None
      | Some i \<Rightarrow> Some (i, mq\<lparr>msg_queue_free := mq_next mq i\<rparr>))"

definition mq_fill :: "nat \<Rightarrow> buf \<Rightarrow> rt_mq \<Rightarrow> rt_mq" where
  "mq_fill i xs mq =
     mq\<lparr>mq_next := (mq_next mq)(i := None), mq_data := (mq_data mq)(i := overlay (mq_data mq i) 0 xs)\<rparr>"

definition mq_fill_urgent :: "nat \<Rightarrow> buf \<Rightarrow> rt_mq \<Rightarrow> rt_mq" where
  "mq_fill_urgent i xs mq = mq\<lparr>mq_data := (mq_data mq)(i := overlay (mq_data mq i) 0 xs)\<rparr>"

definition mq_count :: "rt_mq \<Rightarrow> rt_mq \<times> int" where
  "mq_count mq = (if entry mq < 0xFFFF then (mq\<lparr>entry := entry mq + 1\<rparr>, RT_EOK) else (mq, - RT_EFULL))"

definition mq_link_tail :: "nat \<Rightarrow> rt_mq \<Rightarrow> rt_mq \<times> int" where
  "mq_link_tail i mq =
     (let mq = (case msg_queue_tail mq of
                  None \<Rightarrow> mq | Some j \<Rightarrow> mq\<lparr>mq_next := (mq_next mq)(j := Some i)\<rparr>);
          mq = mq\<lparr>msg_queue_tail := Some i\<rparr>;
          mq = (if msg_queue_head mq = None then mq\<lparr>msg_queue_head := Some i\<rparr> else mq)
      in mq_count mq)"

definition mq_link_head :: "nat \<Rightarrow> rt_mq \<Rightarrow> rt_mq \<times> int" where
  "mq_link_head i mq =
     (let mq = mq\<lparr>mq_next := (mq_next mq)(i := msg_queue_head mq), msg_queue_head := Some i\<rparr>;
          mq = (if msg_queue_tail mq = None then mq\<lparr>msg_queue_tail := Some i\<rparr> else mq)
      in mq_count mq)"

definition mq_unlink :: "rt_mq \<Rightarrow> (nat \<times> rt_mq) option" where
  "mq_unlink mq =
     (case msg_queue_head mq of
        None \<Rightarrow> None
      | Some i \<Rightarrow>
          let mq = mq\<lparr>msg_queue_head := mq_next mq i\<rparr>;
              mq = (if msg_queue_tail mq = Some i then mq\<lparr>msg_queue_tail := None\<rparr> else mq)
          in Some (i, if 0 < entry mq then mq\<lparr>entry := entry mq - 1\<rparr> else mq))"

definition mq_read :: "nat \<Rightarrow> nat \<Rightarrow> rt_mq \<Rightarrow> buf" where
  "mq_read i sz mq = take (min sz (unat (msg_size mq))) (mq_data mq i)"

definition mq_give_back :: "nat \<Rightarrow> rt_mq \<Rightarrow> rt_mq" where
  "mq_give_back i mq = mq\<lparr>mq_next := (mq_next mq)(i := msg_queue_free mq), msg_queue_free := Some i\<rparr>"

section \<open>Operations\<close>

definition wake_first :: "nat \<Rightarrow> kernel \<Rightarrow> kernel" where
  "wake_first q s = (if suspend_lists s q \<noteq> [] then rt_schedule (ipc_list_resume q s) else s)"

definition wait_for :: "nat \<Rightarrow> ipc_flag \<Rightarrow> int \<Rightarrow> kernel \<Rightarrow> kernel option" where
  "wait_for q fl timeout s =
     (let t = rt_current_thread s;
          s = ipc_list_suspend q t fl s
      in map_option rt_schedule
           (if 0 < timeout then start_thread_timer t (word_of_int timeout) s else Some s))"

text \<open>The time left of a timeout of \<open>timeout\<close> ticks that started at tick \<open>start\<close>.\<close>

definition time_left :: "int \<Rightarrow> u32 \<Rightarrow> kernel \<Rightarrow> int" where
  "time_left timeout start s =
     (if 0 < timeout
      then let r = sint (word_of_int timeout - (rt_tick s - start) :: u32) in if r < 0 then 0 else r
      else timeout)"

text \<open>
  \<open>rt_mq_send_wait\<close> from the test of the loop on; a blocked call goes on with the same
  test in \<open>rt_mq_send_resumed\<close>. \<open>None\<close>: an assertion fails.
\<close>

definition rt_mq_send_loop ::
    "rt_mq \<Rightarrow> buf \<Rightarrow> int \<Rightarrow> kernel \<Rightarrow> (rt_mq \<times> kernel \<times> int outcome) option" where
  "rt_mq_send_loop mq xs timeout s =
     (case mq_take_free mq of
        Some (i, mq) \<Rightarrow>
          (let (mq, r) = mq_link_tail i (mq_fill i xs mq)
           in Some (if r = RT_EOK then (mq, wake_first (mq_receivers mq) s, Return RT_EOK)
                    else (mq, s, Return r)))
      | None \<Rightarrow>
          (let s = upd_thread (rt_current_thread s) (\<lambda>th. th\<lparr>error := RT_EOK\<rparr>) s
           in if timeout = 0 then Some (mq, s, Return (- RT_EFULL))
              else map_option (\<lambda>s. (mq, s, Blocked)) (wait_for (mq_senders mq) (mq_flag mq) timeout s)))"

definition rt_mq_send_wait ::
    "rt_mq \<Rightarrow> buf \<Rightarrow> int \<Rightarrow> kernel \<Rightarrow> (rt_mq \<times> kernel \<times> int outcome) option" where
  "rt_mq_send_wait mq xs timeout s =
     (if xs = [] then None
      else if unat (msg_size mq) < length xs then Some (mq, s, Return (- RT_ERROR))
      else if msg_queue_free mq = None \<and> timeout = 0 then Some (mq, s, Return (- RT_EFULL))
      else rt_mq_send_loop mq xs timeout s)"

definition rt_mq_send_resumed ::
    "rt_mq \<Rightarrow> buf \<Rightarrow> int \<Rightarrow> u32 \<Rightarrow> kernel \<Rightarrow> (rt_mq \<times> kernel \<times> int outcome) option" where
  "rt_mq_send_resumed mq xs timeout start s =
     (let e = error (threads s (rt_current_thread s))
      in if e \<noteq> RT_EOK then Some (mq, s, Return e)
         else rt_mq_send_loop mq xs (time_left timeout start s) s)"

definition rt_mq_send :: "rt_mq \<Rightarrow> buf \<Rightarrow> kernel \<Rightarrow> (rt_mq \<times> kernel \<times> int outcome) option" where
  "rt_mq_send mq xs s = rt_mq_send_wait mq xs 0 s"

definition rt_mq_urgent :: "rt_mq \<Rightarrow> buf \<Rightarrow> kernel \<Rightarrow> (rt_mq \<times> kernel \<times> int) option" where
  "rt_mq_urgent mq xs s =
     (if xs = [] then None
      else if unat (msg_size mq) < length xs then Some (mq, s, - RT_ERROR)
      else
        case mq_take_free mq of
          None \<Rightarrow> Some (mq, s, - RT_EFULL)
        | Some (i, mq) \<Rightarrow>
            let (mq, r) = mq_link_head i (mq_fill_urgent i xs mq)
            in Some (if r = RT_EOK then (mq, wake_first (mq_receivers mq) s, RT_EOK) else (mq, s, r)))"

definition rt_mq_recv_loop ::
    "rt_mq \<Rightarrow> nat \<Rightarrow> int \<Rightarrow> kernel \<Rightarrow> (rt_mq \<times> kernel \<times> (int \<times> buf) outcome) option" where
  "rt_mq_recv_loop mq sz timeout s =
     (if entry mq = 0 then
        (let t = rt_current_thread s;
             s = upd_thread t (\<lambda>th. th\<lparr>error := RT_EOK\<rparr>) s
         in if timeout = 0
            then Some (mq, upd_thread t (\<lambda>th. th\<lparr>error := - RT_ETIMEOUT\<rparr>) s, Return (- RT_ETIMEOUT, []))
            else map_option (\<lambda>s. (mq, s, Blocked)) (wait_for (mq_receivers mq) (mq_flag mq) timeout s))
      else
        (case mq_unlink mq of
           None \<Rightarrow> None
         | Some (i, mq) \<Rightarrow>
             Some (mq_give_back i mq, wake_first (mq_senders mq) s, Return (RT_EOK, mq_read i sz mq))))"

definition rt_mq_recv ::
    "rt_mq \<Rightarrow> nat \<Rightarrow> int \<Rightarrow> kernel \<Rightarrow> (rt_mq \<times> kernel \<times> (int \<times> buf) outcome) option" where
  "rt_mq_recv mq sz timeout s =
     (if sz = 0 then None
      else if entry mq = 0 \<and> timeout = 0 then Some (mq, s, Return (- RT_ETIMEOUT, []))
      else rt_mq_recv_loop mq sz timeout s)"

definition rt_mq_recv_resumed ::
    "rt_mq \<Rightarrow> nat \<Rightarrow> int \<Rightarrow> u32 \<Rightarrow> kernel \<Rightarrow> (rt_mq \<times> kernel \<times> (int \<times> buf) outcome) option" where
  "rt_mq_recv_resumed mq sz timeout start s =
     (let e = error (threads s (rt_current_thread s))
      in if e \<noteq> RT_EOK then Some (mq, s, Return (e, []))
         else rt_mq_recv_loop mq sz (time_left timeout start s) s)"

definition mq_release_head :: "rt_mq \<Rightarrow> rt_mq" where
  "mq_release_head mq =
     (case msg_queue_head mq of
        None \<Rightarrow> mq
      | Some i \<Rightarrow>
          let mq = mq\<lparr>msg_queue_head := mq_next mq i\<rparr>;
              mq = (if msg_queue_tail mq = Some i then mq\<lparr>msg_queue_tail := None\<rparr> else mq)
          in mq_give_back i mq)"

definition rt_mq_control :: "rt_mq \<Rightarrow> bool \<Rightarrow> kernel \<Rightarrow> rt_mq \<times> kernel \<times> int" where
  "rt_mq_control mq reset s =
     (if reset then
        let s = ipc_list_resume_all (mq_senders mq) (ipc_list_resume_all (mq_receivers mq) s);
            mq = while (\<lambda>mq. msg_queue_head mq \<noteq> None) mq_release_head mq
        in (mq\<lparr>entry := 0\<rparr>, rt_schedule s, RT_EOK)
      else (mq, s, - RT_ERROR))"

text \<open>
  Detaching and deleting wake all threads, first the receivers. The object's registration and
  the memory of a created queue go back to their owners, which are not in the state.
\<close>

definition rt_mq_detach :: "rt_mq \<Rightarrow> kernel \<Rightarrow> kernel \<times> int" where
  "rt_mq_detach mq s = (ipc_list_resume_all (mq_senders mq) (ipc_list_resume_all (mq_receivers mq) s), RT_EOK)"

definition rt_mq_delete :: "rt_mq \<Rightarrow> kernel \<Rightarrow> kernel \<times> int" where
  "rt_mq_delete mq s = (ipc_list_resume_all (mq_senders mq) (ipc_list_resume_all (mq_receivers mq) s), RT_EOK)"

section \<open>Invariant\<close>

text \<open>The slots that a linked list visits.\<close>

fun chain :: "(nat \<Rightarrow> nat option) \<Rightarrow> nat option \<Rightarrow> nat list \<Rightarrow> bool" where
  "chain nx p [] \<longleftrightarrow> p = None"
| "chain nx p (i # is) \<longleftrightarrow> p = Some i \<and> chain nx (nx i) is"

text \<open>
  \<open>q\<close>: the slots of the queue in order; \<open>f\<close>: the free slots; \<open>w\<close>: the slots that a sender
  is filling or a receiver is reading.
\<close>

definition mq_inv :: "rt_mq \<Rightarrow> nat list \<Rightarrow> nat list \<Rightarrow> nat set \<Rightarrow> bool" where
  "mq_inv mq q f w \<longleftrightarrow>
     chain (mq_next mq) (msg_queue_head mq) q \<and> chain (mq_next mq) (msg_queue_free mq) f \<and>
     msg_queue_tail mq = (if q = [] then None else Some (last q)) \<and>
     distinct (q @ f) \<and> w \<inter> set (q @ f) = {} \<and>
     set q \<union> set f \<union> w = {0..<unat (max_msgs mq)} \<and>
     unat (entry mq) = length q \<and>
     (\<forall>i < unat (max_msgs mq). length (mq_data mq i) = unat (msg_size mq))"

lemma chain_upd: "i \<notin> set l \<Longrightarrow> chain (nx(i := v)) p l = chain nx p l"
  by (induction l arbitrary: p) auto

lemma chain_snoc:
  "chain nx p l \<Longrightarrow> distinct l \<Longrightarrow> l \<noteq> [] \<Longrightarrow> i \<notin> set l \<Longrightarrow>
   chain ((nx(i := None))(last l := Some i)) p (l @ [i])"
  by (induction l arbitrary: p) (auto simp: chain_upd)

lemma mq_take_free_inv:
  assumes "mq_inv mq q f w"
  shows "f = [] \<Longrightarrow> mq_take_free mq = None"
    and "f = i # f' \<Longrightarrow> \<exists>mq'. mq_take_free mq = Some (i, mq') \<and> mq_inv mq' q f' (insert i w) \<and>
           mq_data mq' = mq_data mq \<and> msg_size mq' = msg_size mq \<and> max_msgs mq' = max_msgs mq"
  using assms by (auto simp: mq_take_free_def mq_inv_def)

lemma mq_invD:
  assumes "mq_inv mq q f w"
  shows "chain (mq_next mq) (msg_queue_head mq) q" "chain (mq_next mq) (msg_queue_free mq) f"
    and "msg_queue_tail mq = (if q = [] then None else Some (last q))"
    and "distinct q" "distinct f" "set q \<inter> set f = {}" "w \<inter> set q = {}" "w \<inter> set f = {}"
    and "set q \<union> set f \<union> w = {0..<unat (max_msgs mq)}" "unat (entry mq) = length q"
    and "i < unat (max_msgs mq) \<Longrightarrow> length (mq_data mq i) = unat (msg_size mq)"
  using assms by (auto simp: mq_inv_def)

lemma mq_private:
  assumes "mq_inv mq q f w" "i \<in> w"
  shows "i \<notin> set q" "i \<notin> set f" "i < unat (max_msgs mq)"
  using mq_invD(7,8,9) [OF assms(1)] assms(2) by auto

lemma mq_fill_inv:
  assumes inv: "mq_inv mq q f w" and i: "i \<in> w" and xs: "length xs \<le> unat (msg_size mq)"
  shows "mq_inv (mq_fill i xs mq) q f w"
    and "j \<noteq> i \<Longrightarrow> mq_data (mq_fill i xs mq) j = mq_data mq j"
    and "length xs = unat (msg_size mq) \<Longrightarrow> mq_data (mq_fill i xs mq) i = xs"
  using inv mq_private [OF inv i] xs by (auto simp: mq_fill_def mq_inv_def chain_upd overlay_def)

lemma inv_room: "mq_inv mq q f w \<Longrightarrow> i \<in> w \<Longrightarrow> length q < unat (max_msgs mq)"
proof -
  assume a: "mq_inv mq q f w" "i \<in> w"
  then have "set q \<subseteq> {0..<unat (max_msgs mq)} - {i}" by (auto simp: mq_inv_def)
  then have "card (set q) \<le> card ({0..<unat (max_msgs mq)} - {i})" by (intro card_mono) auto
  moreover have "i < unat (max_msgs mq)" using a by (auto simp: mq_inv_def)
  moreover have "card (set q) = length q" using a by (simp add: mq_inv_def distinct_card)
  ultimately show ?thesis by (simp add: card_Diff_singleton)
qed

lemma mq_link_tail_inv:
  assumes inv: "mq_inv mq q f w" and i: "i \<in> w" and nx: "mq_next mq i = None"
  shows "\<exists>mq'. mq_link_tail i mq = (mq', RT_EOK) \<and> mq_inv mq' (q @ [i]) f (w - {i}) \<and>
           mq_data mq' = mq_data mq \<and> msg_size mq' = msg_size mq \<and> max_msgs mq' = max_msgs mq"
proof -
  have "length q < unat (max_msgs mq)" by (rule inv_room [OF inv i])
  moreover have "unat (max_msgs mq) < 65536" using unsigned_less [of "max_msgs mq", where ?'a = nat] by simp
  ultimately have e: "entry mq < 0xFFFF" "unat (entry mq + 1) = Suc (length q)"
    using inv by (auto simp: mq_inv_def word_less_nat_alt unat_word_ariths)
  have fi: "i \<notin> set q" "i \<notin> set f" "i < unat (max_msgs mq)" using inv i by (auto simp: mq_inv_def)
  have nxu: "(mq_next mq)(i := None) = mq_next mq" using nx by auto
  show ?thesis
  proof (cases "q = []")
    case True
    then show ?thesis
      using inv i e fi nx by (auto simp: mq_link_tail_def mq_inv_def Let_def mq_count_def)
  next
    case False
    have "last q \<notin> set f" using mq_invD(6) [OF inv] last_in_set [OF False] by blast
    moreover have "chain ((mq_next mq)(last q := Some i)) (msg_queue_head mq) (q @ [i])"
      using chain_snoc [of "mq_next mq" "msg_queue_head mq" q i] inv False fi
      by (auto simp: mq_inv_def nxu)
    moreover have "msg_queue_head mq \<noteq> None" using inv False by (cases q) (auto simp: mq_inv_def)
    ultimately show ?thesis
      using inv i e fi False
      by (auto simp: mq_link_tail_def mq_inv_def Let_def mq_count_def chain_upd)
  qed
qed

lemma mq_link_head_inv:
  assumes inv: "mq_inv mq q f w" and i: "i \<in> w"
  shows "\<exists>mq'. mq_link_head i mq = (mq', RT_EOK) \<and> mq_inv mq' (i # q) f (w - {i}) \<and>
           mq_data mq' = mq_data mq \<and> msg_size mq' = msg_size mq \<and> max_msgs mq' = max_msgs mq"
proof -
  have "length q < unat (max_msgs mq)" by (rule inv_room [OF inv i])
  moreover have "unat (max_msgs mq) < 65536" using unsigned_less [of "max_msgs mq", where ?'a = nat] by simp
  ultimately have e: "entry mq < 0xFFFF" "unat (entry mq + 1) = Suc (length q)"
    using inv by (auto simp: mq_inv_def word_less_nat_alt unat_word_ariths)
  show ?thesis
    using inv i e mq_private [OF inv i]
    by (auto simp: mq_link_head_def mq_inv_def Let_def mq_count_def chain_upd)
qed

lemma mq_unlink_inv:
  assumes inv: "mq_inv mq (i # q) f w"
  shows "\<exists>mq'. mq_unlink mq = Some (i, mq') \<and> mq_inv mq' q f (insert i w) \<and>
           mq_data mq' = mq_data mq \<and> msg_size mq' = msg_size mq \<and> max_msgs mq' = max_msgs mq"
proof -
  have "0 < entry mq" "unat (entry mq - 1) = length q"
    using mq_invD(10) [OF inv] by (auto simp: unat_minus_one unat_eq_zero [symmetric] word_neq_0_conv [symmetric])
  moreover have "i = last q \<longrightarrow> q = []"
    using mq_invD(4) [OF inv] last_in_set [of q] by (cases "q = []") auto
  ultimately show ?thesis
    using inv by (auto simp: mq_unlink_def mq_inv_def Let_def)
qed

lemma mq_unlink_empty: "mq_inv mq [] f w \<Longrightarrow> mq_unlink mq = None \<and> entry mq = 0"
  by (auto simp: mq_inv_def mq_unlink_def unat_eq_zero [symmetric])

lemma mq_give_back_inv:
  assumes inv: "mq_inv mq q f w" and i: "i \<in> w"
  shows "mq_inv (mq_give_back i mq) q (i # f) (w - {i})"
  using inv i mq_private [OF inv i]
  by (auto simp: mq_give_back_def mq_inv_def chain_upd)

text \<open>The queue at rest, with the messages it holds.\<close>

definition mq_holds :: "rt_mq \<Rightarrow> buf list \<Rightarrow> bool" where
  "mq_holds mq ms \<longleftrightarrow> (\<exists>q f. mq_inv mq q f {} \<and> ms = map (mq_data mq) q)"

text \<open>What the send and the receive calls do to the queue itself.\<close>

definition mq_enq :: "buf \<Rightarrow> rt_mq \<Rightarrow> rt_mq option" where
  "mq_enq xs mq = map_option (\<lambda>(i, mq). fst (mq_link_tail i (mq_fill i xs mq))) (mq_take_free mq)"

definition mq_deq :: "rt_mq \<Rightarrow> (buf \<times> rt_mq) option" where
  "mq_deq mq = map_option (\<lambda>(i, mq). (mq_data mq i, mq_give_back i mq)) (mq_unlink mq)"

definition mq_capacity :: "rt_mq \<Rightarrow> nat" where
  "mq_capacity mq = unat (max_msgs mq)"

definition mq_message :: "rt_mq \<Rightarrow> buf \<Rightarrow> bool" where
  "mq_message mq xs \<longleftrightarrow> length xs = unat (msg_size mq)"

lemma mq_used: "mq_inv mq q f {} \<Longrightarrow> length q + length f = mq_capacity mq"
  using mq_invD(4-6,9) [of mq q f "{}"]
  by (metis card_Un_disjoint card_atLeastLessThan diff_zero distinct_card finite_set mq_capacity_def sup_bot.right_neutral)

lemma mq_enq_holds:
  assumes h: "mq_holds mq ms" and ok: "mq_message mq xs" and room: "length ms < mq_capacity mq"
  shows "\<exists>i mq1 mq'. mq_take_free mq = Some (i, mq1) \<and>
    mq_link_tail i (mq_fill i xs mq1) = (mq', RT_EOK) \<and> mq_holds mq' (ms @ [xs]) \<and>
    msg_size mq' = msg_size mq \<and> max_msgs mq' = max_msgs mq"
proof -
  obtain q f where inv: "mq_inv mq q f {}" and ms: "ms = map (mq_data mq) q"
    using h by (auto simp: mq_holds_def)
  have "f \<noteq> []" using mq_used [OF inv] room ms by auto
  then obtain i f' where f: "f = i # f'" by (cases f) auto
  obtain mq1 where 1: "mq_take_free mq = Some (i, mq1)" "mq_inv mq1 q f' {i}" "mq_data mq1 = mq_data mq"
    "msg_size mq1 = msg_size mq" "max_msgs mq1 = max_msgs mq"
    using mq_take_free_inv(2) [OF inv f] by auto
  have xs: "length xs = unat (msg_size mq1)" using ok 1 by (simp add: mq_message_def)
  note fl = mq_fill_inv [OF 1(2) _ eq_imp_le [OF xs], of i]
  have nx: "mq_next (mq_fill i xs mq1) i = None" by (simp add: mq_fill_def)
  obtain mq' where 2: "mq_link_tail i (mq_fill i xs mq1) = (mq', RT_EOK)" "mq_inv mq' (q @ [i]) f' {}"
    "mq_data mq' = mq_data (mq_fill i xs mq1)" "msg_size mq' = msg_size (mq_fill i xs mq1)"
    "max_msgs mq' = max_msgs (mq_fill i xs mq1)"
    using mq_link_tail_inv [OF fl(1) _ nx] by auto
  have "map (mq_data mq') (q @ [i]) = ms @ [xs]"
  proof -
    have "mq_data (mq_fill i xs mq1) j = mq_data mq j" if "j \<in> set q" for j
      using fl(2) [of j] mq_private(1) [OF 1(2), of i] that 1(3) by (cases "j = i") auto
    then show ?thesis using fl(3) xs by (simp add: 2(3) ms)
  qed
  then have "mq_holds mq' (ms @ [xs])" using 2(2) unfolding mq_holds_def by metis
  then show ?thesis using 1 2 by (auto simp: mq_fill_def)
qed

lemma mq_full:
  assumes h: "mq_holds mq ms" and full: "length ms = mq_capacity mq"
  shows "mq_take_free mq = None" "msg_queue_free mq = None"
proof -
  obtain q f where inv: "mq_inv mq q f {}" and ms: "ms = map (mq_data mq) q"
    using h by (auto simp: mq_holds_def)
  have "f = []" using mq_used [OF inv] full ms by auto
  then show "mq_take_free mq = None" using mq_take_free_inv(1) [OF inv] by simp
  then show "msg_queue_free mq = None" by (auto simp: mq_take_free_def split: option.splits)
qed

lemma mq_deq_holds:
  assumes h: "mq_holds mq (x # ms)"
  shows "\<exists>i mq1. mq_unlink mq = Some (i, mq1) \<and> mq_data mq1 i = x \<and> mq_holds (mq_give_back i mq1) ms \<and>
    msg_size mq1 = msg_size mq \<and> max_msgs mq1 = max_msgs mq \<and> length x = unat (msg_size mq)"
proof -
  obtain q f where inv: "mq_inv mq q f {}" and ms: "x # ms = map (mq_data mq) q"
    using h by (auto simp: mq_holds_def)
  then obtain i q' where q: "q = i # q'" by (cases q) auto
  obtain mq1 where 1: "mq_unlink mq = Some (i, mq1)" "mq_inv mq1 q' f {i}" "mq_data mq1 = mq_data mq"
    "msg_size mq1 = msg_size mq" "max_msgs mq1 = max_msgs mq"
    using mq_unlink_inv [OF inv [unfolded q]] by auto
  have "mq_inv (mq_give_back i mq1) q' (i # f) {}" using mq_give_back_inv [OF 1(2), of i] by simp
  moreover have "mq_data (mq_give_back i mq1) = mq_data mq" using 1(3) by (simp add: mq_give_back_def)
  ultimately have "mq_holds (mq_give_back i mq1) ms"
    using ms q unfolding mq_holds_def by auto
  moreover have "length x = unat (msg_size mq)"
  proof -
    have "i \<in> {0..<unat (max_msgs mq)}" using mq_invD(9) [OF inv] q by auto
    then show ?thesis using mq_invD(11) [OF inv, of i] ms q by simp
  qed
  ultimately show ?thesis using 1 ms q by auto
qed

lemma mq_empty_holds: "mq_holds mq [] \<Longrightarrow> mq_unlink mq = None \<and> entry mq = 0"
  using mq_unlink_empty by (auto simp: mq_holds_def)

lemma mq_entry: "mq_holds mq ms \<Longrightarrow> unat (entry mq) = length ms"
  by (auto simp: mq_holds_def mq_inv_def)

section \<open>Creation and reset\<close>

lemma link_free_chain:
  "chain (fst (mq_link_free n)) (snd (mq_link_free n)) (rev [0..<n])"
proof (induction n)
  case (Suc n)
  obtain nx fr where m: "mq_link_free n = (nx, fr)" by (rule prod.exhaust)
  have "mq_link_free (Suc n) = (nx(n := fr), Some n)"
    using m by (simp add: mq_link_free_def)
  then show ?case using Suc m by (simp add: chain_upd fun_upd_same del: fun_upd_apply)
qed (simp add: mq_link_free_def)

lemma create_some: "\<exists>mq. rt_mq_create sz msgs fl rq sq (Some mem) = Some mq"
  by (simp add: rt_mq_create_def Let_def split_def)

lemma create_holds:
  assumes "rt_mq_create sz msgs fl rq sq (Some mem) = Some mq"
    and "\<And>i. length (mem i) = unat (ucast (RT_ALIGN sz) :: u16)"
  shows "mq_holds mq []" "mq_capacity mq = unat (ucast msgs :: u16)" "msg_size mq = ucast (RT_ALIGN sz)"
    and "mq_receivers mq = rq" "mq_senders mq = sq" "mq_flag mq = fl"
proof -
  let ?n = "unat (ucast msgs :: u16)"
  have "mq_inv mq [] (rev [0..<?n]) {}"
    using assms link_free_chain [of ?n]
    by (auto simp: rt_mq_create_def mq_inv_def Let_def split: prod.splits)
  then show "mq_holds mq []" unfolding mq_holds_def by fastforce
qed (use assms(1) in \<open>auto simp: rt_mq_create_def Let_def mq_capacity_def split: prod.splits\<close>)

text \<open>A pool given to \<open>rt_mq_init\<close> holds all the slots, and the queue starts empty.\<close>

lemma mq_init_holds:
  assumes "\<And>i. length (mem i) = unat (ucast (RT_ALIGN sz) :: u16)"
    and mq_def: "mq = rt_mq_init sz pool_size fl rq sq mem"
  shows "mq_holds mq []" "mq_capacity mq * (unat (msg_size mq) + 4) \<le> unat pool_size"
proof -
  let ?sz = "ucast (RT_ALIGN sz) :: u16"
  let ?d = "ucast ?sz + 4 :: u32"
  let ?n = "unat (ucast (pool_size div ?d) :: u16)"
  have m: "mq_inv mq [] (rev [0..<?n]) {}" "mq_capacity mq = ?n" "msg_size mq = ?sz"
    using assms(1) link_free_chain [of ?n]
    by (auto simp: mq_def rt_mq_init_def mq_inv_def mq_capacity_def Let_def split: prod.splits)
  show "mq_holds mq []" using m(1) unfolding mq_holds_def by fastforce
  have "unat (ucast z + 4 :: u32) = unat z + 4" for z :: u16
    using unsigned_less [of z, where ?'a = nat]
    by (simp add: unat_word_ariths unsigned_ucast_eq take_bit_nat_eq_self)
  then have d: "unat ?d = unat ?sz + 4" .
  have "?n \<le> unat (pool_size div ?d)" by (subst unsigned_ucast_eq) (rule take_bit_nat_less_eq_self)
  also have "\<dots> = unat pool_size div (unat ?sz + 4)" by (simp add: unat_div d)
  finally have "?n * (unat ?sz + 4) \<le> unat pool_size div (unat ?sz + 4) * (unat ?sz + 4)"
    by (rule mult_le_mono1)
  also have "\<dots> \<le> unat pool_size" by simp
  finally show "mq_capacity mq * (unat (msg_size mq) + 4) \<le> unat pool_size" unfolding m(2,3) .
qed

text \<open>Detaching a queue ends the wait of every sender and receiver.\<close>

lemma detach_wakes_all:
  assumes "sched_inv s" "rt_mq_detach mq s = (s', r)"
  shows "sched_inv s' \<and> suspend_lists s' (mq_receivers mq) = [] \<and> suspend_lists s' (mq_senders mq) = []"
  using assms resume_all_inv [OF assms(1), of "mq_receivers mq"]
    resume_all_inv [of "ipc_list_resume_all (mq_receivers mq) s" "mq_senders mq"]
  by (cases "mq_receivers mq = mq_senders mq") (auto simp: rt_mq_detach_def)

lemma release_head_inv:
  assumes inv: "mq_inv mq (i # q) f w"
  shows "msg_queue_head mq \<noteq> None \<and>
    mq_inv ((mq_release_head mq)\<lparr>entry := of_nat (length q)\<rparr>) q (i # f) w \<and>
    mq_data (mq_release_head mq) = mq_data mq \<and>
    msg_size (mq_release_head mq) = msg_size mq \<and> max_msgs (mq_release_head mq) = max_msgs mq \<and>
    (\<forall>j \<in> w. mq_next (mq_release_head mq) j = mq_next mq j)"
proof -
  have l: "i = last q \<longrightarrow> q = []"
    using mq_invD(4) [OF inv] last_in_set [of q] by (cases "q = []") auto
  have "length q < 65536"
    using mq_invD(10) [OF inv] unsigned_less [of "entry mq", where ?'a = nat] by simp
  then have "unat (of_nat (length q) :: u16) = length q"
    by (simp add: unat_of_nat take_bit_nat_eq_self)
  then show ?thesis
    using inv l mq_invD(6,7) [OF inv]
    by (auto simp: mq_release_head_def mq_give_back_def mq_inv_def Let_def chain_upd)
qed

lemma inv_entry: "mq_inv (mq\<lparr>entry := e\<rparr>) q f w \<Longrightarrow> unat e' = length q \<Longrightarrow> mq_inv (mq\<lparr>entry := e'\<rparr>) q f w"
  by (simp add: mq_inv_def)

lemma drain_inv:
  "mq_inv (mq\<lparr>entry := of_nat (length q)\<rparr>) q f w \<Longrightarrow>
   \<exists>f'. mq_inv ((while (\<lambda>mq. msg_queue_head mq \<noteq> None) mq_release_head mq)\<lparr>entry := 0\<rparr>) [] f' w \<and>
     max_msgs (while (\<lambda>mq. msg_queue_head mq \<noteq> None) mq_release_head mq) = max_msgs mq \<and>
     msg_size (while (\<lambda>mq. msg_queue_head mq \<noteq> None) mq_release_head mq) = msg_size mq \<and>
     mq_data (while (\<lambda>mq. msg_queue_head mq \<noteq> None) mq_release_head mq) = mq_data mq \<and>
     (\<forall>j \<in> w. mq_next (while (\<lambda>mq. msg_queue_head mq \<noteq> None) mq_release_head mq) j = mq_next mq j)"
proof (induction q arbitrary: mq f)
  case Nil
  then have "msg_queue_head mq = None" by (simp add: mq_inv_def)
  then show ?case using Nil by (auto simp: while_unfold)
next
  case (Cons i q)
  have rel: "mq_release_head (mq\<lparr>entry := e\<rparr>) = (mq_release_head mq)\<lparr>entry := e\<rparr>" for e
    by (simp add: mq_release_head_def mq_give_back_def Let_def split: option.splits)
  have "msg_queue_head mq \<noteq> None" "mq_inv ((mq_release_head mq)\<lparr>entry := of_nat (length q)\<rparr>) q (i # f) w"
    "max_msgs (mq_release_head mq) = max_msgs mq" "msg_size (mq_release_head mq) = msg_size mq"
    "mq_data (mq_release_head mq) = mq_data mq" "\<forall>j \<in> w. mq_next (mq_release_head mq) j = mq_next mq j"
    using release_head_inv [OF Cons.prems] by (auto simp: rel)
  then show ?case
    using Cons.IH [of "mq_release_head mq" "i # f"] by (simp add: while_unfold [of _ _ mq])
qed

lemma reset_inv:
  assumes inv: "mq_inv mq q f w" and c: "rt_mq_control mq True s = (mq', s', r)"
  obtains f' where "mq_inv mq' [] f' w" "max_msgs mq' = max_msgs mq" "msg_size mq' = msg_size mq"
    "mq_data mq' = mq_data mq" "\<forall>j \<in> w. mq_next mq' j = mq_next mq j" "r = RT_EOK"
proof -
  let ?W = "while (\<lambda>mq. msg_queue_head mq \<noteq> None) mq_release_head mq"
  have e: "mq' = ?W\<lparr>entry := 0\<rparr>" "r = RT_EOK" using c by (simp_all add: rt_mq_control_def Let_def)
  have "of_nat (unat (entry mq)) = entry mq" by simp
  then have "of_nat (length q) = entry mq" unfolding mq_invD(10) [OF inv] .
  then have "mq_inv (mq\<lparr>entry := of_nat (length q)\<rparr>) q f w" using inv by simp
  from drain_inv [OF this] obtain f' where
    "mq_inv (?W\<lparr>entry := 0\<rparr>) [] f' w" "max_msgs ?W = max_msgs mq" "msg_size ?W = msg_size mq"
    "mq_data ?W = mq_data mq" "\<forall>j \<in> w. mq_next ?W j = mq_next mq j"
    by blast
  then show thesis using e by (intro that) simp_all
qed

lemma control_reset:
  assumes "mq_holds mq ms" "rt_mq_control mq True s = (mq', s', r)"
  shows "mq_holds mq' []" "r = RT_EOK" "mq_capacity mq' = mq_capacity mq" "msg_size mq' = msg_size mq"
proof -
  obtain q f where inv: "mq_inv mq q f {}" using assms(1) by (auto simp: mq_holds_def)
  obtain f' where "mq_inv mq' [] f' {}" "max_msgs mq' = max_msgs mq" "msg_size mq' = msg_size mq" "r = RT_EOK"
    by (rule reset_inv [OF inv assms(2)])
  then show "mq_holds mq' []" "mq_capacity mq' = mq_capacity mq" "msg_size mq' = msg_size mq" "r = RT_EOK"
    by (auto simp: mq_holds_def mq_capacity_def)
qed

section \<open>The calls behave as a queue\<close>

lemma send_accepts:
  assumes "mq_holds mq ms" "mq_message mq xs" "xs \<noteq> []" "length ms < mq_capacity mq"
  shows "\<exists>mq'. rt_mq_send mq xs s = Some (mq', wake_first (mq_receivers mq) s, Return RT_EOK) \<and>
    mq_holds mq' (ms @ [xs]) \<and> msg_size mq' = msg_size mq \<and> max_msgs mq' = max_msgs mq"
proof -
  obtain i mq1 mq' where 1: "mq_take_free mq = Some (i, mq1)"
    "mq_link_tail i (mq_fill i xs mq1) = (mq', RT_EOK)" "mq_holds mq' (ms @ [xs])"
    "msg_size mq' = msg_size mq" "max_msgs mq' = max_msgs mq"
    using mq_enq_holds [OF assms(1,2,4)] by blast
  have "msg_queue_free mq \<noteq> None" using 1(1) by (cases "msg_queue_free mq") (auto simp: mq_take_free_def)
  moreover have "mq_receivers mq' = mq_receivers mq"
    using 1(1,2) by (auto simp: mq_take_free_def mq_link_tail_def mq_fill_def mq_count_def Let_def
        split: option.splits if_splits)
  ultimately show ?thesis
    using 1 assms(2,3)
    by (auto simp: rt_mq_send_def rt_mq_send_wait_def rt_mq_send_loop_def mq_message_def)
qed

lemma send_refuses:
  assumes "mq_holds mq ms" "mq_message mq xs" "xs \<noteq> []" "length ms = mq_capacity mq"
  shows "rt_mq_send mq xs s = Some (mq, s, Return (- RT_EFULL))"
  using assms mq_full [OF assms(1,4)]
  by (simp add: rt_mq_send_def rt_mq_send_wait_def mq_message_def)

lemma recv_first:
  assumes "mq_holds mq (x # ms)" "unat (msg_size mq) \<noteq> 0"
  shows "\<exists>mq'. rt_mq_recv mq (unat (msg_size mq)) t s =
      Some (mq', wake_first (mq_senders mq) s, Return (RT_EOK, x)) \<and>
    mq_holds mq' ms \<and> msg_size mq' = msg_size mq \<and> max_msgs mq' = max_msgs mq"
proof -
  obtain i mq1 where 1: "mq_unlink mq = Some (i, mq1)" "mq_data mq1 i = x"
    "mq_holds (mq_give_back i mq1) ms" "msg_size mq1 = msg_size mq" "max_msgs mq1 = max_msgs mq"
    "length x = unat (msg_size mq)"
    using mq_deq_holds [OF assms(1)] by blast
  have "entry mq \<noteq> 0" using mq_entry [OF assms(1)] by auto
  moreover have "mq_senders mq1 = mq_senders mq"
    using 1(1) by (auto simp: mq_unlink_def Let_def split: option.splits if_splits)
  moreover have "msg_size (mq_give_back i mq1) = msg_size mq1" "max_msgs (mq_give_back i mq1) = max_msgs mq1"
    by (simp_all add: mq_give_back_def)
  ultimately show ?thesis
    using 1 assms(2) by (simp add: rt_mq_recv_def rt_mq_recv_loop_def mq_read_def)
qed

lemma recv_nothing:
  assumes "mq_holds mq []" "sz \<noteq> 0"
  shows "rt_mq_recv mq sz 0 s = Some (mq, s, Return (- RT_ETIMEOUT, []))"
  using mq_empty_holds [OF assms(1)] assms(2) by (simp add: rt_mq_recv_def)

text \<open>The non-blocking calls, as the two operations of the contract.\<close>

definition call_send :: "buf \<Rightarrow> rt_mq \<times> kernel \<Rightarrow> (rt_mq \<times> kernel) option" where
  "call_send xs = (\<lambda>(mq, s). case rt_mq_send mq xs s of
     Some (mq, s, Return r) \<Rightarrow> if r = RT_EOK then Some (mq, s) else None | _ \<Rightarrow> None)"

definition call_recv :: "rt_mq \<times> kernel \<Rightarrow> (buf \<times> rt_mq \<times> kernel) option" where
  "call_recv = (\<lambda>(mq, s). case rt_mq_recv mq (unat (msg_size mq)) 0 s of
     Some (mq, s, Return (r, xs)) \<Rightarrow> if r = RT_EOK then Some (xs, mq, s) else None | _ \<Rightarrow> None)"

definition call_holds :: "rt_mq \<times> kernel \<Rightarrow> buf list \<Rightarrow> bool" where
  "call_holds = (\<lambda>(mq, s) ms. mq_holds mq ms \<and> 0 < unat (msg_size mq))"

lemma holds_bound: "mq_holds mq ms \<Longrightarrow> length ms \<le> mq_capacity mq"
  by (auto simp: mq_holds_def dest!: mq_used)

lemma nonempty_message: "mq_message mq xs \<Longrightarrow> 0 < unat (msg_size mq) \<Longrightarrow> xs \<noteq> []"
  by (auto simp: mq_message_def)

interpretation mq: bounded_fifo call_holds "\<lambda>(mq, s). mq_message mq" "\<lambda>(mq, s). mq_capacity mq"
  call_send call_recv
proof (unfold_locales, goal_cases)
  case (1 q ms xs)
  obtain mq s where q: "q = (mq, s)" by (rule prod.exhaust)
  show ?case
    using send_accepts [of mq ms xs s] nonempty_message [of mq xs] 1
    by (auto simp: q call_holds_def call_send_def mq_capacity_def mq_message_def fun_eq_iff)
next
  case (2 q ms xs)
  obtain mq s where q: "q = (mq, s)" by (rule prod.exhaust)
  have f: "msg_queue_free mq = None" using mq_full(2) [of mq ms] 2 by (auto simp: q call_holds_def)
  show ?case
    by (auto simp: q call_send_def rt_mq_send_def rt_mq_send_wait_def f rt_err_defs)
next
  case (3 q x ms)
  obtain mq s where q: "q = (mq, s)" by (rule prod.exhaust)
  show ?case
    using recv_first [of mq x ms 0 s] 3
    by (auto simp: q call_holds_def call_recv_def mq_capacity_def mq_message_def fun_eq_iff)
next
  case (4 q)
  obtain mq s where q: "q = (mq, s)" by (rule prod.exhaust)
  show ?case
    using recv_nothing [of mq "unat (msg_size mq)" s] 4
    by (auto simp: q call_holds_def call_recv_def rt_err_defs)
next
  case (5 q ms)
  then show ?case by (auto simp: call_holds_def split: prod.splits dest: holds_bound)
qed

section \<open>Interleaved senders and receivers\<close>

text \<open>
  Any number of threads and interrupt handlers in the calls at once. \<open>claimed\<close>: slots taken
  off the free list and not yet filled; \<open>filled\<close>: slots filled and not yet linked, with the
  message the sender passed and whether the call is \<open>rt_mq_urgent\<close>; \<open>reading\<close>: slots unlinked
  and not yet given back, with the bytes of the slot at that moment. \<open>trace\<close> lists what has
  happened to the queue, with the bytes passed to the send calls and the bytes of the slots
  taken off; \<open>copied\<close> pairs what the slot held when it was taken, up to the size of the
  receiver's buffer, with the bytes the receiver copied later.
\<close>

datatype mq_event = Sent buf | Jumped buf | Taken buf | Emptied

record mq_run =
  queue :: rt_mq
  claimed :: "nat set"
  filled :: "nat \<rightharpoonup> bool \<times> buf"
  reading :: "nat \<rightharpoonup> buf"
  trace :: "mq_event list"
  copied :: "(buf \<times> buf) list"

inductive mq_step :: "mq_run \<Rightarrow> mq_run \<Rightarrow> bool" where
  claim: "mq_take_free (queue x) = Some (i, mq) \<Longrightarrow>
     mq_step x (x\<lparr>queue := mq, claimed := insert i (claimed x)\<rparr>)"
| fill: "i \<in> claimed x \<Longrightarrow> xs \<noteq> [] \<Longrightarrow> length xs \<le> unat (msg_size (queue x)) \<Longrightarrow>
     mq_step x (x\<lparr>queue := mq_fill i xs (queue x), claimed := claimed x - {i},
                  filled := (filled x)(i \<mapsto> (False, xs))\<rparr>)"
| fill_urgent: "i \<in> claimed x \<Longrightarrow> xs \<noteq> [] \<Longrightarrow> length xs \<le> unat (msg_size (queue x)) \<Longrightarrow>
     mq_step x (x\<lparr>queue := mq_fill_urgent i xs (queue x), claimed := claimed x - {i},
                  filled := (filled x)(i \<mapsto> (True, xs))\<rparr>)"
| link: "filled x i = Some (False, xs) \<Longrightarrow> mq_link_tail i (queue x) = (mq, r) \<Longrightarrow>
     mq_step x (x\<lparr>queue := mq, filled := (filled x)(i := None), trace := trace x @ [Sent xs]\<rparr>)"
| link_urgent: "filled x i = Some (True, xs) \<Longrightarrow> mq_link_head i (queue x) = (mq, r) \<Longrightarrow>
     mq_step x (x\<lparr>queue := mq, filled := (filled x)(i := None), trace := trace x @ [Jumped xs]\<rparr>)"
| unlink: "mq_unlink (queue x) = Some (i, mq) \<Longrightarrow>
     mq_step x (x\<lparr>queue := mq, reading := (reading x)(i \<mapsto> mq_data (queue x) i),
                  trace := trace x @ [Taken (mq_data (queue x) i)]\<rparr>)"
| copy: "reading x i = Some ys \<Longrightarrow>
     mq_step x (x\<lparr>queue := mq_give_back i (queue x), reading := (reading x)(i := None),
                  copied := copied x @ [(take sz ys, mq_read i sz (queue x))]\<rparr>)"
| reset: "rt_mq_control (queue x) True s = (mq, s', r) \<Longrightarrow>
     mq_step x (x\<lparr>queue := mq, trace := trace x @ [Emptied]\<rparr>)"

inductive mq_reachable :: "rt_mq \<Rightarrow> mq_run \<Rightarrow> bool" for mq0 where
  "mq_reachable mq0 \<lparr>queue = mq0, claimed = {}, filled = Map.empty, reading = Map.empty,
     trace = [], copied = []\<rparr>"
| "mq_reachable mq0 x \<Longrightarrow> mq_step x x' \<Longrightarrow> mq_reachable mq0 x'"

text \<open>
  The specification: a list of messages, to which a send appends and in front of which an
  urgent send puts its message; the bytes taken begin with the first message of the list. The
  result is the list after the events, \<open>None\<close> if they are not those of such a list.
\<close>

fun replay :: "buf list \<Rightarrow> mq_event list \<Rightarrow> buf list option" where
  "replay l [] = Some l"
| "replay l (Sent xs # es) = replay (l @ [xs]) es"
| "replay l (Jumped xs # es) = replay (xs # l) es"
| "replay l (Taken ys # es) =
     (case l of [] \<Rightarrow> None | xs # l \<Rightarrow> if take (length xs) ys = xs then replay l es else None)"
| "replay l (Emptied # es) = replay [] es"

lemma replay_append: "replay l (es @ es') = Option.bind (replay l es) (\<lambda>l. replay l es')"
  by (induction l es rule: replay.induct) (auto split: list.splits)

text \<open>The slot \<open>i\<close> begins with the message \<open>xs\<close>.\<close>

definition slot_has :: "rt_mq \<Rightarrow> buf \<Rightarrow> nat \<Rightarrow> bool" where
  "slot_has mq xs i \<longleftrightarrow> take (length xs) (mq_data mq i) = xs"

abbreviation busy :: "mq_run \<Rightarrow> nat set" where
  "busy x \<equiv> claimed x \<union> dom (filled x) \<union> dom (reading x)"

definition run_inv :: "mq_run \<Rightarrow> nat list \<Rightarrow> nat list \<Rightarrow> buf list \<Rightarrow> bool" where
  "run_inv x q f l \<longleftrightarrow> mq_inv (queue x) q f (busy x) \<and>
     claimed x \<inter> dom (filled x) = {} \<and> claimed x \<inter> dom (reading x) = {} \<and>
     dom (filled x) \<inter> dom (reading x) = {} \<and>
     (\<forall>i u xs. filled x i = Some (u, xs) \<longrightarrow> slot_has (queue x) xs i \<and> (u \<or> mq_next (queue x) i = None)) \<and>
     (\<forall>i xs. reading x i = Some xs \<longrightarrow> mq_data (queue x) i = xs) \<and>
     replay [] (trace x) = Some l \<and> list_all2 (slot_has (queue x)) l q \<and>
     (\<forall>(a, b) \<in> set (copied x). a = b)"

lemma run_invD:
  assumes "run_inv x q f l"
  shows "mq_inv (queue x) q f (busy x)" "claimed x \<inter> dom (filled x) = {}"
    and "claimed x \<inter> dom (reading x) = {}" "dom (filled x) \<inter> dom (reading x) = {}"
    and "filled x i = Some (u, xs) \<Longrightarrow> slot_has (queue x) xs i"
    and "filled x i = Some (False, xs) \<Longrightarrow> mq_next (queue x) i = None"
    and "reading x i = Some ys \<Longrightarrow> mq_data (queue x) i = ys"
    and "replay [] (trace x) = Some l" "list_all2 (slot_has (queue x)) l q"
    and "\<forall>(a, b) \<in> set (copied x). a = b"
proof -
  show "filled x i = Some (False, xs) \<Longrightarrow> mq_next (queue x) i = None"
    using assms unfolding run_inv_def by (elim conjE) (drule spec [of _ i], auto)
qed (use assms in \<open>auto simp: run_inv_def\<close>)

text \<open>The invariant depends on the links of filled slots and on the data of slots in use only.\<close>

lemma run_invI:
  assumes "run_inv x q f l" "mq_inv (queue x') q' f' (busy x')"
    and "claimed x' \<inter> dom (filled x') = {}" "claimed x' \<inter> dom (reading x') = {}"
    and "dom (filled x') \<inter> dom (reading x') = {}"
    and "\<And>i u xs. filled x' i = Some (u, xs) \<Longrightarrow> slot_has (queue x') xs i \<and> (u \<or> mq_next (queue x') i = None)"
    and "\<And>i ys. reading x' i = Some ys \<Longrightarrow> mq_data (queue x') i = ys"
    and "replay [] (trace x') = Some l'" "list_all2 (slot_has (queue x')) l' q'"
    and "\<forall>(a, b) \<in> set (copied x'). a = b"
  shows "\<exists>q' f' l'. run_inv x' q' f' l'"
proof -
  have "run_inv x' q' f' l'"
    unfolding run_inv_def using assms(2-5,7-10) by (intro conjI allI impI) (auto dest: assms(6))
  then show ?thesis by blast
qed

lemma slot_has_cong:
  assumes "\<And>j. j \<in> set q \<Longrightarrow> mq_data mq' j = mq_data mq j"
  shows "list_all2 (slot_has mq') l q = list_all2 (slot_has mq) l q"
proof -
  have "slot_has mq' m j = slot_has mq m j" if "j \<in> set q" for m j
    using assms [OF that] by (simp add: slot_has_def)
  then show ?thesis unfolding list_all2_conv_all_nth by (auto simp: nth_mem)
qed

lemma slot_has_data: "mq_data mq' = mq_data mq \<Longrightarrow> slot_has mq' = slot_has mq"
  by (simp add: slot_has_def fun_eq_iff)

lemma step_claim:
  assumes "run_inv x q f l" "mq_take_free (queue x) = Some (i, mq)"
  shows "\<exists>q' f' l'. run_inv (x\<lparr>queue := mq, claimed := insert i (claimed x)\<rparr>) q' f' l'"
proof -
  note d = run_invD [OF assms(1)]
  obtain f' where f: "f = i # f'" using mq_take_free_inv [OF d(1)] assms(2) by (cases f) auto
  have i: "i \<notin> busy x" using mq_invD(8) [OF d(1)] f by auto
  have m: "mq_inv mq q f' (insert i (busy x))" "mq_data mq = mq_data (queue x)"
    using mq_take_free_inv(2) [OF d(1) f] assms(2) by auto
  have n: "mq_next mq = mq_next (queue x)" using assms(2) by (auto simp: mq_take_free_def split: option.splits)
  show ?thesis
    by (rule run_invI [OF assms(1), where q' = q and f' = f' and l' = l])
      (use m n i d in \<open>auto simp: slot_has_data [OF m(2)]\<close>)
qed

lemma mq_fill_urgent_inv:
  assumes "mq_inv mq q f w" "i \<in> w" "length xs \<le> unat (msg_size mq)"
  shows "mq_inv (mq_fill_urgent i xs mq) q f w"
  using assms mq_private [OF assms(1,2)] by (auto simp: mq_fill_urgent_def mq_inv_def overlay_def)

lemma step_fill:
  assumes "run_inv x q f l" "i \<in> claimed x" "length xs \<le> unat (msg_size (queue x))"
    and mq: "mq = mq_fill i xs (queue x) \<and> \<not> u \<or> mq = mq_fill_urgent i xs (queue x) \<and> u"
  shows "\<exists>q' f' l'. run_inv (x\<lparr>queue := mq, claimed := claimed x - {i}, filled := (filled x)(i \<mapsto> (u, xs))\<rparr>) q' f' l'"
proof -
  note d = run_invD [OF assms(1)]
  have w: "i \<in> busy x" using assms(2) by simp
  note p = mq_private [OF d(1) w]
  have len: "length (mq_data (queue x) i) = unat (msg_size (queue x))" using mq_invD(11) [OF d(1) p(3)] .
  have m: "mq_inv mq q f (busy x)"
    using mq mq_fill_inv(1) [OF d(1) w assms(3)] mq_fill_urgent_inv [OF d(1) w assms(3)] by auto
  have n: "mq_next mq = (if u then mq_next (queue x) else (mq_next (queue x))(i := None))"
    and dt: "mq_data mq = (mq_data (queue x))(i := overlay (mq_data (queue x) i) 0 xs)"
    using mq by (auto simp: mq_fill_def mq_fill_urgent_def)
  have has: "slot_has mq xs i" using assms(3) len by (simp add: slot_has_def dt overlay_def)
  have keep: "slot_has mq ys j = slot_has (queue x) ys j" if "j \<noteq> i" for ys j
    using that by (simp add: slot_has_def dt)
  have ir: "reading x i = None" "filled x i = None" using assms(2) d(2,3) by auto
  let ?x = "x\<lparr>queue := mq, claimed := claimed x - {i}, filled := (filled x)(i \<mapsto> (u, xs))\<rparr>"
  have b: "busy ?x = busy x" using assms(2) by auto
  have lq: "list_all2 (slot_has mq) l q"
    using d(9) slot_has_cong [of q mq "queue x" l] p(1) unfolding dt by (metis fun_upd_other)
  have fl: "slot_has mq ys j \<and> (v \<or> mq_next mq j = None)" if "((filled x)(i \<mapsto> (u, xs))) j = Some (v, ys)" for v ys j
    using that has keep d(5,6) n by (cases "j = i"; cases v) auto
  show ?thesis
    by (rule run_invI [OF assms(1), where q' = q and f' = f and l' = l])
      (use m b lq fl d ir dt in auto)
qed

lemma step_link:
  assumes "run_inv x q f l" "filled x i = Some (u, xs)"
    and mq: "(mq, r) = (if u then mq_link_head i (queue x) else mq_link_tail i (queue x))"
    and q': "q' = (if u then i # q else q @ [i])" and l': "l' = (if u then xs # l else l @ [xs])"
  shows "\<exists>q' f' l'. run_inv (x\<lparr>queue := mq, filled := (filled x)(i := None),
    trace := trace x @ [if u then Jumped xs else Sent xs]\<rparr>) q' f' l'"
proof -
  note d = run_invD [OF assms(1)]
  have w: "i \<in> busy x" using assms(2) by auto
  have m: "mq_inv mq q' f (busy x - {i})" "mq_data mq = mq_data (queue x)"
    using mq_link_head_inv [OF d(1) w] mq_link_tail_inv [OF d(1) w d(6)] assms(2) mq q'
    by (cases u; auto)+
  have n: "mq_next mq j = mq_next (queue x) j" if "j \<in> busy x" "j \<noteq> i" for j
  proof (cases u)
    case True
    then show ?thesis using mq that by (auto simp: mq_link_head_def mq_count_def Let_def split: if_splits)
  next
    case False
    then show ?thesis
      using mq that mq_private(1) [OF d(1) that(1)] mq_invD(3) [OF d(1)]
      by (auto simp: mq_link_tail_def mq_count_def Let_def split: if_splits)
  qed
  let ?x = "x\<lparr>queue := mq, filled := (filled x)(i := None), trace := trace x @ [if u then Jumped xs else Sent xs]\<rparr>"
  have b: "busy ?x = busy x - {i}" using assms(2) d(2,4) by auto
  have lq: "list_all2 (slot_has mq) l' q'"
    using d(9) d(5) [OF assms(2)] unfolding slot_has_data [OF m(2)] q' l'
    by (cases u) (auto intro: list_all2_appendI)
  have fl: "slot_has mq ys j \<and> (v \<or> mq_next mq j = None)" if "((filled x)(i := None)) j = Some (v, ys)" for v ys j
  proof -
    have j: "j \<noteq> i" "filled x j = Some (v, ys)" using that by (auto split: if_splits)
    then have "mq_next mq j = mq_next (queue x) j" using n by auto
    then show ?thesis using d(5,6) j slot_has_data [OF m(2)] by (cases v) auto
  qed
  have e: "replay [] (trace ?x) = Some l'" using d(8) by (auto simp: replay_append l')
  show ?thesis
    by (rule run_invI [OF assms(1), where q' = q' and f' = f and l' = l'])
      (use m b lq fl d e in \<open>auto split: if_splits\<close>)
qed

lemma step_unlink:
  assumes "run_inv x q f l" "mq_unlink (queue x) = Some (i, mq)"
  shows "\<exists>q' f' l'. run_inv (x\<lparr>queue := mq, reading := (reading x)(i \<mapsto> mq_data (queue x) i),
    trace := trace x @ [Taken (mq_data (queue x) i)]\<rparr>) q' f' l'"
proof -
  note d = run_invD [OF assms(1)]
  have "q \<noteq> []" using mq_unlink_empty [of "queue x"] d(1) assms(2) by auto
  then obtain j q' where q: "q = j # q'" by (cases q) auto
  then have j: "j = i" "mq_inv mq q' f (insert i (busy x))" "mq_data mq = mq_data (queue x)"
    using mq_unlink_inv [OF d(1) [unfolded q]] assms(2) by auto
  obtain m l' where l: "l = m # l'" "slot_has (queue x) m i" "list_all2 (slot_has (queue x)) l' q'"
    using d(9) q j(1) by (auto simp: list_all2_Cons2)
  have i: "i \<notin> busy x" using mq_invD(7) [OF d(1)] q j(1) by auto
  have n: "mq_next mq = mq_next (queue x)"
    using assms(2) by (auto simp: mq_unlink_def Let_def split: option.splits if_splits)
  let ?x = "x\<lparr>queue := mq, reading := (reading x)(i \<mapsto> mq_data (queue x) i), trace := trace x @ [Taken (mq_data (queue x) i)]\<rparr>"
  have e: "replay [] (trace ?x) = Some l'" using d(8) l by (simp add: replay_append slot_has_def)
  have b: "busy ?x = insert i (busy x)" by auto
  show ?thesis
    by (rule run_invI [OF assms(1), where q' = q' and f' = f and l' = l'])
      (use j i n e b l d in \<open>auto simp: slot_has_data [OF j(3)] split: if_splits\<close>)
qed

lemma step_copy:
  assumes "run_inv x q f l" "reading x i = Some ys"
  shows "\<exists>q' f' l'. run_inv (x\<lparr>queue := mq_give_back i (queue x), reading := (reading x)(i := None),
    copied := copied x @ [(take sz ys, mq_read i sz (queue x))]\<rparr>) q' f' l'"
proof -
  note d = run_invD [OF assms(1)]
  have w: "i \<in> busy x" using assms(2) by auto
  have i: "mq_data (queue x) i = ys" "i \<notin> claimed x" "i \<notin> dom (filled x)" using assms(2) d(3,4,7) by auto
  have "length ys = unat (msg_size (queue x))"
    using mq_invD(11) [OF d(1) mq_private(3) [OF d(1) w]] i(1) by simp
  then have r: "mq_read i sz (queue x) = take sz ys" using i(1) by (simp add: mq_read_def min_def)
  let ?x = "x\<lparr>queue := mq_give_back i (queue x), reading := (reading x)(i := None),
    copied := copied x @ [(take sz ys, mq_read i sz (queue x))]\<rparr>"
  have b: "busy ?x = busy x - {i}" using i assms(2) by auto
  have g: "mq_data (mq_give_back i (queue x)) = mq_data (queue x)"
    "mq_next (mq_give_back i (queue x)) = (mq_next (queue x))(i := msg_queue_free (queue x))"
    by (simp_all add: mq_give_back_def)
  show ?thesis
    by (rule run_invI [OF assms(1), where q' = q and f' = "i # f" and l' = l])
      (use mq_give_back_inv [OF d(1) w] b g i r d in \<open>auto simp: slot_has_data [OF g(1)] split: if_splits\<close>)
qed

lemma step_reset:
  assumes "run_inv x q f l" "rt_mq_control (queue x) True s = (mq, s', r)"
  shows "\<exists>q' f' l'. run_inv (x\<lparr>queue := mq, trace := trace x @ [Emptied]\<rparr>) q' f' l'"
proof -
  note d = run_invD [OF assms(1)]
  obtain f' where m: "mq_inv mq [] f' (busy x)" "mq_data mq = mq_data (queue x)"
    "\<forall>j \<in> busy x. mq_next mq j = mq_next (queue x) j"
    by (rule reset_inv [OF d(1) assms(2)])
  have e: "replay [] (trace x @ [Emptied]) = Some []" using d(8) by (simp add: replay_append)
  have fl: "slot_has mq ys j \<and> (v \<or> mq_next mq j = None)" if "filled x j = Some (v, ys)" for v ys j
  proof -
    have "mq_next mq j = mq_next (queue x) j" using m(3) that by auto
    then show ?thesis using that d(5,6) slot_has_data [OF m(2)] by (cases v) auto
  qed
  show ?thesis
    by (rule run_invI [OF assms(1), where q' = "[]" and f' = f' and l' = "[]"])
      (use m(1,2) e fl d(2-4,7,10) in auto)
qed

lemma run_step:
  assumes "mq_step x x'" and "run_inv x q f l"
  shows "\<exists>q' f' l'. run_inv x' q' f' l'"
  using assms(1)
proof cases
  case (claim i mq)
  then show ?thesis using step_claim [OF assms(2)] by simp
next
  case (fill i xs)
  then show ?thesis using step_fill [OF assms(2), of i xs _ False] by simp
next
  case (fill_urgent i xs)
  then show ?thesis using step_fill [OF assms(2), of i xs _ True] by simp
next
  case (link i xs mq r)
  then show ?thesis using step_link [OF assms(2), of i False xs mq r] by simp
next
  case (link_urgent i xs mq r)
  then show ?thesis using step_link [OF assms(2), of i True xs mq r] by simp
next
  case (unlink i mq)
  then show ?thesis using step_unlink [OF assms(2)] by simp
next
  case (copy i ys sz)
  then show ?thesis using step_copy [OF assms(2)] by simp
next
  case (reset s mq s' r)
  then show ?thesis using step_reset [OF assms(2)] by simp
qed

lemma run_reachable:
  assumes "mq_reachable mq0 x" "mq_holds mq0 []"
  shows "\<exists>q f l. run_inv x q f l"
  using assms
proof (induction rule: mq_reachable.induct)
  case 1
  then obtain q f where "mq_inv mq0 q f {}" "q = []" by (auto simp: mq_holds_def)
  then show ?case by (intro exI [of _ "[]"] exI [of _ f]) (simp add: run_inv_def)
next
  case (2 x x')
  then show ?case using run_step by blast
qed

text \<open>Linking a message never fails: the counter cannot overflow.\<close>

lemma run_link_ok:
  assumes "run_inv x q f l" "filled x i = Some (u, xs)"
  shows "snd (if u then mq_link_head i (queue x) else mq_link_tail i (queue x)) = RT_EOK"
proof -
  have i: "i \<in> busy x" using assms(2) by auto
  show ?thesis
    using mq_link_head_inv [OF run_invD(1) [OF assms(1)] i] assms(2)
      mq_link_tail_inv [OF run_invD(1) [OF assms(1)] i] run_invD(6) [OF assms(1), of i xs]
    by (cases u) auto
qed

section \<open>A queue for concrete runs\<close>

text \<open>A queue of three slots of four bytes, as \<open>rt_mq_create\<close> makes it.\<close>

definition demo_mq :: rt_mq where
  "demo_mq = \<lparr>mq_next = (\<lambda>_. None)(1 := Some 0, 2 := Some 1), mq_data = (\<lambda>i. [0, 0, 0, 0]),
     msg_size = 4, max_msgs = 3, entry = 0, msg_queue_head = None, msg_queue_tail = None,
     msg_queue_free = Some 2, mq_flag = RT_IPC_FLAG_PRIO, mq_receivers = 0, mq_senders = 1\<rparr>"

lemma demo_mq_create: "rt_mq_create 3 3 RT_IPC_FLAG_PRIO 0 1 (Some (\<lambda>i. [0, 0, 0, 0])) = Some demo_mq"
proof -
  have "[0..<3] = [0, 1, 2]" by (simp add: upt_rec)
  moreover have "RT_ALIGN 3 = 4" by code_simp
  ultimately show ?thesis by (simp add: rt_mq_create_def mq_link_free_def demo_mq_def Let_def)
qed

text \<open>
  Two senders that overlap and an urgent send: the sender that came second links first, with a
  message of one byte; two receivers take the urgent message and this one.
\<close>

lemma demo_mq_run:
  obtains x where "mq_reachable demo_mq x" "copied x = [([5], [5])]" "entry (queue x) = 1"
    "trace x = [Sent [5], Sent [1, 2, 3, 4], Jumped [7, 7], Taken [7, 7, 0, 0], Taken [5, 0, 0, 0]]"
proof -
  note run = mq_reachable.intros(2) [where ?mq0.0 = demo_mq]
  note sel = demo_mq_def mq_take_free_def mq_fill_def mq_fill_urgent_def overlay_def mq_link_tail_def
    mq_link_head_def mq_count_def mq_unlink_def mq_read_def mq_give_back_def Let_def
  let ?x0 = "\<lparr>queue = demo_mq, claimed = {}, filled = Map.empty, reading = Map.empty, trace = [], copied = []\<rparr>"
  let ?q1 = "demo_mq\<lparr>msg_queue_free := None\<rparr>"
  let ?x1 = "?x0\<lparr>queue := ?q1, claimed := {0, 1, 2}\<rparr>"
  have "mq_reachable demo_mq ?x1"
    using run [OF run [OF run [OF mq_reachable.intros(1) mq_step.claim [of _ 2 "demo_mq\<lparr>msg_queue_free := Some 1\<rparr>"]]
        mq_step.claim [of _ 1 "demo_mq\<lparr>msg_queue_free := Some 0\<rparr>"]] mq_step.claim [of _ 0 ?q1]]
    by (simp add: sel)
  note r1 = this
  let ?q2 = "mq_fill_urgent 0 [7, 7] (mq_fill 1 [5] (mq_fill 2 [1, 2, 3, 4] ?q1))"
  let ?x2 = "?x1\<lparr>queue := ?q2, claimed := {},
    filled := [2 \<mapsto> (False, [1, 2, 3, 4]), 1 \<mapsto> (False, [5]), 0 \<mapsto> (True, [7, 7])]\<rparr>"
  have e: "{0, Suc 0, 2} - {2} - {Suc 0} - {0 :: nat} = {}" by auto
  have r2: "mq_reachable demo_mq ?x2"
    using run [OF run [OF run [OF r1 mq_step.fill [of 2 _ "[1, 2, 3, 4]"]]
        mq_step.fill [of 1 _ "[5]"]] mq_step.fill_urgent [of 0 _ "[7, 7]"]]
    by (simp add: demo_mq_def mq_fill_def e)
  let ?q3 = "fst (mq_link_head 0 (fst (mq_link_tail 2 (fst (mq_link_tail 1 ?q2)))))"
  let ?x3 = "?x2\<lparr>queue := ?q3, filled := Map.empty, trace := [Sent [5], Sent [1, 2, 3, 4], Jumped [7, 7]]\<rparr>"
  have g: "[2 \<mapsto> a, Suc 0 \<mapsto> b, 0 \<mapsto> c](Suc 0 := None, 2 := None, 0 := None) = Map.empty"
    for a b c :: "bool \<times> buf" by (rule ext) simp
  have r3: "mq_reachable demo_mq ?x3"
    using run [OF run [OF run [OF r2 mq_step.link [of _ 1 "[5]", OF _ prod.collapse [symmetric]]]
        mq_step.link [of _ 2 "[1, 2, 3, 4]", OF _ prod.collapse [symmetric]]]
      mq_step.link_urgent [of _ 0 "[7, 7]", OF _ prod.collapse [symmetric]]]
    by (simp add: g)
  let ?q4 = "snd (the (mq_unlink (snd (the (mq_unlink ?q3)))))"
  let ?x4 = "?x3\<lparr>queue := ?q4, reading := [0 \<mapsto> [7, 7, 0, 0], 1 \<mapsto> [5, 0, 0, 0]],
    trace := trace ?x3 @ [Taken [7, 7, 0, 0], Taken [5, 0, 0, 0]]\<rparr>"
  have u: "mq_unlink ?q3 = Some (0, snd (the (mq_unlink ?q3)))"
    "mq_unlink (snd (the (mq_unlink ?q3))) = Some (1, ?q4)"
    "mq_data ?q3 0 = [7, 7, 0, 0]" "mq_data (snd (the (mq_unlink ?q3))) 1 = [5, 0, 0, 0]"
    by (simp_all add: sel)
  then have r4: "mq_reachable demo_mq ?x4"
    using run [OF run [OF r3 mq_step.unlink [of _ 0 "snd (the (mq_unlink ?q3))"]] mq_step.unlink [of _ 1 ?q4]]
    by simp
  let ?x5 = "?x4\<lparr>queue := mq_give_back 1 ?q4, reading := (reading ?x4)(1 := None), copied := [([5], [5])]\<rparr>"
  have "mq_read 1 1 ?q4 = [5]" by (simp add: sel)
  then have r5: "mq_reachable demo_mq ?x5"
    using run [OF r4 mq_step.copy [of _ 1 "[5, 0, 0, 0]" 1]] by simp
  have "entry (queue ?x5) = 1" by (simp add: sel)
  then show thesis by (intro that [OF r5]) simp_all
qed

section \<open>Properties\<close>

text \<open>
  C2: in every interleaving of sends, urgent sends, receives and resets, with messages of any
  size that the queue takes, the queue is a list of messages: a send appends, an urgent send
  goes to the front, a reset empties it, and the bytes a receive takes off begin with the first
  message of the list (behind a message shorter than a slot come bytes that the slot held
  before). The counter is the length of the list, a receive finds a message exactly if the list
  is not empty, a send that has its slot never fails to link it, and every receiver copies what
  its slot held when it was taken, whatever happens in between.
\<close>

theorem mq_is_fifo_under_interleaving:
  assumes "rt_mq_create sz msgs fl rq sq (Some mem) = Some mq"
    and "\<forall>i. length (mem i) = unat (ucast (RT_ALIGN sz) :: u16)" and "mq_reachable mq x"
  shows "\<exists>l. replay [] (trace x) = Some l \<and> unat (entry (queue x)) = length l \<and>
    (mq_unlink (queue x) = None \<longleftrightarrow> l = []) \<and>
    (\<forall>i xs. filled x i = Some (False, xs) \<longrightarrow> snd (mq_link_tail i (queue x)) = RT_EOK) \<and>
    (\<forall>i xs. filled x i = Some (True, xs) \<longrightarrow> snd (mq_link_head i (queue x)) = RT_EOK) \<and>
    (\<forall>(a, b) \<in> set (copied x). a = b)"
proof -
  have h: "mq_holds mq []" using create_holds(1) [OF assms(1)] assms(2) by blast
  obtain q f l where r: "run_inv x q f l" using run_reachable [OF assms(3) h] by blast
  note d = run_invD [OF r]
  have len: "length l = length q" using d(9) by (rule list_all2_lengthD)
  have "mq_unlink (queue x) = None \<longleftrightarrow> q = []"
    using mq_unlink_empty [of "queue x" f "busy x"] mq_unlink_inv [of "queue x" "hd q" "tl q" f "busy x"] d(1)
    by (cases q) auto
  then show ?thesis
    using d(8,10) mq_invD(10) [OF d(1)] len run_link_ok [OF r, of _ False] run_link_ok [OF r, of _ True]
    by (intro exI [of _ l]) auto
qed

theorem mq_is_fifo_under_interleaving_witness:
  "\<exists>x l. mq_reachable demo_mq x \<and>
     trace x = [Sent [5], Sent [1, 2, 3, 4], Jumped [7, 7], Taken [7, 7, 0, 0], Taken [5, 0, 0, 0]] \<and>
     copied x = [([5], [5])] \<and> replay [] (trace x) = Some l \<and> length l = 1"
proof -
  obtain x where x: "mq_reachable demo_mq x" "copied x = [([5], [5])]" "entry (queue x) = 1"
    "trace x = [Sent [5], Sent [1, 2, 3, 4], Jumped [7, 7], Taken [7, 7, 0, 0], Taken [5, 0, 0, 0]]"
    by (rule demo_mq_run)
  have "length ([0, 0, 0, 0] :: buf) = unat (ucast (RT_ALIGN 3) :: u16)" by code_simp
  then have l: "\<forall>i :: nat. length ((\<lambda>i. [0, 0, 0, 0] :: buf) i) = unat (ucast (RT_ALIGN 3) :: u16)"
    by simp
  show ?thesis
    using mq_is_fifo_under_interleaving [OF demo_mq_create l x(1)] x by (intro exI [of _ x]) auto
qed

text \<open>
  C8: the non-blocking calls refine a bounded queue: for every sequence of \<open>rt_mq_send\<close> and
  \<open>rt_mq_recv\<close> calls with full-size messages the replies are those of a list that accepts a
  message while it is shorter than the number of slots and gives the oldest message back.
\<close>

theorem mq_calls_refine_queue:
  assumes "mq_holds mq ms" "0 < unat (msg_size mq)"
    and "\<forall>xs. Put xs \<in> set ops \<longrightarrow> length xs = unat (msg_size mq)"
  shows "\<exists>mq' s'. impl_run call_send call_recv ops (mq, s) =
      (fst (spec_run (mq_capacity mq) ops ms), (mq', s')) \<and>
    mq_holds mq' (snd (spec_run (mq_capacity mq) ops ms))"
  using mq.run_refines [of "(mq, s)" ms ops] assms by (auto simp: call_holds_def mq_message_def)

theorem mq_calls_refine_queue_witness:
  "\<exists>mq mq' s'. rt_mq_create 4 1 RT_IPC_FLAG_PRIO 0 1 (Some (\<lambda>i. [0, 0, 0, 0])) = Some mq \<and>
    impl_run call_send call_recv [Put [1, 2, 3, 4], Put [5, 6, 7, 8], Get, Get] (mq, boot_kernel) =
      ([Accepted, Refused, Got [1, 2, 3, 4], Nothing], (mq', s'))"
proof -
  obtain mq where c: "rt_mq_create 4 1 RT_IPC_FLAG_PRIO 0 1 (Some (\<lambda>i. [0, 0, 0, 0])) = Some mq"
    using create_some by blast
  have l: "length ([0, 0, 0, 0] :: buf) = unat (ucast (RT_ALIGN 4) :: u16)" by code_simp
  have sz: "unat (ucast (RT_ALIGN 4) :: u16) = 4" by code_simp
  note h = create_holds [OF c l]
  have "\<exists>mq' s'. impl_run call_send call_recv [Put [1, 2, 3, 4], Put [5, 6, 7, 8], Get, Get] (mq, boot_kernel) =
      (fst (spec_run (mq_capacity mq) [Put [1, 2, 3, 4], Put [5, 6, 7, 8], Get, Get] []), (mq', s')) \<and>
    mq_holds mq' (snd (spec_run (mq_capacity mq) [Put [1, 2, 3, 4], Put [5, 6, 7, 8], Get, Get] []))"
    using h(1,3) sz by (intro mq_calls_refine_queue) auto
  then show ?thesis using h(2) c by auto
qed

text \<open>
  A reset throws every queued message away and leaves an empty queue with all its slots
  free, from whatever the queue held.
\<close>

theorem mq_reset_empties:
  assumes "mq_holds mq ms" "rt_mq_control mq True s = (mq', s', r)"
  shows "r = RT_EOK \<and> mq_holds mq' [] \<and> mq_capacity mq' = mq_capacity mq \<and> msg_size mq' = msg_size mq"
  using control_reset [OF assms] by simp

theorem mq_reset_empties_witness:
  "\<exists>mq mq1 mq' s'. rt_mq_create 4 2 RT_IPC_FLAG_PRIO 0 1 (Some (\<lambda>i. [0, 0, 0, 0])) = Some mq \<and>
     rt_mq_send mq [1, 2, 3, 4] boot_kernel = Some (mq1, boot_kernel, Return RT_EOK) \<and>
     rt_mq_control mq1 True boot_kernel = (mq', s', RT_EOK) \<and> mq_holds mq' []"
proof -
  obtain mq where c: "rt_mq_create 4 2 RT_IPC_FLAG_PRIO 0 1 (Some (\<lambda>i. [0, 0, 0, 0])) = Some mq"
    using create_some by blast
  have l: "length ([0, 0, 0, 0] :: buf) = unat (ucast (RT_ALIGN 4) :: u16)" by code_simp
  have sz: "unat (ucast (RT_ALIGN 4) :: u16) = 4" by code_simp
  note h = create_holds [OF c l]
  have b: "wake_first q boot_kernel = boot_kernel" for q
    by (simp add: wake_first_def boot_kernel_def rt_system_scheduler_init_def)
  obtain mq1 where s: "rt_mq_send mq [1, 2, 3, 4] boot_kernel = Some (mq1, boot_kernel, Return RT_EOK)"
    "mq_holds mq1 ([] @ [[1, 2, 3, 4]])"
    using send_accepts [OF h(1), of "[1, 2, 3, 4]" boot_kernel] h(2,3) sz
    by (auto simp: mq_message_def b)
  obtain mq' s' r where t: "rt_mq_control mq1 True boot_kernel = (mq', s', r)" by (rule prod_cases3)
  show ?thesis
    using mq_reset_empties [OF s(2) t] c s(1) t by auto
qed

end
