(* ===== verification/Memory.thy ===== *)
theory Memory
  imports Prelude
begin

text \<open>
  Byte memory with 32-bit addresses, shared by the flash driver and the memory functions of the
  kernel: reading and writing a run of bytes, and the range of addresses a run covers. Address
  arithmetic wraps.
\<close>

type_synonym mem = "u32 \<Rightarrow> u8"

fun mem_read :: "mem \<Rightarrow> u32 \<Rightarrow> nat \<Rightarrow> buf" where
  "mem_read m a 0 = []"
| "mem_read m a (Suc n) = m a # mem_read m (a + 1) n"

fun mem_write :: "u32 \<Rightarrow> buf \<Rightarrow> mem \<Rightarrow> mem" where
  "mem_write a [] m = m"
| "mem_write a (b # bs) m = mem_write (a + 1) bs (m(a := b))"

definition in_range :: "u32 \<Rightarrow> nat \<Rightarrow> u32 \<Rightarrow> bool" where
  "in_range a n x \<longleftrightarrow> unat (x - a) < n"

lemma unat_add_range:
  assumes "unat (a :: u32) + unat b < 2 ^ 32"
  shows "unat (a + b) = unat a + unat b"
  using assms by (simp add: unat_word_ariths)

lemma length_mem_read [simp]: "length (mem_read m a n) = n"
  by (induction n arbitrary: a) auto

lemma mem_read_nth [simp]: "i < n \<Longrightarrow> mem_read m a n ! i = m (a + of_nat i)"
  by (induction n arbitrary: a i) (auto simp: nth_Cons' algebra_simps)

lemma mem_read_eq_iff:
  "mem_read m a n = bs \<longleftrightarrow> length bs = n \<and> (\<forall>i < n. m (a + of_nat i) = bs ! i)"
  by (auto simp: list_eq_iff_nth_eq)

lemma mem_read_cong: "(\<And>i. i < n \<Longrightarrow> m (a + of_nat i) = m' (a + of_nat i)) \<Longrightarrow> mem_read m a n = mem_read m' a n"
  by (auto simp: mem_read_eq_iff)

lemma mem_read_append: "mem_read m a (i + j) = mem_read m a i @ mem_read m (a + of_nat i) j"
  by (induction i arbitrary: a) (auto simp: algebra_simps)

lemma in_range_offset [simp]: "k < 2 ^ 32 \<Longrightarrow> in_range a n (a + of_nat k) \<longleftrightarrow> k < n"
  by (simp add: in_range_def unsigned_of_nat take_bit_nat_eq_self)

lemma of_nat_inject_exact:
  assumes "i < 2 ^ 32" "j < 2 ^ 32" shows "(of_nat i :: u32) = of_nat j \<longleftrightarrow> i = j"
proof
  assume "(of_nat i :: u32) = of_nat j"
  then have "unat (of_nat i :: u32) = unat (of_nat j :: u32)" by simp
  then show "i = j" using assms by (simp add: unsigned_of_nat take_bit_nat_eq_self)
qed simp

lemma and_full_u8 [simp]: "255 AND (b :: u8) = b"
proof -
  have "(255 :: u8) = - 1" by simp
  then show ?thesis by (simp only: and.left_neutral)
qed

lemma not_in_range_0 [simp]: "\<not> in_range a 0 x"
  by (simp add: in_range_def)

lemma in_range_obtain:
  assumes "in_range a n x"
  obtains i where "i < n" "x = a + of_nat i" "i < 2 ^ 32"
proof
  show "unat (x - a) < n" using assms by (simp add: in_range_def)
  show "unat (x - a) < 2 ^ 32" using unsigned_less [of "x - a"] by simp
qed simp

lemma in_range_split:
  assumes "in_range (a + of_nat i) j x" "i + j \<le> 2 ^ 32"
  shows "in_range a (i + j) x"
proof -
  obtain k where k: "k < j" "x = (a + of_nat i) + of_nat k" "k < 2 ^ 32"
    using assms(1) by (rule in_range_obtain)
  have x: "x = a + of_nat (i + k)" using k(2) by (simp add: algebra_simps)
  show ?thesis unfolding x by (subst in_range_offset) (use k(1) assms(2) in auto)
qed

lemma in_range_iff:
  assumes "unat (a :: u32) + n < 2 ^ 32"
  shows "in_range a n x \<longleftrightarrow> unat a \<le> unat x \<and> unat x < unat a + n"
proof (cases "a \<le> x")
  case True
  then have "unat (x - a) = unat x - unat a" by (simp add: unat_sub)
  then show ?thesis using True by (auto simp: in_range_def word_le_nat_alt)
next
  case False
  have "\<not> in_range a n x"
  proof
    assume "in_range a n x"
    then obtain i where i: "i < n" "x = a + of_nat i" "i < 2 ^ 32" by (rule in_range_obtain)
    have u: "unat (of_nat i :: u32) = i" by (rule unat_of_nat32) (rule i(3))
    have "unat x = unat a + unat (of_nat i :: u32)"
      unfolding i(2) by (rule unat_add_range) (use i assms u in simp)
    then show False using False by (simp add: word_le_nat_alt)
  qed
  then show ?thesis using False by (simp add: word_le_nat_alt)
qed

lemma ranges_apart:
  assumes "in_range (a + of_nat k) l x" "k + l \<le> 2 ^ 32"
  shows "\<not> in_range a k x"
proof -
  obtain j where j: "j < l" "x = a + of_nat k + of_nat j" "j < 2 ^ 32" using assms(1) by (rule in_range_obtain)
  have x: "x = a + of_nat (k + j)" using j(2) by (simp add: algebra_simps)
  show ?thesis unfolding x by (subst in_range_offset) (use j(1) assms(2) in auto)
qed

lemma range_Suc: "n < 2 ^ 32 \<Longrightarrow> in_range a (Suc n) x \<longleftrightarrow> x = a \<or> in_range (a + 1) n x"
proof (cases "x = a")
  case False
  then have "x - a \<noteq> 0" by simp
  then have "unat (x - (a + 1)) = unat (x - a) - 1" "0 < unat (x - a)"
    by (simp_all add: unat_pred diff_diff_eq [symmetric] unat_gt_0 word_gt_0)
  then show ?thesis using False by (auto simp: in_range_def)
qed (simp add: in_range_def)

lemma mem_write_append: "mem_write a (xs @ ys) m = mem_write (a + of_nat (length xs)) ys (mem_write a xs m)"
  by (induction xs arbitrary: a m) (simp_all add: algebra_simps)

lemma mem_read_write: "length bs < 2 ^ 32 \<Longrightarrow> mem_read (mem_write a bs m) a (length bs) = bs"
proof (induction bs arbitrary: a m)
  case (Cons b bs)
  have keep: "mem_write a' cs m' x = m' x" if "\<not> in_range a' (length cs) x" "length cs < 2 ^ 32" for a' cs m' x
    using that
  proof (induction cs arbitrary: a' m')
    case (Cons c cs)
    then show ?case using range_Suc [of "length cs" a' x] by auto
  qed simp
  have "\<not> in_range (a + 1) (length bs) a"
    using Cons.prems by (simp add: in_range_def unsigned_minus_1_eq_mask mask_eq_exp_minus_1)
  then show ?case using Cons keep [of "a + 1" bs a] by simp
qed simp

end
