(* ===== verification/FlashF4.thy ===== *)
theory FlashF4
  imports Kernel Memory
begin

text \<open>
  The driver of the on-chip flash, \<open>src/drivers/drv_flash_f4.c\<close>, for the STM32F407 with its
  twelve sectors. The memory is a map from 32-bit addresses to bytes, and address arithmetic
  wraps as in the code. Programming and erasing are done by the vendor HAL on the flash
  controller; both are an argument of the driver, \<open>flash_hw\<close>, with the new memory and
  whether the HAL reported success. \<open>nor_flash\<close> is what the reference manual promises of them:
  programming can only clear bits, erasing sets whole sectors to ones.
\<close>

section \<open>Memory and controller\<close>

record flash_hw =
  hw_program :: "u32 \<Rightarrow> buf \<Rightarrow> mem \<Rightarrow> mem \<times> bool"
  hw_erase :: "u32 \<Rightarrow> u32 \<Rightarrow> mem \<Rightarrow> mem \<times> bool"

definition STM32_FLASH_END_ADDRESS :: u32 where
  "STM32_FLASH_END_ADDRESS = 0x08000000 + 1024 * 1024"

section \<open>Driver\<close>

definition GetSector :: "u32 \<Rightarrow> u32" where
  "GetSector Address =
     (if Address < 0x08004000 \<and> 0x08000000 \<le> Address then 0
      else if Address < 0x08008000 \<and> 0x08004000 \<le> Address then 1
      else if Address < 0x0800C000 \<and> 0x08008000 \<le> Address then 2
      else if Address < 0x08010000 \<and> 0x0800C000 \<le> Address then 3
      else if Address < 0x08020000 \<and> 0x08010000 \<le> Address then 4
      else if Address < 0x08040000 \<and> 0x08020000 \<le> Address then 5
      else if Address < 0x08060000 \<and> 0x08040000 \<le> Address then 6
      else if Address < 0x08080000 \<and> 0x08060000 \<le> Address then 7
      else if Address < 0x080A0000 \<and> 0x08080000 \<le> Address then 8
      else if Address < 0x080C0000 \<and> 0x080A0000 \<le> Address then 9
      else if Address < 0x080E0000 \<and> 0x080C0000 \<le> Address then 10
      else if Address < 0x08100000 \<and> 0x080E0000 \<le> Address then 11
      else 0)"

definition stm32_flash_read :: "u32 \<Rightarrow> u32 \<Rightarrow> mem \<Rightarrow> buf \<times> int" where
  "stm32_flash_read addr sz m =
     (if STM32_FLASH_END_ADDRESS < addr + sz then ([], - 1)
      else (mem_read m addr (unat sz), sint sz))"

text \<open>
  The write loop. \<open>a\<close> is \<open>addr + written_size\<close> and \<open>bs\<close> the bytes not yet written; a word, a
  half word or a byte is programmed by the alignment of the address and the bytes left, and
  read back.
\<close>

definition unit_size :: "u32 \<Rightarrow> nat \<Rightarrow> nat" where
  "unit_size a n =
     (if a mod 4 = 0 \<and> 4 \<le> n then 4 else if a mod 2 = 0 \<and> 2 \<le> n then 2 else 1)"

function flash_program :: "flash_hw \<Rightarrow> u32 \<Rightarrow> buf \<Rightarrow> mem \<Rightarrow> mem \<times> int" where
  "flash_program hw a bs m =
     (if bs = [] then (m, RT_EOK)
      else let n = unit_size a (length bs);
               (m', ok) = hw_program hw a (take n bs) m
           in if ok \<and> mem_read m' a n = take n bs
              then flash_program hw (a + of_nat n) (drop n bs) m'
              else (m', - RT_ERROR))"
  by auto
termination
  by (relation "measure (\<lambda>(hw, a, bs, m). length bs)") (auto simp: unit_size_def)

declare flash_program.simps [simp del]

definition stm32_flash_write :: "flash_hw \<Rightarrow> u32 \<Rightarrow> buf \<Rightarrow> u32 \<Rightarrow> mem \<Rightarrow> (mem \<times> int) option" where
  "stm32_flash_write hw addr bs sz m =
     (if STM32_FLASH_END_ADDRESS < addr + sz then Some (m, - RT_EINVAL)
      else if sz < 1 then Some (m, - RT_EINVAL)
      else if length bs < unat sz then None
      else let (m', result) = flash_program hw addr (take (unat sz) bs) m
           in Some (m', if result \<noteq> RT_EOK then result else sint sz))"

definition stm32_flash_erase :: "flash_hw \<Rightarrow> u32 \<Rightarrow> u32 \<Rightarrow> mem \<Rightarrow> mem \<times> int" where
  "stm32_flash_erase hw addr sz m =
     (if STM32_FLASH_END_ADDRESS < addr + sz then (m, - RT_EINVAL)
      else if sz < 1 then (m, - RT_EINVAL)
      else let FirstSector = GetSector addr;
               NbOfSectors = GetSector (addr + sz - 1) - FirstSector + 1;
               (m', ok) = hw_erase hw FirstSector NbOfSectors m
           in (m', if ok then sint sz else - RT_ERROR))"

section \<open>What the controller promises\<close>

text \<open>
  The sectors in order: four of 16 KB, one of 64 KB, seven of 128 KB; \<open>sector_base 12\<close> is the
  end of the flash.
\<close>

definition sector_base :: "nat \<Rightarrow> u32" where
  "sector_base k =
     [0x08000000, 0x08004000, 0x08008000, 0x0800C000, 0x08010000, 0x08020000, 0x08040000,
      0x08060000, 0x08080000, 0x080A0000, 0x080C0000, 0x080E0000, 0x08100000] ! k"

definition in_sectors :: "u32 \<Rightarrow> u32 \<Rightarrow> u32 \<Rightarrow> bool" where
  "in_sectors first n x \<longleftrightarrow>
     sector_base (unat first) \<le> x \<and> x < sector_base (unat first + unat n)"

text \<open>
  Programming touches only the bytes addressed, and when it reports success each of them is
  the old byte with the bits of the new one cleared that the old one had cleared. Erasing
  touches only the sectors named, and when it reports success they hold \<open>0xFF\<close>.
\<close>

definition nor_flash :: "flash_hw \<Rightarrow> bool" where
  "nor_flash hw \<longleftrightarrow>
     (\<forall>a bs m m' ok x. hw_program hw a bs m = (m', ok) \<and> \<not> in_range a (length bs) x \<longrightarrow> m' x = m x) \<and>
     (\<forall>a bs m m' i. hw_program hw a bs m = (m', True) \<and> length bs \<le> 4 \<and> i < length bs \<longrightarrow>
        m' (a + of_nat i) = m (a + of_nat i) AND bs ! i) \<and>
     (\<forall>f n m m' ok x. hw_erase hw f n m = (m', ok) \<and> unat f + unat n \<le> 12 \<and>
        \<not> in_sectors f n x \<longrightarrow> m' x = m x) \<and>
     (\<forall>f n m m' x. hw_erase hw f n m = (m', True) \<and> unat f + unat n \<le> 12 \<and>
        in_sectors f n x \<longrightarrow> m' x = 0xFF)"

text \<open>A controller that never reports an error.\<close>

definition no_fault :: "flash_hw \<Rightarrow> bool" where
  "no_fault hw \<longleftrightarrow> (\<forall>a bs m. snd (hw_program hw a bs m)) \<and> (\<forall>f n m. snd (hw_erase hw f n m))"

lemma nor_program_frame:
  "nor_flash hw \<Longrightarrow> hw_program hw a bs m = (m', ok) \<Longrightarrow> \<not> in_range a (length bs) x \<Longrightarrow> m' x = m x"
  unfolding nor_flash_def by metis

lemma nor_program:
  "nor_flash hw \<Longrightarrow> hw_program hw a bs m = (m', True) \<Longrightarrow> length bs \<le> 4 \<Longrightarrow> i < length bs \<Longrightarrow>
     m' (a + of_nat i) = m (a + of_nat i) AND bs ! i"
  unfolding nor_flash_def by metis

lemma nor_erase_frame:
  "nor_flash hw \<Longrightarrow> hw_erase hw f n m = (m', ok) \<Longrightarrow> unat f + unat n \<le> 12 \<Longrightarrow>
     \<not> in_sectors f n x \<Longrightarrow> m' x = m x"
  unfolding nor_flash_def by metis

lemma nor_erase:
  "nor_flash hw \<Longrightarrow> hw_erase hw f n m = (m', True) \<Longrightarrow> unat f + unat n \<le> 12 \<Longrightarrow>
     in_sectors f n x \<Longrightarrow> m' x = 0xFF"
  unfolding nor_flash_def by metis

section \<open>The write loop\<close>

lemma unit_size_bounds: "bs \<noteq> [] \<Longrightarrow> 1 \<le> unit_size a (length bs) \<and> unit_size a (length bs) \<le> length bs \<and> unit_size a (length bs) \<le> 4"
  by (cases bs) (auto simp: unit_size_def)

lemma flash_program_Nil [simp]: "flash_program hw a [] m = (m, RT_EOK)"
  by (subst flash_program.simps) simp

lemma flash_program_step:
  assumes "bs \<noteq> []" "hw_program hw a (take n bs) m = (m1, ok)" "n = unit_size a (length bs)"
  shows "flash_program hw a bs m =
    (if ok \<and> mem_read m1 a n = take n bs then flash_program hw (a + of_nat n) (drop n bs) m1
     else (m1, - RT_ERROR))"
  using assms by (subst flash_program.simps) (simp add: Let_def)

lemma flash_program_writes:
  assumes "nor_flash hw" "flash_program hw a bs m = (m', r)" "length bs < 2 ^ 32"
  shows "(r = RT_EOK \<or> r = - RT_ERROR) \<and> (\<forall>x. \<not> in_range a (length bs) x \<longrightarrow> m' x = m x) \<and>
    (r = RT_EOK \<longrightarrow> mem_read m' a (length bs) = bs)"
  using assms(2,3)
proof (induction bs arbitrary: a m m' rule: length_induct)
  case (1 bs)
  show ?case
  proof (cases "bs = []")
    case True
    then show ?thesis using 1(2) by (simp add: flash_program.simps)
  next
    case False
    define n where "n = unit_size a (length bs)"
    obtain m1 ok where p: "hw_program hw a (take n bs) m = (m1, ok)" by fastforce
    have n: "1 \<le> n" "n \<le> length bs" using unit_size_bounds [OF False] n_def by auto
    have len: "length (take n bs) = n" "n + length (drop n bs) = length bs" using n by auto
    have frame1: "m1 x = m x" if "\<not> in_range a (length bs) x" for x
    proof -
      have "\<not> in_range a n x" using that n by (auto simp: in_range_def)
      then show ?thesis using nor_program_frame [OF assms(1) p] unfolding len(1) by blast
    qed
    show ?thesis
    proof (cases "ok \<and> mem_read m1 a n = take n bs")
      case False
      then have "m' = m1" "r = - RT_ERROR"
        using 1(2) flash_program_step [OF \<open>bs \<noteq> []\<close> p n_def] by auto
      then show ?thesis using frame1 by (simp add: RT_EOK_def RT_ERROR_def)
    next
      case True
      then have rest: "flash_program hw (a + of_nat n) (drop n bs) m1 = (m', r)"
        using 1(2) flash_program_step [OF \<open>bs \<noteq> []\<close> p n_def] by simp
      have short: "length (drop n bs) < length bs" "length (drop n bs) < 2 ^ 32" using n 1(3) by auto
      note IH = 1(1) [rule_format, OF short(1) rest short(2)]
      have frame2: "m' x = m1 x" if "\<not> in_range a (length bs) x" for x
      proof -
        have "\<not> in_range (a + of_nat n) (length (drop n bs)) x"
          using that in_range_split [of a n "length (drop n bs)" x] 1(3) unfolding len(2) by auto
        then show ?thesis using IH by blast
      qed
      have low: "mem_read m' a n = mem_read m1 a n"
      proof (rule mem_read_cong)
        fix i assume i: "i < n"
        have "\<not> in_range (a + of_nat n) (length (drop n bs)) (a + of_nat i)"
        proof
          assume "in_range (a + of_nat n) (length (drop n bs)) (a + of_nat i)"
          then obtain k where k: "k < length (drop n bs)" "a + of_nat i = a + of_nat n + of_nat k"
            by (rule in_range_obtain)
          have "(of_nat i :: u32) = of_nat (n + k)" using k(2) by (simp add: algebra_simps)
          moreover have "n + k < 2 ^ 32" "i < 2 ^ 32" using k(1) 1(3) i n by auto
          ultimately have "i = n + k" using of_nat_inject_exact [of i "n + k"] by simp
          then show False using i by simp
        qed
        then show "m' (a + of_nat i) = m1 (a + of_nat i)" using IH by blast
      qed
      have "mem_read m' a (length bs) = bs" if "r = RT_EOK"
        using IH that low True n by (subst len(2) [symmetric], subst mem_read_append) auto
      then show ?thesis using IH frame1 frame2 by auto
    qed
  qed
qed

lemma flash_program_erased:
  assumes "nor_flash hw" "no_fault hw" "length bs < 2 ^ 32"
    and "\<And>i. i < length bs \<Longrightarrow> m (a + of_nat i) = 0xFF"
  shows "snd (flash_program hw a bs m) = RT_EOK"
  using assms(3,4)
proof (induction bs arbitrary: a m rule: length_induct)
  case (1 bs)
  show ?case
  proof (cases "bs = []")
    case False
    define n where "n = unit_size a (length bs)"
    obtain m1 ok where p: "hw_program hw a (take n bs) m = (m1, ok)" by fastforce
    have n: "1 \<le> n" "n \<le> length bs" "n \<le> 4" using unit_size_bounds [OF False] n_def by auto
    have ok: "ok" using assms(2) p by (metis no_fault_def snd_conv)
    then have p1: "hw_program hw a (take n bs) m = (m1, True)" using p by simp
    have lt: "length (take n bs) = n" "n + length (drop n bs) = length bs" using n by auto
    have readback: "mem_read m1 a n = take n bs"
      unfolding mem_read_eq_iff
    proof (intro conjI allI impI)
      fix i assume i: "i < n"
      have "m1 (a + of_nat i) = m (a + of_nat i) AND take n bs ! i"
        by (rule nor_program [OF assms(1) p1]) (use i n lt in auto)
      also have "m (a + of_nat i) = 0xFF" using 1(3) i n by simp
      finally show "m1 (a + of_nat i) = take n bs ! i"
        by (simp add: and_full_u8)
    qed (rule lt(1))
    have m1: "m1 (a + of_nat n + of_nat i) = 0xFF" if i: "i < length (drop n bs)" for i
    proof -
      have k: "n + i < length bs" using i lt(2) by linarith
      then have "\<not> in_range a (length (take n bs)) (a + of_nat (n + i))"
        using in_range_offset [of "n + i" a n] 1(2) lt(1) by simp
      then have "m1 (a + of_nat (n + i)) = m (a + of_nat (n + i))"
        by (rule nor_program_frame [OF assms(1) p])
      then show ?thesis using 1(3) [OF k] by (simp add: algebra_simps)
    qed
    have "snd (flash_program hw (a + of_nat n) (drop n bs) m1) = RT_EOK"
      by (rule 1(1) [rule_format]) (use n 1(2) m1 in auto)
    then show ?thesis
      using flash_program_step [OF False p n_def] ok readback by simp
  qed simp
qed

section \<open>Sectors and erasing\<close>

lemma sector_base_values:
  "sector_base 0 = 0x08000000" "sector_base (Suc 0) = 0x08004000" "sector_base 2 = 0x08008000"
  "sector_base 3 = 0x0800C000" "sector_base 4 = 0x08010000" "sector_base 5 = 0x08020000"
  "sector_base 6 = 0x08040000" "sector_base 7 = 0x08060000" "sector_base 8 = 0x08080000"
  "sector_base 9 = 0x080A0000" "sector_base 10 = 0x080C0000" "sector_base 11 = 0x080E0000"
  "sector_base 12 = 0x08100000" "sector_base (Suc (Suc 0)) = 0x08008000"
  by (simp_all add: sector_base_def)

lemma GetSector_at:
  assumes "k < 12" "sector_base k \<le> a" "a < sector_base (Suc k)"
  shows "GetSector a = of_nat k"
proof -
  have "k \<in> {0, 1, 2, 3, 4, 5, 6, 7, 8, 9, 10, 11}" using assms(1) unfolding insert_iff empty_iff by presburger
  then show ?thesis
    using assms(2,3) unfolding GetSector_def word_less_nat_alt word_le_nat_alt
    by (elim insertE; simp add: sector_base_values)
qed

lemma GetSector_brackets:
  assumes "0x08000000 \<le> a" "a < 0x08100000"
  obtains k where "k < 12" "GetSector a = of_nat k" "sector_base k \<le> a" "a < sector_base (Suc k)"
proof -
  have "a < sector_base n \<Longrightarrow> n \<le> 12 \<Longrightarrow> \<exists>k < n. sector_base k \<le> a \<and> a < sector_base (Suc k)" for n
  proof (induction n)
    case 0
    then show ?case using assms(1) by (simp add: sector_base_values not_less)
  next
    case (Suc n)
    then show ?case by (cases "a < sector_base n") (auto simp: not_less intro: less_SucI)
  qed
  from this [of 12] obtain k where "k < 12" "sector_base k \<le> a" "a < sector_base (Suc k)"
    using assms(2) by (auto simp: sector_base_values)
  with GetSector_at that show thesis by blast
qed

lemma sector_base_strict: "j < k \<Longrightarrow> k \<le> 12 \<Longrightarrow> sector_base j < sector_base k"
proof (induction k)
  case (Suc k)
  have step: "sector_base k < sector_base (Suc k)"
  proof -
    have "k \<in> {0, 1, 2, 3, 4, 5, 6, 7, 8, 9, 10, 11}"
      using Suc.prems unfolding insert_iff empty_iff by presburger
    then show ?thesis by (elim insertE; simp add: sector_base_values)
  qed
  show ?case
  proof (cases "j = k")
    case False
    then have "sector_base j < sector_base k" using Suc by simp
    then show ?thesis using step by (rule less_trans)
  qed (use step in simp)
qed simp

lemma sector_base_mono: "j \<le> k \<Longrightarrow> k \<le> 12 \<Longrightarrow> sector_base j \<le> sector_base k"
  using sector_base_strict [of j k] by (cases "j = k") auto

text \<open>
  The whole sectors that an erase of the range touches, from the sector of its first byte
  to the sector of its last.
\<close>

definition touched :: "u32 \<Rightarrow> u32 \<Rightarrow> u32 \<Rightarrow> bool" where
  "touched addr sz x \<longleftrightarrow>
     sector_base (unat (GetSector addr)) \<le> x \<and>
     x < sector_base (Suc (unat (GetSector (addr + sz - 1))))"

lemma range_in_flash:
  assumes "0x08000000 \<le> addr" "0 < sz" "unat addr + unat sz \<le> 0x08100000"
  shows "unat (addr + sz) = unat addr + unat sz" "unat (addr + sz - 1) = unat addr + unat sz - 1"
    "\<not> STM32_FLASH_END_ADDRESS < addr + sz" "\<not> sz < 1"
    "addr < 0x08100000" "0x08000000 \<le> addr + sz - 1" "addr + sz - 1 < 0x08100000"
    "addr \<le> addr + sz - 1"
proof -
  show 1: "unat (addr + sz) = unat addr + unat sz"
    by (rule unat_add_range) (use assms(3) in simp)
  have pos: "0 < unat sz" using assms(2) by (simp add: unat_gt_0)
  then have "addr + sz \<noteq> 0" using 1 by (metis add_is_0 less_irrefl unat_0)
  then show 2: "unat (addr + sz - 1) = unat addr + unat sz - 1"
    using 1 by (simp add: unat_pred)
  show "\<not> STM32_FLASH_END_ADDRESS < addr + sz"
    unfolding word_less_nat_alt 1 using assms(3) by (simp add: STM32_FLASH_END_ADDRESS_def)
  show "\<not> sz < 1" using pos by (simp add: word_less_nat_alt)
  show "addr < 0x08100000" using assms(3) pos by (simp add: word_less_nat_alt)
  show "0x08000000 \<le> addr + sz - 1" "addr + sz - 1 < 0x08100000" "addr \<le> addr + sz - 1"
    unfolding word_le_nat_alt word_less_nat_alt 2 using assms pos
    by (simp_all add: word_le_nat_alt)
qed

lemma erase_sectors:
  assumes "0x08000000 \<le> addr" "0 < sz" "unat addr + unat sz \<le> 0x08100000"
  defines "f \<equiv> GetSector addr" and "l \<equiv> GetSector (addr + sz - 1)"
  shows "unat f + unat (l - f + 1) \<le> 12" "in_sectors f (l - f + 1) x \<longleftrightarrow> touched addr sz x"
    "in_range addr (unat sz) x \<Longrightarrow> touched addr sz x"
proof -
  note r = range_in_flash [OF assms(1-3)]
  obtain i where i: "i < 12" "f = of_nat i" "sector_base i \<le> addr" "addr < sector_base (Suc i)"
    using GetSector_brackets [OF assms(1) r(5)] unfolding f_def by metis
  obtain j where j: "j < 12" "l = of_nat j" "sector_base j \<le> addr + sz - 1" "addr + sz - 1 < sector_base (Suc j)"
    using GetSector_brackets [OF r(6,7)] unfolding l_def by metis
  have ij: "i \<le> j"
  proof (rule ccontr)
    assume "\<not> i \<le> j"
    then have "sector_base (Suc j) \<le> sector_base i" using i(1) by (intro sector_base_mono) auto
    then show False using i(3) j(4) r(8) by (meson leD less_le_trans order_trans)
  qed
  have u: "unat f = i" "unat l = j" using i(1,2) j(1,2) by (simp_all add: unsigned_of_nat take_bit_nat_eq_self)
  have "l - f + 1 = of_nat (j - i + 1)" using i(2) j(2) ij by (simp add: of_nat_diff)
  moreover have "unat (of_nat (j - i + 1) :: u32) = j - i + 1"
    by (rule unat_of_nat32) (use j(1) in simp)
  ultimately have n: "unat (l - f + 1) = j - i + 1" by (simp add: add.commute)
  show "unat f + unat (l - f + 1) \<le> 12" using u n ij j(1) by simp
  show "in_sectors f (l - f + 1) x \<longleftrightarrow> touched addr sz x"
    using u n ij by (simp add: in_sectors_def touched_def f_def [symmetric] l_def [symmetric] Suc_diff_le)
  assume "in_range addr (unat sz) x"
  then obtain k where k: "k < unat sz" "x = addr + of_nat k" "k < 2 ^ 32" by (rule in_range_obtain)
  have "unat x = unat addr + k"
    using k assms(3) by (simp add: unat_word_ariths unsigned_of_nat take_bit_nat_eq_self)
  then have "addr \<le> x" "x \<le> addr + sz - 1"
    using k(1) r(2) by (auto simp: word_le_nat_alt)
  then show "touched addr sz x"
    using i(3) j(4) u by (auto simp: touched_def f_def [symmetric] l_def [symmetric])
qed

lemma sint_flash_size:
  assumes "unat addr + unat sz \<le> 0x08100000"
  shows "sint (sz :: u32) = int (unat sz)"
proof -
  have u: "uint sz = int (unat sz)" by simp
  have "unat sz < 2 ^ 31" using assms by simp
  then have "uint sz < 2 ^ 31" unfolding u by (simp del: of_nat_unat)
  moreover have "- (2 ^ 31) \<le> (0 :: int)" "0 \<le> uint sz" by simp_all
  ultimately have "signed_take_bit 31 (uint sz) = uint sz"
    by (intro signed_take_bit_int_eq_self) linarith+
  then show ?thesis by (simp add: sint_uint)
qed

section \<open>The driver\<close>

text \<open>
  A write inside the flash: on success the range holds the buffer, and whatever happens
  nothing outside the range changes.
\<close>

lemma write_in_flash:
  assumes "nor_flash hw" "0x08000000 \<le> addr" "0 < sz" "unat addr + unat sz \<le> 0x08100000"
    and "unat sz \<le> length bs" "stm32_flash_write hw addr bs sz m = Some (m', r)"
  shows "r = int (unat sz) \<or> r = - RT_ERROR" "\<not> in_range addr (unat sz) x \<Longrightarrow> m' x = m x"
    "r = int (unat sz) \<Longrightarrow> mem_read m' addr (unat sz) = take (unat sz) bs"
    "no_fault hw \<Longrightarrow> (\<And>x. in_range addr (unat sz) x \<Longrightarrow> m x = 0xFF) \<Longrightarrow> r = int (unat sz)"
proof -
  note f = range_in_flash [OF assms(2-4)]
  let ?bs = "take (unat sz) bs"
  obtain m1 e where w: "flash_program hw addr ?bs m = (m1, e)" by fastforce
  have len: "length ?bs = unat sz" "length ?bs < 2 ^ 32" using assms(4,5) by auto
  have out: "m' = m1" "r = (if e = RT_EOK then int (unat sz) else e)"
    using assms(5,6) f(3,4) w sint_flash_size [OF assms(4)]
    by (auto simp: stm32_flash_write_def simp del: of_nat_unat)
  note p = flash_program_writes [OF assms(1) w len(2), unfolded len(1)]
  show "r = int (unat sz) \<or> r = - RT_ERROR" using out p by auto
  show "m' x = m x" if "\<not> in_range addr (unat sz) x" using out p that by blast
  show "mem_read m' addr (unat sz) = ?bs" if "r = int (unat sz)"
    
  proof -
    have "r \<noteq> - RT_ERROR" using that by (simp add: RT_ERROR_def del: of_nat_unat)
    then show ?thesis using out p by (auto simp: split: if_splits)
  qed
  show "r = int (unat sz)" if h: "no_fault hw" "\<And>x. in_range addr (unat sz) x \<Longrightarrow> m x = 0xFF"
  proof -
    have "snd (flash_program hw addr ?bs m) = RT_EOK"
    proof (rule flash_program_erased [OF assms(1) h(1) len(2)])
      fix i assume "i < length ?bs"
      then show "m (addr + of_nat i) = 0xFF" using h(2) in_range_offset [of i addr "unat sz"] len by simp
    qed
    then show ?thesis using out w by simp
  qed
qed

lemma erase_in_flash:
  assumes "nor_flash hw" "0x08000000 \<le> addr" "0 < sz" "unat addr + unat sz \<le> 0x08100000"
    and "stm32_flash_erase hw addr sz m = (m', r)"
  shows "r = int (unat sz) \<or> r = - RT_ERROR" "\<not> touched addr sz x \<Longrightarrow> m' x = m x"
    "r = int (unat sz) \<Longrightarrow> touched addr sz x \<Longrightarrow> m' x = 0xFF"
    "no_fault hw \<Longrightarrow> r = int (unat sz)"
proof -
  note f = range_in_flash [OF assms(2-4)]
  note e = erase_sectors [OF assms(2-4)]
  obtain m1 ok where w: "hw_erase hw (GetSector addr) (GetSector (addr + sz - 1) - GetSector addr + 1) m = (m1, ok)"
    by fastforce
  have out: "m' = m1" "r = (if ok then int (unat sz) else - RT_ERROR)"
    using assms(5) f(3,4) w sint_flash_size [OF assms(4)]
    by (auto simp: stm32_flash_erase_def Let_def simp del: of_nat_unat)
  show "r = int (unat sz) \<or> r = - RT_ERROR" using out by simp
  show "m' x = m x" if "\<not> touched addr sz x"
    using nor_erase_frame [OF assms(1) w e(1)] e(2) that out by simp
  show "m' x = 0xFF" if "r = int (unat sz)" "touched addr sz x"
  proof -
    have "ok" using that(1) out by (auto simp: RT_ERROR_def simp del: of_nat_unat split: if_splits)
    then show ?thesis using nor_erase [OF assms(1) _ e(1)] e(2) that(2) w out by simp
  qed
  show "r = int (unat sz)" if "no_fault hw"
  proof -
    have "ok" using that w by (metis no_fault_def snd_conv)
    then show ?thesis using out by simp
  qed
qed

lemma read_in_flash:
  assumes "0x08000000 \<le> addr" "0 < sz" "unat addr + unat sz \<le> 0x08100000"
  shows "stm32_flash_read addr sz m = (mem_read m addr (unat sz), int (unat sz))"
  using range_in_flash [OF assms] sint_flash_size [OF assms(3)]
  by (simp add: stm32_flash_read_def del: of_nat_unat)

end
