(* ===== verification/Fal.thy ===== *)
theory Fal
  imports FlashF4
begin

text \<open>
  The flash abstraction layer, \<open>src/rt-thread/components/fal/src\<close>, with the device and
  partition tables of \<open>src/applications/fal_cfg.h\<close>: initialisation, lookup by name, and
  reading, writing and erasing a partition. A partition pointer is an index into the
  partition table. \<open>FAL_DEBUG\<close> is 1 in \<open>rtconfig.h\<close>, so an assertion of the layer that fails prints a
  line and loops for ever: \<open>None\<close>.
\<close>

section \<open>Devices\<close>

record fal_flash_dev =
  dev_name :: string
  dev_addr :: u32
  dev_len :: u32
  blk_size :: u32
  ops_init :: "(mem \<Rightarrow> mem) option"
  ops_read :: "u32 \<Rightarrow> u32 \<Rightarrow> mem \<Rightarrow> buf \<times> int"
  ops_write :: "flash_hw \<Rightarrow> u32 \<Rightarrow> buf \<Rightarrow> u32 \<Rightarrow> mem \<Rightarrow> (mem \<times> int) option"
  ops_erase :: "flash_hw \<Rightarrow> u32 \<Rightarrow> u32 \<Rightarrow> mem \<Rightarrow> mem \<times> int"

definition STM32_FLASH_START_ADRESS_16K :: u32 where "STM32_FLASH_START_ADRESS_16K = 0x08000000"
definition STM32_FLASH_START_ADRESS_64K :: u32 where "STM32_FLASH_START_ADRESS_64K = 0x08010000"
definition STM32_FLASH_START_ADRESS_128K :: u32 where "STM32_FLASH_START_ADRESS_128K = 0x08020000"

definition fal_flash_read_16k :: "u32 \<Rightarrow> u32 \<Rightarrow> mem \<Rightarrow> buf \<times> int" where
  "fal_flash_read_16k off sz m = stm32_flash_read (STM32_FLASH_START_ADRESS_16K + off) sz m"

definition fal_flash_read_64k :: "u32 \<Rightarrow> u32 \<Rightarrow> mem \<Rightarrow> buf \<times> int" where
  "fal_flash_read_64k off sz m = stm32_flash_read (STM32_FLASH_START_ADRESS_64K + off) sz m"

definition fal_flash_read_128k :: "u32 \<Rightarrow> u32 \<Rightarrow> mem \<Rightarrow> buf \<times> int" where
  "fal_flash_read_128k off sz m = stm32_flash_read (STM32_FLASH_START_ADRESS_128K + off) sz m"

definition fal_flash_write_16k :: "flash_hw \<Rightarrow> u32 \<Rightarrow> buf \<Rightarrow> u32 \<Rightarrow> mem \<Rightarrow> (mem \<times> int) option" where
  "fal_flash_write_16k hw off bs sz m = stm32_flash_write hw (STM32_FLASH_START_ADRESS_16K + off) bs sz m"

definition fal_flash_write_64k :: "flash_hw \<Rightarrow> u32 \<Rightarrow> buf \<Rightarrow> u32 \<Rightarrow> mem \<Rightarrow> (mem \<times> int) option" where
  "fal_flash_write_64k hw off bs sz m = stm32_flash_write hw (STM32_FLASH_START_ADRESS_64K + off) bs sz m"

definition fal_flash_write_128k :: "flash_hw \<Rightarrow> u32 \<Rightarrow> buf \<Rightarrow> u32 \<Rightarrow> mem \<Rightarrow> (mem \<times> int) option" where
  "fal_flash_write_128k hw off bs sz m = stm32_flash_write hw (STM32_FLASH_START_ADRESS_128K + off) bs sz m"

definition fal_flash_erase_16k :: "flash_hw \<Rightarrow> u32 \<Rightarrow> u32 \<Rightarrow> mem \<Rightarrow> mem \<times> int" where
  "fal_flash_erase_16k hw off sz m = stm32_flash_erase hw (STM32_FLASH_START_ADRESS_16K + off) sz m"

definition fal_flash_erase_64k :: "flash_hw \<Rightarrow> u32 \<Rightarrow> u32 \<Rightarrow> mem \<Rightarrow> mem \<times> int" where
  "fal_flash_erase_64k hw off sz m = stm32_flash_erase hw (STM32_FLASH_START_ADRESS_64K + off) sz m"

definition fal_flash_erase_128k :: "flash_hw \<Rightarrow> u32 \<Rightarrow> u32 \<Rightarrow> mem \<Rightarrow> mem \<times> int" where
  "fal_flash_erase_128k hw off sz m = stm32_flash_erase hw (STM32_FLASH_START_ADRESS_128K + off) sz m"

definition stm32_onchip_flash_16k :: fal_flash_dev where
  "stm32_onchip_flash_16k = \<lparr>dev_name = ''onchip_flash_16k'', dev_addr = STM32_FLASH_START_ADRESS_16K,
     dev_len = 4 * 16 * 1024, blk_size = 16 * 1024, ops_init = None, ops_read = fal_flash_read_16k,
     ops_write = fal_flash_write_16k, ops_erase = fal_flash_erase_16k\<rparr>"

definition stm32_onchip_flash_64k :: fal_flash_dev where
  "stm32_onchip_flash_64k = \<lparr>dev_name = ''onchip_flash_64k'', dev_addr = STM32_FLASH_START_ADRESS_64K,
     dev_len = 64 * 1024, blk_size = 64 * 1024, ops_init = None, ops_read = fal_flash_read_64k,
     ops_write = fal_flash_write_64k, ops_erase = fal_flash_erase_64k\<rparr>"

definition stm32_onchip_flash_128k :: fal_flash_dev where
  "stm32_onchip_flash_128k = \<lparr>dev_name = ''onchip_flash_128k'', dev_addr = STM32_FLASH_START_ADRESS_128K,
     dev_len = 7 * 128 * 1024, blk_size = 128 * 1024, ops_init = None, ops_read = fal_flash_read_128k,
     ops_write = fal_flash_write_128k, ops_erase = fal_flash_erase_128k\<rparr>"

definition device_table :: "fal_flash_dev list" where
  "device_table = [stm32_onchip_flash_128k]"

section \<open>Partitions and state of the layer\<close>

record fal_partition =
  magic_word :: u32
  part_name :: string
  flash_name :: string
  offset :: u32
  part_len :: u32

definition FAL_PART_MAGIC_WORD :: u32 where "FAL_PART_MAGIC_WORD = 0x45503130"

definition partition_table_def :: "fal_partition list" where
  "partition_table_def =
    [\<lparr>magic_word = FAL_PART_MAGIC_WORD, part_name = ''app'', flash_name = ''onchip_flash_128k'',
       offset = 0, part_len = 3 * 128 * 1024\<rparr>,
     \<lparr>magic_word = FAL_PART_MAGIC_WORD, part_name = ''appdata'', flash_name = ''onchip_flash_128k'',
       offset = 3 * 128 * 1024, part_len = 1 * 128 * 1024\<rparr>,
     \<lparr>magic_word = FAL_PART_MAGIC_WORD, part_name = ''download'', flash_name = ''onchip_flash_128k'',
       offset = 4 * 128 * 1024, part_len = 3 * 128 * 1024\<rparr>]"

record fal =
  flash_init_ok :: bool
  part_init_ok :: bool
  fal_init_ok :: bool
  partition_table :: "fal_partition list"
  partition_table_len :: nat
  part_flash_cache :: "fal_flash_dev option list"

definition fal_at_reset :: fal where
  "fal_at_reset = \<lparr>flash_init_ok = False, part_init_ok = False, fal_init_ok = False,
     partition_table = [], partition_table_len = 0,
     part_flash_cache = replicate (length partition_table_def) None\<rparr>"

section \<open>Initialisation and lookup\<close>

definition fal_flash_init :: "fal \<Rightarrow> mem \<Rightarrow> fal \<times> mem \<times> int" where
  "fal_flash_init f m =
     (if flash_init_ok f then (f, m, 0)
      else (f\<lparr>flash_init_ok := True\<rparr>,
            fold (\<lambda>d m. case ops_init d of Some ini \<Rightarrow> ini m | None \<Rightarrow> m) device_table m, 0))"

definition FAL_DEV_NAME_MAX :: nat where "FAL_DEV_NAME_MAX = 24"

definition fal_flash_device_find :: "string \<Rightarrow> fal \<Rightarrow> fal_flash_dev option option" where
  "fal_flash_device_find name f =
     (if flash_init_ok f
      then Some (find (\<lambda>d. take FAL_DEV_NAME_MAX name = take FAL_DEV_NAME_MAX (dev_name d)) device_table)
      else None)"

fun update_cache :: "nat \<Rightarrow> fal_partition list \<Rightarrow> fal \<Rightarrow> (fal \<times> int) option" where
  "update_cache i [] f = Some (f, 0)"
| "update_cache i (p # ps) f =
     (case fal_flash_device_find (flash_name p) f of
        None \<Rightarrow> None
      | Some None \<Rightarrow> update_cache (Suc i) ps f
      | Some (Some d) \<Rightarrow>
          if sint (dev_len d) \<le> sint (offset p) then Some (f\<lparr>partition_table_len := 0\<rparr>, - 1)
          else update_cache (Suc i) ps
                 (f\<lparr>part_flash_cache := (part_flash_cache f)[i := Some d]\<rparr>))"

definition check_and_update_part_cache :: "fal_partition list \<Rightarrow> nat \<Rightarrow> fal \<Rightarrow> (fal \<times> int) option" where
  "check_and_update_part_cache table n f = update_cache 0 (take n table) f"

definition fal_partition_init :: "fal \<Rightarrow> (fal \<times> int) option" where
  "fal_partition_init f =
     (if part_init_ok f then Some (f, int (partition_table_len f))
      else let f = f\<lparr>partition_table := partition_table_def,
                     partition_table_len := length partition_table_def\<rparr>
           in map_option (\<lambda>(f, r).
                let f = (if r \<noteq> 0 then f else f\<lparr>part_init_ok := True\<rparr>)
                in (f, int (partition_table_len f)))
                (check_and_update_part_cache (partition_table f) (partition_table_len f) f))"

definition fal_init :: "fal \<Rightarrow> mem \<Rightarrow> (fal \<times> mem \<times> int) option" where
  "fal_init f m =
     (let (f, m, result) = fal_flash_init f m
      in map_option (\<lambda>(f, result).
           (if 0 < result \<and> \<not> fal_init_ok f then f\<lparr>fal_init_ok := True\<rparr>
            else if result \<le> 0 then f\<lparr>fal_init_ok := False\<rparr> else f,
            m, result))
           (if result < 0 then Some (f, result) else fal_partition_init f))"

fun find_part :: "string \<Rightarrow> nat \<Rightarrow> fal_partition list \<Rightarrow> nat option" where
  "find_part name i [] = None"
| "find_part name i (p # ps) = (if name = part_name p then Some i else find_part name (Suc i) ps)"

text \<open>The partition found, or \<open>Some None\<close> for the null pointer.\<close>

definition fal_partition_find :: "string \<Rightarrow> fal \<Rightarrow> nat option option" where
  "fal_partition_find name f =
     (if part_init_ok f then Some (find_part name 0 (take (partition_table_len f) (partition_table f))) else None)"

section \<open>Access to a partition\<close>

definition part_at :: "nat option \<Rightarrow> fal \<Rightarrow> fal_partition option" where
  "part_at part f =
     Option.bind part (\<lambda>i. if i < length (partition_table f) then Some (partition_table f ! i) else None)"

definition flash_device_find_by_part :: "nat option \<Rightarrow> fal \<Rightarrow> fal_flash_dev option option" where
  "flash_device_find_by_part part f =
     Option.bind part (\<lambda>i. if i < partition_table_len f \<and> i < length (part_flash_cache f) then Some (part_flash_cache f ! i) else None)"

definition fal_partition_read :: "nat option \<Rightarrow> u32 \<Rightarrow> u32 \<Rightarrow> fal \<Rightarrow> mem \<Rightarrow> (buf \<times> int) option" where
  "fal_partition_read part addr sz f m =
     Option.bind (part_at part f) (\<lambda>p.
       if part_len p < addr + sz then Some ([], - 1)
       else Option.bind (flash_device_find_by_part part f) (\<lambda>flash_dev.
         case flash_dev of None \<Rightarrow> Some ([], - 1)
         | Some d \<Rightarrow> Some (ops_read d (offset p + addr) sz m)))"

definition fal_partition_write ::
  "flash_hw \<Rightarrow> nat option \<Rightarrow> u32 \<Rightarrow> buf \<Rightarrow> u32 \<Rightarrow> fal \<Rightarrow> mem \<Rightarrow> (mem \<times> int) option" where
  "fal_partition_write hw part addr bs sz f m =
     Option.bind (part_at part f) (\<lambda>p.
       if part_len p < addr + sz then Some (m, - 1)
       else Option.bind (flash_device_find_by_part part f) (\<lambda>flash_dev.
         case flash_dev of None \<Rightarrow> Some (m, - 1)
         | Some d \<Rightarrow> ops_write d hw (offset p + addr) bs sz m))"

definition fal_partition_erase ::
  "flash_hw \<Rightarrow> nat option \<Rightarrow> u32 \<Rightarrow> u32 \<Rightarrow> fal \<Rightarrow> mem \<Rightarrow> (mem \<times> int) option" where
  "fal_partition_erase hw part addr sz f m =
     Option.bind (part_at part f) (\<lambda>p.
       if part_len p < addr + sz then Some (m, - 1)
       else Option.bind (flash_device_find_by_part part f) (\<lambda>flash_dev.
         case flash_dev of None \<Rightarrow> Some (m, - 1)
         | Some d \<Rightarrow> Some (ops_erase d hw (offset p + addr) sz m)))"

definition fal_partition_erase_all :: "flash_hw \<Rightarrow> nat option \<Rightarrow> fal \<Rightarrow> mem \<Rightarrow> (mem \<times> int) option" where
  "fal_partition_erase_all hw part f m =
     Option.bind (part_at part f) (\<lambda>p. fal_partition_erase hw part 0 (part_len p) f m)"

section \<open>The layer after start-up\<close>

definition fal_booted :: fal where
  "fal_booted = \<lparr>flash_init_ok = True, part_init_ok = True, fal_init_ok = True,
     partition_table = partition_table_def, partition_table_len = 3,
     part_flash_cache = replicate 3 (Some stm32_onchip_flash_128k)\<rparr>"

lemma device_found: "flash_init_ok f \<Longrightarrow> fal_flash_device_find ''onchip_flash_128k'' f = Some (Some stm32_onchip_flash_128k)"
  by (simp add: fal_flash_device_find_def device_table_def stm32_onchip_flash_128k_def FAL_DEV_NAME_MAX_def)

lemma dev_len_128k: "sint (dev_len stm32_onchip_flash_128k) = 917504"
  by (simp add: stm32_onchip_flash_128k_def)

lemma ops_128k:
  "ops_read stm32_onchip_flash_128k = fal_flash_read_128k"
  "ops_write stm32_onchip_flash_128k = fal_flash_write_128k"
  "ops_erase stm32_onchip_flash_128k = fal_flash_erase_128k"
  by (simp_all add: stm32_onchip_flash_128k_def)

lemma flash_init_mem: "fal_flash_init f m = (f\<lparr>flash_init_ok := True\<rparr>, m, 0)"
  by (simp add: fal_flash_init_def device_table_def stm32_onchip_flash_128k_def)

lemma update_cache_table:
  "flash_init_ok f \<Longrightarrow> update_cache 0 partition_table_def f =
     Some (f\<lparr>part_flash_cache := (part_flash_cache f)
          [0 := Some stm32_onchip_flash_128k, 1 := Some stm32_onchip_flash_128k,
           2 := Some stm32_onchip_flash_128k]\<rparr>, 0)"
  by (simp add: partition_table_def_def device_found dev_len_128k flip: numeral_2_eq_2)

lemma fal_init_reset: "fal_init fal_at_reset m = Some (fal_booted, m, 3)"
proof -
  have n: "length partition_table_def = 3" by (simp add: partition_table_def_def)
  have "take 3 partition_table_def = partition_table_def" using n by simp
  then show ?thesis
    by (simp add: fal_init_def flash_init_mem fal_partition_init_def fal_at_reset_def n
        check_and_update_part_cache_def update_cache_table fal_booted_def numeral_eq_Suc)
qed

text \<open>Start address and length of the partitions; the three of them follow one another.\<close>

definition part_start :: "nat \<Rightarrow> u32" where
  "part_start i = STM32_FLASH_START_ADRESS_128K + offset (partition_table_def ! i)"

definition part_size :: "nat \<Rightarrow> nat" where
  "part_size i = unat (part_len (partition_table_def ! i))"

lemma part_values:
  "part_start 0 = 0x08020000" "part_start (Suc 0) = 0x08080000" "part_start 2 = 0x080A0000"
  "part_size 0 = 0x60000" "part_size (Suc 0) = 0x20000" "part_size 2 = 0x60000"
  by (simp_all add: part_start_def part_size_def partition_table_def_def STM32_FLASH_START_ADRESS_128K_def)

lemma less_3_cases: "i < 3 \<Longrightarrow> i = 0 \<or> i = Suc 0 \<or> i = (2 :: nat)"
  by linarith

lemma part_bounds:
  assumes "i < 3"
  shows "0x08020000 \<le> unat (part_start i)" "unat (part_start i) + part_size i \<le> 0x08100000"
  using less_3_cases [OF assms] by (auto simp: part_values)

lemma booted_access:
  assumes "i < 3"
  shows "part_at (Some i) fal_booted = Some (partition_table_def ! i)"
    "flash_device_find_by_part (Some i) fal_booted = Some (Some stm32_onchip_flash_128k)"
  using assms by (simp_all add: part_at_def flash_device_find_by_part_def fal_booted_def partition_table_def_def)

text \<open>The range of a call inside its partition.\<close>

lemma part_range:
  assumes "i < 3" "0 < sz" "unat addr + unat sz \<le> part_size i"
  defines "a \<equiv> part_start i + addr"
  shows "\<not> part_len (partition_table_def ! i) < addr + sz" "unat a = unat (part_start i) + unat addr"
    "0x08000000 \<le> a" "unat a + unat sz \<le> 0x08100000"
    "STM32_FLASH_START_ADRESS_128K + (offset (partition_table_def ! i) + addr) = a"
proof -
  note b = part_bounds [OF assms(1)]
  have "unat (addr + sz) = unat addr + unat sz"
    by (rule unat_add_range) (use b assms(3) in simp)
  then show "\<not> part_len (partition_table_def ! i) < addr + sz"
    using assms(3) by (simp add: word_less_nat_alt part_size_def)
  show 2: "unat a = unat (part_start i) + unat addr"
    unfolding a_def by (rule unat_add_range) (use b assms(3) in simp)
  show "0x08000000 \<le> a" using 2 b by (simp add: word_le_nat_alt)
  show "unat a + unat sz \<le> 0x08100000" using 2 b assms(3) by simp
  show "STM32_FLASH_START_ADRESS_128K + (offset (partition_table_def ! i) + addr) = a"
    by (simp add: a_def part_start_def algebra_simps)
qed

lemma partition_write_eq:
  assumes "i < 3" "0 < sz" "unat addr + unat sz \<le> part_size i"
  shows "fal_partition_write hw (Some i) addr bs sz fal_booted m =
    stm32_flash_write hw (part_start i + addr) bs sz m"
  using booted_access [OF assms(1)] part_range [OF assms]
  by (simp add: fal_partition_write_def ops_128k fal_flash_write_128k_def add.assoc [symmetric])

lemma partition_erase_eq:
  assumes "i < 3" "0 < sz" "unat addr + unat sz \<le> part_size i"
  shows "fal_partition_erase hw (Some i) addr sz fal_booted m =
    Some (stm32_flash_erase hw (part_start i + addr) sz m)"
  using booted_access [OF assms(1)] part_range [OF assms]
  by (simp add: fal_partition_erase_def ops_128k fal_flash_erase_128k_def add.assoc [symmetric])

lemma partition_read_eq:
  assumes "i < 3" "0 < sz" "unat addr + unat sz \<le> part_size i"
  shows "fal_partition_read (Some i) addr sz fal_booted m =
    Some (mem_read m (part_start i + addr) (unat sz), int (unat sz))"
  using booted_access [OF assms(1)] part_range [OF assms] read_in_flash [OF part_range(3) [OF assms] assms(2)]
  by (simp add: fal_partition_read_def ops_128k fal_flash_read_128k_def add.assoc [symmetric])

section \<open>Ranges of partitions\<close>

lemma in_part_iff:
  assumes "i < 3"
  shows "in_range (part_start i) (part_size i) x \<longleftrightarrow>
    unat (part_start i) \<le> unat x \<and> unat x < unat (part_start i) + part_size i"
  by (rule in_range_iff) (use part_bounds [OF assms] in simp)

lemma parts_disjoint:
  assumes "i < 3" "j < 3" "i \<noteq> j" "in_range (part_start j) (part_size j) x"
  shows "\<not> in_range (part_start i) (part_size i) x"
  using assms(4) less_3_cases [OF assms(1)] less_3_cases [OF assms(2)] assms(3)
  unfolding in_part_iff [OF assms(1)] in_part_iff [OF assms(2)] by (auto simp: part_values)

lemma range_in_part:
  assumes "i < 3" "unat addr + unat sz \<le> part_size i" "in_range (part_start i + addr) (unat sz) x"
  shows "in_range (part_start i) (part_size i) x"
proof -
  note b = part_bounds [OF assms(1)]
  have u: "unat (part_start i + addr) = unat (part_start i) + unat addr"
    by (rule unat_add_range) (use b assms(2) in simp)
  have "unat (part_start i + addr) \<le> unat x \<and> unat x < unat (part_start i + addr) + unat sz"
    using assms(3) in_range_iff [of "part_start i + addr" "unat sz" x] u b assms(2) by auto
  then show ?thesis using u assms(2) by (auto simp: in_part_iff [OF assms(1)])
qed

definition part_bytes :: "nat \<Rightarrow> mem \<Rightarrow> buf" where
  "part_bytes i m = mem_read m (part_start i) (part_size i)"

lemma part_bytes_cong:
  assumes "j < 3" "\<And>x. in_range (part_start j) (part_size j) x \<Longrightarrow> m' x = m x"
  shows "part_bytes j m' = part_bytes j m"
  unfolding part_bytes_def
proof (rule mem_read_cong)
  fix k assume k: "k < part_size j"
  then have "k < 2 ^ 32" using part_bounds [OF assms(1)] by simp
  then show "m' (part_start j + of_nat k) = m (part_start j + of_nat k)"
    using assms(2) k by simp
qed

text \<open>The partitions consist of whole sectors, so erasing one of them touches no other.\<close>

lemma touched_part:
  assumes "i < 3"
  shows "touched (part_start i) (part_len (partition_table_def ! i)) x \<longleftrightarrow>
    in_range (part_start i) (part_size i) x"
proof -
  have *: "GetSector 0x08020000 = 5" "GetSector 0x0807FFFF = 7" "GetSector 0x08080000 = 8"
    "GetSector 0x0809FFFF = 8" "GetSector 0x080A0000 = 9" "GetSector 0x080FFFFF = 11"
    by (simp_all add: GetSector_def)
  have len: "part_len (partition_table_def ! 0) = 0x60000" "part_len (partition_table_def ! Suc 0) = 0x20000"
    "part_len (partition_table_def ! 2) = 0x60000"
    by (simp_all add: partition_table_def_def)
  show ?thesis
    using less_3_cases [OF assms]
    unfolding in_part_iff [OF assms] touched_def word_le_nat_alt word_less_nat_alt
    by (elim disjE; simp add: part_values len * sector_base_values)
qed

text \<open>A controller that does what the manual says and never fails, for concrete runs.\<close>

definition nor_hw :: flash_hw where
  "nor_hw = \<lparr>hw_program = (\<lambda>a bs m. (\<lambda>x. if in_range a (length bs) x then m x AND bs ! unat (x - a) else m x, True)),
     hw_erase = (\<lambda>f n m. (\<lambda>x. if in_sectors f n x then 0xFF else m x, True))\<rparr>"

lemma nor_hw: "nor_flash nor_hw" "no_fault nor_hw"
proof -
  have "unat (of_nat i :: u32) = i" if "i < (4 :: nat)" for i
    by (rule unat_of_nat32) (use that in simp)
  then show "nor_flash nor_hw"
    unfolding nor_flash_def nor_hw_def by (auto simp: in_range_def)
  show "no_fault nor_hw" by (simp add: no_fault_def nor_hw_def)
qed

section \<open>Writing, erasing and reading back\<close>

lemma partition_write_facts:
  assumes "nor_flash hw" "i < 3" "0 < sz" "unat addr + unat sz \<le> part_size i" "unat sz \<le> length bs"
    and "fal_partition_write hw (Some i) addr bs sz fal_booted m = Some (m', r)"
  shows "r = int (unat sz) \<or> r = - RT_ERROR"
    "\<not> in_range (part_start i + addr) (unat sz) x \<Longrightarrow> m' x = m x"
    "r = int (unat sz) \<Longrightarrow> mem_read m' (part_start i + addr) (unat sz) = take (unat sz) bs"
    "no_fault hw \<Longrightarrow> (\<And>x. in_range (part_start i + addr) (unat sz) x \<Longrightarrow> m x = 0xFF) \<Longrightarrow> r = int (unat sz)"
    "j < 3 \<Longrightarrow> j \<noteq> i \<Longrightarrow> part_bytes j m' = part_bytes j m"
proof -
  note p = part_range [OF assms(2-4)]
  have w: "stm32_flash_write hw (part_start i + addr) bs sz m = Some (m', r)"
    using assms(6) partition_write_eq [OF assms(2-4)] by simp
  note f = write_in_flash [OF assms(1) p(3) assms(3) p(4) assms(5) w]
  show "r = int (unat sz) \<or> r = - RT_ERROR" by (rule f(1))
  show *: "m' x = m x" if "\<not> in_range (part_start i + addr) (unat sz) x" for x by (rule f(2) [OF that])
  show "mem_read m' (part_start i + addr) (unat sz) = take (unat sz) bs" if "r = int (unat sz)"
    by (rule f(3) [OF that])
  show "r = int (unat sz)" if "no_fault hw" "\<And>x. in_range (part_start i + addr) (unat sz) x \<Longrightarrow> m x = 0xFF"
    by (rule f(4) [OF that])
  show "part_bytes j m' = part_bytes j m" if "j < 3" "j \<noteq> i"
    using part_bytes_cong [OF that(1)] * range_in_part [OF assms(2,4)]
      parts_disjoint [OF assms(2) that(1) that(2) [symmetric]] by blast
qed

lemma part_len_size: "unat (part_len (partition_table_def ! i)) = part_size i"
  by (simp add: part_size_def)

lemma erase_all_facts:
  assumes "nor_flash hw" "i < 3" "fal_partition_erase_all hw (Some i) fal_booted m = Some (m', r)"
  shows "r = int (part_size i) \<or> r = - RT_ERROR" "\<not> in_range (part_start i) (part_size i) x \<Longrightarrow> m' x = m x"
    "r = int (part_size i) \<Longrightarrow> in_range (part_start i) (part_size i) x \<Longrightarrow> m' x = 0xFF"
    "no_fault hw \<Longrightarrow> r = int (part_size i)"
    "j < 3 \<Longrightarrow> j \<noteq> i \<Longrightarrow> part_bytes j m' = part_bytes j m"
proof -
  let ?l = "part_len (partition_table_def ! i)"
  have l: "0 < ?l" "unat (0 :: u32) + unat ?l \<le> part_size i"
    using less_3_cases [OF assms(2)] by (auto simp: part_size_def partition_table_def_def)
  note p = part_range [OF assms(2) l, simplified add_0_right]
  have e: "stm32_flash_erase hw (part_start i) ?l m = (m', r)"
    using assms(3) partition_erase_eq [OF assms(2) l, of hw m] booted_access(1) [OF assms(2)]
    by (simp add: fal_partition_erase_all_def)
  note f = erase_in_flash [OF assms(1) p(3) l(1) p(4) e, unfolded touched_part [OF assms(2)] part_len_size]
  show "r = int (part_size i) \<or> r = - RT_ERROR" by (rule f(1))
  show *: "m' x = m x" if "\<not> in_range (part_start i) (part_size i) x" for x by (rule f(2) [OF that])
  show "m' x = 0xFF" if "r = int (part_size i)" "in_range (part_start i) (part_size i) x" by (rule f(3) [OF that])
  show "r = int (part_size i)" if "no_fault hw" by (rule f(4) [OF that])
  show "part_bytes j m' = part_bytes j m" if "j < 3" "j \<noteq> i"
    using part_bytes_cong [OF that(1)] * parts_disjoint [OF assms(2) that(1) that(2) [symmetric]] by blast
qed

lemma erase_all_some: "i < 3 \<Longrightarrow> fal_partition_erase_all hw (Some i) fal_booted m \<noteq> None"
proof -
  assume i: "i < 3"
  have "0 < part_len (partition_table_def ! i)" using less_3_cases [OF i] by (auto simp: partition_table_def_def)
  then show ?thesis
    using partition_erase_eq [OF i, of "part_len (partition_table_def ! i)" 0] booted_access(1) [OF i]
    by (simp add: fal_partition_erase_all_def part_len_size)
qed

lemma write_some:
  assumes "i < 3" "0 < sz" "unat addr + unat sz \<le> part_size i" "unat sz \<le> length bs"
  shows "fal_partition_write hw (Some i) addr bs sz fal_booted m \<noteq> None"
  using partition_write_eq [OF assms(1-3)] assms(4)
    range_in_flash(3,4) [OF part_range(3) [OF assms(1-3)] assms(2) part_range(4) [OF assms(1-3)]]
  by (auto simp: stm32_flash_write_def split: prod.splits)

section \<open>Properties\<close>

text \<open>
  Start-up. \<open>fal_init\<close> finds the three partitions of the table and their device, touches
  no memory, and the names then find the partitions; running it again changes nothing.
\<close>

theorem fal_init_finds_partitions:
  "fal_init fal_at_reset m = Some (fal_booted, m, 3) \<and> fal_init fal_booted m = Some (fal_booted, m, 3) \<and>
   fal_partition_find ''app'' fal_booted = Some (Some 0) \<and>
   fal_partition_find ''appdata'' fal_booted = Some (Some 1) \<and>
   fal_partition_find ''download'' fal_booted = Some (Some 2) \<and>
   fal_partition_find ''download'' fal_at_reset = None"
  using fal_init_reset [of m]
  by (simp add: fal_partition_find_def fal_booted_def fal_at_reset_def partition_table_def_def
      fal_init_def flash_init_mem fal_partition_init_def)

text \<open>
  C6: a write inside a partition, on any NOR flash: it reports the number of bytes or an error;
  when it reports the number of bytes, a read gives the bytes back; whatever it reports, every
  byte outside the range written, and so every other partition, is unchanged.
\<close>

theorem partition_write_is_contained:
  assumes "nor_flash hw" "i < 3" "0 < sz" "unat addr + unat sz \<le> part_size i" "unat sz \<le> length bs"
    and "fal_partition_write hw (Some i) addr bs sz fal_booted m = Some (m', r)"
  shows "(r = - RT_ERROR \<or> r = int (unat sz) \<and>
       fal_partition_read (Some i) addr sz fal_booted m' = Some (take (unat sz) bs, int (unat sz))) \<and>
     (\<forall>x. m' x \<noteq> m x \<longrightarrow> in_range (part_start i + addr) (unat sz) x) \<and>
     (\<forall>j < 3. j \<noteq> i \<longrightarrow> part_bytes j m' = part_bytes j m)"
  using partition_write_facts [OF assms] partition_read_eq [OF assms(2-4), of m'] by auto

theorem partition_write_is_contained_witness:
  "\<exists>m'. fal_partition_write nor_hw (Some 1) 6 [1, 2, 3, 4, 5] 5 fal_booted (\<lambda>_. 0xFF) = Some (m', 5) \<and>
     fal_partition_read (Some 1) 6 5 fal_booted m' = Some ([1, 2, 3, 4, 5], 5) \<and> m' 0x08080005 = 0xFF"
proof -
  have sz: "(0 :: u32) < 5" "unat (6 :: u32) + unat (5 :: u32) \<le> part_size 1"
    "unat (5 :: u32) \<le> length [1, 2, 3, 4, 5 :: u8]" "(1 :: nat) < 3"
    by (simp_all add: part_values)
  obtain m' r where w: "fal_partition_write nor_hw (Some 1) 6 [1, 2, 3, 4, 5] 5 fal_booted (\<lambda>_. 0xFF) = Some (m', r)"
    using partition_write_eq [OF sz(4,1,2), of nor_hw "[1, 2, 3, 4, 5]" "\<lambda>_. 0xFF"]
      part_range(3,4) [OF sz(4,1,2)] range_in_flash(3,4) [OF part_range(3) [OF sz(4,1,2)] sz(1) part_range(4) [OF sz(4,1,2)]]
    by (auto simp: stm32_flash_write_def split: prod.splits)
  have r: "r = 5" using partition_write_facts(4) [OF nor_hw(1) sz(4,1,2,3) w nor_hw(2)] by simp
  have "\<not> in_range (part_start 1 + 6) 5 0x08080005"
    by (simp add: part_values in_range_def unsigned_minus_1_eq_mask mask_eq_exp_minus_1)
  then have "m' 0x08080005 = 0xFF"
    using partition_write_is_contained [OF nor_hw(1) sz(4,1,2,3) w] by auto
  then show ?thesis
    using w r partition_write_is_contained [OF nor_hw(1) sz(4,1,2,3) w] by (auto simp: RT_ERROR_def)
qed

text \<open>
  C32: on a NOR flash that does not fail, erasing a whole partition reports its length and leaves
  only bytes 0xFF in it, and any write into it then reports its size: the partition is all 0xFF
  except for the bytes written, which read back, and the other partitions are as they were.
\<close>

theorem erase_then_write_reads_back:
  assumes "nor_flash hw" "no_fault hw" "i < 3"
    and "0 < sz" "unat addr + unat sz \<le> part_size i" "unat sz \<le> length bs"
  shows "\<exists>m1 m2. fal_partition_erase_all hw (Some i) fal_booted m = Some (m1, int (part_size i)) \<and>
     part_bytes i m1 = replicate (part_size i) 0xFF \<and>
     fal_partition_write hw (Some i) addr bs sz fal_booted m1 = Some (m2, int (unat sz)) \<and>
     part_bytes i m2 = overlay (replicate (part_size i) 0xFF) (unat addr) (take (unat sz) bs) \<and>
     fal_partition_read (Some i) addr sz fal_booted m2 = Some (take (unat sz) bs, int (unat sz)) \<and>
     (\<forall>j < 3. j \<noteq> i \<longrightarrow> part_bytes j m2 = part_bytes j m)"
proof -
  obtain m1 r1 where er: "fal_partition_erase_all hw (Some i) fal_booted m = Some (m1, r1)"
    using erase_all_some [OF assms(3)] by (metis surj_pair option.exhaust)
  note e = erase_all_facts [OF assms(1,3) er]
  obtain m2 r2 where wr: "fal_partition_write hw (Some i) addr bs sz fal_booted m1 = Some (m2, r2)"
    using write_some [OF assms(3-6)] by (metis surj_pair option.exhaust)
  note w = partition_write_facts [OF assms(1,3-6) wr]
  have r1: "r1 = int (part_size i)" by (rule e(4) [OF assms(2)])
  have ff: "m1 x = 0xFF" if "in_range (part_start i + addr) (unat sz) x" for x
    by (rule e(3) [OF r1 range_in_part [OF assms(3,5) that]])
  then have r2: "r2 = int (unat sz)" by (rule w(4) [OF assms(2)])
  have small: "k < 2 ^ 32" if "k < part_size i" for k using that part_bounds [OF assms(3)] by simp
  have erased: "m1 (part_start i + of_nat k) = 0xFF" if "k < part_size i" for k
    using e(3) [OF r1] that small [OF that] by simp
  have b1: "part_bytes i m1 = replicate (part_size i) 0xFF"
    unfolding part_bytes_def mem_read_eq_iff using erased by simp
  have "m2 (part_start i + of_nat k) = overlay (replicate (part_size i) 0xFF) (unat addr) (take (unat sz) bs) ! k"
    if k: "k < part_size i" for k
  proof (cases "unat addr \<le> k \<and> k < unat addr + unat sz")
    case True
    have k': "(of_nat k :: u32) = addr + of_nat (k - unat addr)" using True by (simp add: of_nat_diff)
    have "k - unat addr < unat sz" using True by auto
    then have "m2 (part_start i + of_nat k) = mem_read m2 (part_start i + addr) (unat sz) ! (k - unat addr)"
      unfolding k' by (simp add: add.assoc)
    then show ?thesis using w(3) [OF r2] True k assms(5,6) by (simp add: nth_overlay)
  next
    case False
    have "\<not> in_range (part_start i + addr) (unat sz) (part_start i + of_nat k)"
      using False k small [OF k] part_range(2) [OF assms(3-5)] part_bounds [OF assms(3)] assms(5)
        unat_add_range [of "part_start i" "of_nat k"] unat_of_nat32 [OF small [OF k]]
        in_range_iff [of "part_start i + addr" "unat sz" "part_start i + of_nat k"]
      by auto
    then show ?thesis using w(2) erased [OF k] False k assms(5,6) by (auto simp: nth_overlay)
  qed
  then have b2: "part_bytes i m2 = overlay (replicate (part_size i) 0xFF) (unat addr) (take (unat sz) bs)"
    unfolding part_bytes_def mem_read_eq_iff using assms(5,6) by simp
  show ?thesis
    using er wr r1 r2 b1 b2 w(3) [OF r2] e(5) w(5) partition_read_eq [OF assms(3-5), of m2]
    by (intro exI [of _ m1] exI [of _ m2]) simp
qed

theorem erase_then_write_reads_back_witness:
  "\<exists>m1 m2. fal_partition_erase_all nor_hw (Some 2) fal_booted (\<lambda>_. 0) = Some (m1, 0x60000) \<and>
     fal_partition_write nor_hw (Some 2) 8 [1, 2, 3] 3 fal_booted m1 = Some (m2, 3) \<and>
     take 12 (part_bytes 2 m2) = [0xFF, 0xFF, 0xFF, 0xFF, 0xFF, 0xFF, 0xFF, 0xFF, 1, 2, 3, 0xFF] \<and>
     part_bytes 0 m2 = part_bytes 0 (\<lambda>_. 0)"
proof -
  have sz: "(0 :: u32) < 3" "unat (8 :: u32) + unat (3 :: u32) \<le> part_size 2"
    "unat (3 :: u32) \<le> length [1, 2, 3 :: u8]" "(2 :: nat) < 3"
    by (simp_all add: part_values)
  have "take 12 (overlay (replicate 393216 (0xFF :: u8)) 8 [1, 2, 3]) = overlay (replicate 12 0xFF) 8 [1, 2, 3]"
    by (rule nth_equalityI) (simp_all add: nth_overlay)
  also have "\<dots> = [0xFF, 0xFF, 0xFF, 0xFF, 0xFF, 0xFF, 0xFF, 0xFF, 1, 2, 3, 0xFF :: u8]" by code_simp
  finally have o: "take 12 (overlay (replicate (part_size 2) 0xFF) (unat (8 :: u32)) (take (unat (3 :: u32)) [1, 2, 3 :: u8])) =
      [0xFF, 0xFF, 0xFF, 0xFF, 0xFF, 0xFF, 0xFF, 0xFF, 1, 2, 3, 0xFF]"
    by (simp add: part_values)
  obtain m1 m2 where m: "fal_partition_erase_all nor_hw (Some 2) fal_booted (\<lambda>_. 0) = Some (m1, int (part_size 2))"
      "fal_partition_write nor_hw (Some 2) 8 [1, 2, 3] 3 fal_booted m1 = Some (m2, int (unat (3 :: u32)))"
      "part_bytes 2 m2 = overlay (replicate (part_size 2) 0xFF) (unat (8 :: u32)) (take (unat (3 :: u32)) [1, 2, 3])"
      "\<forall>j < 3. j \<noteq> 2 \<longrightarrow> part_bytes j m2 = part_bytes j (\<lambda>_. 0)"
    using erase_then_write_reads_back [OF nor_hw sz(4,1,2,3), of "\<lambda>_. 0"] by blast
  have "take 12 (part_bytes 2 m2) = [0xFF, 0xFF, 0xFF, 0xFF, 0xFF, 0xFF, 0xFF, 0xFF, 1, 2, 3, 0xFF]"
    unfolding m(3) by (rule o)
  moreover have "part_bytes 0 m2 = part_bytes 0 (\<lambda>_. 0)" using m(4) by simp
  ultimately show ?thesis
    using m(1,2) by (intro exI [of _ m1] exI [of _ m2]) (simp add: part_values)
qed

text \<open>
  C39: the bound check of a partition wraps: a write of \<open>k\<close> bytes at the relative address
  \<open>2^32 - k\<close> of the download partition passes it and is a write to the last \<open>k\<close> bytes of the
  partition before it; the same holds for an erase.
\<close>

theorem partition_bound_check_wraps:
  assumes "0 < k" "k \<le> 0x20000"
  shows "fal_partition_write hw (Some 2) (- k) bs k fal_booted m =
           fal_partition_write hw (Some 1) (0x20000 - k) bs k fal_booted m \<and>
         fal_partition_erase hw (Some 2) (- k) k fal_booted m =
           fal_partition_erase hw (Some 1) (0x20000 - k) k fal_booted m"
proof -
  have "unat (0x20000 - k) = 0x20000 - unat k" using assms(2) by (simp add: unat_sub)
  then have in1: "unat (0x20000 - k) + unat k \<le> part_size 1"
    using assms(2) by (simp add: part_values word_le_nat_alt)
  have start: "STM32_FLASH_START_ADRESS_128K + (offset (partition_table_def ! 2) + (- k)) = part_start 1 + (0x20000 - k)"
    by (simp add: STM32_FLASH_START_ADRESS_128K_def partition_table_def_def part_values)
  have [simp]: "1 < (3 :: nat)" "2 < (3 :: nat)" by simp_all
  have "fal_partition_write hw (Some 2) (- k) bs k fal_booted m = stm32_flash_write hw (part_start 1 + (0x20000 - k)) bs k m"
    using booted_access [of 2] start
    by (simp add: fal_partition_write_def ops_128k fal_flash_write_128k_def add_diff_eq)
  moreover have "fal_partition_erase hw (Some 2) (- k) k fal_booted m = Some (stm32_flash_erase hw (part_start 1 + (0x20000 - k)) k m)"
    using booted_access [of 2] start
    by (simp add: fal_partition_erase_def ops_128k fal_flash_erase_128k_def add_diff_eq)
  ultimately show ?thesis
    using partition_write_eq [OF _ assms(1) in1] partition_erase_eq [OF _ assms(1) in1] by simp
qed

theorem partition_bound_check_wraps_witness:
  "\<exists>m'. fal_partition_write nor_hw (Some 2) 0xFFFFFFFC [1, 2, 3, 4] 4 fal_booted (\<lambda>_. 0xFF) = Some (m', 4) \<and>
     mem_read m' 0x0809FFFC 4 = [1, 2, 3, 4]"
proof -
  let ?w = "fal_partition_write nor_hw (Some 1) 0x1FFFC [1, 2, 3, 4] 4 fal_booted (\<lambda>_. 0xFF)"
  have sz: "(1 :: nat) < 3" "(0 :: u32) < 4" "unat (0x1FFFC :: u32) + unat (4 :: u32) \<le> part_size 1"
    "unat (4 :: u32) \<le> length [1, 2, 3, 4 :: u8]"
    by (simp_all add: part_values)
  obtain m' r where w: "?w = Some (m', r)"
    using partition_write_eq [OF sz(1-3), of nor_hw "[1, 2, 3, 4]" "\<lambda>_. 0xFF"]
      range_in_flash(3,4) [OF part_range(3) [OF sz(1-3)] sz(2) part_range(4) [OF sz(1-3)]]
    by (auto simp: stm32_flash_write_def split: prod.splits)
  note f = partition_write_facts [OF nor_hw(1) sz w]
  have r: "r = 4" using f(4) [OF nor_hw(2)] by simp
  have "fal_partition_write nor_hw (Some 2) (- 4) [1, 2, 3, 4] 4 fal_booted (\<lambda>_. 0xFF) = Some (m', 4)"
    using partition_bound_check_wraps [of 4] w r by simp
  moreover have "(- 4 :: u32) = 0xFFFFFFFC" by simp
  ultimately show ?thesis using f(3) r by (simp add: part_values)
qed

end
