(* ===== verification/CanMsg.thy ===== *)
theory CanMsg
  imports Prelude
begin

text \<open>
  A CAN message, \<open>struct rt_can_msg\<close> of \<open>src/rt-thread/components/drivers/include/drivers/can.h\<close>,
  its 16 bytes in memory, and the layout of the extended identifier in
  \<open>src/applications/can.h\<close>. The bit fields are laid out as GCC lays them out on this
  little-endian core: from the lowest bit of a 32-bit word upwards.
\<close>

section \<open>Message and identifier\<close>

record rt_can_msg =
  can_id :: u32
  ide :: bool
  rtr :: bool
  rsv :: bool
  can_len :: u8
  priv :: u8
  hdr :: u8
  reserved :: u8
  can_data :: buf

definition can_word :: "rt_can_msg \<Rightarrow> u32" where
  "can_word m = take_bit 29 (can_id m) OR push_bit 29 (of_bool (ide m)) OR
     push_bit 30 (of_bool (rtr m)) OR push_bit 31 (of_bool (rsv m))"

definition can_msg_bytes :: "rt_can_msg \<Rightarrow> buf" where
  "can_msg_bytes m =
     [byte_of 0 (can_word m), byte_of 1 (can_word m), byte_of 2 (can_word m), byte_of 3 (can_word m),
      can_len m, priv m, hdr m, reserved m] @ can_data m"

definition can_msg_of_bytes :: "buf \<Rightarrow> rt_can_msg" where
  "can_msg_of_bytes b =
     (let w = join32 (b ! 3) (b ! 2) (b ! 1) (b ! 0)
      in \<lparr>can_id = take_bit 29 w, ide = bit w 29, rtr = bit w 30, rsv = bit w 31,
          can_len = b ! 4, priv = b ! 5, hdr = b ! 6, reserved = b ! 7, can_data = drop 8 b\<rparr>)"

definition CAN_SEND_ID_MASK :: u32 where "CAN_SEND_ID_MASK = push_bit 5 1 - 1"
definition CAN_REC_ID_MASK :: u32 where "CAN_REC_ID_MASK = push_bit 5 1 - 1"
definition CAN_REGIS_ID_MASK :: u32 where "CAN_REGIS_ID_MASK = push_bit 16 1 - 1"

definition CAN_ID_GEN :: "u32 \<Rightarrow> u32 \<Rightarrow> u32 \<Rightarrow> u32" where
  "CAN_ID_GEN source desti reg =
     push_bit 24 (source AND CAN_SEND_ID_MASK) OR push_bit 19 (desti AND CAN_REC_ID_MASK) OR
     (reg AND CAN_REGIS_ID_MASK)"

definition CAN_IDENTY_MAIN_BORAD :: u32 where "CAN_IDENTY_MAIN_BORAD = 0x04"
definition CAN_IDENTY_MONITOR_BORAD :: u32 where "CAN_IDENTY_MONITOR_BORAD = 0x08"

definition CAN_ID_GEN_BY_REG :: "u32 \<Rightarrow> u32" where
  "CAN_ID_GEN_BY_REG reg = CAN_ID_GEN CAN_IDENTY_MONITOR_BORAD CAN_IDENTY_MAIN_BORAD reg"

section \<open>Round trips\<close>

lemma bit_can_word:
  "bit (can_word m) n \<longleftrightarrow>
     (if n < 29 then bit (can_id m) n else n = 29 \<and> ide m \<or> n = 30 \<and> rtr m \<or> n = 31 \<and> rsv m)"
  by (auto simp: can_word_def bit_or_iff bit_take_bit_iff bit_push_bit_iff bit_of_bool_iff
      dest: bit_imp_le_length)

lemma word_of_can_bytes: "join32 (can_msg_bytes m ! 3) (can_msg_bytes m ! 2) (can_msg_bytes m ! 1) (can_msg_bytes m ! 0) = can_word m"
  by (simp add: can_msg_bytes_def)

lemma length_can_msg_bytes [simp]: "length (can_msg_bytes m) = 8 + length (can_data m)"
  by (simp add: can_msg_bytes_def)

lemma can_fields_of_word:
  "take_bit 29 (can_word m) = take_bit 29 (can_id m)" "bit (can_word m) 29 = ide m"
  "bit (can_word m) 30 = rtr m" "bit (can_word m) 31 = rsv m"
  by (auto simp: bit_can_word bit_take_bit_iff intro!: bit_word_eqI)

lemma can_msg_decode:
  "can_msg_of_bytes (can_msg_bytes m) = m\<lparr>can_id := take_bit 29 (can_id m)\<rparr>"
  using word_of_can_bytes [of m]
  by (simp add: can_msg_of_bytes_def can_fields_of_word) (simp add: can_msg_bytes_def)

lemma can_msg_encode:
  assumes "length b = 16"
  shows "can_msg_bytes (can_msg_of_bytes b) = b"
proof -
  let ?w = "join32 (b ! 3) (b ! 2) (b ! 1) (b ! 0)"
  have "can_word (can_msg_of_bytes b) = ?w"
  proof (rule bit_word_eqI)
    fix n assume "n < LENGTH(32)"
    then have n: "n < 29 \<or> n = 29 \<or> n = 30 \<or> n = 31" by auto
    show "bit (can_word (can_msg_of_bytes b)) n = bit ?w n"
      unfolding bit_can_word can_msg_of_bytes_def Let_def
      using n by (elim disjE) (simp_all add: bit_take_bit_iff)
  qed
  moreover have "take 8 b = [b ! 0, b ! 1, b ! 2, b ! 3, b ! 4, b ! 5, b ! 6, b ! 7]"
  proof -
    have "take 8 b = map ((!) b) [0..<8]" using assms by (intro nth_equalityI) auto
    then show ?thesis by (simp add: upt_rec numeral_eq_Suc)
  qed
  ultimately have "can_msg_bytes (can_msg_of_bytes b) = take 8 b @ drop 8 b"
    by (simp add: can_msg_bytes_def can_msg_of_bytes_def Let_def)
  then show ?thesis by simp
qed

lemma id_masks: "CAN_SEND_ID_MASK = mask 5" "CAN_REC_ID_MASK = mask 5" "CAN_REGIS_ID_MASK = mask 16"
  by (simp_all add: CAN_SEND_ID_MASK_def CAN_REC_ID_MASK_def CAN_REGIS_ID_MASK_def mask_eq_exp_minus_1)

lemma bit_CAN_ID_GEN:
  "bit (CAN_ID_GEN src dst reg) n \<longleftrightarrow>
     (if n < 16 then bit reg n else if n < 19 then False
      else if n < 24 then bit dst (n - 19) else n < 29 \<and> bit src (n - 24))"
  by (auto simp: CAN_ID_GEN_def id_masks bit_or_iff bit_push_bit_iff bit_and_iff bit_mask_iff)

text \<open>
  A CAN message survives the message queue: reading the 16 bytes back gives the message
  with its identifier cut to the 29 bits of the field, and any 16 bytes are the bytes of the
  message read from them.
\<close>

theorem can_msg_round_trip:
  assumes "length b = 16"
  shows "can_msg_of_bytes (can_msg_bytes m) = m\<lparr>can_id := take_bit 29 (can_id m)\<rparr> \<and>
     can_msg_bytes (can_msg_of_bytes b) = b"
  using can_msg_decode can_msg_encode [OF assms] by blast

theorem can_msg_round_trip_witness:
  "can_msg_bytes (can_msg_of_bytes [0x10, 0x51, 0x20, 0xA8, 2, 0, 0, 0, 1, 0, 9, 9, 9, 9, 9, 9])
     = [0x10, 0x51, 0x20, 0xA8, 2, 0, 0, 0, 1, 0, 9, 9, 9, 9, 9, 9] \<and>
   can_id (can_msg_of_bytes [0x10, 0x51, 0x20, 0xA8, 2, 0, 0, 0, 1, 0, 9, 9, 9, 9, 9, 9]) = 0x08205110"
proof
  show "can_msg_bytes (can_msg_of_bytes [0x10, 0x51, 0x20, 0xA8, 2, 0, 0, 0, 1, 0, 9, 9, 9, 9, 9, 9])
     = [0x10, 0x51, 0x20, 0xA8, 2, 0, 0, 0, 1, 0, 9, 9, 9, 9, 9, 9]"
    by (rule can_msg_round_trip [THEN conjunct2]) simp
qed code_simp

text \<open>
  The extended identifier: sender, receiver and register number fit their fields without
  overlap, so each can be read back with the shift and mask the receivers use, and the
  identifier fits the 29 bits of the message field.
\<close>

theorem can_identifier_fields:
  "drop_bit 24 (CAN_ID_GEN src dst reg) AND 0xFF = take_bit 5 src \<and>
   drop_bit 19 (CAN_ID_GEN src dst reg) AND 0x1F = take_bit 5 dst \<and>
   drop_bit 16 (CAN_ID_GEN src dst reg) AND 0x7 = 0 \<and>
   CAN_ID_GEN src dst reg AND 0xFFFF = take_bit 16 reg \<and>
   take_bit 29 (CAN_ID_GEN src dst reg) = CAN_ID_GEN src dst reg"
proof -
  have m: "(0xFF :: u32) = mask 8" "(0x1F :: u32) = mask 5" "(0x7 :: u32) = mask 3" "(0xFFFF :: u32) = mask 16"
    by (simp_all add: mask_eq_exp_minus_1)
  show ?thesis
    unfolding m
    by (intro conjI bit_word_eqI)
       (auto simp: bit_and_iff bit_drop_bit_eq bit_mask_iff bit_CAN_ID_GEN bit_take_bit_iff)
qed

end
