(* ===== verification/Ota.thy ===== *)
theory Ota
  imports Mq Fal CanMsg Crc16 "HOL-Library.Sublist"
begin

text \<open>
  Firmware update over CAN, \<open>src/applications/ota_handle.c\<close>: the start request, which erases
  the download partition, the data request, which programs one frame and finally compares the
  CRC, and the replies through the CAN message queue. \<open>stack\<close> is the previous contents of the
  local message variable, of which the replies set only some fields. \<open>None\<close>: an assertion
  of the kernel fails or a null pointer is followed.
\<close>

section \<open>State\<close>

record OTA_MANAGE_t =
  ota_on :: u16
  new_version :: u16
  file_crc16 :: u16
  file_total_size :: u32
  file_write_size :: u32
  file_crc_cur :: u16
  dl_part :: "nat option"
  ota_timer :: "timer_id option"

record board =
  kern :: kernel
  can_tx_mq :: "rt_mq option"
  flash_mem :: mem
  fal_layer :: fal
  g_ota_manage :: OTA_MANAGE_t

datatype ota_outcome = Returned | Rebooting

definition DEVICE_OTA_ROM_SIZE :: u32 where "DEVICE_OTA_ROM_SIZE = 512 * 1024"

definition CAN_ID_HANDTOOL_OTA_START_REPLY :: u32 where "CAN_ID_HANDTOOL_OTA_START_REPLY = 0x5110"
definition CAN_ID_HANDTOOL_OTA_END_REPLY :: u32 where "CAN_ID_HANDTOOL_OTA_END_REPLY = 0x5114"

section \<open>Replies\<close>

definition can_put :: "rt_can_msg \<Rightarrow> 'a board_scheme \<Rightarrow> ('a board_scheme \<times> int) option" where
  "can_put msg b =
     Option.bind (can_tx_mq b) (\<lambda>mq.
       case rt_mq_send mq (can_msg_bytes msg) (kern b) of
         Some (mq, s, Return r) \<Rightarrow> Some (b\<lparr>kern := s, can_tx_mq := Some mq\<rparr>, r)
       | _ \<Rightarrow> None)"

definition ota_reply :: "rt_can_msg \<Rightarrow> u32 \<Rightarrow> u8 \<Rightarrow> rt_can_msg" where
  "ota_reply stack xid v =
     stack\<lparr>can_id := take_bit 29 xid, ide := True, rtr := False, can_len := 2,
           can_data := (can_data stack)[0 := v, 1 := 0]\<rparr>"

definition ota_data_block_replay_reply_send_to_fop_mq ::
    "rt_can_msg \<Rightarrow> u8 \<Rightarrow> u16 \<Rightarrow> 'a board_scheme \<Rightarrow> ('a board_scheme \<times> int) option" where
  "ota_data_block_replay_reply_send_to_fop_mq stack ota_data_ok frameid =
     can_put (ota_reply stack (CAN_ID_GEN_BY_REG (ucast frameid) OR 0x10000) ota_data_ok)"

definition ota_end_replay_reply_send_to_fop_mq ::
    "rt_can_msg \<Rightarrow> u8 \<Rightarrow> 'a board_scheme \<Rightarrow> ('a board_scheme \<times> int) option" where
  "ota_end_replay_reply_send_to_fop_mq stack ota_ok =
     can_put (ota_reply stack (CAN_ID_GEN_BY_REG CAN_ID_HANDTOOL_OTA_END_REPLY) ota_ok)"

definition ota_start_reply_send_to_fop_mq ::
    "rt_can_msg \<Rightarrow> u8 \<Rightarrow> 'a board_scheme \<Rightarrow> ('a board_scheme \<times> int) option" where
  "ota_start_reply_send_to_fop_mq stack ota_continue =
     can_put (ota_reply stack (CAN_ID_GEN_BY_REG CAN_ID_HANDTOOL_OTA_START_REPLY) ota_continue)"

section \<open>Requests\<close>

definition start_timer :: "timer_id option \<Rightarrow> 'a board_scheme \<Rightarrow> 'a board_scheme option" where
  "start_timer t b = map_option (\<lambda>i. b\<lparr>kern := rt_timer_start i (kern b)\<rparr>) t"

definition stop_timer :: "timer_id option \<Rightarrow> 'a board_scheme \<Rightarrow> 'a board_scheme option" where
  "stop_timer t b = map_option (\<lambda>i. b\<lparr>kern := fst (rt_timer_stop i (kern b))\<rparr>) t"

text \<open>
  The function of the update's timer: 50000 ticks after a start request was accepted, when no
  data request has stopped or restarted the timer since, the interrupt resets the processor,
  whatever the download partition holds by then. The properties on the update speak of the
  resets of the receiving task, and not of this one.
\<close>

definition ota_timer_timeout :: "'a board_scheme \<Rightarrow> 'a board_scheme \<times> ota_outcome" where
  "ota_timer_timeout b = (b, Rebooting)"

text \<open>
  The timer of the update, with \<open>ota_timer_timeout\<close> as its function; \<open>created\<close> is whether
  \<open>rt_timer_create\<close> finds memory.
\<close>

definition ota_handle_resoure_init :: "bool \<Rightarrow> 'a board_scheme \<Rightarrow> 'a board_scheme" where
  "ota_handle_resoure_init created b =
     (if created
      then b\<lparr>kern := timer_init (user_timer 1) 50000 0 (kern b),
             g_ota_manage := (g_ota_manage b)\<lparr>ota_timer := Some (user_timer 1)\<rparr>\<rparr>
      else b\<lparr>g_ota_manage := (g_ota_manage b)\<lparr>ota_timer := None\<rparr>\<rparr>)"

text \<open>The checks of a start request, from the size on: the board and \<open>ota_continue\<close>.\<close>

definition ota_prepare :: "flash_hw \<Rightarrow> 'a board_scheme \<Rightarrow> ('a board_scheme \<times> u8) option" where
  "ota_prepare hw b =
     (if DEVICE_OTA_ROM_SIZE \<le> file_total_size (g_ota_manage b) then Some (b, 0)
      else
        Option.bind (fal_partition_find ''download'' (fal_layer b)) (\<lambda>part.
        let g = (g_ota_manage b)\<lparr>dl_part := part\<rparr>;
            b = b\<lparr>g_ota_manage := g\<rparr>
        in if dl_part g = None then Some (b, 0)
           else Option.bind (fal_partition_erase_all hw (dl_part g) (fal_layer b) (flash_mem b))
             (\<lambda>(m, r).
                if r < 0 then Some (b\<lparr>flash_mem := m\<rparr>, 0)
                else map_option (\<lambda>b. (b, 1))
                  (start_timer (ota_timer g) (b\<lparr>flash_mem := m, g_ota_manage := g\<lparr>ota_on := 1\<rparr>\<rparr>)))))"

definition mainboard_ota_start_request ::
    "flash_hw \<Rightarrow> rt_can_msg \<Rightarrow> buf \<Rightarrow> 'a board_scheme \<Rightarrow> 'a board_scheme option" where
  "mainboard_ota_start_request hw stack rec_data b =
     (let g = (g_ota_manage b)
            \<lparr>new_version := join16 (rec_data ! 0) (rec_data ! 1),
             file_crc16 := join16 (rec_data ! 2) (rec_data ! 3),
             file_total_size := join32 (rec_data ! 4) (rec_data ! 5) (rec_data ! 6) (rec_data ! 7),
             file_write_size := 0, file_crc_cur := 0xFFFF\<rparr>
      in Option.bind (ota_prepare hw (b\<lparr>g_ota_manage := g\<rparr>)) (\<lambda>(b, ota_continue).
           map_option fst (ota_start_reply_send_to_fop_mq stack ota_continue b)))"

text \<open>
  The end of the file: with a matching CRC the success reply, then the delay of 2000 ticks,
  after which the processor is reset; otherwise the failure reply.
\<close>

definition ota_finish :: "rt_can_msg \<Rightarrow> 'a board_scheme \<Rightarrow> ('a board_scheme \<times> ota_outcome) option" where
  "ota_finish stack b =
     (let g = g_ota_manage b
      in if file_crc_cur g = file_crc16 g then
           Option.bind (ota_end_replay_reply_send_to_fop_mq stack 1 b) (\<lambda>(b, _).
             let b = b\<lparr>g_ota_manage := g\<lparr>ota_on := 0\<rparr>\<rparr>
             in map_option (\<lambda>s. (b\<lparr>kern := s\<rparr>, Rebooting)) (rt_thread_sleep 2000 (kern b)))
         else map_option (\<lambda>(b, _). (b, Returned)) (ota_end_replay_reply_send_to_fop_mq stack 0 b))"

text \<open>A frame that was programmed: its size and CRC are counted and the reply is sent.\<close>

definition ota_accept ::
    "rt_can_msg \<Rightarrow> u16 \<Rightarrow> u16 \<Rightarrow> u16 \<Rightarrow> 'a board_scheme \<Rightarrow> ('a board_scheme \<times> ota_outcome) option" where
  "ota_accept stack frame_id data_len crc b =
     (let g = (g_ota_manage b)\<lparr>file_write_size := file_write_size (g_ota_manage b) + ucast data_len,
                               file_crc_cur := crc\<rparr>
      in Option.bind (ota_data_block_replay_reply_send_to_fop_mq stack 1 frame_id
            (b\<lparr>g_ota_manage := g\<rparr>)) (\<lambda>(b, _).
           Option.bind (if file_total_size g \<le> file_write_size g
                        then ota_finish stack b else Some (b, Returned)) (\<lambda>(b, e).
             if e = Rebooting then Some (b, e)
             else map_option (\<lambda>b. (b, Returned))
                    (Option.bind (stop_timer (ota_timer g) b) (start_timer (ota_timer g))))))"

definition mainboard_ota_data_request ::
    "flash_hw \<Rightarrow> rt_can_msg \<Rightarrow> u16 \<Rightarrow> u16 \<Rightarrow> buf \<Rightarrow> 'a board_scheme \<Rightarrow> ('a board_scheme \<times> ota_outcome) option" where
  "mainboard_ota_data_request hw stack frame_id data_len rec_data b =
     (let g = g_ota_manage b;
          refuse = (\<lambda>b. map_option (\<lambda>(b, _). (b, Returned))
                     (ota_data_block_replay_reply_send_to_fop_mq stack 0 frame_id b))
      in if file_write_size g div 8 = ucast frame_id then
           Option.bind (fal_partition_write hw (dl_part g) (file_write_size g) rec_data (ucast data_len)
               (fal_layer b) (flash_mem b)) (\<lambda>(m, r).
             if r < 0 then refuse (b\<lparr>flash_mem := m\<rparr>)
             else Option.bind (modbus_rtu_crc16_frame rec_data data_len (file_crc_cur g)) (\<lambda>crc.
                    ota_accept stack frame_id data_len crc (b\<lparr>flash_mem := m\<rparr>)))
         else refuse b)"

section \<open>What the replies leave alone\<close>

definition same_ota :: "'a board_scheme \<Rightarrow> 'a board_scheme \<Rightarrow> bool" where
  "same_ota b b' \<longleftrightarrow> flash_mem b' = flash_mem b \<and> fal_layer b' = fal_layer b \<and>
     g_ota_manage b' = g_ota_manage b \<and> board.more b' = board.more b"

lemma can_put_same: "can_put msg b = Some (b', r) \<Longrightarrow> same_ota b b'"
proof -
  assume h: "can_put msg b = Some (b', r)"
  then obtain mq where mq: "can_tx_mq b = Some mq" by (cases "can_tx_mq b") (auto simp: can_put_def)
  show ?thesis
  proof (cases "rt_mq_send mq (can_msg_bytes msg) (kern b)")
    case (Some x)
    then show ?thesis using h mq
      by (cases x; cases "snd (snd x)") (auto simp: can_put_def same_ota_def)
  qed (use h mq in \<open>simp add: can_put_def\<close>)
qed

lemmas ota_reply_defs = ota_data_block_replay_reply_send_to_fop_mq_def
  ota_end_replay_reply_send_to_fop_mq_def ota_start_reply_send_to_fop_mq_def

lemma timers_same:
  "start_timer t b = Some b' \<Longrightarrow> same_ota b b'" "stop_timer t b = Some b' \<Longrightarrow> same_ota b b'"
  by (auto simp: start_timer_def stop_timer_def same_ota_def)

text \<open>The queue for outgoing messages takes messages of 16 bytes.\<close>

definition tx_ready :: "'a board_scheme \<Rightarrow> bool" where
  "tx_ready b \<longleftrightarrow> (\<exists>mq ms. can_tx_mq b = Some mq \<and> mq_holds mq ms \<and> msg_size mq = 16)"

lemma mq_holds_le: "mq_holds mq ms \<Longrightarrow> length ms \<le> mq_capacity mq"
  using mq_used [of mq] by (fastforce simp: mq_holds_def)

lemma can_put_ready:
  assumes "tx_ready b" "length (can_data msg) = 8"
  shows "\<exists>b' r. can_put msg b = Some (b', r) \<and> tx_ready b'"
proof -
  obtain mq ms where mq: "can_tx_mq b = Some mq" "mq_holds mq ms" "msg_size mq = 16"
    using assms(1) by (auto simp: tx_ready_def)
  have m: "mq_message mq (can_msg_bytes msg)" "can_msg_bytes msg \<noteq> []"
    using assms(2) mq(3) by (auto simp: mq_message_def can_msg_bytes_def)
  show ?thesis
  proof (cases "length ms < mq_capacity mq")
    case True
    then obtain mq' where "rt_mq_send mq (can_msg_bytes msg) (kern b) =
        Some (mq', wake_first (mq_receivers mq) (kern b), Return RT_EOK)"
      "mq_holds mq' (ms @ [can_msg_bytes msg])" "msg_size mq' = msg_size mq"
      using send_accepts [OF mq(2) m] by blast
    then show ?thesis using mq by (auto simp: can_put_def tx_ready_def)
  next
    case False
    then have "rt_mq_send mq (can_msg_bytes msg) (kern b) = Some (mq, kern b, Return (- RT_EFULL))"
      using send_refuses [OF mq(2) m] mq_holds_le [OF mq(2)] by simp
    then show ?thesis using mq by (auto simp: can_put_def tx_ready_def)
  qed
qed

lemma length_ota_reply [simp]: "length (can_data (ota_reply stack xid v)) = length (can_data stack)"
  by (simp add: ota_reply_def)

lemma timers_ready:
  "tx_ready b \<Longrightarrow> \<exists>b'. start_timer (Some i) b = Some b' \<and> tx_ready b'"
  "tx_ready b \<Longrightarrow> \<exists>b'. stop_timer (Some i) b = Some b' \<and> tx_ready b'"
  by (auto simp: start_timer_def stop_timer_def tx_ready_def)

lemma sleep_2000: "\<exists>s'. rt_thread_sleep 2000 s = Some s'"
  by (simp add: rt_thread_sleep_def start_thread_timer_def rt_timer_control_def RT_TICK_HALF_def Let_def)

section \<open>One frame\<close>

text \<open>
  The frames accepted so far, as pairs of the frame number and the bytes; \<open>m0\<close> is the memory
  before the update.
\<close>

definition payload :: "(u16 \<times> buf) list \<Rightarrow> buf" where
  "payload acc = concat (map (\<lambda>(i, d). take 8 d) acc)"

definition frames_ok :: "(u16 \<times> buf) list \<Rightarrow> bool" where
  "frames_ok acc \<longleftrightarrow> map fst acc = map of_nat [0..<length acc] \<and> (\<forall>(i, d) \<in> set acc. 8 \<le> length d) \<and>
     8 * length acc \<le> 0x60000"

lemma payload_simps [simp]: "payload [] = []" "payload (acc @ [(i, d)]) = payload acc @ take 8 d"
  by (simp_all add: payload_def)

lemma length_payload: "frames_ok acc \<Longrightarrow> length (payload acc) = 8 * length acc"
proof -
  have "\<forall>(i, d) \<in> set acc. 8 \<le> length d \<Longrightarrow> length (payload acc) = 8 * length acc"
    by (induction acc) (auto simp: payload_def)
  then show "frames_ok acc \<Longrightarrow> length (payload acc) = 8 * length acc" by (simp add: frames_ok_def)
qed

definition ota_inv :: "(u16 \<times> buf) list \<Rightarrow> mem \<Rightarrow> 'a board_scheme \<Rightarrow> bool" where
  "ota_inv acc m0 b \<longleftrightarrow>
     (let g = g_ota_manage b
      in fal_layer b = fal_booted \<and> dl_part g \<in> {None, Some 2} \<and> frames_ok acc \<and>
         file_write_size g = of_nat (8 * length acc) \<and>
         file_crc_cur g = swap16 (crc_ref (payload acc)) \<and>
         take (8 * length acc) (part_bytes 2 (flash_mem b)) = payload acc \<and>
         (\<forall>j < 3. j \<noteq> 2 \<longrightarrow> part_bytes j (flash_mem b) = part_bytes j m0))"

lemma ota_inv_same: "same_ota b b' \<Longrightarrow> ota_inv acc m0 b \<Longrightarrow> ota_inv acc m0 b'"
  by (simp add: same_ota_def ota_inv_def)

lemma unat_ucast16_32 [simp]: "unat (ucast (i :: u16) :: u32) = unat i"
  using unsigned_less [of i, where ?'a = nat] by (simp add: unsigned_ucast_eq take_bit_nat_eq_self)

lemma frame_index:
  assumes "8 * k \<le> 0x60000" "(of_nat (8 * k) :: u32) div 8 = ucast (i :: u16)"
  shows "i = of_nat k"
proof -
  have "unat ((of_nat (8 * k) :: u32) div 8) = k"
    unfolding unat_div_distrib by (subst unat_of_nat32) (use assms(1) in auto)
  then have "unat i = k" unfolding assms(2) by simp
  then show ?thesis by auto
qed

lemma crc_continues:
  assumes "modbus_rtu_crc16_frame d 8 (swap16 (crc_ref p)) = Some c"
  shows "8 \<le> length d" "c = swap16 (crc_ref (p @ take 8 d))"
  using assms by (auto simp: crc16_frame_foldl crc_abs_foldl crc_ref_def split: if_splits)
     (simp add: crc_abs_def swap16_def)

lemma below_range:
  assumes "k < n" "n + j \<le> 2 ^ 32"
  shows "\<not> in_range (a + of_nat n) j (a + of_nat k)"
proof
  assume "in_range (a + of_nat n) j (a + of_nat k)"
  then obtain i where i: "i < j" "a + of_nat k = a + of_nat n + of_nat i" by (rule in_range_obtain)
  have "(of_nat k :: u32) = of_nat (n + i)" using i(2) by (simp add: algebra_simps)
  then show False using of_nat_inject_exact [of k "n + i"] i(1) assms by simp
qed

lemma take_part_bytes: "n \<le> part_size i \<Longrightarrow> take n (part_bytes i m) = mem_read m (part_start i) n"
  unfolding part_bytes_def by (auto simp: mem_read_eq_iff list_eq_iff_nth_eq)

lemma partition_write_total:
  assumes "i < 3" "0 < sz" "unat addr + unat sz \<le> part_size i" "unat sz \<le> length bs"
  shows "\<exists>m' r. fal_partition_write hw (Some i) addr bs sz fal_booted m = Some (m', r)"
proof -
  note p = part_range [OF assms(1-3)]
  show ?thesis
    unfolding partition_write_eq [OF assms(1-3)] stm32_flash_write_def
    using range_in_flash(3,4) [OF p(3) assms(2) p(4)] assms(4)
    by (cases "flash_program hw (part_start i + addr) (take (unat sz) bs) m") auto
qed

lemma write_frame:
  assumes "nor_flash hw" "8 * n \<le> 0x60000"
    and w: "fal_partition_write hw (Some 2) (of_nat (8 * n)) d 8 fal_booted m = Some (m', r)"
  shows "\<And>j. j < 3 \<Longrightarrow> j \<noteq> 2 \<Longrightarrow> part_bytes j m' = part_bytes j m"
    "take (8 * n) (part_bytes 2 m') = take (8 * n) (part_bytes 2 m)"
    "r < 0 \<or> (8 * Suc n \<le> 0x60000 \<and> 8 \<le> length d \<and>
       take (8 * Suc n) (part_bytes 2 m') = take (8 * n) (part_bytes 2 m) @ take 8 d)"
    "no_fault hw \<Longrightarrow> 8 * Suc n \<le> 0x60000 \<Longrightarrow>
       (\<And>x. in_range (part_start 2 + of_nat (8 * n)) 8 x \<Longrightarrow> m x = 0xFF) \<Longrightarrow> 0 \<le> r"
    "\<not> in_range (part_start 2 + of_nat (8 * n)) 8 x \<Longrightarrow> m' x = m x"
proof -
  have u: "unat (of_nat (8 * n) :: u32) = 8 * n" by (rule unat_of_nat32) (use assms(2) in simp)
  have "(part_bytes j m' = part_bytes j m \<or> j = 2 \<or> \<not> j < 3) \<and>
     take (8 * n) (part_bytes 2 m') = take (8 * n) (part_bytes 2 m) \<and>
     (r < 0 \<or> (8 * Suc n \<le> 0x60000 \<and> 8 \<le> length d \<and>
        take (8 * Suc n) (part_bytes 2 m') = take (8 * n) (part_bytes 2 m) @ take 8 d)) \<and>
     (no_fault hw \<and> 8 * Suc n \<le> 0x60000 \<and>
       (\<forall>x. in_range (part_start 2 + of_nat (8 * n)) 8 x \<longrightarrow> m x = 0xFF) \<longrightarrow> 0 \<le> r) \<and>
     (\<not> in_range (part_start 2 + of_nat (8 * n)) 8 x \<longrightarrow> m' x = m x)" for j
  proof (cases "8 * Suc n \<le> 0x60000")
    case False
    have "unat ((of_nat (8 * n) :: u32) + 8) = 8 * n + 8"
      using unat_add_range [of "of_nat (8 * n)" 8] u assms(2) by simp
    then have "part_len (partition_table_def ! 2) < of_nat (8 * n) + 8"
      using False by (simp add: word_less_nat_alt part_len_size part_values del: of_nat_mult)
    then have "m' = m" "r = - 1"
      using w booted_access(1) [of 2] by (auto simp: fal_partition_write_def)
    then show ?thesis using False by simp
  next
    case True
    have rng: "unat (of_nat (8 * n) :: u32) + unat (8 :: u32) \<le> part_size 2"
      unfolding u using True by (simp add: part_values)
    have two: "(2 :: nat) < 3" "(0 :: u32) < 8" by simp_all
    have len: "8 \<le> length d"
    proof (rule ccontr)
      assume "\<not> 8 \<le> length d"
      then show False
        using w partition_write_eq [OF two rng] range_in_flash(3,4) [OF part_range(3) [OF two rng] two(2) part_range(4) [OF two rng]]
        by (simp add: stm32_flash_write_def)
    qed
    have len': "unat (8 :: u32) \<le> length d" using len by simp
    note f = partition_write_facts [OF assms(1) two rng len' w, simplified]
    have low: "take (8 * n) (part_bytes 2 m') = take (8 * n) (part_bytes 2 m)"
    proof -
      have le: "8 * n \<le> part_size 2" using assms(2) by (simp add: part_values)
      have "mem_read m' (part_start 2) (8 * n) = mem_read m (part_start 2) (8 * n)"
      proof (rule mem_read_cong)
        fix k assume "k < 8 * n"
        then have "\<not> in_range (part_start 2 + of_nat (8 * n)) 8 (part_start 2 + of_nat k)"
          using True by (intro below_range) auto
        then show "m' (part_start 2 + of_nat k) = m (part_start 2 + of_nat k)" using f(2) by simp
      qed
      then show ?thesis using take_part_bytes [OF le] by simp
    qed
    have high: "take (8 * Suc n) (part_bytes 2 m') = take (8 * n) (part_bytes 2 m) @ take 8 d" if "r = 8"
    proof -
      have le: "8 * n + 8 \<le> part_size 2" using True by (simp add: part_values)
      have "take (8 * n + 8) (part_bytes 2 m') = take (8 * n) (part_bytes 2 m') @ mem_read m' (part_start 2 + of_nat (8 * n)) 8"
        using take_part_bytes [OF le, of m'] take_part_bytes [of "8 * n" 2 m'] le mem_read_append [of m' "part_start 2" "8 * n" 8]
        by simp
      then show ?thesis using low f(3) that by (simp add: add.commute)
    qed
    show ?thesis
      using f(1,2,4,5) low high len True by (auto simp: RT_ERROR_def)
  qed
  then show "\<And>j. j < 3 \<Longrightarrow> j \<noteq> 2 \<Longrightarrow> part_bytes j m' = part_bytes j m"
    "take (8 * n) (part_bytes 2 m') = take (8 * n) (part_bytes 2 m)"
    "r < 0 \<or> (8 * Suc n \<le> 0x60000 \<and> 8 \<le> length d \<and>
       take (8 * Suc n) (part_bytes 2 m') = take (8 * n) (part_bytes 2 m) @ take 8 d)"
    "no_fault hw \<Longrightarrow> 8 * Suc n \<le> 0x60000 \<Longrightarrow>
       (\<And>x. in_range (part_start 2 + of_nat (8 * n)) 8 x \<Longrightarrow> m x = 0xFF) \<Longrightarrow> 0 \<le> r"
    "\<not> in_range (part_start 2 + of_nat (8 * n)) 8 x \<Longrightarrow> m' x = m x"
    by blast+
qed

lemma ota_finish_same:
  assumes "ota_finish stack b = Some (b', e)"
  shows "flash_mem b' = flash_mem b" "fal_layer b' = fal_layer b" "board.more b' = board.more b"
    "g_ota_manage b' = (if e = Rebooting then (g_ota_manage b)\<lparr>ota_on := 0\<rparr> else g_ota_manage b)"
    "e = Rebooting \<Longrightarrow> file_crc_cur (g_ota_manage b) = file_crc16 (g_ota_manage b)"
  using assms can_put_same
  by (fastforce simp: ota_finish_def ota_reply_defs same_ota_def bind_eq_Some_conv Let_def
      split: if_splits prod.splits)+

text \<open>
  A data request either changes nothing but the queue, the kernel and unwritten flash, or
  accepts the next frame.
\<close>

definition keeps_request :: "'a board_scheme \<Rightarrow> 'a board_scheme \<Rightarrow> bool" where
  "keeps_request b b' \<longleftrightarrow>
     file_crc16 (g_ota_manage b') = file_crc16 (g_ota_manage b) \<and>
     file_total_size (g_ota_manage b') = file_total_size (g_ota_manage b)"

lemma data_request_cases:
  assumes "mainboard_ota_data_request hw stack i 8 d b = Some (b', e)"
  obtains (index) "file_write_size (g_ota_manage b) div 8 \<noteq> ucast i" "same_ota b b'" "e = Returned"
  | (fault) m r where "file_write_size (g_ota_manage b) div 8 = ucast i"
      "fal_partition_write hw (dl_part (g_ota_manage b)) (file_write_size (g_ota_manage b)) d 8
         (fal_layer b) (flash_mem b) = Some (m, r)"
      "r < 0" "same_ota (b\<lparr>flash_mem := m\<rparr>) b'" "e = Returned"
  | (accepted) m r crc where "file_write_size (g_ota_manage b) div 8 = ucast i"
      "fal_partition_write hw (dl_part (g_ota_manage b)) (file_write_size (g_ota_manage b)) d 8
         (fal_layer b) (flash_mem b) = Some (m, r)"
      "0 \<le> r" "modbus_rtu_crc16_frame d 8 (file_crc_cur (g_ota_manage b)) = Some crc"
      "ota_accept stack i 8 crc (b\<lparr>flash_mem := m\<rparr>) = Some (b', e)"
proof (cases "file_write_size (g_ota_manage b) div 8 = ucast i")
  case False
  then obtain r where "ota_data_block_replay_reply_send_to_fop_mq stack 0 i b = Some (b', r)" "e = Returned"
    using assms by (auto simp: mainboard_ota_data_request_def)
  then show thesis using index False can_put_same by (auto simp: ota_reply_defs)
next
  case True
  have e8: "(ucast (8 :: u16) :: u32) = 8" by simp
  obtain m r where w: "fal_partition_write hw (dl_part (g_ota_manage b)) (file_write_size (g_ota_manage b)) d 8
      (fal_layer b) (flash_mem b) = Some (m, r)"
    using assms True unfolding mainboard_ota_data_request_def e8
    by (cases "fal_partition_write hw (dl_part (g_ota_manage b)) (file_write_size (g_ota_manage b)) d 8
      (fal_layer b) (flash_mem b)") auto
  show thesis
  proof (cases "r < 0")
    case bad: True
    obtain x where "ota_data_block_replay_reply_send_to_fop_mq stack 0 i (b\<lparr>flash_mem := m\<rparr>) = Some (b', x)" "e = Returned"
      using assms True w bad unfolding mainboard_ota_data_request_def e8 by auto
    then show thesis using fault [OF True w bad] can_put_same by (auto simp: ota_reply_defs)
  next
    case False
    obtain crc where c: "modbus_rtu_crc16_frame d 8 (file_crc_cur (g_ota_manage b)) = Some crc"
      "ota_accept stack i 8 crc (b\<lparr>flash_mem := m\<rparr>) = Some (b', e)"
      using assms True w False unfolding mainboard_ota_data_request_def e8 by (auto simp: bind_eq_Some_conv)
    show thesis using accepted [OF True w _ c] False by simp
  qed
qed

lemma ota_accept_same:
  assumes "ota_accept stack i len crc b = Some (b', e)"
  defines "g \<equiv> (g_ota_manage b)\<lparr>file_write_size := file_write_size (g_ota_manage b) + ucast len, file_crc_cur := crc\<rparr>"
  shows "flash_mem b' = flash_mem b" "fal_layer b' = fal_layer b"
    "g_ota_manage b' = (if e = Rebooting then g\<lparr>ota_on := 0\<rparr> else g)"
    "e = Rebooting \<Longrightarrow> file_total_size g \<le> file_write_size g \<and> crc = file_crc16 g"
    "board.more b' = board.more b"
proof -
  obtain b1 r where 1: "ota_data_block_replay_reply_send_to_fop_mq stack 1 i (b\<lparr>g_ota_manage := g\<rparr>) = Some (b1, r)"
    and 2: "Option.bind (if file_total_size g \<le> file_write_size g then ota_finish stack b1 else Some (b1, Returned))
      (\<lambda>(b, e). if e = Rebooting then Some (b, e) else map_option (\<lambda>b. (b, Returned))
         (Option.bind (stop_timer (ota_timer g) b) (start_timer (ota_timer g)))) = Some (b', e)"
    using assms(1) unfolding ota_accept_def Let_def g_def [symmetric] by (auto simp: bind_eq_Some_conv)
  have s1: "same_ota (b\<lparr>g_ota_manage := g\<rparr>) b1" using 1 can_put_same by (auto simp: ota_reply_defs)
  obtain b2 e2 where 3: "(if file_total_size g \<le> file_write_size g then ota_finish stack b1 else Some (b1, Returned)) = Some (b2, e2)"
    and 4: "if e2 = Rebooting then b' = b2 \<and> e = e2 else e = Returned \<and> same_ota b2 b'"
    using 2 timers_same by (fastforce simp: bind_eq_Some_conv same_ota_def split: if_splits)
  show "flash_mem b' = flash_mem b" "fal_layer b' = fal_layer b"
    "g_ota_manage b' = (if e = Rebooting then g\<lparr>ota_on := 0\<rparr> else g)"
    "e = Rebooting \<Longrightarrow> file_total_size g \<le> file_write_size g \<and> crc = file_crc16 g"
    "board.more b' = board.more b"
    using s1 3 4 ota_finish_same [of stack b1 b2 e2]
    by (auto simp: same_ota_def g_def split: if_splits)
qed

lemma data_request_step:
  assumes "nor_flash hw" "ota_inv acc m0 b"
    and q: "mainboard_ota_data_request hw stack i 8 d b = Some (b', e)"
  shows "keeps_request b b' \<and>
    (e = Returned \<and> ota_inv acc m0 b' \<or>
     ota_inv (acc @ [(i, d)]) m0 b' \<and>
       (e = Rebooting \<longrightarrow> file_total_size (g_ota_manage b) \<le> file_write_size (g_ota_manage b') \<and>
          file_crc_cur (g_ota_manage b') = file_crc16 (g_ota_manage b)))"
proof -
  let ?g = "g_ota_manage b" and ?n = "length acc"
  have inv: "fal_layer b = fal_booted" "dl_part ?g = None \<or> dl_part ?g = Some 2" "frames_ok acc"
    "file_write_size ?g = of_nat (8 * ?n)" "file_crc_cur ?g = swap16 (crc_ref (payload acc))"
    "take (8 * ?n) (part_bytes 2 (flash_mem b)) = payload acc"
    "\<And>j. j < 3 \<Longrightarrow> j \<noteq> 2 \<Longrightarrow> part_bytes j (flash_mem b) = part_bytes j m0"
    using assms(2) by (auto simp: ota_inv_def Let_def)
  have n: "8 * ?n \<le> 0x60000" using inv(3) by (simp add: frames_ok_def)
  have part: "dl_part ?g = Some 2"
    if "fal_partition_write hw (dl_part ?g) a d 8 (fal_layer b) (flash_mem b) = Some x" for a x
    using that inv(2) by (auto simp: fal_partition_write_def part_at_def)
  from q show ?thesis
  proof (cases rule: data_request_cases)
    case index
    then show ?thesis using ota_inv_same assms(2) by (auto simp: same_ota_def keeps_request_def)
  next
    case (fault m r)
    note f = write_frame [OF assms(1) n fault(2) [unfolded part [OF fault(2)] inv(1,4)]]
    have "ota_inv acc m0 (b\<lparr>flash_mem := m\<rparr>)"
      using assms(2) f(1,2) inv(7) by (simp add: ota_inv_def Let_def)
    then show ?thesis using ota_inv_same [OF fault(4)] fault(4,5) by (auto simp: same_ota_def keeps_request_def)
  next
    case (accepted m r crc)
    note f = write_frame [OF assms(1) n accepted(2) [unfolded part [OF accepted(2)] inv(1,4)]]
    have fits: "8 * Suc ?n \<le> 0x60000" "8 \<le> length d"
      "take (8 * Suc ?n) (part_bytes 2 m) = payload acc @ take 8 d"
      using f(3) inv(6) accepted(3) by auto
    have i: "i = of_nat ?n" using frame_index [OF n] inv(4) accepted(1) by simp
    note a = ota_accept_same [OF accepted(5)]
    have crc: "crc = swap16 (crc_ref (payload acc @ take 8 d))"
      by (rule crc_continues(2)) (use accepted(4) inv(5) in simp)
    have "frames_ok (acc @ [(i, d)])" using inv(3) fits(1,2) i by (simp add: frames_ok_def)
    moreover have "file_write_size (g_ota_manage b') = of_nat (8 * Suc ?n)"
    proof -
      have "file_write_size (g_ota_manage b') = file_write_size ?g + 8" unfolding a(3) by simp
      also have "\<dots> = of_nat (8 * ?n) + 8" by (simp only: inv(4))
      finally show ?thesis by simp
    qed
    ultimately have "ota_inv (acc @ [(i, d)]) m0 b'"
      using a(1-3) inv(1,7) f(1) part [OF accepted(2)] crc fits(3) by (simp add: ota_inv_def Let_def)
    moreover have "keeps_request b b'" using a(3) by (simp add: keeps_request_def)
    ultimately show ?thesis using a(3,4) by auto
  qed
qed

section \<open>A whole update\<close>

fun ota_run :: "flash_hw \<Rightarrow> rt_can_msg \<Rightarrow> (u16 \<times> buf) list \<Rightarrow> 'a board_scheme \<Rightarrow> ('a board_scheme \<times> ota_outcome) option" where
  "ota_run hw stack [] b = Some (b, Returned)"
| "ota_run hw stack ((i, d) # fs) b =
     (case mainboard_ota_data_request hw stack i 8 d b of
        Some (b, Returned) \<Rightarrow> ota_run hw stack fs b
      | r \<Rightarrow> r)"

lemma ota_run_inv:
  assumes "nor_flash hw" "ota_inv acc m0 b" "ota_run hw stack fs b = Some (b', e)"
  shows "\<exists>acc'. subseq acc' fs \<and> ota_inv (acc @ acc') m0 b' \<and> keeps_request b b' \<and>
    (e = Rebooting \<longrightarrow> file_total_size (g_ota_manage b) \<le> file_write_size (g_ota_manage b') \<and>
          file_crc_cur (g_ota_manage b') = file_crc16 (g_ota_manage b))"
  using assms(2,3)
proof (induction fs arbitrary: b acc)
  case Nil
  then show ?case by (auto simp: keeps_request_def)
next
  case (Cons f fs)
  obtain i d where f: "f = (i, d)" by fastforce
  obtain b1 e1 where r: "mainboard_ota_data_request hw stack i 8 d b = Some (b1, e1)"
    using Cons.prems(2) f by (cases "mainboard_ota_data_request hw stack i 8 d b") auto
  note s = data_request_step [OF assms(1) Cons.prems(1) r]
  show ?case
  proof (cases e1)
    case Rebooting
    then have "b' = b1" "e = Rebooting" using Cons.prems(2) f r by auto
    then show ?thesis using s Rebooting f by (intro exI [of _ "[(i, d)]"]) auto
  next
    case Returned
    then have rest: "ota_run hw stack fs b1 = Some (b', e)" using Cons.prems(2) f r by simp
    obtain a where a: "a = [] \<or> a = [(i, d)]" "ota_inv (acc @ a) m0 b1" "keeps_request b b1"
      using s by (metis append_Nil2)
    obtain acc' where "subseq acc' fs" "ota_inv (acc @ a @ acc') m0 b'" "keeps_request b1 b'"
      "e = Rebooting \<longrightarrow> file_total_size (g_ota_manage b1) \<le> file_write_size (g_ota_manage b') \<and>
          file_crc_cur (g_ota_manage b') = file_crc16 (g_ota_manage b1)"
      using Cons.IH [OF a(2) rest] by auto
    then show ?thesis using a f by (intro exI [of _ "a @ acc'"]) (auto simp: keeps_request_def)
  qed
qed

lemma crc_ref_Nil: "swap16 (crc_ref []) = 0xFFFF"
  by (simp add: crc_ref_def swap16_def join16_def byte_of_def)

lemma find_download: "fal_partition_find ''download'' fal_booted = Some (Some 2)"
  by (simp add: fal_partition_find_def fal_booted_def partition_table_def_def)

lemma ota_prepare_inv:
  assumes "nor_flash hw" "ota_inv [] m0 b" "ota_prepare hw b = Some (b', c)"
  shows "ota_inv [] m0 b'" "keeps_request b b'" "board.more b' = board.more b"
proof -
  let ?g = "(g_ota_manage b)\<lparr>dl_part := Some 2\<rparr>"
  have fal: "fal_layer b = fal_booted" using assms(2) by (simp add: ota_inv_def Let_def)
  have "ota_inv [] m0 b' \<and> keeps_request b b' \<and> board.more b' = board.more b"
  proof (cases "DEVICE_OTA_ROM_SIZE \<le> file_total_size (g_ota_manage b)")
    case True
    then show ?thesis using assms(2,3) by (simp add: ota_prepare_def keeps_request_def)
  next
    case False
    then obtain m r where e: "fal_partition_erase_all hw (Some 2) fal_booted (flash_mem b) = Some (m, r)"
      and out: "b' = b\<lparr>g_ota_manage := ?g, flash_mem := m\<rparr> \<or>
        (\<exists>s. b' = b\<lparr>flash_mem := m, g_ota_manage := ?g\<lparr>ota_on := 1\<rparr>, kern := s\<rparr>)"
      using assms(3) fal find_download
      by (auto simp: ota_prepare_def Let_def bind_eq_Some_conv start_timer_def split: if_splits)
    have "\<And>j. j < 3 \<Longrightarrow> j \<noteq> 2 \<Longrightarrow> part_bytes j m = part_bytes j (flash_mem b)"
      using erase_all_facts(5) [OF assms(1) _ e] by simp
    then show ?thesis
      using out assms(2) by (auto simp: ota_inv_def keeps_request_def Let_def)
  qed
  then show "ota_inv [] m0 b'" "keeps_request b b'" "board.more b' = board.more b" by blast+
qed

lemma start_request_inv:
  assumes "nor_flash hw" "fal_layer b = fal_booted" "dl_part (g_ota_manage b) \<in> {None, Some 2}"
    and "mainboard_ota_start_request hw stack rd b = Some b1"
  shows "ota_inv [] (flash_mem b) b1"
    "file_crc16 (g_ota_manage b1) = join16 (rd ! 2) (rd ! 3)"
    "file_total_size (g_ota_manage b1) = join32 (rd ! 4) (rd ! 5) (rd ! 6) (rd ! 7)"
    "board.more b1 = board.more b"
proof -
  define b0 where "b0 = b\<lparr>g_ota_manage := (g_ota_manage b)
    \<lparr>new_version := join16 (rd ! 0) (rd ! 1), file_crc16 := join16 (rd ! 2) (rd ! 3),
     file_total_size := join32 (rd ! 4) (rd ! 5) (rd ! 6) (rd ! 7),
     file_write_size := 0, file_crc_cur := 0xFFFF\<rparr>\<rparr>"
  obtain b' c r where p: "ota_prepare hw b0 = Some (b', c)"
    and rep: "ota_start_reply_send_to_fop_mq stack c b' = Some (b1, r)"
    using assms(4) unfolding mainboard_ota_start_request_def Let_def b0_def [symmetric]
    by (auto simp: bind_eq_Some_conv)
  have "ota_inv [] (flash_mem b) b0"
    using assms(2,3) crc_ref_Nil by (auto simp: ota_inv_def frames_ok_def b0_def Let_def)
  note i = ota_prepare_inv [OF assms(1) this p]
  have s: "same_ota b' b1" using rep can_put_same by (auto simp: ota_reply_defs)
  show "ota_inv [] (flash_mem b) b1" by (rule ota_inv_same [OF s i(1)])
  show "file_crc16 (g_ota_manage b1) = join16 (rd ! 2) (rd ! 3)"
    "file_total_size (g_ota_manage b1) = join32 (rd ! 4) (rd ! 5) (rd ! 6) (rd ! 7)"
    "board.more b1 = board.more b"
    using i(2,3) s by (simp_all add: keeps_request_def same_ota_def b0_def)
qed

section \<open>An update without errors\<close>

text \<open>The part of the download partition from \<open>n\<close> on is erased.\<close>

definition erased_from :: "nat \<Rightarrow> mem \<Rightarrow> bool" where
  "erased_from n m \<longleftrightarrow> (\<forall>k. n \<le> k \<and> k < 0x60000 \<longrightarrow> m (part_start 2 + of_nat k) = 0xFF)"

definition ota_live :: "(u16 \<times> buf) list \<Rightarrow> mem \<Rightarrow> 'a board_scheme \<Rightarrow> bool" where
  "ota_live acc m0 b \<longleftrightarrow> ota_inv acc m0 b \<and> dl_part (g_ota_manage b) = Some 2 \<and> tx_ready b \<and>
     ota_timer (g_ota_manage b) \<noteq> None \<and> erased_from (8 * length acc) (flash_mem b)"

lemma ota_finish_live:
  assumes "tx_ready b" "length (can_data stack) = 8"
  shows "\<exists>b' e. ota_finish stack b = Some (b', e) \<and> tx_ready b' \<and>
    (e = Rebooting \<longleftrightarrow> file_crc_cur (g_ota_manage b) = file_crc16 (g_ota_manage b))"
proof -
  have put: "\<exists>b1 r. can_put (ota_reply stack x v) b = Some (b1, r) \<and> tx_ready b1" for x v
    using can_put_ready [OF assms(1), of "ota_reply stack x v"] assms(2) by simp
  obtain b1 r1 where 1: "ota_end_replay_reply_send_to_fop_mq stack 1 b = Some (b1, r1)" "tx_ready b1"
    unfolding ota_reply_defs using put by blast
  obtain b0 r0 where 0: "ota_end_replay_reply_send_to_fop_mq stack 0 b = Some (b0, r0)" "tx_ready b0"
    unfolding ota_reply_defs using put by blast
  obtain s where s: "rt_thread_sleep 2000 (kern b1) = Some s" using sleep_2000 by blast
  show ?thesis
    using 0 1 s by (auto simp: ota_finish_def Let_def tx_ready_def)
qed

lemma ota_accept_live:
  assumes "tx_ready b" "length (can_data stack) = 8" "ota_timer (g_ota_manage b) = Some t"
  shows "\<exists>b' e. ota_accept stack i 8 crc b = Some (b', e) \<and> tx_ready b' \<and>
    (e = Rebooting \<longleftrightarrow> file_total_size (g_ota_manage b) \<le> file_write_size (g_ota_manage b) + 8 \<and>
       crc = file_crc16 (g_ota_manage b))"
proof -
  let ?b = "b\<lparr>g_ota_manage := (g_ota_manage b)\<lparr>file_write_size := file_write_size (g_ota_manage b) + 8, file_crc_cur := crc\<rparr>\<rparr>"
  have "tx_ready ?b" using assms(1) by (simp add: tx_ready_def)
  then obtain b1 r1 where 1: "ota_data_block_replay_reply_send_to_fop_mq stack 1 i ?b = Some (b1, r1)" "tx_ready b1"
    unfolding ota_reply_defs
    using can_put_ready [of ?b "ota_reply stack (CAN_ID_GEN_BY_REG (ucast i) OR 0x10000) 1"] assms(2) by auto
  then have s: "same_ota ?b b1" using can_put_same by (auto simp: ota_reply_defs)
  let ?done = "file_total_size (g_ota_manage b) \<le> file_write_size (g_ota_manage b) + 8"
  obtain b2 e2 where 2: "(if ?done then ota_finish stack b1 else Some (b1, Returned)) = Some (b2, e2)"
    "tx_ready b2" "e2 = Rebooting \<longleftrightarrow> ?done \<and> crc = file_crc16 (g_ota_manage b)"
  proof (cases ?done)
    case True
    then show thesis using ota_finish_live [OF 1(2) assms(2)] s that by (auto simp: same_ota_def)
  next
    case False
    then show thesis using that [of b1 Returned] 1(2) by simp
  qed
  obtain b3 where 3: "stop_timer (Some t) b2 = Some b3" "tx_ready b3" using timers_ready(2) [OF 2(2)] by blast
  obtain b4 where 4: "start_timer (Some t) b3 = Some b4" "tx_ready b4" using timers_ready(1) [OF 3(2)] by blast
  show ?thesis
    using 1 2 3 4 assms(3) by (cases "e2 = Rebooting") (auto simp: ota_accept_def Let_def ota_outcome.exhaust)
qed

lemma data_request_live:
  assumes "nor_flash hw" "no_fault hw" "ota_live acc m0 b" "length (can_data stack) = 8"
    and "8 * Suc (length acc) \<le> 0x60000" "8 \<le> length d"
  shows "\<exists>b' e. mainboard_ota_data_request hw stack (of_nat (length acc)) 8 d b = Some (b', e) \<and>
    ota_live (acc @ [(of_nat (length acc), d)]) m0 b' \<and> keeps_request b b' \<and>
    (e = Rebooting \<longleftrightarrow> file_total_size (g_ota_manage b) \<le> of_nat (8 * Suc (length acc)) \<and>
       swap16 (crc_ref (payload acc @ take 8 d)) = file_crc16 (g_ota_manage b))"
proof -
  let ?n = "length acc" and ?i = "of_nat (length acc) :: u16"
  let ?g = "g_ota_manage b"
  have inv: "ota_inv acc m0 b" "dl_part ?g = Some 2" "tx_ready b" "erased_from (8 * ?n) (flash_mem b)"
    using assms(3) by (auto simp: ota_live_def)
  obtain t where t: "ota_timer ?g = Some t" using assms(3) by (auto simp: ota_live_def)
  have fal: "fal_layer b = fal_booted" and wsz: "file_write_size ?g = of_nat (8 * ?n)"
    and crc0: "file_crc_cur ?g = swap16 (crc_ref (payload acc))"
    using inv(1) by (auto simp: ota_inv_def Let_def)
  have n: "8 * ?n \<le> 0x60000" using assms(5) by simp
  have idx: "file_write_size ?g div 8 = ucast ?i"
  proof -
    have "unat (of_nat (8 * ?n) :: u32) = 8 * ?n" by (rule unat_of_nat32) (use n in simp)
    then have "unat (file_write_size ?g div 8) = ?n" unfolding wsz unat_div_distrib by simp
    moreover have "unat ?i = ?n" using assms(5) by (simp add: unsigned_of_nat take_bit_nat_eq_self)
    ultimately show ?thesis by (simp add: word_eq_iff_unsigned [where ?'a = nat])
  qed
  have two: "(2 :: nat) < 3" "(0 :: u32) < 8" by simp_all
  have rng: "unat (of_nat (8 * ?n) :: u32) + unat (8 :: u32) \<le> part_size 2"
    by (subst unat_of_nat32) (use assms(5) in \<open>simp_all add: part_values\<close>)
  obtain m r where w: "fal_partition_write hw (Some 2) (of_nat (8 * ?n)) d 8 fal_booted (flash_mem b) = Some (m, r)"
    using partition_write_total [OF two rng, of d hw "flash_mem b"] assms(6) by auto
  note f = write_frame [OF assms(1) n w]
  have "flash_mem b x = 0xFF" if "in_range (part_start 2 + of_nat (8 * ?n)) 8 x" for x
  proof -
    from that obtain k where "k < 8" "x = part_start 2 + of_nat (8 * ?n) + of_nat k" by (rule in_range_obtain)
    then have "x = part_start 2 + of_nat (8 * ?n + k)" "8 * ?n + k < 0x60000"
      using assms(5) by (simp_all add: algebra_simps)
    then show ?thesis using inv(4) by (simp add: erased_from_def del: of_nat_add)
  qed
  then have r: "0 \<le> r" using f(4) assms(2,5) by blast
  obtain crc where crc: "modbus_rtu_crc16_frame d 8 (file_crc_cur ?g) = Some crc"
    using assms(6) by (simp add: crc16_frame_foldl)
  have crc': "crc = swap16 (crc_ref (payload acc @ take 8 d))"
    by (rule crc_continues(2)) (use crc crc0 in simp)
  have "tx_ready (b\<lparr>flash_mem := m\<rparr>)" using inv(3) by (simp add: tx_ready_def)
  then obtain b' e where a: "ota_accept stack ?i 8 crc (b\<lparr>flash_mem := m\<rparr>) = Some (b', e)" "tx_ready b'"
    "e = Rebooting \<longleftrightarrow> file_total_size ?g \<le> file_write_size ?g + 8 \<and> crc = file_crc16 ?g"
    using ota_accept_live [of "b\<lparr>flash_mem := m\<rparr>" stack t ?i crc] assms(4) t by auto
  have q: "mainboard_ota_data_request hw stack ?i 8 d b = Some (b', e)"
    using idx w r crc a(1) fal inv(2) wsz by (simp add: mainboard_ota_data_request_def Let_def)
  note same = ota_accept_same [OF a(1)]
  have grown: "ota_inv (acc @ [(?i, d)]) m0 b'" and keep: "keeps_request b b'"
  proof -
    have "file_write_size (g_ota_manage b') = of_nat (8 * ?n) + 8" unfolding same(3) wsz [symmetric] by simp
    then have "\<not> ota_inv acc m0 b'" by (auto simp: ota_inv_def Let_def)
    then show "ota_inv (acc @ [(?i, d)]) m0 b'" "keeps_request b b'"
      using data_request_step [OF assms(1) inv(1) q] by blast+
  qed
  have "erased_from (8 * Suc ?n) (flash_mem b')"
    unfolding erased_from_def
  proof (intro allI impI)
    fix k assume k: "8 * Suc ?n \<le> k \<and> k < 0x60000"
    have "\<not> in_range (part_start 2 + of_nat (8 * ?n)) 8 (part_start 2 + of_nat k)"
    proof -
      have "of_nat k = (of_nat (8 * ?n) + of_nat (k - 8 * ?n) :: u32)"
        using k by (simp only: of_nat_add [symmetric]) simp
      then have x: "part_start 2 + of_nat k = part_start 2 + of_nat (8 * ?n) + of_nat (k - 8 * ?n)"
        by (simp only: add.assoc)
      show ?thesis unfolding x by (subst in_range_offset) (use k in auto)
    qed
    then have "m (part_start 2 + of_nat k) = flash_mem b (part_start 2 + of_nat k)" by (rule f(5))
    then show "flash_mem b' (part_start 2 + of_nat k) = 0xFF"
      using same(1) inv(4) k by (simp add: erased_from_def)
  qed
  then have "ota_live (acc @ [(?i, d)]) m0 b'"
    using grown a(2) same(3) inv(2) t by (simp add: ota_live_def)
  moreover have "file_write_size ?g + 8 = of_nat (8 * Suc ?n)" unfolding wsz by simp
  ultimately show ?thesis using q keep a(3) crc' by (auto simp: add.commute)
qed

text \<open>The numbered frames of a file given as its blocks, from block \<open>n\<close> on.\<close>

fun number_from :: "nat \<Rightarrow> buf list \<Rightarrow> (u16 \<times> buf) list" where
  "number_from n [] = []"
| "number_from n (d # ds) = (of_nat n, d) # number_from (Suc n) ds"

lemma length_number_from [simp]: "length (number_from n ds) = length ds"
  by (induction ds arbitrary: n) auto

lemma payload_number_from: "\<forall>d \<in> set ds. length d = 8 \<Longrightarrow> payload (number_from n ds) = concat ds"
  by (induction ds arbitrary: n) (auto simp: payload_def)

lemma length_concat_8: "\<forall>d \<in> set ds. length d = 8 \<Longrightarrow> length (concat ds) = 8 * length ds"
  by (induction ds) auto

lemma payload_append: "payload (xs @ ys) = payload xs @ payload ys"
  by (simp add: payload_def)

lemma ota_run_live:
  assumes "nor_flash hw" "no_fault hw" "length (can_data stack) = 8" "\<forall>d \<in> set ds. length d = 8"
    and "ota_live acc m0 b" "ds \<noteq> []" "8 * (length acc + length ds) \<le> 0x60000"
    and "unat (file_total_size (g_ota_manage b)) = 8 * (length acc + length ds)"
  shows "\<exists>b' e. ota_run hw stack (number_from (length acc) ds) b = Some (b', e) \<and>
    ota_live (acc @ number_from (length acc) ds) m0 b' \<and>
    (e = Rebooting \<longleftrightarrow> swap16 (crc_ref (payload acc @ concat ds)) = file_crc16 (g_ota_manage b))"
  using assms(4-)
proof (induction ds arbitrary: acc b)
  case (Cons d ds)
  let ?n = "length acc"
  have d: "8 \<le> length d" "take 8 d = d" using Cons.prems(1) by auto
  have fits: "8 * Suc ?n \<le> 0x60000" using Cons.prems(4) by simp
  obtain b1 e1 where r: "mainboard_ota_data_request hw stack (of_nat ?n) 8 d b = Some (b1, e1)"
    and l1: "ota_live (acc @ [(of_nat ?n, d)]) m0 b1" and k1: "keeps_request b b1"
    and e1: "e1 = Rebooting \<longleftrightarrow> file_total_size (g_ota_manage b) \<le> of_nat (8 * Suc ?n) \<and>
       swap16 (crc_ref (payload acc @ d)) = file_crc16 (g_ota_manage b)"
    using data_request_live [OF assms(1,2) Cons.prems(2) assms(3) fits d(1)] d(2) by metis
  have u: "unat (of_nat (8 * Suc ?n) :: u32) = 8 * Suc ?n" by (rule unat_of_nat32) (use fits in simp)
  show ?case
  proof (cases "ds = []")
    case True
    then have "file_total_size (g_ota_manage b) \<le> of_nat (8 * Suc ?n)"
      using Cons.prems(5) u by (simp add: word_le_nat_alt del: of_nat_mult of_nat_Suc)
    then show ?thesis using True r l1 e1 by (cases e1) auto
  next
    case False
    then have "\<not> file_total_size (g_ota_manage b) \<le> of_nat (8 * Suc ?n)"
      using Cons.prems(5) u by (cases ds) (simp_all add: word_le_nat_alt del: of_nat_mult of_nat_Suc)
    then have "e1 = Returned" using e1 by (cases e1) auto
    moreover obtain b' e where "ota_run hw stack (number_from (Suc ?n) ds) b1 = Some (b', e)"
      "ota_live ((acc @ [(of_nat ?n, d)]) @ number_from (Suc ?n) ds) m0 b'"
      "e = Rebooting \<longleftrightarrow> swap16 (crc_ref ((payload acc @ d) @ concat ds)) = file_crc16 (g_ota_manage b1)"
      using Cons.IH [OF _ l1 False] Cons.prems(1,4,5) k1 d(2) by (auto simp: keeps_request_def)
    ultimately show ?thesis using r k1 by (auto simp: keeps_request_def)
  qed
qed simp

lemma start_request_live:
  assumes "nor_flash hw" "no_fault hw" "length (can_data stack) = 8" "fal_layer b = fal_booted"
    and "dl_part (g_ota_manage b) \<in> {None, Some 2}" "tx_ready b" "ota_timer (g_ota_manage b) = Some t"
    and "unat (join32 (rd ! 4) (rd ! 5) (rd ! 6) (rd ! 7)) < 0x80000"
  shows "\<exists>b1. mainboard_ota_start_request hw stack rd b = Some b1 \<and> ota_live [] (flash_mem b) b1 \<and>
    ota_on (g_ota_manage b1) = 1"
proof -
  define b0 where "b0 = b\<lparr>g_ota_manage := (g_ota_manage b)
    \<lparr>new_version := join16 (rd ! 0) (rd ! 1), file_crc16 := join16 (rd ! 2) (rd ! 3),
     file_total_size := join32 (rd ! 4) (rd ! 5) (rd ! 6) (rd ! 7),
     file_write_size := 0, file_crc_cur := 0xFFFF\<rparr>\<rparr>"
  have small: "\<not> DEVICE_OTA_ROM_SIZE \<le> file_total_size (g_ota_manage b0)"
    using assms(8) by (simp add: b0_def DEVICE_OTA_ROM_SIZE_def word_le_nat_alt)
  obtain m r where e: "fal_partition_erase_all hw (Some 2) fal_booted (flash_mem b) = Some (m, r)"
  proof -
    have "0 < part_len (partition_table_def ! 2)" by (simp add: partition_table_def_def)
    then show thesis
      using that partition_erase_eq [of 2 "part_len (partition_table_def ! 2)" 0 hw "flash_mem b"] booted_access(1) [of 2]
      by (cases "stm32_flash_erase hw (part_start 2) (part_len (partition_table_def ! 2)) (flash_mem b)")
         (auto simp: fal_partition_erase_all_def part_len_size)
  qed
  note f = erase_all_facts [OF assms(1) _ e, simplified]
  have r: "r = int (part_size 2)" by (rule f(4) [OF assms(2)])
  let ?g = "(g_ota_manage b0)\<lparr>dl_part := Some 2, ota_on := 1\<rparr>"
  let ?b = "b0\<lparr>flash_mem := m, g_ota_manage := ?g\<rparr>"
  have "tx_ready ?b" using assms(6) by (simp add: tx_ready_def b0_def)
  then obtain b2 where b2: "start_timer (Some t) ?b = Some b2" "tx_ready b2" using timers_ready(1) by blast
  have prep: "ota_prepare hw b0 = Some (b2, 1)"
    using small e r b2(1) assms(4,7) find_download
    by (simp add: ota_prepare_def Let_def b0_def)
  obtain b1 x where rep: "ota_start_reply_send_to_fop_mq stack 1 b2 = Some (b1, x)" "tx_ready b1"
    unfolding ota_reply_defs
    using can_put_ready [OF b2(2), of "ota_reply stack (CAN_ID_GEN_BY_REG CAN_ID_HANDTOOL_OTA_START_REPLY) 1"] assms(3)
    by auto
  have start: "mainboard_ota_start_request hw stack rd b = Some b1"
    using prep rep(1) by (simp add: mainboard_ota_start_request_def Let_def b0_def)
  have "same_ota ?b b1" using timers_same(1) [OF b2(1)] rep(1) can_put_same by (auto simp: ota_reply_defs same_ota_def)
  then have "g_ota_manage b1 = ?g" "flash_mem b1 = m" by (simp_all add: same_ota_def)
  moreover have "erased_from 0 m"
    unfolding erased_from_def using f(3) [OF r] by (simp add: part_values)
  ultimately show ?thesis
    using start start_request_inv(1) [OF assms(1,4,5) start] rep(2) assms(7)
    by (simp add: ota_live_def b0_def)
qed

lemma update_completes:
  assumes "nor_flash hw" "no_fault hw" "length (can_data stack) = 8" "fal_layer b = fal_booted"
    and "dl_part (g_ota_manage b) \<in> {None, Some 2}" "tx_ready b" "ota_timer (g_ota_manage b) = Some t"
    and "\<forall>d \<in> set ds. length d = 8" "ds \<noteq> []" "8 * length ds \<le> 0x60000"
    and "unat (join32 (rd ! 4) (rd ! 5) (rd ! 6) (rd ! 7)) = 8 * length ds"
  shows "\<exists>b1 b2 e. mainboard_ota_start_request hw stack rd b = Some b1 \<and>
     ota_run hw stack (number_from 0 ds) b1 = Some (b2, e) \<and>
     take (8 * length ds) (part_bytes 2 (flash_mem b2)) = concat ds \<and>
     (e = Rebooting \<longleftrightarrow> swap16 (crc_ref (concat ds)) = join16 (rd ! 2) (rd ! 3))"
proof -
  have small: "unat (join32 (rd ! 4) (rd ! 5) (rd ! 6) (rd ! 7)) < 0x80000" using assms(10,11) by simp
  obtain b1 where b1: "mainboard_ota_start_request hw stack rd b = Some b1" "ota_live [] (flash_mem b) b1"
    using start_request_live [OF assms(1-7) small] by blast
  note s = start_request_inv [OF assms(1,4,5) b1(1)]
  obtain b2 e where r: "ota_run hw stack (number_from 0 ds) b1 = Some (b2, e)"
    "ota_live (number_from 0 ds) (flash_mem b) b2"
    "e = Rebooting \<longleftrightarrow> swap16 (crc_ref (concat ds)) = file_crc16 (g_ota_manage b1)"
    using ota_run_live [OF assms(1-3,8) b1(2) assms(9)] assms(10,11) s(3) by auto
  have "take (8 * length ds) (part_bytes 2 (flash_mem b2)) = concat ds"
    using r(2) payload_number_from [OF assms(8), of 0] by (simp add: ota_live_def ota_inv_def Let_def)
  then show ?thesis using b1(1) r(1,3) s(2) by auto
qed

text \<open>A board after start-up with its queue and its timer, for concrete runs.\<close>

definition demo_stack :: rt_can_msg where
  "demo_stack = \<lparr>can_id = 0, ide = False, rtr = False, rsv = False, can_len = 0, priv = 0, hdr = 0,
     reserved = 0, can_data = [0, 0, 0, 0, 0, 0, 0, 0]\<rparr>"

definition demo_board :: board where
  "demo_board = ota_handle_resoure_init True
     \<lparr>kern = boot_kernel, can_tx_mq = rt_mq_create 16 50 RT_IPC_FLAG_PRIO 1 2 (Some (\<lambda>_. replicate 16 0)),
      flash_mem = (\<lambda>_. 0xFF), fal_layer = fal_booted,
      g_ota_manage = \<lparr>ota_on = 0, new_version = 0, file_crc16 = 0, file_total_size = 0,
        file_write_size = 0, file_crc_cur = 0, dl_part = None, ota_timer = None\<rparr>\<rparr>"

lemma demo_board:
  "fal_layer demo_board = fal_booted" "dl_part (g_ota_manage demo_board) = None"
  "ota_timer (g_ota_manage demo_board) = Some (user_timer 1)" "length (can_data demo_stack) = 8"
  "tx_ready demo_board"
proof -
  obtain mq where mq: "rt_mq_create 16 50 RT_IPC_FLAG_PRIO 1 2 (Some (\<lambda>_. replicate 16 0)) = Some mq"
    using create_some by blast
  have l: "length (replicate 16 (0 :: u8)) = unat (ucast (RT_ALIGN 16) :: u16)" by code_simp
  have m: "(ucast (RT_ALIGN 16) :: u16) = 16" by code_simp
  show "tx_ready demo_board"
    using create_holds(1,3) [OF mq l] mq m
    by (auto simp: tx_ready_def demo_board_def ota_handle_resoure_init_def)
qed (simp_all add: demo_board_def ota_handle_resoure_init_def demo_stack_def)

abbreviation demo_file :: "buf list" where
  "demo_file \<equiv> [[1, 2, 3, 4, 5, 6, 7, 8], [9, 10, 11, 12, 13, 14, 15, 16]]"

abbreviation demo_request :: buf where
  "demo_request \<equiv> [0, 1, 0x28, 0x3B, 0, 0, 0, 16]"

lemma demo_file_facts:
  "swap16 (crc_ref (concat demo_file)) = join16 (demo_request ! 2) (demo_request ! 3)"
  "unat (join32 (demo_request ! 4) (demo_request ! 5) (demo_request ! 6) (demo_request ! 7)) = 8 * length demo_file"
  "\<forall>d \<in> set demo_file. length d = 8" "demo_file \<noteq> []" "8 * length demo_file \<le> 0x60000"
  by (code_simp, code_simp, simp_all)

section \<open>Properties\<close>

text \<open>
  C16: the board reboots into a new image only if the image is intact. Whatever frames arrive
  after a start request, in whatever order, on any NOR flash, faults included: if the update
  reaches the reset, the frames accepted are numbered from 0 without gaps, their bytes are at
  least as many as announced, they stand at the start of the download partition, their CRC
  is the announced one, and the other partitions are as before the start request. This is the
  reset at the end of a file; the timer's, after 50000 ticks of silence, is unconditional.
\<close>

theorem ota_reboots_only_into_intact_image:
  assumes "nor_flash hw" "fal_layer b = fal_booted" "dl_part (g_ota_manage b) \<in> {None, Some 2}"
    and "mainboard_ota_start_request hw stack rd b = Some b1"
    and "ota_run hw stack' fs b1 = Some (b2, Rebooting)"
  shows "\<exists>acc. subseq acc fs \<and> map fst acc = map of_nat [0..<length acc] \<and>
     unat (join32 (rd ! 4) (rd ! 5) (rd ! 6) (rd ! 7)) \<le> length (payload acc) \<and>
     swap16 (crc_ref (payload acc)) = join16 (rd ! 2) (rd ! 3) \<and>
     take (length (payload acc)) (part_bytes 2 (flash_mem b2)) = payload acc \<and>
     part_bytes 0 (flash_mem b2) = part_bytes 0 (flash_mem b) \<and>
     part_bytes 1 (flash_mem b2) = part_bytes 1 (flash_mem b)"
proof -
  note s = start_request_inv [OF assms(1-4)]
  obtain acc where acc: "subseq acc fs" "ota_inv acc (flash_mem b) b2"
    "file_total_size (g_ota_manage b1) \<le> file_write_size (g_ota_manage b2)"
    "file_crc_cur (g_ota_manage b2) = file_crc16 (g_ota_manage b1)"
    using ota_run_inv [OF assms(1) s(1) assms(5)] by auto
  have ok: "frames_ok acc" using acc(2) by (simp add: ota_inv_def Let_def)
  have "unat (of_nat (8 * length acc) :: u32) = 8 * length acc"
    by (rule unat_of_nat32) (use ok in \<open>simp add: frames_ok_def\<close>)
  then have "unat (file_total_size (g_ota_manage b1)) \<le> 8 * length acc"
    using acc(2,3) by (simp add: ota_inv_def Let_def word_le_nat_alt del: of_nat_mult)
  then show ?thesis
    using acc s(2,3) ok length_payload [OF ok]
    by (intro exI [of _ acc]) (simp add: ota_inv_def frames_ok_def Let_def)
qed

theorem ota_reboots_only_into_intact_image_witness:
  "\<exists>b1 b2 acc. mainboard_ota_start_request nor_hw demo_stack demo_request demo_board = Some b1 \<and>
     ota_run nor_hw demo_stack (number_from 0 demo_file) b1 = Some (b2, Rebooting) \<and>
     subseq acc (number_from 0 demo_file) \<and> 16 \<le> length (payload acc) \<and>
     take (length (payload acc)) (part_bytes 2 (flash_mem b2)) = payload acc \<and>
     part_bytes 0 (flash_mem b2) = part_bytes 0 (flash_mem demo_board)"
proof -
  have "dl_part (g_ota_manage demo_board) \<in> {None, Some 2}" by (simp add: demo_board(2))
  note r = update_completes [OF nor_hw demo_board(4,1) this demo_board(5,3) demo_file_facts(3-5,2)]
  obtain b1 b2 where b: "mainboard_ota_start_request nor_hw demo_stack demo_request demo_board = Some b1"
    "ota_run nor_hw demo_stack (number_from 0 demo_file) b1 = Some (b2, Rebooting)"
    using r demo_file_facts(1) by blast
  from ota_reboots_only_into_intact_image [OF nor_hw(1) demo_board(1) \<open>dl_part _ \<in> _\<close> b]
  obtain acc where "subseq acc (number_from 0 demo_file)" "8 * length demo_file \<le> length (payload acc)"
    "take (length (payload acc)) (part_bytes 2 (flash_mem b2)) = payload acc"
    "part_bytes 0 (flash_mem b2) = part_bytes 0 (flash_mem demo_board)"
    unfolding demo_file_facts(2) by metis
  then show ?thesis using b by (intro exI [of _ b1] exI [of _ b2] exI [of _ acc]) simp
qed

text \<open>
  C17: an update without errors runs through: with the kernel objects created, a flash that
  does not fail and a file of whole frames that fits the partition, the start request
  prepares the board, every frame is accepted, the file stands in the download partition,
  and the board reboots exactly if the CRC announced is that of the file.
\<close>

theorem ota_update_completes:
  assumes "nor_flash hw" "no_fault hw" "length (can_data stack) = 8" "fal_layer b = fal_booted"
    and "dl_part (g_ota_manage b) \<in> {None, Some 2}" "tx_ready b" "ota_timer (g_ota_manage b) = Some t"
    and "\<forall>d \<in> set ds. length d = 8" "ds \<noteq> []" "8 * length ds \<le> 0x60000"
    and "unat (join32 (rd ! 4) (rd ! 5) (rd ! 6) (rd ! 7)) = 8 * length ds"
  shows "\<exists>b1 b2 e. mainboard_ota_start_request hw stack rd b = Some b1 \<and>
     ota_run hw stack (number_from 0 ds) b1 = Some (b2, e) \<and>
     take (8 * length ds) (part_bytes 2 (flash_mem b2)) = concat ds \<and>
     (e = Rebooting \<longleftrightarrow> swap16 (crc_ref (concat ds)) = join16 (rd ! 2) (rd ! 3))"
  by (rule update_completes [OF assms])

theorem ota_update_completes_witness:
  "\<exists>b1 b2. mainboard_ota_start_request nor_hw demo_stack demo_request demo_board = Some b1 \<and>
     ota_run nor_hw demo_stack (number_from 0 demo_file) b1 = Some (b2, Rebooting) \<and>
     take 16 (part_bytes 2 (flash_mem b2)) = concat demo_file"
  using ota_update_completes [OF nor_hw demo_board(4,1) _ demo_board(5,3) demo_file_facts(3-5,2)]
    demo_board(2) demo_file_facts(1) by auto

text \<open>
  The size check is against 512 KB, the download partition has 384 KB: for a size in
  between the start request is accepted and the board waits for data, but no sequence of
  frames whatever completes the update.
\<close>

theorem ota_oversize_accepted_never_completes:
  assumes "nor_flash hw" "no_fault hw" "length (can_data stack) = 8" "fal_layer b = fal_booted"
    and "dl_part (g_ota_manage b) \<in> {None, Some 2}" "tx_ready b" "ota_timer (g_ota_manage b) = Some t"
    and "0x60000 < unat (join32 (rd ! 4) (rd ! 5) (rd ! 6) (rd ! 7))"
    and "unat (join32 (rd ! 4) (rd ! 5) (rd ! 6) (rd ! 7)) < 0x80000"
  shows "\<exists>b1. mainboard_ota_start_request hw stack rd b = Some b1 \<and> ota_on (g_ota_manage b1) = 1 \<and>
     (\<nexists>fs b2. ota_run hw stack fs b1 = Some (b2, Rebooting))"
proof -
  obtain b1 where b1: "mainboard_ota_start_request hw stack rd b = Some b1" "ota_on (g_ota_manage b1) = 1"
    "ota_live [] (flash_mem b) b1"
    using start_request_live [OF assms(1-7,9)] by blast
  note s = start_request_inv [OF assms(1,4,5) b1(1)]
  have False if run: "ota_run hw stack fs b1 = Some (b2, Rebooting)" for fs b2
  proof -
    obtain acc where acc: "ota_inv acc (flash_mem b) b2"
      "file_total_size (g_ota_manage b1) \<le> file_write_size (g_ota_manage b2)"
      using ota_run_inv [OF assms(1) s(1) run] by auto
    have n: "8 * length acc \<le> 0x60000" using acc(1) by (simp add: ota_inv_def frames_ok_def Let_def)
    then have "unat (of_nat (8 * length acc) :: u32) = 8 * length acc" by (intro unat_of_nat32) simp
    then show False
      using acc assms(8) s(3) n by (simp add: ota_inv_def Let_def word_le_nat_alt del: of_nat_mult)
  qed
  then show ?thesis using b1(1,2) by blast
qed

theorem ota_oversize_accepted_never_completes_witness:
  "\<exists>b1. mainboard_ota_start_request nor_hw demo_stack [0, 1, 0, 0, 0, 6, 0, 1] demo_board = Some b1 \<and>
     ota_on (g_ota_manage b1) = 1 \<and> (\<nexists>fs b2. ota_run nor_hw demo_stack fs b1 = Some (b2, Rebooting))"
proof (rule ota_oversize_accepted_never_completes [OF nor_hw demo_board(4,1) _ demo_board(5,3)])
  have "(join32 0 6 0 1 :: u32) = 0x60001" by code_simp
  then show "0x60000 < unat (join32 ([0, 1, 0, 0, 0, 6, 0, 1] ! 4) ([0, 1, 0, 0, 0, 6, 0, 1] ! 5)
      ([0, 1, 0, 0, 0, 6, 0, 1] ! 6) ([0, 1, 0, 0, 0, 6, 0, 1] ! 7))"
    "unat (join32 ([0, 1, 0, 0, 0, 6, 0, 1] ! 4) ([0, 1, 0, 0, 0, 6, 0, 1] ! 5)
      ([0, 1, 0, 0, 0, 6, 0, 1] ! 6) ([0, 1, 0, 0, 0, 6, 0, 1] ! 7)) < 0x80000"
    by simp_all
qed (simp add: demo_board(2))

end
