(* ===== verification/Can.thy ===== *)
theory Can
  imports Ota NormalCalc
begin

text \<open>
  The CAN tasks of \<open>src/applications/can.c\<close>: the dispatch of received messages, the messages
  the board sends, and the task that empties the outgoing queue. What the CAN device
  delivers and whether it takes a message are arguments. \<open>stack\<close> is the previous contents of
  the local message variables.
\<close>

section \<open>State\<close>

datatype NEGPT_STATE =
  NEGATIVE_PLATE_STATE_DISCONNECT | NEGATIVE_PLATE_STATE_CONNECT_OK |
  NEGATIVE_PLATE_STATE_CONNECT_HALF | NEGATIVE_PLATE_STATE_ERROR

fun negpt_code :: "NEGPT_STATE \<Rightarrow> u8" where
  "negpt_code NEGATIVE_PLATE_STATE_DISCONNECT = 0"
| "negpt_code NEGATIVE_PLATE_STATE_CONNECT_OK = 1"
| "negpt_code NEGATIVE_PLATE_STATE_CONNECT_HALF = 2"
| "negpt_code NEGATIVE_PLATE_STATE_ERROR = 3"

record SEND_INFO_t =
  info_neg_state :: NEGPT_STATE
  Bubble_sensor_zerocount :: u8
  info_cap :: u32

record MSG_CAN_MAIN_HEART_STRUCT =
  version :: u8
  heart_beat_count :: u16

record MSG_CAN_MAIN_RF_INFO_STRUCT =
  RF_switch :: bool
  pulse_mode :: u8
  pulse_count :: u8
  pulse_interval :: u8

record MSG_CAN_MAIN_RGB_INFO_STRUCT =
  RGB_switch :: bool
  RGB_RED :: u8
  RGB_GREEN :: u8
  RGB_BLUE :: u8

record can_board = board +
  MSG_MAIN_HEART :: MSG_CAN_MAIN_HEART_STRUCT
  MSG_MAIN_RF_INFO :: MSG_CAN_MAIN_RF_INFO_STRUCT
  MSG_MAIN_RGB_INFO :: MSG_CAN_MAIN_RGB_INFO_STRUCT
  rx_sem :: rt_semaphore
  can_inform_timer :: "timer_id option"
  ota_start_flag :: u8
  rgb_change_flag :: u8
  BOARD_SWITCH_FLAG :: u8
  g_send_info :: SEND_INFO_t

definition CAN_ID_MONITOR_BOARD_HANDSHAKE_INFO :: u32 where "CAN_ID_MONITOR_BOARD_HANDSHAKE_INFO = 0x5100"
definition CAN_ID_MONITOR_BOARD_INFORM_INFO :: u32 where "CAN_ID_MONITOR_BOARD_INFORM_INFO = 0x5104"
definition CAN_ID_MONITOR_BOARD_ERROR_INFO :: u32 where "CAN_ID_MONITOR_BOARD_ERROR_INFO = 0x5108"
definition CAN_ID_MAIN_BOARD_HEARTBEAT_INFO :: u32 where "CAN_ID_MAIN_BOARD_HEARTBEAT_INFO = 0xFF04"
definition CAN_ID_MAIN_RF_SWITCH_CONTROL_INFO :: u32 where "CAN_ID_MAIN_RF_SWITCH_CONTROL_INFO = 0x5000"
definition CAN_ID_MAIN_RGB_SWITCH_CONTROL_INFO :: u32 where "CAN_ID_MAIN_RGB_SWITCH_CONTROL_INFO = 0x5008"
definition CAN_ID_MAIN_OTA_ASK_INFO :: u32 where "CAN_ID_MAIN_OTA_ASK_INFO = 0x5010"
definition CAN_ID_MAIN_BOARD_SWITCH_CONTROL_INFO :: u32 where "CAN_ID_MAIN_BOARD_SWITCH_CONTROL_INFO = 0x5020"

definition DEVICE_NUMBER_CODE :: u16 where "DEVICE_NUMBER_CODE = 0x03"
definition COMMUNITICATION_PROTOCOL_VER :: u16 where "COMMUNITICATION_PROTOCOL_VER = 0x01"
definition DEVICE_SOFTWARE_VER :: u16 where "DEVICE_SOFTWARE_VER = 10001"
definition DEVICE_HARDWARE_VER :: u16 where "DEVICE_HARDWARE_VER = 10000"

section \<open>Outgoing messages\<close>

definition msg8 :: "rt_can_msg \<Rightarrow> u32 \<Rightarrow> buf \<Rightarrow> rt_can_msg" where
  "msg8 stack reg d =
     stack\<lparr>can_id := take_bit 29 (CAN_ID_GEN_BY_REG reg), ide := True, rtr := False, can_len := 8,
           can_data := d\<rparr>"

definition inform_msg :: "rt_can_msg \<Rightarrow> SEND_INFO_t \<Rightarrow> rt_can_msg" where
  "inform_msg stack g =
     msg8 stack CAN_ID_MONITOR_BOARD_INFORM_INFO
       [negpt_code (info_neg_state g), Bubble_sensor_zerocount g, 0, 0,
        ucast (drop_bit 24 (info_cap g)), ucast (drop_bit 16 (info_cap g)),
        ucast (drop_bit 8 (info_cap g)), ucast (info_cap g)]"

definition monitor_board_inform_info_send_to_can_mq ::
    "rt_can_msg \<Rightarrow> 'a can_board_scheme \<Rightarrow> ('a can_board_scheme \<times> int) option" where
  "monitor_board_inform_info_send_to_can_mq stack b = can_put (inform_msg stack (g_send_info b)) b"

definition monitor_board_inform_info_send ::
    "rt_can_msg \<Rightarrow> 'a can_board_scheme \<Rightarrow> ('a can_board_scheme \<times> int) option" where
  "monitor_board_inform_info_send = monitor_board_inform_info_send_to_can_mq"

definition error_code_info_send_to_can_mq ::
    "rt_can_msg \<Rightarrow> u8 \<Rightarrow> u16 \<Rightarrow> 'a can_board_scheme \<Rightarrow> ('a can_board_scheme \<times> int) option" where
  "error_code_info_send_to_can_mq stack fl ec =
     can_put (msg8 stack CAN_ID_MONITOR_BOARD_ERROR_INFO
       [fl, 0x00, ucast (drop_bit 8 ec), ucast ec, 0x00, 0x00, 0x00, 0x00])"

definition monitor_board_handshake_send_to_can_mq ::
    "rt_can_msg \<Rightarrow> 'a can_board_scheme \<Rightarrow> ('a can_board_scheme \<times> int) option" where
  "monitor_board_handshake_send_to_can_mq stack =
     can_put (msg8 stack CAN_ID_MONITOR_BOARD_HANDSHAKE_INFO
       [ucast (drop_bit 8 DEVICE_NUMBER_CODE), ucast (DEVICE_NUMBER_CODE AND 0xFF),
        ucast (drop_bit 8 COMMUNITICATION_PROTOCOL_VER), ucast (COMMUNITICATION_PROTOCOL_VER AND 0xFF),
        ucast (drop_bit 8 DEVICE_SOFTWARE_VER), ucast (DEVICE_SOFTWARE_VER AND 0xFF),
        ucast (drop_bit 8 DEVICE_HARDWARE_VER), ucast (DEVICE_HARDWARE_VER AND 0xFF)])"

definition can_inform_timer_timeout :: "rt_can_msg \<Rightarrow> 'a can_board_scheme \<Rightarrow> 'a can_board_scheme option" where
  "can_inform_timer_timeout stack b = map_option fst (monitor_board_inform_info_send_to_can_mq stack b)"

section \<open>Creation of the objects\<close>

text \<open>
  \<open>mem\<close> is what the allocation of the queue returns and \<open>created\<close> whether the timer could be
  allocated; the queue and the semaphore have the suspend lists 1, 2 and 3.
\<close>

definition user_can_resoure_init ::
    "(nat \<Rightarrow> buf) option \<Rightarrow> bool \<Rightarrow> 'a can_board_scheme \<Rightarrow> 'a can_board_scheme option" where
  "user_can_resoure_init mem created b =
     Option.bind (rt_sem_init 3 0 RT_IPC_FLAG_FIFO) (\<lambda>sem.
       let b = b\<lparr>rx_sem := sem, can_tx_mq := rt_mq_create 16 50 RT_IPC_FLAG_PRIO 1 2 mem\<rparr>
       in if can_tx_mq b = None then Some b
          else if created
          then Some (b\<lparr>kern := timer_init (user_timer 0) (rt_tick_from_millisecond 25) RT_TIMER_FLAG_PERIODIC (kern b),
                      can_inform_timer := Some (user_timer 0)\<rparr>)
          else Some (b\<lparr>can_inform_timer := None\<rparr>))"

section \<open>Received messages\<close>

definition can_source :: "rt_can_msg \<Rightarrow> u32" where
  "can_source m = drop_bit 24 (can_id m) AND 0xFF"

definition can_group :: "rt_can_msg \<Rightarrow> u32" where
  "can_group m = drop_bit 16 (can_id m) AND 0x7"

definition can_reg :: "rt_can_msg \<Rightarrow> u32" where
  "can_reg m = can_id m AND 0xFFFF"

definition rx_heartbeat :: "buf \<Rightarrow> 'a can_board_scheme \<Rightarrow> 'a can_board_scheme" where
  "rx_heartbeat d b =
     b\<lparr>MSG_MAIN_HEART := \<lparr>version = d ! 0,
          heart_beat_count = push_bit 8 (ucast (d ! 2)) + ucast (d ! 3)\<rparr>\<rparr>"

definition rx_rf_switch :: "buf \<Rightarrow> 'a can_board_scheme \<Rightarrow> 'a can_board_scheme option" where
  "rx_rf_switch d b =
     (let b = b\<lparr>MSG_MAIN_RF_INFO := \<lparr>RF_switch = d ! 0 \<noteq> 0, pulse_mode = d ! 1, pulse_count = d ! 2,
            pulse_interval = d ! 3\<rparr>\<rparr>
      in if RF_switch (MSG_MAIN_RF_INFO b)
         then map_option (\<lambda>mq. let (mq, s, r) = rt_mq_control mq True (kern b)
                in b\<lparr>kern := s, can_tx_mq := Some mq\<rparr>) (can_tx_mq b)
         else Some b)"

definition rx_rgb_switch :: "buf \<Rightarrow> 'a can_board_scheme \<Rightarrow> 'a can_board_scheme" where
  "rx_rgb_switch d b =
     b\<lparr>rgb_change_flag := 1,
       MSG_MAIN_RGB_INFO := \<lparr>RGB_switch = d ! 0 \<noteq> 0, RGB_RED = d ! 1, RGB_GREEN = d ! 2, RGB_BLUE = d ! 3\<rparr>\<rparr>"

definition rx_ota_ask :: "flash_hw \<Rightarrow> rt_can_msg \<Rightarrow> buf \<Rightarrow> 'a can_board_scheme \<Rightarrow> 'a can_board_scheme option" where
  "rx_ota_ask hw stack d b =
     map_option (\<lambda>b. b\<lparr>ota_start_flag := 1\<rparr>)
       (Option.bind (mainboard_ota_start_request hw stack d b) (\<lambda>b. stop_timer (can_inform_timer b) b))"

definition rx_board_switch :: "rt_can_msg \<Rightarrow> buf \<Rightarrow> 'a can_board_scheme \<Rightarrow> 'a can_board_scheme option" where
  "rx_board_switch stack d b =
     (let fl = 1 - d ! 0;
          rgb = (MSG_MAIN_RGB_INFO b)\<lparr>RGB_switch := fl \<noteq> 0\<rparr>;
          b = b\<lparr>BOARD_SWITCH_FLAG := fl, rgb_change_flag := 1, MSG_MAIN_RGB_INFO := rgb\<rparr>
      in if d ! 0 = 1
         then map_option fst (monitor_board_handshake_send_to_can_mq stack
                (b\<lparr>MSG_MAIN_RGB_INFO := rgb\<lparr>RGB_RED := 0, RGB_GREEN := 0, RGB_BLUE := 255\<rparr>\<rparr>))
         else Some b)"

definition can_rx_handle ::
    "flash_hw \<Rightarrow> rt_can_msg \<Rightarrow> rt_can_msg \<Rightarrow> 'a can_board_scheme \<Rightarrow> ('a can_board_scheme \<times> ota_outcome) option" where
  "can_rx_handle hw stack rxmsg b =
     (let d = can_data rxmsg; go_on = map_option (\<lambda>b. (b, Returned))
      in if can_source rxmsg = CAN_IDENTY_MAIN_BORAD then
           if can_group rxmsg = 0 then
             if can_reg rxmsg = CAN_ID_MAIN_BOARD_HEARTBEAT_INFO then Some (rx_heartbeat d b, Returned)
             else if can_reg rxmsg = CAN_ID_MAIN_RF_SWITCH_CONTROL_INFO then go_on (rx_rf_switch d b)
             else if can_reg rxmsg = CAN_ID_MAIN_RGB_SWITCH_CONTROL_INFO then Some (rx_rgb_switch d b, Returned)
             else if can_reg rxmsg = CAN_ID_MAIN_OTA_ASK_INFO then go_on (rx_ota_ask hw stack d b)
             else if can_reg rxmsg = CAN_ID_MAIN_BOARD_SWITCH_CONTROL_INFO then go_on (rx_board_switch stack d b)
             else Some (b, Returned)
           else if ota_start_flag b = 1 \<and> can_group rxmsg = 1 then
             mainboard_ota_data_request hw stack (ucast (can_id rxmsg AND 0xFFFF)) 8 d b
           else Some (b, Returned)
         else Some (b, Returned))"

text \<open>The inner loop of the receiving task: all messages the device has.\<close>

fun can_rx_drain ::
    "flash_hw \<Rightarrow> rt_can_msg \<Rightarrow> rt_can_msg list \<Rightarrow> 'a can_board_scheme \<Rightarrow> ('a can_board_scheme \<times> ota_outcome) option" where
  "can_rx_drain hw stack [] b = Some (b, Returned)"
| "can_rx_drain hw stack (m # ms) b =
     (case can_rx_handle hw stack m b of
        Some (b, Returned) \<Rightarrow> can_rx_drain hw stack ms b
      | r \<Rightarrow> r)"

section \<open>The sending task\<close>

text \<open>
  One turn of the loop: the message given to the device, or \<open>Blocked\<close>; \<open>accepts\<close> is whether
  \<open>rt_device_write\<close> takes it. When it does not, the queue is reset.
\<close>

definition can_tx_once ::
    "(rt_can_msg \<Rightarrow> bool) \<Rightarrow> 'a can_board_scheme \<Rightarrow> ('a can_board_scheme \<times> rt_can_msg option outcome) option" where
  "can_tx_once accepts b =
     Option.bind (can_tx_mq b) (\<lambda>mq.
       Option.bind (rt_mq_recv mq 16 (- 1) (kern b)) (\<lambda>(mq, s, r).
         case r of
           Blocked \<Rightarrow> Some (b\<lparr>kern := s, can_tx_mq := Some mq\<rparr>, Blocked)
         | Return (e, bytes) \<Rightarrow>
             if e \<noteq> RT_EOK then Some (b\<lparr>kern := s, can_tx_mq := Some mq\<rparr>, Return None)
             else
               let m = can_msg_of_bytes bytes;
                   (mq, s) = (if accepts m then (mq, s) else let (mq, s, _) = rt_mq_control mq True s in (mq, s))
               in Some (b\<lparr>kern := s, can_tx_mq := Some mq\<rparr>, Return (Some m))))"

section \<open>What a received message can change\<close>

lemma flag_of_more:
  "board.more b' = board.more b \<Longrightarrow> ota_start_flag b' = ota_start_flag b"
  for b b' :: "'a can_board_scheme"
  by (cases b; cases b') simp

definition is_ota_ask :: "rt_can_msg \<Rightarrow> bool" where
  "is_ota_ask m \<longleftrightarrow> can_source m = CAN_IDENTY_MAIN_BORAD \<and> can_group m = 0 \<and> can_reg m = CAN_ID_MAIN_OTA_ASK_INFO"

definition is_ota_data :: "rt_can_msg \<Rightarrow> bool" where
  "is_ota_data m \<longleftrightarrow> can_source m = CAN_IDENTY_MAIN_BORAD \<and> can_group m = 1"

definition frame_of :: "rt_can_msg \<Rightarrow> u16 \<times> buf" where
  "frame_of m = (ucast (can_id m AND 0xFFFF), can_data m)"

lemma reg_values:
  "CAN_ID_MAIN_BOARD_HEARTBEAT_INFO \<noteq> CAN_ID_MAIN_OTA_ASK_INFO"
  "CAN_ID_MAIN_RF_SWITCH_CONTROL_INFO \<noteq> CAN_ID_MAIN_OTA_ASK_INFO"
  "CAN_ID_MAIN_RGB_SWITCH_CONTROL_INFO \<noteq> CAN_ID_MAIN_OTA_ASK_INFO"
  by (simp_all add: CAN_ID_MAIN_BOARD_HEARTBEAT_INFO_def CAN_ID_MAIN_OTA_ASK_INFO_def
      CAN_ID_MAIN_RF_SWITCH_CONTROL_INFO_def CAN_ID_MAIN_RGB_SWITCH_CONTROL_INFO_def)

lemma rx_handle_ask:
  "is_ota_ask m \<Longrightarrow> can_rx_handle hw stack m b = map_option (\<lambda>b. (b, Returned)) (rx_ota_ask hw stack (can_data m) b)"
  using reg_values by (auto simp: can_rx_handle_def is_ota_ask_def Let_def)

lemma rx_handle_data:
  "is_ota_data m \<Longrightarrow> can_rx_handle hw stack m b =
     (if ota_start_flag b = 1 then mainboard_ota_data_request hw stack (fst (frame_of m)) 8 (snd (frame_of m)) b
      else Some (b, Returned))"
  by (simp add: can_rx_handle_def is_ota_data_def frame_of_def Let_def)

lemma put_keeps:
  assumes "can_put msg b = Some (b', r)"
  shows "same_ota b b'" "ota_start_flag b' = ota_start_flag b"
  using can_put_same [OF assms] flag_of_more [of b' b] by (auto simp: same_ota_def)

lemma rx_handle_other:
  assumes "can_rx_handle hw stack m b = Some (b', e)" "\<not> is_ota_ask m" "\<not> (is_ota_data m \<and> ota_start_flag b = 1)"
  shows "flash_mem b' = flash_mem b \<and> fal_layer b' = fal_layer b \<and> g_ota_manage b' = g_ota_manage b \<and>
    ota_start_flag b' = ota_start_flag b \<and> e = Returned"
proof -
  have rf: ?thesis if "rx_rf_switch d b = Some b'" "e = Returned" for d
    using that by (auto simp: rx_rf_switch_def Let_def split_def split: if_splits)
  have bs: ?thesis if h: "rx_board_switch stack d b = Some b'" "e = Returned" for d
  proof (cases "d ! 0 = 1")
    case True
    define b1 where "b1 = b\<lparr>BOARD_SWITCH_FLAG := 1 - d ! 0, rgb_change_flag := 1, MSG_MAIN_RGB_INFO :=
      (MSG_MAIN_RGB_INFO b)\<lparr>RGB_switch := 1 - d ! 0 \<noteq> 0, RGB_RED := 0, RGB_GREEN := 0, RGB_BLUE := 255\<rparr>\<rparr>"
    obtain r where "monitor_board_handshake_send_to_can_mq stack b1 = Some (b', r)"
      using h(1) True by (auto simp: rx_board_switch_def Let_def b1_def)
    then have "same_ota b1 b'" "ota_start_flag b' = ota_start_flag b1"
      using put_keeps by (auto simp: monitor_board_handshake_send_to_can_mq_def)
    then show ?thesis using h(2) by (simp add: same_ota_def b1_def)
  qed (use h in \<open>auto simp: rx_board_switch_def Let_def\<close>)
  show ?thesis
    using assms rf bs unfolding can_rx_handle_def Let_def is_ota_ask_def is_ota_data_def
    by (auto simp: rx_heartbeat_def rx_rgb_switch_def split: if_splits)
qed

section \<open>An update from the bus\<close>

definition announced_crc :: "rt_can_msg \<Rightarrow> u16" where
  "announced_crc m = join16 (can_data m ! 2) (can_data m ! 3)"

definition announced_size :: "rt_can_msg \<Rightarrow> u32" where
  "announced_size m = join32 (can_data m ! 4) (can_data m ! 5) (can_data m ! 6) (can_data m ! 7)"

definition ota_session :: "rt_can_msg list \<Rightarrow> mem \<Rightarrow> 'a board_scheme \<Rightarrow> bool" where
  "ota_session ms m0 b \<longleftrightarrow>
     (\<exists>ask \<in> set ms. \<exists>acc. is_ota_ask ask \<and> ota_inv acc m0 b \<and>
        set acc \<subseteq> frame_of ` {m \<in> set ms. is_ota_data m} \<and>
        file_crc16 (g_ota_manage b) = announced_crc ask \<and>
        file_total_size (g_ota_manage b) = announced_size ask)"

definition can_inv :: "rt_can_msg list \<Rightarrow> mem \<Rightarrow> 'a can_board_scheme \<Rightarrow> bool" where
  "can_inv ms m0 b \<longleftrightarrow> fal_layer b = fal_booted \<and> dl_part (g_ota_manage b) \<in> {None, Some 2} \<and>
     (\<forall>j < 3. j \<noteq> 2 \<longrightarrow> part_bytes j (flash_mem b) = part_bytes j m0) \<and>
     (ota_start_flag b = 1 \<longrightarrow> ota_session ms m0 b)"

lemma session_mono: "ota_session ms m0 b \<Longrightarrow> set ms \<subseteq> set ms' \<Longrightarrow> ota_session ms' m0 b"
  unfolding ota_session_def by blast

lemma session_same:
  assumes "flash_mem b' = flash_mem b" "fal_layer b' = fal_layer b" "g_ota_manage b' = g_ota_manage b"
    and "ota_session ms m0 b"
  shows "ota_session ms m0 b'"
  using assms by (simp add: ota_session_def ota_inv_def)

lemma ota_inv_rebase:
  "ota_inv acc m1 b \<Longrightarrow> (\<And>j. j < 3 \<Longrightarrow> j \<noteq> 2 \<Longrightarrow> part_bytes j m1 = part_bytes j m0) \<Longrightarrow> ota_inv acc m0 b"
  by (auto simp: ota_inv_def Let_def)

lemma ask_step:
  assumes "nor_flash hw" "can_inv ms m0 b" "is_ota_ask m" "can_rx_handle hw stack m b = Some (b', e)"
  shows "can_inv (ms @ [m]) m0 b' \<and> e = Returned"
proof -
  obtain b1 where 1: "mainboard_ota_start_request hw stack (can_data m) b = Some b1"
    and 2: "stop_timer (can_inform_timer b1) b1 = Some b2 \<Longrightarrow> b' = b2\<lparr>ota_start_flag := 1\<rparr>"
    and e: "e = Returned" for b2
    using assms(4) unfolding rx_handle_ask [OF assms(3)] rx_ota_ask_def by (auto simp: bind_eq_Some_conv)
  obtain b2 where 3: "stop_timer (can_inform_timer b1) b1 = Some b2"
    using assms(4) 1 unfolding rx_handle_ask [OF assms(3)] rx_ota_ask_def by (auto simp: bind_eq_Some_conv)
  have inv: "fal_layer b = fal_booted" "dl_part (g_ota_manage b) \<in> {None, Some 2}"
    "\<And>j. j < 3 \<Longrightarrow> j \<noteq> 2 \<Longrightarrow> part_bytes j (flash_mem b) = part_bytes j m0"
    using assms(2) by (auto simp: can_inv_def)
  note s = start_request_inv [OF assms(1) inv(1,2) 1]
  have o: "ota_inv [] m0 b2"
    by (rule ota_inv_same [OF timers_same(2) [OF 3]], rule ota_inv_rebase [OF s(1) inv(3)])
  have g: "g_ota_manage b2 = g_ota_manage b1" using timers_same(2) [OF 3] by (simp add: same_ota_def)
  have "ota_session (ms @ [m]) m0 b2"
    unfolding ota_session_def
    using assms(3) o s(2,3) g by (intro bexI [of _ m] exI [of _ "[]"]) (auto simp: announced_crc_def announced_size_def)
  then have "ota_session (ms @ [m]) m0 (b2\<lparr>ota_start_flag := 1\<rparr>)" by (rule session_same [rotated 3]) simp_all
  then show ?thesis using 2 [OF 3] e o by (auto simp: can_inv_def ota_inv_def Let_def)
qed

lemma data_step:
  assumes "nor_flash hw" "can_inv ms m0 b" "is_ota_data m" "ota_start_flag b = 1"
    and "can_rx_handle hw stack m b = Some (b', e)"
  shows "can_inv (ms @ [m]) m0 b' \<and> ota_session (ms @ [m]) m0 b' \<and>
    (e = Rebooting \<longrightarrow> file_total_size (g_ota_manage b') \<le> file_write_size (g_ota_manage b') \<and>
       file_crc_cur (g_ota_manage b') = file_crc16 (g_ota_manage b'))"
proof -
  have q: "mainboard_ota_data_request hw stack (fst (frame_of m)) 8 (snd (frame_of m)) b = Some (b', e)"
    using assms(5) unfolding rx_handle_data [OF assms(3)] using assms(4) by simp
  obtain ask acc where ask: "ask \<in> set ms" "is_ota_ask ask" "ota_inv acc m0 b"
    "set acc \<subseteq> frame_of ` {m \<in> set ms. is_ota_data m}"
    "file_crc16 (g_ota_manage b) = announced_crc ask" "file_total_size (g_ota_manage b) = announced_size ask"
    using assms(2,4) by (auto simp: can_inv_def ota_session_def)
  note s = data_request_step [OF assms(1) ask(3) q]
  have sub: "set acc \<subseteq> frame_of ` {x \<in> set (ms @ [m]). is_ota_data x}" using ask(4) by auto
  have "frame_of m \<in> frame_of ` {x \<in> set (ms @ [m]). is_ota_data x}" using assms(3) by auto
  then have sub': "set (acc @ [frame_of m]) \<subseteq> frame_of ` {x \<in> set (ms @ [m]). is_ota_data x}" using sub by simp
  have "ota_inv acc m0 b' \<or> ota_inv (acc @ [frame_of m]) m0 b'" using s by auto
  then obtain acc' where acc': "ota_inv acc' m0 b'" "set acc' \<subseteq> frame_of ` {x \<in> set (ms @ [m]). is_ota_data x}"
    using sub sub' by blast
  have "ota_session (ms @ [m]) m0 b'"
    unfolding ota_session_def
    using ask(1,2,5,6) acc' s by (intro bexI [of _ ask] exI [of _ acc']) (auto simp: keeps_request_def)
  moreover from this have "can_inv (ms @ [m]) m0 b'"
    using acc'(1) by (auto simp: can_inv_def ota_inv_def Let_def)
  ultimately show ?thesis using s by (auto simp: keeps_request_def)
qed

lemma can_step:
  assumes "nor_flash hw" "can_inv ms m0 b" "can_rx_handle hw stack m b = Some (b', e)"
  shows "can_inv (ms @ [m]) m0 b' \<and>
    (e = Rebooting \<longrightarrow> ota_session (ms @ [m]) m0 b' \<and>
       file_total_size (g_ota_manage b') \<le> file_write_size (g_ota_manage b') \<and>
       file_crc_cur (g_ota_manage b') = file_crc16 (g_ota_manage b'))"
proof -
  consider "is_ota_ask m" | "is_ota_data m \<and> ota_start_flag b = 1"
    | "\<not> is_ota_ask m" "\<not> (is_ota_data m \<and> ota_start_flag b = 1)" by blast
  then show ?thesis
  proof cases
    case 1
    then show ?thesis using ask_step [OF assms(1,2) _ assms(3)] by simp
  next
    case 2
    then show ?thesis using data_step [OF assms(1,2) _ _ assms(3)] by blast
  next
    case 3
    note o = rx_handle_other [OF assms(3) 3]
    have "ota_session (ms @ [m]) m0 b'" if "ota_session ms m0 b"
      by (rule session_same [OF _ _ _ session_mono [OF that]]) (use o in auto)
    then show ?thesis using o assms(2) by (simp add: can_inv_def)
  qed
qed

lemma can_drain_inv:
  assumes "nor_flash hw" "can_inv ms m0 b" "can_rx_drain hw stack xs b = Some (b', e)"
  shows "can_inv (ms @ xs) m0 b' \<and>
    (e = Rebooting \<longrightarrow> ota_session (ms @ xs) m0 b' \<and>
       file_total_size (g_ota_manage b') \<le> file_write_size (g_ota_manage b') \<and>
       file_crc_cur (g_ota_manage b') = file_crc16 (g_ota_manage b'))"
  using assms(2,3)
proof (induction xs arbitrary: ms b)
  case (Cons m xs)
  obtain b1 e1 where r: "can_rx_handle hw stack m b = Some (b1, e1)"
    using Cons.prems(2) by (cases "can_rx_handle hw stack m b") auto
  note s = can_step [OF assms(1) Cons.prems(1) r]
  show ?case
  proof (cases e1)
    case Returned
    then show ?thesis using Cons.IH [of "ms @ [m]" b1] Cons.prems(2) r s by simp
  next
    case Rebooting
    then have out: "b' = b1" "e = Rebooting" using Cons.prems(2) r by auto
    have sub: "set (ms @ [m]) \<subseteq> set (ms @ m # xs)" by auto
    then show ?thesis
      using s Rebooting out session_mono [OF _ sub, of m0 b1] by (auto simp: can_inv_def)
  qed
qed auto


section \<open>Update mode stays on\<close>

lemma data_request_more:
  assumes "mainboard_ota_data_request hw stack i 8 d b = Some (b', e)"
  shows "board.more b' = board.more b"
  using assms
proof (cases rule: data_request_cases)
  case (accepted m r crc)
  then show ?thesis using ota_accept_same(5) [OF accepted(5)] by simp
qed (auto simp: same_ota_def)

lemma rx_ask_cases:
  assumes "is_ota_ask m" "can_rx_handle hw stack m b = Some (b', e)"
  obtains b1 t where "mainboard_ota_start_request hw stack (can_data m) b = Some b1"
    "can_inform_timer b1 = Some t" "e = Returned"
    "b' = (b1\<lparr>kern := fst (rt_timer_stop t (kern b1))\<rparr>)\<lparr>ota_start_flag := 1\<rparr>"
  using assms(2) unfolding rx_handle_ask [OF assms(1)] rx_ota_ask_def
  by (auto simp: bind_eq_Some_conv stop_timer_def)

lemma handle_flag:
  assumes "can_rx_handle hw stack m b = Some (b', e)"
  shows "ota_start_flag b' = (if is_ota_ask m then 1 else ota_start_flag b)"
proof -
  consider "is_ota_ask m" | "\<not> is_ota_ask m" "is_ota_data m \<and> ota_start_flag b = 1"
    | "\<not> is_ota_ask m" "\<not> (is_ota_data m \<and> ota_start_flag b = 1)" by blast
  then show ?thesis
  proof cases
    case 1
    show ?thesis by (rule rx_ask_cases [OF 1 assms]) (simp add: 1)
  next
    case 2
    then have "mainboard_ota_data_request hw stack (fst (frame_of m)) 8 (snd (frame_of m)) b = Some (b', e)"
      using assms by (simp add: rx_handle_data)
    then show ?thesis using data_request_more flag_of_more 2 by metis
  next
    case 3
    then show ?thesis using rx_handle_other [OF assms 3] by simp
  qed
qed

lemma drain_flag:
  assumes "can_rx_drain hw stack ms b = Some (b', e)" "ota_start_flag b = 1"
  shows "ota_start_flag b' = 1"
  using assms
proof (induction ms arbitrary: b)
  case (Cons m ms)
  obtain b1 e1 where r: "can_rx_handle hw stack m b = Some (b1, e1)"
    using Cons.prems(1) by (cases "can_rx_handle hw stack m b") auto
  have "ota_start_flag b1 = 1" using handle_flag [OF r] Cons.prems(2) by simp
  then show ?case using Cons r by (cases e1) auto
qed simp

lemma drain_data:
  assumes "ota_start_flag b = 1" "\<forall>m \<in> set ms. is_ota_data m"
  shows "can_rx_drain hw stack ms b = ota_run hw stack (map frame_of ms) b"
  using assms
proof (induction ms arbitrary: b)
  case (Cons m ms)
  have h: "can_rx_handle hw stack m b =
      mainboard_ota_data_request hw stack (fst (frame_of m)) 8 (snd (frame_of m)) b"
    using Cons.prems by (simp add: rx_handle_data)
  have IH: "can_rx_drain hw stack ms b1 = ota_run hw stack (map frame_of ms) b1"
    if "mainboard_ota_data_request hw stack (fst (frame_of m)) 8 (snd (frame_of m)) b = Some (b1, e)" for b1 e
    using Cons.IH [of b1] Cons.prems data_request_more [OF that] flag_of_more [of b1 b] by simp
  show ?case
    by (cases "frame_of m") (use h IH in \<open>auto split: option.splits ota_outcome.splits\<close>)
qed simp

lemma drain_no_update:
  assumes "can_rx_drain hw stack ms b = Some (b', e)" "ota_start_flag b = 0"
    and "\<forall>m \<in> set ms. \<not> is_ota_ask m"
  shows "flash_mem b' = flash_mem b \<and> g_ota_manage b' = g_ota_manage b \<and> ota_start_flag b' = 0 \<and> e = Returned"
  using assms
proof (induction ms arbitrary: b)
  case (Cons m ms)
  obtain b1 e1 where r: "can_rx_handle hw stack m b = Some (b1, e1)"
    using Cons.prems(1) by (cases "can_rx_handle hw stack m b") auto
  have "\<not> (is_ota_data m \<and> ota_start_flag b = 1)" using Cons.prems(2) by simp
  note o = rx_handle_other [OF r _ this]
  show ?case using Cons.IH [of b1] Cons.prems r o by auto
qed simp

lemma ota_live_same:
  assumes "same_ota b b'" "tx_ready b'" "ota_live acc m0 b"
  shows "ota_live acc m0 b'"
  using assms ota_inv_same [OF assms(1)] by (simp add: ota_live_def same_ota_def)

section \<open>The outgoing queue\<close>

lemma put_queues:
  assumes "can_tx_mq b = Some mq" "mq_holds mq ms" "msg_size mq = 16" "length ms < mq_capacity mq"
    and "length (can_data msg) = 8"
  shows "\<exists>b' mq'. can_put msg b = Some (b', RT_EOK) \<and> can_tx_mq b' = Some mq' \<and>
    mq_holds mq' (ms @ [can_msg_bytes msg]) \<and> msg_size mq' = 16"
proof -
  have "mq_message mq (can_msg_bytes msg)" "can_msg_bytes msg \<noteq> []"
    using assms(3,5) by (auto simp: mq_message_def can_msg_bytes_def)
  from send_accepts [OF assms(2) this assms(4), of "kern b"] show ?thesis
    using assms(1,3) by (auto simp: can_put_def)
qed

lemma put_refused:
  assumes "can_tx_mq b = Some mq" "mq_holds mq ms" "msg_size mq = 16" "length ms = mq_capacity mq"
    and "length (can_data msg) = 8"
  shows "can_put msg b = Some (b, - RT_EFULL)"
proof -
  have "mq_message mq (can_msg_bytes msg)" "can_msg_bytes msg \<noteq> []"
    using assms(3,5) by (auto simp: mq_message_def can_msg_bytes_def)
  from send_refuses [OF assms(2) this assms(4), of "kern b"] show ?thesis
    using assms(1) by (simp add: can_put_def)
qed

lemma tx_takes_first:
  assumes "can_tx_mq b = Some mq" "mq_holds mq (x # ms)" "msg_size mq = 16"
  shows "\<exists>b' mq'. can_tx_once accepts b = Some (b', Return (Some (can_msg_of_bytes x))) \<and>
    can_tx_mq b' = Some mq' \<and> msg_size mq' = 16 \<and>
    mq_holds mq' (if accepts (can_msg_of_bytes x) then ms else [])"
proof -
  have sz: "unat (msg_size mq) = 16" using assms(3) by simp
  obtain mq' where r: "rt_mq_recv mq 16 (- 1) (kern b) =
      Some (mq', wake_first (mq_senders mq) (kern b), Return (RT_EOK, x))"
    "mq_holds mq' ms" "msg_size mq' = msg_size mq"
    using recv_first [OF assms(2), of "- 1" "kern b"] sz by auto
  obtain mq'' s'' r'' where c: "rt_mq_control mq' True (wake_first (mq_senders mq) (kern b)) = (mq'', s'', r'')"
    by (metis prod_cases3)
  show ?thesis
    using assms(1,3) r control_reset [OF r(2) c] c by (auto simp: can_tx_once_def)
qed

text \<open>Turns of the sending loop while there are messages; the messages given to the device.\<close>

fun can_tx_turns :: "nat \<Rightarrow> (rt_can_msg \<Rightarrow> bool) \<Rightarrow> 'a can_board_scheme \<Rightarrow> ('a can_board_scheme \<times> rt_can_msg list) option" where
  "can_tx_turns 0 accepts b = Some (b, [])"
| "can_tx_turns (Suc n) accepts b =
     (case can_tx_once accepts b of
        Some (b, Return (Some m)) \<Rightarrow> map_option (\<lambda>(b, ms). (b, m # ms)) (can_tx_turns n accepts b)
      | _ \<Rightarrow> None)"

lemma tx_turns:
  assumes "can_tx_mq b = Some mq" "mq_holds mq ms" "msg_size mq = 16" "\<forall>m. accepts m"
  shows "\<exists>b'. can_tx_turns (length ms) accepts b = Some (b', map can_msg_of_bytes ms)"
  using assms(1-3)
proof (induction ms arbitrary: b mq)
  case (Cons x ms)
  obtain b1 mq1 where 1: "can_tx_once accepts b = Some (b1, Return (Some (can_msg_of_bytes x)))"
    "can_tx_mq b1 = Some mq1" "msg_size mq1 = 16" "mq_holds mq1 ms"
    using tx_takes_first [OF Cons.prems, of accepts] assms(4) by auto
  then show ?case using Cons.IH [OF 1(2,4,3)] by auto
qed simp


section \<open>A board for concrete runs\<close>

definition demo_can_board :: can_board where
  "demo_can_board = board.extend demo_board
     \<lparr>MSG_MAIN_HEART = \<lparr>version = 0, heart_beat_count = 0\<rparr>,
      MSG_MAIN_RF_INFO = \<lparr>RF_switch = False, pulse_mode = 0, pulse_count = 0, pulse_interval = 0\<rparr>,
      MSG_MAIN_RGB_INFO = \<lparr>RGB_switch = False, RGB_RED = 0, RGB_GREEN = 0, RGB_BLUE = 0\<rparr>,
      rx_sem = \<lparr>sem_value = 0, sem_flag = RT_IPC_FLAG_FIFO, sem_queue = 3\<rparr>,
      can_inform_timer = Some (user_timer 0), ota_start_flag = 0, rgb_change_flag = 0,
      BOARD_SWITCH_FLAG = 0,
      g_send_info = \<lparr>info_neg_state = NEGATIVE_PLATE_STATE_DISCONNECT, Bubble_sensor_zerocount = 0, info_cap = 0\<rparr>\<rparr>"

lemma demo_can_board:
  "fal_layer demo_can_board = fal_booted" "dl_part (g_ota_manage demo_can_board) = None"
  "ota_timer (g_ota_manage demo_can_board) = Some (user_timer 1)"
  "tx_ready demo_can_board" "can_inform_timer demo_can_board = Some (user_timer 0)"
  "ota_start_flag demo_can_board = 0" "flash_mem demo_can_board = flash_mem demo_board"
  using demo_board(1-3,5) by (simp_all add: demo_can_board_def board.defs tx_ready_def)

text \<open>The extended identifiers the main board uses: a request to register \<open>r\<close>, the frame \<open>i\<close>.\<close>

definition bus_message :: "u32 \<Rightarrow> buf \<Rightarrow> rt_can_msg" where
  "bus_message xid d = \<lparr>can_id = 0x04400000 OR xid, ide = True, rtr = False, rsv = False, can_len = 8,
     priv = 0, hdr = 0, reserved = 0, can_data = d\<rparr>"

abbreviation demo_ask :: rt_can_msg where
  "demo_ask \<equiv> bus_message 0x5010 demo_request"

abbreviation demo_data :: "rt_can_msg list" where
  "demo_data \<equiv> [bus_message 0x10000 [1, 2, 3, 4, 5, 6, 7, 8], bus_message 0x10001 [9, 10, 11, 12, 13, 14, 15, 16]]"

lemma demo_messages:
  "is_ota_ask demo_ask" "\<forall>m \<in> set demo_data. is_ota_data m"
  "map frame_of demo_data = number_from 0 demo_file"
  by code_simp+

section \<open>An update over the bus\<close>

lemma ask_live:
  assumes "nor_flash hw" "no_fault hw" "length (can_data stack) = 8" "fal_layer b = fal_booted"
    and "dl_part (g_ota_manage b) \<in> {None, Some 2}" "tx_ready b" "ota_timer (g_ota_manage b) = Some t"
    and "can_inform_timer b = Some ti" "is_ota_ask m" "unat (announced_size m) < 0x80000"
  shows "\<exists>b1. can_rx_handle hw stack m b = Some (b1, Returned) \<and> ota_start_flag b1 = 1 \<and>
    ota_live [] (flash_mem b) b1 \<and> file_crc16 (g_ota_manage b1) = announced_crc m \<and>
    file_total_size (g_ota_manage b1) = announced_size m"
proof -
  obtain b0 where b0: "mainboard_ota_start_request hw stack (can_data m) b = Some b0"
    "ota_live [] (flash_mem b) b0"
    using start_request_live [OF assms(1-7)] assms(10) by (auto simp: announced_size_def)
  note s = start_request_inv [OF assms(1,4,5) b0(1)]
  have ti: "can_inform_timer b0 = Some ti" using s(4) assms(8) by (cases b0; cases b) simp
  let ?b = "b0\<lparr>kern := fst (rt_timer_stop ti (kern b0)), ota_start_flag := 1\<rparr>"
  have h: "can_rx_handle hw stack m b = Some (?b, Returned)"
    unfolding rx_handle_ask [OF assms(9)] rx_ota_ask_def using b0(1) ti by (simp add: stop_timer_def)
  have "ota_live [] (flash_mem b) ?b"
    using b0(2) by (simp add: ota_live_def ota_inv_def tx_ready_def)
  then show ?thesis using h s(2,3) by (auto simp: announced_crc_def announced_size_def)
qed

lemma bus_update_completes:
  assumes "nor_flash hw" "no_fault hw" "length (can_data stack) = 8" "fal_layer b = fal_booted"
    and "dl_part (g_ota_manage b) \<in> {None, Some 2}" "tx_ready b" "ota_timer (g_ota_manage b) = Some t"
    and "can_inform_timer b = Some ti" "is_ota_ask ask" "\<forall>m \<in> set ms. is_ota_data m"
    and "map frame_of ms = number_from 0 ds" "\<forall>d \<in> set ds. length d = 8" "ds \<noteq> []"
    and "8 * length ds \<le> 0x60000" "unat (announced_size ask) = 8 * length ds"
  shows "\<exists>b' e. can_rx_drain hw stack (ask # ms) b = Some (b', e) \<and>
     take (8 * length ds) (part_bytes 2 (flash_mem b')) = concat ds \<and>
     (e = Rebooting \<longleftrightarrow> swap16 (crc_ref (concat ds)) = announced_crc ask)"
proof -
  have small: "unat (announced_size ask) < 0x80000" using assms(14,15) by simp
  obtain b1 where b1: "can_rx_handle hw stack ask b = Some (b1, Returned)" "ota_start_flag b1 = 1"
    "ota_live [] (flash_mem b) b1" "file_crc16 (g_ota_manage b1) = announced_crc ask"
    "file_total_size (g_ota_manage b1) = announced_size ask"
    using ask_live [OF assms(1-9) small] by blast
  obtain b2 e where r: "ota_run hw stack (number_from 0 ds) b1 = Some (b2, e)"
    "ota_live (number_from 0 ds) (flash_mem b) b2"
    "e = Rebooting \<longleftrightarrow> swap16 (crc_ref (concat ds)) = file_crc16 (g_ota_manage b1)"
    using ota_run_live [OF assms(1-3,12) b1(3) assms(13)] assms(14,15) b1(5) by auto
  have "take (8 * length ds) (part_bytes 2 (flash_mem b2)) = concat ds"
    using r(2) payload_number_from [OF assms(12), of 0] by (simp add: ota_live_def ota_inv_def Let_def)
  then show ?thesis using b1 r drain_data [OF b1(2) assms(10)] assms(11) by auto
qed

lemmas demo_update = bus_update_completes [OF nor_hw demo_board(4) demo_can_board(1) _ demo_can_board(4,3,5)
  demo_messages(1,2,3) demo_file_facts(3-5)]

lemma demo_announced:
  "unat (announced_size demo_ask) = 8 * length demo_file"
  "announced_crc demo_ask = swap16 (crc_ref (concat demo_file))"
  using demo_file_facts(1,2) by (simp_all add: announced_size_def announced_crc_def bus_message_def)

lemma demo_update_run:
  obtains b' where "can_rx_drain nor_hw demo_stack (demo_ask # demo_data) demo_can_board = Some (b', Rebooting)"
  using demo_update demo_announced demo_can_board(2) by auto


section \<open>Properties\<close>

text \<open>
  C1: whatever arrives on the bus, in whatever order, from whichever sender, on any NOR flash
  and with its faults: if the receiving task gets to the reset, an update request was among
  the messages, and data frames of the main board, numbered from 0 without gaps, hold at
  least as many bytes as it announced, have the CRC it announced and stand at the start of
  the download partition; the partitions of the application and of its data are untouched.
  The reset by the update's timer, \<open>ota_timer_timeout\<close>, is not one of the receiving task.
\<close>

theorem can_traffic_reboots_only_into_intact_image:
  assumes "nor_flash hw" "fal_layer b = fal_booted" "dl_part (g_ota_manage b) \<in> {None, Some 2}"
    and "ota_start_flag b = 0" "can_rx_drain hw stack ms b = Some (b', Rebooting)"
  shows "\<exists>ask \<in> set ms. \<exists>acc. is_ota_ask ask \<and> set acc \<subseteq> frame_of ` {m \<in> set ms. is_ota_data m} \<and>
     map fst acc = map of_nat [0..<length acc] \<and>
     unat (announced_size ask) \<le> length (payload acc) \<and>
     swap16 (crc_ref (payload acc)) = announced_crc ask \<and>
     take (length (payload acc)) (part_bytes 2 (flash_mem b')) = payload acc \<and>
     part_bytes 0 (flash_mem b') = part_bytes 0 (flash_mem b) \<and>
     part_bytes 1 (flash_mem b') = part_bytes 1 (flash_mem b)"
proof -
  have "can_inv [] (flash_mem b) b" using assms(2-4) by (simp add: can_inv_def)
  note d = can_drain_inv [OF assms(1) this assms(5)]
  obtain ask acc where a: "ask \<in> set ms" "is_ota_ask ask" "ota_inv acc (flash_mem b) b'"
    "set acc \<subseteq> frame_of ` {m \<in> set ms. is_ota_data m}"
    "file_crc16 (g_ota_manage b') = announced_crc ask" "file_total_size (g_ota_manage b') = announced_size ask"
    using d by (auto simp: ota_session_def)
  have ok: "frames_ok acc" using a(3) by (simp add: ota_inv_def Let_def)
  have "unat (of_nat (8 * length acc) :: u32) = 8 * length acc"
    by (rule unat_of_nat32) (use ok in \<open>simp add: frames_ok_def\<close>)
  then have "unat (announced_size ask) \<le> 8 * length acc"
    using d a(3,6) by (simp add: ota_inv_def Let_def word_le_nat_alt del: of_nat_mult)
  then show ?thesis
    using a(1-5) d ok length_payload [OF ok]
    by (intro bexI [of _ ask] exI [of _ acc]) (simp_all add: ota_inv_def frames_ok_def Let_def)
qed

theorem can_traffic_reboots_only_into_intact_image_witness:
  "\<exists>b'. can_rx_drain nor_hw demo_stack (demo_ask # demo_data) demo_can_board = Some (b', Rebooting) \<and>
     part_bytes 0 (flash_mem b') = part_bytes 0 (flash_mem demo_can_board)"
proof -
  obtain b' where r: "can_rx_drain nor_hw demo_stack (demo_ask # demo_data) demo_can_board = Some (b', Rebooting)"
    by (rule demo_update_run)
  have "dl_part (g_ota_manage demo_can_board) \<in> {None, Some 2}" by (simp add: demo_can_board(2))
  from can_traffic_reboots_only_into_intact_image [OF nor_hw(1) demo_can_board(1) this demo_can_board(6) r]
  show ?thesis using r by blast
qed

text \<open>
  C7: an update over the bus runs through: from a request and the numbered data messages of a
  file that fits the partition, on a flash without faults, the receiving task programs the
  file to the download partition and reboots exactly if the CRC announced is that of the file.
\<close>

theorem can_update_over_bus_completes:
  assumes "nor_flash hw" "no_fault hw" "length (can_data stack) = 8" "fal_layer b = fal_booted"
    and "dl_part (g_ota_manage b) \<in> {None, Some 2}" "tx_ready b" "ota_timer (g_ota_manage b) = Some t"
    and "can_inform_timer b = Some ti" "is_ota_ask ask" "\<forall>m \<in> set ms. is_ota_data m"
    and "map frame_of ms = number_from 0 ds" "\<forall>d \<in> set ds. length d = 8" "ds \<noteq> []"
    and "8 * length ds \<le> 0x60000" "unat (announced_size ask) = 8 * length ds"
  shows "\<exists>b' e. can_rx_drain hw stack (ask # ms) b = Some (b', e) \<and>
     take (8 * length ds) (part_bytes 2 (flash_mem b')) = concat ds \<and>
     (e = Rebooting \<longleftrightarrow> swap16 (crc_ref (concat ds)) = announced_crc ask)"
  by (rule bus_update_completes [OF assms])

theorem can_update_over_bus_completes_witness:
  "\<exists>b'. can_rx_drain nor_hw demo_stack (demo_ask # demo_data) demo_can_board = Some (b', Rebooting) \<and>
     take 16 (part_bytes 2 (flash_mem b')) = concat demo_file"
  using can_update_over_bus_completes [OF nor_hw demo_board(4) demo_can_board(1) _ demo_can_board(4,3,5)
    demo_messages(1,2,3) demo_file_facts(3-5) demo_announced(1)] demo_announced(2) demo_can_board(2) by auto

text \<open>
  C36: without an update request, no traffic writes the flash, changes the state of the update
  or resets the board: data messages are ignored until a request has come.
\<close>

theorem can_flash_needs_request:
  assumes "can_rx_drain hw stack ms b = Some (b', e)" "ota_start_flag b = 0"
    and "\<forall>m \<in> set ms. \<not> is_ota_ask m"
  shows "flash_mem b' = flash_mem b \<and> g_ota_manage b' = g_ota_manage b \<and> ota_start_flag b' = 0 \<and> e = Returned"
  using drain_no_update [OF assms] .

theorem can_flash_needs_request_witness:
  "\<exists>b'. can_rx_drain nor_hw demo_stack (demo_data @ [bus_message 0xFF04 [1, 0, 2, 3, 0, 0, 0, 0]]) demo_can_board
        = Some (b', Returned) \<and>
     flash_mem b' = flash_mem demo_can_board \<and> heart_beat_count (MSG_MAIN_HEART b') = 0x203"
proof -
  let ?hb = "bus_message 0xFF04 [1, 0, 2, 3, 0, 0, 0, 0]"
  have data: "can_rx_handle nor_hw demo_stack m demo_can_board = Some (demo_can_board, Returned)"
    if "m \<in> set demo_data" for m
  proof -
    have "is_ota_data m" using demo_messages(2) that by blast
    then show ?thesis by (simp add: rx_handle_data demo_can_board(6))
  qed
  have "can_source ?hb = CAN_IDENTY_MAIN_BORAD" "can_group ?hb = 0"
    "can_reg ?hb = CAN_ID_MAIN_BOARD_HEARTBEAT_INFO" by code_simp+
  then have hb: "can_rx_handle nor_hw demo_stack ?hb demo_can_board
      = Some (rx_heartbeat (can_data ?hb) demo_can_board, Returned)"
    by (simp add: can_rx_handle_def)
  have count: "heart_beat_count (MSG_MAIN_HEART (rx_heartbeat (can_data ?hb) demo_can_board)) = 0x203"
    by (simp add: rx_heartbeat_def bus_message_def push_bit_eq_mult)
  have run: "can_rx_drain nor_hw demo_stack (demo_data @ [?hb]) demo_can_board
      = Some (rx_heartbeat (can_data ?hb) demo_can_board, Returned)"
    using data hb by simp
  have "\<forall>m \<in> set (demo_data @ [?hb]). \<not> is_ota_ask m" by code_simp
  from can_flash_needs_request [OF run demo_can_board(6) this] show ?thesis using run count by blast
qed

text \<open>
  A request for a file of 512 KB or more is refused, yet the board enters the update mode
  in which it stops measuring, no message leaves that mode again, and the next data message
  with number 0 makes it follow a null pointer to the partition.
\<close>

theorem can_refused_request_still_enters_update_mode:
  assumes "tx_ready b" "length (can_data stack) = 8" "dl_part (g_ota_manage b) = None"
    and "can_inform_timer b = Some ti" "is_ota_ask ask" "0x80000 \<le> unat (announced_size ask)"
  shows "\<exists>b1. can_rx_handle hw stack ask b = Some (b1, Returned) \<and>
     ota_on (g_ota_manage b1) = ota_on (g_ota_manage b) \<and> ota_start_flag b1 = 1 \<and>
     (\<forall>ms b2 e. can_rx_drain hw stack ms b1 = Some (b2, e) \<longrightarrow> ota_start_flag b2 = 1) \<and>
     (\<forall>m. is_ota_data m \<and> fst (frame_of m) = 0 \<longrightarrow> can_rx_handle hw stack m b1 = None)"
proof -
  define b0 where "b0 = b\<lparr>g_ota_manage := (g_ota_manage b)
    \<lparr>new_version := join16 (can_data ask ! 0) (can_data ask ! 1), file_crc16 := announced_crc ask,
     file_total_size := announced_size ask, file_write_size := 0, file_crc_cur := 0xFFFF\<rparr>\<rparr>"
  have "DEVICE_OTA_ROM_SIZE \<le> announced_size ask"
    using assms(6) by (simp add: DEVICE_OTA_ROM_SIZE_def word_le_nat_alt)
  then have p: "ota_prepare hw b0 = Some (b0, 0)" by (simp add: ota_prepare_def b0_def)
  have "tx_ready b0" using assms(1) by (simp add: tx_ready_def b0_def)
  then obtain b1 r where rep: "ota_start_reply_send_to_fop_mq stack 0 b0 = Some (b1, r)"
    unfolding ota_reply_defs
    using can_put_ready [of b0 "ota_reply stack (CAN_ID_GEN_BY_REG CAN_ID_HANDTOOL_OTA_START_REPLY) 0"] assms(2)
    by auto
  then have same: "same_ota b0 b1" using can_put_same by (auto simp: ota_reply_defs)
  have start: "mainboard_ota_start_request hw stack (can_data ask) b = Some b1"
    using p rep by (simp add: mainboard_ota_start_request_def Let_def b0_def announced_crc_def announced_size_def)
  have ti: "can_inform_timer b1 = Some ti"
    using same assms(4) by (cases b1; cases b) (auto simp: same_ota_def b0_def)
  let ?b = "b1\<lparr>kern := fst (rt_timer_stop ti (kern b1)), ota_start_flag := 1\<rparr>"
  have h: "can_rx_handle hw stack ask b = Some (?b, Returned)"
    unfolding rx_handle_ask [OF assms(5)] rx_ota_ask_def using start ti by (simp add: stop_timer_def)
  have g: "g_ota_manage b1 = g_ota_manage b0" using same by (simp add: same_ota_def)
  have "can_rx_handle hw stack m ?b = None" if "is_ota_data m" "fst (frame_of m) = 0" for m
    using that assms(3) g
    by (simp add: rx_handle_data mainboard_ota_data_request_def Let_def b0_def fal_partition_write_def part_at_def)
  then show ?thesis using h g drain_flag [of hw stack _ ?b] by (intro exI [of _ ?b]) (auto simp: b0_def)
qed

theorem can_refused_request_still_enters_update_mode_witness:
  "\<exists>b1. can_rx_handle nor_hw demo_stack (bus_message 0x5010 [0, 1, 0, 0, 0, 8, 0, 0]) demo_can_board = Some (b1, Returned) \<and>
     ota_start_flag b1 = 1 \<and> can_rx_handle nor_hw demo_stack (hd demo_data) b1 = None"
proof -
  have a: "is_ota_ask (bus_message 0x5010 [0, 1, 0, 0, 0, 8, 0, 0])" by code_simp
  have "announced_size (bus_message 0x5010 [0, 1, 0, 0, 0, 8, 0, 0]) = 0x80000" by code_simp
  then have "0x80000 \<le> unat (announced_size (bus_message 0x5010 [0, 1, 0, 0, 0, 8, 0, 0]))" by simp
  moreover have "is_ota_data (hd demo_data)" "fst (frame_of (hd demo_data)) = 0" by code_simp+
  ultimately show ?thesis
    using can_refused_request_still_enters_update_mode [OF demo_can_board(4) demo_board(4) demo_can_board(2,5) a, of nor_hw]
    by blast
qed

text \<open>
  C37: the state message reaches the bus: queued behind the messages waiting, it is sent after
  all of them, in their order, when the device takes what it is given, and it carries the
  identifier of this board, the connection state, the count of the bubble sensor and the
  capacity in big-endian order.
\<close>

theorem can_inform_message_reaches_bus:
  assumes "can_tx_mq b = Some mq" "mq_holds mq ms" "msg_size mq = 16" "length ms < mq_capacity mq"
    and "\<forall>m. accepts m"
  shows "\<exists>b1 b2 m. monitor_board_inform_info_send stack b = Some (b1, RT_EOK) \<and>
     can_tx_turns (Suc (length ms)) accepts b1 = Some (b2, map can_msg_of_bytes ms @ [m]) \<and>
     can_source m = CAN_IDENTY_MONITOR_BORAD \<and> can_reg m = CAN_ID_MONITOR_BOARD_INFORM_INFO \<and>
     ide m \<and> \<not> rtr m \<and> can_len m = 8 \<and> can_data m ! 0 = negpt_code (info_neg_state (g_send_info b)) \<and>
     can_data m ! 1 = Bubble_sensor_zerocount (g_send_info b) \<and>
     join32 (can_data m ! 4) (can_data m ! 5) (can_data m ! 6) (can_data m ! 7) = info_cap (g_send_info b)"
proof -
  let ?m = "inform_msg stack (g_send_info b)"
  have len: "length (can_data ?m) = 8" by (simp add: inform_msg_def msg8_def)
  obtain b1 mq1 where 1: "can_put ?m b = Some (b1, RT_EOK)" "can_tx_mq b1 = Some mq1"
    "mq_holds mq1 (ms @ [can_msg_bytes ?m])" "msg_size mq1 = 16"
    using put_queues [OF assms(1-4) len] by blast
  obtain b2 where 2: "can_tx_turns (Suc (length ms)) accepts b1
      = Some (b2, map can_msg_of_bytes (ms @ [can_msg_bytes ?m]))"
    using tx_turns [OF 1(2-4) assms(5)] by auto
  have dec: "can_msg_of_bytes (can_msg_bytes ?m) = ?m"
    by (simp add: can_msg_decode inform_msg_def msg8_def)
  have cid: "can_id ?m = 0x8205104"
    by (simp add: inform_msg_def msg8_def CAN_ID_MONITOR_BOARD_INFORM_INFO_def) code_simp
  have src: "can_source ?m = CAN_IDENTY_MONITOR_BORAD" "can_reg ?m = CAN_ID_MONITOR_BOARD_INFORM_INFO"
    unfolding can_source_def can_reg_def cid by code_simp+
  have bytes: "join32 (can_data ?m ! 4) (can_data ?m ! 5) (can_data ?m ! 6) (can_data ?m ! 7) = info_cap (g_send_info b)"
    using join32_bytes [of "info_cap (g_send_info b)"] by (simp add: inform_msg_def msg8_def byte_of_def)
  then show ?thesis
    using 1(1) 2 dec src bytes
    by (intro exI [of _ b1] exI [of _ b2] exI [of _ ?m])
       (simp add: monitor_board_inform_info_send_def monitor_board_inform_info_send_to_can_mq_def inform_msg_def msg8_def)
qed


theorem can_inform_message_reaches_bus_witness:
  "\<exists>b b1 b2 m. user_can_resoure_init (Some (\<lambda>_. replicate 16 0)) True demo_can_board = Some b \<and>
     monitor_board_inform_info_send demo_stack b = Some (b1, RT_EOK) \<and>
     can_tx_turns 1 (\<lambda>_. True) b1 = Some (b2, [m]) \<and> can_data m ! 0 = 0"
proof -
  obtain mq where mq: "rt_mq_create 16 50 RT_IPC_FLAG_PRIO 1 2 (Some (\<lambda>_. replicate 16 0)) = Some mq"
    using create_some by blast
  have l: "length (replicate 16 (0 :: u8)) = unat (ucast (RT_ALIGN 16) :: u16)" by code_simp
  have m: "(ucast (RT_ALIGN 16) :: u16) = 16" by code_simp
  have c: "mq_capacity mq = 50" using create_holds(2) [OF mq l] by simp
  obtain b where b: "user_can_resoure_init (Some (\<lambda>_. replicate 16 0)) True demo_can_board = Some b"
    "can_tx_mq b = Some mq" "g_send_info b = g_send_info demo_can_board"
    using mq by (simp add: user_can_resoure_init_def rt_sem_init_def Let_def)
  obtain b1 b2 m where "monitor_board_inform_info_send demo_stack b = Some (b1, RT_EOK)"
    "can_tx_turns (Suc 0) (\<lambda>_. True) b1 = Some (b2, [m])"
    "can_data m ! 0 = negpt_code (info_neg_state (g_send_info b))"
    using can_inform_message_reaches_bus [OF b(2) create_holds(1) [OF mq l], of "\<lambda>_. True" demo_stack]
      create_holds(3) [OF mq l] m c by auto
  moreover have "info_neg_state (g_send_info b) = NEGATIVE_PLATE_STATE_DISCONNECT"
    by (simp add: b(3) demo_can_board_def board.defs)
  ultimately show ?thesis using b(1) by auto
qed

end
