(* ===== verification/MedianFilter.thy ===== *)
theory MedianFilter
  imports Prelude Float32 "HOL-Library.Multiset"
begin

text \<open>
  The sliding median of \<open>src/applications/median_filter.c\<close>. The two heap blocks are
  \<open>Some\<close> of their contents, or \<open>None\<close> when there is no block; what \<open>rt_malloc\<close> returns
  (no block, or a block of the requested size with arbitrary contents) is an argument of
  the initialisation. \<open>qsort\<close> is the library's sorting of the block.
\<close>

section \<open>State and operations\<close>

datatype Median_Filter_Error_t =
    MEDIAN_FILTER_ERROR_OK | MEDIAN_FILTER_ERROR_PARA | MEDIAN_FILTER_ERROR_NO_MEM

record Median_Filter_t =
  median_window_full :: u8
  median_index :: u8
  median_filter_window_size :: u32
  median_window :: "f32 list option"
  sorted_window :: "f32 list option"

definition median_filter_init ::
    "Median_Filter_t \<Rightarrow> u32 \<Rightarrow> f32 list option \<Rightarrow> f32 list option \<Rightarrow>
     Median_Filter_t \<times> Median_Filter_Error_t" where
  "median_filter_init mf n malloc1 malloc2 =
     (if n = 0 \<or> n mod 2 = 0 then (mf, MEDIAN_FILTER_ERROR_PARA)
      else
        let mf = mf\<lparr>median_index := 0, median_window_full := 0,
                    median_filter_window_size := n, median_window := malloc1\<rparr>
        in if malloc1 = None then (mf, MEDIAN_FILTER_ERROR_NO_MEM)
           else let mf = mf\<lparr>sorted_window := malloc2\<rparr>
                in if malloc2 = None
                   then (mf\<lparr>median_window := None\<rparr>, MEDIAN_FILTER_ERROR_NO_MEM)
                   else (mf, MEDIAN_FILTER_ERROR_OK))"

definition median_filter_compare :: "f32 \<Rightarrow> f32 \<Rightarrow> int" where
  "median_filter_compare a b = (if a > b then 1 else if a < b then -1 else 0)"

text \<open>\<open>None\<close>: a block is missing or an index lies outside it.\<close>

definition median_filter_handle :: "Median_Filter_t \<Rightarrow> f32 \<Rightarrow> (f32 \<times> Median_Filter_t) option" where
  "median_filter_handle mf input =
     (case median_window mf of
        None \<Rightarrow> None
      | Some w \<Rightarrow>
          if length w \<le> unat (median_index mf) then None
          else
            let w = w[unat (median_index mf) := input];
                i = median_index mf + 1;
                mf = mf\<lparr>median_window := Some w, median_index := i\<rparr>;
                mf = (if ucast i \<ge> median_filter_window_size mf
                      then mf\<lparr>median_index := 0, median_window_full := 1\<rparr> else mf)
            in if median_window_full mf = 0 \<and> median_index mf \<noteq> 0 then Some (input, mf)
               else
                 case sorted_window mf of
                   None \<Rightarrow> None
                 | Some s \<Rightarrow>
                     let n = unat (median_filter_window_size mf)
                     in if length w < n \<or> length s < n \<or> n \<le> n div 2 then None
                        else let s = overlay s 0 (sort (take n w))
                             in Some (s ! (n div 2), mf\<lparr>sorted_window := Some s\<rparr>))"

text \<open>The comparison function orders floats as \<open>sort\<close> does.\<close>

lemma compare_is_order:
  "median_filter_compare a b \<le> 0 \<longleftrightarrow> a \<le> b" "median_filter_compare a b = 0 \<longleftrightarrow> a = b"
  by (auto simp: median_filter_compare_def)

text \<open>A run of the filter over a list of inputs, with its outputs.\<close>

fun median_run :: "Median_Filter_t \<Rightarrow> f32 list \<Rightarrow> (f32 list \<times> Median_Filter_t) option" where
  "median_run mf [] = Some ([], mf)"
| "median_run mf (x # xs) =
     (case median_filter_handle mf x of
        None \<Rightarrow> None
      | Some (y, mf') \<Rightarrow> map_option (\<lambda>(ys, mf''). (y # ys, mf'')) (median_run mf' xs))"

section \<open>The window is the most recent inputs\<close>

text \<open>
  \<open>holds n hs mf\<close>: after the inputs \<open>hs\<close> the state of a filter of size \<open>n\<close> holds the
  last \<open>n\<close> of them, rotated so that the next write position is the oldest.
\<close>

definition recent :: "nat \<Rightarrow> 'a list \<Rightarrow> 'a list" where
  "recent n hs = drop (length hs - n) hs"

definition ring_of :: "nat \<Rightarrow> 'a list \<Rightarrow> 'a list \<Rightarrow> bool" where
  "ring_of n hs w \<longleftrightarrow>
     length w = n \<and>
     (if length hs < n then take (length hs) w = hs
      else w = drop (n - length hs mod n) (recent n hs) @ take (n - length hs mod n) (recent n hs))"

definition holds :: "nat \<Rightarrow> f32 list \<Rightarrow> Median_Filter_t \<Rightarrow> bool" where
  "holds n hs mf \<longleftrightarrow>
     unat (median_filter_window_size mf) = n \<and> 0 < n \<and> n < 256 \<and>
     unat (median_index mf) = length hs mod n \<and>
     (median_window_full mf = 0 \<longleftrightarrow> length hs < n) \<and>
     (\<exists>w s. median_window mf = Some w \<and> sorted_window mf = Some s \<and> ring_of n hs w \<and> length s = n)"

definition median_of :: "f32 list \<Rightarrow> f32" where
  "median_of xs = sort xs ! (length xs div 2)"

lemma length_recent: "n \<le> length hs \<Longrightarrow> length (recent n hs) = n"
  by (simp add: recent_def)

lemma recent_snoc: "n \<le> length hs \<Longrightarrow> 0 < n \<Longrightarrow> recent n (hs @ [x]) = tl (recent n hs) @ [x]"
  by (simp add: recent_def Suc_diff_le drop_Suc tl_drop)

lemma window_step_full:
  assumes "length l = n" and "r < n" and "w = drop (n - r) l @ take (n - r) l"
  shows "w[r := x] = (if Suc r = n then tl l @ [x]
                      else drop (n - Suc r) (tl l @ [x]) @ take (n - Suc r) (tl l @ [x]))"
proof -
  obtain a l' where l: "l = a # l'" using assms(1,2) by (cases l) auto
  define k where "k = n - Suc r"
  have nr: "n - r = Suc k" and len: "length l' = k + r" using assms l by (auto simp: k_def)
  have "w = drop k l' @ a # take k l'" using assms(3) by (simp add: l nr)
  then have "w[r := x] = drop k l' @ x # take k l'"
    using len by (simp add: list_update_append)
  then show ?thesis
    using len assms(2) by (auto simp: l k_def [symmetric]) (auto simp: k_def)
qed

lemma ring_of_step:
  assumes ring: "ring_of n hs w" and n: "0 < n"
  shows "ring_of n (hs @ [x]) (w[length hs mod n := x])"
proof (cases "length hs < n")
  case True
  then have w: "length w = n" "take (length hs) w = hs" using ring by (auto simp: ring_of_def)
  have "take (Suc (length hs)) (w[length hs := x]) = hs @ [x]"
    using True w by (simp add: take_Suc_conv_app_nth)
  moreover have "w[length hs := x] = hs @ [x]" if "Suc (length hs) = n"
    using calculation that w by (metis length_list_update take_all order_refl)
  ultimately show ?thesis
    using True w by (cases "Suc (length hs) = n") (auto simp: ring_of_def recent_def)
next
  case False
  let ?l = "recent n hs" and ?r = "length hs mod n"
  have len: "length ?l = n" and w: "length w = n" "w = drop (n - ?r) ?l @ take (n - ?r) ?l"
    using False ring by (auto simp: ring_of_def length_recent)
  have r: "?r < n" using n by simp
  show ?thesis
    using False n w(1) window_step_full [OF len r w(2), of x] recent_snoc [of n hs x] len
    by (auto simp: ring_of_def mod_Suc)
qed

lemma mset_ring: "ring_of n hs w \<Longrightarrow> n \<le> length hs \<Longrightarrow> mset w = mset (recent n hs)"
proof -
  assume "ring_of n hs w" "n \<le> length hs"
  then have "mset w = mset (drop (n - length hs mod n) (recent n hs)) + mset (take (n - length hs mod n) (recent n hs))"
    by (simp add: ring_of_def)
  also have "\<dots> = mset (take (n - length hs mod n) (recent n hs) @ drop (n - length hs mod n) (recent n hs))"
    by (simp only: mset_append add.commute)
  finally show ?thesis by simp
qed

lemma sort_ring: "ring_of n hs w \<Longrightarrow> n \<le> length hs \<Longrightarrow> sort w = sort (recent n hs)"
  by (simp add: mset_ring properties_for_sort)

lemma holds_step:
  assumes h: "holds n hs mf"
  shows "\<exists>mf'. median_filter_handle mf x =
      Some (if Suc (length hs) < n then x else median_of (recent n (hs @ [x])), mf') \<and>
    holds n (hs @ [x]) mf'"
proof -
  obtain w s where n: "unat (median_filter_window_size mf) = n" "0 < n" "n < 256"
    and idx: "unat (median_index mf) = length hs mod n"
    and full: "median_window_full mf = 0 \<longleftrightarrow> length hs < n"
    and w: "median_window mf = Some w" "sorted_window mf = Some s" "ring_of n hs w" "length s = n"
    using h unfolding holds_def by blast
  have lw: "length w = n" using w by (simp add: ring_of_def)
  define r where "r = length hs mod n"
  define w' where "w' = w[r := x]"
  have r: "r < n" using n by (simp add: r_def)
  have ring': "ring_of n (hs @ [x]) w'"
    unfolding w'_def r_def using w n by (intro ring_of_step) auto
  have i: "unat (median_index mf + 1) = Suc r"
    using idx r n by (simp add: unat_word_ariths r_def [symmetric])
  have ge: "median_filter_window_size mf \<le> ucast (median_index mf + 1) \<longleftrightarrow> Suc r = n"
    using i n r by (auto simp: word_le_nat_alt)
  have nz: "median_index mf + 1 \<noteq> 0" using i by auto
  have r': "length (hs @ [x]) mod n = (if Suc r = n then 0 else Suc r)"
    by (simp add: r_def mod_Suc)
  define mf1 where "mf1 = (if Suc r = n
      then mf\<lparr>median_window := Some w', median_index := 0, median_window_full := 1\<rparr>
      else mf\<lparr>median_window := Some w', median_index := median_index mf + 1\<rparr>)"
  have early: "median_window_full mf1 = 0 \<and> median_index mf1 \<noteq> 0 \<longleftrightarrow> Suc (length hs) < n"
  proof (cases "length hs < n")
    case True
    then have "r = length hs" by (simp add: r_def)
    then show ?thesis using True nz full by (auto simp: mf1_def)
  next
    case False
    then show ?thesis using nz full by (auto simp: mf1_def)
  qed
  have keep: "median_filter_window_size mf1 = median_filter_window_size mf"
    "sorted_window mf1 = Some s" "median_window mf1 = Some w'"
    "unat (median_index mf1) = length (hs @ [x]) mod n"
    using i w(2) r' by (auto simp: mf1_def)
  have full1: "median_window_full mf1 = 0 \<longleftrightarrow> Suc (length hs) < n"
  proof (cases "length hs < n")
    case True
    then have "r = length hs" by (simp add: r_def)
    then show ?thesis using True full by (auto simp: mf1_def)
  next
    case False
    then show ?thesis using full by (auto simp: mf1_def)
  qed
  have lw': "length w' = n" using lw by (simp add: w'_def)
  have step: "median_filter_handle mf x =
    (if median_window_full mf1 = 0 \<and> median_index mf1 \<noteq> 0 then Some (x, mf1)
     else Some (sort w' ! (n div 2), mf1\<lparr>sorted_window := Some (sort w')\<rparr>))"
    using w lw lw' idx r n ge
    by (auto simp: median_filter_handle_def Let_def mf1_def w'_def [symmetric] r_def [symmetric] overlay_def)
  show ?thesis
  proof (cases "Suc (length hs) < n")
    case True
    then show ?thesis
      unfolding holds_def using step early keep full1 ring' n w(4) by auto
  next
    case False
    have "sort w' = sort (recent n (hs @ [x]))" using False ring' by (intro sort_ring) auto
    then show ?thesis
      unfolding holds_def using step early keep full1 ring' n lw' False
      by (auto simp: median_of_def length_recent)
  qed
qed

lemma run_holds:
  "holds n hs mf \<Longrightarrow>
   \<exists>mf'. median_run mf xs =
      Some (map (\<lambda>k. if length hs + k + 1 < n then xs ! k
                    else median_of (recent n (hs @ take (Suc k) xs))) [0..<length xs], mf') \<and>
    holds n (hs @ xs) mf'"
proof (induction xs arbitrary: hs mf)
  case (Cons x xs)
  obtain mf1 where 1: "median_filter_handle mf x =
      Some (if Suc (length hs) < n then x else median_of (recent n (hs @ [x])), mf1)"
    "holds n (hs @ [x]) mf1"
    using holds_step [OF Cons.prems] by blast
  show ?case
    using Cons.IH [OF 1(2)] 1(1)
    by (auto simp del: upt_Suc simp: upt_conv_Cons map_Suc_upt [symmetric])
qed simp

lemma init_holds:
  assumes "odd (unat n)" "unat n < 256" "length w = unat n" "length s = unat n"
  obtains mf1 where "median_filter_init mf n (Some w) (Some s) = (mf1, MEDIAN_FILTER_ERROR_OK)"
    and "holds (unat n) [] mf1"
proof -
  have "unat (n mod 2) = 1"
    using assms(1) by (simp add: unat_mod_distrib odd_iff_mod_2_eq_one)
  then have n: "n mod 2 \<noteq> 0" "n \<noteq> 0" "0 < unat n"
    using assms(1) by (metis unat_0 zero_neq_one, metis unat_0 even_zero, metis gr0I even_zero)
  show thesis
    by (rule that) (use assms n in \<open>auto simp: median_filter_init_def holds_def ring_of_def\<close>)
qed

section \<open>Robustness of the median\<close>

lemma median_bounds:
  assumes maj: "length xs < 2 * length (filter (\<lambda>x. a \<le> x \<and> x \<le> b) xs)"
  shows "a \<le> median_of xs \<and> median_of xs \<le> b"
proof -
  define ys where "ys = sort xs"
  define m where "m = length xs div 2"
  have len: "length ys = length xs" by (simp add: ys_def)
  have "0 < length xs" using maj by (cases xs) auto
  then have m: "m < length ys" by (simp add: len m_def)
  have cnt: "length (filter P xs) = card {i. i < length ys \<and> P (ys ! i)}" for P
    unfolding length_filter_conv_card [symmetric] ys_def
    by (metis filter_sort length_sort)
  have srt: "i \<le> j \<Longrightarrow> j < length ys \<Longrightarrow> ys ! i \<le> ys ! j" for i j
    by (simp add: ys_def sorted_nth_mono)
  let ?S = "{i. i < length ys \<and> a \<le> ys ! i \<and> ys ! i \<le> b}"
  have maj': "length xs < 2 * card ?S" using maj cnt [of "\<lambda>x. a \<le> x \<and> x \<le> b"] by simp
  have "a \<le> ys ! m"
  proof (rule ccontr)
    assume "\<not> a \<le> ys ! m"
    then have "?S \<subseteq> {Suc m..<length ys}"
      using srt [of _ m] m by (auto simp: not_le) (meson leD le_less_trans not_less_eq_eq order_trans)
    then have "card ?S \<le> length ys - Suc m"
      using card_mono [of "{Suc m..<length ys}" ?S] by simp
    then show False using maj' len by (simp add: m_def)
  qed
  moreover have "ys ! m \<le> b"
  proof (rule ccontr)
    assume "\<not> ys ! m \<le> b"
    then have "?S \<subseteq> {0..<m}"
      using srt [of m] m by (auto simp: not_le) (meson leD le_less_trans not_le_imp_less order_trans)
    then have "card ?S \<le> m" using card_mono [of "{0..<m}" ?S] by simp
    then show False using maj' by (simp add: m_def)
  qed
  ultimately show ?thesis by (simp add: median_of_def ys_def m_def)
qed

section \<open>Properties\<close>

text \<open>
  A filter initialised with an odd window size of at most 255 never leaves its blocks,
  passes its inputs through until the window is full, and from then on answers every input
  with the exact median of the last window of inputs, whatever the blocks contained.
\<close>

theorem median_filter_windowed:
  assumes "odd (unat n)" "unat n < 256" "length w = unat n" "length s = unat n"
    and "median_filter_init mf n (Some w) (Some s) = (mf1, err)"
  shows "err = MEDIAN_FILTER_ERROR_OK \<and>
    (\<exists>mf2. median_run mf1 xs =
      Some (map (\<lambda>k. if Suc k < unat n then xs ! k
                    else median_of (recent (unat n) (take (Suc k) xs))) [0..<length xs], mf2))"
proof -
  obtain mf1' where 1: "median_filter_init mf n (Some w) (Some s) = (mf1', MEDIAN_FILTER_ERROR_OK)"
    "holds (unat n) [] mf1'"
    using init_holds assms(1-4) by blast
  show ?thesis using run_holds [OF 1(2), of xs] 1(1) assms(5) by auto
qed

theorem median_filter_windowed_witness:
  "\<exists>mf1 mf2. median_filter_init
      (\<lparr>median_window_full = 1, median_index = 9, median_filter_window_size = 0,
       median_window = None, sorted_window = None\<rparr>) 3 (Some [7, 7, 7]) (Some [8, 8, 8]) = (mf1, MEDIAN_FILTER_ERROR_OK) \<and>
     median_run mf1 [5, 1, 9, 2] = Some ([5, 1, 5, 2], mf2)"
proof -
  obtain mf1 err where i: "median_filter_init
      (\<lparr>median_window_full = 1, median_index = 9, median_filter_window_size = 0,
       median_window = None, sorted_window = None\<rparr>) 3 (Some [7, 7, 7]) (Some [8, 8, 8]) = (mf1, err)"
    by (rule prod.exhaust)
  show ?thesis
    using median_filter_windowed [OF _ _ _ _ i, of "[5, 1, 9, 2]"] i
    by (auto simp: upt_rec recent_def median_of_def)
qed

text \<open>
  Spikes do not pass: if more than half of the last window of inputs lies in an
  interval, so does the answer of the filter to the last of them, however far out the
  other samples are.
\<close>

theorem median_filter_rejects_spikes:
  assumes "odd (unat n)" "unat n < 256" "length w = unat n" "length s = unat n"
    and "median_filter_init mf n (Some w) (Some s) = (mf1, err)"
    and "unat n \<le> length xs"
    and "unat n < 2 * length (filter (\<lambda>x. a \<le> x \<and> x \<le> b) (recent (unat n) xs))"
  shows "\<exists>ys mf2. median_run mf1 xs = Some (ys, mf2) \<and> a \<le> last ys \<and> last ys \<le> b"
proof -
  obtain mf1' where 1: "median_filter_init mf n (Some w) (Some s) = (mf1', MEDIAN_FILTER_ERROR_OK)"
    "holds (unat n) [] mf1'"
    using init_holds assms(1-4) by blast
  have "0 < length xs" using assms(1,6) by (auto intro!: Nat.gr0I)
  then obtain ys mf2 where "median_run mf1 xs = Some (ys, mf2)"
    "last ys = median_of (recent (unat n) xs)"
    using run_holds [OF 1(2), of xs] 1(1) assms(5,6) by (auto simp: last_map last_conv_nth)
  then show ?thesis
    using median_bounds [of "recent (unat n) xs" a b] assms(6,7) by (simp add: length_recent)
qed

theorem median_filter_rejects_spikes_witness:
  "\<exists>mf1 ys mf2. median_filter_init
      (\<lparr>median_window_full = 1, median_index = 9, median_filter_window_size = 0,
       median_window = None, sorted_window = None\<rparr>) 3 (Some [7, 7, 7]) (Some [8, 8, 8]) = (mf1, MEDIAN_FILTER_ERROR_OK) \<and>
     median_run mf1 [5, 1000, 6] = Some (ys, mf2) \<and> 5 \<le> last ys \<and> last ys \<le> 6"
proof -
  obtain mf1 err where i: "median_filter_init
      (\<lparr>median_window_full = 1, median_index = 9, median_filter_window_size = 0,
       median_window = None, sorted_window = None\<rparr>) 3 (Some [7, 7, 7]) (Some [8, 8, 8]) = (mf1, err)"
    by (rule prod.exhaust)
  then have "err = MEDIAN_FILTER_ERROR_OK" by (simp add: median_filter_init_def)
  then show ?thesis
    using median_filter_rejects_spikes [OF _ _ _ _ i, of "[5, 1000, 6]" 5 6] i
    by (auto simp: recent_def)
qed

text \<open>
  A window of more than 255 samples is accepted, but the write index is one byte wide: it
  wraps at 256, so the cells from 256 on are never written and the window is never marked
  as full.
\<close>

lemma oversize_step:
  assumes "255 < unat (median_filter_window_size mf)" "median_window_full mf = 0"
    and "median_window mf = Some w" "sorted_window mf = Some s"
    and "length w = unat (median_filter_window_size mf)" "length s = length w"
  shows "\<exists>y mf' w' s'. median_filter_handle mf x = Some (y, mf') \<and>
    median_filter_window_size mf' = median_filter_window_size mf \<and> median_window_full mf' = 0 \<and>
    median_window mf' = Some w' \<and> sorted_window mf' = Some s' \<and> length w' = length w \<and>
    length s' = length w \<and> drop 256 w' = drop 256 w \<and>
    median_index mf' = median_index mf + 1"
proof -
  have i: "unat (median_index mf) < 256" "unat (median_index mf + 1) < 256"
    using unat_u8_less by auto
  then have "\<not> median_filter_window_size mf \<le> ucast (median_index mf + 1)"
    using assms(1) i(2) unfolding word_le_nat_alt unat_byte32 by linarith
  then show ?thesis
    using assms
    by (auto simp: median_filter_handle_def Let_def not_le)
      (use unat_u8_less [of "median_index mf"] in linarith)+
qed

lemma oversize_run:
  assumes "255 < unat (median_filter_window_size mf)" "median_window_full mf = 0"
    and "median_window mf = Some w" "sorted_window mf = Some s"
    and "length w = unat (median_filter_window_size mf)" "length s = length w"
  shows "\<exists>ys mf' w'. median_run mf xs = Some (ys, mf') \<and> median_window_full mf' = 0 \<and>
    median_index mf' = median_index mf + of_nat (length xs) \<and>
    median_window mf' = Some w' \<and> drop 256 w' = drop 256 w"
  using assms
proof (induction xs arbitrary: mf w s)
  case (Cons x xs)
  obtain y mf1 w1 s1 where 1: "median_filter_handle mf x = Some (y, mf1)"
    "median_filter_window_size mf1 = median_filter_window_size mf" "median_window_full mf1 = 0"
    "median_window mf1 = Some w1" "sorted_window mf1 = Some s1" "length w1 = length w"
    "length s1 = length w" "drop 256 w1 = drop 256 w" "median_index mf1 = median_index mf + 1"
    using oversize_step [OF Cons.prems, of x] by blast
  then show ?case
    using Cons.IH [of mf1 w1 s1] Cons.prems by auto
qed auto

text \<open>
  A filter that \<open>median_filter_init\<close> sets up for a window of more than 255 samples and
  reports as usable stays in its filling phase for ever.
\<close>

theorem median_filter_oversize_never_fills:
  assumes "median_filter_init mf0 n (Some w) (Some s) = (mf, MEDIAN_FILTER_ERROR_OK)"
    and "255 < unat n" "length w = unat n" "length s = unat n"
  shows "\<exists>ys mf' w'. median_run mf xs = Some (ys, mf') \<and> median_window_full mf' = 0 \<and>
    median_index mf' = of_nat (length xs) \<and>
    median_window mf' = Some w' \<and> drop 256 w' = drop 256 w"
  using oversize_run [of mf w s xs] assms
  by (auto simp: median_filter_init_def Let_def split: if_splits)

theorem median_filter_oversize_never_fills_witness:
  "\<exists>mf. median_filter_init
      (\<lparr>median_window_full = 1, median_index = 9, median_filter_window_size = 0,
       median_window = None, sorted_window = None\<rparr>) 257 (Some (replicate 257 0)) (Some (replicate 257 0)) =
       (mf, MEDIAN_FILTER_ERROR_OK) \<and>
     (\<exists>ys mf'. median_run mf (replicate 256 1) = Some (ys, mf') \<and>
       median_window_full mf' = 0 \<and> median_index mf' = 0)"
proof -
  obtain mf err where i: "median_filter_init
      (\<lparr>median_window_full = 1, median_index = 9, median_filter_window_size = 0,
       median_window = None, sorted_window = None\<rparr>) 257 (Some (replicate 257 0)) (Some (replicate 257 0)) = (mf, err)"
    by (rule prod.exhaust)
  then have "err = MEDIAN_FILTER_ERROR_OK" by (auto simp: median_filter_init_def)
  then show ?thesis
    using median_filter_oversize_never_fills [OF i [unfolded \<open>err = _\<close>], of "replicate 256 1"] i
    by auto
qed

end
