(* ===== verification/Lcr.thy ===== *)
theory Lcr
  imports Can MedianFilter
begin

text \<open>
  The decision on the negative plate, \<open>lcr_info_judge\<close> of \<open>src/applications/lcr_task.c\<close>: the
  median of the measured capacities is compared with three pairs of limits, and a change of
  the state is sent to the main board. The static variables of the function are a record.
  \<open>None\<close>: a block of the filter or the queue is missing, or the conversion of the capacity
  to 32 bits is undefined.
\<close>

section \<open>State and operations\<close>

record lcr_judge =
  neg_state :: NEGPT_STATE
  pre_neg_state :: NEGPT_STATE
  error_reduce :: u16

definition lcr_judge_init :: lcr_judge where
  "lcr_judge_init = \<lparr>neg_state = NEGATIVE_PLATE_STATE_DISCONNECT,
     pre_neg_state = NEGATIVE_PLATE_STATE_DISCONNECT, error_reduce = 0\<rparr>"

definition NEGATIVE_PLATE_LIMIT1_LOW :: u32 where "NEGATIVE_PLATE_LIMIT1_LOW = 15000"
definition NEGATIVE_PLATE_LIMIT1_HIGH :: u32 where "NEGATIVE_PLATE_LIMIT1_HIGH = 20000"
definition NEGATIVE_PLATE_LIMIT2_LOW :: u32 where "NEGATIVE_PLATE_LIMIT2_LOW = 50000"
definition NEGATIVE_PLATE_LIMIT2_HIGH :: u32 where "NEGATIVE_PLATE_LIMIT2_HIGH = 70000"
definition NEGATIVE_PLATE_LIMIT3_LOW :: u32 where "NEGATIVE_PLATE_LIMIT3_LOW = 100000"
definition NEGATIVE_PLATE_LIMIT3_HIGH :: u32 where "NEGATIVE_PLATE_LIMIT3_HIGH = 5000000"
definition NEGATIVE_PLATE_ERROR_REDUCE :: u16 where "NEGATIVE_PLATE_ERROR_REDUCE = 10"

lemmas lcr_limits = NEGATIVE_PLATE_LIMIT1_LOW_def NEGATIVE_PLATE_LIMIT1_HIGH_def
  NEGATIVE_PLATE_LIMIT2_LOW_def NEGATIVE_PLATE_LIMIT2_HIGH_def NEGATIVE_PLATE_LIMIT3_LOW_def
  NEGATIVE_PLATE_LIMIT3_HIGH_def NEGATIVE_PLATE_ERROR_REDUCE_def

text \<open>After an error a new state is only entered when the counter has run down.\<close>

definition reduce_or :: "NEGPT_STATE \<Rightarrow> lcr_judge \<Rightarrow> lcr_judge" where
  "reduce_or s j =
     (if error_reduce j \<noteq> 0 then j\<lparr>error_reduce := error_reduce j - 1\<rparr> else j\<lparr>neg_state := s\<rparr>)"

definition lcr_decide :: "u32 \<Rightarrow> lcr_judge \<Rightarrow> lcr_judge" where
  "lcr_decide cap j =
     (if cap < NEGATIVE_PLATE_LIMIT1_LOW then reduce_or NEGATIVE_PLATE_STATE_DISCONNECT j
      else if cap < NEGATIVE_PLATE_LIMIT1_HIGH then
        if pre_neg_state j = NEGATIVE_PLATE_STATE_DISCONNECT \<or> pre_neg_state j = NEGATIVE_PLATE_STATE_CONNECT_HALF
        then j else reduce_or NEGATIVE_PLATE_STATE_DISCONNECT j
      else if cap < NEGATIVE_PLATE_LIMIT2_LOW then reduce_or NEGATIVE_PLATE_STATE_CONNECT_HALF j
      else if cap < NEGATIVE_PLATE_LIMIT2_HIGH then
        if pre_neg_state j = NEGATIVE_PLATE_STATE_DISCONNECT \<or> pre_neg_state j = NEGATIVE_PLATE_STATE_CONNECT_HALF
        then j else reduce_or NEGATIVE_PLATE_STATE_CONNECT_HALF j
      else if cap < NEGATIVE_PLATE_LIMIT3_LOW then reduce_or NEGATIVE_PLATE_STATE_CONNECT_OK j
      else if cap < NEGATIVE_PLATE_LIMIT3_HIGH then
        if pre_neg_state j = NEGATIVE_PLATE_STATE_CONNECT_OK \<or> pre_neg_state j = NEGATIVE_PLATE_STATE_ERROR
        then j else reduce_or NEGATIVE_PLATE_STATE_CONNECT_OK j
      else if cap > NEGATIVE_PLATE_LIMIT3_HIGH
      then j\<lparr>error_reduce := NEGATIVE_PLATE_ERROR_REDUCE, neg_state := NEGATIVE_PLATE_STATE_ERROR\<rparr>
      else j)"

text \<open>The conversion of a float to \<open>uint32_t\<close>, defined only for values that fit.\<close>

definition f32_to_u32 :: "f32 \<Rightarrow> u32 option" where
  "f32_to_u32 x = (if - 1 < x \<and> x < 2 ^ 32 then Some (if x < 0 then 0 else word_of_int \<lfloor>x\<rfloor>) else None)"

definition lcr_report ::
    "rt_can_msg \<Rightarrow> u32 \<Rightarrow> lcr_judge \<Rightarrow> 'a can_board_scheme \<Rightarrow> (lcr_judge \<times> 'a can_board_scheme) option" where
  "lcr_report stack cap j b =
     (let b = b\<lparr>g_send_info := (g_send_info b)\<lparr>info_cap := cap\<rparr>\<rparr>
      in if pre_neg_state j \<noteq> neg_state j then
           map_option (\<lambda>(b, _). (j\<lparr>pre_neg_state := neg_state j\<rparr>, b))
             (monitor_board_inform_info_send stack
               (b\<lparr>g_send_info := (g_send_info b)\<lparr>info_neg_state := neg_state j\<rparr>\<rparr>))
         else Some (j, b))"

definition lcr_info_judge ::
    "rt_can_msg \<Rightarrow> f32 \<Rightarrow> Median_Filter_t \<times> lcr_judge \<times> 'a can_board_scheme \<Rightarrow>
     (Median_Filter_t \<times> lcr_judge \<times> 'a can_board_scheme) option" where
  "lcr_info_judge stack C = (\<lambda>(mf, j, b).
     let j = (if neg_state j = NEGATIVE_PLATE_STATE_ERROR \<and> of_nat (unat NEGATIVE_PLATE_LIMIT3_HIGH) < C
              then j\<lparr>error_reduce := NEGATIVE_PLATE_ERROR_REDUCE\<rparr> else j)
     in Option.bind (median_filter_handle mf (f32_mul C 1000)) (\<lambda>(x, mf).
          Option.bind (f32_to_u32 x) (\<lambda>cap.
            map_option (\<lambda>jb. (mf, jb)) (lcr_report stack cap (lcr_decide cap j) b))))"

text \<open>Readings one after the other, with the filtered capacities.\<close>

fun lcr_run ::
    "rt_can_msg \<Rightarrow> f32 list \<Rightarrow> Median_Filter_t \<times> lcr_judge \<times> 'a can_board_scheme \<Rightarrow>
     (u32 list \<times> Median_Filter_t \<times> lcr_judge \<times> 'a can_board_scheme) option" where
  "lcr_run stack [] s = Some ([], s)"
| "lcr_run stack (C # Cs) s =
     (case lcr_info_judge stack C s of
        None \<Rightarrow> None
      | Some s' \<Rightarrow> map_option (\<lambda>(caps, s''). (info_cap (g_send_info (snd (snd s'))) # caps, s''))
                    (lcr_run stack Cs s'))"

section \<open>One reading\<close>

definition lcr_settle :: "u32 \<Rightarrow> lcr_judge \<Rightarrow> lcr_judge" where
  "lcr_settle cap j = (lcr_decide cap j)\<lparr>pre_neg_state := neg_state (lcr_decide cap j)\<rparr>"

lemma lcr_report_cases:
  assumes "lcr_report stack cap j b = Some (j', b')"
  shows "j' = j\<lparr>pre_neg_state := neg_state j\<rparr>"
    "g_send_info b' = (g_send_info b)\<lparr>info_cap := cap, info_neg_state :=
       (if pre_neg_state j = neg_state j then info_neg_state (g_send_info b) else neg_state j)\<rparr>"
proof -
  have same: "g_send_info b2 = g_send_info b1" if "can_put m b1 = Some (b2, r)" for m b1 b2 r
    using can_put_same [OF that] by (cases b1; cases b2) (simp add: same_ota_def)
  show "j' = j\<lparr>pre_neg_state := neg_state j\<rparr>"
    using assms by (cases j) (auto simp: lcr_report_def Let_def split: if_splits)
  show "g_send_info b' = (g_send_info b)\<lparr>info_cap := cap, info_neg_state :=
       (if pre_neg_state j = neg_state j then info_neg_state (g_send_info b) else neg_state j)\<rparr>"
    using assms same
    by (fastforce simp: lcr_report_def Let_def monitor_board_inform_info_send_def
        monitor_board_inform_info_send_to_can_mq_def split: if_splits)
qed

lemma judge_cases:
  assumes "lcr_info_judge stack C (mf, j, b) = Some (mf', j', b')"
  obtains x cap where "median_filter_handle mf (f32_mul C 1000) = Some (x, mf')" "f32_to_u32 x = Some cap"
    "lcr_report stack cap (lcr_decide cap (if neg_state j = NEGATIVE_PLATE_STATE_ERROR \<and>
       of_nat (unat NEGATIVE_PLATE_LIMIT3_HIGH) < C then j\<lparr>error_reduce := NEGATIVE_PLATE_ERROR_REDUCE\<rparr> else j)) b
       = Some (j', b')"
  using assms unfolding lcr_info_judge_def Let_def by (auto simp: bind_eq_Some_conv)

lemma lcr_run_settles:
  assumes "lcr_run stack Cs (mf, j, b) = Some (caps, mf', j', b')" "\<forall>C \<in> set Cs. C \<le> 5000000"
  shows "j' = fold lcr_settle caps j"
  using assms
proof (induction Cs arbitrary: mf j b caps)
  case (Cons C Cs)
  obtain mf1 j1 b1 caps1 where 1: "lcr_info_judge stack C (mf, j, b) = Some (mf1, j1, b1)"
    "lcr_run stack Cs (mf1, j1, b1) = Some (caps1, mf', j', b')"
    "caps = info_cap (g_send_info b1) # caps1"
    using Cons.prems(1) by (auto split: option.splits)
  obtain x cap where 2: "lcr_report stack cap (lcr_decide cap (if neg_state j = NEGATIVE_PLATE_STATE_ERROR \<and>
       of_nat (unat NEGATIVE_PLATE_LIMIT3_HIGH) < C then j\<lparr>error_reduce := NEGATIVE_PLATE_ERROR_REDUCE\<rparr> else j)) b
       = Some (j1, b1)"
    by (rule judge_cases [OF 1(1)])
  have "\<not> of_nat (unat NEGATIVE_PLATE_LIMIT3_HIGH) < C" using Cons.prems(2) by (auto simp: lcr_limits)
  then have "j1 = lcr_settle cap j" "info_cap (g_send_info b1) = cap"
    using lcr_report_cases [OF 2] by (auto simp: lcr_settle_def)
  then show ?case using Cons.IH [OF 1(2)] Cons.prems(2) 1(3) by simp
qed simp

section \<open>Recovery from an error\<close>

text \<open>While the counter runs, only readings below 100000 count it down.\<close>

lemma decide_error:
  assumes "pre_neg_state j = NEGATIVE_PLATE_STATE_ERROR" "cap \<le> 5000000"
  obtains s where "s \<noteq> NEGATIVE_PLATE_STATE_ERROR" "lcr_decide cap j = (if cap < 100000 then reduce_or s j else j)"
proof (cases "cap < 100000")
  case True
  have "\<exists>s. s \<noteq> NEGATIVE_PLATE_STATE_ERROR \<and> lcr_decide cap j = reduce_or s j"
    unfolding lcr_decide_def lcr_limits using assms(1) True by (auto split: if_splits)
  then show thesis using that True by auto
next
  case False
  have "\<not> cap < k" if "k \<le> 100000" for k using False that by auto
  then show thesis using that [of NEGATIVE_PLATE_STATE_DISCONNECT] assms False
    by (simp add: lcr_decide_def lcr_limits)
qed

lemma settle_error:
  assumes "neg_state j = NEGATIVE_PLATE_STATE_ERROR" "pre_neg_state j = NEGATIVE_PLATE_STATE_ERROR"
    and "cap \<le> 5000000"
  shows "error_reduce j \<noteq> 0 \<Longrightarrow> lcr_settle cap j =
      (if cap < 100000 then j\<lparr>error_reduce := error_reduce j - 1\<rparr> else j)"
    "error_reduce j = 0 \<Longrightarrow> cap < 100000 \<Longrightarrow> neg_state (lcr_settle cap j) \<noteq> NEGATIVE_PLATE_STATE_ERROR"
    "error_reduce j = 0 \<Longrightarrow> \<not> cap < 100000 \<Longrightarrow> lcr_settle cap j = j"
proof -
  obtain s where s: "s \<noteq> NEGATIVE_PLATE_STATE_ERROR" "lcr_decide cap j = (if cap < 100000 then reduce_or s j else j)"
    using decide_error [OF assms(2,3)] by blast
  have same: "j\<lparr>pre_neg_state := NEGATIVE_PLATE_STATE_ERROR\<rparr> = j" using assms(2) by (cases j) simp
  show "error_reduce j \<noteq> 0 \<Longrightarrow> lcr_settle cap j =
      (if cap < 100000 then j\<lparr>error_reduce := error_reduce j - 1\<rparr> else j)"
    using assms(1) same s(2) by (cases j) (simp add: lcr_settle_def reduce_or_def)
  show "error_reduce j = 0 \<Longrightarrow> cap < 100000 \<Longrightarrow> neg_state (lcr_settle cap j) \<noteq> NEGATIVE_PLATE_STATE_ERROR"
    using s by (simp add: lcr_settle_def reduce_or_def)
  show "error_reduce j = 0 \<Longrightarrow> \<not> cap < 100000 \<Longrightarrow> lcr_settle cap j = j"
    using assms(1) same s(2) by (simp add: lcr_settle_def)
qed

lemma settle_stays_out:
  assumes "neg_state j \<noteq> NEGATIVE_PLATE_STATE_ERROR" "pre_neg_state j = neg_state j" "cap \<le> 5000000"
  shows "neg_state (lcr_settle cap j) \<noteq> NEGATIVE_PLATE_STATE_ERROR"
  using assms by (cases j) (auto simp: lcr_settle_def lcr_decide_def reduce_or_def lcr_limits)

lemma fold_stays_out:
  assumes "neg_state j \<noteq> NEGATIVE_PLATE_STATE_ERROR" "pre_neg_state j = neg_state j" "\<forall>cap \<in> set caps. cap \<le> 5000000"
  shows "neg_state (fold lcr_settle caps j) \<noteq> NEGATIVE_PLATE_STATE_ERROR"
  using assms
proof (induction caps arbitrary: j)
  case (Cons cap caps)
  have "pre_neg_state (lcr_settle cap j) = neg_state (lcr_settle cap j)" by (simp add: lcr_settle_def)
  then show ?case using Cons settle_stays_out [of j cap] by simp
qed simp

lemma fold_error:
  assumes "neg_state j = NEGATIVE_PLATE_STATE_ERROR" "pre_neg_state j = NEGATIVE_PLATE_STATE_ERROR"
    and "\<forall>cap \<in> set caps. cap \<le> 5000000"
  shows "neg_state (fold lcr_settle caps j) = NEGATIVE_PLATE_STATE_ERROR \<longleftrightarrow>
    length (filter (\<lambda>cap. cap < 100000) caps) \<le> unat (error_reduce j)"
  using assms
proof (induction caps arbitrary: j)
  case (Cons cap caps)
  note s = settle_error [OF Cons.prems(1,2), of cap]
  have le: "cap \<le> 5000000" using Cons.prems(3) by simp
  consider "error_reduce j \<noteq> 0" | "error_reduce j = 0" "cap < 100000" | "error_reduce j = 0" "\<not> cap < 100000" by blast
  then show ?case
  proof cases
    case 1
    have "unat (error_reduce j - 1) = unat (error_reduce j) - 1" "0 < unat (error_reduce j)"
      using 1 by (simp_all add: unat_minus_one unat_gt_0)
    then show ?thesis
      using Cons.IH [of "lcr_settle cap j"] Cons.prems s(1) [OF le 1] by auto
  next
    case 2
    have "pre_neg_state (lcr_settle cap j) = neg_state (lcr_settle cap j)" by (simp add: lcr_settle_def)
    then have "neg_state (fold lcr_settle caps (lcr_settle cap j)) \<noteq> NEGATIVE_PLATE_STATE_ERROR"
      using fold_stays_out [OF s(2) [OF le 2]] Cons.prems(3) by simp
    then show ?thesis using 2 by simp
  next
    case 3
    then show ?thesis using Cons.IH [OF Cons.prems(1,2)] Cons.prems(3) s(3) [OF le 3] by simp
  qed
qed simp

section \<open>The capacity that is reported\<close>

abbreviation filtered :: "nat \<Rightarrow> f32 list \<Rightarrow> f32 \<Rightarrow> f32" where
  "filtered n hs x \<equiv> (if Suc (length hs) < n then x else median_of (recent n (hs @ [x])))"

lemma scaled_range:
  assumes "0 \<le> C" "C \<le> 4294967"
  shows "0 \<le> f32_mul C 1000 \<and> f32_mul C 1000 < 2 ^ 32"
proof -
  have "f32_mul C 1000 \<le> f32_round (of_int 16777215 * 2 powi 8)"
    unfolding f32_mul_def by (rule f32_round_mono) (use assms in simp)
  moreover have "f32_round (of_int 16777215 * 2 powi 8) = of_int 16777215 * 2 powi 8"
    by (rule f32_round_exact) simp_all
  ultimately show ?thesis using assms(1) by (simp add: f32_mul_def f32_round_nonneg)
qed

lemma filtered_range:
  assumes "\<forall>y \<in> set (hs @ [x]). 0 \<le> y \<and> y < 2 ^ 32" "0 < n"
  shows "0 \<le> filtered n hs x \<and> filtered n hs x < 2 ^ 32"
proof (cases "Suc (length hs) < n")
  case False
  let ?r = "recent n (hs @ [x])"
  have r: "set ?r \<subseteq> set (hs @ [x])" unfolding recent_def by (rule set_drop_subset)
  have l: "length ?r = n" using False by (simp add: length_recent)
  define m where "m = Max (set ?r)"
  have ne: "set ?r \<noteq> {}" using l assms(2) by auto
  have m: "m < 2 ^ 32" using Max_in [OF _ ne] r assms(1) by (auto simp: m_def)
  have "filter (\<lambda>y. 0 \<le> y \<and> y \<le> m) ?r = ?r"
    using r assms(1) Max_ge [of "set ?r"] by (auto simp: filter_id_conv m_def)
  then have "0 \<le> median_of ?r \<and> median_of ?r \<le> m" using l assms(2) by (intro median_bounds) simp
  then show ?thesis using False m by simp
qed (use assms in simp)

lemma report_total:
  assumes "tx_ready b"
  shows "\<exists>j' b'. lcr_report stack cap j b = Some (j', b') \<and> tx_ready b'"
proof -
  let ?b = "b\<lparr>g_send_info := (g_send_info b)\<lparr>info_cap := cap, info_neg_state := neg_state j\<rparr>\<rparr>"
  have "tx_ready ?b" using assms by (simp add: tx_ready_def)
  then obtain b1 r where "can_put (inform_msg stack (g_send_info ?b)) ?b = Some (b1, r)" "tx_ready b1"
    using can_put_ready [of ?b "inform_msg stack (g_send_info ?b)"] by (auto simp: inform_msg_def msg8_def)
  then have "pre_neg_state j \<noteq> neg_state j \<Longrightarrow>
      lcr_report stack cap j b = Some (j\<lparr>pre_neg_state := neg_state j\<rparr>, b1)"
    by (simp add: lcr_report_def Let_def monitor_board_inform_info_send_def monitor_board_inform_info_send_to_can_mq_def)
  moreover have "tx_ready (b\<lparr>g_send_info := (g_send_info b)\<lparr>info_cap := cap\<rparr>\<rparr>)"
    using assms by (simp add: tx_ready_def)
  ultimately show ?thesis
    using \<open>tx_ready b1\<close> by (cases "pre_neg_state j = neg_state j") (auto simp: lcr_report_def Let_def)
qed

lemma judge_total:
  assumes "holds n hs mf" "tx_ready b" "\<forall>y \<in> set hs. 0 \<le> y \<and> y < 2 ^ 32" "0 \<le> C" "C \<le> 4294967"
  shows "\<exists>mf' j' b'. lcr_info_judge stack C (mf, j, b) = Some (mf', j', b') \<and>
    holds n (hs @ [f32_mul C 1000]) mf' \<and> tx_ready b' \<and>
    info_cap (g_send_info b') = word_of_int \<lfloor>filtered n hs (f32_mul C 1000)\<rfloor>"
proof -
  let ?x = "f32_mul C 1000" and ?y = "filtered n hs (f32_mul C 1000)"
  obtain mf' where 1: "median_filter_handle mf ?x = Some (?y, mf')" "holds n (hs @ [?x]) mf'"
    using holds_step [OF assms(1)] by blast
  have "0 < n" using assms(1) by (simp add: holds_def)
  then have r: "0 \<le> ?y \<and> ?y < 2 ^ 32" using assms(3) scaled_range [OF assms(4,5)] by (intro filtered_range) auto
  then have u: "f32_to_u32 ?y = Some (word_of_int \<lfloor>?y\<rfloor>)" unfolding f32_to_u32_def by (simp only: if_True) auto
  define k where "k = (if neg_state j = NEGATIVE_PLATE_STATE_ERROR \<and> of_nat (unat NEGATIVE_PLATE_LIMIT3_HIGH) < C
    then j\<lparr>error_reduce := NEGATIVE_PLATE_ERROR_REDUCE\<rparr> else j)"
  obtain j' b' where 2: "lcr_report stack (word_of_int \<lfloor>?y\<rfloor>) (lcr_decide (word_of_int \<lfloor>?y\<rfloor>) k) b = Some (j', b')"
    "tx_ready b'" using report_total [OF assms(2)] by blast
  have "lcr_info_judge stack C (mf, j, b) = Some (mf', j', b')"
    unfolding lcr_info_judge_def split Let_def k_def [symmetric] 1(1) bind.bind_lunit u 2(1) by simp
  then show ?thesis using 1(2) 2(2) lcr_report_cases(2) [OF 2(1)] by auto
qed

lemma run_total:
  assumes "holds n hs mf" "tx_ready b" "\<forall>y \<in> set hs. 0 \<le> y \<and> y < 2 ^ 32"
    and "\<forall>C \<in> set Cs. 0 \<le> C \<and> C \<le> 4294967"
  shows "\<exists>caps mf' j' b'. lcr_run stack Cs (mf, j, b) = Some (caps, mf', j', b') \<and> tx_ready b' \<and>
    caps = map (\<lambda>k. word_of_int \<lfloor>filtered n (hs @ map (\<lambda>C. f32_mul C 1000) (take k Cs)) (f32_mul (Cs ! k) 1000)\<rfloor>)
      [0..<length Cs]"
  using assms
proof (induction Cs arbitrary: hs mf j b)
  case (Cons C Cs)
  obtain mf1 j1 b1 where 1: "lcr_info_judge stack C (mf, j, b) = Some (mf1, j1, b1)"
    "holds n (hs @ [f32_mul C 1000]) mf1" "tx_ready b1"
    "info_cap (g_send_info b1) = word_of_int \<lfloor>filtered n hs (f32_mul C 1000)\<rfloor>"
    using judge_total [OF Cons.prems(1-3), of C stack j] Cons.prems(4) by auto
  have "\<forall>y \<in> set (hs @ [f32_mul C 1000]). 0 \<le> y \<and> y < 2 ^ 32"
    using Cons.prems(3,4) scaled_range [of C] by auto
  from Cons.IH [OF 1(2,3) this, of j1] Cons.prems(4)
  obtain caps mf' j' b' where 2: "lcr_run stack Cs (mf1, j1, b1) = Some (caps, mf', j', b')" "tx_ready b'"
    "caps = map (\<lambda>k. word_of_int \<lfloor>filtered n ((hs @ [f32_mul C 1000]) @ map (\<lambda>C. f32_mul C 1000) (take k Cs)) (f32_mul (Cs ! k) 1000)\<rfloor>)
      [0..<length Cs]"
    by auto
  show ?case
    using 1(1,4) 2 by (auto simp del: upt_Suc simp: upt_conv_Cons map_Suc_upt [symmetric])
qed simp

section \<open>Properties\<close>

abbreviation demo_filter :: Median_Filter_t where
  "demo_filter \<equiv> fst (median_filter_init \<lparr>median_window_full = 1, median_index = 9, median_filter_window_size = 0,
     median_window = None, sorted_window = None\<rparr> 11 (Some (replicate 11 7)) (Some (replicate 11 8)))"

lemma demo_queue:
  obtains mq where "can_tx_mq demo_can_board = Some mq" "mq_holds mq []" "msg_size mq = 16" "0 < mq_capacity mq"
proof -
  obtain mq where mq: "rt_mq_create 16 50 RT_IPC_FLAG_PRIO 1 2 (Some (\<lambda>_. replicate 16 0)) = Some mq"
    using create_some by blast
  have l: "length (replicate 16 (0 :: u8)) = unat (ucast (RT_ALIGN 16) :: u16)" by code_simp
  have m: "(ucast (RT_ALIGN 16) :: u16) = 16" by code_simp
  note c = create_holds [OF mq l]
  show thesis
    by (rule that [of mq]) (use c(1-3) m mq in \<open>simp_all add: demo_can_board_def demo_board_def board.defs ota_handle_resoure_init_def\<close>)
qed

lemma demo_reading:
  assumes "C = of_int n" "0 \<le> n" "n \<le> 16000"
  shows "\<exists>mf' j' b'. lcr_info_judge demo_stack C (demo_filter, j, demo_can_board) = Some (mf', j', b') \<and>
    info_cap (g_send_info b') = word_of_int (1000 * n) \<and> j' = lcr_settle (word_of_int (1000 * n)) j"
proof -
  have n: "unat (11 :: u32) = 11" by simp
  obtain mf2 where "median_filter_init \<lparr>median_window_full = 1, median_index = 9, median_filter_window_size = 0,
     median_window = None, sorted_window = None\<rparr> 11 (Some (replicate 11 7)) (Some (replicate 11 8))
       = (mf2, MEDIAN_FILTER_ERROR_OK)" "holds 11 [] mf2"
    by (rule init_holds [of 11 "replicate 11 7" "replicate 11 8"]) (simp_all add: n)
  then have h: "holds 11 [] demo_filter" by simp
  have C: "0 \<le> C" "C \<le> 4294967" "C \<le> 5000000" using assms by (auto simp: order_trans [of _ "of_int 16000"])
  have x: "f32_mul C 1000 = of_int (1000 * n)"
    using f32_round_int [of "1000 * n"] assms by (simp add: f32_mul_def mult.commute)
  obtain mf' j' b' where 1: "lcr_info_judge demo_stack C (demo_filter, j, demo_can_board) = Some (mf', j', b')"
    "info_cap (g_send_info b') = word_of_int (1000 * n)"
    using judge_total [OF h demo_can_board(4) _ C(1,2), of demo_stack j] unfolding x by (auto simp del: of_int_mult)
  then have "lcr_run demo_stack [C] (demo_filter, j, demo_can_board) = Some ([word_of_int (1000 * n)], mf', j', b')"
    by simp
  then have "j' = lcr_settle (word_of_int (1000 * n)) j" using lcr_run_settles C(3) by fastforce
  then show ?thesis using 1 by blast
qed

text \<open>
  C33: the capacity in the messages: after the initialisation of the filter with 11 values, for
  measured capacities from 0 to 4294967 and with the message queue created, no reading fails,
  and the capacity of each is the reading times 1000 for the first ten and the median of the
  last eleven from then on, cut to an integer.
\<close>

theorem lcr_capacity_is_median:
  assumes "median_filter_init mf 11 (Some w) (Some s) = (mf1, err)" "length w = 11" "length s = 11"
    and "tx_ready b" "\<forall>C \<in> set Cs. 0 \<le> C \<and> C \<le> 4294967"
  shows "\<exists>mf' j' b'. lcr_run stack Cs (mf1, lcr_judge_init, b) =
     Some (map (\<lambda>k. word_of_int \<lfloor>if k < 10 then f32_mul (Cs ! k) 1000
                    else median_of (recent 11 (map (\<lambda>C. f32_mul C 1000) (take (Suc k) Cs)))\<rfloor>) [0..<length Cs],
           mf', j', b')"
proof -
  have n: "unat (11 :: u32) = 11" by simp
  obtain mf2 where "median_filter_init mf 11 (Some w) (Some s) = (mf2, MEDIAN_FILTER_ERROR_OK)" "holds 11 [] mf2"
    by (rule init_holds [of 11 w s mf]) (use assms(2,3) in \<open>simp_all add: n\<close>)
  then have h: "holds 11 [] mf1" using assms(1) by simp
  have eq: "filtered 11 ([] @ map (\<lambda>C. f32_mul C 1000) (take k Cs)) (f32_mul (Cs ! k) 1000) =
      (if k < 10 then f32_mul (Cs ! k) 1000 else median_of (recent 11 (map (\<lambda>C. f32_mul C 1000) (take (Suc k) Cs))))"
    if "k < length Cs" for k using that by (simp add: take_Suc_conv_app_nth)
  have "map (\<lambda>k. word_of_int \<lfloor>filtered 11 ([] @ map (\<lambda>C. f32_mul C 1000) (take k Cs)) (f32_mul (Cs ! k) 1000)\<rfloor> :: u32) [0..<length Cs] =
    map (\<lambda>k. word_of_int \<lfloor>if k < 10 then f32_mul (Cs ! k) 1000
                    else median_of (recent 11 (map (\<lambda>C. f32_mul C 1000) (take (Suc k) Cs)))\<rfloor>) [0..<length Cs]"
    using eq by (intro map_cong) auto
  then show ?thesis
    using run_total [OF h assms(4) _ assms(5), of stack lcr_judge_init] by fastforce
qed

theorem lcr_capacity_is_median_witness:
  "\<exists>mf' j' b'. lcr_run demo_stack [60, 121 / 2, 3] (demo_filter, lcr_judge_init, demo_can_board) =
     Some ([60000, 60500, 3000], mf', j', b')"
proof -
  have r: "f32_mul 60 1000 = 60000" "f32_mul (121 / 2) 1000 = 60500" "f32_mul 3 1000 = 3000"
    using f32_round_int [of 60000] f32_round_int [of 60500] f32_round_int [of 3000]
    by (simp_all add: f32_mul_def)
  obtain mf1 err where i: "median_filter_init \<lparr>median_window_full = 1, median_index = 9, median_filter_window_size = 0,
     median_window = None, sorted_window = None\<rparr> 11 (Some (replicate 11 7)) (Some (replicate 11 8)) = (mf1, err)"
    by (rule prod.exhaust)
  have "\<forall>C \<in> set [60, 121 / 2, 3]. 0 \<le> C \<and> C \<le> (4294967 :: f32)" by simp
  from lcr_capacity_is_median [OF i _ _ demo_can_board(4) this, of demo_stack]
  obtain mf' j' b' where run: "lcr_run demo_stack [60, 121 / 2, 3] (mf1, lcr_judge_init, demo_can_board) =
     Some (map (\<lambda>k. word_of_int \<lfloor>if k < 10 then f32_mul ([60, 121 / 2, 3] ! k) 1000
                    else median_of (recent 11 (map (\<lambda>C. f32_mul C 1000) (take (Suc k) [60, 121 / 2, 3])))\<rfloor>)
       [0..<length [60, 121 / 2, 3 :: f32]], mf', j', b')" by auto
  have "[0..<length [60, 121 / 2, 3 :: f32]] = [0, 1, 2]" by (simp add: upt_rec)
  note run [unfolded this list.map]
  then show ?thesis by (simp add: i r)
qed

text \<open>
  C34: each change of the state is offered to the queue for the bus exactly once, at the reading
  that makes it. After each reading the state of the judgement, its previous state and the state
  in the next messages agree; a message with the new state and capacity is at the end of the
  queue exactly if the state has changed and the queue has room. With a full queue the change
  still counts as reported: the queue stays as it is, and no later reading makes up for it.
\<close>

theorem lcr_reports_every_change:
  assumes "lcr_info_judge stack C (mf, j, b) = Some (mf', j', b')"
    and "pre_neg_state j = neg_state j" "info_neg_state (g_send_info b) = neg_state j"
    and "can_tx_mq b = Some mq" "mq_holds mq ms" "msg_size mq = 16"
  shows "pre_neg_state j' = neg_state j' \<and> info_neg_state (g_send_info b') = neg_state j' \<and>
     (\<exists>mq'. can_tx_mq b' = Some mq' \<and>
        mq_holds mq' (ms @ (if neg_state j' \<noteq> neg_state j \<and> length ms < mq_capacity mq
                            then [can_msg_bytes (inform_msg stack (g_send_info b'))] else [])))"
proof -
  define k where "k = (if neg_state j = NEGATIVE_PLATE_STATE_ERROR \<and> of_nat (unat NEGATIVE_PLATE_LIMIT3_HIGH) < C
    then j\<lparr>error_reduce := NEGATIVE_PLATE_ERROR_REDUCE\<rparr> else j)"
  obtain x cap where r: "lcr_report stack cap (lcr_decide cap k) b = Some (j', b')"
    using judge_cases [OF assms(1)] unfolding k_def by blast
  have pre: "pre_neg_state (lcr_decide cap k) = neg_state j"
    using assms(2) by (simp add: lcr_decide_def reduce_or_def k_def)
  note c = lcr_report_cases [OF r]
  show ?thesis
  proof (cases "neg_state (lcr_decide cap k) = neg_state j")
    case True
    then have "can_tx_mq b' = Some mq" using r assms(4) pre by (auto simp: lcr_report_def Let_def)
    then show ?thesis using c True assms(3,5) pre by auto
  next
    case False
    let ?b = "b\<lparr>g_send_info := (g_send_info b)\<lparr>info_cap := cap, info_neg_state := neg_state (lcr_decide cap k)\<rparr>\<rparr>"
    let ?m = "inform_msg stack (g_send_info ?b)"
    obtain e where p: "can_put ?m ?b = Some (b', e)"
      using r False pre by (auto simp: lcr_report_def Let_def monitor_board_inform_info_send_def
          monitor_board_inform_info_send_to_can_mq_def)
    have q: "can_tx_mq ?b = Some mq" "length (can_data ?m) = 8"
      using assms(4) by (simp_all add: inform_msg_def msg8_def)
    have "\<exists>mq'. can_tx_mq b' = Some mq' \<and>
      mq_holds mq' (ms @ (if length ms < mq_capacity mq then [can_msg_bytes ?m] else []))"
    proof (cases "length ms < mq_capacity mq")
      case True
      then show ?thesis using put_queues [OF q(1) assms(5,6) True q(2)] p by auto
    next
      case full: False
      then have "length ms = mq_capacity mq" using holds_bound [OF assms(5)] by simp
      then show ?thesis using put_refused [OF q(1) assms(5,6) _ q(2)] p q(1) assms(5) full by auto
    qed
    moreover have "g_send_info b' = g_send_info ?b" using c(2) False pre by simp
    ultimately show ?thesis using c False pre by auto
  qed
qed

theorem lcr_reports_every_change_witness:
  "\<exists>mf' j' b' mq'. lcr_info_judge demo_stack 30 (demo_filter, lcr_judge_init, demo_can_board) = Some (mf', j', b') \<and>
     neg_state j' = NEGATIVE_PLATE_STATE_CONNECT_HALF \<and>
     info_neg_state (g_send_info b') = NEGATIVE_PLATE_STATE_CONNECT_HALF \<and>
     can_tx_mq b' = Some mq' \<and> mq_holds mq' [can_msg_bytes (inform_msg demo_stack (g_send_info b'))]"
proof -
  obtain mf' j' b' where r: "lcr_info_judge demo_stack 30 (demo_filter, lcr_judge_init, demo_can_board) = Some (mf', j', b')"
    "j' = lcr_settle 30000 lcr_judge_init"
    using demo_reading [of 30 30 lcr_judge_init] by auto
  obtain mq where mq: "can_tx_mq demo_can_board = Some mq" "mq_holds mq []" "msg_size mq = 16" "0 < mq_capacity mq"
    by (rule demo_queue)
  have "pre_neg_state lcr_judge_init = neg_state lcr_judge_init"
    "info_neg_state (g_send_info demo_can_board) = neg_state lcr_judge_init"
    by (simp_all add: lcr_judge_init_def demo_can_board_def board.defs)
  note c = lcr_reports_every_change [OF r(1) this mq(1-3)]
  have n: "neg_state j' = NEGATIVE_PLATE_STATE_CONNECT_HALF" unfolding r(2) by code_simp
  then have "neg_state j' \<noteq> neg_state lcr_judge_init" by (simp add: lcr_judge_init_def)
  then show ?thesis using r(1) c n mq(4) by auto
qed

text \<open>
  Recovery from an error: once in the error state with the counter at ten, and while
  neither the readings nor the capacities exceed 5000000, the board stays in the error state
  exactly as long as at most ten capacities below 100000 have come, however they are
  interleaved with larger ones; the eleventh ends it.
\<close>

theorem lcr_error_recovery:
  assumes "neg_state j = NEGATIVE_PLATE_STATE_ERROR" "pre_neg_state j = NEGATIVE_PLATE_STATE_ERROR"
    and "error_reduce j = NEGATIVE_PLATE_ERROR_REDUCE" "\<forall>C \<in> set Cs. C \<le> 5000000"
    and "lcr_run stack Cs (mf, j, b) = Some (caps, mf', j', b')" "\<forall>cap \<in> set caps. cap \<le> 5000000"
  shows "neg_state j' = NEGATIVE_PLATE_STATE_ERROR \<longleftrightarrow> length (filter (\<lambda>cap. cap < 100000) caps) \<le> 10"
  unfolding lcr_run_settles [OF assms(5,4)] fold_error [OF assms(1,2,6)] assms(3)
  by (simp add: NEGATIVE_PLATE_ERROR_REDUCE_def)

theorem lcr_error_recovery_witness:
  "\<exists>caps mf' j' b'. lcr_run demo_stack [60] (demo_filter,
       \<lparr>neg_state = NEGATIVE_PLATE_STATE_ERROR, pre_neg_state = NEGATIVE_PLATE_STATE_ERROR, error_reduce = 10\<rparr>,
       demo_can_board) = Some (caps, mf', j', b') \<and> neg_state j' = NEGATIVE_PLATE_STATE_ERROR"
proof -
  let ?j = "\<lparr>neg_state = NEGATIVE_PLATE_STATE_ERROR, pre_neg_state = NEGATIVE_PLATE_STATE_ERROR, error_reduce = 10\<rparr>"
  obtain mf' j' b' where "lcr_info_judge demo_stack 60 (demo_filter, ?j, demo_can_board) = Some (mf', j', b')"
    "info_cap (g_send_info b') = 60000"
    using demo_reading [of 60 60 ?j] by auto
  then have r: "lcr_run demo_stack [60] (demo_filter, ?j, demo_can_board) = Some ([60000], mf', j', b')" by simp
  from lcr_error_recovery [OF _ _ _ _ r] show ?thesis using r by (simp add: NEGATIVE_PLATE_ERROR_REDUCE_def)
qed

text \<open>
  The dead band from 50000 to 70000 tests the wrong states. Without a pending error a
  disconnected plate becomes half connected from 20000 to 50000 but stays disconnected from
  50000 to 70000, and between half and full connection there is no hysteresis: either way
  70000 decides.
\<close>

theorem lcr_dead_band_misplaced:
  assumes "error_reduce j = 0" "pre_neg_state j = neg_state j"
    and "20000 \<le> low" "low < 50000" "50000 \<le> high" "high < 70000" "70000 \<le> full" "full < 100000"
  shows "(neg_state j = NEGATIVE_PLATE_STATE_DISCONNECT \<longrightarrow>
       neg_state (lcr_decide low j) = NEGATIVE_PLATE_STATE_CONNECT_HALF \<and>
       neg_state (lcr_decide high j) = NEGATIVE_PLATE_STATE_DISCONNECT) \<and>
     (neg_state j \<in> {NEGATIVE_PLATE_STATE_CONNECT_OK, NEGATIVE_PLATE_STATE_CONNECT_HALF} \<longrightarrow>
       neg_state (lcr_decide high j) = NEGATIVE_PLATE_STATE_CONNECT_HALF \<and>
       neg_state (lcr_decide full j) = NEGATIVE_PLATE_STATE_CONNECT_OK)"
proof -
  have k: "\<not> low < 15000" "\<not> low < 20000" "low < 50000" "\<not> high < 15000" "\<not> high < 20000"
    "\<not> high < 50000" "high < 70000" "\<not> full < 15000" "\<not> full < 20000" "\<not> full < 50000"
    "\<not> full < 70000" "full < 100000"
    using assms(3-8) by (auto simp: not_less elim: order_trans [rotated])
  show ?thesis
    using assms(1,2) k by (auto simp: lcr_decide_def lcr_limits reduce_or_def)
qed

theorem lcr_dead_band_misplaced_witness:
  "neg_state (lcr_decide 30000 lcr_judge_init) = NEGATIVE_PLATE_STATE_CONNECT_HALF \<and>
   neg_state (lcr_decide 60000 lcr_judge_init) = NEGATIVE_PLATE_STATE_DISCONNECT"
  using lcr_dead_band_misplaced [of lcr_judge_init 30000 60000 80000] by (simp add: lcr_judge_init_def)

end
