(* ===== verification/TimerCheck.thy ===== *)
theory TimerCheck
  imports Thread
begin

text \<open>
  The tick interrupt always comes to an end: \<open>rt_timer_check\<close> of \<open>timer.c\<close> runs the timers that are
  due one after the other (\<open>rounds\<close>), none twice, and the assertion of \<open>_thread_timeout\<close> in \<open>thread.c\<close> holds. \<open>timers_wf\<close> is the invariant
  behind it: a thread whose timer runs is suspended. The steps of \<open>timed_step\<close> are those of
  \<open>kernel_step\<close>, with what a caller of the timer functions has to respect.
\<close>

section \<open>Flags\<close>

lemma has_flag_bit:
  "has_flag RT_TIMER_FLAG_ACTIVATED s i \<longleftrightarrow> bit (flag (timers s i)) 0"
  "has_flag RT_TIMER_FLAG_PERIODIC s i \<longleftrightarrow> bit (flag (timers s i)) 1"
  "has_flag RT_TIMER_FLAG_SOFT_TIMER s i \<longleftrightarrow> bit (flag (timers s i)) 2"
  using and_power_bit [of 0 "flag (timers s i)"] and_power_bit [of 1 "flag (timers s i)"] and_power_bit [of 2 "flag (timers s i)"]
  by (simp_all add: has_flag_def RT_TIMER_FLAG_ACTIVATED_def RT_TIMER_FLAG_PERIODIC_def RT_TIMER_FLAG_SOFT_TIMER_def)

lemma bit_flags:
  "bit RT_TIMER_FLAG_ACTIVATED n \<longleftrightarrow> n = 0" "bit RT_TIMER_FLAG_PERIODIC n \<longleftrightarrow> n = 1"
proof -
  have two: "(2 :: u8) = push_bit 1 1" by simp
  show "bit RT_TIMER_FLAG_ACTIVATED n \<longleftrightarrow> n = 0" by (simp add: RT_TIMER_FLAG_ACTIVATED_def bit_1_iff)
  show "bit RT_TIMER_FLAG_PERIODIC n \<longleftrightarrow> n = 1" unfolding RT_TIMER_FLAG_PERIODIC_def two bit_push_bit_iff by (auto simp: bit_1_iff)
qed

definition periodic :: "kernel \<Rightarrow> timer_id \<Rightarrow> bool" where
  "periodic s i \<longleftrightarrow> has_flag RT_TIMER_FLAG_PERIODIC s i"

definition soft :: "kernel \<Rightarrow> timer_id \<Rightarrow> bool" where
  "soft s i \<longleftrightarrow> has_flag RT_TIMER_FLAG_SOFT_TIMER s i"

definition activated :: "kernel \<Rightarrow> timer_id \<Rightarrow> bool" where
  "activated s i \<longleftrightarrow> has_flag RT_TIMER_FLAG_ACTIVATED s i"

lemmas flag_bits = periodic_def soft_def activated_def has_flag_bit

lemma flag_ops [simp]:
  "periodic (clear_flag RT_TIMER_FLAG_ACTIVATED i s) j = periodic s j"
  "periodic (set_flag RT_TIMER_FLAG_ACTIVATED i s) j = periodic s j"
  "soft (clear_flag RT_TIMER_FLAG_ACTIVATED i s) j = soft s j"
  "soft (set_flag RT_TIMER_FLAG_ACTIVATED i s) j = soft s j"
  "activated (clear_flag RT_TIMER_FLAG_ACTIVATED i s) j \<longleftrightarrow> j \<noteq> i \<and> activated s j"
  "activated (set_flag RT_TIMER_FLAG_ACTIVATED i s) j \<longleftrightarrow> j = i \<or> activated s j"
  "periodic (clear_flag RT_TIMER_FLAG_PERIODIC i s) j \<longleftrightarrow> j \<noteq> i \<and> periodic s j"
  "periodic (set_flag RT_TIMER_FLAG_PERIODIC i s) j \<longleftrightarrow> j = i \<or> periodic s j"
  "soft (clear_flag RT_TIMER_FLAG_PERIODIC i s) j = soft s j"
  "soft (set_flag RT_TIMER_FLAG_PERIODIC i s) j = soft s j"
  "activated (clear_flag RT_TIMER_FLAG_PERIODIC i s) j = activated s j"
  "activated (set_flag RT_TIMER_FLAG_PERIODIC i s) j = activated s j"
  by (auto simp: flag_bits clear_flag_def set_flag_def bit_and_iff bit_or_iff bit_not_iff bit_flags)

text \<open>The fields a timer operation leaves alone.\<close>

lemma flag_frame [simp]:
  "timer_list (clear_flag f i s) = timer_list s" "timer_list (set_flag f i s) = timer_list s"
  "rt_tick (clear_flag f i s) = rt_tick s" "rt_tick (set_flag f i s) = rt_tick s"
  "init_tick (timers (clear_flag f i s) j) = init_tick (timers s j)"
  "init_tick (timers (set_flag f i s) j) = init_tick (timers s j)"
  "timeout_tick (timers (clear_flag f i s) j) = timeout_tick (timers s j)"
  "timeout_tick (timers (set_flag f i s) j) = timeout_tick (timers s j)"
  "status_of (clear_flag f i s) u = status_of s u" "status_of (set_flag f i s) u = status_of s u"
  by (auto simp: clear_flag_def set_flag_def)

lemma flags_cong:
  assumes "timers s' = timers s"
  shows "periodic s' = periodic s" "soft s' = soft s" "activated s' = activated s"
  using assms by (auto simp: flag_bits fun_eq_iff)

lemma remove_frame [simp]:
  "timer_list (timer_remove i s) = removeAll i (timer_list s)" "timers (timer_remove i s) = timers s"
  "rt_tick (timer_remove i s) = rt_tick s" "status_of (timer_remove i s) u = status_of s u"
  "periodic (timer_remove i s) j = periodic s j" "soft (timer_remove i s) j = soft s j"
  "activated (timer_remove i s) j = activated s j"
  by (auto simp: timer_remove_def status_of_def flag_bits)

lemma expired_frame [simp]:
  "status_of (s\<lparr>expired_list := l\<rparr>) u = status_of s u" "periodic (s\<lparr>expired_list := l\<rparr>) j = periodic s j"
  "soft (s\<lparr>expired_list := l\<rparr>) j = soft s j" "activated (s\<lparr>expired_list := l\<rparr>) j = activated s j"
  by (auto simp: status_of_def flag_bits)

lemma length_removeAll_le: "length (removeAll x l) \<le> length l"
  by (simp add: removeAll_filter_not_eq)

section \<open>The invariant of the timers\<close>

definition timers_wf :: "kernel \<Rightarrow> bool" where
  "timers_wf s \<longleftrightarrow>
     (\<forall>i \<in> set (timer_list s). activated s i) \<and> (\<forall>i. \<not> soft s i) \<and>
     (\<forall>i. periodic s i \<longrightarrow> 0 < init_tick (timers s i) \<and> init_tick (timers s i) < RT_TICK_HALF) \<and>
     (\<forall>t. \<not> periodic s (thread_timer t)) \<and>
     (\<forall>t. thread_timer t \<in> set (timer_list s) \<longrightarrow> status_of s t = RT_THREAD_SUSPEND)"

definition due :: "kernel \<Rightarrow> timer_id \<Rightarrow> bool" where
  "due s i \<longleftrightarrow> rt_tick s - timeout_tick (timers s i) < RT_TICK_HALF"

definition due_timers :: "kernel \<Rightarrow> timer_id set" where
  "due_timers s = {i \<in> set (timer_list s). due s i}"

lemma timers_wf_status:
  assumes "timers_wf s" "timers s' = timers s" "set (timer_list s') \<subseteq> set (timer_list s)"
    and "\<And>t. thread_timer t \<in> set (timer_list s') \<Longrightarrow> status_of s t = RT_THREAD_SUSPEND \<Longrightarrow> status_of s' t = RT_THREAD_SUSPEND"
  shows "timers_wf s'"
  using assms flags_cong [OF assms(2)] by (auto simp: timers_wf_def)

lemma schedule_suspended:
  assumes inv: "sched_inv s" and t: "status_of s t = RT_THREAD_SUSPEND"
  shows "status_of (rt_schedule s) t = RT_THREAD_SUSPEND"
proof (cases s rule: schedule_cases)
  case (keep s')
  then have "t \<noteq> rt_current_thread s" using t by (auto simp: keeps_cpu_def)
  then show ?thesis using t unfolding keep(4,5) by simp
next
  case (switch s' u p)
  have "is_ready s u" using highest_thread(4) [OF sched_invD(1) [OF inv] switch(2,4)] .
  then have "u \<noteq> t" using sched_invD(3) [OF inv, of u] t by auto
  moreover have "status_of s' t = RT_THREAD_SUSPEND" using t unfolding switch(6) by auto
  ultimately show ?thesis unfolding switch(7) by simp
next
  case odd
  have "is_ready s (rt_current_thread s)"
    using highest_thread(4) [OF sched_invD(1) [OF inv] odd(1), of "rt_current_thread s" "snd (highest_priority_thread s)"] odd(3)
    by (simp add: prod_eq_iff)
  then show ?thesis using sched_invD(3,5) [OF inv] by blast
qed (use t in auto)

lemma timers_wf_schedule: "sched_inv s \<Longrightarrow> timers_wf s \<Longrightarrow> timers_wf (rt_schedule s)"
proof -
  assume "sched_inv s" "timers_wf s"
  then show ?thesis by (intro timers_wf_status [of s "rt_schedule s"] schedule_suspended) auto
qed

lemma set_timer_insert [simp]: "set (timer_insert tk d i l) = insert i (set l)"
  by (induction l) auto

lemma enlist_frame:
  assumes "\<not> soft s i"
  shows "set (timer_list (timer_enlist i s)) = insert i (set (timer_list s))"
    and "periodic (timer_enlist i s) j = periodic s j" "soft (timer_enlist i s) j = soft s j"
    and "activated (timer_enlist i s) j \<longleftrightarrow> j = i \<or> activated s j"
    and "init_tick (timers (timer_enlist i s) j) = init_tick (timers s j)"
    and "timeout_tick (timers (timer_enlist i s) j) = (if j = i then rt_tick s + init_tick (timers s i) else timeout_tick (timers s j))"
    and "rt_tick (timer_enlist i s) = rt_tick s" "status_of (timer_enlist i s) u = status_of s u"
  using assms
  by (auto simp: timer_enlist_def Let_def flag_bits clear_flag_def set_flag_def timer_remove_def status_of_def
      bit_and_iff bit_or_iff bit_not_iff bit_flags)

lemma length_enlist: "length (timer_list (timer_enlist i s)) \<le> Suc (length (timer_list s))"
proof -
  have "length (timer_insert tk d i l) = Suc (length l)" for tk d l by (induction l) auto
  then show ?thesis by (simp add: timer_enlist_def Let_def length_removeAll_le le_SucI)
qed

lemma start_hard: "\<not> soft s i \<Longrightarrow> rt_timer_start i s = timer_enlist i s"
  using enlist_frame(3) [of s i i] by (simp add: rt_timer_start_def Let_def soft_def)

lemma timers_wf_start:
  assumes "timers_wf s" "\<And>t. i = thread_timer t \<Longrightarrow> status_of s t = RT_THREAD_SUSPEND"
  shows "timers_wf (rt_timer_start i s)"
proof -
  have h: "\<not> soft s i" using assms(1) by (simp add: timers_wf_def)
  show ?thesis using assms unfolding start_hard [OF h] timers_wf_def enlist_frame [OF h] by auto
qed

lemma timers_wf_remove:
  "timers_wf s \<Longrightarrow> timers_wf (timer_remove i s)"
  "timers_wf s \<Longrightarrow> timers_wf (clear_flag RT_TIMER_FLAG_ACTIVATED i (timer_remove i s))"
  by (auto simp: timers_wf_def)

lemma timers_wf_stop:
  assumes "timers_wf s"
  shows "timers_wf (fst (rt_timer_stop i s))" "i \<notin> set (timer_list (fst (rt_timer_stop i s)))"
  using assms timers_wf_remove(2) [OF assms, of i]
  by (auto simp: rt_timer_stop_def timers_wf_def activated_def)

lemma stop_frame:
  "set (timer_list (fst (rt_timer_stop i s))) \<subseteq> set (timer_list s)" "status_of (fst (rt_timer_stop i s)) u = status_of s u"
  by (auto simp: rt_timer_stop_def)

lemma timers_wf_insert:
  assumes "timers_wf s" "thread_timer t \<notin> set (timer_list s)"
  shows "timers_wf (rt_schedule_insert_thread t s)"
  by (rule timers_wf_status [OF assms(1)]) (use assms(2) in auto)

lemma timers_wf_resume:
  assumes wf: "timers_wf s"
  shows "timers_wf (fst (rt_thread_resume t s))"
proof (cases "status_of s t = RT_THREAD_SUSPEND")
  case True
  have r: "timers_wf (rt_list_remove t s)" by (rule timers_wf_status [OF wf]) auto
  show ?thesis
    using True timers_wf_insert [OF timers_wf_stop [OF r, of "thread_timer t"]]
    by (simp add: rt_thread_resume_def Let_def)
qed (use wf in \<open>simp add: rt_thread_resume_def\<close>)

lemma timers_wf_suspend:
  assumes wf: "timers_wf s"
  shows "timers_wf (fst (rt_thread_suspend t s))"
proof (cases "status_of s t \<noteq> RT_THREAD_READY \<and> status_of s t \<noteq> RT_THREAD_RUNNING")
  case False
  let ?r = "upd_thread t (set_status RT_THREAD_SUSPEND) (rt_schedule_remove_thread t s)"
  have "timers_wf ?r" by (rule timers_wf_status [OF wf]) auto
  then show ?thesis using False timers_wf_stop(1) [of ?r] unfolding rt_thread_suspend_def Let_def by auto
qed (use wf in \<open>simp add: rt_thread_suspend_def\<close>)

lemma timers_wf_timeout:
  assumes inv: "sched_inv s" and wf: "timers_wf s" and out: "thread_timer t \<notin> set (timer_list s)"
    and t: "status_of s t = RT_THREAD_SUSPEND"
  obtains s' where "thread_timeout t s = Some s'" "timers_wf s'" "timer_list s' = timer_list s"
    "timers s' = timers s" "rt_tick s' = rt_tick s"
proof -
  let ?e = "upd_thread t (\<lambda>th. th\<lparr>error := - RT_ETIMEOUT\<rparr>) s"
  let ?r = "rt_schedule_insert_thread t (rt_list_remove t ?e)"
  have e: "thread_timeout t s = Some (rt_schedule ?r)" using t by (simp add: thread_timeout_def Let_def)
  have ie: "sched_inv ?e" using inv by (intro sched_inv_upd) auto
  have "sched_inv ?r" by (rule sched_inv_requeue [OF ie]) (use t in \<open>simp add: status_of_def\<close>)
  moreover have "timers_wf (rt_list_remove t ?e)" by (rule timers_wf_status [OF wf]) (auto simp: status_of_def)
  then have "timers_wf ?r" by (rule timers_wf_insert) (use out in simp)
  ultimately have "timers_wf (rt_schedule ?r)" by (rule timers_wf_schedule)
  then show thesis using that [OF e] by simp
qed

section \<open>The tick\<close>

text \<open>
  What a callback of a timer may do: anything that keeps the two invariants, leaves the clock
  alone, starts no timer and sets no deadline.
\<close>

definition quiet :: "(nat \<Rightarrow> kernel \<Rightarrow> kernel) \<Rightarrow> bool" where
  "quiet cb \<longleftrightarrow> (\<forall>n s. sched_inv s \<longrightarrow> timers_wf s \<longrightarrow>
     sched_inv (cb n s) \<and> timers_wf (cb n s) \<and> rt_tick (cb n s) = rt_tick s \<and>
     set (timer_list (cb n s)) \<subseteq> set (timer_list s) \<and>
     (\<forall>i. timeout_tick (timers (cb n s) i) = timeout_tick (timers s i)))"

lemma due_timers_mono:
  assumes "set (timer_list s') \<subseteq> insert i (set (timer_list s))" "rt_tick s' = rt_tick s"
    and "\<And>j. j \<noteq> i \<Longrightarrow> timeout_tick (timers s' j) = timeout_tick (timers s j)" "i \<in> set (timer_list s') \<Longrightarrow> \<not> due s' i"
  shows "due_timers s' \<subseteq> due_timers s - {i}"
  using assms by (fastforce simp: due_timers_def due_def)

lemma not_due_after_start:
  assumes "0 < d" "d < RT_TICK_HALF"
  shows "\<not> now - (now + d) < RT_TICK_HALF"
proof -
  have "unat (0 - d) = 2 ^ 32 - unat d" using assms(1) unfolding unat_sub_if' by (simp add: word_less_nat_alt)
  moreover have "unat d < 2 ^ 31 - 1" using assms(2) by (simp add: RT_TICK_HALF_def word_less_nat_alt)
  ultimately show ?thesis by (simp add: RT_TICK_HALF_def word_less_nat_alt)
qed

text \<open>One round: the timer at the head leaves the timers that are due, and none is added.\<close>

lemma timer_round:
  assumes q: "quiet cb" and inv: "sched_inv s" and wf: "timers_wf s" and i: "timer_list s = i # l"
  obtains r where "timer_callback cb i (timer_expire i s) = Some r"
    "sched_inv (timer_rearm i r)" "timers_wf (timer_rearm i r)" "due_timers (timer_rearm i r) \<subseteq> due_timers s - {i}"
proof -
  let ?x = "timer_expire i s"
  have iin: "i \<in> set (timer_list s)" using i by simp
  have x: "timer_list ?x = removeAll i (timer_list s)" "rt_tick ?x = rt_tick s"
    "timeout_tick (timers ?x j) = timeout_tick (timers s j)" "status_of ?x u = status_of s u" for j u
    by (auto simp: timer_expire_def Let_def)
  have "timers_wf (timer_remove i s)" "timers_wf (clear_flag RT_TIMER_FLAG_ACTIVATED i (timer_remove i s))"
    by (rule timers_wf_remove [OF wf])+
  then have wx: "timers_wf ?x"
    by (auto simp: timer_expire_def Let_def timers_wf_def)
  have "core ?x = core s" by (simp add: timer_expire_def Let_def)
  then have ix: "sched_inv ?x" using core_eq(1) inv by blast
  obtain r where ir: "sched_inv r" and r: "timer_callback cb i ?x = Some r" "timers_wf r" "set (timer_list r) \<subseteq> set (timer_list ?x)"
    "rt_tick r = rt_tick ?x" "\<And>j. timeout_tick (timers r j) = timeout_tick (timers ?x j)"
  proof (cases i)
    case (thread_timer t)
    have "status_of ?x t = RT_THREAD_SUSPEND" using wf iin thread_timer unfolding x by (simp add: timers_wf_def)
    moreover have "i \<notin> set (timer_list ?x)" unfolding x(1) by simp
    then have "thread_timer t \<notin> set (timer_list ?x)" unfolding thread_timer .
    ultimately obtain r where "thread_timeout t ?x = Some r" "timers_wf r" "timer_list r = timer_list ?x"
      "timers r = timers ?x" "rt_tick r = rt_tick ?x"
      using timers_wf_timeout [OF ix wx] by blast
    then show thesis using that [of r] thread_timer sched_inv_timeout [OF ix, of t r] by (simp add: timer_callback_def)
  next
    case (user_timer n)
    then show thesis using that [of "cb n ?x"] q ix wx by (simp add: timer_callback_def quiet_def)
  qed
  let ?m = "timer_remove i r" and ?c = "clear_flag RT_TIMER_FLAG_ACTIVATED i (timer_remove i r)"
  have hard: "\<not> soft ?c i" using r(2) by (simp add: timers_wf_def)
  have sub: "set (timer_list r) \<subseteq> set (timer_list s) - {i}" using r(3) x(1) by auto
  have out: "i \<notin> set (timer_list r)" using sub by blast
  have "timer_rearm i r =
      (if expired_list r = [] then r else if periodic r i \<and> activated r i then timer_enlist i ?c else ?m)"
    unfolding start_hard [OF hard, symmetric] by (simp add: timer_rearm_def Let_def periodic_def activated_def has_flag_def)
  then have "timer_rearm i r = r \<or> timer_rearm i r = ?m \<or> timer_rearm i r = timer_enlist i ?c \<and> periodic r i"
    by auto
  then consider "timer_rearm i r = r" | "timer_rearm i r = ?m" | "timer_rearm i r = timer_enlist i ?c" "periodic r i"
    by blast
  then have "timers_wf (timer_rearm i r) \<and> due_timers (timer_rearm i r) \<subseteq> due_timers s - {i}"
  proof cases
    case 1
    then show ?thesis using r(2) due_timers_mono [of r i s] sub out r(4,5) x by auto
  next
    case 2
    then show ?thesis using timers_wf_remove(1) [OF r(2), of i] due_timers_mono [of ?m i s] sub out r(4,5) x by auto
  next
    case 3
    have p: "0 < init_tick (timers r i)" "init_tick (timers r i) < RT_TICK_HALF"
      using r(2) 3(2) by (auto simp: timers_wf_def)
    have nt: "i \<noteq> thread_timer t" for t using r(2) 3(2) by (auto simp: timers_wf_def)
    have "timers_wf (timer_enlist i ?c)"
      unfolding start_hard [OF hard, symmetric] by (rule timers_wf_start [OF timers_wf_remove(2) [OF r(2)]]) (use nt in auto)
    moreover have "\<not> due (timer_enlist i ?c) i"
      using not_due_after_start [OF p] by (simp add: due_def enlist_frame [OF hard])
    then have "due_timers (timer_enlist i ?c) \<subseteq> due_timers s - {i}"
      by (intro due_timers_mono) (use sub r(4,5) x in \<open>auto simp: enlist_frame [OF hard]\<close>)
    ultimately show ?thesis unfolding 3(1) by blast
  qed
  moreover have "core (clear_flag RT_TIMER_FLAG_ACTIVATED i ?m) = core r" "core ?m = core r" by simp_all
  then have "sched_inv ?c" "sched_inv ?m" using core_eq(1) ir by blast+
  then have "sched_inv (timer_rearm i r)"
    using ir by (auto simp: timer_rearm_def Let_def sched_inv_timer_start)
  ultimately show thesis using that r(1) by blast
qed

text \<open>
  The rounds of a tick: the timers of the list \<open>l\<close> run one after the other, each of them the head
  of the timer list and due when its turn comes. A round takes the timer off the list, calls
  its function - the timeout of a thread, or the user's callback - and puts a periodic timer
  back. \<open>None\<close>: these are not the rounds from \<open>s\<close>.
\<close>

fun rounds :: "(nat \<Rightarrow> kernel \<Rightarrow> kernel) \<Rightarrow> timer_id list \<Rightarrow> kernel \<Rightarrow> kernel option" where
  "rounds cb [] s = Some s"
| "rounds cb (i # l) s =
     (if timer_list s \<noteq> [] \<and> hd (timer_list s) = i \<and> due s i then
        (case i of
           thread_timer t \<Rightarrow> Option.bind (thread_timeout t (timer_expire i s)) (\<lambda>r. rounds cb l (timer_rearm i r))
         | user_timer n \<Rightarrow> rounds cb l (timer_rearm i (cb n (timer_expire i s))))
      else None)"

lemma timer_check_ends:
  assumes q: "quiet cb"
  shows "sched_inv s \<Longrightarrow> timers_wf s \<Longrightarrow> card (due_timers s) < fuel \<Longrightarrow>
    \<exists>s' l. rt_timer_check fuel cb s = Some s' \<and> sched_inv s' \<and> timers_wf s' \<and>
      (timer_list s' = [] \<or> \<not> due s' (hd (timer_list s'))) \<and>
      rounds cb l s = Some s' \<and> distinct l \<and> set l \<subseteq> due_timers s"
proof (induction fuel arbitrary: s)
  case (Suc fuel)
  show ?case
  proof (cases "timer_list s")
    case Nil
    then show ?thesis using Suc.prems by (intro exI [of _ s] exI [of _ "[]"]) simp
  next
    case (Cons i ts)
    show ?thesis
    proof (cases "due s i")
      case True
      obtain r where r: "timer_callback cb i (timer_expire i s) = Some r" "sched_inv (timer_rearm i r)"
        "timers_wf (timer_rearm i r)" "due_timers (timer_rearm i r) \<subseteq> due_timers s - {i}"
        using timer_round [OF q Suc.prems(1,2) Cons] .
      have fin: "finite (due_timers s)" by (simp add: due_timers_def)
      moreover have i: "i \<in> due_timers s" using True Cons by (simp add: due_timers_def)
      ultimately have "card (due_timers (timer_rearm i r)) < card (due_timers s)"
        using r(4) by (intro psubset_card_mono) auto
      then obtain s' l where IH: "rt_timer_check fuel cb (timer_rearm i r) = Some s'" "sched_inv s'" "timers_wf s'"
        "timer_list s' = [] \<or> \<not> due s' (hd (timer_list s'))" "rounds cb l (timer_rearm i r) = Some s'"
        "distinct l" "set l \<subseteq> due_timers (timer_rearm i r)"
        using Suc.IH [OF r(2,3)] Suc.prems(3) by auto
      have "rt_timer_check (Suc fuel) cb s = Some s'"
        using IH(1) Cons True r(1) by (simp add: due_def)
      moreover have "rounds cb (i # l) s = Some s'"
        using IH(5) r(1) Cons True by (auto simp: timer_callback_def split: timer_id.splits)
      moreover have "distinct (i # l)" "set (i # l) \<subseteq> due_timers s" using IH(6,7) r(4) i by auto
      ultimately show ?thesis using IH(2-4) by blast
    next
      case False
      then show ?thesis using Suc.prems Cons by (intro exI [of _ s] exI [of _ "[]"]) (simp add: due_def)
    qed
  qed
qed simp

lemma tick_ends:
  assumes q: "quiet cb" and inv: "sched_inv s" and wf: "timers_wf s" and fuel: "length (timer_list s) < fuel"
  shows "\<exists>s' s1 l. rt_tick_increase fuel cb s = Some s' \<and> sched_inv s' \<and> timers_wf s' \<and>
      (timer_list s' = [] \<or> \<not> due s' (hd (timer_list s'))) \<and>
      rt_tick s1 = rt_tick s + 1 \<and> timer_list s1 = timer_list s \<and> timers s1 = timers s \<and>
      rounds cb l s1 = Some s' \<and> distinct l \<and> set l \<subseteq> due_timers s1"
proof -
  let ?a = "s\<lparr>rt_tick := rt_tick s + 1\<rparr>"
  let ?b = "upd_thread (rt_current_thread ?a) (\<lambda>th. th\<lparr>remaining_tick := remaining_tick th - 1\<rparr>) ?a"
  let ?y = "upd_thread (rt_current_thread ?a) (\<lambda>th. set_yield (th\<lparr>remaining_tick := thread_init_tick th\<rparr>)) ?b"
  have a: "sched_inv ?a" using inv core_eq(1) [of ?a s] by simp
  have b: "sched_inv ?b" using a by (intro sched_inv_upd) auto
  have y: "sched_inv ?y" by (rule sched_inv_upd [OF b]) auto
  have wa: "timers_wf ?a" by (rule timers_wf_status [OF wf]) (auto simp: status_of_def)
  have wb: "timers_wf ?b" by (rule timers_wf_status [OF wa]) (auto simp: status_of_def)
  have wy: "timers_wf ?y" by (rule timers_wf_status [OF wb]) (auto simp: status_of_def)
  note ys = sched_inv_schedule [OF y] timers_wf_schedule [OF y wy]
  have few: "card (due_timers r) < fuel" if "timer_list r = timer_list s" for r
  proof -
    have "card (due_timers r) \<le> card (set (timer_list s))"
      unfolding due_timers_def that by (rule card_mono) auto
    also have "\<dots> \<le> length (timer_list s)" by (rule card_length)
    finally show ?thesis using fuel by simp
  qed
  have run: ?thesis
    if "rt_tick_increase fuel cb s = rt_timer_check fuel cb r" "sched_inv r" "timers_wf r"
      "rt_tick r = rt_tick s + 1" "timer_list r = timer_list s" "timers r = timers s" for r
    using timer_check_ends [OF q that(2,3) few [OF that(5)]] that(1,4-6) by fastforce
  show ?thesis
  proof (cases "remaining_tick (threads ?b (rt_current_thread ?a)) = 0")
    case True
    then have "rt_tick_increase fuel cb s = rt_timer_check fuel cb (rt_schedule ?y)"
      unfolding rt_tick_increase_def Let_def by (simp only: if_True simp_thms)
    then show ?thesis by (rule run [OF _ ys]) simp_all
  next
    case False
    then have "rt_tick_increase fuel cb s = rt_timer_check fuel cb ?b"
      unfolding rt_tick_increase_def Let_def by (simp only: if_False simp_thms)
    then show ?thesis by (rule run [OF _ b wb]) simp_all
  qed
qed

text \<open>With the list in the order of the deadlines, a head that is not due means that no timer is.\<close>

lemma sorted_none_due:
  assumes "timers_sorted s" "timer_list s = [] \<or> \<not> due s (hd (timer_list s))"
  shows "due_timers s = {}"
proof -
  have "\<not> due s j" if j: "j \<in> set (timer_list s)" for j
  proof
    assume "due s j"
    let ?h = "hd (timer_list s)"
    have "timer_list s \<noteq> []" using j by auto
    then have h: "?h \<in> set (timer_list s)" "\<not> due s ?h" "unat (ticks_left s ?h) \<le> unat (ticks_left s j)"
      using assms j by (auto simp: timers_sorted_def neq_Nil_conv)
    have neg: "rt_tick s - timeout_tick (timers s i) = 0 - ticks_left s i" for i
      by (simp add: ticks_left_def)
    have jl: "ticks_left s j < RT_TICK_HALF" using assms(1) j by (simp add: timers_sorted_def)
    have "ticks_left s j = 0"
    proof (rule ccontr)
      assume "ticks_left s j \<noteq> 0"
      then have "\<not> 0 - ticks_left s j < RT_TICK_HALF"
        using not_due_after_start [of "ticks_left s j" 0] jl by (simp add: word_neq_0_conv)
      then show False using \<open>due s j\<close> unfolding due_def neg by simp
    qed
    then have "ticks_left s ?h = 0" using h(3) by (simp add: unat_eq_zero)
    then show False using h(2) unfolding due_def neg by (simp add: RT_TICK_HALF_def)
  qed
  then show ?thesis by (auto simp: due_timers_def)
qed

section \<open>The invariant holds\<close>

text \<open>
  The steps of \<open>kernel_step\<close>, where the timer functions are called for timers other than those of
  the threads, a periodic timer has a period, and the callbacks are \<open>quiet\<close>.
\<close>

inductive timed_step :: "kernel \<Rightarrow> kernel \<Rightarrow> bool" where
  "timed_step s (rt_schedule s)"
| "snd (rt_thread_suspend (rt_current_thread s) s) = RT_EOK \<Longrightarrow>
   timed_step s (fst (rt_thread_suspend (rt_current_thread s) s))"
| "timed_step s (fst (rt_thread_resume t s))"
| "timed_step s (rt_thread_yield s)"
| "status_of s (rt_current_thread s) = RT_THREAD_RUNNING \<Longrightarrow> rt_thread_sleep tick s = Some s' \<Longrightarrow>
   timed_step s s'"
| "prio_of s t < 32 \<Longrightarrow> rt_thread_startup t s = Some s' \<Longrightarrow> timed_step s s'"
| "status_of s (rt_current_thread s) = RT_THREAD_RUNNING \<Longrightarrow> timed_step s (rt_thread_exit s)"
| "unat prio < 32 \<Longrightarrow> timed_step s (rt_thread_change_priority t prio s)"
| "timed_step s (rt_timer_start (user_timer n) s)"
| "timed_step s (fst (rt_timer_stop (user_timer n) s))"
| "(cmd = 0 \<longrightarrow> 0 < arg) \<Longrightarrow>
   (cmd = 3 \<longrightarrow> 0 < init_tick (timers s (user_timer n)) \<and> init_tick (timers s (user_timer n)) < RT_TICK_HALF) \<Longrightarrow>
   rt_timer_control (user_timer n) cmd arg s = Some (s', r) \<Longrightarrow> timed_step s s'"
| "timed_step s (rt_enter_critical s)"
| "timed_step s (rt_exit_critical s)"
| "quiet cb \<Longrightarrow> rt_tick_increase (Suc (length (timer_list s))) cb s = Some s' \<Longrightarrow> timed_step s s'"
| "status_of s t = RT_THREAD_INIT \<Longrightarrow> thread_init t prio tick s = Some s' \<Longrightarrow> timed_step s s'"
| "rt_current_thread s = RT_NULL \<Longrightarrow> status_of s RT_NULL = RT_THREAD_INIT \<Longrightarrow>
   rt_thread_ready_priority_group s \<noteq> 0 \<Longrightarrow> timed_step s (rt_system_scheduler_start s)"

inductive timed_reachable :: "kernel \<Rightarrow> bool" where
  "timed_reachable boot_kernel"
| "timed_reachable s \<Longrightarrow> timed_step s s' \<Longrightarrow> timed_reachable s'"

lemma timers_wf_boot: "timers_wf boot_kernel"
  by (auto simp: timers_wf_def boot_kernel_def rt_system_scheduler_init_def flag_bits)

lemma timers_wf_lock: "timers_wf s \<Longrightarrow> timers_wf (s\<lparr>rt_scheduler_lock_nest := k\<rparr>)"
  by (rule timers_wf_status) auto

lemma set_time_frame [simp]:
  "periodic (set_timer_time i x s) j = periodic s j" "soft (set_timer_time i x s) j = soft s j"
  "activated (set_timer_time i x s) j = activated s j" "timer_list (set_timer_time i x s) = timer_list s"
  "status_of (set_timer_time i x s) u = status_of s u"
  "init_tick (timers (set_timer_time i x s) j) = (if j = i then x else init_tick (timers s j))"
  by (auto simp: set_timer_time_def flag_bits)

lemma control_frame:
  assumes "rt_timer_control i cmd arg s = Some (s', r)"
  shows "timer_list s' = timer_list s" "soft s' j = soft s j" "activated s' j = activated s j" "status_of s' u = status_of s u"
    and "periodic s' j \<longleftrightarrow> (if j = i \<and> cmd = 2 then False else if j = i \<and> cmd = 3 then True else periodic s j)"
    and "init_tick (timers s' j) = (if j = i \<and> cmd = 0 then arg else init_tick (timers s j))"
    and "cmd = 0 \<Longrightarrow> arg < RT_TICK_HALF"
  using assms by (auto simp: rt_timer_control_def Let_def split: if_splits)

lemma timers_wf_sleep:
  assumes inv: "sched_inv s" and wf: "timers_wf s" and run: "status_of s (rt_current_thread s) = RT_THREAD_RUNNING"
    and sl: "rt_thread_sleep tick s = Some s'"
  shows "timers_wf s'"
proof -
  let ?t = "rt_current_thread s"
  let ?e = "upd_thread ?t (\<lambda>th. th\<lparr>error := RT_EOK\<rparr>) s"
  let ?d = "fst (rt_thread_suspend ?t ?e)"
  let ?z = "set_timer_time (thread_timer ?t) tick ?d"
  have ie: "sched_inv ?e" using inv by (intro sched_inv_upd) auto
  have ok: "snd (rt_thread_suspend ?t ?e) = RT_EOK" using run by (auto simp: rt_thread_suspend_def Let_def status_of_def)
  have id: "sched_inv ?d" and sd: "status_of ?d ?t = RT_THREAD_SUSPEND"
    using sched_inv_suspend(1,2) [OF ie _ ok] by simp_all
  have "timers_wf ?e" by (rule timers_wf_status [OF wf]) (auto simp: status_of_def)
  then have wd: "timers_wf ?d" by (rule timers_wf_suspend)
  have c: "tick < RT_TICK_HALF" "s' = rt_schedule (rt_timer_start (thread_timer ?t) ?z)"
    using sl by (auto simp: rt_thread_sleep_def Let_def start_thread_timer_def rt_timer_control_def split: if_splits)
  have "timers_wf ?z" using wd unfolding timers_wf_def by auto
  then have "timers_wf (rt_timer_start (thread_timer ?t) ?z)"
    by (rule timers_wf_start) (use sd in auto)
  moreover have "sched_inv (rt_timer_start (thread_timer ?t) ?z)"
    using id core_eq(1) [of ?z ?d] by (intro sched_inv_timer_start) simp
  ultimately show ?thesis unfolding c(2) by (intro timers_wf_schedule)
qed

lemma timers_wf_startup:
  assumes inv: "sched_inv s" and wf: "timers_wf s" and p: "prio_of s t < 32" and st: "rt_thread_startup t s = Some s'"
  shows "timers_wf s'"
proof -
  note init = startup_cases(1) [OF st]
  have "timers_wf (born t s)" by (rule timers_wf_status [OF wf]) (use init in auto)
  then have "timers_wf (fst (rt_thread_resume t (born t s)))" by (rule timers_wf_resume)
  then show ?thesis
    using startup_cases(2) [OF st] timers_wf_schedule [OF sched_inv_resume [OF sched_inv_born [OF inv p init]]] by auto
qed

lemma timers_wf_exit:
  assumes inv: "sched_inv s" and wf: "timers_wf s" and run: "status_of s (rt_current_thread s) = RT_THREAD_RUNNING"
  shows "timers_wf (rt_thread_exit s)"
proof -
  let ?t = "rt_current_thread s"
  let ?d = "rt_schedule_remove_thread ?t s"
  have "timers_wf ?d" by (rule timers_wf_status [OF wf]) auto
  then have "timers_wf (clear_flag RT_TIMER_FLAG_ACTIVATED (thread_timer ?t) (timer_remove (thread_timer ?t) ?d))"
    by (rule timers_wf_remove(2))
  then have "timers_wf (gone s)" by (rule timers_wf_status) auto
  then show ?thesis unfolding rt_thread_exit_def Let_def by (rule timers_wf_schedule [OF sched_inv_gone [OF inv run]])
qed

lemma timers_wf_change_priority:
  assumes inv: "sched_inv s" and wf: "timers_wf s"
  shows "timers_wf (rt_thread_change_priority t prio s)"
  by (rule timers_wf_status [OF wf])
    (auto simp: rt_thread_change_priority_def Let_def simp flip: status_of_def)

lemma timers_wf_start_scheduler:
  assumes inv: "sched_inv s" and wf: "timers_wf s" and g: "rt_thread_ready_priority_group s \<noteq> 0"
  shows "timers_wf (rt_system_scheduler_start s)"
proof -
  obtain t p where h: "highest_priority_thread s = (t, p)" by (rule prod.exhaust)
  have "status_of s t = RT_THREAD_READY"
    using highest_thread(4) [OF sched_invD(1) [OF inv] g h] sched_invD(3) [OF inv] by blast
  then show ?thesis
    by (intro timers_wf_status [OF wf]) (auto simp: rt_system_scheduler_start_def h)
qed

lemma timed_step_wf:
  "timed_step s s' \<Longrightarrow> sched_inv s \<Longrightarrow> timers_wf s \<Longrightarrow> sched_inv s' \<and> timers_wf s'"
proof (induction rule: timed_step.induct)
  case (1 s)
  then show ?case by (simp add: sched_inv_schedule timers_wf_schedule)
next
  case (2 s)
  then show ?case using sched_inv_suspend(1) [OF 2(2) refl 2(1)] timers_wf_suspend by blast
next
  case (3 s t)
  then show ?case by (simp add: sched_inv_resume timers_wf_resume)
next
  case (4 s)
  let ?y = "upd_thread (rt_current_thread s) (\<lambda>th. set_yield (th\<lparr>remaining_tick := thread_init_tick th\<rparr>)) s"
  have "sched_inv ?y" using 4 by (intro sched_inv_upd) auto
  moreover have "timers_wf ?y" by (rule timers_wf_status [OF 4(2)]) (auto simp: status_of_def)
  ultimately show ?case unfolding rt_thread_yield_def by (intro conjI sched_inv_schedule timers_wf_schedule)
next
  case (5 s tick s')
  then show ?case using sched_inv_sleep timers_wf_sleep by blast
next
  case (6 s t s')
  then show ?case using sched_inv_startup timers_wf_startup by blast
next
  case (7 s)
  then show ?case by (simp add: sched_inv_exit timers_wf_exit)
next
  case (8 prio s t)
  then show ?case by (simp add: sched_inv_change_priority timers_wf_change_priority)
next
  case (9 s n)
  then show ?case by (intro conjI sched_inv_timer_start timers_wf_start) auto
next
  case (10 s n)
  then show ?case using core_eq(1) [OF timer_core(6)] by (auto intro: timers_wf_stop(1))
next
  case (11 cmd arg s n s' r)
  note f = control_frame [OF 11(3)]
  have "core s' = core s" using 11(3) by (auto simp: rt_timer_control_def split: if_splits)
  then have "sched_inv s'" using 11(4) core_eq(1) by blast
  moreover have "timers_wf s'" using 11(1,2,5) f(7) unfolding timers_wf_def f(1-6) by auto
  ultimately show ?case by blast
next
  case (12 s)
  then show ?case by (simp add: rt_enter_critical_def sched_inv_lock timers_wf_lock)
next
  case (13 s)
  then show ?case
    using sched_inv_lock timers_wf_lock sched_inv_schedule timers_wf_schedule
    by (simp add: rt_exit_critical_def Let_def)
next
  case (14 cb s s')
  then show ?case using tick_ends [OF 14(1,3,4) lessI] by fastforce
next
  case (15 s t prio tick s')
  have "timers_wf s'"
    using 15(2,4) 15(1) by (auto simp: thread_init_def timers_wf_def timer_init_def flag_bits status_of_def split: if_splits)
  then show ?case using sched_inv_init [OF 15(3,1,2)] by blast
next
  case (16 s)
  have "status_of s (rt_current_thread s) = RT_THREAD_INIT" using 16(1,2) by simp
  then show ?case using sched_inv_start [OF 16(4) _ 16(3)] timers_wf_start_scheduler [OF 16(4,5,3)] by blast
qed

lemma timed_reachable_wf: "timed_reachable s \<Longrightarrow> sched_inv s \<and> timers_wf s"
  by (induction rule: timed_reachable.induct) (use sched_inv_boot timers_wf_boot timed_step_wf in blast)+

section \<open>Properties\<close>

text \<open>
  C22: the tick interrupt returns in every state the kernel can reach, if periodic timers have a
  period and callbacks start no timer; as much fuel as there are running timers is enough. After
  the clock has advanced, timers run in rounds: each is the head of the list and due when its
  turn comes, its function is called (the timeout of its thread, whose assertion that the thread
  is suspended holds, or the user's callback), and none runs twice. When the interrupt returns the
  first timer of the list is not due, and no timer is, if the list is in the order of the deadlines.
\<close>

theorem tick_interrupt_returns:
  assumes "timed_reachable s" "quiet cb" "length (timer_list s) < fuel"
  shows "\<exists>s' s1 l. rt_tick_increase fuel cb s = Some s' \<and> sched_inv s' \<and> timers_wf s' \<and>
    rt_tick s1 = rt_tick s + 1 \<and> timer_list s1 = timer_list s \<and> timers s1 = timers s \<and>
    rounds cb l s1 = Some s' \<and> distinct l \<and> set l \<subseteq> due_timers s1 \<and>
    (timer_list s' = [] \<or> \<not> due s' (hd (timer_list s'))) \<and>
    (timers_sorted s' \<longrightarrow> due_timers s' = {})"
proof -
  have "sched_inv s" "timers_wf s" using timed_reachable_wf [OF assms(1)] by simp_all
  from tick_ends [OF assms(2) this assms(3)] show ?thesis using sorted_none_due by blast
qed

text \<open>A thread that sleeps for one tick, and a timer with a period of one tick.\<close>

definition ticking :: kernel where
  "ticking = rt_timer_start (user_timer 0) (set_flag RT_TIMER_FLAG_PERIODIC (user_timer 0)
     (set_timer_time (user_timer 0) 1 boot_kernel))"

lemma ticking_reachable: "timed_reachable ticking"
proof -
  let ?a = "set_timer_time (user_timer 0) 1 boot_kernel" and ?b = "\<lambda>s. set_flag RT_TIMER_FLAG_PERIODIC (user_timer 0) s"
  have "timed_step boot_kernel ?a"
    by (rule timed_step.intros(11) [where cmd = 0 and arg = 1]) (auto simp: rt_timer_control_def RT_TICK_HALF_def)
  then have a: "timed_reachable ?a" by (rule timed_reachable.intros(2) [OF timed_reachable.intros(1)])
  have "timed_step ?a (?b ?a)"
    by (rule timed_step.intros(11) [where cmd = 3 and arg = 0]) (auto simp: rt_timer_control_def RT_TICK_HALF_def)
  then have "timed_reachable (?b ?a)" by (rule timed_reachable.intros(2) [OF a])
  then show ?thesis unfolding ticking_def by (rule timed_reachable.intros(2)) (rule timed_step.intros(9))
qed

theorem tick_interrupt_returns_witness:
  "\<exists>s' s1. rt_tick_increase 2 (\<lambda>n s. s\<lparr>soft_timer_idle := False\<rparr>) ticking = Some s' \<and>
     rounds (\<lambda>n s. s\<lparr>soft_timer_idle := False\<rparr>) [user_timer 0] s1 = Some s' \<and>
     (timer_list s' = [] \<or> \<not> due s' (hd (timer_list s')))"
proof -
  let ?cb = "\<lambda>n :: nat. \<lambda>s :: kernel. s\<lparr>soft_timer_idle := False\<rparr>"
  have core: "core (s\<lparr>soft_timer_idle := False\<rparr>) = core s" for s :: kernel by (simp add: core_def)
  have "timers_wf s \<Longrightarrow> timers_wf (s\<lparr>soft_timer_idle := False\<rparr>)" for s :: kernel
    by (rule timers_wf_status [of s]) (auto simp: status_of_def)
  then have q: "quiet ?cb" using core_eq(1) [OF core] by (simp add: quiet_def)
  have t: "length (timer_list ticking) < 2" "timer_list ticking = [user_timer 0]"
    "rt_tick ticking + 1 - timeout_tick (timers ticking (user_timer 0)) < RT_TICK_HALF" by code_simp+
  obtain s' s1 l where r: "rt_tick_increase 2 ?cb ticking = Some s'" "rounds ?cb l s1 = Some s'" "distinct l"
    "set l \<subseteq> due_timers s1" "timer_list s' = [] \<or> \<not> due s' (hd (timer_list s'))"
    "rt_tick s1 = rt_tick ticking + 1" "timer_list s1 = timer_list ticking" "timers s1 = timers ticking"
    using tick_interrupt_returns [OF ticking_reachable q t(1)] by blast
  have "due s1 (user_timer 0)" using t(3) r(6,8) by (simp add: due_def)
  then have "l \<noteq> []" using r(2,5,7) t(2) by auto
  moreover have "set l \<subseteq> {user_timer 0}" using r(4,7) t(2) by (auto simp: due_timers_def)
  ultimately have "l = [user_timer 0]" using r(3) by (cases l) (auto simp: subset_singleton_iff)
  then show ?thesis using r(1,2,5) by blast
qed

text \<open>
  A periodic timer with a period of zero, which \<open>rt_timer_init\<close> and \<open>rt_timer_control\<close> accept, is due
  again as soon as it is started: the tick interrupt does not return.
\<close>

lemma zero_period_never_returns:
  assumes "timer_list s = [user_timer n]" "periodic s (user_timer n)" "activated s (user_timer n)"
    "\<not> soft s (user_timer n)" "init_tick (timers s (user_timer n)) = 0"
    "timeout_tick (timers s (user_timer n)) = rt_tick s"
  shows "rt_timer_check fuel (\<lambda>_ s. s) s = None"
  using assms
proof (induction fuel arbitrary: s)
  case (Suc fuel)
  let ?i = "user_timer n"
  let ?x = "timer_expire ?i s"
  let ?c = "clear_flag RT_TIMER_FLAG_ACTIVATED ?i (timer_remove ?i ?x)"
  have x: "?x = (timer_remove ?i s)\<lparr>expired_list := ?i # removeAll ?i (expired_list s)\<rparr>"
    using Suc.prems(2) by (auto simp: timer_expire_def Let_def periodic_def has_flag_def timer_remove_def)
  have xf: "periodic ?x ?i" "activated ?x ?i" "\<not> soft ?x ?i" "timer_list ?x = []" "timers ?x = timers s" "rt_tick ?x = rt_tick s"
    "expired_list ?x \<noteq> []"
    using Suc.prems unfolding x by simp_all
  have hard: "\<not> soft ?c ?i" using xf(3) by simp
  have r: "timer_rearm ?i ?x = timer_enlist ?i ?c"
    using xf(1,2,7) start_hard [OF hard] by (auto simp: timer_rearm_def Let_def periodic_def activated_def has_flag_def)
  have one: "timer_list (timer_enlist ?i ?c) = [?i]"
  proof -
    have "timer_list ?c = []" using xf(4) by simp
    then have "set (timer_list (timer_enlist ?i ?c)) = {?i}" "length (timer_list (timer_enlist ?i ?c)) \<le> 1"
      using enlist_frame(1) [OF hard] length_enlist [of ?i ?c] by simp_all
    then show ?thesis by (cases "timer_list (timer_enlist ?i ?c)") auto
  qed
  have "rt_timer_check fuel (\<lambda>_ s. s) (timer_enlist ?i ?c) = None"
    by (rule Suc.IH [OF one]) (use xf Suc.prems in \<open>simp_all add: enlist_frame [OF hard]\<close>)
  moreover have "due s ?i" using Suc.prems(6) by (simp add: due_def RT_TICK_HALF_def)
  ultimately show ?case using Suc.prems(1) r by (simp add: timer_callback_def due_def)
qed simp

end
