(* ===== verification/ThreadCtl.thy ===== *)
theory ThreadCtl
  imports TimerCheck
begin

text \<open>
  The calls of \<open>thread.c\<close>, \<open>timer.c\<close> and \<open>clock.c\<close> that are not steps of \<open>kernel_step\<close>: the timer thread with
  its list of soft timers, the end of a thread from outside, delays, control. The part that the
  object registry has in them is left out; \<open>rt_timer_delete\<close> and \<open>rt_thread_delete\<close> differ from the
  calls that detach only there.
\<close>

section \<open>Timers\<close>

definition RT_TICK_MAX :: u32 where "RT_TICK_MAX = 0xffffffff"

definition rt_timer_detach :: "timer_id \<Rightarrow> kernel \<Rightarrow> kernel" where
  "rt_timer_detach i s = clear_flag RT_TIMER_FLAG_ACTIVATED i (timer_remove i s)"

definition rt_timer_next_timeout_tick :: "kernel \<Rightarrow> u32" where
  "rt_timer_next_timeout_tick s =
     (case timer_list_next_timeout s (timer_list s) of None \<Rightarrow> RT_TICK_MAX | Some tk \<Rightarrow> tk)"

text \<open>
  The soft timers run in the timer thread, earliest first, with interrupts enabled: the callback
  stands for all that happens until it returns. \<open>None\<close>: the fuel ran out.
\<close>

fun rt_soft_timer_check :: "nat \<Rightarrow> (timer_id \<Rightarrow> kernel \<Rightarrow> kernel) \<Rightarrow> kernel \<Rightarrow> kernel option" where
  "rt_soft_timer_check 0 cb s = None"
| "rt_soft_timer_check (Suc fuel) cb s =
     (case soft_timer_list s of
        [] \<Rightarrow> Some s
      | i # _ \<Rightarrow>
          if rt_tick s - timeout_tick (timers s i) < RT_TICK_HALF
          then
            let s = (timer_expire i s)\<lparr>soft_timer_idle := False\<rparr>;
                s = (cb i s)\<lparr>soft_timer_idle := True\<rparr>
            in rt_soft_timer_check fuel cb (timer_rearm i s)
          else Some s)"

text \<open>
  The loop of the timer thread, up to the call where it may block; when it runs again it checks
  the soft timers. \<open>None\<close>: the assertion on the length of the delay fails.
\<close>

definition timer_thread_entry :: "kernel \<Rightarrow> kernel option" where
  "timer_thread_entry s =
     (case timer_list_next_timeout s (soft_timer_list s) of
        None \<Rightarrow> Some (rt_schedule (fst (rt_thread_suspend (rt_current_thread s) s)))
      | Some next_timeout \<Rightarrow>
          let current_tick = rt_tick s
          in if next_timeout - current_tick < RT_TICK_HALF
             then rt_thread_sleep (next_timeout - current_tick) s else Some s)"

definition timer_thread_entry_resumed :: "nat \<Rightarrow> (timer_id \<Rightarrow> kernel \<Rightarrow> kernel) \<Rightarrow> kernel \<Rightarrow> kernel option" where
  "timer_thread_entry_resumed = rt_soft_timer_check"

definition RT_TIMER_THREAD_PRIO :: u8 where "RT_TIMER_THREAD_PRIO = 4"

definition rt_system_timer_init :: "kernel \<Rightarrow> kernel" where
  "rt_system_timer_init s = s\<lparr>timer_list := []\<rparr>"

definition rt_system_timer_thread_init :: "kernel \<Rightarrow> kernel option" where
  "rt_system_timer_thread_init s =
     (let s = s\<lparr>soft_timer_list := []\<rparr>
      in Option.bind (thread_init (timer_thread s) RT_TIMER_THREAD_PRIO 10 s) (rt_thread_startup (timer_thread s)))"

section \<open>Threads\<close>

definition rt_thread_detach :: "tid \<Rightarrow> kernel \<Rightarrow> kernel" where
  "rt_thread_detach t s =
     (if status_of s t = RT_THREAD_CLOSE then s
      else
        let s = (if status_of s t \<noteq> RT_THREAD_INIT then rt_schedule_remove_thread t s else s);
            s = rt_timer_detach (thread_timer t) s
        in upd_thread t (\<lambda>th. th\<lparr>stat := RT_THREAD_CLOSE\<rparr>) s)"

definition rt_thread_mdelay :: "int \<Rightarrow> kernel \<Rightarrow> kernel option" where
  "rt_thread_mdelay ms s = rt_thread_sleep (rt_tick_from_millisecond ms) s"

text \<open>The tick of the last wake-up is stored back; \<open>None\<close>: the assertion on the delay fails.\<close>

definition rt_thread_delay_until :: "u32 \<Rightarrow> u32 \<Rightarrow> kernel \<Rightarrow> (kernel \<times> u32) option" where
  "rt_thread_delay_until tick inc_tick s =
     (let thread = rt_current_thread s;
          s = upd_thread thread (\<lambda>th. th\<lparr>error := RT_EOK\<rparr>) s;
          cur_tick = rt_tick s
      in if cur_tick - tick < inc_tick
         then
           let tick = tick + inc_tick; left_tick = tick - cur_tick;
               s = fst (rt_thread_suspend thread s)
           in map_option (\<lambda>s. (rt_schedule s, tick)) (start_thread_timer thread left_tick s)
         else Some (s, cur_tick))"

definition rt_thread_delay_until_resumed :: "tid \<Rightarrow> kernel \<Rightarrow> kernel \<times> int" where
  "rt_thread_delay_until_resumed = rt_thread_sleep_resumed"

datatype thread_cmd = RT_THREAD_CTRL_STARTUP | RT_THREAD_CTRL_CLOSE | RT_THREAD_CTRL_CHANGE_PRIORITY u8
  | RT_THREAD_CTRL_OTHER

definition rt_thread_control :: "tid \<Rightarrow> thread_cmd \<Rightarrow> kernel \<Rightarrow> kernel option" where
  "rt_thread_control t cmd s =
     (case cmd of
        RT_THREAD_CTRL_CHANGE_PRIORITY prio \<Rightarrow> Some (rt_thread_change_priority t prio s)
      | RT_THREAD_CTRL_STARTUP \<Rightarrow> rt_thread_startup t s
      | RT_THREAD_CTRL_CLOSE \<Rightarrow> Some (rt_schedule (rt_thread_detach t s))
      | RT_THREAD_CTRL_OTHER \<Rightarrow> Some s)"

section \<open>Clock\<close>

definition rt_tick_set :: "u32 \<Rightarrow> kernel \<Rightarrow> kernel" where
  "rt_tick_set tick s = s\<lparr>rt_tick := tick\<rparr>"

definition rt_tick_get_millisecond :: "kernel \<Rightarrow> u32" where
  "rt_tick_get_millisecond s = rt_tick s * (1000 div 1000)"

section \<open>What the calls keep\<close>

lemma sched_inv_detach:
  assumes inv: "sched_inv s" and st: "status_of s t \<noteq> RT_THREAD_INIT"
  shows "sched_inv (rt_thread_detach t s)"
proof (cases "status_of s t = RT_THREAD_CLOSE")
  case False
  let ?d = "rt_schedule_remove_thread t s"
  let ?r = "upd_thread t (\<lambda>th. th\<lparr>stat := RT_THREAD_CLOSE\<rparr>) ?d"
  have pt: "prio_ok s t" using sched_invD(6) [OF inv st] .
  have sr: "status_of ?r u = (if u = t then RT_THREAD_CLOSE else status_of s u)" for u by simp
  have "sched_inv ?r"
  proof (rule sched_invI)
    show "tables_ok ?r" using tables_ok_remove [OF sched_invD(1) [OF inv] pt] by (simp add: keep_prio_upd)
    show "waits_ok ?r" using sched_invD(2) [OF inv] unfolding waits_ok_def sr by (auto simp: distinct_removeAll)
    show "is_ready ?r u \<longleftrightarrow> status_of ?r u = RT_THREAD_READY" for u
      using sched_invD(3) [OF inv, of u] by (auto simp: keep_prio_upd)
    show "status_of ?r u = RT_THREAD_RUNNING \<Longrightarrow> u = rt_current_thread ?r" for u
      using sched_invD(4) [OF inv, of u] by (auto split: if_splits)
    show "status_of ?r (rt_current_thread ?r) \<noteq> RT_THREAD_READY"
      using sched_invD(5) [OF inv] by (auto split: if_splits)
    show "status_of ?r u \<noteq> RT_THREAD_INIT \<Longrightarrow> prio_ok ?r u" for u
      using sched_invD(6) [OF inv, of u] pt by (auto simp: keep_mask_upd split: if_splits)
  qed
  moreover have "core (rt_thread_detach t s) = core ?r"
    using False st by (simp add: rt_thread_detach_def Let_def rt_timer_detach_def core_def clear_flag_def timer_remove_def)
  ultimately show ?thesis using core_eq(1) by blast
qed (use inv in \<open>simp add: rt_thread_detach_def\<close>)

lemma timers_wf_detach:
  assumes wf: "timers_wf s"
  shows "timers_wf (rt_thread_detach t s)"
proof -
  let ?d = "if status_of s t \<noteq> RT_THREAD_INIT then rt_schedule_remove_thread t s else s"
  have "timers_wf ?d" by (rule timers_wf_status [OF wf]) auto
  then have "timers_wf (rt_timer_detach (thread_timer t) ?d)" unfolding rt_timer_detach_def by (rule timers_wf_remove(2))
  then have "timers_wf (upd_thread t (\<lambda>th. th\<lparr>stat := RT_THREAD_CLOSE\<rparr>) (rt_timer_detach (thread_timer t) ?d))"
    by (rule timers_wf_status) (auto simp: rt_timer_detach_def)
  then show ?thesis using wf by (simp add: rt_thread_detach_def Let_def)
qed

lemma sched_inv_soft_check:
  assumes cb: "\<And>i s. sched_inv s \<Longrightarrow> sched_inv (cb i s)"
  shows "sched_inv s \<Longrightarrow> rt_soft_timer_check fuel cb s = Some s' \<Longrightarrow> sched_inv s'"
proof (induction fuel arbitrary: s)
  case (Suc fuel)
  show ?case
  proof (cases "soft_timer_list s")
    case (Cons i l)
    let ?x = "(timer_expire i s)\<lparr>soft_timer_idle := False\<rparr>"
    let ?y = "(cb i ?x)\<lparr>soft_timer_idle := True\<rparr>"
    have "core ?x = core s" by (simp add: timer_expire_def Let_def core_def timer_remove_def clear_flag_def)
    then have "sched_inv (cb i ?x)" using cb core_eq(1) Suc.prems(1) by blast
    moreover have "core ?y = core (cb i ?x)" by (simp add: core_def)
    ultimately have y: "sched_inv ?y" using core_eq(1) by blast
    have "core (timer_remove i ?y) = core ?y" "core (clear_flag RT_TIMER_FLAG_ACTIVATED i (timer_remove i ?y)) = core ?y" by simp_all
    then have "sched_inv (timer_rearm i ?y)"
      using y core_eq(1) [of "timer_remove i ?y" ?y] core_eq(1) [of "clear_flag RT_TIMER_FLAG_ACTIVATED i (timer_remove i ?y)" ?y]
      by (simp add: timer_rearm_def Let_def sched_inv_timer_start)
    then show ?thesis using Suc.IH Suc.prems Cons by (auto simp: Let_def split: if_splits)
  qed (use Suc.prems in simp)
qed simp

text \<open>
  \<open>rt_thread_delay_until\<close> does not drift: whenever it is called between two wake-ups, the next one is
  due \<open>inc_tick\<close> after the last.
\<close>

lemma delay_until_has_no_drift:
  assumes run: "status_of s (rt_current_thread s) = RT_THREAD_RUNNING"
    and wf: "timers_wf s"
    and early: "rt_tick s - tick < inc_tick"
    and d: "rt_thread_delay_until tick inc_tick s = Some (s', tick')"
  shows "tick' = tick + inc_tick \<and> timeout_tick (timers s' (thread_timer (rt_current_thread s))) = tick + inc_tick \<and>
    thread_timer (rt_current_thread s) \<in> set (timer_list s')"
proof -
  let ?t = "rt_current_thread s"
  let ?e = "upd_thread ?t (\<lambda>th. th\<lparr>error := RT_EOK\<rparr>) s"
  let ?d = "fst (rt_thread_suspend ?t ?e)"
  let ?z = "set_timer_time (thread_timer ?t) (tick + inc_tick - rt_tick s) ?d"
  have "timers_wf ?e" by (rule timers_wf_status [OF wf]) (auto simp: status_of_def)
  then have wd: "timers_wf ?d" by (rule timers_wf_suspend)
  have hard: "\<not> soft ?z (thread_timer ?t)" using wd by (simp add: timers_wf_def)
  have r: "tick' = tick + inc_tick" "s' = rt_schedule (rt_timer_start (thread_timer ?t) ?z)"
    using d early by (auto simp: rt_thread_delay_until_def Let_def start_thread_timer_def rt_timer_control_def split: if_splits)
  have "rt_tick ?z = rt_tick s"
    by (auto simp: set_timer_time_def rt_thread_suspend_def Let_def rt_timer_stop_def)
  then show ?thesis
    unfolding r start_hard [OF hard] by (simp add: enlist_frame [OF hard])
qed

text \<open>A negative delay in milliseconds is not a wait for ever: an assertion fails.\<close>

lemma mdelay_negative_asserts: "ms < 0 \<Longrightarrow> rt_thread_mdelay ms s = None"
proof -
  assume "ms < 0"
  then have "rt_tick_from_millisecond ms = - 1" by (simp add: rt_tick_from_millisecond_def)
  moreover have "\<not> (- 1 :: u32) < RT_TICK_HALF" by (simp add: RT_TICK_HALF_def)
  ultimately show ?thesis
    by (simp add: rt_thread_mdelay_def rt_thread_sleep_def Let_def start_thread_timer_def rt_timer_control_def)
qed

end
