(* ===== verification/IpcFrame.thy ===== *)
theory IpcFrame
  imports Ipc
begin

text \<open>
  What the calls of the kernel leave alone in a suspend list and in the threads: the frame
  the mutex and the event sets share.
\<close>

text \<open>The events a thread waits for.\<close>

abbreviation wish :: "kernel \<Rightarrow> tid \<Rightarrow> u32 \<times> u8" where
  "wish s t \<equiv> (event_set (threads s t), event_info (threads s t))"

text \<open>
  From \<open>s\<close> to \<open>s'\<close> the priorities and the wishes stay, and threads may have left the list \<open>q\<close>.
\<close>

definition shrinks :: "nat \<Rightarrow> kernel \<Rightarrow> kernel \<Rightarrow> bool" where
  "shrinks q s s' \<longleftrightarrow> prio_of s' = prio_of s \<and> (\<forall>t. wish s' t = wish s t) \<and>
     (\<exists>P. suspend_lists s' q = filter P (suspend_lists s q))"

lemma shrinksI: "prio_of s' = prio_of s \<Longrightarrow> (\<And>t. wish s' t = wish s t) \<Longrightarrow>
   suspend_lists s' q = filter P (suspend_lists s q) \<Longrightarrow> shrinks q s s'"
  by (auto simp: shrinks_def)

lemma shrinks_refl [simp]: "shrinks q s s"
  by (rule shrinksI [where P = "\<lambda>_. True"]) simp_all

lemma shrinks_trans: "shrinks q s s' \<Longrightarrow> shrinks q s' s'' \<Longrightarrow> shrinks q s s''"
  by (auto simp: shrinks_def)

lemma shrinks_core: "core s' = core s \<Longrightarrow> shrinks q s s'"
  by (rule shrinksI [where P = "\<lambda>_. True"]) (auto simp: core_def prio_of_def fun_eq_iff)

lemma wish_status [simp]:
  "event_set (set_status v th) = event_set th" "event_info (set_status v th) = event_info th"
  "event_set (clear_yield th) = event_set th" "event_info (clear_yield th) = event_info th"
  by (simp_all add: set_status_def clear_yield_def)

lemma wish_insert [simp]:
  "event_set (threads (rt_schedule_insert_thread t s) u) = event_set (threads s u)"
  "event_info (threads (rt_schedule_insert_thread t s) u) = event_info (threads s u)"
  by (simp_all add: rt_schedule_insert_thread_def Let_def)

lemma wish_schedule [simp]: "wish (rt_schedule s) t = wish s t"
  by (auto simp: rt_schedule_def Let_def split: prod.splits)

lemma wish_resume [simp]: "wish (fst (rt_thread_resume u s)) t = wish s t"
  by (auto simp: rt_thread_resume_def Let_def rt_timer_stop_def clear_flag_def timer_remove_def)

lemma shrinks_schedule: "sched_inv s \<Longrightarrow> shrinks q s (rt_schedule s)"
  by (rule shrinksI [where P = "\<lambda>_. True"]) (simp_all add: fun_eq_iff schedule_suspend_lists)

lemma shrinks_resume: "shrinks q s (fst (rt_thread_resume t s))"
  by (rule shrinksI [where P = "\<lambda>u. status_of s t = RT_THREAD_SUSPEND \<longrightarrow> t \<noteq> u"])
    (auto simp: fun_eq_iff resume_sel removeAll_filter_not_eq)

lemma shrinks_timer_start:
  assumes "sched_inv s"
  shows "shrinks q s (rt_timer_start i s)"
proof -
  let ?e = "timer_enlist i s"
  have e: "sched_inv ?e" "shrinks q s ?e" using core_eq(1) [OF timer_enlist_core] assms shrinks_core by auto
  have "shrinks q ?e (rt_schedule (fst (rt_thread_resume (timer_thread ?e) ?e)))"
    using shrinks_trans shrinks_resume shrinks_schedule sched_inv_resume e(1) by blast
  then show ?thesis using e(2) shrinks_trans unfolding rt_timer_start_def Let_def by auto
qed

lemma shrinks_start_timer:
  assumes "sched_inv s" "start_thread_timer t tick s = Some s'"
  shows "shrinks q s s'"
proof -
  have c: "core (set_timer_time (thread_timer t) tick s) = core s" by simp
  have "s' = rt_timer_start (thread_timer t) (set_timer_time (thread_timer t) tick s)"
    using assms(2) by (auto simp: start_thread_timer_def rt_timer_control_def split: if_splits)
  then show ?thesis
    using shrinks_trans [OF shrinks_core [OF c] shrinks_timer_start] core_eq(1) [OF c] assms(1) by simp
qed

lemma shrinks_timeout:
  assumes "sched_inv s" "thread_timeout t s = Some s'"
  shows "shrinks q s s'"
proof -
  let ?u = "upd_thread t (\<lambda>th. th\<lparr>error := - RT_ETIMEOUT\<rparr>) s"
  let ?i = "rt_schedule_insert_thread t (rt_list_remove t ?u)"
  have st: "status_of s t = RT_THREAD_SUSPEND" "s' = rt_schedule ?i"
    using assms(2) by (auto simp: thread_timeout_def Let_def split: if_splits)
  have "sched_inv ?u" by (rule sched_inv_upd [OF assms(1)]) auto
  then have "sched_inv ?i" using st(1) by (intro sched_inv_requeue) (auto simp: status_of_def)
  moreover have "shrinks q s ?i"
    by (rule shrinksI [where P = "\<lambda>u. t \<noteq> u"]) (auto simp: fun_eq_iff removeAll_filter_not_eq prio_of_def)
  ultimately show ?thesis using shrinks_trans shrinks_schedule st(2) by blast
qed

lemma error_only:
  assumes "sched_inv s" "k = upd_thread t (\<lambda>th. th\<lparr>error := e\<rparr>) s"
  shows "sched_inv k" "prio_of k = prio_of s" "suspend_lists k = suspend_lists s"
    "rt_current_thread k = rt_current_thread s" "status_of k = status_of s"
    "current_priority (threads k u) = current_priority (threads s u)" "shrinks q s k"
  unfolding assms(2) by (auto simp: fun_eq_iff prio_of_def status_of_def intro!: sched_inv_upd [OF assms(1)] shrinksI [where P = "\<lambda>_. True"])

end
