(* ===== verification/Mutex.thy ===== *)
theory Mutex
  imports IpcFrame
begin

text \<open>
  The mutex of \<open>src/rt-thread/src/ipc.c\<close>, recursive and with priority inheritance. The owner
  is \<open>None\<close> for \<open>RT_NULL\<close>; the suspend list is named by a number. \<open>None\<close> as a result: an
  assertion fails or a null pointer is followed.
\<close>

section \<open>State and operations\<close>

record rt_mutex =
  mx_value :: u16
  original_priority :: u8
  hold :: u8
  owner :: "tid option"
  mx_queue :: nat

definition RT_MUTEX_HOLD_MAX :: u8 where "RT_MUTEX_HOLD_MAX = 0xFF"
definition RT_MUTEX_VALUE_MAX :: u16 where "RT_MUTEX_VALUE_MAX = 0xFFFF"

definition rt_mutex_init :: "nat \<Rightarrow> rt_mutex" where
  "rt_mutex_init q = \<lparr>mx_value = 1, original_priority = 0xFF, hold = 0, owner = None, mx_queue = q\<rparr>"

definition rt_mutex_detach :: "rt_mutex \<Rightarrow> kernel \<Rightarrow> kernel" where
  "rt_mutex_detach m s = ipc_list_resume_all (mx_queue m) s"

text \<open>\<open>created\<close>: whether \<open>rt_object_allocate\<close> finds memory.\<close>

definition rt_mutex_create :: "bool \<Rightarrow> nat \<Rightarrow> rt_mutex option" where
  "rt_mutex_create created q =
     (if created
      then Some \<lparr>mx_value = 1, original_priority = 0xFF, hold = 0, owner = None, mx_queue = q\<rparr> else None)"

definition rt_mutex_delete :: "rt_mutex \<Rightarrow> kernel \<Rightarrow> kernel" where
  "rt_mutex_delete m s = ipc_list_resume_all (mx_queue m) s"

text \<open>The waiting branch of \<open>rt_mutex_take\<close>: the owner inherits the priority of the caller.\<close>

definition mutex_inherit :: "tid \<Rightarrow> tid \<Rightarrow> kernel \<Rightarrow> kernel" where
  "mutex_inherit t ow s =
     (if current_priority (threads s t) < current_priority (threads s ow)
      then rt_thread_change_priority ow (current_priority (threads s t)) s else s)"

definition mutex_wait :: "rt_mutex \<Rightarrow> tid \<Rightarrow> tid \<Rightarrow> int \<Rightarrow> kernel \<Rightarrow> kernel option" where
  "mutex_wait m t ow time s =
     (let s = ipc_list_suspend (mx_queue m) t RT_IPC_FLAG_PRIO (mutex_inherit t ow s)
      in map_option rt_schedule
           (if 0 < time then start_thread_timer t (word_of_int time) s else Some s))"

definition rt_mutex_take ::
    "rt_mutex \<Rightarrow> int \<Rightarrow> kernel \<Rightarrow> (rt_mutex \<times> kernel \<times> int outcome) option" where
  "rt_mutex_take m time s =
     (let t = rt_current_thread s;
          s = upd_thread t (\<lambda>th. th\<lparr>error := RT_EOK\<rparr>) s
      in if owner m = Some t then
           if hold m < RT_MUTEX_HOLD_MAX then Some (m\<lparr>hold := hold m + 1\<rparr>, s, Return RT_EOK)
           else Some (m, s, Return (- RT_EFULL))
         else if 0 < mx_value m then
           let m = m\<lparr>mx_value := mx_value m - 1, owner := Some t,
                     original_priority := current_priority (threads s t)\<rparr>
           in if hold m < RT_MUTEX_HOLD_MAX then Some (m\<lparr>hold := hold m + 1\<rparr>, s, Return RT_EOK)
              else Some (m, s, Return (- RT_EFULL))
         else if time = 0 then
           Some (m, upd_thread t (\<lambda>th. th\<lparr>error := - RT_ETIMEOUT\<rparr>) s, Return (- RT_ETIMEOUT))
         else Option.bind (owner m) (\<lambda>ow. map_option (\<lambda>s. (m, s, Blocked)) (mutex_wait m t ow time s)))"

definition rt_mutex_take_resumed :: "tid \<Rightarrow> kernel \<Rightarrow> int" where
  "rt_mutex_take_resumed t s =
     (if error (threads s t) \<noteq> RT_EOK then error (threads s t) else RT_EOK)"

definition rt_mutex_trytake :: "rt_mutex \<Rightarrow> kernel \<Rightarrow> (rt_mutex \<times> kernel \<times> int outcome) option" where
  "rt_mutex_trytake m s = rt_mutex_take m 0 s"

text \<open>The last hold is given up: the priority is restored and the mutex handed on or freed.\<close>

definition mutex_restore :: "rt_mutex \<Rightarrow> tid \<Rightarrow> kernel \<Rightarrow> kernel" where
  "mutex_restore m t s =
     (if original_priority m \<noteq> current_priority (threads s t)
      then rt_thread_change_priority t (original_priority m) s else s)"

definition mutex_hand_on :: "rt_mutex \<Rightarrow> kernel \<Rightarrow> rt_mutex \<times> kernel \<times> int" where
  "mutex_hand_on m s =
     (case suspend_lists s (mx_queue m) of
        t # ts \<Rightarrow>
          (let m = m\<lparr>owner := Some t, original_priority := current_priority (threads s t)\<rparr>
           in if hold m < RT_MUTEX_HOLD_MAX
              then (m\<lparr>hold := hold m + 1\<rparr>, rt_schedule (ipc_list_resume (mx_queue m) s), RT_EOK)
              else (m, s, - RT_EFULL))
      | [] \<Rightarrow>
          (if mx_value m < RT_MUTEX_VALUE_MAX
           then (m\<lparr>mx_value := mx_value m + 1, owner := None, original_priority := 0xFF\<rparr>, s, RT_EOK)
           else (m, s, - RT_EFULL)))"

definition rt_mutex_release :: "rt_mutex \<Rightarrow> kernel \<Rightarrow> rt_mutex \<times> kernel \<times> int" where
  "rt_mutex_release m s =
     (let t = rt_current_thread s
      in if owner m \<noteq> Some t then (m, upd_thread t (\<lambda>th. th\<lparr>error := - RT_ERROR\<rparr>) s, - RT_ERROR)
         else
           let m = m\<lparr>hold := hold m - 1\<rparr>
           in if hold m = 0 then mutex_hand_on m (mutex_restore m t s) else (m, s, RT_EOK))"

definition rt_mutex_control :: "rt_mutex \<Rightarrow> int" where
  "rt_mutex_control m = - RT_ERROR"

lemma mutex_gone_fails_waiters:
  assumes "sched_inv s" "t \<in> set (suspend_lists s (mx_queue m))"
  shows "rt_mutex_take_resumed t (rt_mutex_delete m s) = - RT_ERROR"
    and "rt_mutex_take_resumed t (rt_mutex_detach m s) = - RT_ERROR"
  using resume_all_error [OF assms]
  by (simp_all add: rt_mutex_take_resumed_def rt_mutex_delete_def rt_mutex_detach_def rt_err_defs)

section \<open>Priorities and suspend lists\<close>

lemma change_priority_sel [simp]:
  "rt_current_thread (rt_thread_change_priority t p s) = rt_current_thread s"
  "prio_of (rt_thread_change_priority t p s) u = (if u = t then unat p else prio_of s u)"
  by (simp_all add: rt_thread_change_priority_def Let_def prio_of_def)

lemma change_priority_lists:
  "sched_inv s \<Longrightarrow> suspend_lists (rt_thread_change_priority t p s) q = suspend_lists s q"
  using not_waiting [OF sched_invD(2), of s t q]
  by (auto simp: rt_thread_change_priority_def Let_def)

lemma change_priority_status:
  assumes "sched_inv s"
  shows "status_of (rt_thread_change_priority t p s) u = status_of s u"
proof -
  have f: "status (th\<lparr>current_priority := p, number_mask := n\<rparr>) = status th" for th n by (simp add: status_def)
  show ?thesis
    using sched_invD(5) [OF assms]
    by (auto simp: rt_thread_change_priority_def Let_def f) (simp_all add: status_of_def)
qed


lemma wait_enlists:
  assumes "sched_inv s" "t = rt_current_thread s" "status_of s t = RT_THREAD_RUNNING"
  shows "prio_of (ipc_list_suspend q t RT_IPC_FLAG_PRIO s) = prio_of s"
    "suspend_lists (ipc_list_suspend q t RT_IPC_FLAG_PRIO s) q = prio_insert (prio_of s) t (suspend_lists s q)"
proof -
  let ?r = "fst (rt_thread_suspend t s)"
  have p: "prio_of ?r = prio_of s"
    using assms(3) by (auto simp: fun_eq_iff rt_thread_suspend_def Let_def rt_timer_stop_def clear_flag_def
        timer_remove_def prio_of_def)
  have "suspend_lists ?r q = suspend_lists s q"
    using not_waiting [OF sched_invD(2) [OF assms(1)], of t q] assms(3)
    by (simp add: rt_thread_suspend_def Let_def rt_timer_stop_def clear_flag_def timer_remove_def)
  then show "prio_of (ipc_list_suspend q t RT_IPC_FLAG_PRIO s) = prio_of s"
    "suspend_lists (ipc_list_suspend q t RT_IPC_FLAG_PRIO s) q = prio_insert (prio_of s) t (suspend_lists s q)"
    using p by (simp_all add: ipc_list_suspend_def Let_def)
qed

lemma running_prio: "sched_inv s \<Longrightarrow> status_of s t = RT_THREAD_RUNNING \<Longrightarrow> unat (current_priority (threads s t)) < 32"
  using sched_invD(6) [of s t] by (simp add: prio_ok_def prio_of_def)

lemma inherit_facts:
  assumes "sched_inv s" "status_of s t = RT_THREAD_RUNNING"
  shows "sched_inv (mutex_inherit t ow s)" "rt_current_thread (mutex_inherit t ow s) = rt_current_thread s"
    "status_of (mutex_inherit t ow s) u = status_of s u"
    "suspend_lists (mutex_inherit t ow s) q = suspend_lists s q"
    "prio_of (mutex_inherit t ow s) = (prio_of s)(ow := min (prio_of s t) (prio_of s ow))"
  using assms running_prio [OF assms]
  by (auto simp: mutex_inherit_def sched_inv_change_priority change_priority_status change_priority_lists
      fun_eq_iff prio_of_def word_less_nat_alt simp flip: prio_of_def)

lemma mutex_wait_facts:
  assumes inv: "sched_inv s" and t: "t = rt_current_thread s" and run: "status_of s t = RT_THREAD_RUNNING"
    and w: "mutex_wait m t ow time s = Some k"
  shows "sched_inv k" "prio_of k = (prio_of s)(ow := min (prio_of s t) (prio_of s ow))"
    "\<exists>P. suspend_lists k (mx_queue m) = filter P (prio_insert (prio_of k) t (suspend_lists s (mx_queue m)))"
proof -
  let ?i = "mutex_inherit t ow s" and ?q = "mx_queue m"
  let ?w = "ipc_list_suspend ?q t RT_IPC_FLAG_PRIO ?i"
  note i = inherit_facts [OF inv run, of ow]
  have c: "t = rt_current_thread ?i" "status_of ?i t = RT_THREAD_RUNNING" using i t run by simp_all
  note e = wait_enlists [OF i(1) c, of ?q]
  have w1: "sched_inv ?w" by (rule sched_inv_ipc_suspend(1) [OF i(1) c])
  obtain s1 where s1: "k = rt_schedule s1" "s1 = ?w \<or> start_thread_timer t (word_of_int time) ?w = Some s1"
    using w by (auto simp: mutex_wait_def Let_def split: if_splits)
  then have s1': "sched_inv s1" "shrinks ?q ?w s1" using w1 sched_inv_start_timer shrinks_start_timer by auto
  then show "sched_inv k" using s1(1) sched_inv_schedule by simp
  have sh: "shrinks ?q ?w k" using s1(1) s1' shrinks_trans shrinks_schedule by blast
  then show "prio_of k = (prio_of s)(ow := min (prio_of s t) (prio_of s ow))"
    using e(1) i(5) by (simp add: shrinks_def)
  then show "\<exists>P. suspend_lists k ?q = filter P (prio_insert (prio_of k) t (suspend_lists s ?q))"
    using sh e i(4,5) by (auto simp: shrinks_def)
qed

section \<open>The mutex among its threads\<close>

text \<open>
  A mutex in its kernel, with the number of takes granted to and of releases accepted from
  each thread. \<open>mutex_step\<close>: the calls of the running thread, the timeouts of waiting threads
  and everything else the kernel does that leaves the suspend list alone and satisfies \<open>env\<close>.
\<close>

record mutex_sys =
  mtx :: rt_mutex
  mkrn :: kernel
  taken :: "tid \<Rightarrow> nat"
  given :: "tid \<Rightarrow> nat"

definition runner :: "mutex_sys \<Rightarrow> tid" where
  "runner x = rt_current_thread (mkrn x)"

definition waiters :: "mutex_sys \<Rightarrow> tid list" where
  "waiters x = suspend_lists (mkrn x) (mx_queue (mtx x))"

definition running :: "mutex_sys \<Rightarrow> bool" where
  "running x \<longleftrightarrow> status_of (mkrn x) (runner x) = RT_THREAD_RUNNING"

definition count :: "tid option \<Rightarrow> (tid \<Rightarrow> nat) \<Rightarrow> tid \<Rightarrow> nat" where
  "count t f = (case t of None \<Rightarrow> f | Some t \<Rightarrow> f(t := Suc (f t)))"

inductive mutex_step :: "(kernel \<Rightarrow> kernel \<Rightarrow> bool) \<Rightarrow> mutex_sys \<Rightarrow> mutex_sys \<Rightarrow> bool" for env where
  take_now: "running x \<Longrightarrow> rt_mutex_take (mtx x) time (mkrn x) = Some (m, k, Return r) \<Longrightarrow>
     mutex_step env x (x\<lparr>mtx := m, mkrn := k,
       taken := count (if r = RT_EOK then Some (runner x) else None) (taken x)\<rparr>)"
| take_block: "running x \<Longrightarrow> rt_mutex_take (mtx x) time (mkrn x) = Some (m, k, Blocked) \<Longrightarrow>
     mutex_step env x (x\<lparr>mtx := m, mkrn := k\<rparr>)"
| release: "running x \<Longrightarrow> rt_mutex_release (mtx x) (mkrn x) = (m, k, r) \<Longrightarrow>
     mutex_step env x (x\<lparr>mtx := m, mkrn := k,
       taken := count (if owner m = owner (mtx x) then None else owner m) (taken x),
       given := count (if r = RT_EOK then Some (runner x) else None) (given x)\<rparr>)"
| expire: "t \<in> set (waiters x) \<Longrightarrow> thread_timeout t (mkrn x) = Some k \<Longrightarrow>
     mutex_step env x (x\<lparr>mkrn := k\<rparr>)"
| other: "kernel_step (mkrn x) k \<Longrightarrow> env (mkrn x) k \<Longrightarrow>
     suspend_lists k (mx_queue (mtx x)) = waiters x \<Longrightarrow> mutex_step env x (x\<lparr>mkrn := k\<rparr>)"

inductive mutex_reachable :: "(kernel \<Rightarrow> kernel \<Rightarrow> bool) \<Rightarrow> mutex_sys \<Rightarrow> mutex_sys \<Rightarrow> bool" for env x0 where
  "mutex_reachable env x0 x0"
| "mutex_reachable env x0 x \<Longrightarrow> mutex_step env x x' \<Longrightarrow> mutex_reachable env x0 x'"

definition mutex_ok :: "mutex_sys \<Rightarrow> bool" where
  "mutex_ok x \<longleftrightarrow> sched_inv (mkrn x) \<and>
     (case owner (mtx x) of
        None \<Rightarrow> mx_value (mtx x) = 1 \<and> hold (mtx x) = 0 \<and> waiters x = [] \<and> taken x = given x
      | Some ow \<Rightarrow> mx_value (mtx x) = 0 \<and> 0 < unat (hold (mtx x)) \<and> unat (original_priority (mtx x)) < 32 \<and>
          ow \<notin> set (waiters x) \<and> taken x = (given x)(ow := given x ow + unat (hold (mtx x))))"

definition inherit_ok :: "mutex_sys \<Rightarrow> bool" where
  "inherit_ok x \<longleftrightarrow> sorted (map (prio_of (mkrn x)) (waiters x)) \<and>
     (\<forall>ow u. owner (mtx x) = Some ow \<longrightarrow> u \<in> set (waiters x) \<longrightarrow> prio_of (mkrn x) ow \<le> prio_of (mkrn x) u)"

lemma kernel_only:
  assumes "mutex_ok x" "sched_inv k" "shrinks (mx_queue (mtx x)) (mkrn x) k"
  shows "mutex_ok (x\<lparr>mkrn := k\<rparr>)" "inherit_ok x \<Longrightarrow> inherit_ok (x\<lparr>mkrn := k\<rparr>)"
proof -
  obtain P where P: "suspend_lists k (mx_queue (mtx x)) = filter P (waiters x)" "prio_of k = prio_of (mkrn x)"
    using assms(3) by (auto simp: shrinks_def waiters_def)
  then show "mutex_ok (x\<lparr>mkrn := k\<rparr>)"
    using assms(1,2) by (auto simp: mutex_ok_def waiters_def split: option.splits)
  show "inherit_ok x \<Longrightarrow> inherit_ok (x\<lparr>mkrn := k\<rparr>)"
    using P by (auto simp: inherit_ok_def waiters_def sorted_filter)
qed


lemma take_returns:
  assumes "rt_mutex_take m time s = Some (m', k, Return r)"
  defines "c \<equiv> rt_current_thread s"
  shows "\<exists>e. k = upd_thread c (\<lambda>th. th\<lparr>error := e\<rparr>) s"
    "r = RT_EOK \<and> owner m = Some c \<and> hold m < 0xFF \<and> m' = m\<lparr>hold := hold m + 1\<rparr> \<or>
     r = RT_EOK \<and> owner m \<noteq> Some c \<and> 0 < mx_value m \<and> hold m < 0xFF \<and>
       m' = m\<lparr>mx_value := mx_value m - 1, owner := Some c,
              original_priority := current_priority (threads s c), hold := hold m + 1\<rparr> \<or>
     r \<noteq> RT_EOK \<and> (m' = m \<or> 0 < mx_value m \<and> \<not> hold m < 0xFF)"
proof -
  have u2: "upd_thread t (\<lambda>th. th\<lparr>error := e'\<rparr>) (upd_thread t (\<lambda>th. th\<lparr>error := e\<rparr>) s) =
      upd_thread t (\<lambda>th. th\<lparr>error := e'\<rparr>) s" for t e e'
    by (simp add: upd_thread_def)
  show "\<exists>e. k = upd_thread c (\<lambda>th. th\<lparr>error := e\<rparr>) s"
    using assms(1) by (auto simp: rt_mutex_take_def Let_def u2 c_def bind_eq_Some_conv split: if_splits)
  show "r = RT_EOK \<and> owner m = Some c \<and> hold m < 0xFF \<and> m' = m\<lparr>hold := hold m + 1\<rparr> \<or>
     r = RT_EOK \<and> owner m \<noteq> Some c \<and> 0 < mx_value m \<and> hold m < 0xFF \<and>
       m' = m\<lparr>mx_value := mx_value m - 1, owner := Some c,
              original_priority := current_priority (threads s c), hold := hold m + 1\<rparr> \<or>
     r \<noteq> RT_EOK \<and> (m' = m \<or> 0 < mx_value m \<and> \<not> hold m < 0xFF)"
    using assms(1)
    by (auto simp: rt_mutex_take_def Let_def c_def bind_eq_Some_conv RT_MUTEX_HOLD_MAX_def rt_err_defs
        split: if_splits)
qed

lemma take_blocks:
  assumes "rt_mutex_take m time s = Some (m', k, Blocked)"
  obtains ow where "m' = m" "owner m = Some ow" "ow \<noteq> rt_current_thread s" "\<not> 0 < mx_value m"
    "mutex_wait m (rt_current_thread s) ow time (upd_thread (rt_current_thread s) (\<lambda>th. th\<lparr>error := RT_EOK\<rparr>) s) = Some k"
  using assms by (auto simp: rt_mutex_take_def Let_def bind_eq_Some_conv split: if_splits)

lemma hold_succ: "(h :: u8) < 0xFF \<Longrightarrow> unat (h + 1) = unat h + 1"
  by (subst unat_plus_simple [THEN iffD1]) (auto simp: word_less_nat_alt word_le_nat_alt unat_word_ariths)

lemma step_take_now:
  assumes "running x" "rt_mutex_take (mtx x) time (mkrn x) = Some (m, k, Return r)" "mutex_ok x"
  defines "x' \<equiv> x\<lparr>mtx := m, mkrn := k, taken := count (if r = RT_EOK then Some (runner x) else None) (taken x)\<rparr>"
  shows "mutex_ok x' \<and> (inherit_ok x \<longrightarrow> inherit_ok x')"
proof -
  note r = take_returns [OF assms(2), folded runner_def]
  obtain e where e: "k = upd_thread (runner x) (\<lambda>th. th\<lparr>error := e\<rparr>) (mkrn x)" using r(1) by blast
  have inv: "sched_inv (mkrn x)" using assms(3) by (simp add: mutex_ok_def)
  note k = error_only [OF inv e]
  have p: "unat (current_priority (threads (mkrn x) (runner x))) < 32"
    using running_prio [OF inv] assms(1) by (simp add: running_def)
  have w: "runner x \<notin> set (waiters x)"
    using not_waiting [OF sched_invD(2) [OF inv], of "runner x"] assms(1) by (auto simp: running_def waiters_def)
  have c: "count (Some t) f = f(t := Suc (f t))" "count None f = f" for t f by (simp_all add: count_def)
  show ?thesis
  proof (cases "owner (mtx x)")
    case None
    then have n: "mx_value (mtx x) = 1" "hold (mtx x) = 0" "waiters x = []" "taken x = given x"
      using assms(3) by (auto simp: mutex_ok_def)
    have "mutex_ok x'" "waiters x' = []"
      using r(2) n None k p c by (auto simp: x'_def mutex_ok_def waiters_def)
    then show ?thesis by (simp add: inherit_ok_def)
  next
    case (Some ow)
    then have n: "mx_value (mtx x) = 0" "0 < unat (hold (mtx x))" "unat (original_priority (mtx x)) < 32"
      "ow \<notin> set (waiters x)" "taken x = (given x)(ow := given x ow + unat (hold (mtx x)))"
      using assms(3) by (auto simp: mutex_ok_def)
    then consider "r = RT_EOK" "ow = runner x" "hold (mtx x) < 0xFF" "m = mtx x\<lparr>hold := hold (mtx x) + 1\<rparr>"
      | "r \<noteq> RT_EOK" "m = mtx x" using r(2) Some by auto
    then show ?thesis
    proof cases
      case 1
      then have "mutex_ok x'" using n Some k hold_succ [OF 1(3)] c by (auto simp: x'_def mutex_ok_def waiters_def)
      moreover have "inherit_ok x \<Longrightarrow> inherit_ok x'" using 1 Some k by (auto simp: x'_def inherit_ok_def waiters_def)
      ultimately show ?thesis by blast
    next
      case 2
      then have "x' = x\<lparr>mkrn := k\<rparr>" by (simp add: x'_def c)
      moreover have "shrinks (mx_queue (mtx x)) (mkrn x) k" using k by blast
      ultimately show ?thesis using kernel_only [OF assms(3) k(1)] by simp
    qed
  qed
qed

lemma step_take_block:
  assumes "running x" "rt_mutex_take (mtx x) time (mkrn x) = Some (m, k, Blocked)" "mutex_ok x"
  defines "x' \<equiv> x\<lparr>mtx := m, mkrn := k\<rparr>"
  shows "mutex_ok x' \<and> (inherit_ok x \<longrightarrow> inherit_ok x')"
proof -
  obtain ow where b: "m = mtx x" "owner (mtx x) = Some ow" "ow \<noteq> runner x"
    "mutex_wait (mtx x) (runner x) ow time (upd_thread (runner x) (\<lambda>th. th\<lparr>error := RT_EOK\<rparr>) (mkrn x)) = Some k"
    using take_blocks [OF assms(2)] unfolding runner_def by blast
  have inv: "sched_inv (mkrn x)" using assms(3) by (simp add: mutex_ok_def)
  note u = error_only [OF inv refl, where t = "runner x" and e = RT_EOK]
  have run: "status_of (upd_thread (runner x) (\<lambda>th. th\<lparr>error := RT_EOK\<rparr>) (mkrn x)) (runner x) = RT_THREAD_RUNNING"
    using assms(1) u(5) by (simp add: running_def)
  note w = mutex_wait_facts [OF u(1) _ run b(4), unfolded u(2-4), folded runner_def, OF refl]
  obtain P where P: "suspend_lists k (mx_queue (mtx x)) = filter P (prio_insert (prio_of k) (runner x) (waiters x))"
    using w(3) unfolding waiters_def by blast
  have n: "ow \<notin> set (waiters x)" using assms(3) b(2) by (auto simp: mutex_ok_def)
  have "mutex_ok x'"
    using assms(3) b(1-3) w(1) P n by (auto simp: x'_def mutex_ok_def waiters_def)
  moreover have "inherit_ok x'" if h: "inherit_ok x"
  proof -
    have same: "prio_of k u = prio_of (mkrn x) u" if "u \<noteq> ow" for u using w(2) that by simp
    have "map (prio_of k) (waiters x) = map (prio_of (mkrn x)) (waiters x)" using n by (auto intro!: same)
    then have "sorted (map (prio_of k) (waiters x))" using h by (simp only: inherit_ok_def)
    then have s: "sorted (map (prio_of k) (prio_insert (prio_of k) (runner x) (waiters x)))"
      by (rule sorted_prio_insert)
    have le: "prio_of k ow \<le> prio_of k u" if "u \<in> insert (runner x) (set (waiters x))" for u
    proof -
      have "u \<noteq> ow" using that n b(3) by auto
      then show ?thesis using that h b(2) w(2) by (auto simp: inherit_ok_def)
    qed
    show ?thesis
      using s le b(1,2) P by (auto simp: x'_def inherit_ok_def waiters_def sorted_filter)
  qed
  ultimately show ?thesis by blast
qed


text \<open>The release, by whether the caller owns the mutex and holds it more than once.\<close>

lemma restore_facts:
  assumes "sched_inv s" "unat (original_priority m) < 32"
  shows "sched_inv (mutex_restore m t s)" "rt_current_thread (mutex_restore m t s) = rt_current_thread s"
    "suspend_lists (mutex_restore m t s) q = suspend_lists s q"
    "prio_of (mutex_restore m t s) = (prio_of s)(t := unat (original_priority m))"
  using assms
  by (auto simp: mutex_restore_def sched_inv_change_priority change_priority_lists fun_eq_iff prio_of_def
      simp flip: prio_of_def)

lemma release_cases:
  assumes "rt_mutex_release m s = (m', k, r)"
  defines "c \<equiv> rt_current_thread s"
  obtains (other) "owner m \<noteq> Some c" "m' = m" "r \<noteq> RT_EOK" "k = upd_thread c (\<lambda>th. th\<lparr>error := - RT_ERROR\<rparr>) s"
  | (inner) "owner m = Some c" "hold m - 1 \<noteq> 0" "m' = m\<lparr>hold := hold m - 1\<rparr>" "k = s" "r = RT_EOK"
  | (last) "owner m = Some c" "hold m = 1" "mutex_hand_on (m\<lparr>hold := 0\<rparr>) (mutex_restore m c s) = (m', k, r)"
proof -
  have "mutex_restore (m\<lparr>hold := h\<rparr>) t s = mutex_restore m t s" for h t by (simp add: mutex_restore_def)
  then show thesis
    using assms(1) other inner last
    by (auto simp: rt_mutex_release_def c_def Let_def rt_err_defs split: if_splits)
qed

lemma hand_on_free:
  assumes "suspend_lists s (mx_queue m) = []" "mx_value m = 0"
  shows "mutex_hand_on m s = (m\<lparr>mx_value := 1, owner := None, original_priority := 0xFF\<rparr>, s, RT_EOK)"
  using assms by (simp add: mutex_hand_on_def RT_MUTEX_VALUE_MAX_def)

lemma hand_on_waiting:
  assumes "sched_inv s" "suspend_lists s (mx_queue m) = t # ts" "hold m = 0"
  obtains k where "mutex_hand_on m s = (m\<lparr>owner := Some t, original_priority := current_priority (threads s t), hold := 1\<rparr>, k, RT_EOK)"
    "sched_inv k" "prio_of k = prio_of s" "suspend_lists k (mx_queue m) = ts"
proof -
  let ?r = "ipc_list_resume (mx_queue m) s"
  note f = ipc_resume_facts [OF assms(1,2)]
  have p: "prio_of ?r = prio_of s" by (simp add: fun_eq_iff ipc_list_resume_def resume_sel)
  show thesis
    by (rule that [of "rt_schedule ?r"])
      (use assms(2,3) f p in \<open>simp_all add: mutex_hand_on_def RT_MUTEX_HOLD_MAX_def sched_inv_schedule
        schedule_suspend_lists fun_eq_iff\<close>)
qed

lemma step_release:
  assumes "running x" "rt_mutex_release (mtx x) (mkrn x) = (m, k, r)" "mutex_ok x"
  defines "x' \<equiv> x\<lparr>mtx := m, mkrn := k,
       taken := count (if owner m = owner (mtx x) then None else owner m) (taken x),
       given := count (if r = RT_EOK then Some (runner x) else None) (given x)\<rparr>"
  shows "mutex_ok x' \<and> (inherit_ok x \<longrightarrow> inherit_ok x')"
proof -
  have inv: "sched_inv (mkrn x)" using assms(3) by (simp add: mutex_ok_def)
  have c: "count (Some t) f = f(t := Suc (f t))" "count None f = f" for t f by (simp_all add: count_def)
  from assms(2) show ?thesis
  proof (cases rule: release_cases)
    case other
    note k = error_only [OF inv other(4)]
    have "x' = x\<lparr>mkrn := k\<rparr>" using other by (simp add: x'_def c)
    moreover have "shrinks (mx_queue (mtx x)) (mkrn x) k" using k by blast
    ultimately show ?thesis using kernel_only [OF assms(3) k(1)] by simp
  next
    case inner
    have n: "mx_value (mtx x) = 0" "0 < unat (hold (mtx x))" "unat (original_priority (mtx x)) < 32"
      "runner x \<notin> set (waiters x)" "taken x = (given x)(runner x := given x (runner x) + unat (hold (mtx x)))"
      using assms(3) inner(1) by (auto simp: mutex_ok_def runner_def)
    have "unat (hold (mtx x) - 1) = unat (hold (mtx x)) - 1" using n(2) by (simp add: unat_minus_one unat_gt_0)
    moreover have "0 < unat (hold (mtx x) - 1)" using inner(2) by (simp add: unat_gt_0)
    ultimately have "mutex_ok x'"
      using n inner c inv by (auto simp: x'_def mutex_ok_def waiters_def runner_def fun_eq_iff)
    moreover have "inherit_ok x \<Longrightarrow> inherit_ok x'" using inner by (simp add: x'_def inherit_ok_def waiters_def)
    ultimately show ?thesis by blast
  next
    case last
    have n: "mx_value (mtx x) = 0" "unat (original_priority (mtx x)) < 32"
      "runner x \<notin> set (waiters x)" "taken x = (given x)(runner x := Suc (given x (runner x)))"
      using assms(3) last(1,2) by (auto simp: mutex_ok_def runner_def)
    let ?m = "mtx x\<lparr>hold := 0\<rparr>" and ?s = "mutex_restore (mtx x) (runner x) (mkrn x)"
    note s = restore_facts [OF inv n(2), of "runner x"]
    have h: "mutex_hand_on ?m ?s = (m, k, r)" using last(3) by (simp add: runner_def)
    show ?thesis
    proof (cases "waiters x")
      case Nil
      then have "mutex_hand_on ?m ?s = (?m\<lparr>mx_value := 1, owner := None, original_priority := 0xFF\<rparr>, ?s, RT_EOK)"
        using n(1) s(3) by (intro hand_on_free) (simp_all add: waiters_def)
      then have "x' = x\<lparr>mtx := ?m\<lparr>mx_value := 1, owner := None, original_priority := 0xFF\<rparr>, mkrn := ?s,
          given := (given x)(runner x := Suc (given x (runner x)))\<rparr>"
        using h last(1) by (simp add: x'_def c)
      then show ?thesis using n s Nil by (simp add: mutex_ok_def inherit_ok_def waiters_def)
    next
      case (Cons t ts)
      obtain k' where k': "mutex_hand_on ?m ?s = (?m\<lparr>owner := Some t, original_priority := current_priority (threads ?s t), hold := 1\<rparr>, k', RT_EOK)"
        "sched_inv k'" "prio_of k' = prio_of ?s" "suspend_lists k' (mx_queue ?m) = ts"
        by (rule hand_on_waiting [of ?s ?m t ts]) (use s(1,3) Cons in \<open>auto simp: waiters_def\<close>)
      have d: "t \<notin> set ts" "t \<noteq> runner x" "runner x \<notin> set ts"
        using sched_invD(2) [OF inv] Cons n(3) unfolding waits_ok_def waiters_def by (metis distinct.simps(2), auto)
      have x': "x' = x\<lparr>mtx := ?m\<lparr>owner := Some t, original_priority := current_priority (threads ?s t), hold := 1\<rparr>,
          mkrn := k', taken := (taken x)(t := Suc (taken x t)),
          given := (given x)(runner x := Suc (given x (runner x)))\<rparr>"
        using h k'(1) last(1) d(2) by (simp add: x'_def c runner_def)
      have st: "status_of (mkrn x) t = RT_THREAD_SUSPEND"
        using waiting_status [OF sched_invD(2) [OF inv], of t "mx_queue (mtx x)"] Cons by (simp add: waiters_def)
      have pt: "unat (current_priority (threads ?s t)) < 32"
        using sched_invD(6) [OF inv, of t] st s(4) d(2) by (simp add: prio_ok_def fun_eq_iff prio_of_def)
      have "mutex_ok x'"
        using n k' d pt unfolding x' by (auto simp: mutex_ok_def waiters_def fun_eq_iff)
      moreover have "inherit_ok x'" if i: "inherit_ok x"
      proof -
        have same: "prio_of k' u = prio_of (mkrn x) u" if "u \<noteq> runner x" for u using k'(3) s(4) that by simp
        have eq: "map (prio_of k') ts = map (prio_of (mkrn x)) ts" using d(3) by (auto intro!: same)
        have st: "sorted (map (prio_of (mkrn x)) (t # ts))" using i Cons by (simp add: inherit_ok_def)
        then have "sorted (map (prio_of (mkrn x)) ts)" by simp
        then have "sorted (map (prio_of k') ts)" by (simp only: eq)
        moreover have "prio_of k' t \<le> prio_of k' u" if "u \<in> set ts" for u
        proof -
          have "u \<noteq> runner x" using that d(3) by auto
          then show ?thesis using st that same d(2) by auto
        qed
        ultimately show ?thesis
          using k'(4) unfolding x' by (simp add: inherit_ok_def waiters_def)
      qed
      ultimately show ?thesis by blast
    qed
  qed
qed

lemma mutex_step_ok:
  assumes "mutex_step env x x'" "mutex_ok x"
  shows "mutex_ok x'" "(\<And>s k. env s k \<Longrightarrow> prio_of k = prio_of s) \<Longrightarrow> inherit_ok x \<Longrightarrow> inherit_ok x'"
proof -
  have "mutex_ok x' \<and> ((\<forall>s k. env s k \<longrightarrow> prio_of k = prio_of s) \<longrightarrow> inherit_ok x \<longrightarrow> inherit_ok x')"
    using assms(1)
  proof cases
    case (take_now time m k r)
    then show ?thesis using step_take_now assms(2) by blast
  next
    case (take_block time m k)
    then show ?thesis using step_take_block assms(2) by blast
  next
    case (release m k r)
    then show ?thesis using step_release assms(2) by blast
  next
    case (expire t k)
    have "sched_inv (mkrn x)" using assms(2) by (simp add: mutex_ok_def)
    then have "sched_inv k" "shrinks (mx_queue (mtx x)) (mkrn x) k"
      using expire(3) sched_inv_timeout shrinks_timeout by blast+
    then show ?thesis using kernel_only assms(2) expire(1) by blast
  next
    case (other k)
    have k: "sched_inv k" using sched_inv_step other(2) assms(2) by (auto simp: mutex_ok_def)
    then show ?thesis
      using assms(2) other by (auto simp: mutex_ok_def inherit_ok_def waiters_def split: option.splits)
  qed
  then show "mutex_ok x'" "(\<And>s k. env s k \<Longrightarrow> prio_of k = prio_of s) \<Longrightarrow> inherit_ok x \<Longrightarrow> inherit_ok x'"
    by blast+
qed

lemma mutex_reachable_ok:
  assumes "mutex_reachable env x0 x" "mutex_ok x0"
  shows "mutex_ok x" "(\<And>s k. env s k \<Longrightarrow> prio_of k = prio_of s) \<Longrightarrow> inherit_ok x0 \<Longrightarrow> inherit_ok x"
proof -
  have "mutex_ok x \<and> ((\<forall>s k. env s k \<longrightarrow> prio_of k = prio_of s) \<longrightarrow> inherit_ok x0 \<longrightarrow> inherit_ok x)"
    using assms by (induction rule: mutex_reachable.induct) (auto dest: mutex_step_ok)
  then show "mutex_ok x" "(\<And>s k. env s k \<Longrightarrow> prio_of k = prio_of s) \<Longrightarrow> inherit_ok x0 \<Longrightarrow> inherit_ok x"
    by blast+
qed


section \<open>Properties\<close>

definition mutex_start :: "nat \<Rightarrow> kernel \<Rightarrow> mutex_sys" where
  "mutex_start q s = \<lparr>mtx = rt_mutex_init q, mkrn = s, taken = (\<lambda>_. 0), given = (\<lambda>_. 0)\<rparr>"

lemma start_ok:
  "sched_inv s \<Longrightarrow> suspend_lists s q = [] \<Longrightarrow> mutex_ok (mutex_start q s) \<and> inherit_ok (mutex_start q s)"
  by (simp add: mutex_ok_def inherit_ok_def mutex_start_def rt_mutex_init_def waiters_def)

text \<open>A run of the kernel of three threads: thread 2 takes the mutex, thread 4 waits for it.\<close>

definition demo_urgent :: kernel where
  "demo_urgent = rt_schedule (rt_thread_change_priority 4 1 demo_kernel)"

lemma demo_urgent: "kernel_reachable demo_urgent" "rt_current_thread demo_urgent = 4"
  "status_of demo_urgent 4 = RT_THREAD_RUNNING" "suspend_lists demo_urgent 9 = []"
proof -
  have "kernel_reachable (rt_thread_change_priority 4 1 demo_kernel)"
    by (rule kernel_reachable.intros(2) [OF demo_reachable kernel_step.intros(8)]) simp
  then show "kernel_reachable demo_urgent"
    unfolding demo_urgent_def using kernel_reachable.intros(2) kernel_step.intros(1) by blast
qed code_simp+

text \<open>
  C4: mutual exclusion: whatever the threads do, how ever their takes, releases, timeouts and
  everything else the kernel does interleave, only one thread at a time holds the mutex (has
  had more takes granted than releases accepted), it is the owner, the excess is the count of
  holds, and nobody waits while nobody holds it.
\<close>

theorem mutex_excludes:
  assumes "mutex_reachable env (mutex_start q s) x" "kernel_reachable s" "suspend_lists s q = []"
  shows "(\<forall>t. given x t \<le> taken x t) \<and>
     (\<forall>t u. given x t < taken x t \<longrightarrow> given x u < taken x u \<longrightarrow> t = u) \<and>
     (\<forall>t. given x t < taken x t \<longrightarrow> owner (mtx x) = Some t \<and> unat (hold (mtx x)) = taken x t - given x t) \<and>
     ((\<forall>t. given x t = taken x t) \<longrightarrow> waiters x = [])"
proof -
  have "mutex_ok x" using mutex_reachable_ok(1) [OF assms(1)] start_ok reachable_inv assms(2,3) by blast
  then show ?thesis by (cases "owner (mtx x)") (auto simp: mutex_ok_def split: if_splits)
qed

theorem mutex_excludes_witness:
  "\<exists>m k (x :: mutex_sys). rt_mutex_take (rt_mutex_init 9) 0 demo_urgent = Some (m, k, Return RT_EOK) \<and>
     mtx x = m \<and> mkrn x = k \<and> taken x 4 = 1 \<and> (\<forall>u. u \<noteq> 4 \<longrightarrow> taken x u = given x u)"
proof -
  let ?start = "mutex_start 9 demo_urgent"
  obtain m k where t: "rt_mutex_take (rt_mutex_init 9) 0 demo_urgent = Some (m, k, Return RT_EOK)"
    by (simp add: rt_mutex_take_def rt_mutex_init_def RT_MUTEX_HOLD_MAX_def Let_def)
  let ?x = "?start\<lparr>mtx := m, mkrn := k, taken := count (Some (runner ?start)) (taken ?start)\<rparr>"
  have "running ?start" using demo_urgent(2,3) by (simp add: running_def runner_def mutex_start_def)
  moreover have "rt_mutex_take (mtx ?start) 0 (mkrn ?start) = Some (m, k, Return RT_EOK)"
    using t by (simp add: mutex_start_def)
  ultimately have "mutex_step (\<lambda>_ _. True) ?start ?x" using mutex_step.take_now [of ?start 0 m k RT_EOK] by simp
  then have reach: "mutex_reachable (\<lambda>_ _. True) ?start ?x" by (rule mutex_reachable.intros(2) [OF mutex_reachable.intros(1)])
  have "taken ?x 4 = 1" "given ?x 4 = 0" using demo_urgent(2) by (simp_all add: count_def runner_def mutex_start_def)
  then have "given ?x u < taken ?x u \<Longrightarrow> u = 4" for u
    using mutex_excludes [OF reach demo_urgent(1,4)] by (metis zero_less_one)
  then have "taken ?x u = given ?x u" if "u \<noteq> 4" for u
    using mutex_excludes [OF reach demo_urgent(1,4)] that by (metis le_neq_implies_less)
  then show ?thesis using t \<open>taken ?x 4 = 1\<close> by (intro exI [of _ m] exI [of _ k] exI [of _ ?x]) simp
qed

text \<open>
  C21: no priority inversion on one mutex: as long as nothing else changes priorities, the
  owner is at every moment at least as urgent as each thread that waits for it, and the
  waiting threads stand in the order of their priorities, so the most urgent is served next.
\<close>

theorem mutex_owner_inherits:
  assumes "mutex_reachable (\<lambda>s k. prio_of k = prio_of s) (mutex_start q s) x"
    and "kernel_reachable s" "suspend_lists s q = []"
    and "owner (mtx x) = Some ow" "u \<in> set (waiters x)"
  shows "prio_of (mkrn x) ow \<le> prio_of (mkrn x) u \<and> prio_of (mkrn x) (hd (waiters x)) \<le> prio_of (mkrn x) u"
proof -
  have i: "inherit_ok x" using mutex_reachable_ok(2) [OF assms(1)] start_ok reachable_inv assms(2,3) by blast
  then have "prio_of (mkrn x) (hd (waiters x)) \<le> prio_of (mkrn x) u"
    using assms(5) by (cases "waiters x") (auto simp: inherit_ok_def)
  then show ?thesis using i assms(4,5) by (simp add: inherit_ok_def)
qed

theorem mutex_owner_inherits_witness:
  "\<exists>x :: mutex_sys. owner (mtx x) = Some 3 \<and> waiters x = [4] \<and> prio_of (mkrn x) 4 = 1 \<and> prio_of (mkrn x) 3 \<le> 1 \<and>
     unat (original_priority (mtx x)) = 5"
proof -
  let ?env = "\<lambda>s k. prio_of k = prio_of s"
  define s1 where "s1 = rt_schedule (fst (rt_thread_suspend 4 demo_urgent))"
  define k1 where "k1 = upd_thread 3 (\<lambda>th. th\<lparr>error := RT_EOK\<rparr>) s1"
  define k2 where "k2 = rt_schedule (fst (rt_thread_resume 4 k1))"
  define k3 where "k3 = upd_thread 4 (\<lambda>th. th\<lparr>error := RT_EOK\<rparr>) k2"
  define k4 where "k4 = rt_schedule (ipc_list_suspend 9 4 RT_IPC_FLAG_PRIO (mutex_inherit 4 3 k3))"
  define m where "m = (rt_mutex_init 9)\<lparr>mx_value := 0, owner := Some 3, original_priority := current_priority (threads k1 3), hold := 1\<rparr>"
  define x0 where "x0 = mutex_start 9 s1"
  define x1 where "x1 = x0\<lparr>mtx := m, mkrn := k1, taken := count (Some 3) (taken x0)\<rparr>"
  define x2 where "x2 = x1\<lparr>mkrn := fst (rt_thread_resume 4 k1)\<rparr>"
  define x3 where "x3 = x2\<lparr>mkrn := k2\<rparr>"
  define x4 where "x4 = x3\<lparr>mtx := m, mkrn := k4\<rparr>"
  note ks = k4_def k3_def k2_def k1_def s1_def
  have v: "snd (rt_thread_suspend 4 demo_urgent) = RT_EOK" "rt_current_thread s1 = 3" "suspend_lists s1 9 = []"
    "status_of s1 3 = RT_THREAD_RUNNING" "rt_current_thread k2 = 4" "status_of k2 4 = RT_THREAD_RUNNING"
    "suspend_lists (fst (rt_thread_resume 4 k1)) 9 = []" "suspend_lists k2 9 = []" "suspend_lists k1 9 = []"
    "suspend_lists k4 9 = [4]" "prio_of k4 4 = 1" "unat (current_priority (threads k1 3)) = 5"
    unfolding ks by code_simp+
  have s1: "kernel_reachable s1"
    unfolding s1_def
    using kernel_reachable.intros(2) [OF demo_urgent(1) kernel_step.intros(2) [of demo_urgent]] demo_urgent(2) v(1)
    by (metis kernel_reachable.intros(2) kernel_step.intros(1))
  have t1: "rt_mutex_take (rt_mutex_init 9) 0 s1 = Some (m, k1, Return RT_EOK)"
    using v(2) by (simp add: rt_mutex_take_def rt_mutex_init_def RT_MUTEX_HOLD_MAX_def Let_def m_def k1_def)
  have t2: "rt_mutex_take m (- 1) k2 = Some (m, k4, Blocked)"
    using v(5) by (simp add: rt_mutex_take_def Let_def m_def mutex_wait_def k4_def k3_def rt_mutex_init_def)
  have 1: "mutex_step ?env x0 x1"
    using mutex_step.take_now [of x0 0 m k1 RT_EOK ?env] t1 v(2,4)
    by (simp add: running_def runner_def x0_def x1_def mutex_start_def)
  have 2: "mutex_step ?env x1 x2"
    unfolding x2_def using v(7,9)
    by (intro mutex_step.other) (auto simp: x1_def waiters_def m_def rt_mutex_init_def fun_eq_iff resume_sel
        intro: kernel_step.intros(3))
  have 3: "mutex_step ?env x2 x3"
    unfolding x3_def using v(7,8)
    by (intro mutex_step.other) (auto simp: x2_def x1_def waiters_def m_def rt_mutex_init_def fun_eq_iff k2_def
        intro: kernel_step.intros(1))
  have 4: "mutex_step ?env x3 x4"
    unfolding x4_def using t2 v(5,6)
    by (intro mutex_step.take_block) (auto simp: running_def runner_def x3_def x2_def x1_def)
  have reach: "mutex_reachable ?env (mutex_start 9 s1) x4"
    using 1 2 3 4 unfolding x0_def by (metis mutex_reachable.intros)
  have o: "owner (mtx x4) = Some 3" "waiters x4 = [4]" "prio_of (mkrn x4) 4 = 1" "unat (original_priority (mtx x4)) = 5"
    using v(10-12) by (simp_all add: x4_def m_def waiters_def rt_mutex_init_def)
  have "prio_of (mkrn x4) 3 \<le> prio_of (mkrn x4) 4"
    using mutex_owner_inherits [OF reach s1 v(3) o(1)] o(2) by simp
  then show ?thesis using o by auto
qed

text \<open>
  A boosted priority can stay for good. A thread took mutex \<open>a\<close> with priority \<open>p\<close>, was
  raised to \<open>q\<close> by a waiter that has since timed out, and still runs with \<open>q\<close>. If it takes \<open>b\<close>,
  releases \<open>a\<close> and then \<open>b\<close>, it falls back to \<open>p\<close> and rises to \<open>q\<close> again, and keeps \<open>q\<close> although
  it holds no mutex and nobody waits.
\<close>

theorem mutex_priority_leaks:
  assumes "kernel_reachable s" "c = rt_current_thread s" "status_of s c = RT_THREAD_RUNNING"
    and "owner a = Some c" "hold a = 1" "mx_value a = 0" "original_priority a = p" "suspend_lists s (mx_queue a) = []"
    and "owner b = None" "hold b = 0" "mx_value b = 1" "suspend_lists s (mx_queue b) = []"
    and "current_priority (threads s c) = q" "p \<noteq> q" "unat p < 32"
  shows "\<exists>b1 s1 a2 s2 b3 s3. rt_mutex_take b time s = Some (b1, s1, Return RT_EOK) \<and>
     rt_mutex_release a s1 = (a2, s2, RT_EOK) \<and> owner a2 = None \<and> current_priority (threads s2 c) = p \<and>
     rt_mutex_release b1 s2 = (b3, s3, RT_EOK) \<and> owner b3 = None \<and> current_priority (threads s3 c) = q"
proof -
  let ?s1 = "upd_thread c (\<lambda>th. th\<lparr>error := RT_EOK\<rparr>) s"
  let ?b1 = "b\<lparr>mx_value := 0, owner := Some c, original_priority := q, hold := 1\<rparr>"
  let ?s2 = "rt_thread_change_priority c p ?s1" and ?s3 = "rt_thread_change_priority c q (rt_thread_change_priority c p ?s1)"
  have inv: "sched_inv s" by (rule reachable_inv [OF assms(1)])
  note e = error_only [OF inv refl, where t = c and e = RT_EOK]
  have q32: "unat q < 32" using running_prio [OF inv assms(3)] assms(13) by simp
  note l = change_priority_lists [OF e(1)]
  have inv2: "sched_inv ?s2" by (rule sched_inv_change_priority [OF e(1) assms(15)])
  have cp: "current_priority (threads (rt_thread_change_priority t v r) t) = v" for t v r
    using change_priority_sel(2) [of t v r t] by (simp add: prio_of_def word_unat_eq_iff)
  have t: "rt_mutex_take b time s = Some (?b1, ?s1, Return RT_EOK)"
    using assms(2,9-11,13) by (simp add: rt_mutex_take_def Let_def RT_MUTEX_HOLD_MAX_def)
  have r1: "rt_mutex_release a ?s1 = (a\<lparr>hold := 0, mx_value := 1, owner := None, original_priority := 0xFF\<rparr>, ?s2, RT_EOK)"
    using assms e l hand_on_free [of ?s2 "a\<lparr>hold := 0\<rparr>"]
    by (simp add: rt_mutex_release_def Let_def mutex_restore_def)
  have r2: "rt_mutex_release ?b1 ?s2 = (?b1\<lparr>hold := 0, mx_value := 1, owner := None, original_priority := 0xFF\<rparr>, ?s3, RT_EOK)"
    using assms e l cp change_priority_lists [OF inv2] hand_on_free [of ?s3 "?b1\<lparr>hold := 0\<rparr>"]
    by (simp add: rt_mutex_release_def Let_def mutex_restore_def)
  show ?thesis using t r1 r2 cp by auto
qed

theorem mutex_priority_leaks_witness:
  "\<exists>b3 s3. current_priority (threads demo_urgent 4) = 1 \<and>
     rt_mutex_release ((rt_mutex_init 8)\<lparr>mx_value := 0, owner := Some 4, original_priority := 1, hold := 1\<rparr>)
       (rt_thread_change_priority 4 6 (upd_thread 4 (\<lambda>th. th\<lparr>error := RT_EOK\<rparr>) demo_urgent)) = (b3, s3, RT_EOK) \<and>
     owner b3 = None \<and> current_priority (threads s3 4) = 1"
proof -
  let ?a = "(rt_mutex_init 9)\<lparr>mx_value := 0, owner := Some 4, original_priority := 6, hold := 1\<rparr>"
  have v: "suspend_lists demo_urgent 8 = []" "current_priority (threads demo_urgent 4) = 1" by code_simp+
  have t: "rt_mutex_take (rt_mutex_init 8) 0 demo_urgent =
      Some ((rt_mutex_init 8)\<lparr>mx_value := 0, owner := Some 4, original_priority := 1, hold := 1\<rparr>,
            upd_thread 4 (\<lambda>th. th\<lparr>error := RT_EOK\<rparr>) demo_urgent, Return RT_EOK)"
    using demo_urgent(2) v(2) by (simp add: rt_mutex_take_def rt_mutex_init_def RT_MUTEX_HOLD_MAX_def Let_def)
  have r: "snd (rt_mutex_release ?a (upd_thread 4 (\<lambda>th. th\<lparr>error := RT_EOK\<rparr>) demo_urgent)) =
      (rt_thread_change_priority 4 6 (upd_thread 4 (\<lambda>th. th\<lparr>error := RT_EOK\<rparr>) demo_urgent), RT_EOK)"
    using demo_urgent v change_priority_lists [OF error_only(1) [OF reachable_inv [OF demo_urgent(1)] refl], of 4 6 4 RT_EOK]
    by (simp add: rt_mutex_release_def mutex_restore_def mutex_hand_on_def rt_mutex_init_def RT_MUTEX_VALUE_MAX_def Let_def)
  have "\<exists>b1 s1 a2 s2 b3 s3. rt_mutex_take (rt_mutex_init 8) 0 demo_urgent = Some (b1, s1, Return RT_EOK) \<and>
     rt_mutex_release ?a s1 = (a2, s2, RT_EOK) \<and> owner a2 = None \<and> current_priority (threads s2 4) = 6 \<and>
     rt_mutex_release b1 s2 = (b3, s3, RT_EOK) \<and> owner b3 = None \<and> current_priority (threads s3 4) = 1"
    by (rule mutex_priority_leaks [OF demo_urgent(1)]) (use demo_urgent v in \<open>simp_all add: rt_mutex_init_def\<close>)
  then show ?thesis using t r v(2) by auto
qed

end
