(* ===== verification/Event.thy ===== *)
theory Event
  imports IpcFrame
begin

text \<open>
  Event sets of \<open>src/rt-thread/src/ipc.c\<close>: a thread waits until all (AND) or some (OR) of the
  flags it names are set. The pointer for the received set is never null, so a call that
  succeeds also returns the set. \<open>None\<close>: an assertion fails.
\<close>

section \<open>State and operations\<close>

record rt_event =
  ev_set :: u32
  ev_flag :: ipc_flag
  ev_queue :: nat

definition RT_EVENT_FLAG_AND :: u8 where "RT_EVENT_FLAG_AND = 0x01"
definition RT_EVENT_FLAG_OR :: u8 where "RT_EVENT_FLAG_OR = 0x02"
definition RT_EVENT_FLAG_CLEAR :: u8 where "RT_EVENT_FLAG_CLEAR = 0x04"

definition rt_event_init :: "nat \<Rightarrow> ipc_flag \<Rightarrow> rt_event" where
  "rt_event_init q fl = \<lparr>ev_set = 0, ev_flag = fl, ev_queue = q\<rparr>"

definition rt_event_detach :: "rt_event \<Rightarrow> kernel \<Rightarrow> kernel" where
  "rt_event_detach ev s = ipc_list_resume_all (ev_queue ev) s"

text \<open>\<open>created\<close>: whether \<open>rt_object_allocate\<close> finds memory.\<close>

definition rt_event_create :: "bool \<Rightarrow> nat \<Rightarrow> ipc_flag \<Rightarrow> rt_event option" where
  "rt_event_create created q fl =
     (if created then Some \<lparr>ev_set = 0, ev_flag = fl, ev_queue = q\<rparr> else None)"

definition rt_event_delete :: "rt_event \<Rightarrow> kernel \<Rightarrow> kernel" where
  "rt_event_delete ev s = ipc_list_resume_all (ev_queue ev) s"

text \<open>The tests of \<open>rt_event_send\<close> on one waiting thread; \<open>None\<close>: neither AND nor OR.\<close>

definition event_match :: "u32 \<Rightarrow> tid \<Rightarrow> kernel \<Rightarrow> (bool \<times> kernel) option" where
  "event_match flags t s =
     (let th = threads s t
      in if event_info th AND RT_EVENT_FLAG_AND \<noteq> 0 then
           Some (event_set th AND flags = event_set th, s)
         else if event_info th AND RT_EVENT_FLAG_OR \<noteq> 0 then
           if event_set th AND flags \<noteq> 0
           then Some (True, upd_thread t (\<lambda>th. th\<lparr>event_set := event_set th AND flags\<rparr>) s)
           else Some (False, s)
         else None)"

text \<open>
  The loop over the waiting threads, with the flag \<open>need_schedule\<close>; the last component is
  whether it ran to the end.
\<close>

fun event_wake_loop :: "tid list \<Rightarrow> rt_event \<Rightarrow> kernel \<Rightarrow> bool \<Rightarrow> rt_event \<times> kernel \<times> bool \<times> bool" where
  "event_wake_loop [] ev s need = (ev, s, need, True)"
| "event_wake_loop (t # ts) ev s need =
     (case event_match (ev_set ev) t s of
        None \<Rightarrow> (ev, s, need, False)
      | Some (False, s) \<Rightarrow> event_wake_loop ts ev s need
      | Some (True, s) \<Rightarrow>
          (let th = threads s t;
               ev = (if event_info th AND RT_EVENT_FLAG_CLEAR \<noteq> 0
                     then ev\<lparr>ev_set := ev_set ev AND NOT (event_set th)\<rparr> else ev)
           in event_wake_loop ts ev (fst (rt_thread_resume t s)) True))"

definition rt_event_send :: "rt_event \<Rightarrow> u32 \<Rightarrow> kernel \<Rightarrow> rt_event \<times> kernel \<times> int" where
  "rt_event_send ev flags s =
     (if flags = 0 then (ev, s, - RT_ERROR)
      else
        let ev = ev\<lparr>ev_set := ev_set ev OR flags\<rparr>;
            (ev, s, need, finished) = event_wake_loop (suspend_lists s (ev_queue ev)) ev s False
        in if \<not> finished then (ev, s, - RT_EINVAL)
           else (ev, if need then rt_schedule s else s, RT_EOK))"

definition event_ready :: "rt_event \<Rightarrow> u32 \<Rightarrow> u8 \<Rightarrow> bool option" where
  "event_ready ev flags opt =
     (if opt AND RT_EVENT_FLAG_AND \<noteq> 0 then Some (ev_set ev AND flags = flags)
      else if opt AND RT_EVENT_FLAG_OR \<noteq> 0 then Some (ev_set ev AND flags \<noteq> 0)
      else None)"

definition event_wait ::
    "rt_event \<Rightarrow> u32 \<Rightarrow> u8 \<Rightarrow> int \<Rightarrow> kernel \<Rightarrow> kernel option" where
  "event_wait ev flags opt timeout s =
     (let t = rt_current_thread s;
          s = upd_thread t (\<lambda>th. th\<lparr>event_set := flags, event_info := opt\<rparr>) s;
          s = ipc_list_suspend (ev_queue ev) t (ev_flag ev) s
      in map_option rt_schedule
           (if 0 < timeout then start_thread_timer t (word_of_int timeout) s else Some s))"

definition rt_event_recv ::
    "rt_event \<Rightarrow> u32 \<Rightarrow> u8 \<Rightarrow> int \<Rightarrow> kernel \<Rightarrow> (rt_event \<times> kernel \<times> (int \<times> u32 option) outcome) option" where
  "rt_event_recv ev flags opt timeout s =
     (if flags = 0 then Some (ev, s, Return (- RT_ERROR, None))
      else
        let t = rt_current_thread s;
            s = upd_thread t (\<lambda>th. th\<lparr>error := RT_EOK\<rparr>) s
        in case event_ready ev flags opt of
             None \<Rightarrow> None
           | Some True \<Rightarrow>
               (let got = ev_set ev AND flags;
                    s = upd_thread t (\<lambda>th. th\<lparr>event_set := got, event_info := opt\<rparr>) s;
                    ev = (if opt AND RT_EVENT_FLAG_CLEAR \<noteq> 0
                          then ev\<lparr>ev_set := ev_set ev AND NOT flags\<rparr> else ev)
                in Some (ev, s, Return (error (threads s t), Some got)))
           | Some False \<Rightarrow>
               if timeout = 0
               then Some (ev, upd_thread t (\<lambda>th. th\<lparr>error := - RT_ETIMEOUT\<rparr>) s, Return (- RT_ETIMEOUT, None))
               else map_option (\<lambda>s. (ev, s, Blocked)) (event_wait ev flags opt timeout s))"

definition rt_event_recv_resumed :: "tid \<Rightarrow> kernel \<Rightarrow> int \<times> u32 option" where
  "rt_event_recv_resumed t s =
     (let th = threads s t
      in if error th \<noteq> RT_EOK then (error th, None) else (error th, Some (event_set th)))"

definition rt_event_control :: "rt_event \<Rightarrow> bool \<Rightarrow> kernel \<Rightarrow> rt_event \<times> kernel \<times> int" where
  "rt_event_control ev reset s =
     (if reset then (ev\<lparr>ev_set := 0\<rparr>, rt_schedule (ipc_list_resume_all (ev_queue ev) s), RT_EOK)
      else (ev, s, - RT_ERROR))"

lemma event_gone_fails_waiters:
  assumes "sched_inv s" "t \<in> set (suspend_lists s (ev_queue ev))"
  shows "rt_event_recv_resumed t (rt_event_delete ev s) = (- RT_ERROR, None)"
    and "rt_event_recv_resumed t (rt_event_detach ev s) = (- RT_ERROR, None)"
  using resume_all_error [OF assms]
  by (simp_all add: rt_event_recv_resumed_def rt_event_delete_def rt_event_detach_def rt_err_defs Let_def)

section \<open>No wake-up is lost\<close>

text \<open>
  An event set in its kernel. \<open>event_step\<close>: the calls of the running thread or an interrupt,
  the timeouts of waiting threads, and everything else the kernel does that leaves the
  suspend list and what the waiting threads wait for alone.
\<close>

definition wants :: "u32 \<times> u8 \<Rightarrow> u32 \<Rightarrow> bool" where
  "wants w flags =
     (if snd w AND RT_EVENT_FLAG_AND \<noteq> 0 then fst w AND flags = fst w else fst w AND flags \<noteq> 0)"

definition wish_ok :: "u32 \<times> u8 \<Rightarrow> bool" where
  "wish_ok w \<longleftrightarrow> snd w AND RT_EVENT_FLAG_AND \<noteq> 0 \<or> snd w AND RT_EVENT_FLAG_OR \<noteq> 0"

inductive event_step :: "rt_event \<times> kernel \<Rightarrow> rt_event \<times> kernel \<Rightarrow> bool" where
  recv: "status_of s (rt_current_thread s) = RT_THREAD_RUNNING \<Longrightarrow>
     rt_event_recv ev flags opt timeout s = Some (ev', s', r) \<Longrightarrow> event_step (ev, s) (ev', s')"
| send: "rt_event_send ev flags s = (ev', s', r) \<Longrightarrow> event_step (ev, s) (ev', s')"
| control: "rt_event_control ev reset s = (ev', s', r) \<Longrightarrow> event_step (ev, s) (ev', s')"
| expire: "t \<in> set (suspend_lists s (ev_queue ev)) \<Longrightarrow> thread_timeout t s = Some s' \<Longrightarrow>
     event_step (ev, s) (ev, s')"
| other: "kernel_step s s' \<Longrightarrow> suspend_lists s' (ev_queue ev) = suspend_lists s (ev_queue ev) \<Longrightarrow>
     \<forall>t \<in> set (suspend_lists s (ev_queue ev)). wish s' t = wish s t \<Longrightarrow> event_step (ev, s) (ev, s')"

inductive event_reachable :: "rt_event \<times> kernel \<Rightarrow> rt_event \<times> kernel \<Rightarrow> bool" for x0 where
  "event_reachable x0 x0"
| "event_reachable x0 x \<Longrightarrow> event_step x x' \<Longrightarrow> event_reachable x0 x'"

definition event_ok :: "rt_event \<times> kernel \<Rightarrow> bool" where
  "event_ok = (\<lambda>(ev, s). sched_inv s \<and>
     (\<forall>t \<in> set (suspend_lists s (ev_queue ev)). wish_ok (wish s t) \<and> \<not> wants (wish s t) (ev_set ev)))"

lemma wants_less: "wants w (a AND b) \<Longrightarrow> wants w a"
proof (rule ccontr)
  assume w: "wants w (a AND b)" and n: "\<not> wants w a"
  show False
  proof (cases "snd w AND RT_EVENT_FLAG_AND \<noteq> 0")
    case True
    then have e: "fst w AND (a AND b) = fst w" using w by (simp add: wants_def)
    have "fst w AND a = (fst w AND (a AND b)) AND a" by (simp only: e)
    also have "\<dots> = fst w AND (a AND b)" by (simp add: ac_simps)
    finally have "fst w AND a = fst w" by (simp only: e)
    then show False using n True by (simp add: wants_def)
  next
    case False
    then show False using w n by (simp add: wants_def flip: and.assoc)
  qed
qed

lemma event_ok_shrinks:
  assumes "event_ok (ev, s)" "sched_inv s'" "shrinks (ev_queue ev) s s'"
  shows "event_ok (ev, s')"
proof -
  obtain P where "suspend_lists s' (ev_queue ev) = filter P (suspend_lists s (ev_queue ev))" "\<forall>t. wish s' t = wish s t"
    using assms(3) by (auto simp: shrinks_def)
  then show ?thesis using assms(1,2) by (simp add: event_ok_def)
qed

lemma match_cases:
  assumes "wish_ok (wish s t)"
  obtains (no) "event_match flags t s = Some (False, s)" "\<not> wants (wish s t) flags"
  | (yes) s1 w where "event_match flags t s = Some (True, s1)" "wants (wish s t) flags"
      "s1 = s \<or> s1 = upd_thread t (\<lambda>th. th\<lparr>event_set := w\<rparr>) s"
proof -
  let ?th = "threads s t"
  have u: "upd_thread t (\<lambda>th. th\<lparr>event_set := event_set th AND flags\<rparr>) s =
      upd_thread t (\<lambda>th. th\<lparr>event_set := event_set ?th AND flags\<rparr>) s"
    by (simp add: upd_thread_def)
  consider (a) "event_info ?th AND RT_EVENT_FLAG_AND \<noteq> 0"
    | (o) "event_info ?th AND RT_EVENT_FLAG_AND = 0" "event_info ?th AND RT_EVENT_FLAG_OR \<noteq> 0"
    using assms by (auto simp: wish_ok_def)
  then show thesis
  proof cases
    case a
    show thesis
    proof (cases "event_set ?th AND flags = event_set ?th")
      case True
      show thesis by (rule yes [of s]) (use a True in \<open>simp_all add: event_match_def wants_def Let_def\<close>)
    next
      case False
      show thesis by (rule no) (use a False in \<open>simp_all add: event_match_def wants_def Let_def\<close>)
    qed
  next
    case o
    show thesis
    proof (cases "event_set ?th AND flags \<noteq> 0")
      case True
      show thesis
        by (rule yes [OF _ _ disjI2 [OF u]]) (use o True in \<open>simp_all add: event_match_def wants_def Let_def\<close>)
    next
      case False
      show thesis by (rule no) (use o False in \<open>simp_all add: event_match_def wants_def Let_def\<close>)
    qed
  qed
qed

lemma resume_waiter:
  assumes inv: "sched_inv s" and t: "t \<in> set (suspend_lists s q)" and e: "s1 = s \<or> s1 = upd_thread t (\<lambda>th. th\<lparr>event_set := w\<rparr>) s"
  defines "s2 \<equiv> fst (rt_thread_resume t s1)"
  shows "sched_inv s2" "suspend_lists s2 q = removeAll t (suspend_lists s q)" "u \<noteq> t \<Longrightarrow> wish s2 u = wish s u"
proof -
  have 1: "sched_inv s1" "suspend_lists s1 = suspend_lists s" "status_of s1 t = status_of s t" "u \<noteq> t \<Longrightarrow> wish s1 u = wish s u"
    using e inv by (auto simp: status_of_def intro!: sched_inv_upd [OF inv])
  show "sched_inv s2" unfolding s2_def by (rule sched_inv_resume [OF 1(1)])
  show "suspend_lists s2 q = removeAll t (suspend_lists s q)"
    using waiting_status [OF sched_invD(2) [OF inv] t] 1 by (simp add: s2_def resume_sel)
  show "u \<noteq> t \<Longrightarrow> wish s2 u = wish s u" using 1(4) wish_resume [of t s1 u] by (simp add: s2_def)
qed

text \<open>
  The loop over the threads \<open>ts\<close>, when those of the list that it has passed do not want the
  events that are set.
\<close>

lemma wake_loop_ok:
  assumes "sched_inv s" "distinct ts" "set ts \<subseteq> set (suspend_lists s (ev_queue ev))"
    and "\<forall>t \<in> set (suspend_lists s (ev_queue ev)). wish_ok (wish s t)"
    and "\<forall>t \<in> set (suspend_lists s (ev_queue ev)) - set ts. \<not> wants (wish s t) (ev_set ev)"
    and "event_wake_loop ts ev s need = (ev', s', need', fin)"
  shows "event_ok (ev', s') \<and> fin \<and> ev_queue ev' = ev_queue ev"
  using assms
proof (induction ts arbitrary: ev s need)
  case Nil
  then show ?case by (auto simp: event_ok_def)
next
  case (Cons t ts)
  let ?q = "ev_queue ev" and ?ws = "suspend_lists s (ev_queue ev)"
  have t: "t \<in> set ?ws" "t \<notin> set ts" using Cons.prems(2,3) by auto
  have "wish_ok (wish s t)" using Cons.prems(4) t(1) by blast
  then show ?case
  proof (cases rule: match_cases [of s t "ev_set ev"])
    case no
    then have "event_wake_loop ts ev s need = (ev', s', need', fin)" using Cons.prems(6) by simp
    then show ?thesis using Cons.IH [of s ev need] Cons.prems(1-5) no(2) by auto
  next
    case (yes s1 w)
    define ev1 where "ev1 = (if event_info (threads s1 t) AND RT_EVENT_FLAG_CLEAR \<noteq> 0
      then ev\<lparr>ev_set := ev_set ev AND NOT (event_set (threads s1 t))\<rparr> else ev)"
    define s2 where "s2 = fst (rt_thread_resume t s1)"
    have run: "event_wake_loop ts ev1 s2 True = (ev', s', need', fin)"
      using Cons.prems(6) yes(1) by (simp add: Let_def ev1_def s2_def)
    note r = resume_waiter [OF Cons.prems(1) t(1) yes(3), folded s2_def]
    have q: "ev_queue ev1 = ?q" by (simp add: ev1_def)
    have less: "wants w' (ev_set ev1) \<Longrightarrow> wants w' (ev_set ev)" for w'
      using wants_less [of w' "ev_set ev" "NOT (event_set (threads s1 t))"]
      by (cases "event_info (threads s1 t) AND RT_EVENT_FLAG_CLEAR \<noteq> 0") (simp_all add: ev1_def)
    have in2: "set (suspend_lists s2 ?q) = set ?ws - {t}" using r(2) by auto
    have w2: "wish s2 u = wish s u" if "u \<in> set ?ws - {t}" for u using r(3) that by auto
    have "event_ok (ev', s') \<and> fin \<and> ev_queue ev' = ev_queue ev1"
    proof (rule Cons.IH [OF r(1) _ _ _ _ run])
      show "distinct ts" using Cons.prems(2) by simp
      show "set ts \<subseteq> set (suspend_lists s2 (ev_queue ev1))" using Cons.prems(2,3) in2 q by auto
      show "\<forall>t \<in> set (suspend_lists s2 (ev_queue ev1)). wish_ok (wish s2 t)"
        using Cons.prems(4) unfolding q in2 using w2 by auto
      show "\<forall>t \<in> set (suspend_lists s2 (ev_queue ev1)) - set ts. \<not> wants (wish s2 t) (ev_set ev1)"
        using Cons.prems(5) less unfolding q in2 using w2 by auto
    qed
    then show ?thesis using q by simp
  qed
qed


lemma send_ok:
  assumes "event_ok (ev, s)" "rt_event_send ev flags s = (ev', s', r)"
  shows "event_ok (ev', s')" "flags \<noteq> 0 \<Longrightarrow> r = RT_EOK"
proof -
  let ?ev = "ev\<lparr>ev_set := ev_set ev OR flags\<rparr>"
  let ?ws = "suspend_lists s (ev_queue ev)"
  obtain ev1 s1 need fin where l: "event_wake_loop ?ws ?ev s False = (ev1, s1, need, fin)"
    by (metis prod_cases4)
  have inv: "sched_inv s" using assms(1) by (simp add: event_ok_def)
  have o: "event_ok (ev1, s1) \<and> fin \<and> ev_queue ev1 = ev_queue ?ev"
    by (rule wake_loop_ok [OF inv _ _ _ _ l])
      (use assms(1) sched_invD(2) [OF inv] in \<open>simp_all add: event_ok_def waits_ok_def\<close>)
  have "sched_inv s1" using o by (simp add: event_ok_def)
  then have "event_ok (ev1, rt_schedule s1)"
    using o event_ok_shrinks [OF _ sched_inv_schedule shrinks_schedule] by blast
  then show "event_ok (ev', s')" "flags \<noteq> 0 \<Longrightarrow> r = RT_EOK"
    using assms o l by (auto simp: rt_event_send_def Let_def split: if_splits)
qed

lemma event_wait_ok:
  assumes inv: "sched_inv s" and t: "t = rt_current_thread s" and run: "status_of s t = RT_THREAD_RUNNING"
    and ok: "\<forall>u \<in> set (suspend_lists s (ev_queue ev)). wish_ok (wish s u) \<and> \<not> wants (wish s u) (ev_set ev)"
    and me: "wish_ok (flags, opt)" "\<not> wants (flags, opt) (ev_set ev)"
    and w: "event_wait ev flags opt timeout s = Some s'"
  shows "event_ok (ev, s')"
proof -
  let ?u = "upd_thread t (\<lambda>th. th\<lparr>event_set := flags, event_info := opt\<rparr>) s" and ?q = "ev_queue ev"
  let ?w = "ipc_list_suspend ?q t (ev_flag ev) ?u"
  have u: "sched_inv ?u" "t = rt_current_thread ?u" "status_of ?u t = RT_THREAD_RUNNING"
    using t run by (auto simp: status_of_def intro!: sched_inv_upd [OF inv])
  note e = sched_inv_ipc_suspend [OF u, where q = ?q and fl = "ev_flag ev"]
  have nw: "t \<notin> set (suspend_lists s ?q)" using not_waiting [OF sched_invD(2) [OF inv], of t] run by simp
  have wi: "wish ?w v = wish ?u v" for v
    by (auto simp: ipc_list_suspend_def Let_def rt_thread_suspend_def rt_timer_stop_def clear_flag_def timer_remove_def)
  have "event_ok (ev, ?w)"
    using e(1,4) ok me nw unfolding event_ok_def split wi by auto
  moreover obtain s1 where s1: "s' = rt_schedule s1" "s1 = ?w \<or> start_thread_timer t (word_of_int timeout) ?w = Some s1"
    using w t by (auto simp: event_wait_def Let_def split: if_splits)
  moreover have "sched_inv s1" "shrinks ?q ?w s1"
    using s1(2) e(1) sched_inv_start_timer shrinks_start_timer by auto
  ultimately show ?thesis
    using event_ok_shrinks sched_inv_schedule shrinks_schedule shrinks_trans by metis
qed

lemma ready_wants:
  assumes "event_ready ev flags opt = Some b"
  shows "b = wants (flags, opt) (ev_set ev)" "wish_ok (flags, opt)"
  using assms by (auto simp: event_ready_def wants_def wish_ok_def and.commute split: if_splits)

lemma recv_ok:
  assumes "event_ok (ev, s)" "status_of s (rt_current_thread s) = RT_THREAD_RUNNING"
    and "rt_event_recv ev flags opt timeout s = Some (ev', s', r)"
  shows "event_ok (ev', s')"
proof (cases "flags = 0")
  case False
  let ?t = "rt_current_thread s" and ?q = "ev_queue ev"
  let ?u = "upd_thread ?t (\<lambda>th. th\<lparr>error := RT_EOK\<rparr>) s"
  have inv: "sched_inv s" and ok: "\<forall>u \<in> set (suspend_lists s ?q). wish_ok (wish s u) \<and> \<not> wants (wish s u) (ev_set ev)"
    using assms(1) by (auto simp: event_ok_def)
  have nw: "?t \<notin> set (suspend_lists s ?q)" using not_waiting [OF sched_invD(2) [OF inv], of ?t] assms(2) by simp
  note u = error_only [OF inv refl, where t = ?t and e = RT_EOK]
  have wu: "wish ?u v = wish s v" for v by simp
  obtain b where b: "event_ready ev flags opt = Some b"
    using assms(3) False by (cases "event_ready ev flags opt") (auto simp: rt_event_recv_def)
  note rw = ready_wants [OF b]
  show ?thesis
  proof (cases b)
    case True
    let ?s = "upd_thread ?t (\<lambda>th. th\<lparr>event_set := ev_set ev AND flags, event_info := opt\<rparr>) ?u"
    let ?ev = "if opt AND RT_EVENT_FLAG_CLEAR \<noteq> 0 then ev\<lparr>ev_set := ev_set ev AND NOT flags\<rparr> else ev"
    have out: "ev' = ?ev" "s' = ?s" using assms(3) False b True by (auto simp: rt_event_recv_def Let_def)
    have "sched_inv ?s" by (rule sched_inv_upd [OF u(1)]) auto
    moreover have "wish ?s v = wish s v" if "v \<in> set (suspend_lists s ?q)" for v using that nw by auto
    moreover have "\<not> wants w (ev_set ?ev)" if "\<not> wants w (ev_set ev)" for w
      using that wants_less [of w "ev_set ev" "NOT flags"] by auto
    ultimately show ?thesis using ok unfolding out event_ok_def by auto
  next
    case False
    show ?thesis
    proof (cases "timeout = 0")
      case True
      have "s' = upd_thread ?t (\<lambda>th. th\<lparr>error := - RT_ETIMEOUT\<rparr>) ?u" "ev' = ev"
        using assms(3) \<open>flags \<noteq> 0\<close> b False True by (auto simp: rt_event_recv_def Let_def)
      then show ?thesis using ok error_only(1) [OF u(1)] by (auto simp: event_ok_def)
    next
      case wt: False
      have "event_wait ev flags opt timeout ?u = Some s'" "ev' = ev"
        using assms(3) \<open>flags \<noteq> 0\<close> b False wt by (auto simp: rt_event_recv_def Let_def)
      then show ?thesis
        using event_wait_ok [of ?u ?t ev flags opt timeout s'] u(1,3,5) assms(2) ok rw False by simp
    qed
  qed
qed (use assms in \<open>simp add: rt_event_recv_def\<close>)

lemma event_step_ok:
  assumes "event_step x x'" "event_ok x"
  shows "event_ok x'"
  using assms
proof cases
  case (recv s ev flags opt timeout ev' s' r)
  then show ?thesis using recv_ok assms(2) by blast
next
  case (send ev flags s ev' s' r)
  then show ?thesis using send_ok(1) assms(2) by blast
next
  case (control ev reset s ev' s' r)
  have inv: "sched_inv s" using assms(2) control(1) by (simp add: event_ok_def)
  note a = resume_all_inv [OF inv, of "ev_queue ev"]
  show ?thesis
    using control assms(2) a sched_inv_schedule schedule_suspend_lists
    by (auto simp: rt_event_control_def event_ok_def split: if_splits)
next
  case (expire t s ev s')
  have "sched_inv s" using assms(2) expire(1) by (simp add: event_ok_def)
  then show ?thesis
    using event_ok_shrinks sched_inv_timeout shrinks_timeout expire assms(2) by blast
next
  case (other s s' ev)
  then show ?thesis using assms(2) sched_inv_step by (auto simp: event_ok_def)
qed

lemma event_reachable_ok: "event_reachable x0 x \<Longrightarrow> event_ok x0 \<Longrightarrow> event_ok x"
  by (induction rule: event_reachable.induct) (auto intro: event_step_ok)

section \<open>Properties\<close>

text \<open>
  C12: no wake-up is lost: in every state that sends, receives, resets, timeouts and the rest
  of the kernel can reach, no thread waits for events that are set as it wants them, and the
  next send of a set that is not empty succeeds.
\<close>

theorem event_no_lost_wakeup:
  assumes "event_reachable (rt_event_init q fl, s0) (ev, s)" "kernel_reachable s0" "suspend_lists s0 q = []"
  shows "(\<forall>t \<in> set (suspend_lists s (ev_queue ev)). \<not> wants (wish s t) (ev_set ev)) \<and>
     (flags \<noteq> 0 \<longrightarrow> snd (snd (rt_event_send ev flags s)) = RT_EOK)"
proof -
  have "event_ok (rt_event_init q fl, s0)"
    using reachable_inv [OF assms(2)] assms(3) by (simp add: event_ok_def rt_event_init_def)
  then have ok: "event_ok (ev, s)" using event_reachable_ok [OF assms(1)] by simp
  then have "flags \<noteq> 0 \<Longrightarrow> snd (snd (rt_event_send ev flags s)) = RT_EOK"
    using send_ok(2) [OF ok] by (metis prod.collapse)
  then show ?thesis using ok by (auto simp: event_ok_def)
qed

theorem event_no_lost_wakeup_witness:
  "\<exists>ev s. rt_event_recv (rt_event_init 9 RT_IPC_FLAG_FIFO) 6 RT_EVENT_FLAG_OR (- 1) demo_kernel = Some (ev, s, Blocked) \<and>
     suspend_lists s 9 = [2] \<and> rt_current_thread s = 3 \<and> snd (snd (rt_event_send ev 4 s)) = RT_EOK"
proof -
  let ?ev = "rt_event_init 9 RT_IPC_FLAG_FIFO"
  define s where "s = rt_schedule (ipc_list_suspend 9 2 RT_IPC_FLAG_FIFO
     (upd_thread 2 (\<lambda>th. th\<lparr>event_set := 6, event_info := RT_EVENT_FLAG_OR\<rparr>)
       (upd_thread 2 (\<lambda>th. th\<lparr>error := RT_EOK\<rparr>) demo_kernel)))"
  have v: "rt_current_thread demo_kernel = 2" "status_of demo_kernel 2 = RT_THREAD_RUNNING"
    "suspend_lists demo_kernel 9 = []" "suspend_lists s 9 = [2]" "rt_current_thread s = 3"
    unfolding s_def by code_simp+
  have "event_ready ?ev 6 RT_EVENT_FLAG_OR = Some False" by code_simp
  then have r: "rt_event_recv ?ev 6 RT_EVENT_FLAG_OR (- 1) demo_kernel = Some (?ev, s, Blocked)"
    using v(1) by (simp add: rt_event_recv_def Let_def event_wait_def s_def rt_event_init_def)
  then have "event_step (?ev, demo_kernel) (?ev, s)" using v(1,2) by (intro event_step.recv) auto
  then have "event_reachable (?ev, demo_kernel) (?ev, s)"
    by (rule event_reachable.intros(2) [OF event_reachable.intros(1)])
  from event_no_lost_wakeup [OF this demo_reachable v(3), of 4] show ?thesis using r v(4,5) by auto
qed

end
