(* ===== verification/Mailbox.thy ===== *)
theory Mailbox
  imports Mq
begin

text \<open>
  The mailbox of \<open>src/rt-thread/src/ipc.c\<close>: a ring of 32-bit values. The calls run with
  interrupts disabled from the test to the copy, so each is one step, apart from the waiting
  in it. \<open>None\<close>: an index lies outside the pool, or an assertion fails.
\<close>

section \<open>State and operations\<close>

record rt_mailbox =
  mb_pool :: "u32 list"
  mb_size :: u16
  mb_entry :: u16
  in_offset :: u16
  out_offset :: u16
  mb_flag :: ipc_flag
  mb_receivers :: nat
  mb_senders :: nat

definition RT_MB_ENTRY_MAX :: u16 where "RT_MB_ENTRY_MAX = 0xFFFF"

definition rt_mb_init :: "u32 list \<Rightarrow> u32 \<Rightarrow> ipc_flag \<Rightarrow> nat \<Rightarrow> nat \<Rightarrow> rt_mailbox" where
  "rt_mb_init pool sz fl rq sq =
     \<lparr>mb_pool = pool, mb_size = ucast sz, mb_entry = 0, in_offset = 0, out_offset = 0, mb_flag = fl,
      mb_receivers = rq, mb_senders = sq\<rparr>"

definition rt_mb_detach :: "rt_mailbox \<Rightarrow> kernel \<Rightarrow> kernel" where
  "rt_mb_detach mb s = ipc_list_resume_all (mb_senders mb) (ipc_list_resume_all (mb_receivers mb) s)"

text \<open>
  \<open>created\<close>: whether \<open>rt_object_allocate\<close> finds memory; \<open>pool\<close>: what the allocation of the pool
  returns, \<open>None\<close> for the null pointer.
\<close>

definition rt_mb_create ::
    "bool \<Rightarrow> u32 list option \<Rightarrow> u32 \<Rightarrow> ipc_flag \<Rightarrow> nat \<Rightarrow> nat \<Rightarrow> rt_mailbox option" where
  "rt_mb_create created pool sz fl rq sq =
     (if \<not> created then None
      else case pool of
          None \<Rightarrow> None
        | Some pool \<Rightarrow>
            Some \<lparr>mb_pool = pool, mb_size = ucast sz, mb_entry = 0, in_offset = 0, out_offset = 0,
                  mb_flag = fl, mb_receivers = rq, mb_senders = sq\<rparr>)"

definition rt_mb_delete :: "rt_mailbox \<Rightarrow> kernel \<Rightarrow> kernel" where
  "rt_mb_delete mb s = ipc_list_resume_all (mb_senders mb) (ipc_list_resume_all (mb_receivers mb) s)"

definition mb_put :: "u32 \<Rightarrow> rt_mailbox \<Rightarrow> (rt_mailbox \<times> int) option" where
  "mb_put v mb =
     (if length (mb_pool mb) \<le> unat (in_offset mb) then None
      else
        let mb = mb\<lparr>mb_pool := (mb_pool mb)[unat (in_offset mb) := v], in_offset := in_offset mb + 1\<rparr>;
            mb = (if mb_size mb \<le> in_offset mb then mb\<lparr>in_offset := 0\<rparr> else mb)
        in Some (if mb_entry mb < RT_MB_ENTRY_MAX then (mb\<lparr>mb_entry := mb_entry mb + 1\<rparr>, RT_EOK)
                 else (mb, - RT_EFULL)))"

definition rt_mb_send_loop ::
    "rt_mailbox \<Rightarrow> u32 \<Rightarrow> int \<Rightarrow> kernel \<Rightarrow> (rt_mailbox \<times> kernel \<times> int outcome) option" where
  "rt_mb_send_loop mb v timeout s =
     (if mb_entry mb = mb_size mb then
        (let s = upd_thread (rt_current_thread s) (\<lambda>th. th\<lparr>error := RT_EOK\<rparr>) s
         in if timeout = 0 then Some (mb, s, Return (- RT_EFULL))
            else map_option (\<lambda>s. (mb, s, Blocked)) (wait_for (mb_senders mb) (mb_flag mb) timeout s))
      else
        map_option (\<lambda>(mb, r). (mb, if r = RT_EOK then wake_first (mb_receivers mb) s else s, Return r))
          (mb_put v mb))"

definition rt_mb_send_wait ::
    "rt_mailbox \<Rightarrow> u32 \<Rightarrow> int \<Rightarrow> kernel \<Rightarrow> (rt_mailbox \<times> kernel \<times> int outcome) option" where
  "rt_mb_send_wait mb v timeout s =
     (if mb_entry mb = mb_size mb \<and> timeout = 0 then Some (mb, s, Return (- RT_EFULL))
      else rt_mb_send_loop mb v timeout s)"

definition rt_mb_send_resumed ::
    "rt_mailbox \<Rightarrow> u32 \<Rightarrow> int \<Rightarrow> u32 \<Rightarrow> kernel \<Rightarrow> (rt_mailbox \<times> kernel \<times> int outcome) option" where
  "rt_mb_send_resumed mb v timeout start s =
     (let e = error (threads s (rt_current_thread s))
      in if e \<noteq> RT_EOK then Some (mb, s, Return e)
         else rt_mb_send_loop mb v (time_left timeout start s) s)"

definition rt_mb_send :: "rt_mailbox \<Rightarrow> u32 \<Rightarrow> kernel \<Rightarrow> (rt_mailbox \<times> kernel \<times> int outcome) option" where
  "rt_mb_send mb v s = rt_mb_send_wait mb v 0 s"

definition rt_mb_urgent :: "rt_mailbox \<Rightarrow> u32 \<Rightarrow> kernel \<Rightarrow> (rt_mailbox \<times> kernel \<times> int) option" where
  "rt_mb_urgent mb v s =
     (if mb_entry mb = mb_size mb then Some (mb, s, - RT_EFULL)
      else
        let mb = mb\<lparr>out_offset := (if 0 < out_offset mb then out_offset mb - 1 else mb_size mb - 1)\<rparr>
        in if length (mb_pool mb) \<le> unat (out_offset mb) then None
           else Some (mb\<lparr>mb_pool := (mb_pool mb)[unat (out_offset mb) := v], mb_entry := mb_entry mb + 1\<rparr>,
                      wake_first (mb_receivers mb) s, RT_EOK))"

definition mb_get :: "rt_mailbox \<Rightarrow> (rt_mailbox \<times> u32) option" where
  "mb_get mb =
     (if length (mb_pool mb) \<le> unat (out_offset mb) then None
      else
        let v = mb_pool mb ! unat (out_offset mb);
            mb = mb\<lparr>out_offset := out_offset mb + 1\<rparr>;
            mb = (if mb_size mb \<le> out_offset mb then mb\<lparr>out_offset := 0\<rparr> else mb)
        in Some (if 0 < mb_entry mb then mb\<lparr>mb_entry := mb_entry mb - 1\<rparr> else mb, v))"

definition rt_mb_recv_loop ::
    "rt_mailbox \<Rightarrow> int \<Rightarrow> kernel \<Rightarrow> (rt_mailbox \<times> kernel \<times> (int \<times> u32 option) outcome) option" where
  "rt_mb_recv_loop mb timeout s =
     (if mb_entry mb = 0 then
        (let t = rt_current_thread s;
             s = upd_thread t (\<lambda>th. th\<lparr>error := RT_EOK\<rparr>) s
         in if timeout = 0
            then Some (mb, upd_thread t (\<lambda>th. th\<lparr>error := - RT_ETIMEOUT\<rparr>) s, Return (- RT_ETIMEOUT, None))
            else map_option (\<lambda>s. (mb, s, Blocked)) (wait_for (mb_receivers mb) (mb_flag mb) timeout s))
      else
        map_option (\<lambda>(mb, v). (mb, wake_first (mb_senders mb) s, Return (RT_EOK, Some v))) (mb_get mb))"

definition rt_mb_recv ::
    "rt_mailbox \<Rightarrow> int \<Rightarrow> kernel \<Rightarrow> (rt_mailbox \<times> kernel \<times> (int \<times> u32 option) outcome) option" where
  "rt_mb_recv mb timeout s =
     (if mb_entry mb = 0 \<and> timeout = 0 then Some (mb, s, Return (- RT_ETIMEOUT, None))
      else rt_mb_recv_loop mb timeout s)"

definition rt_mb_recv_resumed ::
    "rt_mailbox \<Rightarrow> int \<Rightarrow> u32 \<Rightarrow> kernel \<Rightarrow> (rt_mailbox \<times> kernel \<times> (int \<times> u32 option) outcome) option" where
  "rt_mb_recv_resumed mb timeout start s =
     (let e = error (threads s (rt_current_thread s))
      in if e \<noteq> RT_EOK then Some (mb, s, Return (e, None))
         else rt_mb_recv_loop mb (time_left timeout start s) s)"

definition rt_mb_control :: "rt_mailbox \<Rightarrow> bool \<Rightarrow> kernel \<Rightarrow> rt_mailbox \<times> kernel \<times> int" where
  "rt_mb_control mb reset s =
     (if reset then
        (mb\<lparr>mb_entry := 0, in_offset := 0, out_offset := 0\<rparr>,
         rt_schedule (ipc_list_resume_all (mb_senders mb) (ipc_list_resume_all (mb_receivers mb) s)), RT_EOK)
      else (mb, s, - RT_ERROR))"

section \<open>The ring holds the messages\<close>

definition mb_holds :: "rt_mailbox \<Rightarrow> u32 list \<Rightarrow> bool" where
  "mb_holds mb xs \<longleftrightarrow>
     (let n = unat (mb_size mb); i = unat (out_offset mb)
      in n \<le> length (mb_pool mb) \<and> unat (mb_entry mb) = length xs \<and> length xs \<le> n \<and>
         (0 < n \<longrightarrow> i < n \<and> unat (in_offset mb) = (i + length xs) mod n) \<and>
         (\<forall>k < length xs. mb_pool mb ! ((i + k) mod n) = xs ! k))"

lemma ring_apart: "k < l \<Longrightarrow> l < n \<Longrightarrow> (i + k) mod n \<noteq> (i + l) mod (n :: nat)"
proof
  assume "k < l" "l < n" "(i + k) mod n = (i + l) mod n"
  then have "n dvd (i + l) - (i + k)" using mod_eq_dvd_iff_nat [of "i + k" "i + l" n] by auto
  then have "n \<le> l - k" using \<open>k < l\<close> by (auto dest: dvd_imp_le)
  then show False using \<open>k < l\<close> \<open>l < n\<close> by simp
qed

lemma ring_next:
  assumes "unat (i :: u16) < unat n"
  shows "unat (if n \<le> i + 1 then 0 else i + 1) = (unat i + 1) mod unat n"
proof -
  have "unat (i + 1) = unat i + 1"
    using assms unsigned_less [of n, where ?'a = nat] by (subst unat_plus_simple [THEN iffD1]) (auto simp: word_le_nat_alt unat_word_ariths)
  then show ?thesis using assms by (auto simp: word_le_nat_alt not_le mod_if)
qed

lemma mb_holdsD:
  assumes "mb_holds mb xs" "0 < unat (mb_size mb)"
  shows "unat (mb_size mb) \<le> length (mb_pool mb)" "unat (mb_entry mb) = length xs"
    "unat (out_offset mb) < unat (mb_size mb)"
    "unat (in_offset mb) = (unat (out_offset mb) + length xs) mod unat (mb_size mb)"
    "\<And>k. k < length xs \<Longrightarrow> mb_pool mb ! ((unat (out_offset mb) + k) mod unat (mb_size mb)) = xs ! k"
  using assms by (auto simp: mb_holds_def Let_def)

lemma entry_succ: "unat (e :: u16) < unat (n :: u16) \<Longrightarrow> unat (e + 1) = unat e + 1 \<and> e < 0xFFFF"
  using unsigned_less [of n, where ?'a = nat]
  by (subst unat_plus_simple [THEN iffD1]) (auto simp: word_le_nat_alt word_less_nat_alt unat_word_ariths)

lemma put_holds:
  assumes h: "mb_holds mb xs" and room: "length xs < unat (mb_size mb)"
  shows "\<exists>mb'. mb_put v mb = Some (mb', RT_EOK) \<and> mb_holds mb' (xs @ [v]) \<and> mb_size mb' = mb_size mb"
proof -
  let ?n = "unat (mb_size mb)" and ?i = "unat (out_offset mb)" and ?l = "length xs"
  have n: "0 < ?n" using room by simp
  note d = mb_holdsD [OF h n]
  let ?j = "(?i + ?l) mod ?n"
  have j: "?j < ?n" "?j < length (mb_pool mb)" using n d(1) less_le_trans [OF mod_less_divisor [OF n] d(1)] by auto
  have e: "unat (mb_entry mb + 1) = Suc ?l" "mb_entry mb < RT_MB_ENTRY_MAX"
    using entry_succ [of "mb_entry mb" "mb_size mb"] d(2) room by (simp_all add: RT_MB_ENTRY_MAX_def)
  define inn where "inn = (if mb_size mb \<le> in_offset mb + 1 then 0 else in_offset mb + 1)"
  have "unat inn = (?j + 1) mod ?n" unfolding inn_def using ring_next [of "in_offset mb" "mb_size mb"] d(4) j by simp
  then have inn: "unat inn = (?i + Suc ?l) mod ?n" by (simp add: mod_Suc_eq)
  let ?mb = "mb\<lparr>mb_pool := (mb_pool mb)[?j := v], in_offset := inn, mb_entry := mb_entry mb + 1\<rparr>"
  have put: "mb_put v mb = Some (?mb, RT_EOK)"
    using j(2) e(2) d(4) by (cases mb) (simp add: mb_put_def inn_def Let_def)
  have "(mb_pool mb)[?j := v] ! ((?i + k) mod ?n) = (xs @ [v]) ! k" if "k < Suc ?l" for k
  proof (cases "k = ?l")
    case True
    then show ?thesis using j(2) by simp
  next
    case False
    then have "k < ?l" using that by simp
    then show ?thesis using ring_apart [of k ?l ?n ?i] room d(5) by (simp add: nth_append)
  qed
  then have "mb_holds ?mb (xs @ [v])"
    using d(1,3) e(1) inn room by (simp add: mb_holds_def Let_def)
  then show ?thesis using put by auto
qed

lemma get_holds:
  assumes h: "mb_holds mb (x # xs)"
  shows "\<exists>mb'. mb_get mb = Some (mb', x) \<and> mb_holds mb' xs \<and> mb_size mb' = mb_size mb"
proof -
  let ?n = "unat (mb_size mb)" and ?i = "unat (out_offset mb)"
  have n: "0 < ?n" "Suc (length xs) \<le> ?n" using h by (auto simp: mb_holds_def Let_def)
  note d = mb_holdsD [OF h n(1)]
  have i: "?i < length (mb_pool mb)" "mb_pool mb ! ?i = x" using d(1,3) d(5) [of 0] by auto
  define ot where "ot = (if mb_size mb \<le> out_offset mb + 1 then 0 else out_offset mb + 1)"
  have ot: "unat ot = (?i + 1) mod ?n" unfolding ot_def by (rule ring_next [OF d(3)])
  have "mb_entry mb \<noteq> 0" using d(2) by auto
  then have e: "0 < mb_entry mb" "unat (mb_entry mb - 1) = length xs"
    using d(2) unat_minus_one [of "mb_entry mb"] by (simp_all add: word_less_nat_alt)
  let ?mb = "mb\<lparr>out_offset := ot, mb_entry := mb_entry mb - 1\<rparr>"
  have get: "mb_get mb = Some (?mb, x)"
    using i e(1) by (cases mb) (simp add: mb_get_def ot_def Let_def)
  have shift: "(unat ot + k) mod ?n = (?i + Suc k) mod ?n" for k by (simp add: ot mod_add_left_eq)
  have "mb_pool mb ! ((unat ot + k) mod ?n) = xs ! k" if "k < length xs" for k
    unfolding shift using d(5) [of "Suc k"] that by simp
  moreover have "unat (in_offset mb) = (unat ot + length xs) mod ?n" unfolding shift using d(4) by simp
  moreover have "unat ot < ?n" using ot n(1) by simp
  ultimately have "mb_holds ?mb xs" using d(1) e(2) n(2) by (simp add: mb_holds_def Let_def)
  then show ?thesis using get by auto
qed

lemma urgent_holds:
  assumes h: "mb_holds mb xs" and room: "length xs < unat (mb_size mb)"
  shows "\<exists>mb'. rt_mb_urgent mb v s = Some (mb', wake_first (mb_receivers mb) s, RT_EOK) \<and>
    mb_holds mb' (v # xs) \<and> mb_size mb' = mb_size mb"
proof -
  let ?n = "unat (mb_size mb)" and ?i = "unat (out_offset mb)" and ?l = "length xs"
  have n: "0 < ?n" using room by simp
  note d = mb_holdsD [OF h n]
  define ot where "ot = (if 0 < out_offset mb then out_offset mb - 1 else mb_size mb - 1)"
  have ot: "unat ot < ?n" "(unat ot + 1) mod ?n = ?i"
  proof -
    have "unat ot = (if 0 < ?i then ?i - 1 else ?n - 1)"
      using n by (auto simp: ot_def word_less_nat_alt unat_minus_one unat_gt_0)
    then show "unat ot < ?n" "(unat ot + 1) mod ?n = ?i" using n d(3) by auto
  qed
  have e: "unat (mb_entry mb + 1) = Suc ?l" "mb_entry mb \<noteq> mb_size mb"
    using entry_succ [of "mb_entry mb" "mb_size mb"] d(2) room by auto
  have o: "unat ot < length (mb_pool mb)" using ot(1) d(1) by simp
  let ?mb = "mb\<lparr>out_offset := ot, mb_pool := (mb_pool mb)[unat ot := v], mb_entry := mb_entry mb + 1\<rparr>"
  have urg: "rt_mb_urgent mb v s = Some (?mb, wake_first (mb_receivers mb) s, RT_EOK)"
    using e(2) o unfolding rt_mb_urgent_def Let_def ot_def [symmetric] by (cases mb) simp
  have shift: "(unat ot + Suc k) mod ?n = (?i + k) mod ?n" for k
    using ot(2) by (metis add.assoc add.commute mod_add_left_eq plus_1_eq_Suc)
  have "(mb_pool mb)[unat ot := v] ! ((unat ot + k) mod ?n) = (v # xs) ! k" if "k < Suc ?l" for k
  proof (cases k)
    case 0
    then show ?thesis using o ot(1) by simp
  next
    case (Suc k')
    have "(unat ot + 0) mod ?n \<noteq> (unat ot + k) mod ?n" using that room Suc by (intro ring_apart) auto
    then have "(unat ot + k) mod ?n \<noteq> unat ot" using ot(1) by simp
    then have "(mb_pool mb)[unat ot := v] ! ((unat ot + k) mod ?n) = mb_pool mb ! ((?i + k') mod ?n)"
      using shift [of k'] Suc by simp
    then show ?thesis using d(5) [of k'] that Suc by simp
  qed
  moreover have "unat (in_offset mb) = (unat ot + Suc ?l) mod ?n" unfolding shift by (rule d(4))
  ultimately have "mb_holds ?mb (v # xs)" using d(1) e(1) ot(1) room by (simp add: mb_holds_def Let_def)
  then show ?thesis using urg by auto
qed

section \<open>The calls behave as a queue with a way in at the front\<close>

definition call_mb_send :: "u32 \<Rightarrow> rt_mailbox \<times> kernel \<Rightarrow> (rt_mailbox \<times> kernel) option" where
  "call_mb_send v = (\<lambda>(mb, s). case rt_mb_send mb v s of
     Some (mb, s, Return r) \<Rightarrow> if r = RT_EOK then Some (mb, s) else None | _ \<Rightarrow> None)"

definition call_mb_recv :: "rt_mailbox \<times> kernel \<Rightarrow> (u32 \<times> rt_mailbox \<times> kernel) option" where
  "call_mb_recv = (\<lambda>(mb, s). case rt_mb_recv mb 0 s of
     Some (mb, s, Return (r, Some v)) \<Rightarrow> Some (v, mb, s) | _ \<Rightarrow> None)"

definition call_mb_urgent :: "u32 \<Rightarrow> rt_mailbox \<times> kernel \<Rightarrow> (rt_mailbox \<times> kernel) option" where
  "call_mb_urgent v = (\<lambda>(mb, s). case rt_mb_urgent mb v s of
     Some (mb, s, r) \<Rightarrow> if r = RT_EOK then Some (mb, s) else None | None \<Rightarrow> None)"

abbreviation mb_cap :: "rt_mailbox \<times> kernel \<Rightarrow> nat" where
  "mb_cap \<equiv> \<lambda>(mb, s). unat (mb_size mb)"

lemma send_room:
  assumes "mb_holds mb xs" "length xs < unat (mb_size mb)"
  shows "\<exists>mb' s'. call_mb_send v (mb, s) = Some (mb', s') \<and> mb_holds mb' (xs @ [v]) \<and> mb_size mb' = mb_size mb"
proof -
  have "mb_entry mb \<noteq> mb_size mb" using assms by (auto simp: mb_holds_def Let_def)
  then show ?thesis
    using put_holds [OF assms, of v] by (auto simp: call_mb_send_def rt_mb_send_def rt_mb_send_wait_def rt_mb_send_loop_def)
qed

lemma full_entry: "mb_holds mb xs \<Longrightarrow> length xs = unat (mb_size mb) \<Longrightarrow> mb_entry mb = mb_size mb"
  by (simp add: mb_holds_def Let_def word_unat_eq_iff)

interpretation mbx: bounded_deque "\<lambda>(mb, s). mb_holds mb" "\<lambda>_ _. True" mb_cap call_mb_send call_mb_recv call_mb_urgent
proof (unfold_locales, goal_cases)
  case (1 q xs x)
  then show ?case using send_room [of "fst q" xs x "snd q"] by (auto simp: split_def)
next
  case (2 q xs x)
  then show ?case
    using full_entry [of "fst q" xs]
    by (simp add: split_def call_mb_send_def rt_mb_send_def rt_mb_send_wait_def rt_err_defs)
next
  case (3 q x xs)
  obtain mb s where q: "q = (mb, s)" by (rule prod.exhaust)
  have "mb_entry mb \<noteq> 0" using 3 by (auto simp: q mb_holds_def Let_def)
  then show ?case
    using get_holds [of mb x xs] 3 by (auto simp: q call_mb_recv_def rt_mb_recv_def rt_mb_recv_loop_def)
next
  case (4 q)
  then show ?case
    by (auto simp: split_def call_mb_recv_def rt_mb_recv_def mb_holds_def Let_def unat_eq_0)
next
  case (5 q xs)
  then show ?case by (auto simp: mb_holds_def Let_def)
next
  case (6 q xs x)
  then show ?case using urgent_holds [of "fst q" xs x "snd q"] by (auto simp: split_def call_mb_urgent_def)
next
  case (7 q xs x)
  then show ?case
    using full_entry [of "fst q" xs] by (simp add: split_def call_mb_urgent_def rt_mb_urgent_def rt_err_defs)
qed

section \<open>Properties\<close>

text \<open>
  C13: a mailbox initialised on a pool of at least its size answers every sequence of
  \<open>rt_mb_send\<close>, \<open>rt_mb_urgent\<close> and \<open>rt_mb_recv\<close> that do not wait exactly like a list of at
  most that length with two ways in: sent values queue up at the end, urgent ones at the
  front, and receiving takes the first.
\<close>

theorem mb_calls_refine_deque:
  assumes "unat (ucast sz :: u16) \<le> length pool"
  shows "\<exists>mb' s'. dimpl_run call_mb_send call_mb_recv call_mb_urgent ops (rt_mb_init pool sz fl rq sq, s) =
      (fst (dspec_run (unat (ucast sz :: u16)) ops []), (mb', s')) \<and>
    mb_holds mb' (snd (dspec_run (unat (ucast sz :: u16)) ops []))"
proof -
  have "mb_holds (rt_mb_init pool sz fl rq sq) []"
    using assms by (auto simp: mb_holds_def rt_mb_init_def Let_def)
  then show ?thesis
    using mbx.deque_run_refines [of "(rt_mb_init pool sz fl rq sq, s)" "[]" ops] by (auto simp: rt_mb_init_def)
qed

theorem mb_calls_refine_deque_witness:
  "\<exists>mb s. dimpl_run call_mb_send call_mb_recv call_mb_urgent
      [Fifo (Put 1), Fifo (Put 2), Push 3, Fifo (Put 4), Fifo Get, Fifo Get, Fifo Get, Fifo Get]
      (rt_mb_init [0, 0, 0] 3 RT_IPC_FLAG_FIFO 0 1, boot_kernel) =
    ([Accepted, Accepted, Accepted, Refused, Got 3, Got 1, Got 2, Nothing], (mb, s))"
proof -
  have n: "unat (ucast (3 :: u32) :: u16) = 3" by simp
  then have "unat (ucast (3 :: u32) :: u16) \<le> length [0, 0, 0 :: u32]" by simp
  from mb_calls_refine_deque [OF this,
      of "[Fifo (Put 1), Fifo (Put 2), Push 3, Fifo (Put 4), Fifo Get, Fifo Get, Fifo Get, Fifo Get]"
      RT_IPC_FLAG_FIFO 0 1 boot_kernel]
  show ?thesis unfolding n by auto
qed

end
