(* ===== verification/RingBuffer.thy ===== *)
theory RingBuffer
  imports Fifo
begin

text \<open>
  The byte ring buffer between interrupt handlers and threads,
  \<open>src/rt-thread/components/drivers/ipc/ringbuffer.c\<close>. Indices are bit fields of 15 bits with a
  mirror bit; the buffer size is a positive 16-bit integer, so it is read as an unsigned one.
  Memory accesses outside the pool or outside the caller's array are \<open>None\<close>.
\<close>

section \<open>State and operations\<close>

record rt_ringbuffer =
  buffer_ptr :: buf
  read_mirror :: "1 word"
  read_index :: "15 word"
  write_mirror :: "1 word"
  write_index :: "15 word"
  buffer_size :: u16

datatype rt_ringbuffer_state = RT_RINGBUFFER_EMPTY | RT_RINGBUFFER_FULL | RT_RINGBUFFER_HALFFULL

definition rt_ringbuffer_status :: "rt_ringbuffer \<Rightarrow> rt_ringbuffer_state" where
  "rt_ringbuffer_status rb =
     (if read_index rb = write_index rb then
        if read_mirror rb = write_mirror rb then RT_RINGBUFFER_EMPTY else RT_RINGBUFFER_FULL
      else RT_RINGBUFFER_HALFFULL)"

definition rt_ringbuffer_init :: "buf \<Rightarrow> u16 \<Rightarrow> rt_ringbuffer option" where
  "rt_ringbuffer_init pool n =
     (if 0 < sint n
      then Some \<lparr>buffer_ptr = pool, read_mirror = 0, read_index = 0, write_mirror = 0, write_index = 0,
        buffer_size = n AND 0xFFFC\<rparr>
      else None)"

definition rt_ringbuffer_reset :: "rt_ringbuffer \<Rightarrow> rt_ringbuffer" where
  "rt_ringbuffer_reset rb = rb\<lparr>read_mirror := 0, read_index := 0, write_mirror := 0, write_index := 0\<rparr>"

definition rt_ringbuffer_get_size :: "rt_ringbuffer \<Rightarrow> u16" where
  "rt_ringbuffer_get_size rb = buffer_size rb"

definition rt_ringbuffer_data_len :: "rt_ringbuffer \<Rightarrow> u32" where
  "rt_ringbuffer_data_len rb =
     (case rt_ringbuffer_status rb of
        RT_RINGBUFFER_EMPTY \<Rightarrow> 0
      | RT_RINGBUFFER_FULL \<Rightarrow> ucast (buffer_size rb)
      | RT_RINGBUFFER_HALFFULL \<Rightarrow>
          let wi = ucast (write_index rb); ri = ucast (read_index rb)
          in if ri < wi then wi - ri else ucast (buffer_size rb) - (ri - wi))"

definition rt_ringbuffer_space_len :: "rt_ringbuffer \<Rightarrow> u32" where
  "rt_ringbuffer_space_len rb = ucast (buffer_size rb) - rt_ringbuffer_data_len rb"

text \<open>The copy of \<open>n\<close> bytes into the buffer, in one piece or in two.\<close>

definition rb_store :: "buf \<Rightarrow> nat \<Rightarrow> rt_ringbuffer \<Rightarrow> rt_ringbuffer option" where
  "rb_store ptr n rb =
     (let wi = unat (write_index rb); front = unat (buffer_size rb) - wi
      in if unat (buffer_size rb) < wi then None
         else if n < front then
           Option.bind (buf_read ptr 0 n) (\<lambda>xs.
             map_option (\<lambda>b. rb\<lparr>buffer_ptr := b, write_index := write_index rb + of_nat n\<rparr>)
               (buf_write (buffer_ptr rb) wi xs))
         else
           Option.bind (buf_read ptr 0 front) (\<lambda>xs.
           Option.bind (buf_write (buffer_ptr rb) wi xs) (\<lambda>b.
           Option.bind (buf_read ptr front (n - front)) (\<lambda>ys.
             map_option (\<lambda>b. rb\<lparr>buffer_ptr := b, write_mirror := NOT (write_mirror rb),
                 write_index := of_nat (n - front)\<rparr>)
               (buf_write b 0 ys)))))"

definition rt_ringbuffer_put :: "rt_ringbuffer \<Rightarrow> buf \<Rightarrow> u16 \<Rightarrow> (rt_ringbuffer \<times> u32) option" where
  "rt_ringbuffer_put rb ptr n =
     (let space = (ucast (rt_ringbuffer_space_len rb) :: u16)
      in if space = 0 then Some (rb, 0)
         else
           let n = (if space < n then space else n)
           in map_option (\<lambda>rb. (rb, ucast n)) (rb_store ptr (unat n) rb))"

definition rt_ringbuffer_put_force :: "rt_ringbuffer \<Rightarrow> buf \<Rightarrow> u16 \<Rightarrow> (rt_ringbuffer \<times> u32) option" where
  "rt_ringbuffer_put_force rb ptr n =
     (let space = (ucast (rt_ringbuffer_space_len rb) :: u16);
          ptr = (if buffer_size rb < n then drop (unat (n - buffer_size rb)) ptr else ptr);
          n = (if buffer_size rb < n then buffer_size rb else n);
          wraps = (unat (buffer_size rb) - unat (write_index rb) \<le> unat n)
      in map_option (\<lambda>rb.
           (if space < n then
              let rb = (if wraps \<and> write_index rb \<le> read_index rb
                        then rb\<lparr>read_mirror := NOT (read_mirror rb)\<rparr> else rb)
              in rb\<lparr>read_index := write_index rb\<rparr>
            else rb, ucast n))
          (rb_store ptr (unat n) rb))"

definition rt_ringbuffer_get :: "rt_ringbuffer \<Rightarrow> buf \<Rightarrow> u16 \<Rightarrow> (rt_ringbuffer \<times> buf \<times> u32) option" where
  "rt_ringbuffer_get rb ptr n =
     (let data = rt_ringbuffer_data_len rb; ri = unat (read_index rb); front = unat (buffer_size rb) - ri
      in if data = 0 then Some (rb, ptr, 0)
         else
           let n = (if data < ucast n then ucast data else n)
           in if unat (buffer_size rb) < ri then None
              else if unat n < front then
                Option.bind (buf_read (buffer_ptr rb) ri (unat n)) (\<lambda>xs.
                  map_option (\<lambda>p. (rb\<lparr>read_index := read_index rb + ucast n\<rparr>, p, ucast n)) (buf_write ptr 0 xs))
              else
                Option.bind (buf_read (buffer_ptr rb) ri front) (\<lambda>xs.
                Option.bind (buf_write ptr 0 xs) (\<lambda>p.
                Option.bind (buf_read (buffer_ptr rb) 0 (unat n - front)) (\<lambda>ys.
                  map_option (\<lambda>p. (rb\<lparr>read_mirror := NOT (read_mirror rb),
                      read_index := of_nat (unat n - front)\<rparr>, p, ucast n))
                    (buf_write p front ys)))))"

text \<open>\<open>peak\<close> gives the position of the first byte and how many follow it in one piece.\<close>

definition rt_ringbuffer_peak :: "rt_ringbuffer \<Rightarrow> rt_ringbuffer \<times> nat option \<times> u32" where
  "rt_ringbuffer_peak rb =
     (let data = rt_ringbuffer_data_len rb; ri = unat (read_index rb); front = ucast (buffer_size rb) - ucast (read_index rb)
      in if data = 0 then (rb, None, 0)
         else if data < front then (rb\<lparr>read_index := read_index rb + ucast data\<rparr>, Some ri, data)
         else (rb\<lparr>read_mirror := NOT (read_mirror rb), read_index := 0\<rparr>, Some ri, front))"

definition rb_put_byte :: "u8 \<Rightarrow> rt_ringbuffer \<Rightarrow> rt_ringbuffer option" where
  "rb_put_byte ch rb =
     (if unat (write_index rb) < length (buffer_ptr rb)
      then Some (rb\<lparr>buffer_ptr := (buffer_ptr rb)[unat (write_index rb) := ch]\<rparr>) else None)"

definition rt_ringbuffer_putchar :: "rt_ringbuffer \<Rightarrow> u8 \<Rightarrow> (rt_ringbuffer \<times> u32) option" where
  "rt_ringbuffer_putchar rb ch =
     (if rt_ringbuffer_space_len rb = 0 then Some (rb, 0)
      else map_option (\<lambda>rb.
        (if int (unat (write_index rb)) = int (unat (buffer_size rb)) - 1
         then rb\<lparr>write_mirror := NOT (write_mirror rb), write_index := 0\<rparr>
         else rb\<lparr>write_index := write_index rb + 1\<rparr>, 1)) (rb_put_byte ch rb))"

definition rt_ringbuffer_putchar_force :: "rt_ringbuffer \<Rightarrow> u8 \<Rightarrow> (rt_ringbuffer \<times> u32) option" where
  "rt_ringbuffer_putchar_force rb ch =
     (let full = (rt_ringbuffer_status rb = RT_RINGBUFFER_FULL)
      in map_option (\<lambda>rb.
        (if int (unat (write_index rb)) = int (unat (buffer_size rb)) - 1
         then let rb = rb\<lparr>write_mirror := NOT (write_mirror rb), write_index := 0\<rparr>
              in if full then rb\<lparr>read_mirror := NOT (read_mirror rb), read_index := write_index rb\<rparr> else rb
         else let rb = rb\<lparr>write_index := write_index rb + 1\<rparr>
              in if full then rb\<lparr>read_index := write_index rb\<rparr> else rb, 1)) (rb_put_byte ch rb))"

definition rt_ringbuffer_getchar :: "rt_ringbuffer \<Rightarrow> (rt_ringbuffer \<times> u8 option) option" where
  "rt_ringbuffer_getchar rb =
     (if rt_ringbuffer_data_len rb = 0 then Some (rb, None)
      else if unat (read_index rb) < length (buffer_ptr rb) then
        Some (if int (unat (read_index rb)) = int (unat (buffer_size rb)) - 1
              then rb\<lparr>read_mirror := NOT (read_mirror rb), read_index := 0\<rparr>
              else rb\<lparr>read_index := read_index rb + 1\<rparr>,
              Some (buffer_ptr rb ! unat (read_index rb)))
      else None)"

section \<open>A stretch of a ring\<close>

definition ring :: "'a list \<Rightarrow> nat \<Rightarrow> nat \<Rightarrow> nat \<Rightarrow> 'a list" where
  "ring b n i l = map (\<lambda>k. b ! ((i + k) mod n)) [0..<l]"

lemma length_ring [simp]: "length (ring b n i l) = l"
  by (simp add: ring_def)

lemma nth_ring [simp]: "k < l \<Longrightarrow> ring b n i l ! k = b ! ((i + k) mod n)"
  by (simp add: ring_def)

lemma ring_0 [simp]: "ring b n i 0 = []"
  by (simp add: ring_def)

lemma ring_mod: "ring b n (i mod n) l = ring b n i l"
  by (simp add: ring_def mod_add_left_eq)

lemma ring_add: "ring b n i (k + l) = ring b n i k @ ring b n (i + k) l"
  by (rule nth_equalityI) (auto simp: nth_append add.assoc)

lemma take_ring: "k \<le> l \<Longrightarrow> take k (ring b n i l) = ring b n i k"
  by (rule nth_equalityI) auto

lemma drop_ring: "k \<le> l \<Longrightarrow> drop k (ring b n i l) = ring b n (i + k) (l - k)"
  by (rule nth_equalityI) (auto simp: add.assoc)

lemma ring_cong: "(\<And>k. k < l \<Longrightarrow> b ! ((i + k) mod n) = c ! ((i + k) mod n)) \<Longrightarrow> ring b n i l = ring c n i l"
  by (simp add: ring_def)

lemma ring_one: "i + l \<le> n \<Longrightarrow> n \<le> length b \<Longrightarrow> ring b n i l = take l (drop i b)"
  by (rule nth_equalityI) auto

lemma ring_two:
  assumes "i < n" "n \<le> i + l" "l \<le> n" "n \<le> length b"
  shows "ring b n i l = take (n - i) (drop i b) @ take (l - (n - i)) b"
proof -
  have "ring b n i l = ring b n i (n - i) @ ring b n n (l - (n - i))"
    using ring_add [of b n i "n - i" "l - (n - i)"] assms by simp
  also have "ring b n n (l - (n - i)) = ring b n 0 (l - (n - i))" using ring_mod [of b n n] by simp
  finally show ?thesis using assms by (simp add: ring_one)
qed

lemma mod_once: "i < n \<Longrightarrow> k < n \<Longrightarrow> (i + k) mod n = (if i + k < n then i + k else i + k - n)" for n :: nat
proof (cases "i + k < n")
  case False
  assume "i < n" "k < n"
  then have "(i + k) mod n = (i + k - n) mod n" "i + k - n < n" using False by (simp_all add: le_mod_geq)
  then show ?thesis using False by simp
qed simp

text \<open>Overwriting \<open>l\<close> places from \<open>i\<close> on.\<close>

definition laid :: "'a list \<Rightarrow> nat \<Rightarrow> nat \<Rightarrow> 'a list \<Rightarrow> 'a list \<Rightarrow> bool" where
  "laid b n i xs c \<longleftrightarrow> length c = length b \<and> ring c n i (length xs) = xs \<and>
     (\<forall>k. length xs \<le> k \<and> k < n \<longrightarrow> c ! ((i + k) mod n) = b ! ((i + k) mod n))"

lemma laid_old:
  assumes "laid b n i xs c" "length xs + l \<le> n"
  shows "ring c n (i + length xs) l = ring b n (i + length xs) l"
  using assms by (intro ring_cong) (simp add: laid_def add.assoc)

lemma laid_before:
  assumes "laid b n i xs c" "length xs + l \<le> n" "(j + l) mod n = i mod n" "j < n"
  shows "ring c n j l = ring b n j l"
proof (rule ring_cong)
  fix k assume k: "k < l"
  have "(i + (n - l + k)) mod n = (j + l + (n - l + k)) mod n" using assms(3) by (metis mod_add_left_eq)
  also have "j + l + (n - l + k) = (j + k) + n" using assms(2) by simp
  finally have "(i + (n - l + k)) mod n = (j + k) mod n" by simp
  moreover have "length xs \<le> n - l + k" "n - l + k < n" using assms(2) k by simp_all
  ultimately show "c ! ((j + k) mod n) = b ! ((j + k) mod n)" using assms(1) unfolding laid_def by metis
qed

lemma laid_one:
  assumes "i + length xs \<le> n" "n \<le> length b" "i < n"
  shows "laid b n i xs (overlay b i xs)"
  unfolding laid_def
proof (intro conjI allI impI)
  have len: "length (overlay b i xs) = length b" using assms by simp
  show "length (overlay b i xs) = length b" by (fact len)
  show "ring (overlay b i xs) n i (length xs) = xs" using assms len by (simp add: ring_one)
  fix k assume k: "length xs \<le> k \<and> k < n"
  have "(i + k) mod n = (if i + k < n then i + k else i + k - n)"
    using k assms by (simp add: mod_once)
  then show "overlay b i xs ! ((i + k) mod n) = b ! ((i + k) mod n)"
    using k assms by (subst nth_overlay) auto
qed

lemma laid_two:
  assumes "i < n" "n - i \<le> length xs" "length xs \<le> n" "n \<le> length b"
  shows "laid b n i xs (overlay (overlay b i (take (n - i) xs)) 0 (drop (n - i) xs))"
  unfolding laid_def
proof (intro conjI allI impI)
  let ?c = "overlay b i (take (n - i) xs)" and ?d = "overlay (overlay b i (take (n - i) xs)) 0 (drop (n - i) xs)"
  have len: "length ?c = length b" "length ?d = length b" using assms by simp_all
  then show "length ?d = length b" by simp
  have at: "?d ! j = (if j < length xs - (n - i) then xs ! (n - i + j) else if i \<le> j \<and> j < n then xs ! (j - i) else b ! j)"
    if "j < n" for j
    using that assms len by (auto simp: nth_overlay)
  show "ring ?d n i (length xs) = xs"
  proof (rule nth_equalityI)
    fix k assume "k < length (ring ?d n i (length xs))"
    then have k: "k < length xs" by simp
    have m: "(i + k) mod n = (if i + k < n then i + k else i + k - n)" using k assms by (simp add: mod_once)
    have "(i + k) mod n < n" using assms by simp
    then show "ring ?d n i (length xs) ! k = xs ! k" using k assms m by (auto simp: at)
  qed simp
  fix k assume k: "length xs \<le> k \<and> k < n"
  have "\<not> i + k < n" using k assms by linarith
  then have m: "(i + k) mod n = i + k - n" using k assms by (simp add: mod_once)
  then have "(i + k) mod n < n" "\<not> (i + k) mod n < length xs - (n - i)" "(i + k) mod n < i" using k assms by linarith+
  then show "?d ! ((i + k) mod n) = b ! ((i + k) mod n)" by (simp add: at)
qed

section \<open>The ring buffer as a list\<close>

definition rb_ok :: "rt_ringbuffer \<Rightarrow> bool" where
  "rb_ok rb \<longleftrightarrow>
     (let n = unat (buffer_size rb); ri = unat (read_index rb); wi = unat (write_index rb)
      in n < 2 ^ 15 \<and> n \<le> length (buffer_ptr rb) \<and> ri < n \<and> wi < n \<and>
        (if read_mirror rb = write_mirror rb then ri \<le> wi else wi \<le> ri))"

definition rb_len :: "rt_ringbuffer \<Rightarrow> nat" where
  "rb_len rb = unat (write_index rb) + (if read_mirror rb = write_mirror rb then 0 else unat (buffer_size rb))
     - unat (read_index rb)"

definition rb_holds :: "rt_ringbuffer \<Rightarrow> buf \<Rightarrow> bool" where
  "rb_holds rb xs \<longleftrightarrow> rb_ok rb \<and>
     xs = ring (buffer_ptr rb) (unat (buffer_size rb)) (unat (read_index rb)) (rb_len rb)"

lemma not_mirror [simp]: "NOT x = y \<longleftrightarrow> x \<noteq> y" "y = NOT x \<longleftrightarrow> x \<noteq> y" for x y :: "1 word"
proof -
  have "bit (NOT x) 0 \<longleftrightarrow> \<not> bit x 0" by (simp add: bit_not_iff)
  moreover have eq: "u = v \<longleftrightarrow> (bit u 0 \<longleftrightarrow> bit v 0)" for u v :: "1 word"
    by (auto intro: bit_word_eqI simp: less_Suc_eq)
  ultimately show "NOT x = y \<longleftrightarrow> x \<noteq> y" by (simp only: eq) blast
  then show "y = NOT x \<longleftrightarrow> x \<noteq> y" by auto
qed

lemma rb_okD:
  assumes "rb_ok rb"
  shows "unat (buffer_size rb) < 2 ^ 15" "unat (buffer_size rb) \<le> length (buffer_ptr rb)"
    "unat (read_index rb) < unat (buffer_size rb)" "unat (write_index rb) < unat (buffer_size rb)"
    "rb_len rb \<le> unat (buffer_size rb)"
    "unat (write_index rb) = (unat (read_index rb) + rb_len rb) mod unat (buffer_size rb)"
  using assms by (auto simp: rb_ok_def rb_len_def Let_def split: if_splits)

lemma unat_index: "unat (ucast (i :: 15 word) :: u32) = unat i" "unat (ucast (s :: u16) :: u32) = unat s"
  using unsigned_less [of i, where ?'a = nat] unsigned_less [of s, where ?'a = nat]
  by (simp_all add: unsigned_ucast_eq take_bit_nat_eq_self)

lemma data_len: "rb_ok rb \<Longrightarrow> unat (rt_ringbuffer_data_len rb) = rb_len rb"
proof -
  assume ok: "rb_ok rb"
  let ?wi = "ucast (write_index rb) :: u32" and ?ri = "ucast (read_index rb) :: u32" and ?n = "ucast (buffer_size rb) :: u32"
  have "unat (?n - (?ri - ?wi)) = unat ?n - (unat ?ri - unat ?wi)" if "\<not> ?ri < ?wi"
    using that rb_okD(3) [OF ok] by (simp add: unat_sub word_le_nat_alt not_less unat_index)
  moreover have "unat (?wi - ?ri) = unat ?wi - unat ?ri" if "?ri < ?wi"
    using that by (simp add: unat_sub)
  ultimately show ?thesis
    using ok rb_okD(3,4) [OF ok]
    by (auto simp: rt_ringbuffer_data_len_def rt_ringbuffer_status_def rb_len_def rb_ok_def Let_def unat_index word_less_nat_alt word_unat_eq_iff
      split: if_splits)
qed

lemma space_len: "rb_ok rb \<Longrightarrow> unat (rt_ringbuffer_space_len rb) = unat (buffer_size rb) - rb_len rb"
  using data_len [of rb] rb_okD(5) [of rb]
  by (simp add: rt_ringbuffer_space_len_def unat_sub word_le_nat_alt unat_index)

lemma space16: "rb_ok rb \<Longrightarrow> unat (ucast (rt_ringbuffer_space_len rb) :: u16) = unat (buffer_size rb) - rb_len rb"
  using space_len [of rb] rb_okD(1) [of rb]
  by (simp add: unsigned_ucast_eq take_bit_nat_eq_self)

section \<open>Putting and getting\<close>

lemma unat_of_nat15: "k < 2 ^ 15 \<Longrightarrow> unat (of_nat k :: 15 word) = k"
  by (simp add: unsigned_of_nat take_bit_nat_eq_self)

lemma store_laid:
  assumes ok: "rb_ok rb" and l: "l \<le> unat (buffer_size rb)" "l \<le> length ptr"
  obtains c wm wi where "rb_store ptr l rb = Some (rb\<lparr>buffer_ptr := c, write_mirror := wm, write_index := wi\<rparr>)"
    "laid (buffer_ptr rb) (unat (buffer_size rb)) (unat (write_index rb)) (take l ptr) c"
    "unat wi = (unat (write_index rb) + l) mod unat (buffer_size rb)"
    "wm = (if unat (buffer_size rb) \<le> unat (write_index rb) + l then NOT (write_mirror rb) else write_mirror rb)"
proof -
  let ?n = "unat (buffer_size rb)" and ?w = "unat (write_index rb)" and ?b = "buffer_ptr rb"
  note d = rb_okD [OF ok]
  show ?thesis
  proof (cases "?w + l < ?n")
    case True
    let ?c = "overlay ?b ?w (take l ptr)"
    have "write_index rb + of_nat l = of_nat (?w + l)" by simp
    then have "unat (write_index rb + of_nat l) = ?w + l"
      using True d(1) by (simp only: unat_of_nat15)
    moreover have "laid ?b ?n ?w (take l ptr) ?c" using laid_one [of ?w "take l ptr" ?n ?b] True d l by simp
    moreover have "rb_store ptr l rb = Some (rb\<lparr>buffer_ptr := ?c, write_mirror := write_mirror rb, write_index := write_index rb + of_nat l\<rparr>)"
      using True d l by (simp add: rb_store_def Let_def buf_read_def buf_write_def less_diff_conv)
    ultimately show ?thesis using True by (intro that) auto
  next
    case False
    let ?f = "?n - ?w"
    let ?c = "overlay (overlay ?b ?w (take ?f ptr)) 0 (take (l - ?f) (drop ?f ptr))"
    have "l - ?f < ?n" using l d(4) by simp
    then have "unat (of_nat (l - ?f) :: 15 word) = l - ?f" using d(1) by (intro unat_of_nat15) simp
    moreover have "(?w + l) mod ?n = l - ?f" using False l d(4) by (simp add: le_mod_geq)
    moreover have "laid ?b ?n ?w (take l ptr) ?c"
      using laid_two [of ?w ?n "take l ptr" ?b] False d l by (simp add: min_absorb1 drop_take)
    moreover have "rb_store ptr l rb = Some (rb\<lparr>buffer_ptr := ?c, write_mirror := NOT (write_mirror rb), write_index := of_nat (l - ?f)\<rparr>)"
    proof -
      have "\<not> ?n < ?w" "\<not> l < ?f" "?f + (l - ?f) = l" "l - ?f \<le> length ?b" "?w + ?f \<le> length ?b" "?f \<le> length ptr"
        using False d(1-4) l by linarith+
      then show ?thesis using l(2) False by (simp add: rb_store_def Let_def buf_read_def buf_write_def less_diff_conv add.commute)
    qed
    ultimately show ?thesis using False by (intro that) auto
  qed
qed

text \<open>After a store: the bytes follow those that were there, or push out the oldest.\<close>

lemma store_holds:
  assumes h: "rb_holds rb xs" and l: "length xs + l \<le> unat (buffer_size rb)" "l \<le> length ptr"
  shows "\<exists>rb'. rb_store ptr l rb = Some rb' \<and> rb_holds rb' (xs @ take l ptr) \<and> buffer_size rb' = buffer_size rb"
proof -
  let ?n = "unat (buffer_size rb)" and ?w = "unat (write_index rb)" and ?r = "unat (read_index rb)" and ?b = "buffer_ptr rb"
  have ok: "rb_ok rb" and xs: "xs = ring ?b ?n ?r (rb_len rb)" using h by (simp_all add: rb_holds_def)
  note d = rb_okD [OF ok]
  have len: "length xs = rb_len rb" using xs by simp
  have ln: "l \<le> ?n" using l(1) by simp
  obtain c wm wi where s: "rb_store ptr l rb = Some (rb\<lparr>buffer_ptr := c, write_mirror := wm, write_index := wi\<rparr>)"
    "laid ?b ?n ?w (take l ptr) c" "unat wi = (?w + l) mod ?n"
    "wm = (if ?n \<le> ?w + l then NOT (write_mirror rb) else write_mirror rb)"
    by (rule store_laid [OF ok ln l(2)])
  let ?rb = "rb\<lparr>buffer_ptr := c, write_mirror := wm, write_index := wi\<rparr>"
  have lc: "length c = length ?b" using s(2) by (simp add: laid_def)
  have wi: "unat wi = (if ?w + l < ?n then ?w + l else ?w + l - ?n)"
    using s(3) d(4) ln by (cases "l = ?n") (simp_all add: mod_once)
  have ok': "rb_ok ?rb" and len': "rb_len ?rb = rb_len rb + l"
    using ok wi s(4) l(1) len lc by (auto simp: rb_ok_def rb_len_def Let_def split: if_splits)
  have "ring c ?n ?r (rb_len rb) = ring ?b ?n ?r (rb_len rb)"
    using laid_before [OF s(2), of "rb_len rb" ?r] l len d(3,4,6) by (simp add: add.commute)
  moreover have "ring c ?n (?r + rb_len rb) l = take l ptr"
    using s(2) l(2) ring_mod [of c ?n "?r + rb_len rb"] d(6) by (simp add: laid_def)
  ultimately have "ring c ?n ?r (rb_len rb + l) = xs @ take l ptr" using xs by (simp add: ring_add)
  then have "rb_holds ?rb (xs @ take l ptr)" using ok' len' by (simp add: rb_holds_def)
  then show ?thesis using s(1) by auto
qed

lemma put_holds_list:
  assumes h: "rb_holds rb xs" and p: "unat n \<le> length ptr"
  defines "l \<equiv> min (unat n) (unat (buffer_size rb) - length xs)"
  shows "\<exists>rb'. rt_ringbuffer_put rb ptr n = Some (rb', of_nat l) \<and> rb_holds rb' (xs @ take l ptr) \<and> buffer_size rb' = buffer_size rb"
proof -
  have ok: "rb_ok rb" and len: "length xs = rb_len rb" using h by (simp_all add: rb_holds_def)
  let ?s = "ucast (rt_ringbuffer_space_len rb) :: u16"
  have s: "unat ?s = unat (buffer_size rb) - length xs" using space16 [OF ok] len by simp
  show ?thesis
  proof (cases "?s = 0")
    case True
    then have "l = 0" using s by (simp add: l_def)
    then show ?thesis using h True by (simp add: rt_ringbuffer_put_def)
  next
    case False
    let ?n = "if ?s < n then ?s else n"
    have l: "unat ?n = l" using s by (auto simp: l_def word_less_nat_alt)
    have "l < 2 ^ 16" using l unsigned_less [of ?n, where ?'a = nat] by simp
    then have "ucast ?n = (of_nat l :: u32)" unfolding l [symmetric] by (simp add: word_unat_eq_iff unat_index)
    moreover have "length xs + l \<le> unat (buffer_size rb)" "l \<le> length ptr"
      using p rb_okD(5) [OF ok] len by (auto simp: l_def)
    ultimately show ?thesis
      using store_holds [OF h, of l ptr] False l by (auto simp: rt_ringbuffer_put_def Let_def)
  qed
qed

lemma newest:
  assumes xs: "xs = ring b n r m" and l: "m \<le> n" "l \<le> n" "n < m + l" "r < n" and laid: "laid b n ((r + m) mod n) ys c" "length ys = l"
  shows "ring c n ((r + m) mod n + l) n = drop (m + l - n) xs @ ys"
proof -
  let ?w = "(r + m) mod n"
  have "ring c n (?w + l) n = ring c n (?w + l) (n - l) @ ring c n (?w + n) l"
    using ring_add [of c n "?w + l" "n - l" l] l by simp
  also have "ring c n (?w + n) l = ys"
    using laid ring_mod [of c n "?w + n" l] ring_mod [of c n ?w l] by (simp add: laid_def)
  also have "ring c n (?w + l) (n - l) = ring b n (?w + l) (n - l)"
    using laid_old [OF laid(1), of "n - l"] laid(2) l by simp
  also have "\<dots> = ring b n (r + (m + l - n)) (n - l)"
  proof -
    have "(?w + l) mod n = (r + m + l) mod n" by (simp add: mod_add_left_eq)
    also have "r + m + l = r + (m + l - n) + n" using l by simp
    finally have "(?w + l) mod n = (r + (m + l - n)) mod n" by simp
    then show ?thesis using ring_mod [of b n "?w + l" "n - l"] ring_mod [of b n "r + (m + l - n)" "n - l"] by simp
  qed
  also have "\<dots> = drop (m + l - n) xs" using xs l drop_ring [of "m + l - n" m b n r] by simp
  finally show ?thesis .
qed

lemma force_holds:
  assumes h: "rb_holds rb xs" and p: "unat n \<le> length ptr"
  defines "m \<equiv> unat (buffer_size rb)"
  defines "zs \<equiv> xs @ take (unat n) ptr"
  shows "\<exists>rb'. rt_ringbuffer_put_force rb ptr n = Some (rb', of_nat (min (unat n) m)) \<and>
    rb_holds rb' (drop (length zs - m) zs) \<and> buffer_size rb' = buffer_size rb"
proof -
  have ok: "rb_ok rb" and len: "length xs = rb_len rb" and xs: "xs = ring (buffer_ptr rb) m (unat (read_index rb)) (rb_len rb)"
    using h by (simp_all add: rb_holds_def m_def)
  note d = rb_okD [OF ok, folded m_def]
  let ?w = "unat (write_index rb)" and ?r = "unat (read_index rb)" and ?b = "buffer_ptr rb"
  let ?s = "ucast (rt_ringbuffer_space_len rb) :: u16"
  let ?k = "unat n - m" and ?n = "if buffer_size rb < n then buffer_size rb else n"
  define l where "l = min (unat n) m"
  have s: "unat ?s = m - length xs" using space16 [OF ok] len by (simp add: m_def)
  have nl: "unat ?n = l" by (simp add: l_def m_def word_less_nat_alt min_def)
  have pt: "(if buffer_size rb < n then drop (unat (n - buffer_size rb)) ptr else ptr) = drop ?k ptr"
    by (simp add: m_def word_less_nat_alt unat_sub word_le_nat_alt)
  have ln: "l \<le> m" "l \<le> length (drop ?k ptr)" using p by (auto simp: l_def)
  have "ucast ?n = (of_nat l :: u32)" unfolding nl [symmetric] by (simp add: word_unat_eq_iff unat_index)
  then have body: "rt_ringbuffer_put_force rb ptr n = map_option (\<lambda>rb'.
       (if m < length xs + l then
          (if m \<le> ?w + l \<and> write_index rb' \<le> read_index rb'
           then rb'\<lparr>read_mirror := NOT (read_mirror rb'), read_index := write_index rb'\<rparr>
           else rb'\<lparr>read_index := write_index rb'\<rparr>)
        else rb', of_nat l)) (rb_store (drop ?k ptr) l rb)"
  proof -
    have "?s < ?n \<longleftrightarrow> m < length xs + l"
      using s nl d(5) len by (auto simp: word_less_nat_alt)
    moreover have "unat (buffer_size rb) - ?w \<le> unat ?n \<longleftrightarrow> m \<le> ?w + l"
      unfolding nl m_def by auto
    ultimately show ?thesis
      using \<open>ucast ?n = (of_nat l :: u32)\<close> unfolding rt_ringbuffer_put_force_def Let_def pt nl
      by (intro arg_cong2 [where f = map_option] ext) auto
  qed
  have zs: "drop (length zs - m) zs = drop (length xs + l - m) xs @ take l (drop ?k ptr)"
    using p d(5) len by (cases "unat n \<le> m") (simp_all add: zs_def l_def drop_take)
  show ?thesis
  proof (cases "m < length xs + l")
    case False
    then have "length xs + l \<le> unat (buffer_size rb)" by (simp add: m_def)
    from store_holds [OF h this ln(2)] obtain rb' where "rb_store (drop ?k ptr) l rb = Some rb'"
      "rb_holds rb' (xs @ take l (drop ?k ptr))" "buffer_size rb' = buffer_size rb" by auto
    then show ?thesis using body False zs by (simp add: l_def)
  next
    case True
    obtain c wm wi where st: "rb_store (drop ?k ptr) l rb = Some (rb\<lparr>buffer_ptr := c, write_mirror := wm, write_index := wi\<rparr>)"
      "laid ?b m ?w (take l (drop ?k ptr)) c" "unat wi = (?w + l) mod m"
      "wm = (if m \<le> ?w + l then NOT (write_mirror rb) else write_mirror rb)"
      by (rule store_laid [OF ok ln(1) [unfolded m_def] ln(2), folded m_def])
    have wi: "unat wi = (if ?w + l < m then ?w + l else ?w + l - m)"
      using st(3) d(4) ln(1) by (cases "l = m") (simp_all add: mod_once)
    have less: "wi \<le> read_index rb \<longleftrightarrow> unat wi \<le> ?r" by (simp add: word_le_nat_alt)
    define rm where "rm = (if m \<le> ?w + l \<and> wi \<le> read_index rb then NOT (read_mirror rb) else read_mirror rb)"
    let ?rb = "rb\<lparr>buffer_ptr := c, write_mirror := wm, write_index := wi, read_mirror := rm, read_index := wi\<rparr>"
    have "rt_ringbuffer_put_force rb ptr n = Some (?rb, of_nat l)"
      using body True st(1) by (simp add: rm_def)
    moreover have differ: "rm \<noteq> wm"
      using ok True wi st(4) less len ln(1) unfolding rm_def rb_ok_def rb_len_def Let_def m_def
      by (auto split: if_splits)
    moreover have lc: "length c = length ?b" using st(2) by (simp add: laid_def)
    moreover have "unat wi < m" using st(3) d(3) by simp
    ultimately have ok': "rb_ok ?rb" "rb_len ?rb = m"
      using d(1,2) by (simp_all add: rb_ok_def rb_len_def m_def)
    have "ring c m (unat wi) m = drop (length xs + l - m) xs @ take l (drop ?k ptr)"
    proof -
      have "m < rb_len rb + l" "laid ?b m ((?r + rb_len rb) mod m) (take l (drop ?k ptr)) c" "length (take l (drop ?k ptr)) = l"
        using True len st(2) d(6) ln by simp_all
      from newest [OF xs d(5) ln(1) this(1) d(3) this(2,3)] show ?thesis
        using ring_mod [of c m "(?r + rb_len rb) mod m + l" m] st(3) d(6) len by simp
    qed
    then have "rb_holds ?rb (drop (length zs - m) zs)" using ok' zs by (simp add: rb_holds_def m_def)
    then show ?thesis
      using \<open>rt_ringbuffer_put_force rb ptr n = Some (?rb, of_nat l)\<close> by (simp add: l_def)
  qed
qed


text \<open>Reading moves the read index on; the bytes stay where they are.\<close>

lemma advance_holds:
  assumes h: "rb_holds rb xs" and l: "l \<le> length xs"
    and i: "unat i = (unat (read_index rb) + l) mod unat (buffer_size rb)"
    and mi: "mi = (if unat (buffer_size rb) \<le> unat (read_index rb) + l then NOT (read_mirror rb) else read_mirror rb)"
  shows "rb_holds (rb\<lparr>read_mirror := mi, read_index := i\<rparr>) (drop l xs)"
proof -
  let ?n = "unat (buffer_size rb)" and ?r = "unat (read_index rb)" and ?b = "buffer_ptr rb"
  let ?rb = "rb\<lparr>read_mirror := mi, read_index := i\<rparr>"
  have ok: "rb_ok rb" and xs: "xs = ring ?b ?n ?r (rb_len rb)" using h by (simp_all add: rb_holds_def)
  have len: "length xs = rb_len rb" using xs by simp
  note d = rb_okD [OF ok]
  have i': "unat i = (if ?r + l < ?n then ?r + l else ?r + l - ?n)"
    using i d(3,5) l len by (cases "l = ?n") (simp_all add: mod_once)
  have ok': "rb_ok ?rb" "rb_len ?rb = rb_len rb - l"
    using ok i' mi l len by (auto simp: rb_ok_def rb_len_def Let_def split: if_splits)
  have "drop l xs = ring ?b ?n (?r + l) (rb_len rb - l)" using drop_ring l len xs by metis
  also have "\<dots> = ring ?b ?n (unat i) (rb_len rb - l)" by (simp only: i ring_mod)
  finally show ?thesis using ok' by (simp add: rb_holds_def)
qed

lemma overlay_two:
  "length xs = k \<Longrightarrow> k + length ys \<le> length p \<Longrightarrow> overlay (overlay p 0 xs) k ys = overlay p 0 (xs @ ys)"
  by (auto simp: overlay_def add.commute)

lemma get_holds_list:
  assumes h: "rb_holds rb xs"
    and p': "min (unat n) (length xs) \<le> length ptr"
  defines "l \<equiv> min (unat n) (length xs)"
  shows "\<exists>rb'. rt_ringbuffer_get rb ptr n = Some (rb', overlay ptr 0 (take l xs), of_nat l) \<and>
    rb_holds rb' (drop l xs) \<and> buffer_size rb' = buffer_size rb"
proof -
  let ?n = "unat (buffer_size rb)" and ?r = "unat (read_index rb)" and ?b = "buffer_ptr rb"
  have ok: "rb_ok rb" and xs: "xs = ring ?b ?n ?r (rb_len rb)" using h by (simp_all add: rb_holds_def)
  have len: "length xs = rb_len rb" using xs by simp
  note d = rb_okD [OF ok]
  let ?d = "rt_ringbuffer_data_len rb"
  have dl: "unat ?d = length xs" using data_len [OF ok] len by simp
  let ?l = "if ?d < ucast n then ucast ?d else n"
  have l16: "length xs < 2 ^ 16" using d(1,5) len by simp
  have un: "unat ?l = l"
    using dl l16 by (auto simp: l_def word_less_nat_alt unat_index unsigned_ucast_eq take_bit_nat_eq_self)
  have uc: "ucast ?l = (of_nat l :: u32)" unfolding un [symmetric] by (simp add: word_unat_eq_iff unat_index)
  have ln: "l \<le> length xs" and p: "l \<le> length ptr" using p' by (simp_all add: l_def)
  have tk: "take l xs = ring ?b ?n ?r l" using xs ln len take_ring by metis
  show ?thesis
  proof (cases "?d = 0")
    case True
    then have "length xs = 0" using dl by simp
    then show ?thesis using True h by (simp add: l_def rt_ringbuffer_get_def overlay_def)
  next
    case False
    show ?thesis
    proof (cases "?r + l < ?n")
      case True
      let ?rb = "rb\<lparr>read_index := read_index rb + of_nat l\<rparr>"
      have "read_index rb + of_nat l = of_nat (?r + l)" by simp
      then have "unat (read_index rb + of_nat l) = ?r + l" using True d(1) by (simp only: unat_of_nat15)
      then have "rb_holds ?rb (drop l xs)"
        using advance_holds [OF h ln, of "read_index rb + of_nat l" "read_mirror rb"] True by simp
      moreover have "rt_ringbuffer_get rb ptr n = Some (?rb, overlay ptr 0 (take l xs), of_nat l)"
        using True d p False un uc unfolding rt_ringbuffer_get_def Let_def tk
        by (auto simp: buf_read_def buf_write_def ring_one less_diff_conv)
      ultimately show ?thesis by simp
    next
      case wrap: False
      let ?f = "?n - ?r"
      let ?rb = "rb\<lparr>read_mirror := NOT (read_mirror rb), read_index := of_nat (l - ?f)\<rparr>"
      have "l - ?f < ?n" using ln d(3,5) len by simp
      then have "unat (of_nat (l - ?f) :: 15 word) = l - ?f" using d(1) by (intro unat_of_nat15) simp
      moreover have "(?r + l) mod ?n = l - ?f" using wrap ln d(3,5) len by (simp add: le_mod_geq)
      ultimately have "rb_holds ?rb (drop l xs)"
        using advance_holds [OF h ln, of "of_nat (l - ?f)" "NOT (read_mirror rb)"] wrap by simp
      moreover have "rt_ringbuffer_get rb ptr n = Some (?rb, overlay ptr 0 (take l xs), of_nat l)"
      proof -
        have two: "take l xs = take ?f (drop ?r ?b) @ take (l - ?f) ?b"
          unfolding tk using ring_two [of ?r ?n l ?b] wrap ln d(2,3,5) len by simp
        have "\<not> ?n < ?r" "\<not> l < ?f" "?f \<le> length ptr" "?f + (l - ?f) = l" "l - ?f \<le> length ?b" "?r + ?f \<le> length ?b"
          using wrap ln d(2,3,5) len p by linarith+
        moreover from this have "length (take ?f (drop ?r ?b)) = ?f" "length (take (l - ?f) ?b) = l - ?f" by simp_all
        moreover from calculation have ov: "overlay (overlay ptr 0 (take ?f (drop ?r ?b))) ?f (take (l - ?f) ?b) =
            overlay ptr 0 (take ?f (drop ?r ?b) @ take (l - ?f) ?b)"
          using p by (intro overlay_two) simp_all
        ultimately show ?thesis
          using False un uc p wrap unfolding rt_ringbuffer_get_def Let_def two ov [symmetric]
          by (simp add: buf_read_def buf_write_def less_diff_conv add.commute del: length_take)
      qed
      ultimately show ?thesis by simp
    qed
  qed
qed

text \<open>The byte operations are the block operations on one byte.\<close>

lemma store_byte:
  assumes "rb_ok rb"
  shows "rb_store [ch] 1 rb = map_option (\<lambda>rb'.
      if int (unat (write_index rb')) = int (unat (buffer_size rb')) - 1
      then rb'\<lparr>write_mirror := NOT (write_mirror rb'), write_index := 0\<rparr>
      else rb'\<lparr>write_index := write_index rb' + 1\<rparr>) (rb_put_byte ch rb)"
proof -
  let ?n = "unat (buffer_size rb)" and ?w = "unat (write_index rb)"
  note d = rb_okD [OF assms]
  have ov: "overlay (buffer_ptr rb) ?w [ch] = (buffer_ptr rb)[?w := ch]"
    using d(2,4) by (simp add: overlay_def upd_conv_take_nth_drop)
  have "int ?w = int ?n - 1 \<longleftrightarrow> ?n - ?w = 1" using d(4) by linarith
  then show ?thesis
    using d(2,4) by (auto simp: rb_store_def rb_put_byte_def Let_def buf_read_def buf_write_def ov)
qed

lemma putchar_is_put: "rb_ok rb \<Longrightarrow> rt_ringbuffer_putchar rb ch = rt_ringbuffer_put rb [ch] 1"
  using store_byte [of rb ch] space_len [of rb] space16 [of rb]
  by (auto simp: rt_ringbuffer_putchar_def rt_ringbuffer_put_def Let_def option.map_comp comp_def unat_eq_zero word_less_1)

lemma putchar_force_is_put_force:
  assumes "rb_ok rb"
  shows "rt_ringbuffer_putchar_force rb ch = rt_ringbuffer_put_force rb [ch] 1"
proof -
  note d = rb_okD [OF assms]
  have full: "rt_ringbuffer_status rb = RT_RINGBUFFER_FULL \<longleftrightarrow> (ucast (rt_ringbuffer_space_len rb) :: u16) < 1"
    using assms space16 [OF assms] d(3-5)
    by (auto simp: rt_ringbuffer_status_def rb_len_def rb_ok_def word_less_nat_alt word_unat_eq_iff Let_def split: if_splits)
  have "\<not> buffer_size rb < 1" using d(3) by (auto simp: word_less_nat_alt)
  moreover have "int (unat (write_index rb)) = int (unat (buffer_size rb)) - 1 \<longleftrightarrow>
      unat (buffer_size rb) - unat (write_index rb) \<le> 1" using d(4) by linarith
  ultimately show ?thesis using store_byte [OF assms, of ch]
    unfolding rt_ringbuffer_putchar_force_def rt_ringbuffer_put_force_def full Let_def
    by (auto simp: option.map_comp comp_def rb_put_byte_def)
qed

lemma getchar_holds:
  assumes h: "rb_holds rb (x # xs)"
  shows "\<exists>rb'. rt_ringbuffer_getchar rb = Some (rb', Some x) \<and> rb_holds rb' xs \<and> buffer_size rb' = buffer_size rb"
proof -
  let ?n = "unat (buffer_size rb)" and ?r = "unat (read_index rb)" and ?b = "buffer_ptr rb"
  have ok: "rb_ok rb" and xs: "x # xs = ring ?b ?n ?r (rb_len rb)" using h by (simp_all add: rb_holds_def)
  note d = rb_okD [OF ok]
  have len: "rb_len rb = Suc (length xs)" using xs [THEN arg_cong [where f = length]] by simp
  have x: "x = ?b ! ?r" using arg_cong [OF xs, of "\<lambda>l. l ! 0"] len d(3) by simp
  have "rt_ringbuffer_data_len rb \<noteq> 0" using data_len [OF ok] len by (auto simp: word_unat_eq_iff)
  moreover have "int ?r = int ?n - 1 \<longleftrightarrow> ?n \<le> ?r + 1" using d(3) by linarith
  moreover have "unat (read_index rb + 1) = ?r + 1" if "?r + 1 < ?n"
  proof -
    have "read_index rb + 1 = of_nat (?r + 1)" by simp
    then show ?thesis using that d(1) by (simp only: unat_of_nat15)
  qed
  ultimately show ?thesis
    using d(2,3) x advance_holds [OF h, of 1 0 "NOT (read_mirror rb)"]
      advance_holds [OF h, of 1 "read_index rb + 1" "read_mirror rb"]
    by (cases "?r + 1 < ?n") (auto simp: rt_ringbuffer_getchar_def not_less dest: le_antisym)
qed

lemma getchar_empty: "rb_holds rb [] \<Longrightarrow> rt_ringbuffer_getchar rb = Some (rb, None)"
proof -
  assume h: "rb_holds rb []"
  then have "unat (rt_ringbuffer_data_len rb) = 0"
    using data_len [of rb] by (metis length_ring list.size(3) rb_holds_def)
  then show ?thesis by (simp add: rt_ringbuffer_getchar_def unat_eq_zero)
qed

lemma peak_holds:
  assumes h: "rb_holds rb xs"
  shows "\<exists>rb' p k. rt_ringbuffer_peak rb = (rb', p, k) \<and> rb_holds rb' (drop (unat k) xs) \<and> buffer_size rb' = buffer_size rb \<and>
    buffer_ptr rb' = buffer_ptr rb \<and> unat k \<le> length xs \<and>
    (if xs = [] then p = None \<and> k = 0 else
      0 < unat k \<and> (\<exists>i. p = Some i \<and> buf_read (buffer_ptr rb) i (unat k) = Some (take (unat k) xs)))"
proof -
  let ?n = "unat (buffer_size rb)" and ?r = "unat (read_index rb)" and ?b = "buffer_ptr rb"
  have ok: "rb_ok rb" and xs: "xs = ring ?b ?n ?r (rb_len rb)" using h by (simp_all add: rb_holds_def)
  have len: "rb_len rb = length xs" using xs by simp
  note d = rb_okD [OF ok]
  let ?d = "rt_ringbuffer_data_len rb" and ?f = "ucast (buffer_size rb) - ucast (read_index rb) :: u32"
  have dl: "unat ?d = length xs" using data_len [OF ok] len by simp
  have f: "unat ?f = ?n - ?r" using d(3) by (simp add: unat_sub word_le_nat_alt unat_index)
  have piece: "buf_read ?b ?r l = Some (take l xs)" if "?r + l \<le> ?n" "l \<le> length xs" for l
  proof -
    have "take l xs = ring ?b ?n ?r l" using xs len that(2) take_ring by metis
    then show ?thesis using that d(2) by (simp add: ring_one buf_read_def)
  qed
  show ?thesis
  proof (cases "?d = 0 \<or> ?d < ?f")
    case True
    have "read_index rb + ucast ?d = of_nat (?r + length xs)"
      unfolding dl [symmetric] by simp
    then have "unat (read_index rb + ucast ?d) = ?r + length xs" if "?d < ?f"
      using that dl f d(1) by (simp add: word_less_nat_alt unat_of_nat15 del: of_nat_add)
    then show ?thesis
      using True h dl f piece [of "length xs"] advance_holds [OF h, of "length xs" "read_index rb + ucast ?d" "read_mirror rb"]
      by (auto simp: rt_ringbuffer_peak_def Let_def word_less_nat_alt unat_eq_zero)
  next
    case False
    then have le: "?n - ?r \<le> length xs" using dl f by (simp add: word_less_nat_alt)
    then have "rb_holds (rb\<lparr>read_mirror := NOT (read_mirror rb), read_index := 0\<rparr>) (drop (?n - ?r) xs)"
      using advance_holds [OF h le, of 0 "NOT (read_mirror rb)"] d(3) by simp
    then show ?thesis
      using False f le d(3) piece [of "?n - ?r"] by (auto simp: rt_ringbuffer_peak_def Let_def)
  qed
qed

section \<open>Any mix of operations\<close>

text \<open>The operations with their arguments, and what the caller gets back.\<close>

datatype rb_op = PutBlock buf u16 | ForceBlock buf u16 | GetBlock buf u16 | PutByte u8 | ForceByte u8 | GetByte | Peak | Reset

datatype rb_reply = Count u32 | Block buf u32 | OneByte "u8 option" | Stretch "buf option" u32 | Done

fun rb_exec :: "rb_op \<Rightarrow> rt_ringbuffer \<Rightarrow> (rb_reply \<times> rt_ringbuffer) option" where
  "rb_exec (PutBlock p n) rb = map_option (\<lambda>(rb, k). (Count k, rb)) (rt_ringbuffer_put rb p n)"
| "rb_exec (ForceBlock p n) rb = map_option (\<lambda>(rb, k). (Count k, rb)) (rt_ringbuffer_put_force rb p n)"
| "rb_exec (GetBlock p n) rb = map_option (\<lambda>(rb, p, k). (Block p k, rb)) (rt_ringbuffer_get rb p n)"
| "rb_exec (PutByte c) rb = map_option (\<lambda>(rb, k). (Count k, rb)) (rt_ringbuffer_putchar rb c)"
| "rb_exec (ForceByte c) rb = map_option (\<lambda>(rb, k). (Count k, rb)) (rt_ringbuffer_putchar_force rb c)"
| "rb_exec GetByte rb = map_option (\<lambda>(rb, c). (OneByte c, rb)) (rt_ringbuffer_getchar rb)"
| "rb_exec Peak rb =
     (let (rb', p, k) = rt_ringbuffer_peak rb
      in case p of None \<Rightarrow> Some (Stretch None k, rb')
         | Some i \<Rightarrow> map_option (\<lambda>xs. (Stretch (Some xs) k, rb')) (buf_read (buffer_ptr rb) i (unat k)))"
| "rb_exec Reset rb = Some (Done, rt_ringbuffer_reset rb)"

fun rb_run :: "rb_op list \<Rightarrow> rt_ringbuffer \<Rightarrow> (rb_reply list \<times> rt_ringbuffer) option" where
  "rb_run [] rb = Some ([], rb)"
| "rb_run (a # as) rb =
     Option.bind (rb_exec a rb) (\<lambda>(r, rb). map_option (\<lambda>(rs, rb). (r # rs, rb)) (rb_run as rb))"

text \<open>The caller's arrays are as long as the caller says.\<close>

fun rb_caller_ok :: "rb_op \<Rightarrow> bool" where
  "rb_caller_ok (PutBlock p n) \<longleftrightarrow> unat n \<le> length p"
| "rb_caller_ok (ForceBlock p n) \<longleftrightarrow> unat n \<le> length p"
| "rb_caller_ok (GetBlock p n) \<longleftrightarrow> unat n \<le> length p"
| "rb_caller_ok _ \<longleftrightarrow> True"

text \<open>The last \<open>m\<close> elements.\<close>

definition newest_of :: "nat \<Rightarrow> 'a list \<Rightarrow> 'a list" where
  "newest_of m xs = drop (length xs - m) xs"

text \<open>
  The specification over a list of bytes, oldest first: given the size \<open>m\<close> and the bytes \<open>xs\<close>,
  whether the reply \<open>r\<close> and the bytes \<open>ys\<close> left behind are right. Only \<open>Peak\<close> leaves a choice:
  how many of the bytes it hands out in one piece.
\<close>

fun rb_spec :: "nat \<Rightarrow> rb_op \<Rightarrow> buf \<Rightarrow> rb_reply \<Rightarrow> buf \<Rightarrow> bool" where
  "rb_spec m (PutBlock p n) xs r ys \<longleftrightarrow>
     (let k = min (unat n) (m - length xs) in r = Count (of_nat k) \<and> ys = xs @ take k p)"
| "rb_spec m (ForceBlock p n) xs r ys \<longleftrightarrow>
     r = Count (of_nat (min (unat n) m)) \<and> ys = newest_of m (xs @ take (unat n) p)"
| "rb_spec m (GetBlock p n) xs r ys \<longleftrightarrow>
     (let k = min (unat n) (length xs) in r = Block (take k xs @ drop k p) (of_nat k) \<and> ys = drop k xs)"
| "rb_spec m (PutByte c) xs r ys \<longleftrightarrow>
     (if length xs < m then r = Count 1 \<and> ys = xs @ [c] else r = Count 0 \<and> ys = xs)"
| "rb_spec m (ForceByte c) xs r ys \<longleftrightarrow> r = Count 1 \<and> ys = newest_of m (xs @ [c])"
| "rb_spec m GetByte xs r ys \<longleftrightarrow>
     (case xs of [] \<Rightarrow> r = OneByte None \<and> ys = [] | x # xs \<Rightarrow> r = OneByte (Some x) \<and> ys = xs)"
| "rb_spec m Peak xs r ys \<longleftrightarrow>
     (case r of Stretch None k \<Rightarrow> k = 0 \<and> xs = [] \<and> ys = []
      | Stretch (Some zs) k \<Rightarrow> zs \<noteq> [] \<and> unat k = length zs \<and> xs = zs @ ys
      | _ \<Rightarrow> False)"
| "rb_spec m Reset xs r ys \<longleftrightarrow> r = Done \<and> ys = []"

fun rb_spec_run :: "nat \<Rightarrow> rb_op list \<Rightarrow> buf \<Rightarrow> rb_reply list \<Rightarrow> buf \<Rightarrow> bool" where
  "rb_spec_run m [] xs rs ys \<longleftrightarrow> rs = [] \<and> ys = xs"
| "rb_spec_run m (a # as) xs rs ys \<longleftrightarrow>
     (case rs of [] \<Rightarrow> False | r # rs \<Rightarrow> \<exists>zs. rb_spec m a xs r zs \<and> rb_spec_run m as zs rs ys)"

lemma put_byte_spec:
  assumes "rb_holds rb xs"
  shows "\<exists>r rb' ys. rb_exec (PutByte c) rb = Some (r, rb') \<and> rb_spec (unat (buffer_size rb)) (PutByte c) xs r ys \<and>
    rb_holds rb' ys \<and> buffer_size rb' = buffer_size rb"
proof -
  have ok: "rb_ok rb" using assms by (simp add: rb_holds_def)
  show ?thesis
    using put_holds_list [OF assms, of 1 "[c]"] by (cases "length xs < unat (buffer_size rb)") (fastforce simp: putchar_is_put [OF ok])+
qed

lemma exec_refines:
  assumes h: "rb_holds rb xs" and c: "rb_caller_ok a"
  shows "\<exists>r rb' ys. rb_exec a rb = Some (r, rb') \<and> rb_spec (unat (buffer_size rb)) a xs r ys \<and>
    rb_holds rb' ys \<and> buffer_size rb' = buffer_size rb"
proof (cases a)
  case (PutBlock p n)
  then show ?thesis using put_holds_list [OF h, of n p] c by (auto simp: Let_def)
next
  case (ForceBlock p n)
  then show ?thesis using force_holds [OF h, of n p] c by (auto simp: newest_of_def)
next
  case (GetBlock p n)
  then show ?thesis using get_holds_list [OF h, of n p] c by (auto simp: Let_def overlay_def min_def)
next
  case (PutByte b)
  then show ?thesis using put_byte_spec [OF h] by blast
next
  case (ForceByte b)
  have ok: "rb_ok rb" using h by (simp add: rb_holds_def)
  then show ?thesis
    using force_holds [OF h, of 1 "[b]"] ForceByte rb_okD(3) [OF ok]
    by (auto simp: putchar_force_is_put_force [OF ok] newest_of_def min_def)
next
  case GetByte
  then show ?thesis using getchar_holds [of rb] getchar_empty [of rb] h by (cases xs) auto
next
  case Peak
  obtain rb' p k where pk: "rt_ringbuffer_peak rb = (rb', p, k)" "rb_holds rb' (drop (unat k) xs)" "buffer_size rb' = buffer_size rb"
    "if xs = [] then p = None \<and> k = 0
     else 0 < unat k \<and> (\<exists>i. p = Some i \<and> buf_read (buffer_ptr rb) i (unat k) = Some (take (unat k) xs))"
    "unat k \<le> length xs"
    using peak_holds [OF h] by blast
  then have "rb_exec a rb = Some (Stretch (if xs = [] then None else Some (take (unat k) xs)) k, rb')"
    "rb_spec (unat (buffer_size rb)) a xs (Stretch (if xs = [] then None else Some (take (unat k) xs)) k) (drop (unat k) xs)"
    using Peak by (auto split: if_splits)
  then show ?thesis using pk(2,3) by blast
next
  case Reset
  have "rb_ok rb" using h by (simp add: rb_holds_def)
  then have "rb_holds (rt_ringbuffer_reset rb) []"
    by (auto simp: rb_holds_def rb_ok_def rb_len_def rt_ringbuffer_reset_def Let_def)
  then show ?thesis using Reset by (simp add: rt_ringbuffer_reset_def)
qed

lemma run_refines_list:
  assumes "rb_holds rb xs" "\<forall>a \<in> set as. rb_caller_ok a"
  shows "\<exists>rs rb' ys. rb_run as rb = Some (rs, rb') \<and> rb_spec_run (unat (buffer_size rb)) as xs rs ys \<and> rb_holds rb' ys"
  using assms
proof (induction as arbitrary: rb xs)
  case (Cons a as)
  obtain r rb1 zs where 1: "rb_exec a rb = Some (r, rb1)" "rb_spec (unat (buffer_size rb)) a xs r zs"
    "rb_holds rb1 zs" "buffer_size rb1 = buffer_size rb"
    using exec_refines [OF Cons.prems(1), of a] Cons.prems(2) by auto
  obtain rs rb' ys where "rb_run as rb1 = Some (rs, rb')" "rb_spec_run (unat (buffer_size rb)) as zs rs ys" "rb_holds rb' ys"
    using Cons.IH [OF 1(3)] Cons.prems(2) 1(4) by auto
  then have "rb_run (a # as) rb = Some (r # rs, rb') \<and> rb_spec_run (unat (buffer_size rb)) (a # as) xs (r # rs) ys \<and> rb_holds rb' ys"
    using 1 by auto
  then show ?case by blast
qed simp

lemma align16: "n AND 0xFFFC = push_bit 2 (drop_bit 2 n)" for n :: u16
proof -
  have m: "(0xFFFC :: u16) = NOT (mask 2)" by (simp add: mask_eq_exp_minus_1)
  show ?thesis unfolding m
    by (rule bit_word_eqI) (auto simp: bit_and_iff bit_not_iff bit_mask_iff bit_push_bit_iff bit_drop_bit_eq not_less dest!: le_Suc_ex)
qed

lemma unat_align16: "unat (n AND 0xFFFC) = unat n div 4 * 4" for n :: u16
proof -
  have "unat n div 4 * 4 < 2 ^ 16"
    using unsigned_less [of n, where ?'a = nat] div_times_less_eq_dividend [of "unat n" 4] by simp
  then show ?thesis
    by (simp add: align16 push_bit_eq_mult drop_bit_eq_div unat_word_ariths unat_div)
qed

lemma even_half: "even (u div 2 ^ 15) \<Longrightarrow> 0 \<le> u \<Longrightarrow> u < 2 ^ 16 \<Longrightarrow> u < 2 ^ 15" for u :: int
proof (rule ccontr)
  assume a: "even (u div 2 ^ 15)" "0 \<le> u" "u < 2 ^ 16" "\<not> u < 2 ^ 15"
  then have "u div 2 ^ 15 = 1" by (simp add: div_pos_geq)
  then show False using a(1) by simp
qed

lemma sint16: "0 < sint n \<Longrightarrow> unat n < 2 ^ 15" for n :: u16
proof -
  assume "0 < sint n"
  then have "0 < signed_take_bit 15 (uint n)" by (simp add: sint_uint)
  then have "\<not> signed_take_bit 15 (uint n) < 0" by linarith
  then have "even (uint n div 2 ^ 15)" by (simp only: signed_take_bit_negative_iff bit_iff_odd not_not)
  moreover have "0 \<le> uint n" "uint n < 2 ^ 16" using unsigned_less [of n, where ?'a = int] by simp_all
  ultimately have "uint n < 2 ^ 15" by (rule even_half)
  then have "nat (uint n) < 2 ^ 15" by (simp add: nat_less_iff del: nat_uint_eq)
  then show ?thesis by simp
qed

lemma ring_init_holds:
  assumes i: "rt_ringbuffer_init pool n = Some rb" and n: "4 \<le> unat n" "unat n \<le> length pool"
  shows "rb_holds rb []" "unat (buffer_size rb) = unat n div 4 * 4"
proof -
  have "unat n < 2 ^ 15" and rb: "rb = \<lparr>buffer_ptr = pool, read_mirror = 0, read_index = 0, write_mirror = 0, write_index = 0,
        buffer_size = n AND 0xFFFC\<rparr>"
    using i sint16 by (auto simp: rt_ringbuffer_init_def split: if_splits)
  moreover have "unat n div 4 * 4 \<le> unat n" by simp
  moreover have "0 < unat n div 4 * 4" using n by simp
  ultimately show "rb_holds rb []" "unat (buffer_size rb) = unat n div 4 * 4"
    using n unat_align16 [of n] by (auto simp: rb_holds_def rb_ok_def rb_len_def Let_def)
qed

text \<open>
  The byte operations as the two ends of a bounded queue.
\<close>

definition rb_enq :: "u8 \<Rightarrow> rt_ringbuffer \<Rightarrow> rt_ringbuffer option" where
  "rb_enq c rb = (case rt_ringbuffer_putchar rb c of Some (rb, n) \<Rightarrow> if n = 0 then None else Some rb | None \<Rightarrow> None)"

definition rb_deq :: "rt_ringbuffer \<Rightarrow> (u8 \<times> rt_ringbuffer) option" where
  "rb_deq rb = (case rt_ringbuffer_getchar rb of Some (rb, Some c) \<Rightarrow> Some (c, rb) | _ \<Rightarrow> None)"

interpretation bytes: bounded_fifo rb_holds "\<lambda>_ _. True" "\<lambda>rb. unat (buffer_size rb)" rb_enq rb_deq
proof unfold_locales
  show "\<exists>q'. rb_enq x q = Some q' \<and> rb_holds q' (xs @ [x]) \<and> unat (buffer_size q') = unat (buffer_size q) \<and> (\<lambda>_. True) = (\<lambda>_. True)"
    if "rb_holds q xs" "True" "length xs < unat (buffer_size q)" for q xs x
    using put_byte_spec [OF that(1), of x] that(3) by (auto simp: rb_enq_def)
  show "rb_enq x q = None" if "rb_holds q xs" "length xs = unat (buffer_size q)" for q xs x
    using put_byte_spec [OF that(1), of x] that(2) by (auto simp: rb_enq_def)
  show "\<exists>q'. rb_deq q = Some (x, q') \<and> rb_holds q' xs \<and> unat (buffer_size q') = unat (buffer_size q) \<and> (\<lambda>_. True) = (\<lambda>_. True)"
    if "rb_holds q (x # xs)" for q x xs
    using getchar_holds [OF that] by (auto simp: rb_deq_def)
  show "rb_deq q = None" if "rb_holds q []" for q
    using getchar_empty [OF that] by (simp add: rb_deq_def)
  show "length xs \<le> unat (buffer_size q)" if "rb_holds q xs" for q xs
    using that rb_okD(5) [of q] by (simp add: rb_holds_def)
qed

text \<open>
  C14: Take a ring buffer initialised over a pool of at least four bytes. Any sequence of the eight
  operations stays inside the pool and inside the caller's arrays, and the replies are those of a
  list of bytes bounded by the size rounded down to a multiple of four: puts append what fits,
  forced puts keep the newest bytes, gets and peeks take the oldest.
\<close>
theorem ring_buffer_refines_list:
  assumes "rt_ringbuffer_init pool n = Some rb" "4 \<le> unat n" "unat n \<le> length pool" "\<forall>a \<in> set as. rb_caller_ok a"
  shows "\<exists>rs rb' ys. rb_run as rb = Some (rs, rb') \<and> rb_spec_run (unat n div 4 * 4) as [] rs ys \<and>
    unat (rt_ringbuffer_data_len rb') = length ys"
proof -
  obtain rs rb' ys where "rb_run as rb = Some (rs, rb')" "rb_spec_run (unat (buffer_size rb)) as [] rs ys" "rb_holds rb' ys"
    using run_refines_list [OF ring_init_holds(1) [OF assms(1-3)] assms(4)] by blast
  then show ?thesis using ring_init_holds(2) [OF assms(1-3)] data_len [of rb'] by (auto simp: rb_holds_def)
qed

theorem ring_buffer_refines_list_witness:
  "\<exists>rs rb' ys. rb_run [PutBlock [1, 2, 3] 3, ForceBlock [4, 5, 6] 3, Peak, GetBlock [0, 0] 2]
      (the (rt_ringbuffer_init (replicate 6 0) 6)) = Some (rs, rb') \<and>
    rb_spec_run 4 [PutBlock [1, 2, 3] 3, ForceBlock [4, 5, 6] 3, Peak, GetBlock [0, 0] 2] [] rs ys \<and>
    unat (rt_ringbuffer_data_len rb') = length ys"
proof -
  have "rt_ringbuffer_init (replicate 6 0) 6 = Some (the (rt_ringbuffer_init (replicate 6 0) 6))"
    by (simp add: rt_ringbuffer_init_def)
  from ring_buffer_refines_list [OF this, of "[PutBlock [1, 2, 3] 3, ForceBlock [4, 5, 6] 3, Peak, GetBlock [0, 0] 2]"]
  show ?thesis by simp
qed

lemma no_size_overruns:
  "buffer_size rb = 0 \<Longrightarrow> read_mirror rb = write_mirror rb \<Longrightarrow> unat (write_index rb) \<le> length (buffer_ptr rb) \<Longrightarrow>
   length (buffer_ptr rb) < 4 \<Longrightarrow>
   rb_run (map ForceByte cs) rb = None \<longleftrightarrow> length (buffer_ptr rb) < unat (write_index rb) + length cs"
proof (induction cs arbitrary: rb)
  case (Cons c cs)
  note p = Cons.prems
  have nf: "rt_ringbuffer_status rb \<noteq> RT_RINGBUFFER_FULL" using p(2) by (simp add: rt_ringbuffer_status_def)
  have ne: "int (unat (write_index rb)) \<noteq> - 1" by linarith
  show ?case
  proof (cases "unat (write_index rb) < length (buffer_ptr rb)")
    case True
    let ?rb = "rb\<lparr>buffer_ptr := (buffer_ptr rb)[unat (write_index rb) := c], write_index := write_index rb + 1\<rparr>"
    have "write_index rb + 1 = of_nat (unat (write_index rb) + 1)" by simp
    then have "unat (write_index rb + 1) = unat (write_index rb) + 1" using True p(4) by (simp only: unat_of_nat15) (rule unat_of_nat15, simp)
    moreover have "rb_exec (ForceByte c) rb = Some (Count 1, ?rb)"
      using True nf ne p(1) by (simp add: rt_ringbuffer_putchar_force_def rb_put_byte_def)
    ultimately show ?thesis using Cons.IH [of ?rb] True p by simp
  next
    case False
    then show ?thesis using p by (simp add: rt_ringbuffer_putchar_force_def rb_put_byte_def)
  qed
qed (simp add: not_less)

text \<open>
  Sizes one, two and three are accepted, and the size is rounded down to zero; a forced
  byte then goes past the end of the pool once the pool is used up.
\<close>
theorem ring_of_three_overruns:
  assumes "rt_ringbuffer_init pool n = Some rb" "unat n < 4" "length pool = unat n"
  shows "rb_run (map ForceByte cs) rb = None \<longleftrightarrow> unat n < length cs"
proof -
  have rb: "rb = \<lparr>buffer_ptr = pool, read_mirror = 0, read_index = 0, write_mirror = 0,
      write_index = 0, buffer_size = n AND 0xFFFC\<rparr>"
    using assms(1) by (auto simp: rt_ringbuffer_init_def split: if_splits)
  moreover have "buffer_size rb = 0" using unat_align16 [of n] assms(2) rb by (simp add: word_unat_eq_iff)
  ultimately show ?thesis using no_size_overruns [of rb cs] assms by simp
qed

theorem ring_of_three_overruns_witness:
  "rb_run (map ForceByte [1, 2, 3, 4]) (the (rt_ringbuffer_init (replicate 3 0) 3)) = None"
proof -
  have "rt_ringbuffer_init (replicate 3 0) 3 = Some (the (rt_ringbuffer_init (replicate 3 0) 3))"
    by (simp add: rt_ringbuffer_init_def)
  from ring_of_three_overruns [OF this, of "[1, 2, 3, 4]"] show ?thesis by simp
qed

end
