(* ===== verification/SmallMem.thy ===== *)
theory SmallMem
  imports Prelude "HOL-Library.While_Combinator"
begin

text \<open>
  The heap of the firmware, \<open>src/rt-thread/src/mem.c\<close> (the small-memory algorithm, selected in
  \<open>rtconfig.h\<close>) with the entry points of \<open>kservice.c\<close>. The heap is a sequence of blocks; each
  starts with a header of three words: \<open>pool_ptr\<close> (the address of the heap object, bit 0 set
  if the block is in use) and the distances \<open>next\<close> and \<open>prev\<close> of its neighbours from the start
  of the heap. A pointer into the heap is its distance from \<open>heap_ptr\<close>, a natural number;
  values of type \<open>rt_size_t\<close> are 32-bit words. \<open>ram m a\<close> is the word at distance \<open>a\<close>: headers
  and user data are in the same memory. \<open>None\<close>: the call does not return, because an
  assertion fails, a loop runs forever, or a header would lie before the heap. The callers hold the heap lock, so calls are atomic.
\<close>

section \<open>State and operations\<close>

definition RT_ALIGN :: "u32 \<Rightarrow> u32" where
  "RT_ALIGN sz = (sz + 3) AND 0xFFFFFFFC"

definition RT_ALIGN_DOWN :: "u32 \<Rightarrow> u32" where
  "RT_ALIGN_DOWN sz = sz AND 0xFFFFFFFC"

definition MIN_SIZE_ALIGNED :: u32 where "MIN_SIZE_ALIGNED = 12"
definition SIZEOF_STRUCT_MEM :: u32 where "SIZEOF_STRUCT_MEM = 12"
definition MEM_MASK :: u32 where "MEM_MASK = 0xFFFFFFFE"

text \<open>\<open>self\<close> is the address of the object itself, \<open>sizeof(struct rt_small_mem)\<close> is 56.\<close>

record rt_small_mem =
  self :: u32
  total :: u32
  used :: u32
  max_used :: u32
  heap_ptr :: u32
  heap_end :: nat
  lfree :: nat
  mem_size_aligned :: u32
  ram :: "nat \<Rightarrow> u32"

text \<open>The distance of a pointer from \<open>heap_ptr\<close>, cast to \<open>rt_size_t\<close>.\<close>

definition off32 :: "nat \<Rightarrow> u32" where "off32 p = of_nat p"

definition pool_ptr :: "rt_small_mem \<Rightarrow> nat \<Rightarrow> u32" where "pool_ptr m p = ram m p"
definition mem_next :: "rt_small_mem \<Rightarrow> nat \<Rightarrow> u32" where "mem_next m p = ram m (p + 4)"
definition mem_prev :: "rt_small_mem \<Rightarrow> nat \<Rightarrow> u32" where "mem_prev m p = ram m (p + 8)"

definition poke :: "nat \<Rightarrow> u32 \<Rightarrow> rt_small_mem \<Rightarrow> rt_small_mem" where
  "poke a v m = m\<lparr>ram := (ram m)(a := v)\<rparr>"

abbreviation set_pool_ptr :: "nat \<Rightarrow> u32 \<Rightarrow> rt_small_mem \<Rightarrow> rt_small_mem" where
  "set_pool_ptr p \<equiv> poke p"
abbreviation set_next :: "nat \<Rightarrow> u32 \<Rightarrow> rt_small_mem \<Rightarrow> rt_small_mem" where
  "set_next p \<equiv> poke (p + 4)"
abbreviation set_prev :: "nat \<Rightarrow> u32 \<Rightarrow> rt_small_mem \<Rightarrow> rt_small_mem" where
  "set_prev p \<equiv> poke (p + 8)"

definition MEM_USED :: "rt_small_mem \<Rightarrow> u32" where "MEM_USED m = (self m AND MEM_MASK) OR 1"
definition MEM_FREED :: "rt_small_mem \<Rightarrow> u32" where "MEM_FREED m = (self m AND MEM_MASK) OR 0"
definition MEM_ISUSED :: "rt_small_mem \<Rightarrow> nat \<Rightarrow> bool" where
  "MEM_ISUSED m p \<longleftrightarrow> pool_ptr m p AND NOT MEM_MASK \<noteq> 0"
definition MEM_POOL :: "rt_small_mem \<Rightarrow> nat \<Rightarrow> u32" where "MEM_POOL m p = pool_ptr m p AND MEM_MASK"

text \<open>\<open>ram0\<close>: what the memory holds beforehand. \<open>None\<close>: the null pointer.\<close>

definition rt_smem_init :: "(nat \<Rightarrow> u32) \<Rightarrow> u32 \<Rightarrow> u32 \<Rightarrow> rt_small_mem option" where
  "rt_smem_init ram0 begin_addr sz =
     (let small_mem = RT_ALIGN begin_addr;
          start_addr = small_mem + 56;
          begin_align = RT_ALIGN start_addr;
          end_align = RT_ALIGN_DOWN (begin_addr + sz)
      in if 2 * SIZEOF_STRUCT_MEM < end_align \<and> start_addr \<le> end_align - 2 * SIZEOF_STRUCT_MEM then
           let mem_size = end_align - begin_align - 2 * SIZEOF_STRUCT_MEM;
               next = mem_size + SIZEOF_STRUCT_MEM;
               m = \<lparr>self = small_mem, total = mem_size, used = 0, max_used = 0, heap_ptr = begin_align,
                    heap_end = unat next, lfree = 0, mem_size_aligned = mem_size, ram = ram0\<rparr>;
               m = set_prev 0 0 (set_next 0 next (set_pool_ptr 0 (MEM_FREED m) m))
           in Some (set_prev (heap_end m) next (set_next (heap_end m) next
                (set_pool_ptr (heap_end m) (MEM_USED m) m)))
         else None)"

definition plug_forward :: "nat \<Rightarrow> rt_small_mem \<Rightarrow> rt_small_mem" where
  "plug_forward mem m =
     (let nmem = unat (mem_next m mem)
      in if mem \<noteq> nmem \<and> \<not> MEM_ISUSED m nmem \<and> nmem \<noteq> heap_end m then
           let m = (if lfree m = nmem then m\<lparr>lfree := mem\<rparr> else m);
               m = set_pool_ptr nmem 0 m;
               m = set_next mem (mem_next m nmem) m
           in set_prev (unat (mem_next m nmem)) (off32 mem) m
         else m)"

definition plug_backward :: "nat \<Rightarrow> rt_small_mem \<Rightarrow> rt_small_mem" where
  "plug_backward mem m =
     (let pmem = unat (mem_prev m mem)
      in if pmem \<noteq> mem \<and> \<not> MEM_ISUSED m pmem then
           let m = (if lfree m = mem then m\<lparr>lfree := pmem\<rparr> else m);
               m = set_pool_ptr mem 0 m;
               m = set_next pmem (mem_next m mem) m
           in set_prev (unat (mem_next m mem)) (off32 pmem) m
         else m)"

definition plug_holes :: "nat \<Rightarrow> rt_small_mem \<Rightarrow> rt_small_mem option" where
  "plug_holes mem m =
     (if mem < heap_end m then Some (plug_backward mem (plug_forward mem m)) else None)"

text \<open>\<open>rt_smem_alloc\<close>: the search, the block that was found, the lowest free block.\<close>

definition smem_room :: "rt_small_mem \<Rightarrow> nat \<Rightarrow> u32" where
  "smem_room m p = mem_next m p - (off32 p + SIZEOF_STRUCT_MEM)"

definition smem_search :: "rt_small_mem \<Rightarrow> u32 \<Rightarrow> u32 option" where
  "smem_search m sz =
     while_option
       (\<lambda>ptr. ptr \<le> mem_size_aligned m - sz \<and> \<not> (\<not> MEM_ISUSED m (unat ptr) \<and> sz \<le> smem_room m (unat ptr)))
       (\<lambda>ptr. mem_next m (unat ptr)) (off32 (lfree m))"

definition add_used :: "u32 \<Rightarrow> rt_small_mem \<Rightarrow> rt_small_mem" where
  "add_used n m = m\<lparr>used := used m + n, max_used := max (max_used m) (used m + n)\<rparr>"

definition smem_insert :: "nat \<Rightarrow> nat \<Rightarrow> rt_small_mem \<Rightarrow> rt_small_mem" where
  "smem_insert mem mem2 m =
     (let m = set_prev mem2 (off32 mem) (set_next mem2 (mem_next m mem) (set_pool_ptr mem2 (MEM_FREED m) m));
          m = set_next mem (off32 mem2) m
      in if mem_next m mem2 \<noteq> mem_size_aligned m + SIZEOF_STRUCT_MEM
         then set_prev (unat (mem_next m mem2)) (off32 mem2) m else m)"

definition smem_take :: "nat \<Rightarrow> u32 \<Rightarrow> rt_small_mem \<Rightarrow> rt_small_mem" where
  "smem_take mem sz m =
     (let m = (if sz + SIZEOF_STRUCT_MEM + MIN_SIZE_ALIGNED \<le> smem_room m mem
               then add_used (sz + SIZEOF_STRUCT_MEM)
                      (smem_insert mem (unat (off32 mem + SIZEOF_STRUCT_MEM + sz)) m)
               else add_used (mem_next m mem - off32 mem) m)
      in set_pool_ptr mem (MEM_USED m) m)"

definition smem_lowest :: "nat \<Rightarrow> rt_small_mem \<Rightarrow> rt_small_mem option" where
  "smem_lowest mem m =
     (if mem = lfree m
      then map_option (\<lambda>l. m\<lparr>lfree := l\<rparr>)
             (while_option (\<lambda>l. MEM_ISUSED m l \<and> l \<noteq> heap_end m) (\<lambda>l. unat (mem_next m l)) (lfree m))
      else Some m)"

text \<open>The result holds the pointer to the user data, \<open>None\<close> for the null pointer.\<close>

definition rt_smem_alloc :: "rt_small_mem \<Rightarrow> u32 \<Rightarrow> (rt_small_mem \<times> nat option) option" where
  "rt_smem_alloc m sz =
     (if sz = 0 then Some (m, None)
      else if mem_size_aligned m < RT_ALIGN sz then Some (m, None)
      else
        let sz = max (RT_ALIGN sz) MIN_SIZE_ALIGNED
        in Option.bind (smem_search m sz) (\<lambda>ptr.
             if ptr \<le> mem_size_aligned m - sz then
               let mem = unat ptr
               in Option.bind (smem_lowest mem (smem_take mem sz m)) (\<lambda>m.
                    if mem + unat SIZEOF_STRUCT_MEM + unat sz \<le> heap_end m \<and>
                       4 dvd unat (heap_ptr m) + mem + unat SIZEOF_STRUCT_MEM \<and>
                       4 dvd unat (heap_ptr m) + mem
                    then Some (m, Some (mem + unat SIZEOF_STRUCT_MEM)) else None)
             else Some (m, None)))"

definition rt_smem_free :: "rt_small_mem \<Rightarrow> nat option \<Rightarrow> rt_small_mem option" where
  "rt_smem_free m rmem =
     (case rmem of
        None \<Rightarrow> Some m
      | Some r \<Rightarrow>
          let mem = r - unat SIZEOF_STRUCT_MEM
          in if 4 dvd unat (heap_ptr m) + r \<and> unat SIZEOF_STRUCT_MEM \<le> r \<and> MEM_POOL m mem = self m \<and> MEM_ISUSED m mem \<and>
                r < heap_end m \<and> MEM_POOL m (unat (mem_next m mem)) = self m
             then
               let m = set_pool_ptr mem (MEM_FREED m) m;
                   m = (if mem < lfree m then m\<lparr>lfree := mem\<rparr> else m);
                   m = m\<lparr>used := used m - (mem_next m mem - off32 mem)\<rparr>
               in plug_holes mem m
             else None)"

text \<open>\<open>rt_memcpy\<close> between aligned addresses, with a length that is a multiple of four.\<close>

definition copy_words :: "nat \<Rightarrow> nat \<Rightarrow> nat \<Rightarrow> rt_small_mem \<Rightarrow> rt_small_mem" where
  "copy_words dst src n m =
     m\<lparr>ram := (\<lambda>a. if dst \<le> a \<and> a < dst + n then ram m (src + (a - dst)) else ram m a)\<rparr>"

definition rt_smem_realloc :: "rt_small_mem \<Rightarrow> nat option \<Rightarrow> u32 \<Rightarrow> (rt_small_mem \<times> nat option) option" where
  "rt_smem_realloc m rmem newsize =
     (let newsize = RT_ALIGN newsize
      in if mem_size_aligned m < newsize then Some (m, None)
         else if newsize = 0 then map_option (\<lambda>m. (m, None)) (rt_smem_free m rmem)
         else case rmem of
           None \<Rightarrow> rt_smem_alloc m newsize
         | Some r \<Rightarrow>
             if 4 dvd unat (heap_ptr m) + r \<and> unat SIZEOF_STRUCT_MEM \<le> r \<and> r < heap_end m then
               let mem = r - unat SIZEOF_STRUCT_MEM;
                   sz = mem_next m mem - off32 mem - SIZEOF_STRUCT_MEM
               in if sz = newsize then Some (m, Some r)
                  else if newsize + SIZEOF_STRUCT_MEM + 12 < sz then
                    let m = m\<lparr>used := used m - (sz - newsize)\<rparr>;
                        mem2 = unat (off32 mem + SIZEOF_STRUCT_MEM + newsize);
                        m = smem_insert mem mem2 m;
                        m = (if mem2 < lfree m then m\<lparr>lfree := mem2\<rparr> else m)
                    in map_option (\<lambda>m. (m, Some r)) (plug_holes mem2 m)
                  else
                    Option.bind (rt_smem_alloc m newsize) (\<lambda>(m, nmem).
                      case nmem of
                        None \<Rightarrow> Some (m, None)
                      | Some n \<Rightarrow>
                          map_option (\<lambda>m. (m, nmem))
                            (rt_smem_free (copy_words n r (unat (if sz < newsize then sz else newsize)) m)
                               rmem))
             else None)"

section \<open>A heap as a list of blocks\<close>

text \<open>A block: its length with the header, and whether it is in use.\<close>

type_synonym block = "nat \<times> bool"

fun extent :: "block list \<Rightarrow> nat" where
  "extent [] = 0"
| "extent (b # bs) = fst b + extent bs"

fun last_start :: "nat \<Rightarrow> nat \<Rightarrow> block list \<Rightarrow> nat" where
  "last_start prev p [] = prev"
| "last_start prev p (b # bs) = last_start p (p + fst b) bs"

text \<open>From distance \<open>p\<close> on, the memory holds the blocks, linked both ways.\<close>

fun seg :: "(nat \<Rightarrow> u32) \<Rightarrow> u32 \<Rightarrow> nat \<Rightarrow> nat \<Rightarrow> block list \<Rightarrow> bool" where
  "seg r s prev p [] \<longleftrightarrow> True"
| "seg r s prev p ((n, u) # bs) \<longleftrightarrow>
     16 \<le> n \<and> 4 dvd n \<and> r p = (s AND MEM_MASK) OR (if u then 1 else 0) \<and>
     r (p + 4) = off32 (p + n) \<and> r (p + 8) = off32 prev \<and> seg r s p (p + n) bs"

text \<open>The words that belong to the users of the blocks in use.\<close>

fun payload :: "nat \<Rightarrow> block list \<Rightarrow> nat \<Rightarrow> bool" where
  "payload p [] a \<longleftrightarrow> False"
| "payload p ((n, u) # bs) a \<longleftrightarrow> u \<and> p + 12 \<le> a \<and> a < p + n \<or> payload (p + n) bs a"

fun first_free :: "nat \<Rightarrow> block list \<Rightarrow> nat" where
  "first_free p [] = p"
| "first_free p ((n, u) # bs) = (if u then first_free (p + n) bs else p)"

fun used_bytes :: "block list \<Rightarrow> nat" where
  "used_bytes [] = 0"
| "used_bytes ((n, u) # bs) = (if u then n else 0) + used_bytes bs"

abbreviation tidy :: "block list \<Rightarrow> bool" where
  "tidy \<equiv> successively (\<lambda>b c. snd b \<or> snd c)"

definition heap_size_ok :: "rt_small_mem \<Rightarrow> bool" where
  "heap_size_ok m \<longleftrightarrow> heap_end m = unat (mem_size_aligned m) + 12 \<and> unat (mem_size_aligned m) + 24 < 2 ^ 32 \<and>
     12 \<le> unat (mem_size_aligned m) \<and> 4 dvd unat (heap_ptr m) \<and> self m AND MEM_MASK = self m"

definition heap_linked :: "rt_small_mem \<Rightarrow> block list \<Rightarrow> bool" where
  "heap_linked m bs \<longleftrightarrow> heap_size_ok m \<and> seg (ram m) (self m) 0 0 bs \<and> extent bs = heap_end m \<and>
     ram m (heap_end m) = MEM_USED m \<and> ram m (heap_end m + 4) = off32 (heap_end m) \<and>
     lfree m = first_free 0 bs \<and> used m = of_nat (used_bytes bs)"

definition heap_holds :: "rt_small_mem \<Rightarrow> block list \<Rightarrow> bool" where
  "heap_holds m bs \<longleftrightarrow> heap_linked m bs \<and> tidy bs"

lemma heap_size_ok_upd [simp]:
  "heap_size_ok (m\<lparr>ram := r\<rparr>) = heap_size_ok m" "heap_size_ok (m\<lparr>lfree := l\<rparr>) = heap_size_ok m"
  "heap_size_ok (m\<lparr>used := n\<rparr>) = heap_size_ok m" "heap_size_ok (m\<lparr>max_used := n\<rparr>) = heap_size_ok m"
  by (simp_all add: heap_size_ok_def)

lemma extent_append [simp]: "extent (as @ bs) = extent as + extent bs"
  by (induction as) auto

lemma seg_append [simp]:
  "seg r s prev p (as @ bs) \<longleftrightarrow> seg r s prev p as \<and> seg r s (last_start prev p as) (p + extent as) bs"
  by (induction as arbitrary: prev p) (auto simp: add.assoc)

lemma user_data_append [simp]: "payload p (as @ bs) a \<longleftrightarrow> payload p as a \<or> payload (p + extent as) bs a"
  by (induction as arbitrary: p) (auto simp: add.assoc)

lemma used_bytes_append [simp]: "used_bytes (as @ bs) = used_bytes as + used_bytes bs"
  by (induction as rule: used_bytes.induct) auto

lemma first_free_append:
  "first_free p (as @ bs) = (if \<forall>b \<in> set as. snd b then first_free (p + extent as) bs else first_free p as)"
  by (induction p as rule: first_free.induct) (auto simp: add.assoc)

lemma first_free_le: "first_free p bs \<le> p + extent bs"
  by (induction p bs rule: first_free.induct) auto

lemma payload_range: "payload p bs a \<Longrightarrow> p + 12 \<le> a \<and> a < p + extent bs"
  by (induction p bs a rule: payload.induct) auto

lemma seg_upd [simp]:
  "a < p \<or> p + extent bs \<le> a \<Longrightarrow> seg (r(a := v)) s prev p bs \<longleftrightarrow> seg r s prev p bs"
  by (induction bs arbitrary: prev p) (auto cong: conj_cong)

lemma seg_reprev: "seg r s prev p bs \<Longrightarrow> seg (r(p + 8 := off32 prev')) s prev' p bs"
  by (cases bs) auto

lemma seg_payload:
  "seg r s prev p bs \<Longrightarrow> \<forall>a. p \<le> a \<and> a < p + extent bs \<and> \<not> payload p bs a \<longrightarrow> r' a = r a \<Longrightarrow> seg r' s prev p bs"
proof (induction bs arbitrary: prev p)
  case (Cons b bs)
  obtain n u where b: "b = (n, u)" by (cases b)
  have "\<forall>a. p + n \<le> a \<and> a < p + n + extent bs \<and> \<not> payload (p + n) bs a \<longrightarrow> r' a = r a"
    using Cons.prems(2) b by auto
  then have "seg r' s p (p + n) bs" using Cons.IH [of p "p + n"] Cons.prems(1) b by simp
  moreover have h: "r' (p + i) = r (p + i)" if "i < 12" for i
  proof -
    have "\<not> payload p (b # bs) (p + i)" using b that Cons.prems(1) payload_range [of "p + n" bs "p + i"] by auto
    then show ?thesis using Cons.prems(2) [rule_format, of "p + i"] Cons.prems(1) b that by simp
  qed
  then have "r' p = r p" using h [of 0] by simp
  ultimately show ?case using Cons.prems(1) b by (simp add: h)
qed simp

lemma last_start_less:
  "seg r s prev p bs \<Longrightarrow> bs \<noteq> [] \<Longrightarrow> p \<le> last_start prev p bs \<and> last_start prev p bs < p + extent bs"
proof (induction bs arbitrary: prev p)
  case (Cons b bs)
  then show ?case by (cases b; cases "bs = []") (auto dest!: Cons.IH)
qed simp

section \<open>Words and sizes\<close>

lemma and_not_mask2: "(w :: u32) AND NOT (mask 2) = push_bit 2 (drop_bit 2 w)"
  by (rule bit_word_eqI) (auto simp: bit_and_iff bit_not_iff bit_mask_iff bit_push_bit_iff bit_drop_bit_eq not_less dest!: le_Suc_ex)

lemma align_shift: "RT_ALIGN sz = push_bit 2 (drop_bit 2 (sz + 3))" "RT_ALIGN_DOWN sz = push_bit 2 (drop_bit 2 sz)"
proof -
  have "(0xFFFFFFFC :: u32) = NOT (mask 2)" by (simp add: mask_eq_exp_minus_1)
  then show "RT_ALIGN sz = push_bit 2 (drop_bit 2 (sz + 3))" "RT_ALIGN_DOWN sz = push_bit 2 (drop_bit 2 sz)"
    unfolding RT_ALIGN_def RT_ALIGN_DOWN_def by (simp_all only: and_not_mask2)
qed

lemma unat_mult4: "unat (push_bit 2 (drop_bit 2 (w :: u32))) = unat w div 4 * 4"
proof -
  have "unat w div 4 * 4 < 2 ^ 32" using unsigned_less [of w, where ?'a = nat] div_times_less_eq_dividend [of "unat w" 4] by simp
  then show ?thesis
    by (simp add: push_bit_eq_mult drop_bit_eq_div unat_word_ariths unat_div)
qed

lemma align_value: "unat sz \<le> 2 ^ 32 - 4 \<Longrightarrow> unat (RT_ALIGN sz) = (unat sz + 3) div 4 * 4"
  by (simp add: align_shift unat_mult4 unat_word_ariths)

lemma align_down_value: "unat (RT_ALIGN_DOWN sz) = unat sz div 4 * 4"
  by (simp add: align_shift unat_mult4)

lemma align_mult4 [simp]: "4 dvd unat (RT_ALIGN sz)"
  by (simp add: align_shift unat_mult4)

lemma unat_of_pos [simp]: "heap_size_ok m \<Longrightarrow> p \<le> heap_end m \<Longrightarrow> unat (off32 p) = p"
  unfolding off32_def by (rule unat_of_nat32) (simp add: heap_size_ok_def)

section \<open>Splitting and merging blocks\<close>

lemmas header_defs = pool_ptr_def mem_next_def mem_prev_def poke_def

lemma poke_sel [simp]:
  "ram (poke a v m) = (ram m)(a := v)" "self (poke a v m) = self m" "used (poke a v m) = used m"
  "heap_end (poke a v m) = heap_end m" "lfree (poke a v m) = lfree m" "heap_ptr (poke a v m) = heap_ptr m"
  "mem_size_aligned (poke a v m) = mem_size_aligned m" "max_used (poke a v m) = max_used m"
  "total (poke a v m) = total m"
  by (simp_all add: poke_def)

lemma seg_bound: "seg r s prev p bs \<Longrightarrow> bs \<noteq> [] \<Longrightarrow> 12 \<le> extent bs"
  by (cases bs) auto

lemma end_word: "heap_size_ok m \<Longrightarrow> mem_size_aligned m + SIZEOF_STRUCT_MEM = off32 (heap_end m)"
  by (simp add: heap_size_ok_def SIZEOF_STRUCT_MEM_def off32_def)

lemma of_pos_eq: "heap_size_ok m \<Longrightarrow> p \<le> heap_end m \<Longrightarrow> q \<le> heap_end m \<Longrightarrow> off32 p = off32 q \<longleftrightarrow> p = q"
  by (metis unat_of_pos)

lemma smem_insert_sel:
  "self (smem_insert p q m) = self m" "used (smem_insert p q m) = used m" "max_used (smem_insert p q m) = max_used m"
  "heap_end (smem_insert p q m) = heap_end m" "lfree (smem_insert p q m) = lfree m"
  "heap_ptr (smem_insert p q m) = heap_ptr m" "mem_size_aligned (smem_insert p q m) = mem_size_aligned m"
  "total (smem_insert p q m) = total m"
  by (simp_all add: smem_insert_def Let_def)

lemma smem_insert_seg:
  assumes ok: "heap_size_ok m" and seg: "seg (ram m) (self m) prev p ((n, u) # cs)"
    and e: "p + n + extent cs = heap_end m" and k: "4 dvd k" "4 \<le> k" "k + 28 \<le> n"
  defines "r \<equiv> ram (smem_insert p (p + 12 + k) m)"
  shows "seg r (self m) prev p ((12 + k, u) # (n - 12 - k, False) # cs)" (is ?seg)
    and "a \<noteq> p + 4 \<Longrightarrow> a < p + 12 + k \<or> p + 24 + k \<le> a \<Longrightarrow> cs = [] \<or> a \<noteq> p + n + 8 \<Longrightarrow> r a = ram m a" (is "_ \<Longrightarrow> _ \<Longrightarrow> _ \<Longrightarrow> ?frame")
proof -
  let ?q = "p + 12 + k"
  let ?r = "(ram m)(?q := self m AND MEM_MASK, ?q + 4 := off32 (p + n), ?q + 8 := off32 p, p + 4 := off32 ?q)"
  have nxt: "ram m (p + 4) = off32 (p + n)" and c: "seg (ram m) (self m) p (p + n) cs" using seg by auto
  have "cs = [] \<longleftrightarrow> p + n = heap_end m" using e seg_bound [OF c] by (cases "cs = []") auto
  then have last: "off32 (p + n) = mem_size_aligned m + SIZEOF_STRUCT_MEM \<longleftrightarrow> cs = []"
    using of_pos_eq [OF ok, of "p + n" "heap_end m"] e by (simp add: end_word [OF ok])
  have r: "r = (if cs = [] then ?r else ?r(p + n + 8 := off32 ?q))"
    using last nxt k e by (auto simp: r_def smem_insert_def Let_def mem_next_def MEM_FREED_def fun_upd_twist unat_of_pos [OF ok])
  have "seg ?r (self m) p (p + n) cs" using c k by simp
  then have "seg r (self m) ?q (p + n) cs"
    using seg_reprev [of ?r "self m" p "p + n" cs ?q] r by (cases "cs = []") simp_all
  moreover have "r p = ram m p" "r (p + 4) = off32 ?q" "r (p + 8) = ram m (p + 8)" "r ?q = self m AND MEM_MASK"
    "r (?q + 4) = off32 (p + n)" "r (?q + 8) = off32 p"
    using r k by (auto split: if_splits)
  ultimately show ?seg using seg k by (auto simp: add.assoc)
  show "a \<noteq> p + 4 \<Longrightarrow> a < p + 12 + k \<or> p + 24 + k \<le> a \<Longrightarrow> cs = [] \<or> a \<noteq> p + n + 8 \<Longrightarrow> ?frame"
    using r by auto
qed

lemma mask_bits [simp]:
  "((x AND MEM_MASK) OR 1) AND NOT MEM_MASK = 1" "(x AND MEM_MASK) AND NOT MEM_MASK = 0"
  "((x AND MEM_MASK) OR 1) AND MEM_MASK = x AND MEM_MASK" "(x AND MEM_MASK) AND MEM_MASK = x AND MEM_MASK"
  by (rule bit_word_eqI, auto simp: MEM_MASK_def bit_simps bit_numeral_rec bit_1_iff split: nat.splits)+

lemma isused_seg [simp]: "ram m p = (self m AND MEM_MASK) OR (if u then 1 else 0) \<Longrightarrow> MEM_ISUSED m p \<longleftrightarrow> u"
  by (simp add: MEM_ISUSED_def pool_ptr_def)

fun merge_next :: "block list \<Rightarrow> block list" where
  "merge_next ((n, u) # (k, False) # cs) = (n + k, u) # cs"
| "merge_next bs = bs"

lemma plug_forward_seg:
  assumes ok: "heap_size_ok m" and seg: "seg (ram m) (self m) prev p ((n, False) # cs)"
    and e: "p + n + extent cs = heap_end m" "ram m (heap_end m) = MEM_USED m" and l: "lfree m \<le> p"
  shows "seg (ram (plug_forward p m)) (self m) prev p (merge_next ((n, False) # cs))" (is ?seg)
    and "plug_forward p m = m\<lparr>ram := ram (plug_forward p m)\<rparr>" (is ?rest)
    and "a < p + 4 \<or> a = p + 8 \<or> payload p ((n, False) # cs) a \<or> heap_end m \<le> a \<and> a \<noteq> heap_end m + 8 \<Longrightarrow>
      ram (plug_forward p m) a = ram m a" (is "_ \<Longrightarrow> ?frame")
proof -
  have n: "12 \<le> n" and nxt: "unat (mem_next m p) = p + n" using seg e(1) by (simp_all add: mem_next_def unat_of_pos [OF ok])
  have same: "?seg \<and> ?rest \<and> ?frame" if "plug_forward p m = m" "merge_next ((n, False) # cs) = (n, False) # cs"
    using that seg by simp
  have "?seg \<and> ?rest \<and> (a < p + 4 \<or> a = p + 8 \<or> payload p ((n, False) # cs) a \<or> heap_end m \<le> a \<and> a \<noteq> heap_end m + 8 \<longrightarrow> ?frame)"
  proof (cases cs)
    case Nil
    then have "p + n = heap_end m" using e by simp
    then have "plug_forward p m = m" by (simp add: plug_forward_def nxt Let_def)
    then show ?thesis using same Nil by simp
  next
    case (Cons c ds)
    obtain k u where c: "c = (k, u)" by (cases c)
    have k: "12 \<le> k" "p + n + k + extent ds = heap_end m" "seg (ram m) (self m) (p + n) (p + n + k) ds"
      "ram m (p + n) = (self m AND MEM_MASK) OR (if u then 1 else 0)" "ram m (p + n + 4) = off32 (p + n + k)"
      using seg e(1) Cons c by (auto simp: add.assoc)
    show ?thesis
    proof (cases u)
      case True
      then have "plug_forward p m = m" using isused_seg [OF k(4)] by (simp add: plug_forward_def nxt Let_def)
      then show ?thesis using same Cons c True by simp
    next
      case False
      let ?r = "(ram m)(p + n := 0, p + 4 := off32 (p + n + k))"
      have pf: "plug_forward p m = m\<lparr>ram := ?r(p + n + k + 8 := off32 p)\<rparr>"
      proof -
        have "\<not> MEM_ISUSED m (p + n)" "p + n \<noteq> heap_end m" "lfree m \<noteq> p + n" "0 < n" "p + n + k \<le> heap_end m"
          using isused_seg [OF k(4)] False k(1,2) l n by simp_all
        then show ?thesis using k(5) n nxt [unfolded mem_next_def]
          by (simp add: plug_forward_def Let_def mem_next_def poke_def unat_of_pos [OF ok])
      qed
      have "seg ?r (self m) (p + n) (p + n + k) ds" using k(1,3) n by simp
      from seg_reprev [OF this] have "seg (ram (plug_forward p m)) (self m) p (p + n + k) ds" using pf by simp
      then have ?seg using seg Cons c False pf k(1) n by (auto simp: add.assoc)
      moreover have "a < p + 4 \<or> a = p + 8 \<or> payload p ((n, False) # cs) a \<or> heap_end m \<le> a \<and> a \<noteq> heap_end m + 8 \<longrightarrow> ?frame"
        using k(1,2) pf n Cons c False payload_range [of "p + n + k" ds a] seg_bound [OF k(3)]
        by (cases "ds = []") auto
      ultimately show ?thesis using pf by simp
    qed
  qed
  then show ?seg ?rest "a < p + 4 \<or> a = p + 8 \<or> payload p ((n, False) # cs) a \<or> heap_end m \<le> a \<and> a \<noteq> heap_end m + 8 \<Longrightarrow> ?frame"
    by blast+
qed

lemma plug_backward_first: "ram m (p + 8) = off32 p \<Longrightarrow> unat (off32 p) = p \<Longrightarrow> plug_backward p m = m"
  by (simp add: plug_backward_def mem_prev_def Let_def)

lemma plug_backward_seg:
  assumes ok: "heap_size_ok m" and seg: "seg (ram m) (self m) prev q ((k, v) # (n, False) # cs)"
    and e: "q + k + n + extent cs = heap_end m" and l: "lfree m \<noteq> q + k \<or> v"
  shows "seg (ram (plug_backward (q + k) m)) (self m) prev q (if v then (k, v) # (n, False) # cs else (k + n, False) # cs)"
    (is ?seg)
    and "plug_backward (q + k) m = m\<lparr>ram := ram (plug_backward (q + k) m)\<rparr>" (is ?rest)
    and "a < q + 4 \<or> a = q + 8 \<or> payload q ((k, v) # (n, False) # cs) a \<or> heap_end m \<le> a \<and> a \<noteq> heap_end m + 8 \<Longrightarrow>
      ram (plug_backward (q + k) m) a = ram m a" (is "_ \<Longrightarrow> ?frame")
proof -
  let ?p = "q + k"
  have k: "12 \<le> k" "12 \<le> n" "ram m q = (self m AND MEM_MASK) OR (if v then 1 else 0)"
    "seg (ram m) (self m) ?p (?p + n) cs" "mem_next m ?p = off32 (?p + n)" "unat (mem_prev m ?p) = q"
    using seg e by (simp_all add: mem_next_def mem_prev_def unat_of_pos [OF ok] add.assoc)
  let ?f = "a < q + 4 \<or> a = q + 8 \<or> payload q ((k, v) # (n, False) # cs) a \<or> heap_end m \<le> a \<and> a \<noteq> heap_end m + 8 \<longrightarrow> ?frame"
  have "?seg \<and> ?rest \<and> ?f"
  proof (cases v)
    case True
    then have "plug_backward ?p m = m" using isused_seg [OF k(3)] by (simp add: plug_backward_def k(6) Let_def)
    then show ?thesis using seg True by simp
  next
    case False
    let ?r = "(ram m)(?p := 0, q + 4 := off32 (?p + n))"
    have pb: "plug_backward ?p m = m\<lparr>ram := ?r(?p + n + 8 := off32 q)\<rparr>"
    proof -
      have "\<not> MEM_ISUSED m q" "lfree m \<noteq> ?p" "0 < k" "?p + n \<le> heap_end m"
        using isused_seg [OF k(3)] False k(1,2) l e by simp_all
      then show ?thesis using k(1,2) k(5) [unfolded mem_next_def] k(6) unat_of_pos [OF ok, of "?p + n"]
        by (simp add: plug_backward_def Let_def mem_next_def poke_def)
    qed
    have "seg ?r (self m) ?p (?p + n) cs" using k by simp
    from seg_reprev [OF this] have "seg (ram (plug_backward ?p m)) (self m) q (?p + n) cs" using pb by simp
    then have ?seg using seg False pb k(1,2) by (auto simp: add.assoc)
    moreover have ?f
      using k(1,2) pb False e payload_range [of "?p + n" cs a] seg_bound [OF k(4)] by (cases "cs = []") auto
    ultimately show ?thesis using pb by simp
  qed
  then show ?seg ?rest "a < q + 4 \<or> a = q + 8 \<or> payload q ((k, v) # (n, False) # cs) a \<or> heap_end m \<le> a \<and> a \<noteq> heap_end m + 8 \<Longrightarrow> ?frame"
    by blast+
qed

text \<open>A block becomes free between the blocks \<open>as\<close> before it and \<open>cs\<close> behind it.\<close>

definition release :: "block list \<Rightarrow> nat \<Rightarrow> block list \<Rightarrow> block list" where
  "release as n cs =
     (if as \<noteq> [] \<and> \<not> snd (last as)
      then butlast as @ merge_next ((fst (last as), False) # merge_next ((n, False) # cs))
      else as @ merge_next ((n, False) # cs))"

lemma merge_next_extent [simp]: "extent (merge_next bs) = extent bs"
  by (induction bs rule: merge_next.induct) auto

lemma merge_next_head: "\<exists>n' cs'. merge_next ((n, u) # cs) = (n', u) # cs'"
  by (cases "((n, u) # cs)" rule: merge_next.cases) auto

lemma merge_next_payload: "12 \<le> n \<Longrightarrow> payload p (merge_next ((n, False) # cs)) a \<longleftrightarrow> payload p ((n, False) # cs) a"
  by (cases "((n, False) # cs)" rule: merge_next.cases) (auto simp: add.assoc)

lemma last_start_snoc [simp]: "last_start prev p (as @ [b]) = p + extent as"
  by (induction as arbitrary: prev p) (auto simp: add.assoc)

lemma release_facts:
  assumes "tidy as" "tidy cs"
  shows "tidy (release as n cs)" "extent (release as n cs) = extent as + n + extent cs"
    "first_free p (release as n cs) = first_free p (as @ (n, False) # cs)"
    "used_bytes (release as n cs) = used_bytes as + used_bytes cs"
proof -
  have "\<exists>n' cs'. merge_next ((n, False) # cs) = (n', False) # cs' \<and> tidy ((n', False) # cs') \<and>
      n' + extent cs' = n + extent cs \<and> used_bytes cs' = used_bytes cs"
    using assms(2) by (cases "((n, False) # cs)" rule: merge_next.cases; cases cs) (auto simp: successively_Cons)
  then obtain n' cs' where m: "merge_next ((n, False) # cs) = (n', False) # cs'" "tidy ((n', False) # cs')"
    "n' + extent cs' = n + extent cs" "used_bytes cs' = used_bytes cs" by blast
  have "tidy (release as n cs) \<and> extent (release as n cs) = extent as + n + extent cs \<and>
    first_free p (release as n cs) = first_free p (as @ (n, False) # cs) \<and>
    used_bytes (release as n cs) = used_bytes as + used_bytes cs"
  proof (cases as rule: rev_cases)
    case Nil
    then show ?thesis using m by (simp add: release_def)
  next
    case (snoc bs b)
    obtain k v where b: "b = (k, v)" by (cases b)
    show ?thesis
      using m assms(1) snoc b
      by (cases v) (auto simp: release_def successively_append_iff successively_Cons first_free_append)
  qed
  then show "tidy (release as n cs)" "extent (release as n cs) = extent as + n + extent cs"
    "first_free p (release as n cs) = first_free p (as @ (n, False) # cs)"
    "used_bytes (release as n cs) = used_bytes as + used_bytes cs" by auto
qed

lemma plug_holes_holds:
  assumes linked: "heap_linked m (as @ (n, False) # cs)" and tidy: "tidy as" "tidy cs"
  shows "\<exists>m'. plug_holes (extent as) m = Some m' \<and> heap_holds m' (release as n cs) \<and> m' = m\<lparr>ram := ram m'\<rparr> \<and>
    (\<forall>a. payload 0 (as @ (n, False) # cs) a \<longrightarrow> ram m' a = ram m a)"
proof -
  let ?p = "extent as"
  let ?m1 = "plug_forward ?p m"
  let ?m2 = "plug_backward ?p ?m1"
  have ok: "heap_size_ok m" and e: "?p + n + extent cs = heap_end m" and n: "12 \<le> n"
    and as: "seg (ram m) (self m) 0 0 as" and seg: "seg (ram m) (self m) (last_start 0 0 as) ?p ((n, False) # cs)"
    and ends: "ram m (heap_end m) = MEM_USED m" "ram m (heap_end m + 4) = off32 (heap_end m)"
    and l: "lfree m = first_free 0 (as @ (n, False) # cs)"
    using linked by (auto simp: heap_linked_def)
  have lp: "lfree m \<le> ?p" using l first_free_le [of 0 as] by (auto simp: first_free_append)
  note f = plug_forward_seg [OF ok seg e ends(1) lp]
  obtain r where r: "?m1 = m\<lparr>ram := r\<rparr>" using f(2) by blast
  have frame: "r a = ram m a" if "a < ?p + 4 \<or> a = ?p + 8 \<or> payload ?p ((n, False) # cs) a \<or> heap_end m \<le> a \<and> a \<noteq> heap_end m + 8" for a
    using f(3) [OF that] r by simp
  obtain n' cs' where mn: "merge_next ((n, False) # cs) = (n', False) # cs'" using merge_next_head by blast
  have seg1: "seg r (self m) (last_start 0 0 as) ?p ((n', False) # cs')" using f(1) r mn by simp
  have e1: "?p + n' + extent cs' = heap_end m"
    using e merge_next_extent [of "(n, False) # cs"] mn by simp
  have pay: "payload ?p ((n', False) # cs') a \<longleftrightarrow> payload ?p ((n, False) # cs) a" for a
    using merge_next_payload [OF n, of ?p cs a] mn by simp
  have "\<exists>r'. ?m2 = m\<lparr>ram := r'\<rparr> \<and> seg r' (self m) 0 0 (release as n cs) \<and>
    (\<forall>a. payload 0 (as @ (n, False) # cs) a \<or> heap_end m \<le> a \<and> a \<noteq> heap_end m + 8 \<longrightarrow> r' a = ram m a)"
  proof (cases as rule: rev_cases)
    case Nil
    then have "?m2 = ?m1" using seg1 r by (simp add: plug_backward_first off32_def)
    then show ?thesis using seg1 r Nil mn frame by (auto simp: release_def)
  next
    case (snoc bs b)
    obtain k v where b: "b = (k, v)" by (cases b)
    have segs: "seg r (self m) 0 0 (bs @ (k, v) # (n', False) # cs')"
      using seg1 seg_payload [OF as, of r] frame snoc b by (auto simp: add.assoc)
    have l2: "lfree m \<noteq> ?p \<or> v"
      using l snoc b first_free_le [of 0 bs] as by (cases v) (auto simp: first_free_append)
    let ?m = "m\<lparr>ram := r\<rparr>" and ?q = "extent bs"
    have p: "?p = ?q + k" and m2: "?m2 = plug_backward (?q + k) ?m" using snoc b r by simp_all
    have "heap_size_ok ?m" using ok by simp
    moreover have "seg (ram ?m) (self ?m) (last_start 0 0 bs) ?q ((k, v) # (n', False) # cs')" using segs by simp
    moreover have "?q + k + n' + extent cs' = heap_end ?m" "lfree ?m \<noteq> ?q + k \<or> v" using e1 l2 p by simp_all
    note bw = plug_backward_seg [OF calculation this]
    obtain r' where b1: "?m2 = m\<lparr>ram := r'\<rparr>" using bw(2) unfolding m2 [symmetric] by auto
    have b2: "seg r' (self m) (last_start 0 0 bs) ?q (if v then (k, v) # (n', False) # cs' else (k + n', False) # cs')"
      using bw(1) unfolding m2 [symmetric] b1 by simp
    have b3: "r' a = r a" if "a < ?q + 4 \<or> a = ?q + 8 \<or> payload ?q ((k, v) # (n', False) # cs') a \<or>
        heap_end m \<le> a \<and> a \<noteq> heap_end m + 8" for a
      using bw(3) [of a] that unfolding m2 [symmetric] b1 by simp
    have "seg r' (self m) 0 0 bs" 
    proof (rule seg_payload)
      show "seg r (self m) 0 0 bs" using segs by simp
    qed (simp add: b3)
    then have "seg r' (self m) 0 0 (release as n cs)"
      using b2 snoc b mn by (cases v) (simp_all add: release_def)
    moreover have "r' a = ram m a" if "payload 0 (as @ (n, False) # cs) a \<or> heap_end m \<le> a \<and> a \<noteq> heap_end m + 8" for a
      using that
    proof
      assume a: "payload 0 (as @ (n, False) # cs) a"
      then have "r' a = r a" using snoc b b3 [of a] pay [of a] payload_range [of 0 bs a] by (auto simp: add.assoc)
      also have "r a = ram m a"
        using a frame [of a] payload_range [of 0 as a] by auto
      finally show ?thesis .
    qed (use b3 [of a] frame [of a] in auto)
    ultimately show ?thesis using b1 by blast
  qed
  then obtain r' where r': "?m2 = m\<lparr>ram := r'\<rparr>" "seg r' (self m) 0 0 (release as n cs)"
    and keep: "\<forall>a. payload 0 (as @ (n, False) # cs) a \<or> heap_end m \<le> a \<and> a \<noteq> heap_end m + 8 \<longrightarrow> r' a = ram m a"
    by blast
  have ends': "r' (heap_end m) = ram m (heap_end m)" "r' (heap_end m + 4) = ram m (heap_end m + 4)"
    using keep by simp_all
  have "heap_holds ?m2 (release as n cs)"
    using r' ends' linked release_facts(1,2,4) [OF tidy, of n] release_facts(3) [OF tidy, of 0 n] e
    by (simp add: heap_holds_def heap_linked_def MEM_USED_def)
  moreover have "plug_holes ?p m = Some ?m2" using e n by (simp add: plug_holes_def)
  ultimately show ?thesis using r'(1) keep by auto
qed

section \<open>Freeing\<close>

definition same_heap :: "rt_small_mem \<Rightarrow> rt_small_mem \<Rightarrow> bool" where
  "same_heap m m' \<longleftrightarrow> self m' = self m \<and> heap_ptr m' = heap_ptr m \<and> heap_end m' = heap_end m \<and>
     mem_size_aligned m' = mem_size_aligned m \<and> total m' = total m"

lemma same_heap_refl [simp]: "same_heap m m"
  by (simp add: same_heap_def)

lemma same_heap_trans [trans]: "same_heap a b \<Longrightarrow> same_heap b c \<Longrightarrow> same_heap a c"
  by (simp add: same_heap_def)

lemma same_heap_upd [simp]:
  "same_heap m (m'\<lparr>ram := r\<rparr>) = same_heap m m'" "same_heap m (m'\<lparr>lfree := l\<rparr>) = same_heap m m'"
  "same_heap m (m'\<lparr>used := n\<rparr>) = same_heap m m'" "same_heap m (m'\<lparr>max_used := n\<rparr>) = same_heap m m'"
  "same_heap m (poke a v m') = same_heap m m'" "same_heap m (smem_insert p q m') = same_heap m m'"
  by (simp_all add: same_heap_def smem_insert_sel)

lemma same_heap_ok: "same_heap m m' \<Longrightarrow> heap_size_ok m' = heap_size_ok m"
  by (simp add: same_heap_def heap_size_ok_def)

lemma first_free_ge: "p \<le> first_free p bs"
  by (induction p bs rule: first_free.induct) auto

lemma extent_mult4: "seg r s prev p bs \<Longrightarrow> 4 dvd extent bs"
  by (induction bs arbitrary: prev p) auto

lemma tidy_split: "tidy (as @ b # cs) \<Longrightarrow> tidy as \<and> tidy cs"
  by (auto simp: successively_append_iff successively_Cons)

lemma pool_of [simp]:
  "heap_size_ok m \<Longrightarrow> ram m p = (self m AND MEM_MASK) OR (if u then 1 else 0) \<Longrightarrow> MEM_POOL m p = self m"
proof -
  assume ok: "heap_size_ok m" and r: "ram m p = (self m AND MEM_MASK) OR (if u then 1 else 0)"
  have "MEM_POOL m p = self m AND MEM_MASK" using r by (cases u) (simp_all add: MEM_POOL_def pool_ptr_def)
  then show ?thesis using ok by (simp add: heap_size_ok_def)
qed

lemma mem_used_as: "MEM_USED m = (self m AND MEM_MASK) OR (if True then 1 else 0)"
  by (simp add: MEM_USED_def)

lemma free_holds:
  assumes h: "heap_holds m (as @ (n, True) # cs)"
  shows "\<exists>m'. rt_smem_free m (Some (extent as + 12)) = Some m' \<and> heap_holds m' (release as n cs) \<and> same_heap m m' \<and>
    (\<forall>a. payload 0 (as @ (n, False) # cs) a \<longrightarrow> ram m' a = ram m a)"
proof -
  let ?p = "extent as"
  have ok: "heap_size_ok m" and seg: "seg (ram m) (self m) 0 0 (as @ (n, True) # cs)"
    and e: "?p + n + extent cs = heap_end m" and n: "16 \<le> n" "4 dvd n"
    and ends: "ram m (heap_end m) = MEM_USED m" "ram m (heap_end m + 4) = off32 (heap_end m)"
    and l: "lfree m = first_free 0 (as @ (n, True) # cs)" and us: "used m = of_nat (used_bytes (as @ (n, True) # cs))"
    and tidy: "tidy as" "tidy cs"
    using h tidy_split [of as "(n, True)" cs] by (auto simp: heap_holds_def heap_linked_def)
  have hp: "ram m ?p = (self m AND MEM_MASK) OR (if True then 1 else 0)" and nxt: "mem_next m ?p = off32 (?p + n)"
    and c: "seg (ram m) (self m) ?p (?p + n) cs"
    using seg by (simp_all add: mem_next_def)
  have u: "unat (off32 (?p + n)) = ?p + n" using e by (intro unat_of_pos [OF ok]) simp
  have "MEM_POOL m (?p + n) = self m"
  proof (cases cs)
    case Nil
    then show ?thesis using e ends(1) pool_of [OF ok, of "heap_end m" True] by (simp add: MEM_USED_def)
  next
    case (Cons b ds)
    then obtain k v where "ram m (?p + n) = (self m AND MEM_MASK) OR (if v then 1 else 0)"
      using c by (cases b) auto
    then show ?thesis by (rule pool_of [OF ok])
  qed
  moreover have "4 dvd unat (heap_ptr m) + (?p + 12)"
    using ok extent_mult4 [of "ram m" "self m" 0 0 as] seg by (auto simp: heap_size_ok_def)
  moreover have "?p + 12 < heap_end m" using e n by simp
  ultimately have fr: "rt_smem_free m (Some (?p + 12)) =
      plug_holes ?p (m\<lparr>ram := (ram m)(?p := self m AND MEM_MASK), lfree := min ?p (lfree m), used := used m - of_nat n\<rparr>)"
    (is "_ = plug_holes ?p ?m1")
    using isused_seg [OF hp] pool_of [OF ok hp] nxt u
    by (simp add: rt_smem_free_def SIZEOF_STRUCT_MEM_def Let_def mem_next_def MEM_FREED_def poke_def off32_def min_def)
  have "first_free 0 (as @ (n, False) # cs) = min ?p (lfree m)"
    using l first_free_le [of 0 as] first_free_ge [of "?p + n" cs] by (simp add: first_free_append)
  then have "heap_linked ?m1 (as @ (n, False) # cs)"
    using ok seg e ends us n c by (simp add: heap_linked_def MEM_USED_def)
  from plug_holes_holds [OF this tidy] obtain m' where m': "plug_holes ?p ?m1 = Some m'" "heap_holds m' (release as n cs)"
    "m' = ?m1\<lparr>ram := ram m'\<rparr>" "\<forall>a. payload 0 (as @ (n, False) # cs) a \<longrightarrow> ram m' a = ram ?m1 a" by blast
  have "same_heap m m'" by (subst m'(3)) simp
  moreover have "ram ?m1 a = ram m a" if "payload 0 (as @ (n, False) # cs) a" for a
    using that payload_range [of 0 as a] payload_range [of "?p + n" cs a] n by auto
  ultimately show ?thesis using fr m'(1,2,4) by auto
qed

section \<open>Allocating\<close>

text \<open>The specification: the first free block with room for \<open>k\<close> bytes behind its header.\<close>

fun first_fit :: "nat \<Rightarrow> nat \<Rightarrow> block list \<Rightarrow> nat option" where
  "first_fit k p [] = None"
| "first_fit k p ((n, u) # bs) = (if \<not> u \<and> k + 12 \<le> n then Some p else first_fit k (p + n) bs)"

definition acquire :: "nat \<Rightarrow> block list \<Rightarrow> nat \<Rightarrow> block list \<Rightarrow> block list" where
  "acquire k as n cs = as @ (if k + 36 \<le> n then [(12 + k, True), (n - 12 - k, False)] else [(n, True)]) @ cs"

lemma first_fit_None: "first_fit k p bs = None \<longleftrightarrow> (\<forall>(n, u) \<in> set bs. u \<or> n < k + 12)"
  by (induction k p bs rule: first_fit.induct) auto

lemma first_fit_Some:
  "first_fit k p bs = Some q \<Longrightarrow> \<exists>as n cs. bs = as @ (n, False) # cs \<and> q = p + extent as \<and> k + 12 \<le> n \<and> first_fit k p as = None"
proof (induction k p bs rule: first_fit.induct)
  case (2 k p n u bs)
  show ?case
  proof (cases "\<not> u \<and> k + 12 \<le> n")
    case True
    then show ?thesis using 2(2) by (intro exI [of _ "[]"]) simp
  next
    case False
    then obtain as n' cs where "bs = as @ (n', False) # cs" "q = p + n + extent as" "k + 12 \<le> n'" "first_fit k (p + n) as = None"
      using 2 by auto
    then show ?thesis using False by (intro exI [of _ "(n, u) # as"]) auto
  qed
qed simp

lemma first_fit_bound: "first_fit k p bs = Some q \<Longrightarrow> p \<le> q \<and> q + k + 12 \<le> p + extent bs"
  using first_fit_Some [of k p bs q] by auto

lemma first_fit_at:
  "first_fit k p as = None \<Longrightarrow> k + 12 \<le> n \<Longrightarrow> first_fit k p (as @ (n, False) # cs) = Some (p + extent as)"
  by (induction k p as rule: first_fit.induct) (auto simp: add.assoc split: if_splits)

lemma first_free_takeWhile: "first_free p bs = p + extent (takeWhile snd bs)"
  by (induction p bs rule: first_free.induct) auto

lemma first_fit_used: "\<forall>b \<in> set as. snd b \<Longrightarrow> first_fit k p (as @ cs) = first_fit k (p + extent as) cs"
  by (induction k p as rule: first_fit.induct) (auto simp: add.assoc)

lemma room_seg:
  assumes ok: "heap_size_ok m" and seg: "seg (ram m) (self m) prev p ((n, u) # cs)" and e: "p + n + extent cs = heap_end m"
  shows "unat (off32 p) = p" "unat (off32 (p + n)) = p + n" "MEM_ISUSED m p = u" "mem_next m p = off32 (p + n)"
    "smem_room m p = of_nat (n - 12)" "unat (smem_room m p) = n - 12"
proof -
  have n: "16 \<le> n" using seg by simp
  show nxt: "mem_next m p = off32 (p + n)" using seg by (simp add: mem_next_def)
  show "MEM_ISUSED m p = u" using seg isused_seg [of m p u] by simp
  show "unat (off32 p) = p" "unat (off32 (p + n)) = p + n" using e by (simp_all add: unat_of_pos [OF ok])
  have "off32 (p + n) = off32 p + 12 + of_nat (n - 12)"
    using n by (simp add: off32_def of_nat_diff)
  then show room: "smem_room m p = of_nat (n - 12)"
    using nxt by (simp add: smem_room_def SIZEOF_STRUCT_MEM_def off32_def)
  show "unat (smem_room m p) = n - 12"
    unfolding room
  proof (rule unat_of_nat32)
    have "n - 12 \<le> heap_end m" using e by simp
    moreover have "heap_end m < 2 ^ 32" using ok by (simp add: heap_size_ok_def)
    ultimately show "n - 12 < 2 ^ 32" by simp
  qed
qed

lemma search_bound:
  assumes "heap_size_ok m" "sz \<le> mem_size_aligned m" "q \<le> heap_end m"
  shows "off32 q \<le> mem_size_aligned m - sz \<longleftrightarrow> q + unat sz \<le> unat (mem_size_aligned m)"
  using assms unat_of_pos [OF assms(1,3)] by (auto simp: word_le_nat_alt unat_sub)

lemma search_from:
  assumes ok: "heap_size_ok m" and k: "k = unat sz" "12 \<le> k" "sz \<le> mem_size_aligned m"
  defines "go \<equiv> \<lambda>ptr. ptr \<le> mem_size_aligned m - sz \<and> \<not> (\<not> MEM_ISUSED m (unat ptr) \<and> sz \<le> smem_room m (unat ptr))"
  shows "seg (ram m) (self m) prev p cs \<Longrightarrow> p + extent cs = heap_end m \<Longrightarrow>
    \<exists>ptr. while_option go (\<lambda>ptr. mem_next m (unat ptr)) (off32 p) = Some ptr \<and>
      (case first_fit k p cs of Some q \<Rightarrow> ptr = off32 q \<and> ptr \<le> mem_size_aligned m - sz
       | None \<Rightarrow> \<not> ptr \<le> mem_size_aligned m - sz)"
proof (induction cs arbitrary: prev p)
  case Nil
  then have "\<not> off32 p \<le> mem_size_aligned m - sz"
    using search_bound [OF ok k(3), of p] ok k by (simp add: heap_size_ok_def)
  then show ?case by (simp add: go_def while_option_unfold)
next
  case (Cons b cs)
  obtain n u where b: "b = (n, u)" by (cases b)
  have e: "p + n + extent cs = heap_end m" and c: "seg (ram m) (self m) p (p + n) cs" and n: "16 \<le> n"
    using Cons.prems b by simp_all
  note room = room_seg [OF ok Cons.prems(1) [unfolded b] e]
  note le = search_bound [OF ok k(3), folded k(1)]
  have fits: "sz \<le> smem_room m p \<longleftrightarrow> k + 12 \<le> n"
    using room(6) n k(1) by (simp add: word_le_nat_alt le_diff_conv2)
  show ?case
  proof (cases "off32 p \<le> mem_size_aligned m - sz")
    case True
    show ?thesis
    proof (cases "\<not> u \<and> k + 12 \<le> n")
      case True
      then show ?thesis using room b fits \<open>off32 p \<le> _\<close> by (simp add: go_def while_option_unfold)
    next
      case False
      then have "while_option go (\<lambda>ptr. mem_next m (unat ptr)) (off32 p) =
          while_option go (\<lambda>ptr. mem_next m (unat ptr)) (off32 (p + n))"
        using room fits True by (subst while_option_unfold) (auto simp: go_def)
      then show ?thesis using Cons.IH [OF c e] False b by auto
    qed
  next
    case False
    then have "first_fit k p (b # cs) = None"
      using first_fit_bound [of k p "b # cs"] le [of p] ok b e by (cases "first_fit k p (b # cs)") (auto simp: heap_size_ok_def)
    then show ?thesis using False by (simp add: go_def while_option_unfold)
  qed
qed

lemma first_free_less:
  "seg r s prev p bs \<Longrightarrow> \<not> (\<forall>b \<in> set bs. snd b) \<Longrightarrow> first_free p bs < p + extent bs"
  by (induction bs arbitrary: prev p) (fastforce split: if_splits)+

lemma lowest_from:
  assumes ok: "heap_size_ok m"
  shows "seg (ram m) (self m) prev p cs \<Longrightarrow> p + extent cs = heap_end m \<Longrightarrow>
    while_option (\<lambda>l. MEM_ISUSED m l \<and> l \<noteq> heap_end m) (\<lambda>l. unat (mem_next m l)) p = Some (first_free p cs)"
proof (induction cs arbitrary: prev p)
  case Nil
  then show ?case by (simp add: while_option_unfold)
next
  case (Cons b cs)
  obtain n u where b: "b = (n, u)" by (cases b)
  have e: "p + n + extent cs = heap_end m" and c: "seg (ram m) (self m) p (p + n) cs" and n: "16 \<le> n"
    using Cons.prems b by simp_all
  note room = room_seg [OF ok Cons.prems(1) [unfolded b] e]
  show ?case using Cons.IH [OF c e] room b e n by (subst while_option_unfold) auto
qed

lemma seg_mark:
  "seg r s prev p ((n, u) # cs) \<Longrightarrow> seg (r(p := (s AND MEM_MASK) OR 1)) s prev p ((n, True) # cs)"
  by simp

lemma take_holds:
  assumes h: "heap_linked m (as @ (n, False) # cs)" and k: "k = unat sz" "4 dvd k" "12 \<le> k" "k + 12 \<le> n"
  defines "m' \<equiv> smem_take (extent as) sz m"
  shows "same_heap m m'" "lfree m' = lfree m" "seg (ram m') (self m) 0 0 (acquire k as n cs)"
    "ram m' (heap_end m) = ram m (heap_end m)" "ram m' (heap_end m + 4) = ram m (heap_end m + 4)"
    "used m' = of_nat (used_bytes (acquire k as n cs))"
    "payload 0 (as @ (n, False) # cs) a \<Longrightarrow> ram m' a = ram m a"
proof -
  let ?p = "extent as"
  have ok: "heap_size_ok m" and seg: "seg (ram m) (self m) (last_start 0 0 as) ?p ((n, False) # cs)"
    and as: "seg (ram m) (self m) 0 0 as" and e: "?p + n + extent cs = heap_end m"
    and us: "used m = of_nat (used_bytes (as @ (n, False) # cs))"
    using h by (auto simp: heap_linked_def)
  note room = room_seg [OF ok seg e]
  have big: "sz + SIZEOF_STRUCT_MEM + MIN_SIZE_ALIGNED \<le> smem_room m ?p \<longleftrightarrow> k + 36 \<le> n"
  proof -
    have "unat (24 + sz) = k + 24"
      using k e ok by (subst unat_plus_simple [THEN iffD1]) (auto simp: word_le_nat_alt unat_word_ariths heap_size_ok_def)
    then show ?thesis using room(6) k by (auto simp: word_le_nat_alt SIZEOF_STRUCT_MEM_def MIN_SIZE_ALIGNED_def le_diff_conv2)
  qed
  have sz: "sz = of_nat k" using k(1) by simp
  have "same_heap m m' \<and> lfree m' = lfree m \<and> seg (ram m') (self m) 0 0 (acquire k as n cs) \<and>
    used m' = of_nat (used_bytes (acquire k as n cs)) \<and>
    (\<forall>a. payload 0 (as @ (n, False) # cs) a \<or> a = heap_end m \<or> a = heap_end m + 4 \<longrightarrow> ram m' a = ram m a)"
  proof (cases "k + 36 \<le> n")
    case True
    have q: "unat (off32 ?p + SIZEOF_STRUCT_MEM + sz) = ?p + 12 + k"
      using unat_of_pos [OF ok, of "?p + 12 + k"] e True by (simp add: off32_def SIZEOF_STRUCT_MEM_def sz)
    let ?i = "smem_insert ?p (?p + 12 + k) m"
    have m': "m' = set_pool_ptr ?p (MEM_USED m) (add_used (sz + 12) ?i)"
      using big True q [unfolded SIZEOF_STRUCT_MEM_def] by (simp add: m'_def smem_take_def MEM_USED_def add_used_def smem_insert_sel SIZEOF_STRUCT_MEM_def)
    have i: "4 dvd k" "4 \<le> k" "k + 28 \<le> n" using k True by simp_all
    note ins = smem_insert_seg [OF ok seg e i]
    have "seg (ram m') (self m) (last_start 0 0 as) ?p ((12 + k, True) # (n - 12 - k, False) # cs)"
      using seg_mark [OF ins(1)] by (simp add: m' add_used_def MEM_USED_def)
    moreover have c: "seg (ram m) (self m) ?p (?p + n) cs" using seg by simp
    have fr: "ram m' a = ram m a" if "payload 0 (as @ (n, False) # cs) a \<or> a < ?p \<or> a = heap_end m \<or> a = heap_end m + 4" for a
      using that ins(2) [of a] e True payload_range [of 0 as a] payload_range [of "?p + n" cs a] seg_bound [OF c]
      by (cases "cs = []") (auto simp: m' add_used_def)
    then have "seg (ram m') (self m) 0 0 as" by (intro seg_payload [OF as]) simp
    ultimately show ?thesis using fr us True sz
      by (simp add: acquire_def m' add_used_def smem_insert_sel same_heap_def)
  next
    case False
    have m': "m' = set_pool_ptr ?p (MEM_USED m) (add_used (of_nat n) m)"
      using big False room(4) by (simp add: m'_def smem_take_def MEM_USED_def add_used_def off32_def)
    show ?thesis
      using seg as us e k(3,4) False payload_range [of 0 as] payload_range [of "?p + n" cs ?p]
      by (auto simp: acquire_def m' add_used_def same_heap_def MEM_USED_def)
  qed
  then show "same_heap m m'" "lfree m' = lfree m" "seg (ram m') (self m) 0 0 (acquire k as n cs)"
    "ram m' (heap_end m) = ram m (heap_end m)" "ram m' (heap_end m + 4) = ram m (heap_end m + 4)"
    "used m' = of_nat (used_bytes (acquire k as n cs))"
    "payload 0 (as @ (n, False) # cs) a \<Longrightarrow> ram m' a = ram m a" by blast+
qed

lemma acquire_facts:
  assumes "tidy (as @ (n, False) # cs)" "4 \<le> k" "k + 12 \<le> n"
  shows "tidy (acquire k as n cs)" "extent (acquire k as n cs) = extent as + n + extent cs"
    "first_free 0 (acquire k as n cs) =
      (if \<forall>b \<in> set as. snd b then first_free (extent as) (drop (length as) (acquire k as n cs)) else first_free 0 as)"
  using assms by (auto simp: acquire_def successively_append_iff successively_Cons first_free_append)

lemma alloc_holds:
  assumes h: "heap_holds m bs" and sz: "sz \<noteq> 0" "RT_ALIGN sz \<le> mem_size_aligned m"
    and k: "k = max (unat (RT_ALIGN sz)) 12"
  shows "first_fit k 0 bs = None \<Longrightarrow> rt_smem_alloc m sz = Some (m, None)"
    and "bs = as @ (n, False) # cs \<Longrightarrow> k + 12 \<le> n \<Longrightarrow> first_fit k 0 as = None \<Longrightarrow>
      \<exists>m'. rt_smem_alloc m sz = Some (m', Some (extent as + 12)) \<and> heap_holds m' (acquire k as n cs) \<and> same_heap m m' \<and>
        (\<forall>a. payload 0 bs a \<longrightarrow> ram m' a = ram m a)"
proof -
  let ?sz = "max (RT_ALIGN sz) MIN_SIZE_ALIGNED"
  have ok: "heap_size_ok m" and seg: "seg (ram m) (self m) 0 0 bs" and e: "extent bs = heap_end m"
    and l: "lfree m = first_free 0 bs" and ends: "ram m (heap_end m) = MEM_USED m" "ram m (heap_end m + 4) = off32 (heap_end m)"
    and tidy: "tidy bs"
    using h by (auto simp: heap_holds_def heap_linked_def)
  have ksz: "k = unat ?sz" using k by (simp add: max_def word_le_nat_alt MIN_SIZE_ALIGNED_def)
  have k12: "12 \<le> k" and k4: "4 dvd k" using k by (simp_all add: max_def)
  have "k \<le> unat (mem_size_aligned m)"
    using k sz(2) ok by (simp add: heap_size_ok_def word_le_nat_alt)
  then have le: "?sz \<le> mem_size_aligned m" by (simp only: word_le_nat_alt ksz)
  let ?as = "takeWhile snd bs" and ?cs = "dropWhile snd bs"
  have used: "\<forall>b \<in> set ?as. snd b" by (auto dest: set_takeWhileD)
  have ff: "first_free 0 bs = extent ?as"
    by (simp add: first_free_takeWhile)
  have fit: "first_fit k 0 bs = first_fit k (extent ?as) ?cs"
    using first_fit_used [OF used, of k 0 ?cs] by simp
  have "seg (ram m) (self m) (last_start 0 0 ?as) (extent ?as) ?cs" "extent ?as + extent ?cs = heap_end m"
    using seg e seg_append [of "ram m" "self m" 0 0 ?as ?cs] extent_append [of ?as ?cs] by simp_all
  from search_from [OF ok ksz k12 le this] obtain ptr where
    s: "smem_search m ?sz = Some ptr"
    and ptr: "case first_fit k 0 bs of Some q \<Rightarrow> ptr = off32 q \<and> ptr \<le> mem_size_aligned m - ?sz
       | None \<Rightarrow> \<not> ptr \<le> mem_size_aligned m - ?sz"
    unfolding smem_search_def l ff fit by auto
  show "rt_smem_alloc m sz = Some (m, None)" if "first_fit k 0 bs = None"
    using s ptr that sz by (simp add: rt_smem_alloc_def Let_def)
  assume bs: "bs = as @ (n, False) # cs" and kn: "k + 12 \<le> n" and none: "first_fit k 0 as = None"
  let ?q = "extent as"
  have some: "first_fit k 0 bs = Some ?q" using first_fit_at [OF none kn, of cs] bs by simp
  have bound: "?q + 12 + k \<le> heap_end m" and uq: "unat (off32 ?q) = ?q"
    using kn e bs unat_of_pos [OF ok, of ?q] by simp_all
  let ?m1 = "smem_take ?q ?sz m" and ?bs' = "acquire k as n cs"
  have linked: "heap_linked m (as @ (n, False) # cs)" using h bs by (simp add: heap_holds_def)
  note t = take_holds [OF linked ksz k4 k12 kn]
  have ok1: "heap_size_ok ?m1" using same_heap_ok [OF t(1)] ok by simp
  have f: "tidy ?bs'" "extent ?bs' = heap_end m"
    using acquire_facts [of as n cs k] tidy k12 kn bs e by simp_all
  have low: "smem_lowest ?q ?m1 = Some (?m1\<lparr>lfree := first_free 0 ?bs'\<rparr>)"
  proof (cases "\<forall>b \<in> set as. snd b")
    case True
    let ?rest = "drop (length as) ?bs'"
    have rest: "?bs' = as @ ?rest" by (simp add: acquire_def)
    have "seg (ram ?m1) (self ?m1) (last_start 0 0 as) ?q ?rest" "?q + extent ?rest = heap_end ?m1"
      using t(1,3) f(2) seg_append [of "ram ?m1" "self m" 0 0 as ?rest] extent_append [of as ?rest] rest
      by (simp_all add: same_heap_def)
    from lowest_from [OF ok1 this] show ?thesis
      using t(2) l bs True first_free_append [of 0 as ?rest] rest
      by (simp add: smem_lowest_def first_free_append)
  next
    case False
    then have "lfree m = first_free 0 as" "first_free 0 ?bs' = first_free 0 as"
      using l bs by (auto simp: first_free_append acquire_def)
    moreover have "first_free 0 as \<noteq> ?q"
      using first_free_less [of "ram m" "self m" 0 0 as] False seg bs by simp
    ultimately show ?thesis using t(2) by (simp add: smem_lowest_def)
  qed
  have at: "ptr = off32 ?q" "off32 ?q \<le> mem_size_aligned m - ?sz" using ptr some by auto
  have "\<not> mem_size_aligned m < RT_ALIGN sz" using sz(2) by simp
  moreover have "4 dvd ?q" using seg bs extent_mult4 [of "ram m" "self m" 0 0 as] by simp
  ultimately have "rt_smem_alloc m sz = Some (?m1\<lparr>lfree := first_free 0 ?bs'\<rparr>, Some (?q + 12))"
    using s at sz(1) bound uq low t(1) ok ksz
    by (simp add: rt_smem_alloc_def Let_def SIZEOF_STRUCT_MEM_def same_heap_def heap_size_ok_def)
  moreover have "heap_holds (?m1\<lparr>lfree := first_free 0 ?bs'\<rparr>) ?bs'"
    using t ok1 f ends by (simp add: heap_holds_def heap_linked_def same_heap_def MEM_USED_def)
  ultimately show "\<exists>m'. rt_smem_alloc m sz = Some (m', Some (?q + 12)) \<and> heap_holds m' (acquire k as n cs) \<and> same_heap m m' \<and>
        (\<forall>a. payload 0 bs a \<longrightarrow> ram m' a = ram m a)"
    using t(1,7) bs by auto
qed

end
