(* ===== verification/Allocator.thy ===== *)
theory Allocator
  imports Prelude
begin

text \<open>
  The contract between a memory allocator and its clients, as the heap and the memory pools
  give it. \<open>live h V\<close>: the allocator's data are in order and exactly the regions \<open>V\<close> (start
  and length in bytes) are handed out. Memory is read and written in aligned words.
\<close>

section \<open>Clients\<close>

type_synonym region = "nat \<times> nat"

definition inside :: "nat \<Rightarrow> region \<Rightarrow> bool" where
  "inside a r \<longleftrightarrow> fst r \<le> a \<and> a < fst r + snd r"

text \<open>
  What clients do, with what they know: the regions they own, as long as they asked for, and
  the words they have written into them. They free what they own, once, and write only
  inside it; everything else is the allocator's business.
\<close>

type_synonym 'h client = "'h \<times> region set \<times> (nat \<rightharpoonup> u32)"

inductive client_step ::
    "('h \<Rightarrow> 'r \<Rightarrow> ('h \<times> nat option) option) \<Rightarrow> ('h \<Rightarrow> nat \<Rightarrow> 'h option) \<Rightarrow> (nat \<Rightarrow> u32 \<Rightarrow> 'h \<Rightarrow> 'h) \<Rightarrow>
     ('r \<Rightarrow> bool) \<Rightarrow> ('r \<Rightarrow> nat) \<Rightarrow> 'h client \<Rightarrow> 'h client \<Rightarrow> bool"
  for alloc free store fine need where
  alloc_fails: "fine q \<Longrightarrow> alloc h q = Some (h', None) \<Longrightarrow>
    client_step alloc free store fine need (h, V, w) (h', V, w)"
| alloc_gives: "fine q \<Longrightarrow> alloc h q = Some (h', Some p) \<Longrightarrow>
    client_step alloc free store fine need (h, V, w) (h', insert (p, need q) V, w |` (- {p..<p + need q}))"
| frees: "(p, k) \<in> V \<Longrightarrow> free h p = Some h' \<Longrightarrow>
    client_step alloc free store fine need (h, V, w) (h', V - {(p, k)}, w |` (- {p..<p + k}))"
| stores: "(p, k) \<in> V \<Longrightarrow> p \<le> a \<Longrightarrow> a + 4 \<le> p + k \<Longrightarrow> 4 dvd a - p \<Longrightarrow>
    client_step alloc free store fine need (h, V, w) (store a v h, V, w(a \<mapsto> v))"

inductive client_runs ::
    "('h \<Rightarrow> 'r \<Rightarrow> ('h \<times> nat option) option) \<Rightarrow> ('h \<Rightarrow> nat \<Rightarrow> 'h option) \<Rightarrow> (nat \<Rightarrow> u32 \<Rightarrow> 'h \<Rightarrow> 'h) \<Rightarrow>
     ('r \<Rightarrow> bool) \<Rightarrow> ('r \<Rightarrow> nat) \<Rightarrow> 'h client \<Rightarrow> 'h client \<Rightarrow> bool"
  for alloc free store fine need where
  start: "client_runs alloc free store fine need x x"
| more: "client_runs alloc free store fine need x y \<Longrightarrow> client_step alloc free store fine need y z \<Longrightarrow>
    client_runs alloc free store fine need x z"

text \<open>The regions the clients know are those handed out, at most as long.\<close>

definition known :: "region set \<Rightarrow> region set \<Rightarrow> bool" where
  "known V W \<longleftrightarrow> (\<forall>(p, k) \<in> V. \<exists>n \<ge> k. (p, n) \<in> W) \<and> (\<forall>(p, n) \<in> W. \<exists>k. (p, k) \<in> V) \<and>
     (\<forall>p k j. (p, k) \<in> V \<longrightarrow> (p, j) \<in> V \<longrightarrow> j = k)"

section \<open>The contract\<close>

locale allocator =
  fixes live :: "'h \<Rightarrow> region set \<Rightarrow> bool"
    and alloc :: "'h \<Rightarrow> 'r \<Rightarrow> ('h \<times> nat option) option"
    and free :: "'h \<Rightarrow> nat \<Rightarrow> 'h option"
    and store :: "nat \<Rightarrow> u32 \<Rightarrow> 'h \<Rightarrow> 'h"
    and fetch :: "'h \<Rightarrow> nat \<Rightarrow> u32"
    and fine :: "'r \<Rightarrow> bool"
    and need :: "'r \<Rightarrow> nat"
  assumes apart: "live h W \<Longrightarrow> r \<in> W \<Longrightarrow> s \<in> W \<Longrightarrow> r \<noteq> s \<Longrightarrow> fst r + snd r \<le> fst s \<or> fst s + snd s \<le> fst r"
    and nonempty: "live h W \<Longrightarrow> r \<in> W \<Longrightarrow> 0 < snd r"
    and allocates: "live h W \<Longrightarrow> fine q \<Longrightarrow>
      (\<exists>h'. alloc h q = Some (h', None) \<and> live h' W \<and> (\<forall>r \<in> W. \<forall>a. inside a r \<longrightarrow> fetch h' a = fetch h a)) \<or>
      (\<exists>h' p n. alloc h q = Some (h', Some p) \<and> need q \<le> n \<and> (p, n) \<notin> W \<and> live h' (insert (p, n) W) \<and>
         (\<forall>r \<in> W. \<forall>a. inside a r \<longrightarrow> fetch h' a = fetch h a))"
    and releases: "live h W \<Longrightarrow> (p, n) \<in> W \<Longrightarrow>
      \<exists>h'. free h p = Some h' \<and> live h' (W - {(p, n)}) \<and>
        (\<forall>r \<in> W - {(p, n)}. \<forall>a. inside a r \<longrightarrow> fetch h' a = fetch h a)"
    and stored: "live h W \<Longrightarrow> r \<in> W \<Longrightarrow> inside a r \<Longrightarrow>
      live (store a v h) W \<and> fetch (store a v h) = (fetch h)(a := v)"
begin

lemma same_start: "live h W \<Longrightarrow> (p, n) \<in> W \<Longrightarrow> (p, k) \<in> W \<Longrightarrow> n = k"
  using apart [of h W "(p, n)" "(p, k)"] nonempty [of h W "(p, n)"] nonempty [of h W "(p, k)"] by auto

definition written :: "'h \<Rightarrow> region set \<Rightarrow> (nat \<rightharpoonup> u32) \<Rightarrow> bool" where
  "written h V w \<longleftrightarrow> (\<forall>a v. w a = Some v \<longrightarrow> fetch h a = v \<and> (\<exists>r \<in> V. inside a r))"

lemma writtenI: "(\<And>a v. w a = Some v \<Longrightarrow> fetch h a = v \<and> (\<exists>r \<in> V. inside a r)) \<Longrightarrow> written h V w"
  by (simp add: written_def)

lemma writtenD: "written h V w \<Longrightarrow> w a = Some v \<Longrightarrow> fetch h a = v \<and> (\<exists>r \<in> V. inside a r)"
  by (simp add: written_def)

definition client_ok :: "'h client \<Rightarrow> bool" where
  "client_ok x \<longleftrightarrow> (case x of (h, V, w) \<Rightarrow>
     (\<exists>W. live h W \<and> known V W) \<and> written h V w)"

lemma known_region:
  assumes "known V W" "r \<in> V"
  obtains n where "(fst r, n) \<in> W" "snd r \<le> n"
  using assms unfolding known_def by (cases r) auto

lemma known_one: "known V W \<Longrightarrow> (p, k) \<in> V \<Longrightarrow> (p, j) \<in> V \<Longrightarrow> j = k"
  unfolding known_def by blast

lemma knownD:
  assumes "known V W" "r \<in> V" "inside a r"
  shows "\<exists>s \<in> W. inside a s \<and> fst s = fst r"
proof -
  obtain n where "(fst r, n) \<in> W" "snd r \<le> n" using known_region [OF assms(1,2)] .
  then show ?thesis using assms(3) by (intro bexI [of _ "(fst r, n)"]) (auto simp: inside_def)
qed

lemma client_okI:
  assumes "live h W" "known V W" "written h V w"
  shows "client_ok (h, V, w)"
  using assms by (auto simp: client_ok_def)

lemma client_okE:
  assumes "client_ok (h, V, w)"
  obtains W where "live h W" "known V W" "written h V w"
  using assms by (auto simp: client_ok_def)

lemma ok_alloc_fails:
  assumes ok: "client_ok (h, V, w)" and fine: "fine q" and a: "alloc h q = Some (h', None)"
  shows "client_ok (h', V, w)"
proof -
  obtain W where W: "live h W" "known V W" "written h V w"
    by (rule client_okE [OF ok])
  have h': "live h' W" "\<forall>r \<in> W. \<forall>a. inside a r \<longrightarrow> fetch h' a = fetch h a"
    using allocates [OF W(1) fine] a by auto
  have "written h' V w"
  proof (rule writtenI)
    fix a v assume "w a = Some v"
    from writtenD [OF W(3) this] show "fetch h' a = v \<and> (\<exists>r \<in> V. inside a r)"
      using h'(2) knownD [OF W(2)] by metis
  qed
  then show ?thesis using client_okI [OF h'(1) W(2)] by blast
qed

lemma ok_alloc_gives:
  assumes ok: "client_ok (h, V, w)" and fine: "fine q" and a: "alloc h q = Some (h', Some p)"
  shows "client_ok (h', insert (p, need q) V, w |` (- {p..<p + need q}))"
proof -
  obtain W where W: "live h W" "known V W" "written h V w"
    by (rule client_okE [OF ok])
  obtain n where h': "need q \<le> n" "(p, n) \<notin> W" "live h' (insert (p, n) W)" "\<forall>r \<in> W. \<forall>a. inside a r \<longrightarrow> fetch h' a = fetch h a"
    using allocates [OF W(1) fine] a by auto
  have new: "(p, j) \<notin> W" for j using same_start [OF h'(3), of p n j] h'(2) by auto
  have "known (insert (p, need q) V) (insert (p, n) W)"
    using W(2) h'(1) new unfolding known_def by auto
  moreover have "written h' (insert (p, need q) V) (w |` (- {p..<p + need q}))"
  proof (rule writtenI)
    fix a v assume "(w |` (- {p..<p + need q})) a = Some v"
    then have "w a = Some v" by (simp add: restrict_map_def split: if_splits)
    from writtenD [OF W(3) this] show "fetch h' a = v \<and> (\<exists>r \<in> insert (p, need q) V. inside a r)"
      using h'(4) knownD [OF W(2)] by (metis insertCI)
  qed
  ultimately show ?thesis using client_okI [OF h'(3)] by blast
qed

lemma ok_frees:
  assumes ok: "client_ok (h, V, w)" and pk: "(p, k) \<in> V" and a: "free h p = Some h'"
  shows "client_ok (h', V - {(p, k)}, w |` (- {p..<p + k}))"
proof -
  obtain W where W: "live h W" "known V W" "written h V w"
    by (rule client_okE [OF ok])
  obtain n where n: "(p, n) \<in> W" "k \<le> n" using known_region [OF W(2) pk] by auto
  from releases [OF W(1) n(1)] a have h': "live h' (W - {(p, n)})"
    "\<forall>r \<in> W - {(p, n)}. \<forall>a. inside a r \<longrightarrow> fetch h' a = fetch h a" by auto
  have one: "(p, j) \<in> V \<Longrightarrow> j = k" "(p, j) \<in> W \<Longrightarrow> j = n" for j
    using known_one [OF W(2) pk] same_start [OF W(1) n(1)] by blast+
  have "known (V - {(p, k)}) (W - {(p, n)})"
    unfolding known_def
  proof (intro conjI)
    show "\<forall>(q, j) \<in> V - {(p, k)}. \<exists>m \<ge> j. (q, m) \<in> W - {(p, n)}"
    proof (rule ballI)
      fix r assume r: "r \<in> V - {(p, k)}"
      obtain q j where qj: "r = (q, j)" by (cases r)
      then have q: "(q, j) \<in> V" "(q, j) \<noteq> (p, k)" using r by auto
      obtain m where "(q, m) \<in> W" "j \<le> m" using known_region [OF W(2) q(1)] by auto
      then show "case r of (q, j) \<Rightarrow> \<exists>m \<ge> j. (q, m) \<in> W - {(p, n)}" using q one(1) qj by auto
    qed
    show "\<forall>(q, m) \<in> W - {(p, n)}. \<exists>j. (q, j) \<in> V - {(p, k)}"
      using W(2) one(2) unfolding known_def by auto
  qed (use known_one [OF W(2)] in blast)
  moreover have "written h' (V - {(p, k)}) (w |` (- {p..<p + k}))"
  proof (rule writtenI)
    fix a v assume "(w |` (- {p..<p + k})) a = Some v"
    then have a: "w a = Some v" "\<not> inside a (p, k)" by (auto simp: restrict_map_def inside_def split: if_splits)
    then obtain r where r: "r \<in> V" "inside a r" "r \<noteq> (p, k)" "fetch h a = v" using writtenD [OF W(3)] by blast
    obtain s where s: "s \<in> W" "inside a s" "fst s = fst r" using knownD [OF W(2) r(1,2)] by blast
    have "s \<noteq> (p, n)" using s(3) r one by (cases r) auto
    then show "fetch h' a = v \<and> (\<exists>r \<in> V - {(p, k)}. inside a r)" using s h'(2) r by (metis DiffI singletonD)
  qed
  ultimately show ?thesis using client_okI [OF h'(1)] by blast
qed

lemma ok_stores:
  assumes ok: "client_ok (h, V, w)" and pk: "(p, k) \<in> V" and a: "p \<le> a" "a + 4 \<le> p + k"
  shows "client_ok (store a v h, V, w(a \<mapsto> v))"
proof -
  obtain W where W: "live h W" "known V W" "written h V w"
    by (rule client_okE [OF ok])
  have a: "inside a (p, k)" using a by (simp add: inside_def)
  obtain s where "s \<in> W" "inside a s" using knownD [OF W(2) pk a] by blast
  from stored [OF W(1) this] have "live (store a v h) W" "fetch (store a v h) = (fetch h)(a := v)" by auto
  moreover from this have "written (store a v h) V (w(a \<mapsto> v))"
    using W(3) pk a by (auto simp: written_def)
  ultimately show ?thesis using client_okI [OF _ W(2)] by blast
qed

lemma client_step_ok: "client_step alloc free store fine need x y \<Longrightarrow> client_ok x \<Longrightarrow> client_ok y"
  by (induction rule: client_step.induct) (auto intro: ok_alloc_fails ok_alloc_gives ok_frees ok_stores)

text \<open>What the clients can rely on.\<close>

lemma client_runs_ok: "client_runs alloc free store fine need x y \<Longrightarrow> client_ok x \<Longrightarrow> client_ok y"
  by (induction rule: client_runs.induct) (auto intro: client_step_ok)

lemma clients_live:
  assumes "client_runs alloc free store fine need (h0, {}, Map.empty) (h, V, w)" "live h0 {}"
  obtains W where "live h W" "known V W" "written h V w"
proof -
  have "client_ok (h0, {}, Map.empty)" using assms(2) by (auto simp: client_ok_def known_def written_def)
  then have "client_ok (h, V, w)" using client_runs_ok [OF assms(1)] by blast
  then show ?thesis using that by (rule client_okE)
qed

lemma clients_safe:
  assumes "client_runs alloc free store fine need (h0, {}, Map.empty) (h, V, w)" "live h0 {}"
  shows "(\<forall>r \<in> V. \<forall>s \<in> V. r \<noteq> s \<longrightarrow> fst r + snd r \<le> fst s \<or> fst s + snd s \<le> fst r) \<and>
    (\<forall>a v. w a = Some v \<longrightarrow> fetch h a = v) \<and>
    (\<forall>(p, k) \<in> V. free h p \<noteq> None) \<and> (\<forall>q. fine q \<longrightarrow> alloc h q \<noteq> None)"
proof -
  obtain W where W: "live h W" "known V W" "written h V w" using clients_live [OF assms] .
  have "fst r + snd r \<le> fst s \<or> fst s + snd s \<le> fst r" if rs: "r \<in> V" "s \<in> V" "r \<noteq> s" for r s
  proof -
    obtain n where n: "(fst r, n) \<in> W" "snd r \<le> n" using known_region [OF W(2) rs(1)] .
    obtain m where m: "(fst s, m) \<in> W" "snd s \<le> m" using known_region [OF W(2) rs(2)] .
    have "fst r \<noteq> fst s" using known_one [OF W(2)] rs by (cases r; cases s) auto
    then show ?thesis using apart [OF W(1) n(1) m(1)] n(2) m(2) by auto
  qed
  moreover have "free h p \<noteq> None" if "(p, k) \<in> V" for p k
    using known_region [OF W(2) that] releases [OF W(1)] by (metis fst_conv option.distinct(1))
  moreover have "alloc h q \<noteq> None" if "fine q" for q using allocates [OF W(1) that] by auto
  ultimately show ?thesis using writtenD [OF W(3)] by blast
qed

end

end
