(* ===== verification/Heap.thy ===== *)
theory Heap
  imports SmallMem Allocator
begin

text \<open>
  The heap of \<open>SmallMem\<close> under its clients: it meets the contract of an allocator, from its
  initialisation on, and the entry points of \<open>src/rt-thread/src/kservice.c\<close>.
\<close>

section \<open>The regions handed out\<close>

fun regions :: "nat \<Rightarrow> block list \<Rightarrow> region set" where
  "regions p [] = {}"
| "regions p ((n, u) # bs) = (if u then {(p + 12, n - 12)} else {}) \<union> regions (p + n) bs"

definition smem_live :: "rt_small_mem \<Rightarrow> region set \<Rightarrow> bool" where
  "smem_live m W \<longleftrightarrow> (\<exists>bs. heap_holds m bs \<and> W = regions 0 bs)"

lemma regions_append [simp]: "regions p (as @ bs) = regions p as \<union> regions (p + extent as) bs"
  by (induction p as rule: regions.induct) (auto simp: add.assoc)

lemma payload_regions: "payload p bs a \<longleftrightarrow> (\<exists>r \<in> regions p bs. inside a r)"
  by (induction p bs a rule: payload.induct) (auto simp: inside_def)

lemma regions_range:
  "seg r s prev p bs \<Longrightarrow> (q, k) \<in> regions p bs \<Longrightarrow> p + 12 \<le> q \<and> q + k \<le> p + extent bs \<and> 4 \<le> k"
  by (induction bs arbitrary: prev p) (fastforce split: if_splits)+

lemma regions_apart:
  "seg r s prev p bs \<Longrightarrow> x \<in> regions p bs \<Longrightarrow> y \<in> regions p bs \<Longrightarrow> x \<noteq> y \<Longrightarrow>
   fst x + snd x \<le> fst y \<or> fst y + snd y \<le> fst x"
proof (induction bs arbitrary: prev p)
  case (Cons b bs)
  obtain n u where b: "b = (n, u)" by (cases b)
  have c: "seg r s p (p + n) bs" and n: "16 \<le> n" using Cons.prems(1) b by simp_all
  have far: "p + n + 12 \<le> fst z" if "z \<in> regions (p + n) bs" for z
    using regions_range [OF c, of "fst z" "snd z"] that by simp
  show ?case
    using Cons.IH [OF c] Cons.prems(2-4) b n far [of x] far [of y] by (auto split: if_splits)
qed simp

lemma regions_split:
  "seg r s prev p bs \<Longrightarrow> (q, k) \<in> regions p bs \<Longrightarrow> \<exists>as cs. bs = as @ (k + 12, True) # cs \<and> q = p + extent as + 12"
proof (induction bs arbitrary: prev p)
  case (Cons b bs)
  obtain n u where b: "b = (n, u)" by (cases b)
  have c: "seg r s p (p + n) bs" and n: "16 \<le> n" using Cons.prems(1) b by simp_all
  show ?case
  proof (cases "(q, k) \<in> regions (p + n) bs")
    case True
    then obtain as cs where "bs = as @ (k + 12, True) # cs" "q = p + n + extent as + 12" using Cons.IH [OF c] by blast
    then show ?thesis using b by (intro exI [of _ "b # as"] exI [of _ cs]) simp
  next
    case False
    then have "u" "q = p + 12" "k + 12 = n" using Cons.prems(2) b n by (auto split: if_splits)
    then show ?thesis using b by (intro exI [of _ "[]"] exI [of _ bs]) simp
  qed
qed simp

lemma regions_release: "regions 0 (release as n cs) = regions 0 as \<union> regions (extent as + n) cs"
proof -
  have m: "regions p (merge_next ((n, False) # cs)) = regions (p + n) cs" for p n cs
    by (cases "((n, False) # cs)" rule: merge_next.cases) (auto simp: add.assoc)
  show ?thesis
  proof (cases as rule: rev_cases)
    case (snoc bs b)
    obtain k v where b: "b = (k, v)" by (cases b)
    obtain n' cs' where h: "merge_next ((n, False) # cs) = (n', False) # cs'" using merge_next_head by blast
    then have "regions (p + n') cs' = regions (p + n) cs" for p using m [of p n cs] by simp
    then show ?thesis using snoc b h m by (auto simp: release_def add.assoc [symmetric])
  qed (simp add: release_def m)
qed

lemma regions_acquire:
  "regions 0 (acquire k as n cs) =
     insert (extent as + 12, if k + 36 \<le> n then k else n - 12) (regions 0 as \<union> regions (extent as + n) cs)"
  by (auto simp: acquire_def)

lemma live_write:
  assumes "smem_live m W" "\<And>a. \<not> (\<exists>r \<in> W. inside a r) \<Longrightarrow> r' a = ram m a"
  shows "smem_live (m\<lparr>ram := r'\<rparr>) W"
proof -
  obtain bs where bs: "heap_holds m bs" and W: "W = regions 0 bs" using assms(1) by (auto simp: smem_live_def)
  have l: "heap_linked m bs" and "seg (ram m) (self m) 0 0 bs" and e: "extent bs = heap_end m"
    using bs by (auto simp: heap_holds_def heap_linked_def)
  have same: "r' a = ram m a" if "\<not> payload 0 bs a" for a using assms(2) that W by (simp add: payload_regions)
  have "seg r' (self m) 0 0 bs" by (rule seg_payload [OF \<open>seg _ _ _ _ _\<close>]) (simp add: same)
  moreover have "r' (heap_end m) = ram m (heap_end m)" "r' (heap_end m + 4) = ram m (heap_end m + 4)"
    using same payload_range [of 0 bs] e by (metis add.commute add_0 not_add_less1 nless_le)+
  ultimately show ?thesis using bs W l by (auto simp: smem_live_def heap_holds_def heap_linked_def MEM_USED_def)
qed

section \<open>The heap is an allocator\<close>

definition smem_free :: "rt_small_mem \<Rightarrow> nat \<Rightarrow> rt_small_mem option" where
  "smem_free m p = rt_smem_free m (Some p)"

definition smem_fine :: "u32 \<Rightarrow> bool" where
  "smem_fine sz \<longleftrightarrow> unat sz \<le> 2 ^ 32 - 4"

lemma align_ge: "smem_fine sz \<Longrightarrow> unat sz \<le> unat (RT_ALIGN sz)"
  by (simp add: align_value smem_fine_def)

lemma smem_allocates:
  assumes "smem_live m W" "smem_fine sz"
  shows "(\<exists>m'. rt_smem_alloc m sz = Some (m', None) \<and> smem_live m' W \<and> same_heap m m' \<and> ram m' = ram m) \<or>
    (\<exists>m' p n. rt_smem_alloc m sz = Some (m', Some p) \<and> unat sz \<le> n \<and> (p, n) \<notin> W \<and> smem_live m' (insert (p, n) W) \<and>
       same_heap m m' \<and> (\<forall>r \<in> W. \<forall>a. inside a r \<longrightarrow> ram m' a = ram m a))"
proof -
  obtain bs where bs: "heap_holds m bs" and W: "W = regions 0 bs" using assms(1) by (auto simp: smem_live_def)
  have seg: "seg (ram m) (self m) 0 0 bs" using bs by (simp add: heap_holds_def heap_linked_def)
  let ?k = "max (unat (RT_ALIGN sz)) 12"
  show ?thesis
  proof (cases "sz = 0 \<or> mem_size_aligned m < RT_ALIGN sz \<or> first_fit ?k 0 bs = None")
    case True
    then consider "sz = 0 \<or> mem_size_aligned m < RT_ALIGN sz" | "sz \<noteq> 0" "RT_ALIGN sz \<le> mem_size_aligned m" "first_fit ?k 0 bs = None"
      by (cases "sz = 0 \<or> mem_size_aligned m < RT_ALIGN sz") (auto simp: not_less)
    then have "rt_smem_alloc m sz = Some (m, None)"
    proof cases
      case 1
      then show ?thesis by (auto simp: rt_smem_alloc_def)
    next
      case 2
      then show ?thesis using alloc_holds(1) [OF bs] by simp
    qed
    then show ?thesis using assms(1) by (intro disjI1 exI [of _ m]) simp
  next
    case False
    then obtain as n cs where f: "bs = as @ (n, False) # cs" "?k + 12 \<le> n" "first_fit ?k 0 as = None"
      using first_fit_Some [of ?k 0 bs] by auto
    from alloc_holds(2) [OF bs _ _ refl f] False obtain m' where m':
      "rt_smem_alloc m sz = Some (m', Some (extent as + 12))" "heap_holds m' (acquire ?k as n cs)" "same_heap m m'"
      "\<forall>a. payload 0 bs a \<longrightarrow> ram m' a = ram m a" by (auto simp: not_less)
    let ?n = "if ?k + 36 \<le> n then ?k else n - 12"
    have "unat sz \<le> ?n" using f(2) align_ge [OF assms(2)] by auto
    moreover have "(extent as + 12, ?n) \<notin> W"
      using seg f regions_range [of "ram m" "self m" 0 0 as "extent as + 12" ?n]
        regions_range [of "ram m" "self m" "extent as" "extent as + n" cs "extent as + 12" ?n] by (auto simp: W)
    moreover have "smem_live m' (insert (extent as + 12, ?n) W)"
      using m'(2) regions_acquire [of ?k as n cs] f(1) W unfolding smem_live_def
      by (intro exI [of _ "acquire ?k as n cs"]) simp
    moreover have "\<forall>r \<in> W. \<forall>a. inside a r \<longrightarrow> ram m' a = ram m a" using m'(4) W by (auto simp: payload_regions)
    ultimately show ?thesis using m'(1,3) by blast
  qed
qed

lemma smem_releases:
  assumes "smem_live m W" "(p, n) \<in> W"
  shows "\<exists>m'. smem_free m p = Some m' \<and> smem_live m' (W - {(p, n)}) \<and> same_heap m m' \<and>
    (\<forall>r \<in> W - {(p, n)}. \<forall>a. inside a r \<longrightarrow> ram m' a = ram m a)"
proof -
  obtain bs where bs: "heap_holds m bs" and W: "W = regions 0 bs" using assms(1) by (auto simp: smem_live_def)
  have seg: "seg (ram m) (self m) 0 0 bs" using bs by (simp add: heap_holds_def heap_linked_def)
  obtain as cs where s: "bs = as @ (n + 12, True) # cs" "p = extent as + 12"
    using regions_split [OF seg] assms(2) W by fastforce
  from free_holds [OF bs [unfolded s(1)]] obtain m' where m': "smem_free m p = Some m'"
    "heap_holds m' (release as (n + 12) cs)" "same_heap m m'"
    "\<forall>a. payload 0 (as @ (n + 12, False) # cs) a \<longrightarrow> ram m' a = ram m a" by (auto simp: smem_free_def s(2))
  have "(p, n) \<notin> regions 0 as" "(p, n) \<notin> regions (extent as + (n + 12)) cs"
    using seg s regions_range [of "ram m" "self m" 0 0 as p n]
      regions_range [of "ram m" "self m" "extent as" "extent as + (n + 12)" cs p n] by auto
  then have rest: "W - {(p, n)} = regions 0 as \<union> regions (extent as + (n + 12)) cs"
    using s W by auto
  then have "smem_live m' (W - {(p, n)})" using m'(2) regions_release by (auto simp: smem_live_def)
  moreover have "\<forall>r \<in> W - {(p, n)}. \<forall>a. inside a r \<longrightarrow> ram m' a = ram m a"
    using m'(4) unfolding rest by (auto simp: payload_regions)
  ultimately show ?thesis using m'(1,3) by blast
qed

lemma smem_apart:
  assumes "smem_live m W" "r \<in> W" "s \<in> W" "r \<noteq> s"
  shows "fst r + snd r \<le> fst s \<or> fst s + snd s \<le> fst r"
  using assms regions_apart [of "ram m" "self m" 0 0 _ r s] by (auto simp: smem_live_def heap_holds_def heap_linked_def)

lemma smem_range: "smem_live m W \<Longrightarrow> (p, n) \<in> W \<Longrightarrow> 12 \<le> p \<and> p + n \<le> heap_end m \<and> 0 < n"
  unfolding smem_live_def heap_holds_def heap_linked_def
  by clarify (drule (1) regions_range, simp)

text \<open>Seen from outside, the heap \<open>m0\<close> keeps its place and size.\<close>

definition smem_in :: "rt_small_mem \<Rightarrow> rt_small_mem \<Rightarrow> region set \<Rightarrow> bool" where
  "smem_in m0 m W \<longleftrightarrow> smem_live m W \<and> same_heap m0 m"

interpretation smem: allocator "smem_in m0" rt_smem_alloc smem_free poke ram smem_fine unat for m0
proof
  fix m W sz assume live: "smem_in m0 m W" and fine: "smem_fine sz"
  then have "smem_live m W" and m0: "same_heap m m' \<longrightarrow> same_heap m0 m'" for m'
    by (auto simp: smem_in_def same_heap_def)
  from smem_allocates [OF this(1) fine] show
    "(\<exists>m'. rt_smem_alloc m sz = Some (m', None) \<and> smem_in m0 m' W \<and> (\<forall>r \<in> W. \<forall>a. inside a r \<longrightarrow> ram m' a = ram m a)) \<or>
    (\<exists>m' p n. rt_smem_alloc m sz = Some (m', Some p) \<and> unat sz \<le> n \<and> (p, n) \<notin> W \<and> smem_in m0 m' (insert (p, n) W) \<and>
       (\<forall>r \<in> W. \<forall>a. inside a r \<longrightarrow> ram m' a = ram m a))"
    unfolding smem_in_def using m0 by metis
next
  fix m W p n assume "smem_in m0 m W" "(p, n) \<in> W"
  then show "\<exists>m'. smem_free m p = Some m' \<and> smem_in m0 m' (W - {(p, n)}) \<and>
    (\<forall>r \<in> W - {(p, n)}. \<forall>a. inside a r \<longrightarrow> ram m' a = ram m a)"
    unfolding smem_in_def using smem_releases same_heap_trans by blast
next
  fix m W r a v assume live: "smem_in m0 m W" "r \<in> W" "inside a r"
  have "smem_live (m\<lparr>ram := (ram m)(a := v)\<rparr>) W" by (rule live_write) (use live in \<open>auto simp: smem_in_def\<close>)
  then show "smem_in m0 (poke a v m) W \<and> ram (poke a v m) = (ram m)(a := v)"
    using live by (simp add: smem_in_def poke_def)
qed (use smem_apart smem_range in \<open>fastforce simp: smem_in_def\<close>)+

section \<open>Start\<close>

lemma heap_starts:
  assumes fits: "unat begin_addr + unat sz < 2 ^ 32" and room: "100 \<le> unat sz"
  shows "\<exists>m. rt_smem_init ram0 begin_addr sz = Some m \<and> heap_holds m [(heap_end m, False)] \<and>
    unat (heap_ptr m) + heap_end m + 12 \<le> unat begin_addr + unat sz \<and>
    unat sz \<le> unat (mem_size_aligned m) + 86"
proof -
  let ?b = "unat begin_addr" and ?s = "unat sz"
  define small where "small = RT_ALIGN begin_addr"
  define end_align where "end_align = RT_ALIGN_DOWN (begin_addr + sz)"
  have small: "unat small = (?b + 3) div 4 * 4"
    using fits room by (simp add: small_def align_value)
  have start: "unat (small + 56) = unat small + 56"
    using fits room small by (subst unat_plus_simple [THEN iffD1]) (auto simp: word_le_nat_alt unat_word_ariths)
  have beg: "RT_ALIGN (small + 56) = small + 56"
  proof -
    have "4 dvd unat small + 56" using small by simp
    then have "unat (RT_ALIGN (small + 56)) = unat (small + 56)"
      using fits room small start by (subst align_value) auto
    then show ?thesis by (simp add: word_unat_eq_iff)
  qed
  have ends: "unat end_align = (?b + ?s) div 4 * 4"
    using fits by (simp add: end_align_def align_down_value unat_word_ariths)
  have e24: "unat (end_align - 24) = unat end_align - 24" "24 < end_align" "small + 56 \<le> end_align - 24"
    using ends small start room fits by (simp_all add: unat_sub word_le_nat_alt word_less_nat_alt)
  define ms where "ms = end_align - (small + 56) - 24"
  have "ms = (end_align - 24) - (small + 56)" by (simp add: ms_def)
  then have ms: "unat ms = unat end_align - 24 - (unat small + 56)"
    by (simp only: unat_sub [OF e24(3)] e24(1) start)
  have fold: "end_align - small - 80 = ms" "end_align - (small + 56) - 24 = ms" "end_align - small - 68 = ms + 12" by (simp_all add: ms_def)
  have ms12: "unat (ms + 12) = unat ms + 12"
    using ms ends fits by (subst unat_plus_simple [THEN iffD1]) (auto simp: word_le_nat_alt unat_word_ariths)
  have low: "12 \<le> unat ms" using ms ends small room by simp
  have mask: "small AND MEM_MASK = small"
    by (rule bit_word_eqI) (auto simp: small_def align_shift MEM_MASK_def bit_simps bit_numeral_rec split: nat.splits)
  obtain m where init: "rt_smem_init ram0 begin_addr sz = Some m" and m: "self m = small" "used m = 0"
    "heap_ptr m = small + 56" "heap_end m = unat ms + 12" "lfree m = 0" "mem_size_aligned m = ms"
    "ram m = ram0(0 := small AND MEM_MASK, 4 := ms + 12, 8 := 0, unat ms + 12 := (small AND MEM_MASK) OR 1,
       unat ms + 16 := ms + 12, unat ms + 20 := ms + 12)"
    using e24(2,3) low
    by (simp add: rt_smem_init_def Let_def SIZEOF_STRUCT_MEM_def MEM_FREED_def MEM_USED_def beg ms12
      flip: small_def end_align_def) (simp add: fold ms12 add.commute)
  have "unat ms + 24 < unat end_align" "unat end_align \<le> ?b + ?s" using ms low ends by linarith+
  moreover have "4 dvd unat small + 56" "4 dvd unat end_align - 24 - (unat small + 56)"
    using ends small by simp_all
  ultimately have "unat ms + 24 < 2 ^ 32" "4 dvd unat small + 56" "4 dvd unat end_align - 24 - (unat small + 56)"
    using fits by linarith+
  note sizes = this
  have ok: "heap_size_ok m" using sizes(1,2) m(1,3,4,6) low mask start by (simp add: heap_size_ok_def)
  have "4 dvd unat ms" using sizes(3) ms by simp
  then have "4 dvd unat ms + 12" by simp
  then have "heap_holds m [(heap_end m, False)]"
    using ok m low by (simp add: heap_holds_def heap_linked_def MEM_USED_def off32_def)
  moreover have "unat end_align \<le> ?b + ?s" "?b + ?s \<le> unat end_align + 3" "unat small \<le> ?b + 3"
    using ends small by linarith+
  then have "unat (heap_ptr m) + heap_end m + 12 \<le> ?b + ?s" "?s \<le> unat (mem_size_aligned m) + 86"
    unfolding m(3,4,6) start using ms low by linarith+
  ultimately show ?thesis using init by blast
qed

section \<open>Changing the size of a block\<close>

lemma shrink_holds:
  assumes h: "heap_holds m (as @ (n + 12, True) # cs)" and k: "k = unat nz" "4 dvd k" "4 \<le> k" "k + 24 < n"
  defines "mem2 \<equiv> unat (off32 (extent as) + SIZEOF_STRUCT_MEM + nz)"
  defines "m1 \<equiv> smem_insert (extent as) mem2 (m\<lparr>used := used m - (of_nat n - nz)\<rparr>)"
  shows "\<exists>m'. plug_holes mem2 (if mem2 < lfree m1 then m1\<lparr>lfree := mem2\<rparr> else m1) = Some m' \<and>
    heap_holds m' (release (as @ [(12 + k, True)]) (n - k) cs) \<and> same_heap m m' \<and>
    (\<forall>a. payload 0 (as @ (12 + k, True) # (n - k, False) # cs) a \<longrightarrow> ram m' a = ram m a)"
proof -
  let ?p = "extent as"
  let ?bs = "as @ [(12 + k, True)]"
  have ok: "heap_size_ok m" and seg: "seg (ram m) (self m) (last_start 0 0 as) ?p ((n + 12, True) # cs)"
    and as: "seg (ram m) (self m) 0 0 as" and e: "?p + (n + 12) + extent cs = heap_end m"
    and us: "used m = of_nat (used_bytes (as @ (n + 12, True) # cs))"
    and l: "lfree m = first_free 0 (as @ (n + 12, True) # cs)"
    and ends: "ram m (heap_end m) = MEM_USED m" "ram m (heap_end m + 4) = off32 (heap_end m)"
    and tidy: "tidy (as @ (n + 12, True) # cs)"
    using h by (auto simp: heap_holds_def heap_linked_def)
  have nz: "nz = of_nat k" using k(1) by simp
  have m2: "mem2 = ?p + 12 + k"
    using unat_of_pos [OF ok, of "?p + 12 + k"] e k(4) by (simp add: mem2_def off32_def SIZEOF_STRUCT_MEM_def nz)
  let ?m0 = "m\<lparr>used := used m - (of_nat n - nz)\<rparr>"
  have h0: "heap_size_ok ?m0" "seg (ram ?m0) (self ?m0) (last_start 0 0 as) ?p ((n + 12, True) # cs)" "?p + (n + 12) + extent cs = heap_end ?m0"
    and k28: "k + 28 \<le> n + 12"
    using ok seg e k by simp_all
  note I = smem_insert_seg [OF h0 k(2,3) k28, folded m2, folded m1_def]
  have ins: "seg (ram m1) (self m) (last_start 0 0 as) ?p ((12 + k, True) # (n - k, False) # cs)"
    using I(1) by simp
  have fr: "ram m1 a = ram m a" if "a \<noteq> ?p + 4" "a < ?p + 12 + k \<or> ?p + 24 + k \<le> a" "cs = [] \<or> a \<noteq> ?p + (n + 12) + 8" for a
    using I(2) [unfolded m2, OF that] by simp
  let ?m2 = "if mem2 < lfree m1 then m1\<lparr>lfree := mem2\<rparr> else m1"
  have sel: "self ?m2 = self m" "heap_end ?m2 = heap_end m" "ram ?m2 = ram m1" "same_heap m ?m2"
    "used ?m2 = used m - (of_nat n - nz)" "lfree ?m2 = min mem2 (lfree m)"
    by (auto simp: m1_def smem_insert_sel min_def)
  have ok2: "heap_size_ok ?m2" using same_heap_ok [OF sel(4)] ok by (rule iffD2)
  have c: "seg (ram m) (self m) ?p (?p + (n + 12)) cs" using seg by simp
  have keep: "ram m1 a = ram m a" if a: "a < ?p \<or> a = heap_end m \<or> a = heap_end m + 4 \<or> payload 0 (as @ (12 + k, True) # (n - k, False) # cs) a" for a
  proof (rule fr)
    have "a < ?p \<or> heap_end m = a \<or> heap_end m + 4 = a \<or> ?p + 12 \<le> a \<and> a < ?p + 12 + k \<or> ?p + n + 24 \<le> a \<and> cs \<noteq> []"
      using a k(4) payload_range [of 0 as a] payload_range [of "?p + (12 + n)" cs a] by (auto simp: add.assoc)
    moreover have "cs = [] \<or> ?p + n + 24 \<le> heap_end m" using e seg_bound [OF c] by (cases "cs = []") auto
    ultimately show "a \<noteq> ?p + 4" "a < ?p + 12 + k \<or> ?p + 24 + k \<le> a" "cs = [] \<or> a \<noteq> ?p + (n + 12) + 8"
      using e k(4) by auto
  qed
  have "seg (ram m1) (self m) 0 0 as" by (rule seg_payload [OF as]) (simp add: keep)
  then have segs: "seg (ram m1) (self m) 0 0 (?bs @ (n - k, False) # cs)" using ins by (simp add: add.assoc)
  have ff: "first_free 0 (?bs @ (n - k, False) # cs) = min mem2 (lfree m)"
    using l first_free_le [of 0 as] first_free_ge [of "?p + (n + 12)" cs] k(4) by (auto simp: first_free_append m2)
  have "used m - (of_nat n - nz) = of_nat (used_bytes (?bs @ (n - k, False) # cs))"
    using us by (simp add: nz)
  moreover have "ram m1 (heap_end m) = (self m AND MEM_MASK) OR 1" "ram m1 (heap_end m + 4) = off32 (heap_end m)"
    using ends keep [of "heap_end m"] keep [of "heap_end m + 4"] by (simp_all add: MEM_USED_def)
  moreover have "extent (?bs @ (n - k, False) # cs) = heap_end m" using e k(4) by simp
  ultimately have "heap_linked ?m2 (?bs @ (n - k, False) # cs)"
    unfolding heap_linked_def MEM_USED_def sel(1-3,5,6) using ok2 segs ff [symmetric] by blast
  moreover have "tidy ?bs" "tidy cs"
    using tidy by (auto simp: successively_append_iff successively_Cons)
  note holes = plug_holes_holds [OF calculation this]
  obtain m' where m': "plug_holes (extent ?bs) ?m2 = Some m'" "heap_holds m' (release ?bs (n - k) cs)"
    "m' = ?m2\<lparr>ram := ram m'\<rparr>" "\<forall>a. payload 0 (?bs @ (n - k, False) # cs) a \<longrightarrow> ram m' a = ram ?m2 a"
    using holes by (elim exE conjE)
  have "same_heap m (?m2\<lparr>ram := ram m'\<rparr>)" using sel(4) by (simp only: same_heap_upd)
  then have "same_heap m m'" by (simp only: m'(3) [symmetric])
  moreover have "extent ?bs = mem2" by (simp add: m2)
  moreover have "\<forall>a. payload 0 (as @ (12 + k, True) # (n - k, False) # cs) a \<longrightarrow> ram m' a = ram m a"
    using m'(4) keep unfolding sel(3) by simp
  ultimately show ?thesis using m'(1,2) by metis
qed

text \<open>What a call of \<open>rt_smem_realloc\<close> may do to the regions and to memory.\<close>

definition realloc_ok :: "rt_small_mem \<Rightarrow> region set \<Rightarrow> nat \<Rightarrow> nat \<Rightarrow> u32 \<Rightarrow> rt_small_mem \<Rightarrow> nat option \<Rightarrow> bool" where
  "realloc_ok m W r n sz m' res \<longleftrightarrow> (case res of
     None \<Rightarrow> smem_live m' W \<and> (\<forall>x \<in> W. \<forall>a. inside a x \<longrightarrow> ram m' a = ram m a)
   | Some r' \<Rightarrow>
       \<exists>n' \<ge> unat sz. (r', n') \<notin> W - {(r, n)} \<and> smem_live m' (insert (r', n') (W - {(r, n)})) \<and>
         (\<forall>x \<in> W - {(r, n)}. \<forall>a. inside a x \<longrightarrow> ram m' a = ram m a) \<and>
         (\<forall>i. i < n \<and> i < unat sz \<longrightarrow> ram m' (r' + i) = ram m (r + i)))"

lemma realloc_shrinks:
  assumes bs: "heap_holds m (as @ (n + 12, True) # cs)" and W: "W = regions 0 (as @ (n + 12, True) # cs)"
    and k: "k = unat nz" "4 dvd k" "4 \<le> k" "k + 24 < n" "unat sz \<le> k"
    and m': "heap_holds m' (release (as @ [(12 + k, True)]) (n - k) cs)"
      "\<forall>a. payload 0 (as @ (12 + k, True) # (n - k, False) # cs) a \<longrightarrow> ram m' a = ram m a"
  shows "realloc_ok m W (extent as + 12) n sz m' (Some (extent as + 12))"
proof -
  let ?r = "extent as + 12" and ?R = "regions 0 as \<union> regions (extent as + (n + 12)) cs"
  have seg: "seg (ram m) (self m) 0 0 (as @ (n + 12, True) # cs)"
    using bs by (simp add: heap_holds_def heap_linked_def)
  have far: "(?r, j) \<notin> ?R" for j
    using seg regions_range [of "ram m" "self m" 0 0 as ?r j]
      regions_range [of "ram m" "self m" "extent as" "extent as + (n + 12)" cs ?r j] by auto
  then have WR: "W - {(?r, n)} = ?R" using W by auto
  have "smem_live m' (insert (?r, k) ?R)"
    unfolding smem_live_def using m'(1) regions_release [of "as @ [(12 + k, True)]" "n - k" cs] k(4)
    by (intro exI [of _ "release (as @ [(12 + k, True)]) (n - k) cs"]) (auto simp: add.commute add.left_commute)
  moreover have keep: "ram m' a = ram m a" if "x \<in> ?R \<or> x = (?r, k)" "inside a x" for a x
    using m'(2) that k(4) by (auto simp: payload_regions add.commute add.left_commute)
  moreover have "ram m' (?r + i) = ram m (?r + i)" if "i < unat sz" for i
    using keep [of "(?r, k)" "?r + i"] that k(5) by (simp add: inside_def)
  ultimately show ?thesis
    using far k(5) unfolding realloc_ok_def WR option.case by (intro exI [of _ k] conjI) auto
qed

lemma copy_words_ram:
  "ram (copy_words dst src n m) a = (if dst \<le> a \<and> a < dst + n then ram m (src + (a - dst)) else ram m a)"
  by (simp add: copy_words_def)

lemma realloc_moves:
  assumes live: "smem_live m W" "(r, n) \<in> W" and fine: "smem_fine nz" "unat sz \<le> unat nz"
    and k: "k = (if n < unat nz then n else unat nz)"
  defines "res \<equiv> Option.bind (rt_smem_alloc m nz) (\<lambda>(m, nmem). case nmem of None \<Rightarrow> Some (m, None)
      | Some p \<Rightarrow> map_option (\<lambda>m. (m, nmem)) (rt_smem_free (copy_words p r k m) (Some r)))"
  shows "\<exists>m' r'. res = Some (m', r') \<and> realloc_ok m W r n sz m' r'"
  using smem_allocates [OF live(1) fine(1)]
proof (elim disjE exE conjE)
  fix m' assume a: "rt_smem_alloc m nz = Some (m', None)" and m': "smem_live m' W" "ram m' = ram m"
  then show ?thesis by (simp add: res_def realloc_ok_def)
next
  fix m1 p j
  assume a: "rt_smem_alloc m nz = Some (m1, Some p)" and j: "unat nz \<le> j" "(p, j) \<notin> W"
    and m1: "smem_live m1 (insert (p, j) W)" "\<forall>x \<in> W. \<forall>a. inside a x \<longrightarrow> ram m1 a = ram m a"
  let ?m2 = "copy_words p r k m1"
  have kj: "k \<le> n" "k \<le> j" using k j(1) by auto
  have m2: "smem_live ?m2 (insert (p, j) W)"
    unfolding copy_words_def by (rule live_write [OF m1(1)]) (use kj in \<open>auto simp: inside_def\<close>)
  have other: "\<not> inside a (p, j)" if "x \<in> W" "inside a x" for a x
  proof -
    have "x \<noteq> (p, j)" using that j(2) by blast
    then show ?thesis using smem_apart [OF m1(1), of x "(p, j)"] that by (auto simp: inside_def)
  qed
  have kept: "ram ?m2 a = ram m a" if "x \<in> W" "inside a x" for a x
    using other [OF that] m1(2) that kj by (auto simp: copy_words_ram inside_def)
  have copied: "ram ?m2 (p + i) = ram m (r + i)" if "i < k" for i
    using that m1(2) live(2) kj by (auto simp: copy_words_ram inside_def)
  obtain m3 where m3: "smem_free ?m2 r = Some m3" "smem_live m3 (insert (p, j) W - {(r, n)})"
    "\<forall>x \<in> insert (p, j) W - {(r, n)}. \<forall>a. inside a x \<longrightarrow> ram m3 a = ram ?m2 a"
    using smem_releases [OF m2, of r n] live(2) by auto
  have "(p, j) \<noteq> (r, n)" using j(2) live(2) by auto
  then have W: "insert (p, j) W - {(r, n)} = insert (p, j) (W - {(r, n)})" by auto
  have "ram m3 (p + i) = ram m (r + i)" if "i < n \<and> i < unat sz" for i
  proof -
    have "i < k" using that k fine(2) by auto
    then show ?thesis using copied [of i] m3(3) kj W by (auto simp: inside_def)
  qed
  moreover have "\<forall>x \<in> W - {(r, n)}. \<forall>a. inside a x \<longrightarrow> ram m3 a = ram m a"
    using m3(3) kept by (metis Diff_iff insertCI)
  ultimately have "realloc_ok m W r n sz m3 (Some p)"
    using m3(2) j fine(2) W unfolding realloc_ok_def option.case by (intro exI [of _ j] conjI) auto
  then show ?thesis using a m3(1) by (simp add: res_def smem_free_def)
qed

lemma realloc_live:
  assumes live: "smem_live m W" "(r, n) \<in> W" and sz: "smem_fine sz" "sz \<noteq> 0"
  shows "\<exists>m' r'. rt_smem_realloc m (Some r) sz = Some (m', r') \<and> realloc_ok m W r n sz m' r'"
proof -
  obtain bs where bs: "heap_holds m bs" and W: "W = regions 0 bs" using live(1) by (auto simp: smem_live_def)
  have seg: "seg (ram m) (self m) 0 0 bs" and ok: "heap_size_ok m" and e: "extent bs = heap_end m"
    using bs by (simp_all add: heap_holds_def heap_linked_def)
  obtain as cs where s: "bs = as @ (n + 12, True) # cs" "r = extent as + 12"
    using regions_split [OF seg] live(2) W by fastforce
  let ?nz = "RT_ALIGN sz" and ?p = "extent as"
  have nz: "unat sz \<le> unat ?nz" "4 dvd unat ?nz" "smem_fine ?nz"
    using sz(1) align_ge [OF sz(1)] align_mult4 [of sz] by (auto simp: smem_fine_def align_value)
  have "0 < unat sz" using sz(2) by (simp add: unat_gt_0)
  then have "0 < unat ?nz" using nz(1) by simp
  then have pos: "?nz \<noteq> 0" "4 \<le> unat ?nz" using dvd_imp_le [OF nz(2)] by auto
  have range: "?p + (n + 12) \<le> heap_end m" "4 \<le> n" using seg e s by simp_all
  have size: "mem_next m ?p - off32 ?p - SIZEOF_STRUCT_MEM = of_nat n"
    using seg s(1) by (simp add: mem_next_def off32_def SIZEOF_STRUCT_MEM_def)
  have "heap_end m < 2 ^ 32" using ok by (simp add: heap_size_ok_def)
  then have un: "unat (of_nat n :: u32) = n" using range by (intro unat_of_nat32) simp
  have guard: "4 dvd unat (heap_ptr m) + r" "unat SIZEOF_STRUCT_MEM \<le> r" "r < heap_end m"
    using ok extent_mult4 [of "ram m" "self m" 0 0 as] seg s range
    by (auto simp: heap_size_ok_def SIZEOF_STRUCT_MEM_def)
  have rp: "r - unat SIZEOF_STRUCT_MEM = ?p" using s(2) by (simp add: SIZEOF_STRUCT_MEM_def)
  have self: "realloc_ok m W r n sz m (Some r)" if "unat sz \<le> n"
    using live that insert_Diff [OF live(2)] unfolding realloc_ok_def option.case
    by (intro exI [of _ n] conjI) auto
  have un_eq: "of_nat n = ?nz \<longleftrightarrow> n = unat ?nz" "of_nat n < ?nz \<longleftrightarrow> n < unat ?nz"
    using un by (auto simp: word_unat_eq_iff word_less_nat_alt)
  have body: "rt_smem_realloc m (Some r) sz =
     (if mem_size_aligned m < ?nz then Some (m, None)
      else if n = unat ?nz then Some (m, Some r)
      else if ?nz + 24 < of_nat n then
        (let m1 = smem_insert ?p (unat (off32 ?p + SIZEOF_STRUCT_MEM + ?nz)) (m\<lparr>used := used m - (of_nat n - ?nz)\<rparr>);
             mem2 = unat (off32 ?p + SIZEOF_STRUCT_MEM + ?nz)
         in map_option (\<lambda>m. (m, Some r)) (plug_holes mem2 (if mem2 < lfree m1 then m1\<lparr>lfree := mem2\<rparr> else m1)))
      else Option.bind (rt_smem_alloc m ?nz) (\<lambda>(m, nmem). case nmem of None \<Rightarrow> Some (m, None)
        | Some p \<Rightarrow> map_option (\<lambda>m. (m, nmem)) (rt_smem_free (copy_words p r (if n < unat ?nz then n else unat ?nz) m) (Some r))))"
    unfolding rt_smem_realloc_def Let_def option.case rp size un_eq if_distrib [of "unat :: u32 \<Rightarrow> nat"] un
    using guard pos un by (simp add: SIZEOF_STRUCT_MEM_def add.assoc)
  consider (large) "mem_size_aligned m < ?nz" | (same) "\<not> mem_size_aligned m < ?nz" "n = unat ?nz"
    | (shrink) "\<not> mem_size_aligned m < ?nz" "n \<noteq> unat ?nz" "?nz + 24 < of_nat n"
    | (move) "\<not> mem_size_aligned m < ?nz" "n \<noteq> unat ?nz" "\<not> ?nz + 24 < of_nat n"
    by blast
  then show ?thesis
  proof cases
    case large
    then show ?thesis using live by (simp add: body realloc_ok_def)
  next
    case same
    then show ?thesis using self nz(1) by (simp add: body)
  next
    case shrink
    have "unat (?nz + 24) = unat ?nz + 24"
      using shrink(1) [unfolded not_less] ok by (subst unat_plus_simple [THEN iffD1]) (auto simp: word_le_nat_alt unat_word_ariths heap_size_ok_def)
    then have lt: "unat ?nz + 24 < n" using shrink(3) un by (simp add: word_less_nat_alt)
    from shrink_holds [OF bs [unfolded s(1)] refl nz(2) pos(2) lt] obtain m' where m':
      "rt_smem_realloc m (Some r) sz = Some (m', Some r)" "heap_holds m' (release (as @ [(12 + unat ?nz, True)]) (n - unat ?nz) cs)"
      "\<forall>a. payload 0 (as @ (12 + unat ?nz, True) # (n - unat ?nz, False) # cs) a \<longrightarrow> ram m' a = ram m a"
      using shrink by (auto simp: body Let_def)
    then show ?thesis
      using realloc_shrinks [OF bs [unfolded s(1)] W [unfolded s(1)] refl nz(2) pos(2) lt nz(1) m'(2,3)] s(2) by simp
  next
    case move
    then show ?thesis using realloc_moves [OF live nz(3) nz(1) refl] by (simp add: body)
  qed
qed

section \<open>Entry points\<close>

text \<open>
  The heap of the firmware lies between two addresses. No hooks are set, the lock is
  uncontended, so the entry points are the operations. Clearing bytes: whole words, and the low bytes of the last.
\<close>

definition rt_system_heap_init :: "(nat \<Rightarrow> u32) \<Rightarrow> u32 \<Rightarrow> u32 \<Rightarrow> rt_small_mem option option" where
  "rt_system_heap_init ram0 begin_addr end_addr =
     (let begin_align = RT_ALIGN begin_addr; end_align = RT_ALIGN_DOWN end_addr
      in if begin_align < end_align then Some (rt_smem_init ram0 begin_addr (end_align - begin_align)) else None)"

definition rt_malloc :: "rt_small_mem \<Rightarrow> u32 \<Rightarrow> (rt_small_mem \<times> nat option) option" where
  "rt_malloc m sz = rt_smem_alloc m sz"

definition rt_realloc :: "rt_small_mem \<Rightarrow> nat option \<Rightarrow> u32 \<Rightarrow> (rt_small_mem \<times> nat option) option" where
  "rt_realloc m rmem newsize = rt_smem_realloc m rmem newsize"

definition rt_free :: "rt_small_mem \<Rightarrow> nat option \<Rightarrow> rt_small_mem option" where
  "rt_free m rmem = rt_smem_free m rmem"

definition clear_bytes :: "nat \<Rightarrow> nat \<Rightarrow> rt_small_mem \<Rightarrow> rt_small_mem" where
  "clear_bytes dst n m = m\<lparr>ram := (\<lambda>a.
     if dst \<le> a \<and> a + 4 \<le> dst + n then 0
     else if dst \<le> a \<and> a < dst + n then ram m a AND NOT (mask (8 * (dst + n - a)))
     else ram m a)\<rparr>"

definition rt_calloc :: "rt_small_mem \<Rightarrow> u32 \<Rightarrow> u32 \<Rightarrow> (rt_small_mem \<times> nat option) option" where
  "rt_calloc m cnt sz =
     map_option (\<lambda>(m, p). (case p of None \<Rightarrow> m | Some p \<Rightarrow> clear_bytes p (unat (cnt * sz)) m, p))
       (rt_malloc m (cnt * sz))"

section \<open>Properties\<close>

abbreviation heap_runs :: "rt_small_mem client \<Rightarrow> rt_small_mem client \<Rightarrow> bool" where
  "heap_runs \<equiv> client_runs rt_smem_alloc smem_free poke smem_fine unat"

lemma smem_in_start: "heap_holds m [(n, False)] \<Longrightarrow> smem_in m m {}"
  by (auto simp: smem_in_def smem_live_def intro!: exI [of _ "[(n, False)]"])

lemma run_live:
  assumes "heap_runs (m0, {}, Map.empty) (m, V, w)" "heap_holds m0 [(n, False)]"
  obtains W where "smem_in m0 m W" "known V W"
  using smem.clients_live [OF assms(1) smem_in_start [OF assms(2)]] by blast

lemma whole_allocates:
  assumes "heap_holds m [(n, False)]" "q \<noteq> 0" "RT_ALIGN q \<le> mem_size_aligned m"
  shows "\<exists>m'. rt_smem_alloc m q = Some (m', Some 12)"
proof -
  have "n = unat (mem_size_aligned m) + 12" "12 \<le> unat (mem_size_aligned m)"
    using assms(1) by (auto simp: heap_holds_def heap_linked_def heap_size_ok_def)
  then show ?thesis
    using alloc_holds(2) [OF assms(1-3) refl, of "[]" n "[]"] assms(3) by (auto simp: word_le_nat_alt)
qed

lemma all_free: "tidy bs \<Longrightarrow> regions p bs = {} \<Longrightarrow> bs \<noteq> [] \<Longrightarrow> \<exists>n. bs = [(n, False)]"
  by (cases bs rule: remdups_adj.cases) (auto split: if_splits)

text \<open>
  C5: the heap keeps its clients apart. From the initialisation of the heap on any memory of
  at least 100 bytes, whatever its clients allocate, free and write: the regions they own lie in
  the heap and do not overlap, every word they have written is still there, every region can
  be freed, and an allocation always returns.
\<close>

theorem heap_clients_safe:
  assumes "unat begin_addr + unat sz < 2 ^ 32" "100 \<le> unat sz" "rt_smem_init ram0 begin_addr sz = Some m0"
    and "heap_runs (m0, {}, Map.empty) (m, V, w)"
  shows "(\<forall>r \<in> V. \<forall>s \<in> V. r \<noteq> s \<longrightarrow> fst r + snd r \<le> fst s \<or> fst s + snd s \<le> fst r) \<and>
    (\<forall>(p, k) \<in> V. 12 \<le> p \<and> unat (heap_ptr m) + p + k \<le> unat begin_addr + unat sz \<and> smem_free m p \<noteq> None) \<and>
    (\<forall>a v. w a = Some v \<longrightarrow> ram m a = v) \<and> (\<forall>q. unat q \<le> 2 ^ 32 - 4 \<longrightarrow> rt_smem_alloc m q \<noteq> None)"
proof -
  have start: "heap_holds m0 [(heap_end m0, False)]" "unat (heap_ptr m0) + heap_end m0 + 12 \<le> unat begin_addr + unat sz"
    using heap_starts [OF assms(1,2), of ram0] assms(3) by auto
  obtain W where W: "smem_in m0 m W" "known V W" using run_live [OF assms(4) start(1)] .
  have "12 \<le> p \<and> unat (heap_ptr m) + p + k \<le> unat begin_addr + unat sz" if pk: "(p, k) \<in> V" for p k
  proof -
    obtain n where n: "(p, n) \<in> W" "k \<le> n" using smem.known_region [OF W(2) pk] by auto
    have "smem_live m W" "heap_ptr m = heap_ptr m0" "heap_end m = heap_end m0"
      using W(1) by (simp_all add: smem_in_def same_heap_def)
    then show ?thesis using smem_range [of m W p n] n start(2) by simp
  qed
  then show ?thesis
    using smem.clients_safe [OF assms(4) smem_in_start [OF start(1)]] unfolding smem_fine_def by blast
qed

definition demo_start :: "rt_small_mem" where
  "demo_start = the (rt_smem_init (\<lambda>_. 0) 0x20000000 200)"

lemma demo_start:
  "rt_smem_init (\<lambda>_. 0) 0x20000000 200 = Some demo_start" "heap_holds demo_start [(heap_end demo_start, False)]"
  "114 \<le> unat (mem_size_aligned demo_start)"
proof -
  have "unat (0x20000000 :: u32) + unat (200 :: u32) < 2 ^ 32" "100 \<le> unat (200 :: u32)" by simp_all
  from heap_starts [OF this] obtain m where m: "rt_smem_init (\<lambda>_. 0) 0x20000000 200 = Some m"
    "heap_holds m [(heap_end m, False)]" "unat (200 :: u32) \<le> unat (mem_size_aligned m) + 86" by blast
  then show "rt_smem_init (\<lambda>_. 0) 0x20000000 200 = Some demo_start" "heap_holds demo_start [(heap_end demo_start, False)]"
    "114 \<le> unat (mem_size_aligned demo_start)" by (simp_all add: demo_start_def)
qed

lemma demo_alloc:
  obtains m where "rt_smem_alloc demo_start 20 = Some (m, Some 12)"
    "heap_runs (demo_start, {}, Map.empty) (m, {(12, 20)}, Map.empty)"
proof -
  have "RT_ALIGN 20 = 20" by (simp add: RT_ALIGN_def)
  then obtain m where m: "rt_smem_alloc demo_start 20 = Some (m, Some 12)"
    using whole_allocates [OF demo_start(2), of 20] demo_start(3) by (auto simp: word_le_nat_alt)
  have "client_step rt_smem_alloc smem_free poke smem_fine unat (demo_start, {}, Map.empty)
      (m, insert (12, unat (20 :: u32)) {}, Map.empty |` (- {12..<12 + unat (20 :: u32)}))"
    by (rule client_step.alloc_gives) (use m in \<open>simp_all add: smem_fine_def\<close>)
  then have "heap_runs (demo_start, {}, Map.empty) (m, {(12, 20)}, Map.empty)"
    by (intro client_runs.more [OF client_runs.start]) simp
  then show ?thesis using m that by blast
qed

theorem heap_clients_safe_witness:
  "\<exists>m. rt_smem_alloc demo_start 20 = Some (m, Some 12) \<and> ram (poke 16 7 m) 16 = 7 \<and> smem_free (poke 16 7 m) 12 \<noteq> None"
proof -
  obtain m where m: "rt_smem_alloc demo_start 20 = Some (m, Some 12)"
    "heap_runs (demo_start, {}, Map.empty) (m, {(12, 20)}, Map.empty)" by (rule demo_alloc)
  have "heap_runs (demo_start, {}, Map.empty) (poke 16 7 m, {(12, 20)}, [16 \<mapsto> 7])"
    by (rule client_runs.more [OF m(2)], rule client_step.stores [of 12 20]) simp_all
  from heap_clients_safe [OF _ _ demo_start(1) this] show ?thesis using m(1) by auto
qed

text \<open>
  C25: an allocation returns, and it fails only when it must: at every moment the heap is a
  sequence of blocks, and \<open>rt_smem_alloc\<close> gives the null pointer exactly if no free block has
  room for the size, rounded up to a multiple of four and to at least twelve.
\<close>

theorem heap_alloc_fails_only_if_full:
  assumes "unat begin_addr + unat sz < 2 ^ 32" "100 \<le> unat sz" "rt_smem_init ram0 begin_addr sz = Some m0"
    and "heap_runs (m0, {}, Map.empty) (m, V, w)" and "q \<noteq> 0"
  shows "\<exists>bs m' res. heap_holds m bs \<and> rt_smem_alloc m q = Some (m', res) \<and>
    (res = None \<longleftrightarrow> (\<forall>(n, u) \<in> set bs. u \<or> n < max (unat (RT_ALIGN q)) 12 + 12))"
proof -
  have start: "heap_holds m0 [(heap_end m0, False)]"
    using heap_starts [OF assms(1,2), of ram0] assms(3) by auto
  obtain W where "smem_in m0 m W" using run_live [OF assms(4) start] .
  then obtain bs where bs: "heap_holds m bs" by (auto simp: smem_in_def smem_live_def)
  let ?k = "max (unat (RT_ALIGN q)) 12"
  show ?thesis
  proof (cases "RT_ALIGN q \<le> mem_size_aligned m")
    case True
    note a = alloc_holds [OF bs assms(5) True refl]
    show ?thesis
    proof (cases "first_fit ?k 0 bs")
      case None
      then show ?thesis using a(1) bs by (auto simp: first_fit_None)
    next
      case (Some p)
      then obtain as n cs where f: "bs = as @ (n, False) # cs" "?k + 12 \<le> n" "first_fit ?k 0 as = None"
        using first_fit_Some by blast
      have "\<not> (\<forall>(n, u) \<in> set bs. u \<or> n < ?k + 12)" using f by auto
      then show ?thesis using a(2) [OF f] bs by blast
    qed
  next
    case False
    have "n \<le> extent bs" if "(n, u) \<in> set bs" for n u using that by (induction bs) auto
    then have "\<forall>(n, u) \<in> set bs. u \<or> n < ?k + 12"
      using bs False by (fastforce simp: heap_holds_def heap_linked_def heap_size_ok_def word_le_nat_alt)
    moreover have "rt_smem_alloc m q = Some (m, None)" using False by (simp add: rt_smem_alloc_def not_le)
    ultimately show ?thesis using bs by blast
  qed
qed

theorem heap_alloc_fails_only_if_full_witness:
  "\<exists>m bs m' res. rt_smem_alloc demo_start 20 = Some (m, Some 12) \<and> heap_holds m bs \<and> rt_smem_alloc m 40 = Some (m', res) \<and>
    (res = None \<longleftrightarrow> (\<forall>(n, u) \<in> set bs. u \<or> n < 52))"
proof -
  obtain m where m: "rt_smem_alloc demo_start 20 = Some (m, Some 12)"
    "heap_runs (demo_start, {}, Map.empty) (m, {(12, 20)}, Map.empty)" by (rule demo_alloc)
  have "unat (RT_ALIGN 40) = 40" by (simp add: RT_ALIGN_def)
  then show ?thesis using heap_alloc_fails_only_if_full [OF _ _ demo_start(1) m(2), of 40] m(1) by fastforce
qed

text \<open>
  C24: nothing is lost: when the clients have freed everything, in whatever order, the heap is
  one free block again, and every request up to its whole size succeeds.
\<close>

theorem heap_freed_is_whole:
  assumes "unat begin_addr + unat sz < 2 ^ 32" "100 \<le> unat sz" "rt_smem_init ram0 begin_addr sz = Some m0"
    and "heap_runs (m0, {}, Map.empty) (m, {}, w)"
  shows "heap_holds m [(heap_end m0, False)] \<and>
    (q \<noteq> 0 \<and> RT_ALIGN q \<le> mem_size_aligned m0 \<longrightarrow> (\<exists>m'. rt_smem_alloc m q = Some (m', Some 12)))"
proof -
  have start: "heap_holds m0 [(heap_end m0, False)]"
    using heap_starts [OF assms(1,2), of ram0] assms(3) by auto
  obtain W where W: "smem_in m0 m W" "known {} W" using run_live [OF assms(4) start] .
  then have "W = {}" by (auto simp: known_def)
  then obtain bs where bs: "heap_holds m bs" "regions 0 bs = {}" using W(1) by (auto simp: smem_in_def smem_live_def)
  have e: "extent bs = heap_end m0" "mem_size_aligned m = mem_size_aligned m0" "heap_size_ok m0" "bs \<noteq> []"
    using bs(1) W(1) start by (auto simp: heap_holds_def heap_linked_def heap_size_ok_def smem_in_def same_heap_def)
  then obtain n where "bs = [(n, False)]" using all_free [OF _ bs(2)] bs(1) by (auto simp: heap_holds_def)
  then have one: "heap_holds m [(heap_end m0, False)]" using bs(1) e by simp
  moreover have "\<exists>m'. rt_smem_alloc m q = Some (m', Some 12)" if q: "q \<noteq> 0" "RT_ALIGN q \<le> mem_size_aligned m0"
    using whole_allocates [OF one q(1)] q(2) e(2) by simp
  ultimately show ?thesis by blast
qed

theorem heap_freed_is_whole_witness:
  "\<exists>m1 m2 m3. rt_smem_alloc demo_start 20 = Some (m1, Some 12) \<and> smem_free m1 12 = Some m2 \<and>
    heap_holds m2 [(heap_end demo_start, False)] \<and> rt_smem_alloc m2 112 = Some (m3, Some 12)"
proof -
  obtain m where m: "rt_smem_alloc demo_start 20 = Some (m, Some 12)"
    "heap_runs (demo_start, {}, Map.empty) (m, {(12, 20)}, Map.empty)" by (rule demo_alloc)
  obtain W where "smem_in demo_start m W" "known {(12, 20)} W" using run_live [OF m(2) demo_start(2)] .
  then obtain m2 where m2: "smem_free m 12 = Some m2"
    using smem.known_region [of "{(12, 20)}" W "(12, 20)"] smem.releases by (metis fst_conv insertI1)
  have "client_step rt_smem_alloc smem_free poke smem_fine unat (m, {(12, 20)}, Map.empty)
      (m2, {(12, 20)} - {(12, 20)}, Map.empty |` (- {12..<12 + 20}))"
    by (rule client_step.frees) (use m2 in simp_all)
  then have "heap_runs (demo_start, {}, Map.empty) (m2, {}, Map.empty)"
    using client_runs.more [OF m(2)] by simp
  moreover have "RT_ALIGN 112 = 112" by (simp add: RT_ALIGN_def)
  moreover have "112 \<le> mem_size_aligned demo_start" using demo_start(3) by (simp add: word_le_nat_alt)
  ultimately show ?thesis
    using heap_freed_is_whole [OF _ _ demo_start(1), of m2 Map.empty 112] m(1) m2 by auto
qed

text \<open>
  C26: changing the size of a block loses nothing: \<open>rt_smem_realloc\<close> returns; if it gives the null
  pointer the block is still there with its contents, otherwise the new block begins with
  the contents of the old one, as far as both reach, and lies apart from the other clients'
  regions, whose contents are unchanged.
\<close>

theorem heap_realloc_keeps_contents:
  assumes "unat begin_addr + unat sz < 2 ^ 32" "100 \<le> unat sz" "rt_smem_init ram0 begin_addr sz = Some m0"
    and "heap_runs (m0, {}, Map.empty) (m, V, w)" and "(p, k) \<in> V" "q \<noteq> 0" "unat q \<le> 2 ^ 32 - 4"
  shows "\<exists>m' r. rt_smem_realloc m (Some p) q = Some (m', r) \<and>
    (\<forall>s \<in> V - {(p, k)}. \<forall>a. inside a s \<longrightarrow> ram m' a = ram m a) \<and>
    (case r of None \<Rightarrow> \<forall>a. inside a (p, k) \<longrightarrow> ram m' a = ram m a
     | Some p' \<Rightarrow> (\<forall>i < min k (unat q). ram m' (p' + i) = ram m (p + i)) \<and>
         (\<forall>s \<in> V - {(p, k)}. p' + unat q \<le> fst s \<or> fst s + snd s \<le> p'))"
proof -
  have start: "heap_holds m0 [(heap_end m0, False)]"
    using heap_starts [OF assms(1,2), of ram0] assms(3) by auto
  obtain W where W: "smem_in m0 m W" "known V W" using run_live [OF assms(4) start] .
  obtain n where n: "(p, n) \<in> W" "k \<le> n" using smem.known_region [OF W(2) assms(5)] by auto
  have live: "smem_live m W" using W(1) by (simp add: smem_in_def)
  obtain m' r where r: "rt_smem_realloc m (Some p) q = Some (m', r)" "realloc_ok m W p n q m' r"
    using realloc_live [OF live n(1) _ assms(6)] assms(7) by (auto simp: smem_fine_def)
  have rest: "\<exists>j \<ge> snd s. (fst s, j) \<in> W - {(p, n)}" if s: "s \<in> V - {(p, k)}" for s
  proof -
    obtain j where "(fst s, j) \<in> W" "snd s \<le> j" using smem.known_region [OF W(2), of s] s by auto
    moreover have "fst s \<noteq> p" using smem.known_one [OF W(2) assms(5)] s by (cases s) auto
    ultimately show ?thesis by auto
  qed
  have same: "\<forall>x \<in> W - {(p, n)}. \<forall>a. inside a x \<longrightarrow> ram m' a = ram m a"
    using r(2) by (cases r) (auto simp: realloc_ok_def)
  have "ram m' a = ram m a" if s: "s \<in> V - {(p, k)}" "inside a s" for s a
  proof -
    obtain j where "snd s \<le> j" "(fst s, j) \<in> W - {(p, n)}" using rest [OF s(1)] by blast
    then show ?thesis using bspec [OF same, of "(fst s, j)"] s(2) by (simp add: inside_def)
  qed
  then have others: "\<forall>s \<in> V - {(p, k)}. \<forall>a. inside a s \<longrightarrow> ram m' a = ram m a" by blast
  show ?thesis
  proof (cases r)
    case None
    then have "\<forall>a. inside a (p, k) \<longrightarrow> ram m' a = ram m a"
      using r(2) n by (fastforce simp: realloc_ok_def inside_def)
    then show ?thesis using r(1) others None by auto
  next
    case (Some p')
    then obtain j where j: "unat q \<le> j" "(p', j) \<notin> W - {(p, n)}" "smem_live m' (insert (p', j) (W - {(p, n)}))"
      "\<forall>i. i < n \<and> i < unat q \<longrightarrow> ram m' (p' + i) = ram m (p + i)"
      using r(2) by (auto simp: realloc_ok_def)
    have "p' + unat q \<le> fst s \<or> fst s + snd s \<le> p'" if s: "s \<in> V - {(p, k)}" for s
    proof -
      obtain i where i: "snd s \<le> i" "(fst s, i) \<in> W - {(p, n)}" using rest [OF s] by auto
      then have "(p', j) \<noteq> (fst s, i)" using j(2) by metis
      then show ?thesis using smem_apart [OF j(3), of "(p', j)" "(fst s, i)"] i j(1) by auto
    qed
    then show ?thesis using r(1) others Some j(4) n(2) by auto
  qed
qed

theorem heap_realloc_keeps_contents_witness:
  "\<exists>m m' r. rt_smem_alloc demo_start 20 = Some (m, Some 12) \<and>
    rt_smem_realloc (poke 16 7 m) (Some 12) 40 = Some (m', r) \<and> (\<forall>p'. r = Some p' \<longrightarrow> ram m' (p' + 4) = 7)"
proof -
  obtain m where m: "rt_smem_alloc demo_start 20 = Some (m, Some 12)"
    "heap_runs (demo_start, {}, Map.empty) (m, {(12, 20)}, Map.empty)" by (rule demo_alloc)
  have "heap_runs (demo_start, {}, Map.empty) (poke 16 7 m, {(12, 20)}, [16 \<mapsto> 7])"
    by (rule client_runs.more [OF m(2)], rule client_step.stores [of 12 20]) simp_all
  from heap_realloc_keeps_contents [OF _ _ demo_start(1) this, of 12 20 40] show ?thesis
    using m(1) by (fastforce split: option.splits)
qed

text \<open>
  Rounding the size up wraps: a request of more than \<open>2 ^ 32 - 4\<close> bytes is rounded to nothing and
  then up to the least block, so the first such call on a heap with room for it succeeds and
  hands out twelve bytes.
\<close>

theorem heap_huge_request_gets_twelve_bytes:
  assumes "2 ^ 32 - 4 < unat q" "heap_holds m [(n, False)]" "48 \<le> n"
  shows "\<exists>m'. rt_malloc m q = Some (m', Some 12) \<and> smem_live m' {(12, 12)}"
proof -
  have "(unat q + 3) mod 2 ^ 32 = unat q + 3 - 2 ^ 32"
    using assms(1) unsigned_less [of q, where ?'a = nat] by (subst le_mod_geq) simp_all
  then have "unat (q + 3) < 4"
    using assms(1) unsigned_less [of q, where ?'a = nat] by (simp add: unat_word_ariths)
  then have "unat (RT_ALIGN q) = 0" by (simp add: align_shift unat_mult4)
  then have z: "RT_ALIGN q = 0" "q \<noteq> 0" using assms(1) by (auto simp: unat_eq_zero)
  have e: "12 \<le> unat (mem_size_aligned m)"
    using assms(2) by (auto simp: heap_holds_def heap_linked_def heap_size_ok_def)
  from alloc_holds(2) [OF assms(2) z(2) _ refl, of "[]" n "[]"] obtain m' where
    "rt_smem_alloc m q = Some (m', Some 12)" "heap_holds m' (acquire 12 [] n [])"
    using z e assms(3) by auto
  moreover have "regions 0 (acquire 12 [] n []) = {(12, 12)}" using assms(3) by (simp add: acquire_def)
  ultimately show ?thesis unfolding smem_live_def rt_malloc_def by (metis)
qed

theorem heap_huge_request_gets_twelve_bytes_witness:
  "\<exists>m'. rt_malloc demo_start 0xFFFFFFFF = Some (m', Some 12) \<and> smem_live m' {(12, 12)}"
proof -
  have "48 \<le> heap_end demo_start"
    using demo_start(2,3) by (simp add: heap_holds_def heap_linked_def heap_size_ok_def)
  moreover have "2 ^ 32 - 4 < unat (0xFFFFFFFF :: u32)" by simp
  ultimately show ?thesis using heap_huge_request_gets_twelve_bytes [OF _ demo_start(2)] by blast
qed

text \<open>
  A heap too small for the least block is accepted by \<open>rt_smem_init\<close>, but an allocation on it that
  passes the size check never returns: the bound of the search wraps, and the search stays
  at the end of the heap.
\<close>

theorem heap_tiny_search_never_ends:
  assumes "unat (mem_size_aligned m) < 12" "q \<noteq> 0" "RT_ALIGN q \<le> mem_size_aligned m"
    and "heap_end m = unat (mem_size_aligned m) + 12" "lfree m = 0"
    and "mem_next m 0 = off32 (heap_end m)" "mem_next m (heap_end m) = off32 (heap_end m)" "MEM_ISUSED m (heap_end m)"
  shows "rt_smem_alloc m q = None"
proof -
  let ?msa = "mem_size_aligned m" and ?e = "off32 (heap_end m)"
  have sz: "max (RT_ALIGN q) MIN_SIZE_ALIGNED = 12"
    using assms(1,3) by (simp add: max_def word_le_nat_alt MIN_SIZE_ALIGNED_def)
  have ue: "unat ?e = heap_end m"
    unfolding off32_def using assms(1,4) by (intro unat_of_nat32) simp
  have "unat (?msa - 12) = unat ?msa + 2 ^ 32 - 12" using assms(1) by (simp add: unat_sub_if')
  then have bound: "0 \<le> ?msa - 12" "?e \<le> ?msa - 12" using ue assms(1,4) by (simp_all add: word_le_nat_alt)
  have "?e - 12 = ?msa" using assms(4) by (simp add: off32_def)
  then have room: "\<not> 12 \<le> smem_room m 0"
    using assms(1,6) by (simp add: smem_room_def SIZEOF_STRUCT_MEM_def off32_def word_le_nat_alt)
  have "smem_search m 12 = None"
  proof (rule ccontr)
    assume "smem_search m 12 \<noteq> None"
    then obtain ptr where s: "smem_search m 12 = Some ptr" by blast
    have "ptr = 0 \<or> ptr = ?e"
      by (rule while_option_rule [OF _ s [unfolded smem_search_def]]) (use assms(5-7) ue in \<open>auto simp: off32_def\<close>)
    then show False
      using while_option_stop [OF s [unfolded smem_search_def]] bound room assms(8) ue by auto
  qed
  then show ?thesis using assms(2,3) by (simp add: rt_smem_alloc_def sz not_less Let_def)
qed

end
