(* ===== verification/MemPool.thy ===== *)
theory MemPool
  imports Mq Heap
begin

text \<open>
  Memory pools, \<open>src/rt-thread/src/mempool.c\<close>: blocks of one size in an array; the word before a
  block links the free ones, and holds the address of the pool while the block js in use.
  Memory and pools are shared, so a call that frees a block finds its pool through that word.
  Addresses are 32-bit words, \<open>mp_ram h a\<close> js the word at address \<open>a\<close>. The calls are made from
  threads. \<open>None\<close>: an assertion fails, or an access lies outside the pool.
\<close>

section \<open>State and operations\<close>

record rt_mempool =
  start_address :: u32
  mp_size :: u32
  block_size :: u32
  block_list :: u32
  block_total_count :: u32
  block_free_count :: u32
  mp_waiters :: nat

record mp_sys =
  pools :: "u32 \<Rightarrow> rt_mempool option"
  mp_ram :: "nat \<Rightarrow> u32"
  kern :: kernel

definition mp_link :: "u32 \<Rightarrow> u32 \<Rightarrow> nat \<Rightarrow> (nat \<Rightarrow> u32) \<Rightarrow> nat \<Rightarrow> u32" where
  "mp_link block_ptr step n r =
     (fold (\<lambda>offset r. r(unat (block_ptr + of_nat offset * step) := block_ptr + (of_nat offset + 1) * step)) [0..<n] r)
       (unat (block_ptr + (of_nat n - 1) * step) := 0)"

definition rt_mp_init :: "u32 \<Rightarrow> nat \<Rightarrow> u32 \<Rightarrow> u32 \<Rightarrow> u32 \<Rightarrow> mp_sys \<Rightarrow> mp_sys option" where
  "rt_mp_init mp q start sz bs h =
     (let bs' = SmallMem.RT_ALIGN bs; n = RT_ALIGN_DOWN sz div (bs' + 4)
      in if start = 0 \<or> sz = 0 \<or> bs = 0 \<or> bs' + 4 = 0 \<or> n = 0 then None
         else Some (h\<lparr>pools := (pools h)(mp \<mapsto>
             \<lparr>start_address = start, mp_size = RT_ALIGN_DOWN sz, block_size = bs', block_list = start,
              block_total_count = n, block_free_count = n, mp_waiters = q\<rparr>),
           mp_ram := mp_link start (bs' + 4) (unat n) (mp_ram h)\<rparr>))"

definition rt_mp_detach :: "u32 \<Rightarrow> mp_sys \<Rightarrow> mp_sys option" where
  "rt_mp_detach mp h =
     map_option (\<lambda>p. h\<lparr>kern := ipc_list_resume_all (mp_waiters p) (kern h)\<rparr>) (pools h mp)"

text \<open>A thread that waits goes to the front of the list.\<close>

definition mp_wait :: "nat \<Rightarrow> int \<Rightarrow> kernel \<Rightarrow> kernel option" where
  "mp_wait q time s =
     (let t = rt_current_thread s;
          s = upd_thread t (\<lambda>th. th\<lparr>error := RT_EOK\<rparr>) s;
          s = fst (rt_thread_suspend t s);
          s = s\<lparr>suspend_lists := (suspend_lists s)(q := t # suspend_lists s q)\<rparr>
      in map_option rt_schedule
           (if 0 < time then start_thread_timer t (word_of_int time) s else Some s))"

definition mp_take :: "u32 \<Rightarrow> rt_mempool \<Rightarrow> mp_sys \<Rightarrow> (mp_sys \<times> u32) option" where
  "mp_take mp p h =
     (let block_ptr = block_list p
      in if block_ptr = 0 then None
         else Some (h\<lparr>pools := (pools h)(mp \<mapsto>
               p\<lparr>block_free_count := block_free_count p - 1, block_list := mp_ram h (unat block_ptr)\<rparr>),
             mp_ram := (mp_ram h)(unat block_ptr := mp)\<rparr>, block_ptr + 4))"

definition rt_mp_alloc :: "u32 \<Rightarrow> int \<Rightarrow> mp_sys \<Rightarrow> (mp_sys \<times> u32 option outcome) option" where
  "rt_mp_alloc mp time h =
     (case pools h mp of
        None \<Rightarrow> None
      | Some p \<Rightarrow>
          if block_free_count p = 0 then
            (if time = 0
             then Some (h\<lparr>kern := upd_thread (rt_current_thread (kern h)) (\<lambda>th. th\<lparr>error := - RT_ETIMEOUT\<rparr>) (kern h)\<rparr>,
                        Return None)
             else map_option (\<lambda>s. (h\<lparr>kern := s\<rparr>, Blocked)) (mp_wait (mp_waiters p) time (kern h)))
          else map_option (\<lambda>(h, b). (h, Return (Some b))) (mp_take mp p h))"

definition rt_mp_alloc_resumed :: "u32 \<Rightarrow> int \<Rightarrow> u32 \<Rightarrow> mp_sys \<Rightarrow> (mp_sys \<times> u32 option outcome) option" where
  "rt_mp_alloc_resumed mp time before_sleep h =
     (if error (threads (kern h) (rt_current_thread (kern h))) \<noteq> RT_EOK then Some (h, Return None)
      else rt_mp_alloc mp (time_left time before_sleep (kern h)) h)"

definition mp_wake :: "nat \<Rightarrow> kernel \<Rightarrow> kernel" where
  "mp_wake q s =
     (let t = hd (suspend_lists s q)
      in fst (rt_thread_resume t (upd_thread t (\<lambda>th. th\<lparr>error := RT_EOK\<rparr>) s)))"

definition rt_mp_free :: "u32 \<Rightarrow> mp_sys \<Rightarrow> mp_sys option" where
  "rt_mp_free block h =
     (if block = 0 then Some h
      else
        let block_ptr = block - 4; mp = mp_ram h (unat block_ptr)
        in case pools h mp of
             None \<Rightarrow> None
           | Some p \<Rightarrow>
               let h = h\<lparr>pools := (pools h)(mp \<mapsto>
                       p\<lparr>block_free_count := block_free_count p + 1, block_list := block_ptr\<rparr>),
                     mp_ram := (mp_ram h)(unat block_ptr := block_list p)\<rparr>
               in if suspend_lists (kern h) (mp_waiters p) \<noteq> []
                  then Some (h\<lparr>kern := rt_schedule (mp_wake (mp_waiters p) (kern h))\<rparr>)
                  else Some h)"

section \<open>The free list\<close>

fun chain :: "(nat \<Rightarrow> u32) \<Rightarrow> nat \<Rightarrow> nat \<Rightarrow> nat \<Rightarrow> nat list \<Rightarrow> bool" where
  "chain r s d b [] \<longleftrightarrow> b = 0"
| "chain r s d b (i # js) \<longleftrightarrow> b = s + i * d \<and> chain r s d (unat (r b)) js"

definition pool_ok :: "u32 \<Rightarrow> rt_mempool \<Rightarrow> (nat \<Rightarrow> u32) \<Rightarrow> nat list \<Rightarrow> bool" where
  "pool_ok mp p r fs \<longleftrightarrow>
     (let s = unat (start_address p); d = unat (block_size p) + 4; n = unat (block_total_count p)
      in 0 < s \<and> 4 < d \<and> s + n * d \<le> 2 ^ 32 \<and> distinct fs \<and> set fs \<subseteq> {..<n} \<and>
        length fs = unat (block_free_count p) \<and> chain r s d (unat (block_list p)) fs \<and>
        (\<forall>i < n. i \<notin> set fs \<longrightarrow> r (s + i * d) = mp))"

definition pool_regions :: "rt_mempool \<Rightarrow> nat list \<Rightarrow> region set" where
  "pool_regions p fs =
     (\<lambda>i. (unat (start_address p) + i * (unat (block_size p) + 4) + 4, unat (block_size p))) `
       ({..<unat (block_total_count p)} - set fs)"

definition pool_live :: "u32 \<Rightarrow> nat \<Rightarrow> nat \<Rightarrow> mp_sys \<Rightarrow> region set \<Rightarrow> bool" where
  "pool_live mp n k h W \<longleftrightarrow>
     (\<exists>p fs. pools h mp = Some p \<and> unat (block_total_count p) = n \<and> unat (block_size p) = k \<and>
        pool_ok mp p (mp_ram h) fs \<and> W = pool_regions p fs)"

lemma chain_cong: "(\<And>i. i \<in> set fs \<Longrightarrow> r (s + i * d) = r' (s + i * d)) \<Longrightarrow> chain r s d b fs \<longleftrightarrow> chain r' s d b fs"
  by (induction fs arbitrary: b) auto

lemma blocks_apart: "i \<noteq> j \<Longrightarrow> s + i * d + d \<le> s + j * d \<or> s + j * d + d \<le> s + i * (d :: nat)"
proof -
  assume "i \<noteq> j"
  then have "Suc i \<le> j \<or> Suc j \<le> i" by auto
  then have "Suc i * d \<le> j * d \<or> Suc j * d \<le> i * d" using mult_le_mono1 by blast
  then show ?thesis by auto
qed

lemma header_eq: "0 < d \<Longrightarrow> s + i * d = s + j * d \<longleftrightarrow> i = j" for s :: nat
  by simp

lemma block_end: "i < n \<Longrightarrow> s + n * d \<le> m \<Longrightarrow> s + i * d + d \<le> (m :: nat)"
proof -
  assume "i < n" "s + n * d \<le> m"
  moreover from this have "Suc i * d \<le> n * d" using mult_le_mono1 by (metis Suc_leI)
  ultimately show ?thesis by simp
qed

lemma inside_no_header:
  assumes "inside a (s + i * d + 4, d - 4)" "4 < d"
  shows "a \<noteq> s + j * d"
proof
  assume "a = s + j * d"
  then have "s + i * d + 4 \<le> s + j * d" "s + j * d < s + i * d + d" using assms by (auto simp: inside_def)
  then show False using blocks_apart [of i j s d] by (cases "i = j") auto
qed

lemma take_ok:
  assumes ok: "pool_ok mp p (mp_ram h) fs" and ne: "block_free_count p \<noteq> 0"
  obtains i js h' p' where "fs = i # js" "mp_take mp p h = Some (h', of_nat (unat (start_address p) + i * (unat (block_size p) + 4) + 4))"
    "h' = h\<lparr>pools := (pools h)(mp \<mapsto> p'), mp_ram := (mp_ram h)(unat (start_address p) + i * (unat (block_size p) + 4) := mp)\<rparr>"
    "pool_ok mp p' (mp_ram h') js" "start_address p' = start_address p" "block_size p' = block_size p"
    "block_total_count p' = block_total_count p"
proof -
  let ?s = "unat (start_address p)" and ?d = "unat (block_size p) + 4" and ?n = "unat (block_total_count p)"
  note ok' = ok [unfolded pool_ok_def Let_def]
  obtain i js where fs: "fs = i # js" using ok' ne by (cases fs) (auto simp: unat_eq_zero)
  have b: "unat (block_list p) = ?s + i * ?d" and c: "chain (mp_ram h) ?s ?d (unat (mp_ram h (?s + i * ?d))) js"
    using ok' fs by auto
  let ?p = "p\<lparr>block_free_count := block_free_count p - 1, block_list := mp_ram h (?s + i * ?d)\<rparr>"
  let ?h = "h\<lparr>pools := (pools h)(mp \<mapsto> ?p), mp_ram := (mp_ram h)(?s + i * ?d := mp)\<rparr>"
  have nz: "block_list p \<noteq> 0" using b ok' by auto
  have "block_list p = of_nat (?s + i * ?d)" unfolding b [symmetric] by simp
  then have ptr: "block_list p + 4 = of_nat (?s + i * ?d + 4)" by simp
  have "Suc (length js) = unat (block_free_count p)" using ok' fs by simp
  then have "unat (block_free_count p - 1) = length js" using ne by (simp add: unat_minus_one)
  moreover have "chain ((mp_ram h)(?s + i * ?d := mp)) ?s ?d (unat (mp_ram h (?s + i * ?d))) js"
    using c ok' fs by (subst chain_cong [of _ _ _ _ "mp_ram h"]) auto
  ultimately have "pool_ok mp ?p (mp_ram ?h) js" using ok' fs by (auto simp: pool_ok_def Let_def)
  then show ?thesis
    using that [of i js ?h ?p] fs nz b ptr by (simp add: mp_take_def Let_def)
qed

lemma pool_regions_insert:
  assumes "distinct (i # js)" "i < unat (block_total_count p)"
  shows "pool_regions p js =
    insert (unat (start_address p) + i * (unat (block_size p) + 4) + 4, unat (block_size p)) (pool_regions p (i # js))"
proof -
  have "{..<unat (block_total_count p)} - set js = insert i ({..<unat (block_total_count p)} - set (i # js))"
    using assms by auto
  then show ?thesis by (simp only: pool_regions_def image_insert)
qed

lemma pool_regions_notin:
  "i \<in> set js \<Longrightarrow> (unat (start_address p) + i * (unat (block_size p) + 4) + 4, k) \<notin> pool_regions p js"
  by (auto simp: pool_regions_def)

lemma free_ok:
  assumes p: "pools h mp = Some p" and ok: "pool_ok mp p (mp_ram h) fs" and i: "i < unat (block_total_count p)" "i \<notin> set fs"
  defines "b \<equiv> unat (start_address p) + i * (unat (block_size p) + 4)"
  obtains h' p' where "rt_mp_free (of_nat (b + 4)) h = Some h'" "pools h' mp = Some p'" "pool_ok mp p' (mp_ram h') (i # fs)"
    "mp_ram h' = (mp_ram h)(b := block_list p)" "start_address p' = start_address p" "block_size p' = block_size p"
    "block_total_count p' = block_total_count p"
proof -
  let ?s = "unat (start_address p)" and ?d = "unat (block_size p) + 4" and ?n = "unat (block_total_count p)"
  note ok' = ok [unfolded pool_ok_def Let_def]
  have b: "b + ?d \<le> 2 ^ 32" "0 < b" using block_end [of i ?n ?s ?d] ok' i by (auto simp: b_def)
  have "b + 4 < 2 ^ 32" using b ok' by linarith
  then have "unat (of_nat (b + 4) :: u32) = b + 4" by (rule unat_of_nat32)
  then have nz: "of_nat (b + 4) \<noteq> (0 :: u32)" by (metis add_is_0 unsigned_0 zero_neq_numeral)
  have ptr: "of_nat (b + 4) - 4 = (of_nat b :: u32)" by simp
  have ub: "unat (of_nat b :: u32) = b" using b by (simp add: unsigned_of_nat take_bit_nat_eq_self)
  have r: "mp_ram h b = mp" using ok' i by (auto simp: b_def)
  let ?p = "p\<lparr>block_free_count := block_free_count p + 1, block_list := of_nat b\<rparr>"
  let ?h = "h\<lparr>pools := (pools h)(mp \<mapsto> ?p), mp_ram := (mp_ram h)(b := block_list p)\<rparr>"
  obtain h' where h': "rt_mp_free (of_nat (b + 4)) h = Some h'" "pools h' = pools ?h" "mp_ram h' = mp_ram ?h"
    using p r nz ub
    by (cases "suspend_lists (kern h) (mp_waiters p) = []") (simp_all add: rt_mp_free_def Let_def ptr del: of_nat_add)
  have "length fs < ?n"
    using card_mono [of "{..<?n}" "set (i # fs)"] ok' i by (auto simp: distinct_card)
  then have "unat (block_free_count p) + 1 < 2 ^ 32"
    using ok' unsigned_less [of "block_total_count p", where ?'a = nat] by simp
  then have "unat (block_free_count p + 1) = length (i # fs)" using ok' by (simp add: unat_word_ariths)
  moreover have "chain ((mp_ram h)(b := block_list p)) ?s ?d (unat (block_list p)) fs"
    using ok' i by (subst chain_cong [of _ _ _ _ "mp_ram h"]) (auto simp: b_def)
  ultimately have "pool_ok mp ?p (mp_ram h') (i # fs)"
    using ok' i ub h'(3) by (auto simp: pool_ok_def Let_def b_def)
  then show ?thesis using that [OF h'(1), of ?p] h' by simp
qed

section \<open>A pool js an allocator\<close>

definition mp_alloc_now :: "u32 \<Rightarrow> mp_sys \<Rightarrow> unit \<Rightarrow> (mp_sys \<times> nat option) option" where
  "mp_alloc_now mp h _ =
     (case rt_mp_alloc mp 0 h of Some (h, Return b) \<Rightarrow> Some (h, map_option unat b) | _ \<Rightarrow> None)"

definition mp_free_at :: "mp_sys \<Rightarrow> nat \<Rightarrow> mp_sys option" where
  "mp_free_at h b = rt_mp_free (of_nat b) h"

definition mp_store :: "nat \<Rightarrow> u32 \<Rightarrow> mp_sys \<Rightarrow> mp_sys" where
  "mp_store a v h = h\<lparr>mp_ram := (mp_ram h)(a := v)\<rparr>"

lemma pool_liveI:
  "pools h mp = Some p \<Longrightarrow> unat (block_total_count p) = n \<Longrightarrow> unat (block_size p) = k \<Longrightarrow> pool_ok mp p (mp_ram h) fs \<Longrightarrow>
   pool_live mp n k h (pool_regions p fs)"
  by (auto simp: pool_live_def)

lemma pool_regions_cong:
  "start_address p' = start_address p \<Longrightarrow> block_size p' = block_size p \<Longrightarrow> block_total_count p' = block_total_count p \<Longrightarrow>
   pool_regions p' fs = pool_regions p fs"
  by (simp add: pool_regions_def)

lemma pool_header_outside:
  assumes "pool_ok mp p r fs" "x \<in> pool_regions p gs" "inside a x"
  shows "a \<noteq> unat (start_address p) + j * (unat (block_size p) + 4)"
  using assms inside_no_header [of a "unat (start_address p)" _ "unat (block_size p) + 4" j]
  by (auto simp: pool_regions_def pool_ok_def Let_def)

interpretation mpool: allocator "pool_live mp n k" "mp_alloc_now mp" mp_free_at mp_store mp_ram "\<lambda>_. True" "\<lambda>_. k" for mp n k
proof unfold_locales
  fix h W r s assume "pool_live mp n k h W" "r \<in> W" "s \<in> W" "r \<noteq> s"
  then obtain p fs where p: "unat (block_size p) = k" "W = pool_regions p fs" "r \<in> W" "s \<in> W" "r \<noteq> s"
    by (auto simp: pool_live_def)
  obtain i where "r = (unat (start_address p) + i * (k + 4) + 4, k)" using p by (auto simp: pool_regions_def)
  moreover obtain j where "s = (unat (start_address p) + j * (k + 4) + 4, k)" using p by (auto simp: pool_regions_def)
  moreover have "i \<noteq> j" using calculation p(5) by auto
  ultimately show "fst r + snd r \<le> fst s \<or> fst s + snd s \<le> fst r"
    using blocks_apart [of i j "unat (start_address p)" "k + 4"] by auto
next
  fix h W r assume "pool_live mp n k h W" "r \<in> W"
  then show "0 < snd r" by (auto simp: pool_live_def pool_regions_def pool_ok_def Let_def)
next
  fix h W and q :: unit assume "pool_live mp n k h W"
  then obtain p fs where p: "pools h mp = Some p" "unat (block_total_count p) = n" "unat (block_size p) = k"
    and ok: "pool_ok mp p (mp_ram h) fs" and W: "W = pool_regions p fs" by (auto simp: pool_live_def)
  show "(\<exists>h'. mp_alloc_now mp h q = Some (h', None) \<and> pool_live mp n k h' W \<and> (\<forall>r \<in> W. \<forall>a. inside a r \<longrightarrow> mp_ram h' a = mp_ram h a)) \<or>
      (\<exists>h' b m. mp_alloc_now mp h q = Some (h', Some b) \<and> k \<le> m \<and> (b, m) \<notin> W \<and> pool_live mp n k h' (insert (b, m) W) \<and>
         (\<forall>r \<in> W. \<forall>a. inside a r \<longrightarrow> mp_ram h' a = mp_ram h a))"
  proof (cases "block_free_count p = 0")
    case True
    let ?h = "h\<lparr>kern := upd_thread (rt_current_thread (kern h)) (\<lambda>th. th\<lparr>error := - RT_ETIMEOUT\<rparr>) (kern h)\<rparr>"
    have "mp_alloc_now mp h q = Some (?h, None)" using True p by (simp add: mp_alloc_now_def rt_mp_alloc_def)
    moreover have "pool_live mp n k ?h W" using pool_liveI [of ?h, OF _ p(2,3)] p(1) ok W by simp
    ultimately show ?thesis by simp
  next
    case False
    obtain i js h' p' where t: "fs = i # js" "mp_take mp p h = Some (h', of_nat (unat (start_address p) + i * (unat (block_size p) + 4) + 4))"
      "h' = h\<lparr>pools := (pools h)(mp \<mapsto> p'), mp_ram := (mp_ram h)(unat (start_address p) + i * (unat (block_size p) + 4) := mp)\<rparr>"
      "pool_ok mp p' (mp_ram h') js" "start_address p' = start_address p" "block_size p' = block_size p"
      "block_total_count p' = block_total_count p"
      by (rule take_ok [OF ok False])
    let ?b = "unat (start_address p) + i * (unat (block_size p) + 4) + 4"
    note ok' = ok [unfolded pool_ok_def Let_def]
    have i: "i < unat (block_total_count p)" "distinct (i # js)" using ok' t(1) by auto
    have "unat (start_address p) + i * (unat (block_size p) + 4) + (unat (block_size p) + 4) \<le> 2 ^ 32" "4 < unat (block_size p) + 4"
      using block_end [OF i(1)] ok' by blast+
    then have "?b < 2 ^ 32" by linarith
    then have "unat (of_nat ?b :: u32) = ?b" by (rule unat_of_nat32)
    then have "mp_alloc_now mp h q = Some (h', Some ?b)"
      using False p t(2) by (simp add: mp_alloc_now_def rt_mp_alloc_def del: of_nat_add)
    moreover have "(?b, k) \<notin> W" using pool_regions_notin [of i fs p] t(1) W by simp
    moreover have "pool_live mp n k h' (insert (?b, k) W)"
    proof -
      have "pool_live mp n k h' (pool_regions p' js)" using pool_liveI [OF _ _ _ t(4)] t(3,6,7) p by simp
      also have "pool_regions p' js = insert (?b, k) W"
        using pool_regions_insert [OF i(2,1)] pool_regions_cong [OF t(5-7)] W t(1) p(3) by simp
      finally show ?thesis .
    qed
    moreover have "mp_ram h' a = mp_ram h a" if "r \<in> W" "inside a r" for r a
      using pool_header_outside [OF ok, of r fs a i] that W t(3) by simp
    ultimately show ?thesis by blast
  qed
next
  fix h W b m assume "pool_live mp n k h W" and b: "(b, m) \<in> W"
  then obtain p fs where p: "pools h mp = Some p" "unat (block_total_count p) = n" "unat (block_size p) = k"
    and ok: "pool_ok mp p (mp_ram h) fs" and W: "W = pool_regions p fs" by (auto simp: pool_live_def)
  obtain i where i: "i < unat (block_total_count p)" "i \<notin> set fs" "m = k"
    "b = unat (start_address p) + i * (unat (block_size p) + 4) + 4" using b p W by (auto simp: pool_regions_def)
  obtain h' p' where f: "rt_mp_free (of_nat b) h = Some h'" "pools h' mp = Some p'" "pool_ok mp p' (mp_ram h') (i # fs)"
    "mp_ram h' = (mp_ram h)(unat (start_address p) + i * (unat (block_size p) + 4) := block_list p)"
    "start_address p' = start_address p" "block_size p' = block_size p" "block_total_count p' = block_total_count p"
    unfolding i(4) by (rule free_ok [OF p(1) ok i(1,2)])
  have "pool_live mp n k h' (pool_regions p' (i # fs))" using pool_liveI [OF f(2) _ _ f(3)] f(6,7) p by simp
  also have "pool_regions p' (i # fs) = W - {(b, m)}"
  proof -
    have "distinct (i # fs)" using i(2) ok by (simp add: pool_ok_def Let_def)
    from pool_regions_insert [OF this i(1)] have "W = insert (b, m) (pool_regions p (i # fs))" using W i p(3) by simp
    moreover have "(b, m) \<notin> pool_regions p (i # fs)" using pool_regions_notin [of i "i # fs" p] i(4) by simp
    ultimately show ?thesis using pool_regions_cong [OF f(5-7)] by simp
  qed
  finally have "pool_live mp n k h' (W - {(b, m)})" .
  moreover have "mp_ram h' a = mp_ram h a" if "r \<in> W - {(b, m)}" "inside a r" for r a
    using pool_header_outside [OF ok, of r fs a i] that W f(4) by simp
  ultimately show "\<exists>h'. mp_free_at h b = Some h' \<and> pool_live mp n k h' (W - {(b, m)}) \<and>
        (\<forall>r \<in> W - {(b, m)}. \<forall>a. inside a r \<longrightarrow> mp_ram h' a = mp_ram h a)"
    using f(1) by (auto simp: mp_free_at_def)
next
  fix h W r a v assume "pool_live mp n k h W" and r: "r \<in> W" "inside a r"
  then obtain p fs where p: "pools h mp = Some p" "unat (block_total_count p) = n" "unat (block_size p) = k"
    and ok: "pool_ok mp p (mp_ram h) fs" and W: "W = pool_regions p fs" by (auto simp: pool_live_def)
  have out: "a \<noteq> unat (start_address p) + j * (unat (block_size p) + 4)" for j
    using pool_header_outside [OF ok] r W by blast
  then have "pool_ok mp p ((mp_ram h)(a := v)) fs"
    using ok out [THEN not_sym]
      chain_cong [of fs "(mp_ram h)(a := v)" "unat (start_address p)" "unat (block_size p) + 4" "mp_ram h"]
    by (auto simp: pool_ok_def Let_def)
  then show "pool_live mp n k (mp_store a v h) W \<and> mp_ram (mp_store a v h) = (mp_ram h)(a := v)"
    using pool_liveI [of "mp_store a v h", OF _ p(2,3)] p(1) W by (simp add: mp_store_def)
qed

section \<open>A fresh pool\<close>

lemma link_values:
  assumes b: "unat start + n * unat step \<le> 2 ^ 32" and d: "0 < unat step" and n: "0 < n"
  shows "i < n \<Longrightarrow> unat (mp_link start step n r (unat start + i * unat step)) =
    (if Suc i = n then 0 else unat start + Suc i * unat step)"
proof -
  let ?s = "unat start" and ?d = "unat step"
  have addr: "unat (start + of_nat i * step) = ?s + i * ?d" if "i < n" for i
  proof -
    have "?s + i * ?d < 2 ^ 32" using block_end [OF that b] d by linarith
    moreover have "start + of_nat i * step = of_nat (?s + i * ?d)" by simp
    ultimately show ?thesis by (simp only: unat_of_nat32)
  qed
  define f where "f = (\<lambda>offset r. r(unat (start + of_nat offset * step) := start + (of_nat offset + 1) * step))"
  have f: "fold f [0..<m] r (?s + i * ?d) = start + of_nat (Suc i) * step" if "i < m" "m \<le> n" for m i
    using that
  proof (induction m)
    case (Suc m)
    have "unat (start + of_nat m * step) = ?s + m * ?d" using addr Suc.prems by simp
    then have "fold f [0..<Suc m] r (?s + i * ?d) =
        (if ?s + i * ?d = ?s + m * ?d then start + of_nat (Suc m) * step else fold f [0..<m] r (?s + i * ?d))"
      by (simp add: f_def add.commute)
    also have "?s + i * ?d = ?s + m * ?d \<longleftrightarrow> i = m" using d by simp
    finally have "fold f [0..<Suc m] r (?s + i * ?d) =
        (if i = m then start + of_nat (Suc m) * step else fold f [0..<m] r (?s + i * ?d))" .
    then show ?case using Suc.IH Suc.prems by (cases "i = m") (simp_all only: if_True if_False, simp)
  qed simp
  have last: "unat (start + (of_nat n - 1) * step) = ?s + (n - 1) * ?d" using addr [of "n - 1"] n by simp
  show ?thesis if "i < n"
  proof (cases "Suc i = n")
    case True
    then have "?s + i * ?d = unat (start + (of_nat n - 1) * step)" using last by auto
    then show ?thesis using True by (simp add: mp_link_def)
  next
    case False
    then have "i \<noteq> n - 1" using n by simp
    then have "?s + i * ?d \<noteq> ?s + (n - 1) * ?d" using d by simp
    then have "mp_link start step n r (?s + i * ?d) = start + of_nat (Suc i) * step"
      using f [OF that] last by (simp add: mp_link_def f_def)
    then show ?thesis using addr [of "Suc i"] that False by simp
  qed
qed

lemma chain_upto:
  assumes "\<And>i. i < n \<Longrightarrow> unat (r (s + i * d)) = (if Suc i = n then 0 else s + Suc i * d)"
  shows "i < n \<Longrightarrow> chain r s d (s + i * d) [i..<n]"
proof (induction "n - i" arbitrary: i)
  case (Suc k)
  then show ?case
    using assms [of i] Suc.hyps(1) [of "Suc i"] by (cases "Suc i = n") (simp_all add: upt_conv_Cons)
qed simp

definition pool_blocks :: "u32 \<Rightarrow> u32 \<Rightarrow> nat" where
  "pool_blocks sz bs = unat (RT_ALIGN_DOWN sz) div (unat (SmallMem.RT_ALIGN bs) + 4)"

lemma aligned_step: "unat bs \<le> 2 ^ 32 - 8 \<Longrightarrow> bs \<noteq> 0 \<Longrightarrow> unat (SmallMem.RT_ALIGN bs + 4) = unat (SmallMem.RT_ALIGN bs) + 4 \<and> 0 < unat (SmallMem.RT_ALIGN bs)"
proof -
  assume a: "unat bs \<le> 2 ^ 32 - 8" "bs \<noteq> 0"
  have v: "unat (SmallMem.RT_ALIGN bs) = (unat bs + 3) div 4 * 4" by (rule align_value) (use a in simp)
  have "(unat bs + 3) div 4 \<le> (2 ^ 32 - 5) div 4" using a(1) by (intro div_le_mono) simp
  moreover have "0 < unat bs" using a(2) by (simp add: unat_gt_0)
  ultimately show ?thesis unfolding v by (simp add: unat_word_ariths v)
qed

lemma init_live:
  assumes i: "rt_mp_init mp q start sz bs h = Some h0" and bs: "unat bs \<le> 2 ^ 32 - 8" and sz: "unat start + unat sz \<le> 2 ^ 32"
  shows "pool_live mp (pool_blocks sz bs) (unat (SmallMem.RT_ALIGN bs)) h0 {}" "0 < pool_blocks sz bs"
proof -
  let ?n = "RT_ALIGN_DOWN sz div (SmallMem.RT_ALIGN bs + 4)"
  have nz: "start \<noteq> 0" "bs \<noteq> 0" "?n \<noteq> 0" using i by (auto simp: rt_mp_init_def Let_def split: if_splits)
  note al = aligned_step [OF bs nz(2)]
  have n: "unat ?n = pool_blocks sz bs" using al by (simp add: unat_div pool_blocks_def)
  let ?p = "\<lparr>start_address = start, mp_size = RT_ALIGN_DOWN sz, block_size = SmallMem.RT_ALIGN bs, block_list = start,
              block_total_count = ?n, block_free_count = ?n, mp_waiters = q\<rparr>"
  let ?r = "mp_link start (SmallMem.RT_ALIGN bs + 4) (unat ?n) (mp_ram h)"
  have h0: "h0 = h\<lparr>pools := (pools h)(mp \<mapsto> ?p), mp_ram := ?r\<rparr>"
    using i by (auto simp: rt_mp_init_def Let_def split: if_splits)
  show pos: "0 < pool_blocks sz bs" using nz(3) n by (metis unat_gt_0)
  have "pool_blocks sz bs * (unat (SmallMem.RT_ALIGN bs) + 4) \<le> unat (RT_ALIGN_DOWN sz)" by (simp add: pool_blocks_def)
  also have "\<dots> \<le> unat sz" unfolding align_down_value by simp
  finally have fit: "unat start + unat ?n * unat (SmallMem.RT_ALIGN bs + 4) \<le> 2 ^ 32" using sz n al by simp
  have "\<And>i. i < unat ?n \<Longrightarrow> unat (?r (unat start + i * unat (SmallMem.RT_ALIGN bs + 4))) =
      (if Suc i = unat ?n then 0 else unat start + Suc i * unat (SmallMem.RT_ALIGN bs + 4))"
    using link_values [OF fit, of _ "mp_ram h"] al n pos by simp
  from chain_upto [OF this, of 0] have "chain ?r (unat start) (unat (SmallMem.RT_ALIGN bs + 4)) (unat start) [0..<unat ?n]"
    using n pos by simp
  then have "pool_ok mp ?p (mp_ram h0) [0..<unat ?n]"
    using h0 fit nz(1) al by (auto simp: pool_ok_def Let_def unat_gt_0)
  from pool_liveI [OF _ _ _ this, of "pool_blocks sz bs" "unat (SmallMem.RT_ALIGN bs)"] h0 n
  show "pool_live mp (pool_blocks sz bs) (unat (SmallMem.RT_ALIGN bs)) h0 {}" by (simp add: pool_regions_def atLeast0LessThan)
qed

section \<open>Waiting for a block\<close>

lemma mp_wait_lists:
  assumes inv: "sched_inv s" and run: "status_of s (rt_current_thread s) = RT_THREAD_RUNNING"
    and t: "time < 0" "mp_wait q time s = Some s'"
  shows "sched_inv s'" "suspend_lists s' q = rt_current_thread s # suspend_lists s q"
proof -
  let ?t = "rt_current_thread s"
  let ?u = "upd_thread ?t (\<lambda>th. th\<lparr>error := RT_EOK\<rparr>) s"
  let ?v = "fst (rt_thread_suspend ?t ?u)"
  let ?w = "?v\<lparr>suspend_lists := (suspend_lists ?v)(q := ?t # suspend_lists ?v q)\<rparr>"
  have u: "sched_inv ?u" by (rule sched_inv_upd [OF inv]) auto
  have run': "status_of ?u ?t = RT_THREAD_RUNNING" using run by (simp add: status_of_def)
  have ok: "snd (rt_thread_suspend ?t ?u) = RT_EOK" using run' by (simp add: rt_thread_suspend_def Let_def)
  have c: "?t = rt_current_thread ?u" by simp
  note r = sched_inv_suspend [OF u c ok]
  have sl: "suspend_lists ?v q = suspend_lists s q"
    using not_waiting [OF sched_invD(2) [OF u], of ?t q] run'
    by (simp add: rt_thread_suspend_def Let_def rt_timer_stop_def clear_flag_def timer_remove_def)
  have "distinct (suspend_lists s q)" using sched_invD(2) [OF inv] by (simp add: waits_ok_def)
  then have w: "sched_inv ?w" by (intro sched_inv_enlist [OF r(1,2,4)]) (use r(4) [of q] sl in simp_all)
  have s': "s' = rt_schedule ?w" using t by (simp add: mp_wait_def Let_def)
  show "sched_inv s'" unfolding s' by (rule sched_inv_schedule [OF w])
  show "suspend_lists s' q = ?t # suspend_lists s q" unfolding s' schedule_suspend_lists [OF w] using sl by simp
qed

lemma mp_wake_lists:
  assumes inv: "sched_inv s" and ne: "suspend_lists s q = t # ts"
  shows "sched_inv (mp_wake q s)" "suspend_lists (mp_wake q s) q = ts" "error (threads (mp_wake q s) t) = RT_EOK"
    "status_of (mp_wake q s) t = (if t = rt_current_thread s then RT_THREAD_RUNNING else RT_THREAD_READY)"
proof -
  let ?u = "upd_thread t (\<lambda>th. th\<lparr>error := RT_EOK\<rparr>) s"
  have u: "sched_inv ?u" by (rule sched_inv_upd [OF inv]) auto
  have w: "mp_wake q s = ipc_list_resume q ?u" using ne by (simp add: mp_wake_def ipc_list_resume_def)
  have ne': "suspend_lists ?u q = t # ts" using ne by simp
  note r = ipc_resume_facts [OF u ne']
  show "sched_inv (mp_wake q s)" "suspend_lists (mp_wake q s) q = ts" "error (threads (mp_wake q s) t) = RT_EOK"
    "status_of (mp_wake q s) t = (if t = rt_current_thread s then RT_THREAD_RUNNING else RT_THREAD_READY)"
    using r unfolding w by simp_all
qed

section \<open>Properties\<close>

abbreviation pool_runs :: "u32 \<Rightarrow> u32 \<Rightarrow> mp_sys client \<Rightarrow> mp_sys client \<Rightarrow> bool" where
  "pool_runs mp bs \<equiv> client_runs (mp_alloc_now mp) mp_free_at mp_store (\<lambda>_. True) (\<lambda>_. unat (SmallMem.RT_ALIGN bs))"

text \<open>
  C15: whatever the clients of a memory pool do that keep to their blocks, from its initialisation
  on: the blocks they own never overlap, every word they wrote keeps its value, and no
  allocation or release leaves the pool.
\<close>

theorem pool_clients_safe:
  assumes "rt_mp_init mp q start sz bs h = Some h0" "unat bs \<le> 2 ^ 32 - 8" "unat start + unat sz \<le> 2 ^ 32"
    and "pool_runs mp bs (h0, {}, Map.empty) (h1, V, w)"
  shows "(\<forall>r \<in> V. \<forall>s \<in> V. r \<noteq> s \<longrightarrow> fst r + snd r \<le> fst s \<or> fst s + snd s \<le> fst r) \<and>
    (\<forall>a v. w a = Some v \<longrightarrow> mp_ram h1 a = v) \<and>
    (\<forall>(p, k) \<in> V. mp_free_at h1 p \<noteq> None) \<and> mp_alloc_now mp h1 () \<noteq> None"
  using mpool.clients_safe [OF assms(4) init_live(1) [OF assms(1-3)]] by simp

text \<open>A pool of two blocks of eight bytes for the witnesses.\<close>

definition demo_pool :: mp_sys where
  "demo_pool = the (rt_mp_init 0x1000 7 0x2000 32 5 \<lparr>pools = \<lambda>_. None, mp_ram = \<lambda>_. 0, kern = demo_kernel\<rparr>)"

lemma demo_pool:
  "rt_mp_init 0x1000 7 0x2000 32 5 \<lparr>pools = \<lambda>_. None, mp_ram = \<lambda>_. 0, kern = demo_kernel\<rparr> = Some demo_pool"
  "unat (5 :: u32) \<le> 2 ^ 32 - 8" "unat (0x2000 :: u32) + unat (32 :: u32) \<le> 2 ^ 32" "pool_blocks 32 5 = 2"
  "unat (SmallMem.RT_ALIGN 5) = 8"
  by (simp_all add: demo_pool_def rt_mp_init_def Let_def SmallMem.RT_ALIGN_def RT_ALIGN_DOWN_def pool_blocks_def word_unat_eq_iff)

lemma demo_pool_alloc:
  obtains h b where "mp_alloc_now 0x1000 demo_pool () = Some (h, Some b)"
    "pool_runs 0x1000 5 (demo_pool, {}, Map.empty) (h, {(b, 8)}, Map.empty)"
proof -
  obtain p where p: "pools demo_pool 0x1000 = Some p" "block_free_count p = 2" "block_list p = 0x2000"
    by (simp add: demo_pool_def rt_mp_init_def Let_def SmallMem.RT_ALIGN_def RT_ALIGN_DOWN_def word_unat_eq_iff)
  then obtain h b where a: "mp_alloc_now 0x1000 demo_pool () = Some (h, Some b)"
    by (simp add: mp_alloc_now_def rt_mp_alloc_def mp_take_def Let_def)
  have "client_step (mp_alloc_now 0x1000) mp_free_at mp_store (\<lambda>_. True) (\<lambda>_. unat (SmallMem.RT_ALIGN 5)) (demo_pool, {}, Map.empty)
      (h, insert (b, unat (SmallMem.RT_ALIGN 5)) {}, Map.empty |` (- {b..<b + unat (SmallMem.RT_ALIGN 5)}))"
    by (rule client_step.alloc_gives) (use a in simp_all)
  then have "pool_runs 0x1000 5 (demo_pool, {}, Map.empty) (h, {(b, 8)}, Map.empty)"
    unfolding demo_pool(5) by (intro client_runs.more [OF client_runs.start]) simp
  then show ?thesis using a that by blast
qed

theorem pool_clients_safe_witness:
  "\<exists>h b. mp_alloc_now 0x1000 demo_pool () = Some (h, Some b) \<and> mp_ram (mp_store b 7 h) b = 7 \<and>
    mp_free_at (mp_store b 7 h) b \<noteq> None"
proof -
  obtain h b where a: "mp_alloc_now 0x1000 demo_pool () = Some (h, Some b)"
    "pool_runs 0x1000 5 (demo_pool, {}, Map.empty) (h, {(b, 8)}, Map.empty)" by (rule demo_pool_alloc)
  have "pool_runs 0x1000 5 (demo_pool, {}, Map.empty) (mp_store b 7 h, {(b, 8)}, [b \<mapsto> 7])"
    by (rule client_runs.more [OF a(2)], rule client_step.stores [of b 8]) simp_all
  from pool_clients_safe [OF demo_pool(1-3) this] show ?thesis using a(1) by auto
qed

lemma known_card:
  assumes k: "known V W" and W: "finite W" "\<And>p n m. (p, n) \<in> W \<Longrightarrow> (p, m) \<in> W \<Longrightarrow> n = m"
  shows "finite V" "card V = card W"
proof -
  have one: "\<forall>(p, n) \<in> V. \<exists>m \<ge> n. (p, m) \<in> W" "\<forall>(p, m) \<in> W. \<exists>n. (p, n) \<in> V"
    "\<And>p n m. (p, n) \<in> V \<Longrightarrow> (p, m) \<in> V \<Longrightarrow> m = n"
    using k unfolding known_def by blast+
  have "fst ` V = fst ` W"
  proof (rule set_eqI)
    fix x
    show "x \<in> fst ` V \<longleftrightarrow> x \<in> fst ` W" using one(1,2) by (auto simp: image_iff Bex_def)
  qed
  moreover have inj: "inj_on fst V" "inj_on fst W" using one(3) W(2) by (auto simp: inj_on_def)
  ultimately show "finite V" "card V = card W" using W(1) by (metis finite_imageD finite_imageI, metis card_image)
qed

lemma pool_live_count:
  assumes l: "pool_live mp n k h W"
  obtains p where "pools h mp = Some p" "finite W" "card W + unat (block_free_count p) = n"
proof -
  obtain p fs where p: "pools h mp = Some p" "unat (block_total_count p) = n" and ok: "pool_ok mp p (mp_ram h) fs"
    and W: "W = pool_regions p fs" using l by (auto simp: pool_live_def)
  have fs: "set fs \<subseteq> {..<n}" "distinct fs" "length fs = unat (block_free_count p)"
    using ok p by (auto simp: pool_ok_def Let_def)
  have "inj (\<lambda>i. (unat (start_address p) + i * (unat (block_size p) + 4) + 4, unat (block_size p)))" by (simp add: inj_def)
  then have "card W = card ({..<n} - set fs)"
    unfolding W pool_regions_def p(2) by (intro card_image) (auto simp: inj_def inj_on_def)
  also have "\<dots> = n - length fs" using fs by (simp add: card_Diff_subset distinct_card)
  finally have "card W + unat (block_free_count p) = n"
    using fs(3) card_mono [OF _ fs(1)] distinct_card [OF fs(2)] by simp
  then show ?thesis using that [OF p(1)] W by (simp add: pool_regions_def)
qed

text \<open>
  C27: no block is lost: an allocation that does not wait fails exactly when the clients own
  all the blocks the memory has room for, each with its word of administration.
\<close>

theorem pool_gives_every_block:
  assumes "rt_mp_init mp q start sz bs h = Some h0" "unat bs \<le> 2 ^ 32 - 8" "unat start + unat sz \<le> 2 ^ 32"
    and "pool_runs mp bs (h0, {}, Map.empty) (h1, V, w)"
  shows "card V \<le> pool_blocks sz bs \<and>
    ((\<exists>h2. mp_alloc_now mp h1 () = Some (h2, None)) \<longleftrightarrow> card V = pool_blocks sz bs)"
proof -
  obtain W where W: "pool_live mp (pool_blocks sz bs) (unat (SmallMem.RT_ALIGN bs)) h1 W" "known V W"
    using mpool.clients_live [OF assms(4) init_live(1) [OF assms(1-3)]] by blast
  obtain p where p: "pools h1 mp = Some p" "finite W" "card W + unat (block_free_count p) = pool_blocks sz bs"
    by (rule pool_live_count [OF W(1)])
  have V: "card V = card W" by (rule known_card(2) [OF W(2) p(2) mpool.same_start [OF W(1)]])
  have "(\<exists>h2. mp_alloc_now mp h1 () = Some (h2, None)) \<longleftrightarrow> block_free_count p = 0"
    using p(1) by (auto simp: mp_alloc_now_def rt_mp_alloc_def mp_take_def Let_def split: option.splits)
  also have "\<dots> \<longleftrightarrow> card V = pool_blocks sz bs" using p(3) V by (auto simp: unat_eq_zero)
  finally show ?thesis using p(3) V by simp
qed

theorem pool_gives_every_block_witness:
  "\<exists>h b. mp_alloc_now 0x1000 demo_pool () = Some (h, Some b) \<and> \<not> (\<exists>h'. mp_alloc_now 0x1000 h () = Some (h', None))"
proof -
  obtain h b where a: "mp_alloc_now 0x1000 demo_pool () = Some (h, Some b)"
    "pool_runs 0x1000 5 (demo_pool, {}, Map.empty) (h, {(b, 8)}, Map.empty)" by (rule demo_pool_alloc)
  from pool_gives_every_block [OF demo_pool(1-3) a(2)] show ?thesis using a(1) demo_pool(4) by auto
qed

text \<open>
  A thread that has to wait for a block goes to the front of the queue, and a freed block
  resumes the front: whatever happens to other objects in between, the last thread to come
  is the first one woken, and those that wait longer keep waiting.
\<close>

theorem pool_wakes_last_comer:
  assumes "sched_inv (kern h)" "status_of (kern h) (rt_current_thread (kern h)) = RT_THREAD_RUNNING" "time < 0"
    and "pools h mp = Some p" "rt_mp_alloc mp time h = Some (h1, Blocked)"
    and "sched_inv (kern h2)" "suspend_lists (kern h2) (mp_waiters p) = suspend_lists (kern h1) (mp_waiters p)"
    and "b \<noteq> 0" "pools h2 (mp_ram h2 (unat (b - 4))) = Some p'" "mp_waiters p' = mp_waiters p"
  shows "\<exists>h3. rt_mp_free b h2 = Some h3 \<and> suspend_lists (kern h3) (mp_waiters p) = suspend_lists (kern h) (mp_waiters p) \<and>
    error (threads (kern h3) (rt_current_thread (kern h))) = RT_EOK"
proof -
  let ?q = "mp_waiters p" and ?t = "rt_current_thread (kern h)"
  obtain s where "mp_wait ?q time (kern h) = Some s" "kern h1 = s"
    using assms(4,5) by (auto simp: rt_mp_alloc_def split: if_splits)
  then have ne: "suspend_lists (kern h2) ?q = ?t # suspend_lists (kern h) ?q"
    using mp_wait_lists(2) [OF assms(1-3)] assms(7) by simp
  note w = mp_wake_lists [OF assms(6) ne]
  obtain h3 where "rt_mp_free b h2 = Some h3" "kern h3 = rt_schedule (mp_wake ?q (kern h2))"
    using assms(8-10) ne by (simp add: rt_mp_free_def Let_def)
  then show ?thesis using schedule_suspend_lists [OF w(1)] w(2,3) by simp
qed

theorem pool_wakes_last_comer_witness:
  "\<exists>h h1 h3. rt_mp_alloc 1 (- 1) h = Some (h1, Blocked) \<and> kern h = demo_kernel \<and>
    rt_mp_free 8 h1 = Some h3 \<and> error (threads (kern h3) 2) = RT_EOK"
proof -
  let ?p = "\<lparr>start_address = 4, mp_size = 12, block_size = 8, block_list = 0,
              block_total_count = 1, block_free_count = 0, mp_waiters = 7\<rparr>"
  let ?h = "\<lparr>pools = [1 \<mapsto> ?p], mp_ram = \<lambda>_. 1, kern = demo_kernel\<rparr>"
  have inv: "sched_inv demo_kernel" by (rule reachable_inv [OF demo_reachable])
  have run: "status_of demo_kernel (rt_current_thread demo_kernel) = RT_THREAD_RUNNING" "rt_current_thread demo_kernel = 2"
    by code_simp+
  obtain s where w: "mp_wait 7 (- 1) demo_kernel = Some s" by (simp add: mp_wait_def Let_def)
  let ?h1 = "?h\<lparr>kern := s\<rparr>"
  have a: "rt_mp_alloc 1 (- 1) ?h = Some (?h1, Blocked)" using w by (simp add: rt_mp_alloc_def)
  have s: "sched_inv s" using mp_wait_lists(1) [OF inv run(1) _ w] by simp
  have "\<exists>h3. rt_mp_free 8 ?h1 = Some h3 \<and> suspend_lists (kern h3) 7 = suspend_lists (kern ?h) 7 \<and>
      error (threads (kern h3) (rt_current_thread (kern ?h))) = RT_EOK"
    using pool_wakes_last_comer [of ?h "- 1" 1 ?p ?h1 ?h1 8 ?p] inv run a s by simp
  then obtain h3 where "rt_mp_free 8 ?h1 = Some h3" "error (threads (kern h3) 2) = RT_EOK"
    using run(2) by auto
  then show ?thesis using a by (intro exI [of _ ?h] exI [of _ ?h1] exI [of _ h3]) simp
qed

text \<open>
  A pool too small for one block is not refused: with no block to link, the loop's last
  assignment clears the word one block before the array.
\<close>

theorem pool_init_needs_one_block:
  assumes "start \<noteq> 0" "sz \<noteq> 0" "bs \<noteq> 0" "unat bs \<le> 2 ^ 32 - 8"
  shows "rt_mp_init mp q start sz bs h = None \<longleftrightarrow> unat (RT_ALIGN_DOWN sz) < unat (SmallMem.RT_ALIGN bs) + 4"
proof -
  note al = aligned_step [OF assms(4,3)]
  have "RT_ALIGN_DOWN sz div (SmallMem.RT_ALIGN bs + 4) = 0 \<longleftrightarrow> unat (RT_ALIGN_DOWN sz) < unat (SmallMem.RT_ALIGN bs) + 4"
    using al by (simp add: word_unat_eq_iff unat_div div_eq_0_iff)
  moreover have "SmallMem.RT_ALIGN bs + 4 \<noteq> 0" using al by (metis add_is_0 unsigned_0 zero_neq_numeral)
  ultimately show ?thesis using assms by (simp add: rt_mp_init_def Let_def)
qed

end
