(* ===== verification/Ymodem.thy ===== *)
theory Ymodem
  imports Heap Fal Thread
begin

text \<open>
  The YMODEM protocol of \<open>src/rt-thread/components/utilities/ymodem/ymodem.c\<close>, receiver and
  sender. The serial line is the environment: the bytes its driver holds, what happens at
  the next waits (bytes arrive after some ticks, or nothing until the timeout), the tick and
  the bytes sent. A wait is \<open>rt_sem_take\<close> on the semaphore that the receive callback of the
  driver releases; a count left over in it is an arrival of no bytes. Time passes only in waits. The callbacks are arguments; they see and
  may change the session. \<open>None\<close>: an access outside the
  packet buffer, a callback that fails so, or a call that never returns.
\<close>

section \<open>Codes and state\<close>

definition RYM_CODE_NONE :: u8 where "RYM_CODE_NONE = 0x00"
definition RYM_CODE_SOH :: u8 where "RYM_CODE_SOH = 0x01"
definition RYM_CODE_STX :: u8 where "RYM_CODE_STX = 0x02"
definition RYM_CODE_EOT :: u8 where "RYM_CODE_EOT = 0x04"
definition RYM_CODE_ACK :: u8 where "RYM_CODE_ACK = 0x06"
definition RYM_CODE_NAK :: u8 where "RYM_CODE_NAK = 0x15"
definition RYM_CODE_CAN :: u8 where "RYM_CODE_CAN = 0x18"
definition RYM_CODE_C :: u8 where "RYM_CODE_C = 0x43"

lemmas rym_codes = RYM_CODE_NONE_def RYM_CODE_SOH_def RYM_CODE_STX_def RYM_CODE_EOT_def RYM_CODE_ACK_def
  RYM_CODE_NAK_def RYM_CODE_CAN_def RYM_CODE_C_def

definition RYM_ERR_TMO :: int where "RYM_ERR_TMO = 0x70"
definition RYM_ERR_CODE :: int where "RYM_ERR_CODE = 0x71"
definition RYM_ERR_SEQ :: int where "RYM_ERR_SEQ = 0x72"
definition RYM_ERR_CRC :: int where "RYM_ERR_CRC = 0x73"
definition RYM_ERR_DSZ :: int where "RYM_ERR_DSZ = 0x74"
definition RYM_ERR_CAN :: int where "RYM_ERR_CAN = 0x75"
definition RYM_ERR_ACK :: int where "RYM_ERR_ACK = 0x76"
definition RT_ENOMEM :: int where "RT_ENOMEM = 5"

lemmas rym_errs = RYM_ERR_TMO_def RYM_ERR_CODE_def RYM_ERR_SEQ_def RYM_ERR_CRC_def RYM_ERR_DSZ_def
  RYM_ERR_CAN_def RYM_ERR_ACK_def RT_ENOMEM_def RT_EOK_def

definition RYM_WAIT_CHR_TICK :: u32 where "RYM_WAIT_CHR_TICK = 3000"
definition RYM_WAIT_PKG_TICK :: u32 where "RYM_WAIT_PKG_TICK = 3000"
definition RYM_CHD_INTV_TICK :: u32 where "RYM_CHD_INTV_TICK = 3000"
definition RYM_END_SESSION_SEND_CAN_NUM :: nat where "RYM_END_SESSION_SEND_CAN_NUM = 7"
definition RYM_SOH_PKG_SZ :: nat where "RYM_SOH_PKG_SZ = 1 + 2 + 128 + 2"
definition RYM_STX_PKG_SZ :: nat where "RYM_STX_PKG_SZ = 1 + 2 + 1024 + 2"

datatype rym_stage = RYM_STAGE_NONE | RYM_STAGE_ESTABLISHING | RYM_STAGE_ESTABLISHED
  | RYM_STAGE_TRANSMITTING | RYM_STAGE_FINISHING | RYM_STAGE_FINISHED

datatype rx_event = Arrive u32 buf | Quiet

record uart =
  rx :: buf
  coming :: "rx_event list"
  now :: u32
  tx :: buf

record 's rym_ctx =
  rym_stage :: rym_stage
  rym_buf :: buf
  rym_dev :: uart
  user :: 's

text \<open>A callback gets the session, whose buffer has the data from place 3 on, and a length.\<close>

type_synonym 's rym_callback = "'s rym_ctx \<Rightarrow> nat \<Rightarrow> (u8 \<times> 's rym_ctx) option"

section \<open>The line\<close>

definition dev_read :: "nat \<Rightarrow> uart \<Rightarrow> buf \<times> uart" where
  "dev_read n d = (take n (rx d), d\<lparr>rx := drop n (rx d)\<rparr>)"

definition dev_wait :: "u32 \<Rightarrow> uart \<Rightarrow> bool \<times> uart" where
  "dev_wait timeout d =
     (case coming d of
        [] \<Rightarrow> (False, d\<lparr>now := now d + timeout\<rparr>)
      | Quiet # es \<Rightarrow> (False, d\<lparr>coming := es, now := now d + timeout\<rparr>)
      | Arrive dt bs # es \<Rightarrow> (True, d\<lparr>coming := es, now := now d + dt, rx := rx d @ bs\<rparr>))"

definition rym_putchar :: "u8 \<Rightarrow> 's rym_ctx \<Rightarrow> 's rym_ctx" where
  "rym_putchar code c = c\<lparr>rym_dev := (rym_dev c)\<lparr>tx := tx (rym_dev c) @ [code]\<rparr>\<rparr>"

lemma dev_wait_coming: "dev_wait t d = (True, d') \<Longrightarrow> length (coming d') < length (coming d)"
  by (auto simp: dev_wait_def split: list.splits rx_event.splits)

function rym_wait_code :: "u32 \<Rightarrow> uart \<Rightarrow> u8 option \<times> uart" where
  "rym_wait_code timeout d =
     (case dev_wait timeout d of
        (False, d) \<Rightarrow> (None, d)
      | (True, d) \<Rightarrow>
          (case rx d of
             [] \<Rightarrow> rym_wait_code timeout d
           | code # _ \<Rightarrow> (Some code, snd (dev_read 1 d))))"
  by auto
termination
  by (relation "measure (\<lambda>(t, d). length (coming d))") (auto dest: dev_wait_coming [OF sym])

declare rym_wait_code.simps [simp del]

definition rym_read_code :: "u32 \<Rightarrow> 's rym_ctx \<Rightarrow> u8 \<times> 's rym_ctx" where
  "rym_read_code timeout c =
     (case (case rx (rym_dev c) of
              code # _ \<Rightarrow> (Some code, snd (dev_read 1 (rym_dev c)))
            | [] \<Rightarrow> rym_wait_code timeout (rym_dev c)) of
        (None, d) \<Rightarrow> (RYM_CODE_NONE, c\<lparr>rym_dev := d\<rparr>)
      | (Some code, d) \<Rightarrow> (code, c\<lparr>rym_dev := d, rym_buf := (rym_buf c)[0 := code]\<rparr>))"

function rym_read_loop :: "nat \<Rightarrow> nat \<Rightarrow> 's rym_ctx \<Rightarrow> ('s rym_ctx \<times> nat) option" where
  "rym_read_loop len readlen c =
     (let (bs, d) = dev_read (len - readlen) (rym_dev c)
      in case buf_write (rym_buf c) (1 + readlen) bs of
           None \<Rightarrow> None
         | Some b \<Rightarrow>
             let c = c\<lparr>rym_buf := b, rym_dev := d\<rparr>; readlen = readlen + length bs
             in if len \<le> readlen then Some (c, readlen)
                else case dev_wait RYM_WAIT_CHR_TICK d of
                       (False, d) \<Rightarrow> Some (c\<lparr>rym_dev := d\<rparr>, readlen)
                     | (True, d) \<Rightarrow> rym_read_loop len readlen (c\<lparr>rym_dev := d\<rparr>))"
  by auto
termination
  by (relation "measure (\<lambda>(n, k, c). length (coming (rym_dev c)))") (auto simp: dev_read_def dest!: dev_wait_coming [OF sym])

declare rym_read_loop.simps [simp del]

definition rym_read_data :: "nat \<Rightarrow> 's rym_ctx \<Rightarrow> ('s rym_ctx \<times> nat) option" where
  "rym_read_data len c = rym_read_loop len 0 c"

section \<open>The checksum\<close>

definition ym_crc_bit :: "u16 \<Rightarrow> u16" where
  "ym_crc_bit crc = (if crc AND 0x8000 \<noteq> 0 then push_bit 1 crc XOR 0x1021 else push_bit 1 crc)"

definition ym_crc_byte :: "u16 \<Rightarrow> u8 \<Rightarrow> u16" where
  "ym_crc_byte crc q = (ym_crc_bit ^^ 8) (crc XOR push_bit 8 (byte16 q))"

definition CRC16 :: "buf \<Rightarrow> nat \<Rightarrow> u16" where
  "CRC16 q len = foldl ym_crc_byte 0 (take len q)"

section \<open>The receiver\<close>

fun rym_knock :: "nat \<Rightarrow> 's rym_ctx \<Rightarrow> 's rym_ctx \<times> nat option" where
  "rym_knock 0 c = (c, None)"
| "rym_knock (Suc n) c =
     (let (code, c) = rym_read_code RYM_CHD_INTV_TICK (rym_putchar RYM_CODE_C c)
      in if code = RYM_CODE_SOH then (c, Some RYM_SOH_PKG_SZ)
         else if code = RYM_CODE_STX then (c, Some RYM_STX_PKG_SZ)
         else rym_knock n c)"

definition rym_mdelay :: "int \<Rightarrow> 's rym_ctx \<Rightarrow> 's rym_ctx" where
  "rym_mdelay ms c = c\<lparr>rym_dev := (rym_dev c)\<lparr>now := now (rym_dev c) + rt_tick_from_millisecond ms\<rparr>\<rparr>"

partial_function (option) rym_gather :: "u32 \<Rightarrow> nat \<Rightarrow> nat \<Rightarrow> 's rym_ctx \<Rightarrow> ('s rym_ctx \<times> nat) option" where
  "rym_gather tick len i c =
     (if now (rym_dev c) \<le> tick + rt_tick_from_millisecond 100 \<and> i < len
      then Option.bind (rym_read_data len c) (\<lambda>(c, n). rym_gather tick len (i + n) (rym_mdelay 5 c))
      else Some (c, i))"

definition rym_received_crc :: "'s rym_ctx \<Rightarrow> nat \<Rightarrow> u16" where
  "rym_received_crc c i = join16 (rym_buf c ! i) (rym_buf c ! (i + 1))"

definition rym_do_handshake :: "'s rym_callback option \<Rightarrow> nat \<Rightarrow> 's rym_ctx \<Rightarrow> ('s rym_ctx \<times> int) option" where
  "rym_do_handshake on_begin tm_sec c =
     (case rym_knock tm_sec (c\<lparr>rym_stage := RYM_STAGE_ESTABLISHING\<rparr>) of
        (c, None) \<Rightarrow> Some (c, - RYM_ERR_TMO)
      | (c, Some data_sz) \<Rightarrow>
          Option.bind (rym_gather (now (rym_dev c)) (data_sz - 1) 0 c) (\<lambda>(c, i).
            if i \<noteq> data_sz - 1 then Some (c, - RYM_ERR_DSZ)
            else if rym_buf c ! 1 \<noteq> 0 \<or> rym_buf c ! 2 \<noteq> 0xFF then Some (c, - RYM_ERR_SEQ)
            else if rym_received_crc c (data_sz - 2) \<noteq> CRC16 (drop 3 (rym_buf c)) (data_sz - 5)
            then Some (c, - RYM_ERR_CRC)
            else case on_begin of
                   None \<Rightarrow> Some (c, RT_EOK)
                 | Some f \<Rightarrow> map_option (\<lambda>(code, c). (c, if code \<noteq> RYM_CODE_ACK then - RYM_ERR_CAN else RT_EOK))
                     (f c (data_sz - 5))))"

definition rym_trans_data :: "'s rym_callback option \<Rightarrow> nat \<Rightarrow> 's rym_ctx \<Rightarrow> ('s rym_ctx \<times> int \<times> u8) option" where
  "rym_trans_data on_data data_sz c =
     (let tsz = 2 + data_sz + 2
      in Option.bind (rym_read_data tsz c) (\<lambda>(c, i).
           if i \<noteq> tsz then Some (c, - RYM_ERR_DSZ, RYM_CODE_NONE)
           else if unat (rym_buf c ! 1) + unat (rym_buf c ! 2) \<noteq> 0xFF then Some (c, - RYM_ERR_SEQ, RYM_CODE_NONE)
           else if rym_stage c = RYM_STAGE_ESTABLISHED \<and> rym_buf c ! 1 = 0 then Some (c, RT_EOK, RYM_CODE_NONE)
           else
             let c = c\<lparr>rym_stage := RYM_STAGE_TRANSMITTING\<rparr>
             in if rym_received_crc c (tsz - 1) \<noteq> CRC16 (drop 3 (rym_buf c)) data_sz
                then Some (c, - RYM_ERR_CRC, RYM_CODE_NONE)
                else case on_data of
                       None \<Rightarrow> Some (c, RT_EOK, RYM_CODE_ACK)
                     | Some f \<Rightarrow> map_option (\<lambda>(code, c). (c, RT_EOK, code)) (f c data_sz)))"

partial_function (option) rym_trans_loop :: "'s rym_callback option \<Rightarrow> 's rym_ctx \<Rightarrow> ('s rym_ctx \<times> int) option" where
  "rym_trans_loop on_data c =
     (let (code, c) = rym_read_code RYM_WAIT_PKG_TICK c
      in if code = RYM_CODE_EOT then Some (c, RT_EOK)
         else if code \<noteq> RYM_CODE_SOH \<and> code \<noteq> RYM_CODE_STX then Some (c, - RYM_ERR_CODE)
         else
           Option.bind (rym_trans_data on_data (if code = RYM_CODE_SOH then 128 else 1024) c) (\<lambda>(c, err, code).
             if err \<noteq> RT_EOK then Some (c, err)
             else if code = RYM_CODE_CAN then
               Some ((rym_putchar RYM_CODE_CAN ^^ RYM_END_SESSION_SEND_CAN_NUM) c, - RYM_ERR_CAN)
             else rym_trans_loop on_data (if code = RYM_CODE_ACK then rym_putchar RYM_CODE_ACK c else c)))"

definition rym_do_trans :: "'s rym_callback option \<Rightarrow> 's rym_ctx \<Rightarrow> ('s rym_ctx \<times> int) option" where
  "rym_do_trans on_data c =
     rym_trans_loop on_data ((rym_putchar RYM_CODE_C (rym_putchar RYM_CODE_ACK c))\<lparr>rym_stage := RYM_STAGE_ESTABLISHED\<rparr>)"

definition rym_call_end :: "'s rym_callback option \<Rightarrow> 's rym_ctx \<Rightarrow> 's rym_ctx option" where
  "rym_call_end on_end c = (case on_end of None \<Rightarrow> Some c | Some f \<Rightarrow> map_option snd (f c 128))"

definition rym_do_fin :: "'s rym_callback option \<Rightarrow> 's rym_callback option \<Rightarrow> 's rym_ctx \<Rightarrow> ('s rym_ctx \<times> int) option" where
  "rym_do_fin on_begin on_end c =
     Option.bind (rym_call_end on_end (c\<lparr>rym_stage := RYM_STAGE_FINISHING\<rparr>)) (\<lambda>c.
       let (code, c) = rym_read_code RYM_WAIT_PKG_TICK (rym_putchar RYM_CODE_NAK c)
       in if code \<noteq> RYM_CODE_EOT then Some (c, - RYM_ERR_CODE)
          else
            let (code, c) = rym_read_code RYM_WAIT_PKG_TICK (rym_putchar RYM_CODE_C (rym_putchar RYM_CODE_ACK c))
            in if code \<noteq> RYM_CODE_SOH \<and> code \<noteq> RYM_CODE_STX then Some (c, - RYM_ERR_CODE)
               else
                 let data_sz = (if code = RYM_CODE_SOH then RYM_SOH_PKG_SZ else RYM_STX_PKG_SZ)
                 in Option.bind (rym_read_data (RYM_SOH_PKG_SZ - 1) c) (\<lambda>(c, i).
                      if i \<noteq> RYM_SOH_PKG_SZ - 1 then Some (c, - RYM_ERR_DSZ)
                      else if rym_buf c ! 1 \<noteq> 0 \<or> rym_buf c ! 2 \<noteq> 0xFF then Some (c, - RYM_ERR_SEQ)
                      else if rym_received_crc c (RYM_SOH_PKG_SZ - 2) \<noteq> CRC16 (drop 3 (rym_buf c)) (RYM_SOH_PKG_SZ - 5)
                      then Some (c, - RYM_ERR_CRC)
                      else if rym_buf c ! 3 \<noteq> 0 then
                        (case on_begin of
                           None \<Rightarrow> Some (c, RT_EOK)
                         | Some f \<Rightarrow> map_option (\<lambda>(code, c). (c, if code \<noteq> RYM_CODE_ACK then - RYM_ERR_CAN else RT_EOK))
                             (f c (data_sz - 5)))
                      else Some (rym_putchar RYM_CODE_ACK (c\<lparr>rym_stage := RYM_STAGE_FINISHED\<rparr>), RT_EOK)))"

partial_function (option) rym_sessions ::
    "'s rym_callback option \<Rightarrow> 's rym_callback option \<Rightarrow> 's rym_callback option \<Rightarrow> 's rym_ctx \<Rightarrow> ('s rym_ctx \<times> int) option" where
  "rym_sessions on_begin on_data on_end c =
     Option.bind (rym_do_trans on_data c) (\<lambda>(c, err).
       if err \<noteq> RT_EOK then Some (c, err)
       else Option.bind (rym_do_fin on_begin on_end c) (\<lambda>(c, err).
         if err \<noteq> RT_EOK then Some (c, err)
         else if rym_stage c = RYM_STAGE_FINISHED then Some (c, err)
         else rym_sessions on_begin on_data on_end c))"

text \<open>
  The packet buffer comes from the heap; \<open>junk\<close> is what the block happens to hold.
\<close>

definition rym_with_buf ::
    "('s rym_ctx \<Rightarrow> ('s rym_ctx \<times> int) option) \<Rightarrow> buf \<Rightarrow> rt_small_mem \<Rightarrow> 's rym_ctx \<Rightarrow>
     (rt_small_mem \<times> 's rym_ctx \<times> int) option" where
  "rym_with_buf body junk h c =
     (case rt_malloc h (of_nat RYM_STX_PKG_SZ) of
        None \<Rightarrow> None
      | Some (h, None) \<Rightarrow> Some (h, c\<lparr>rym_stage := RYM_STAGE_NONE\<rparr>, - RT_ENOMEM)
      | Some (h, Some p) \<Rightarrow>
          Option.bind (body (c\<lparr>rym_stage := RYM_STAGE_NONE, rym_buf := junk\<rparr>)) (\<lambda>(c, err).
            map_option (\<lambda>h. (h, c, err)) (rt_free h (Some p))))"

definition rym_recv_body ::
    "'s rym_callback option \<Rightarrow> 's rym_callback option \<Rightarrow> 's rym_callback option \<Rightarrow> nat \<Rightarrow> 's rym_ctx \<Rightarrow>
     ('s rym_ctx \<times> int) option" where
  "rym_recv_body on_begin on_data on_end tm c =
     Option.bind (rym_do_handshake on_begin tm c) (\<lambda>(c, err).
       if err \<noteq> RT_EOK then Some (c, err) else rym_sessions on_begin on_data on_end c)"

definition rym_do_recv ::
    "'s rym_callback option \<Rightarrow> 's rym_callback option \<Rightarrow> 's rym_callback option \<Rightarrow> nat \<Rightarrow> buf \<Rightarrow>
     rt_small_mem \<Rightarrow> 's rym_ctx \<Rightarrow> (rt_small_mem \<times> 's rym_ctx \<times> int) option" where
  "rym_do_recv on_begin on_data on_end tm junk h c = rym_with_buf (rym_recv_body on_begin on_data on_end tm) junk h c"

section \<open>The sender\<close>

definition rym_send_packet :: "u8 \<Rightarrow> u8 \<Rightarrow> 's rym_ctx \<Rightarrow> 's rym_ctx" where
  "rym_send_packet code index c =
     (let send_crc = CRC16 (drop 3 (rym_buf c)) (RYM_SOH_PKG_SZ - 5);
          b = (rym_buf c)[0 := code, 1 := index, 2 := NOT index, 131 := byte_of 1 send_crc, 132 := byte_of 0 send_crc]
      in c\<lparr>rym_buf := b, rym_dev := (rym_dev c)\<lparr>tx := tx (rym_dev c) @ take RYM_SOH_PKG_SZ b\<rparr>\<rparr>)"

text \<open>\<open>rym_getchar\<close> waits without a timeout: \<open>None\<close> if nothing ever comes.\<close>

definition dev_wait_forever :: "uart \<Rightarrow> uart option" where
  "dev_wait_forever d =
     (case dropWhile (\<lambda>e. e = Quiet) (coming d) of
        Arrive dt bs # es \<Rightarrow> Some (d\<lparr>coming := es, now := now d + dt, rx := rx d @ bs\<rparr>)
      | _ \<Rightarrow> None)"

lemma dev_wait_forever_coming: "dev_wait_forever d = Some d' \<Longrightarrow> length (coming d') < length (coming d)"
  using length_dropWhile_le [of "\<lambda>e. e = Quiet" "coming d"]
  by (auto simp: dev_wait_forever_def split: list.splits rx_event.splits)

function uart_getchar :: "uart \<Rightarrow> (u8 \<times> uart) option" where
  "uart_getchar d =
     (case rx d of
        code # _ \<Rightarrow> Some (code, snd (dev_read 1 d))
      | [] \<Rightarrow> (case dev_wait_forever d of None \<Rightarrow> None | Some d \<Rightarrow> uart_getchar d))"
  by auto
termination
  by (relation "measure (\<lambda>d. length (coming d))") (auto dest: dev_wait_forever_coming)

declare uart_getchar.simps [simp del]

definition rym_getchar :: "'s rym_ctx \<Rightarrow> (u8 \<times> 's rym_ctx) option" where
  "rym_getchar c = map_option (\<lambda>(code, d). (code, c\<lparr>rym_dev := d\<rparr>)) (uart_getchar (rym_dev c))"

fun rym_await_c :: "nat \<Rightarrow> 's rym_ctx \<Rightarrow> 's rym_ctx \<times> bool" where
  "rym_await_c 0 c = (c, False)"
| "rym_await_c (Suc n) c =
     (let (code, c) = rym_read_code RYM_CHD_INTV_TICK c
      in if code = RYM_CODE_C then (c, True) else rym_await_c n c)"

text \<open>Waiting for one answer after the other; a wrong one is an error.\<close>

fun rym_expect :: "u8 list \<Rightarrow> 's rym_ctx \<Rightarrow> ('s rym_ctx \<times> int) option" where
  "rym_expect [] c = Some (c, RT_EOK)"
| "rym_expect (a # as) c =
     Option.bind (rym_getchar c) (\<lambda>(code, c). if code \<noteq> a then Some (c, - RYM_ERR_ACK) else rym_expect as c)"

definition rym_do_send_handshake :: "'s rym_callback option \<Rightarrow> nat \<Rightarrow> 's rym_ctx \<Rightarrow> ('s rym_ctx \<times> int) option" where
  "rym_do_send_handshake on_begin tm_sec c =
     (case rym_await_c tm_sec (c\<lparr>rym_stage := RYM_STAGE_ESTABLISHING\<rparr>) of
        (c, False) \<Rightarrow> Some (c, - RYM_ERR_TMO)
      | (c, True) \<Rightarrow>
          Option.bind (case on_begin of None \<Rightarrow> Some (RYM_CODE_SOH, c) | Some f \<Rightarrow> f c (RYM_SOH_PKG_SZ - 5)) (\<lambda>(code, c).
            if code \<noteq> RYM_CODE_SOH then Some (c, - RYM_ERR_CODE)
            else map_option (\<lambda>(c, err). (if err = RT_EOK then c\<lparr>rym_stage := RYM_STAGE_ESTABLISHED\<rparr> else c, err))
              (rym_expect [RYM_CODE_ACK, RYM_CODE_C] (rym_send_packet RYM_CODE_SOH 0 c))))"

partial_function (option) rym_send_loop :: "'s rym_callback option \<Rightarrow> u32 \<Rightarrow> 's rym_ctx \<Rightarrow> ('s rym_ctx \<times> int) option" where
  "rym_send_loop on_data index c =
     Option.bind (case on_data of None \<Rightarrow> Some (RYM_CODE_SOH, c) | Some f \<Rightarrow> f c (RYM_SOH_PKG_SZ - 5)) (\<lambda>(code, c).
       if code \<noteq> RYM_CODE_SOH then Some (c, - RYM_ERR_CODE)
       else Option.bind (rym_expect [RYM_CODE_ACK] (rym_send_packet RYM_CODE_SOH (ucast index) c)) (\<lambda>(c, err).
         if err \<noteq> RT_EOK then Some (c, err)
         else if rym_stage c = RYM_STAGE_FINISHING then Some (c, RT_EOK)
         else rym_send_loop on_data (index + 1) c))"

definition rym_do_send_trans :: "'s rym_callback option \<Rightarrow> 's rym_ctx \<Rightarrow> ('s rym_ctx \<times> int) option" where
  "rym_do_send_trans on_data c = rym_send_loop on_data 1 (c\<lparr>rym_stage := RYM_STAGE_TRANSMITTING\<rparr>)"

definition rym_do_send_fin :: "'s rym_callback option \<Rightarrow> 's rym_ctx \<Rightarrow> ('s rym_ctx \<times> int) option" where
  "rym_do_send_fin on_end c =
     Option.bind (rym_expect [RYM_CODE_NAK] (rym_putchar RYM_CODE_EOT c)) (\<lambda>(c, err).
       if err \<noteq> RT_EOK then Some (c, err)
       else Option.bind (rym_expect [RYM_CODE_ACK, RYM_CODE_C] (rym_putchar RYM_CODE_EOT c)) (\<lambda>(c, err).
         if err \<noteq> RT_EOK then Some (c, err)
         else Option.bind (case on_end of None \<Rightarrow> Some (RYM_CODE_SOH, c) | Some f \<Rightarrow> f c (RYM_SOH_PKG_SZ - 5)) (\<lambda>(code, c).
           if code \<noteq> RYM_CODE_SOH then Some (c, - RYM_ERR_CODE)
           else Some ((rym_send_packet RYM_CODE_SOH 0 c)\<lparr>rym_stage := RYM_STAGE_FINISHED\<rparr>, RT_EOK))))"

definition rym_send_body ::
    "'s rym_callback option \<Rightarrow> 's rym_callback option \<Rightarrow> 's rym_callback option \<Rightarrow> nat \<Rightarrow> 's rym_ctx \<Rightarrow>
     ('s rym_ctx \<times> int) option" where
  "rym_send_body on_begin on_data on_end tm c =
     Option.bind (rym_do_send_handshake on_begin tm c) (\<lambda>(c, err).
       if err \<noteq> RT_EOK then Some (c, err)
       else Option.bind (rym_do_send_trans on_data c) (\<lambda>(c, err).
         if err \<noteq> RT_EOK then Some (c, err) else rym_do_send_fin on_end c))"

definition rym_do_send ::
    "'s rym_callback option \<Rightarrow> 's rym_callback option \<Rightarrow> 's rym_callback option \<Rightarrow> nat \<Rightarrow> buf \<Rightarrow>
     rt_small_mem \<Rightarrow> 's rym_ctx \<Rightarrow> (rt_small_mem \<times> 's rym_ctx \<times> int) option" where
  "rym_do_send on_begin on_data on_end tm junk h c = rym_with_buf (rym_send_body on_begin on_data on_end tm) junk h c"


text \<open>A callback that looks at the data and keeps to its own state.\<close>

definition plain_callback :: "(buf \<Rightarrow> nat \<Rightarrow> 's \<Rightarrow> (u8 \<times> 's) option) \<Rightarrow> 's rym_callback" where
  "plain_callback g c n = map_option (\<lambda>(code, u). (code, c\<lparr>user := u\<rparr>)) (g (drop 3 (rym_buf c)) n (user c))"

section \<open>Frames\<close>

lemma packet_codes: "RYM_CODE_SOH \<noteq> RYM_CODE_EOT" "RYM_CODE_STX \<noteq> RYM_CODE_EOT" "RYM_CODE_SOH \<noteq> RYM_CODE_STX"
  "RYM_CODE_ACK \<noteq> RYM_CODE_CAN" "RYM_CODE_EOT \<noteq> RYM_CODE_SOH" "RYM_CODE_EOT \<noteq> RYM_CODE_STX" "RYM_CODE_STX \<noteq> RYM_CODE_SOH"
  by (simp_all add: rym_codes)

lemma putchar_frame [simp]:
  "rx (rym_dev (rym_putchar a c)) = rx (rym_dev c)" "coming (rym_dev (rym_putchar a c)) = coming (rym_dev c)"
  "now (rym_dev (rym_putchar a c)) = now (rym_dev c)" "tx (rym_dev (rym_putchar a c)) = tx (rym_dev c) @ [a]"
  "rym_buf (rym_putchar a c) = rym_buf c" "rym_stage (rym_putchar a c) = rym_stage c" "user (rym_putchar a c) = user c"
  by (simp_all add: rym_putchar_def)

lemma mdelay_frame [simp]:
  "rx (rym_dev (rym_mdelay k c)) = rx (rym_dev c)" "coming (rym_dev (rym_mdelay k c)) = coming (rym_dev c)"
  "tx (rym_dev (rym_mdelay k c)) = tx (rym_dev c)"
  "rym_buf (rym_mdelay k c) = rym_buf c" "rym_stage (rym_mdelay k c) = rym_stage c" "user (rym_mdelay k c) = user c"
  by (simp_all add: rym_mdelay_def)

lemma tick_100 [simp]: "rt_tick_from_millisecond 100 = 100"
  by (simp add: rt_tick_from_millisecond_def)

lemma tick_5 [simp]: "rt_tick_from_millisecond 5 = 5"
  by (simp add: rt_tick_from_millisecond_def)

section \<open>The heap afterwards\<close>

lemma with_buf_live:
  assumes "smem_live h W" "rym_with_buf body junk h c = Some (h', c', err)"
  shows "smem_live h' W" "err = - RT_ENOMEM \<or> body (c\<lparr>rym_stage := RYM_STAGE_NONE, rym_buf := junk\<rparr>) = Some (c', err)"
proof -
  have fine: "smem_fine (of_nat RYM_STX_PKG_SZ)" by (simp add: smem_fine_def RYM_STX_PKG_SZ_def)
  have in0: "smem_in h h W" using assms(1) by (simp add: smem_in_def same_heap_def)
  show "smem_live h' W"
  proof (cases "\<exists>m'. rt_smem_alloc h (of_nat RYM_STX_PKG_SZ) = Some (m', None)")
    case True
    then obtain m' where m': "rt_smem_alloc h (of_nat RYM_STX_PKG_SZ) = Some (m', None)" by blast
    then have "smem_in h m' W" using smem.allocates [OF in0 fine] by auto
    then show ?thesis using assms(2) m' by (simp add: rym_with_buf_def rt_malloc_def smem_in_def)
  next
    case False
    then obtain m' p n where m': "rt_smem_alloc h (of_nat RYM_STX_PKG_SZ) = Some (m', Some p)" "(p, n) \<notin> W" "smem_in h m' (insert (p, n) W)"
      using smem.allocates [OF in0 fine] by auto
    then have "rt_smem_free m' (Some p) = Some h'"
      using assms(2) by (auto simp: rym_with_buf_def rt_malloc_def rt_free_def bind_eq_Some_conv)
    then show ?thesis
      using smem.releases [OF m'(3), of p n] m'(2) by (auto simp: smem_free_def smem_in_def)
  qed
  show "err = - RT_ENOMEM \<or> body (c\<lparr>rym_stage := RYM_STAGE_NONE, rym_buf := junk\<rparr>) = Some (c', err)"
    using assms(2) by (auto simp: rym_with_buf_def bind_eq_Some_conv split: option.splits)
qed

lemma with_buf_runs:
  assumes "smem_live h W" "body (c\<lparr>rym_stage := RYM_STAGE_NONE, rym_buf := junk\<rparr>) = Some (c', err)"
  shows "\<exists>h'. rym_with_buf body junk h c = Some (h', c', err) \<or>
    rym_with_buf body junk h c = Some (h', c\<lparr>rym_stage := RYM_STAGE_NONE\<rparr>, - RT_ENOMEM)"
proof -
  have fine: "smem_fine (of_nat RYM_STX_PKG_SZ)" by (simp add: smem_fine_def RYM_STX_PKG_SZ_def)
  have in0: "smem_in h h W" using assms(1) by (simp add: smem_in_def same_heap_def)
  show ?thesis
  proof (cases "\<exists>m'. rt_smem_alloc h (of_nat RYM_STX_PKG_SZ) = Some (m', None)")
    case True
    then show ?thesis by (auto simp: rym_with_buf_def rt_malloc_def)
  next
    case False
    then obtain m' p n where m': "rt_smem_alloc h (of_nat RYM_STX_PKG_SZ) = Some (m', Some p)" "smem_in h m' (insert (p, n) W)"
      using smem.allocates [OF in0 fine] by auto
    then obtain h' where "rt_smem_free m' (Some p) = Some h'"
      using smem.releases [OF m'(2) insertI1] by (auto simp: smem_free_def)
    then show ?thesis using m'(1) assms(2) by (auto simp: rym_with_buf_def rt_malloc_def rt_free_def)
  qed
qed

lemma with_buf_allocated:
  assumes "smem_live h W" "rt_malloc h (of_nat RYM_STX_PKG_SZ) = Some (h1, Some p)"
    and "body (c\<lparr>rym_stage := RYM_STAGE_NONE, rym_buf := junk\<rparr>) = Some (c', err)"
  shows "\<exists>h'. rym_with_buf body junk h c = Some (h', c', err) \<and> smem_live h' W"
proof -
  have w: "rym_with_buf body junk h c = map_option (\<lambda>h. (h, c', err)) (rt_free h1 (Some p))"
    using assms(2,3) by (simp add: rym_with_buf_def)
  obtain r where "rym_with_buf body junk h c = Some r"
    using with_buf_runs [where body = body and c = c and junk = junk, OF assms(1,3)] by blast
  then obtain h' where "rym_with_buf body junk h c = Some (h', c', err)" using w by auto
  then show ?thesis using with_buf_live(1) [OF assms(1)] by blast
qed

text \<open>A heap of two thousand bytes.\<close>

definition ym_heap :: rt_small_mem where
  "ym_heap = the (rt_smem_init (\<lambda>_. 0) 0x20000000 2000)"

lemma ym_heap: "smem_live ym_heap {}" "\<exists>h1 p. rt_malloc ym_heap (of_nat RYM_STX_PKG_SZ) = Some (h1, Some p)"
proof -
  have "unat (0x20000000 :: u32) + unat (2000 :: u32) < 2 ^ 32" "100 \<le> unat (2000 :: u32)" by simp_all
  from heap_starts [OF this] obtain m where m: "rt_smem_init (\<lambda>_. 0) 0x20000000 2000 = Some m"
    "heap_holds m [(heap_end m, False)]" "unat (2000 :: u32) \<le> unat (mem_size_aligned m) + 86" by blast
  then have h: "heap_holds ym_heap [(heap_end ym_heap, False)]" "1914 \<le> unat (mem_size_aligned ym_heap)"
    by (simp_all add: ym_heap_def)
  show "smem_live ym_heap {}" using h(1) unfolding smem_live_def by (intro exI [of _ "[(heap_end ym_heap, False)]"]) simp
  have "SmallMem.RT_ALIGN 1029 = 1032" by (simp add: SmallMem.RT_ALIGN_def)
  then show "\<exists>h1 p. rt_malloc ym_heap (of_nat RYM_STX_PKG_SZ) = Some (h1, Some p)"
    using whole_allocates [OF h(1), of 1029] h(2) by (auto simp: word_le_nat_alt rt_malloc_def RYM_STX_PKG_SZ_def)
qed

end
