(* ===== verification/YmodemTransfer.thy ===== *)
theory YmodemTransfer
  imports Ymodem
begin

text \<open>
  Transfers of \<open>ymodem.c\<close> on a line that delivers what was sent, cut into pieces in any way:
  the receiver takes a transmission apart and answers it, the sender produces it from those
  answers.
\<close>

section \<open>A line without gaps\<close>

fun arriving :: "rx_event list \<Rightarrow> buf" where
  "arriving [] = []"
| "arriving (Arrive dt bs # es) = bs @ arriving es"
| "arriving (Quiet # es) = arriving es"

definition stream :: "uart \<Rightarrow> buf" where
  "stream d = rx d @ arriving (coming d)"

definition steady :: "uart \<Rightarrow> bool" where
  "steady d \<longleftrightarrow> Quiet \<notin> set (coming d)"

fun ticks_of :: "rx_event list \<Rightarrow> nat" where
  "ticks_of [] = 0"
| "ticks_of (Arrive dt bs # es) = unat dt + ticks_of es"
| "ticks_of (Quiet # es) = ticks_of es"

text \<open>The tick by which everything has arrived.\<close>

definition end_tick :: "uart \<Rightarrow> nat" where
  "end_tick d = unat (now d) + ticks_of (coming d)"

text \<open>\<open>follows d d'\<close>: some of the line's events have happened, and nothing was sent.\<close>

definition follows :: "uart \<Rightarrow> uart \<Rightarrow> bool" where
  "follows d d' \<longleftrightarrow> tx d' = tx d \<and> (steady d \<longrightarrow> steady d') \<and> (steady d \<and> end_tick d < 2 ^ 32 \<longrightarrow> end_tick d' = end_tick d)"

lemma line_frame [simp]:
  "stream (rym_dev (rym_putchar a c)) = stream (rym_dev c)" "steady (rym_dev (rym_putchar a c)) = steady (rym_dev c)"
  "end_tick (rym_dev (rym_putchar a c)) = end_tick (rym_dev c)"
  "stream (rym_dev (rym_mdelay k c)) = stream (rym_dev c)" "steady (rym_dev (rym_mdelay k c)) = steady (rym_dev c)"
  by (simp_all add: stream_def steady_def end_tick_def)

lemma follows_refl [simp]: "follows d d"
  by (simp add: follows_def)

lemma follows_trans: "follows d e \<Longrightarrow> follows e f \<Longrightarrow> follows d f"
  by (auto simp: follows_def)

lemma follows_read [simp]: "follows d (d\<lparr>rx := r\<rparr>)"
  by (simp add: follows_def steady_def end_tick_def)

lemma follows_arrive:
  assumes "coming d = Arrive dt bs # es"
  shows "follows d (d\<lparr>coming := es, now := now d + dt, rx := r\<rparr>)"
proof -
  have "unat (now d + dt) = unat (now d) + unat dt" if "end_tick d < 2 ^ 32"
    using that assms by (simp add: end_tick_def unat_word_ariths)
  then show ?thesis using assms by (auto simp: follows_def steady_def end_tick_def)
qed

lemma stream_read: "dev_read n d = (bs, d') \<Longrightarrow> stream d = bs @ stream d'"
  by (auto simp: dev_read_def stream_def)

lemma wait_steady:
  assumes "steady d" "stream d \<noteq> []" "rx d = []"
  obtains dt bs es where "coming d = Arrive dt bs # es"
proof (cases "coming d")
  case Nil
  then show ?thesis using assms by (simp add: stream_def)
next
  case (Cons e es)
  then show ?thesis using assms that by (cases e) (auto simp: steady_def)
qed

lemma wait_code_steady:
  "steady d \<Longrightarrow> stream d = b # bs \<Longrightarrow> rx d = [] \<Longrightarrow>
   \<exists>d'. rym_wait_code t d = (Some b, d') \<and> stream d' = bs \<and> follows d d'"
proof (induction t d rule: rym_wait_code.induct)
  case (1 t d)
  obtain dt as es where a: "coming d = Arrive dt as # es"
    by (rule wait_steady [OF 1(2)]) (use 1(3,4) in auto)
  let ?d = "d\<lparr>coming := es, now := now d + dt, rx := as\<rparr>"
  have w: "dev_wait t d = (True, ?d)" using a 1(4) by (simp add: dev_wait_def)
  have f: "follows d ?d" by (rule follows_arrive [OF a])
  have s: "stream ?d = b # bs" "steady ?d" using 1(2-4) a f by (simp_all add: stream_def follows_def)
  show ?case
  proof (cases as)
    case Nil
    then obtain d' where "rym_wait_code t ?d = (Some b, d')" "stream d' = bs" "follows ?d d'"
      using 1(1) [OF w [symmetric] refl _ s(2,1)] by auto
    then show ?thesis using follows_trans [OF f] w Nil by (subst rym_wait_code.simps) simp
  next
    case (Cons a as')
    then have "rym_wait_code t d = (Some b, ?d\<lparr>rx := as'\<rparr>)" "stream (?d\<lparr>rx := as'\<rparr>) = bs"
      using w s(1) by (subst rym_wait_code.simps, simp_all add: dev_read_def stream_def)
    then show ?thesis using follows_trans [OF f follows_read [of ?d as']] by auto
  qed
qed

text \<open>Two sessions that differ in what has been received: the frame of the receiving operations.\<close>

definition receives :: "'s rym_ctx \<Rightarrow> buf \<Rightarrow> 's rym_ctx \<Rightarrow> bool" where
  "receives c bs c' \<longleftrightarrow> stream (rym_dev c) = bs @ stream (rym_dev c') \<and> follows (rym_dev c) (rym_dev c') \<and>
     length (rym_buf c') = length (rym_buf c) \<and> rym_stage c' = rym_stage c \<and> user c' = user c"

lemma read_code_steady:
  assumes "steady (rym_dev c)" "stream (rym_dev c) = b # bs"
  shows "\<exists>c'. rym_read_code t c = (b, c') \<and> receives c [b] c'"
proof (cases "rx (rym_dev c)")
  case Nil
  then show ?thesis
    using wait_code_steady [OF assms, of t] assms(2) by (auto simp: rym_read_code_def receives_def)
next
  case (Cons a as)
  then show ?thesis
    using assms(2) by (auto simp: rym_read_code_def receives_def dev_read_def stream_def)
qed

lemma buf_write_two:
  assumes "o1 + length xs + length ys \<le> length b"
  shows "overlay (overlay b o1 xs) (o1 + length xs) ys = overlay b o1 (xs @ ys)"
  using assms by (simp add: overlay_def add.assoc add.left_commute add.commute)

lemma read_loop_steady:
  "steady (rym_dev c) \<Longrightarrow> k \<le> len \<Longrightarrow> len - k \<le> length (stream (rym_dev c)) \<Longrightarrow> 1 + len \<le> length (rym_buf c) \<Longrightarrow>
   \<exists>c'. rym_read_loop len k c = Some (c', len) \<and> receives c (take (len - k) (stream (rym_dev c))) c' \<and>
     rym_buf c' = overlay (rym_buf c) (1 + k) (take (len - k) (stream (rym_dev c)))"
proof (induction len k c rule: rym_read_loop.induct)
  case (1 len k c)
  let ?d = "rym_dev c"
  let ?bs = "take (len - k) (rx ?d)" and ?e = "?d\<lparr>rx := drop (len - k) (rx ?d)\<rparr>"
  let ?c = "c\<lparr>rym_buf := overlay (rym_buf c) (1 + k) ?bs, rym_dev := ?e\<rparr>"
  have r: "dev_read (len - k) ?d = (?bs, ?e)" by (simp add: dev_read_def)
  have fit: "1 + k + length ?bs \<le> length (rym_buf c)" using 1(3,5) by (auto simp: min_def)
  then have w: "buf_write (rym_buf c) (1 + k) ?bs = Some (overlay (rym_buf c) (1 + k) ?bs)" by (simp add: buf_write_def)
  show ?case
  proof (cases "len - k \<le> length (rx ?d)")
    case True
    then have "k + length ?bs = len" using 1(3) by simp
    then have "rym_read_loop len k c = Some (?c, len)"
      using r w by (subst rym_read_loop.simps) (simp add: Let_def)
    moreover have "take (len - k) (stream ?d) = ?bs" using True by (simp add: stream_def)
    moreover have "receives c ?bs ?c" using fit by (simp add: receives_def stream_def)
    ultimately show ?thesis by auto
  next
    case False
    then have k: "?bs = rx ?d" "k + length (rx ?d) < len" by simp_all
    have "\<exists>dt as es. coming ?d = Arrive dt as # es"
    proof -
      have "arriving (coming ?d) \<noteq> []" using False 1(4) by (auto simp: stream_def)
      then show ?thesis using 1(2) by (cases "coming ?d" rule: arriving.cases) (auto simp: steady_def)
    qed
    then obtain dt as es where a: "coming ?d = Arrive dt as # es" by blast
    let ?f = "?d\<lparr>coming := es, now := now ?d + dt, rx := as\<rparr>"
    let ?g = "?c\<lparr>rym_dev := ?f\<rparr>"
    have dw: "dev_wait RYM_WAIT_CHR_TICK ?e = (True, ?f)" using a k(1) by (simp add: dev_wait_def)
    have fo: "follows ?d ?f" by (rule follows_arrive [OF a])
    have s: "stream ?d = rx ?d @ stream ?f" using a by (simp add: stream_def)
    have st: "steady ?f" using fo 1(2) by (simp add: follows_def)
    have step: "rym_read_loop len k c = rym_read_loop len (k + length (rx ?d)) ?g"
      using r w dw k by (subst rym_read_loop.simps) (simp add: Let_def)
    have "\<exists>c'. rym_read_loop len (k + length (rx ?d)) ?g = Some (c', len) \<and>
       receives ?g (take (len - (k + length (rx ?d))) (stream ?f)) c' \<and>
       rym_buf c' = overlay (rym_buf ?g) (1 + (k + length (rx ?d))) (take (len - (k + length (rx ?d))) (stream ?f))"
      using 1(1) [OF r [symmetric] refl w refl refl _ dw [symmetric] refl] k st s 1(4,5) fit by simp
    then obtain c' where c': "rym_read_loop len (k + length (rx ?d)) ?g = Some (c', len)"
      "receives ?g (take (len - (k + length (rx ?d))) (stream ?f)) c'"
      "rym_buf c' = overlay (rym_buf ?g) (1 + (k + length (rx ?d))) (take (len - (k + length (rx ?d))) (stream ?f))" by blast
    have t: "take (len - k) (stream ?d) = rx ?d @ take (len - (k + length (rx ?d))) (stream ?f)"
      using s k by simp
    have "receives c (take (len - k) (stream ?d)) c'"
      using c'(2) s t fit k(1) follows_trans [OF fo] by (auto simp: receives_def)
    moreover have "rym_buf c' = overlay (rym_buf c) (1 + k) (take (len - k) (stream ?d))"
    proof -
      let ?t = "take (len - (k + length (rx ?d))) (stream ?f)"
      have "1 + k + length (rx ?d) + length ?t \<le> length (rym_buf c)" using 1(3,5) k by (auto simp: min_def)
      from buf_write_two [OF this] show ?thesis using c'(3) t k(1) by (simp add: add.assoc)
    qed
    ultimately show ?thesis using step c'(1) by auto
  qed
qed

lemma read_data_steady:
  assumes "steady (rym_dev c)" "stream (rym_dev c) = bs @ rest" "1 + length bs \<le> length (rym_buf c)"
  shows "\<exists>c'. rym_read_data (length bs) c = Some (c', length bs) \<and> receives c bs c' \<and>
    rym_buf c' = overlay (rym_buf c) 1 bs"
  using read_loop_steady [OF assms(1), of 0 "length bs"] assms(2,3) by (simp add: rym_read_data_def)

lemma receives_steady: "receives c bs c' \<Longrightarrow> steady (rym_dev c) \<Longrightarrow> steady (rym_dev c')"
  by (simp add: receives_def follows_def)

lemma receives_rest: "receives c bs c' \<Longrightarrow> stream (rym_dev c) = bs @ rest \<Longrightarrow> stream (rym_dev c') = rest"
  by (simp add: receives_def)

section \<open>Packets\<close>

definition rym_packet :: "u8 \<Rightarrow> buf \<Rightarrow> buf" where
  "rym_packet i d =
     [if length d = 128 then RYM_CODE_SOH else RYM_CODE_STX, i, NOT i] @ d @
     [byte_of 1 (CRC16 d (length d)), byte_of 0 (CRC16 d (length d))]"

definition packet_data :: "buf \<Rightarrow> bool" where
  "packet_data d \<longleftrightarrow> length d = 128 \<or> length d = 1024"

lemma crc16_take: "n \<le> length d \<Longrightarrow> CRC16 (d @ t) (length d) = CRC16 d (length d)"
  by (simp add: CRC16_def)

lemma not_index: "unat (i :: u8) + unat (NOT i) = 0xFF"
proof -
  have "unat i < 256" using unsigned_less [of i, where ?'a = nat] by simp
  then have le: "unat i \<le> 255" by linarith
  have "NOT i = 255 - i" by (simp add: not_eq_complement)
  moreover have "unat (255 - i) = 255 - unat i" using le by (simp add: unat_sub word_le_nat_alt)
  ultimately show ?thesis using le by simp
qed

text \<open>What the buffer holds once the rest of a packet has been read.\<close>

lemma packet_buffer:
  fixes i :: u8
  assumes "length b = RYM_STX_PKG_SZ" "packet_data d"
  defines "n \<equiv> length d"
  defines "b' \<equiv> overlay b 1 (tl (rym_packet i d))"
  shows "length b' = RYM_STX_PKG_SZ" "b' ! 1 = i" "b' ! 2 = NOT i" "drop 3 b' = d @ drop (3 + n) b'"
    "CRC16 (drop 3 b') n = CRC16 d n" "join16 (b' ! (3 + n)) (b' ! (3 + n + 1)) = CRC16 d n"
proof -
  have n: "n + 5 \<le> length b" using assms(1,2) by (auto simp: n_def RYM_STX_PKG_SZ_def packet_data_def)
  have len: "length (tl (rym_packet i d)) = n + 4" by (simp add: rym_packet_def n_def)
  show l: "length b' = RYM_STX_PKG_SZ" using n len assms(1) by (simp add: b'_def)
  have at: "b' ! (1 + k) = tl (rym_packet i d) ! k" if "k < n + 4" for k
    using that n len by (simp add: b'_def nth_overlay)
  have t: "tl (rym_packet i d) = [i, NOT i] @ d @ [byte_of 1 (CRC16 d n), byte_of 0 (CRC16 d n)]"
    by (simp add: rym_packet_def n_def)
  show "b' ! 1 = i" "b' ! 2 = NOT i" using at [of 0] at [of 1] t by (simp_all add: numeral_2_eq_2)
  have d: "take n (drop 3 b') = d"
  proof (rule nth_equalityI)
    show "length (take n (drop 3 b')) = length d" using n l assms(1) by (simp add: n_def)
    fix k assume "k < length (take n (drop 3 b'))"
    then have k: "k < n" by simp
    then have "b' ! (1 + (2 + k)) = d ! k" using at [of "2 + k"] t by (simp add: nth_append n_def)
    then show "take n (drop 3 b') ! k = d ! k" using k n l assms(1) by (simp add: numeral_3_eq_3)
  qed
  then show d3: "drop 3 b' = d @ drop (3 + n) b'" using append_take_drop_id [of n "drop 3 b'"] by (simp add: add.commute)
  show "CRC16 (drop 3 b') n = CRC16 d n" unfolding CRC16_def by (simp add: d) (simp add: n_def)
  have "b' ! (3 + n) = byte_of 1 (CRC16 d n)" "b' ! (3 + n + 1) = byte_of 0 (CRC16 d n)"
    using at [of "n + 2"] at [of "n + 3"] t by (simp_all add: nth_append n_def add.commute numeral_3_eq_3)
  then show "join16 (b' ! (3 + n)) (b' ! (3 + n + 1)) = CRC16 d n" by simp
qed

text \<open>A callback that takes a packet.\<close>

definition accepts :: "(buf \<Rightarrow> nat \<Rightarrow> 's \<Rightarrow> (u8 \<times> 's) option) \<Rightarrow> buf \<Rightarrow> 's \<Rightarrow> 's \<Rightarrow> bool" where
  "accepts g d u v \<longleftrightarrow> (\<forall>tail. g (d @ tail) (length d) u = Some (RYM_CODE_ACK, v))"

fun accepts_all :: "(buf \<Rightarrow> nat \<Rightarrow> 's \<Rightarrow> (u8 \<times> 's) option) \<Rightarrow> buf list \<Rightarrow> 's \<Rightarrow> 's \<Rightarrow> bool" where
  "accepts_all g [] u v \<longleftrightarrow> v = u"
| "accepts_all g (d # ds) u v \<longleftrightarrow> (\<exists>w. accepts g d u w \<and> accepts_all g ds w v)"

text \<open>One packet, from its code on.\<close>

lemma packet_length: "length (rym_packet i d) = length d + 5"
  by (simp add: rym_packet_def)

lemma packet_code: "rym_packet i d = (if length d = 128 then RYM_CODE_SOH else RYM_CODE_STX) # tl (rym_packet i d)"
  by (simp add: rym_packet_def)

lemma trans_data_packet:
  assumes st: "steady (rym_dev c)" and str: "stream (rym_dev c) = tl (rym_packet i d) @ rest"
    and b: "length (rym_buf c) = RYM_STX_PKG_SZ" "packet_data d"
    and i: "rym_stage c = RYM_STAGE_ESTABLISHED \<longrightarrow> i \<noteq> 0" and g: "accepts g d (user c) v"
  shows "\<exists>c'. rym_trans_data (Some (plain_callback g)) (length d) c = Some (c', RT_EOK, RYM_CODE_ACK) \<and>
    steady (rym_dev c') \<and> stream (rym_dev c') = rest \<and> follows (rym_dev c) (rym_dev c') \<and>
    length (rym_buf c') = RYM_STX_PKG_SZ \<and> rym_stage c' = RYM_STAGE_TRANSMITTING \<and> user c' = v"
proof -
  let ?n = "length d"
  have len: "length (tl (rym_packet i d)) = 2 + ?n + 2" by (simp add: packet_length)
  have "1 + length (tl (rym_packet i d)) \<le> length (rym_buf c)" using b len by (auto simp: packet_data_def RYM_STX_PKG_SZ_def)
  from read_data_steady [OF st str this] obtain c1 where c1: "rym_read_data (2 + ?n + 2) c = Some (c1, 2 + ?n + 2)"
    "receives c (tl (rym_packet i d)) c1" "rym_buf c1 = overlay (rym_buf c) 1 (tl (rym_packet i d))"
    unfolding len by blast
  note p = packet_buffer [OF b, of i, folded c1(3)]
  have r: "rym_stage c1 = rym_stage c" "user c1 = user c" "follows (rym_dev c) (rym_dev c1)"
    using c1(2) by (simp_all add: receives_def)
  let ?c = "c1\<lparr>rym_stage := RYM_STAGE_TRANSMITTING\<rparr>"
  have "plain_callback g ?c ?n = Some (RYM_CODE_ACK, ?c\<lparr>user := v\<rparr>)"
    using g r p(4) unfolding plain_callback_def accepts_def by (metis (no_types, lifting) map_option_eq_Some prod.case select_convs surjective update_convs)
  moreover have "rym_received_crc ?c (2 + ?n + 2 - 1) = CRC16 (drop 3 (rym_buf c1)) ?n"
  proof -
    have "2 + ?n + 2 - 1 = 3 + ?n" by simp
    then show ?thesis using p(5,6) by (simp only: rym_received_crc_def) simp
  qed
  moreover have "\<not> (rym_stage c1 = RYM_STAGE_ESTABLISHED \<and> rym_buf c1 ! 1 = 0)" using i p(2) r(1) by simp
  ultimately have "rym_trans_data (Some (plain_callback g)) ?n c = Some (?c\<lparr>user := v\<rparr>, RT_EOK, RYM_CODE_ACK)"
    using c1(1) p(2,3) not_index [of i] by (auto simp: rym_trans_data_def Let_def simp del: add_2_eq_Suc add_2_eq_Suc')
  then show ?thesis
    using receives_steady [OF c1(2) st] receives_rest [OF c1(2) str] r(3) p(1) by (intro exI [of _ "?c\<lparr>user := v\<rparr>"]) simp
qed

text \<open>
  All the packets of a file. The receiver compares the sequence number of a packet with its
  complement only, so the packets may carry any numbers; the sender counts from one.
\<close>

fun numbered :: "(u8 \<times> buf) list \<Rightarrow> buf" where
  "numbered [] = []"
| "numbered ((i, d) # ps) = rym_packet i d @ numbered ps"

fun count_from :: "u8 \<Rightarrow> buf list \<Rightarrow> (u8 \<times> buf) list" where
  "count_from i [] = []"
| "count_from i (d # ds) = (i, d) # count_from (i + 1) ds"

definition packets :: "u8 \<Rightarrow> buf list \<Rightarrow> buf" where
  "packets i ds = numbered (count_from i ds)"

lemma packets_simps [simp]: "packets i [] = []" "packets i (d # ds) = rym_packet i d @ packets (i + 1) ds"
  by (simp_all add: packets_def)

lemma count_from_data [simp]: "map snd (count_from i ds) = ds" "length (count_from i ds) = length ds"
  by (induction ds arbitrary: i) auto

lemma count_from_first: "ps = count_from i ds \<Longrightarrow> i \<noteq> 0 \<Longrightarrow> ps \<noteq> [] \<longrightarrow> fst (hd ps) \<noteq> 0"
  by (cases ds) auto

lemma trans_loop_numbered:
  assumes "steady (rym_dev c)" "stream (rym_dev c) = numbered ps @ RYM_CODE_EOT # rest"
    and "length (rym_buf c) = RYM_STX_PKG_SZ" "\<forall>d \<in> set (map snd ps). packet_data d"
    and "rym_stage c = RYM_STAGE_ESTABLISHED \<longrightarrow> ps \<noteq> [] \<longrightarrow> fst (hd ps) \<noteq> 0" "accepts_all g (map snd ps) (user c) v"
  shows "\<exists>c'. rym_trans_loop (Some (plain_callback g)) c = Some (c', RT_EOK) \<and>
    steady (rym_dev c') \<and> stream (rym_dev c') = rest \<and> length (rym_buf c') = RYM_STX_PKG_SZ \<and> user c' = v \<and>
    tx (rym_dev c') = tx (rym_dev c) @ replicate (length ps) RYM_CODE_ACK"
  using assms
proof (induction ps arbitrary: c)
  case Nil
  obtain c1 where "rym_read_code RYM_WAIT_PKG_TICK c = (RYM_CODE_EOT, c1)" "receives c [RYM_CODE_EOT] c1"
    using read_code_steady [OF Nil.prems(1), of RYM_CODE_EOT rest] Nil.prems(2) by auto
  then show ?case
    using Nil.prems receives_steady receives_rest [of c "[RYM_CODE_EOT]" c1 rest]
    by (subst rym_trans_loop.simps) (auto simp: receives_def follows_def)
next
  case (Cons p ps)
  obtain i d where p: "p = (i, d)" by (rule prod.exhaust)
  let ?code = "if length d = 128 then RYM_CODE_SOH else RYM_CODE_STX"
  let ?rest = "numbered ps @ RYM_CODE_EOT # rest"
  have d: "packet_data d" using Cons.prems(4) p by simp
  obtain w where w: "accepts g d (user c) w" "accepts_all g (map snd ps) w v" using Cons.prems(6) p by auto
  have str: "stream (rym_dev c) = ?code # (tl (rym_packet i d) @ ?rest)"
    using Cons.prems(2) packet_code [of i d] p by (metis append_Cons append_assoc numbered.simps(2))
  from read_code_steady [OF Cons.prems(1) str] obtain c1 where c1: "rym_read_code RYM_WAIT_PKG_TICK c = (?code, c1)"
    "receives c [?code] c1" by blast
  have r: "steady (rym_dev c1)" "stream (rym_dev c1) = tl (rym_packet i d) @ ?rest"
    "length (rym_buf c1) = RYM_STX_PKG_SZ" "rym_stage c1 = rym_stage c" "user c1 = user c" "tx (rym_dev c1) = tx (rym_dev c)"
    using c1(2) receives_steady [OF c1(2) Cons.prems(1)] Cons.prems(3) str
    by (simp_all add: receives_def follows_def)
  obtain c2 where c2: "rym_trans_data (Some (plain_callback g)) (length d) c1 = Some (c2, RT_EOK, RYM_CODE_ACK)"
    "steady (rym_dev c2)" "stream (rym_dev c2) = ?rest" "follows (rym_dev c1) (rym_dev c2)"
    "length (rym_buf c2) = RYM_STX_PKG_SZ" "rym_stage c2 = RYM_STAGE_TRANSMITTING" "user c2 = w"
    using trans_data_packet [OF r(1,2,3) d, of g w] Cons.prems(5) r(4,5) w(1) p by auto
  let ?c = "rym_putchar RYM_CODE_ACK c2"
  obtain c' where IH: "rym_trans_loop (Some (plain_callback g)) ?c = Some (c', RT_EOK)" "steady (rym_dev c')"
    "stream (rym_dev c') = rest" "length (rym_buf c') = RYM_STX_PKG_SZ" "user c' = v"
    "tx (rym_dev c') = tx (rym_dev ?c) @ replicate (length ps) RYM_CODE_ACK"
    using Cons.IH [of ?c] c2 w(2) Cons.prems(4) by auto
  have n: "(if ?code = RYM_CODE_SOH then 128 else 1024) = length d"
    using d by (auto simp: packet_data_def packet_codes)
  have "rym_trans_loop (Some (plain_callback g)) c = rym_trans_loop (Some (plain_callback g)) ?c"
    using c1(1) c2(1) n d by (subst rym_trans_loop.simps) (auto simp: packet_codes packet_data_def)
  moreover have "tx (rym_dev c2) = tx (rym_dev c)" using c2(4) r(6) by (simp add: follows_def)
  ultimately show ?case using IH by simp
qed

lemma gather_steady:
  assumes "steady (rym_dev c)" "stream (rym_dev c) = bs @ rest" "1 + length bs \<le> length (rym_buf c)"
    and "end_tick (rym_dev c) < 2 ^ 32 - 100" "bs \<noteq> []"
  shows "\<exists>c1. rym_gather (now (rym_dev c)) (length bs) 0 c = Some (rym_mdelay 5 c1, length bs) \<and> receives c bs c1 \<and>
    rym_buf c1 = overlay (rym_buf c) 1 bs"
proof -
  obtain c1 where c1: "rym_read_data (length bs) c = Some (c1, length bs)" "receives c bs c1" "rym_buf c1 = overlay (rym_buf c) 1 bs"
    using read_data_steady [OF assms(1-3)] by blast
  have "rt_tick_from_millisecond 100 = 100" by (simp add: rt_tick_from_millisecond_def)
  moreover have "unat (now (rym_dev c)) + 100 < 2 ^ 32" using assms(4) by (simp add: end_tick_def)
  then have "now (rym_dev c) \<le> now (rym_dev c) + 100" by (simp add: word_le_nat_alt unat_word_ariths)
  ultimately show ?thesis
    using c1 assms(5) by (intro exI [of _ c1], subst rym_gather.simps) (simp add: rym_gather.simps [of _ _ "length bs"])
qed

lemma handshake_packet:
  assumes "steady (rym_dev c)" "stream (rym_dev c) = rym_packet 0 d @ rest" "packet_data d"
    and "length (rym_buf c) = RYM_STX_PKG_SZ" "end_tick (rym_dev c) < 2 ^ 32 - 100" "accepts g d (user c) v"
  shows "\<exists>c'. rym_do_handshake (Some (plain_callback g)) (Suc tm) c = Some (c', RT_EOK) \<and> steady (rym_dev c') \<and>
    stream (rym_dev c') = rest \<and> length (rym_buf c') = RYM_STX_PKG_SZ \<and> user c' = v \<and> tx (rym_dev c') = tx (rym_dev c) @ [RYM_CODE_C]"
proof -
  let ?code = "if length d = 128 then RYM_CODE_SOH else RYM_CODE_STX" and ?bs = "tl (rym_packet 0 d)"
  let ?c = "rym_putchar RYM_CODE_C (c\<lparr>rym_stage := RYM_STAGE_ESTABLISHING\<rparr>)"
  have "stream (rym_dev ?c) = rym_packet 0 d @ rest" using assms(2) by simp
  also have "\<dots> = ?code # ?bs @ rest" by (subst packet_code) (rule append_Cons)
  finally have s0: "steady (rym_dev ?c)" "stream (rym_dev ?c) = ?code # ?bs @ rest" using assms(1) by simp_all
  obtain c1 where c1: "rym_read_code RYM_CHD_INTV_TICK ?c = (?code, c1)" "receives ?c [?code] c1"
    using read_code_steady [OF s0] by blast
  have len: "length ?bs = length d + 4" by (simp add: packet_length)
  have r: "steady (rym_dev c1)" "stream (rym_dev c1) = ?bs @ rest" "length (rym_buf c1) = RYM_STX_PKG_SZ"
    "user c1 = user c" "tx (rym_dev c1) = tx (rym_dev c) @ [RYM_CODE_C]" "end_tick (rym_dev c1) < 2 ^ 32 - 100"
    using c1(2) receives_steady [OF c1(2) s0(1)] s0 assms(4,5) by (simp_all add: receives_def follows_def)
  have "1 + length ?bs \<le> length (rym_buf c1)" using len assms(3) r(3) by (auto simp: packet_data_def RYM_STX_PKG_SZ_def)
  moreover have "?bs \<noteq> []" using len by (metis add_is_0 list.size(3) zero_neq_numeral)
  ultimately obtain c2 where c2: "rym_gather (now (rym_dev c1)) (length ?bs) 0 c1 = Some (rym_mdelay 5 c2, length ?bs)"
    "receives c1 ?bs c2" "rym_buf c2 = overlay (rym_buf c1) 1 ?bs"
    using gather_steady [OF r(1,2) _ r(6)] by blast
  note p = packet_buffer [OF r(3) assms(3), of 0, folded c2(3)]
  have k: "rym_knock (Suc tm) (c\<lparr>rym_stage := RYM_STAGE_ESTABLISHING\<rparr>) = (c1, Some (length d + 5))"
    using c1(1) assms(3) by (auto simp: packet_data_def packet_codes RYM_SOH_PKG_SZ_def RYM_STX_PKG_SZ_def)
  have u: "user c2 = user c" "tx (rym_dev c2) = tx (rym_dev c) @ [RYM_CODE_C]"
    using c2(2) r by (simp_all add: receives_def follows_def)
  let ?c2 = "rym_mdelay 5 c2"
  have "plain_callback g ?c2 (length d) = Some (RYM_CODE_ACK, ?c2\<lparr>user := v\<rparr>)"
    using assms(6) u(1) p(4) unfolding plain_callback_def accepts_def
    by (metis (no_types, lifting) map_option_eq_Some mdelay_frame(4,6) prod.case)
  moreover have "rym_received_crc ?c2 (length d + 5 - 2) = CRC16 (drop 3 (rym_buf c2)) (length d)"
  proof -
    have "length d + 5 - 2 = 3 + length d" by simp
    then show ?thesis using p(5,6) by (simp only: rym_received_crc_def) simp
  qed
  moreover from calculation have "rym_do_handshake (Some (plain_callback g)) (Suc tm) c = Some (?c2\<lparr>user := v\<rparr>, RT_EOK)"
  proof -
    have n: "length d + 5 - 1 = length d + 4" "length d + 5 - 2 = 3 + length d" "length d + 5 - 5 = length d" by simp_all
    have "rym_buf ?c2 ! 1 = 0" "rym_buf ?c2 ! 2 = 0xFF" using p(2,3) by simp_all
    then show ?thesis
      using \<open>plain_callback g ?c2 (length d) = _\<close> \<open>rym_received_crc ?c2 _ = _\<close> c2(1)
      unfolding rym_do_handshake_def k prod.case option.case n len by simp
  qed
  ultimately show ?thesis
    using receives_steady [OF c2(2) r(1)] receives_rest [OF c2(2) r(2)] p(1) u(2) by simp
qed

text \<open>The end of a transmission: a second EOT, then a packet of zeros.\<close>

lemma fin_packets:
  assumes "steady (rym_dev c)" "stream (rym_dev c) = RYM_CODE_EOT # rym_packet 0 (replicate 128 0) @ rest"
    and "length (rym_buf c) = RYM_STX_PKG_SZ"
  shows "\<exists>c'. rym_do_fin b None c = Some (c', RT_EOK) \<and> rym_stage c' = RYM_STAGE_FINISHED \<and> user c' = user c \<and>
    tx (rym_dev c') = tx (rym_dev c) @ [RYM_CODE_NAK, RYM_CODE_ACK, RYM_CODE_C, RYM_CODE_ACK]"
proof -
  let ?z = "replicate 128 0 :: buf" and ?c = "rym_putchar RYM_CODE_NAK (c\<lparr>rym_stage := RYM_STAGE_FINISHING\<rparr>)"
  let ?bs = "tl (rym_packet 0 ?z)"
  have z: "packet_data ?z" by (simp add: packet_data_def)
  have s0: "steady (rym_dev ?c)" "stream (rym_dev ?c) = RYM_CODE_EOT # rym_packet 0 ?z @ rest" using assms(1,2) by simp_all
  obtain c1 where c1: "rym_read_code RYM_WAIT_PKG_TICK ?c = (RYM_CODE_EOT, c1)" "receives ?c [RYM_CODE_EOT] c1"
    using read_code_steady [OF s0] by blast
  let ?c1 = "rym_putchar RYM_CODE_C (rym_putchar RYM_CODE_ACK c1)"
  have s1: "steady (rym_dev ?c1)" "stream (rym_dev ?c1) = RYM_CODE_SOH # ?bs @ rest"
    using receives_steady [OF c1(2) s0(1)] c1(2) s0(2) by (simp_all add: receives_def rym_packet_def)
  obtain c2 where c2: "rym_read_code RYM_WAIT_PKG_TICK ?c1 = (RYM_CODE_SOH, c2)" "receives ?c1 [RYM_CODE_SOH] c2"
    using read_code_steady [OF s1] by blast
  have len: "length ?bs = RYM_SOH_PKG_SZ - 1" by (simp add: packet_length RYM_SOH_PKG_SZ_def)
  have r: "steady (rym_dev c2)" "stream (rym_dev c2) = ?bs @ rest" "length (rym_buf c2) = RYM_STX_PKG_SZ" "user c2 = user c"
    "rym_stage c2 = RYM_STAGE_FINISHING" "tx (rym_dev c2) = tx (rym_dev c) @ [RYM_CODE_NAK, RYM_CODE_ACK, RYM_CODE_C]"
    using receives_steady [OF c2(2) s1(1)] s1(2) c1(2) c2(2) assms(3) by (simp_all add: receives_def follows_def)
  have "1 + length ?bs \<le> length (rym_buf c2)" using len r(3) by (simp add: RYM_SOH_PKG_SZ_def RYM_STX_PKG_SZ_def)
  from read_data_steady [OF r(1,2) this] obtain c3 where c3: "rym_read_data (RYM_SOH_PKG_SZ - 1) c2 = Some (c3, RYM_SOH_PKG_SZ - 1)"
    "receives c2 ?bs c3" "rym_buf c3 = overlay (rym_buf c2) 1 ?bs" unfolding len by blast
  note p = packet_buffer [OF r(3) z, of 0, folded c3(3)]
  have crc: "rym_received_crc c3 (RYM_SOH_PKG_SZ - 2) = CRC16 (drop 3 (rym_buf c3)) (RYM_SOH_PKG_SZ - 5)"
    using p(5,6) by (simp add: rym_received_crc_def RYM_SOH_PKG_SZ_def)
  have "rym_buf c3 ! 3 = drop 3 (rym_buf c3) ! 0" using p(1) by (simp add: RYM_STX_PKG_SZ_def)
  then have zero: "rym_buf c3 ! 3 = 0" unfolding p(4) by (simp add: nth_append)
  have "rym_do_fin b None c = Some (rym_putchar RYM_CODE_ACK (c3\<lparr>rym_stage := RYM_STAGE_FINISHED\<rparr>), RT_EOK)"
    using c1(1) c2(1) c3(1) p(2,3) crc zero by (simp add: rym_do_fin_def rym_call_end_def Let_def packet_codes)
  moreover have "user c3 = user c" "tx (rym_dev c3) = tx (rym_dev c2)" using c3(2) r(4) by (simp_all add: receives_def follows_def)
  ultimately show ?thesis using r(6) by simp
qed

text \<open>What a sender sends.\<close>

definition transmitted :: "buf \<Rightarrow> (u8 \<times> buf) list \<Rightarrow> buf" where
  "transmitted hdr ps =
     rym_packet 0 hdr @ numbered ps @ [RYM_CODE_EOT, RYM_CODE_EOT] @ rym_packet 0 (replicate 128 0)"

definition transmission :: "buf \<Rightarrow> buf list \<Rightarrow> buf" where
  "transmission hdr ds = transmitted hdr (count_from 1 ds)"

definition answers :: "nat \<Rightarrow> buf" where
  "answers n =
     [RYM_CODE_C, RYM_CODE_ACK, RYM_CODE_C] @ replicate n RYM_CODE_ACK @ [RYM_CODE_NAK, RYM_CODE_ACK, RYM_CODE_C, RYM_CODE_ACK]"

lemma recv_body_transmitted:
  assumes "steady (rym_dev c)" "stream (rym_dev c) = transmitted hdr ps @ rest" "packet_data hdr" "\<forall>d \<in> set (map snd ps). packet_data d"
    and "length (rym_buf c) = RYM_STX_PKG_SZ" "end_tick (rym_dev c) < 2 ^ 32 - 100"
    and "accepts gb hdr (user c) u" "accepts_all gd (map snd ps) u v" "ps \<noteq> [] \<longrightarrow> fst (hd ps) \<noteq> 0"
  shows "\<exists>c'. rym_recv_body (Some (plain_callback gb)) (Some (plain_callback gd)) None (Suc tm) c = Some (c', RT_EOK) \<and>
    user c' = v \<and> rym_stage c' = RYM_STAGE_FINISHED \<and> tx (rym_dev c') = tx (rym_dev c) @ answers (length ps)"
proof -
  let ?b = "Some (plain_callback gb)" and ?d = "Some (plain_callback gd)"
  obtain c1 where c1: "rym_do_handshake ?b (Suc tm) c = Some (c1, RT_EOK)" "steady (rym_dev c1)"
    "stream (rym_dev c1) = numbered ps @ RYM_CODE_EOT # RYM_CODE_EOT # rym_packet 0 (replicate 128 0) @ rest"
    "length (rym_buf c1) = RYM_STX_PKG_SZ" "user c1 = u" "tx (rym_dev c1) = tx (rym_dev c) @ [RYM_CODE_C]"
    using handshake_packet [OF assms(1) _ assms(3,5,6,7), of "numbered ps @ RYM_CODE_EOT # RYM_CODE_EOT # rym_packet 0 (replicate 128 0) @ rest"]
      assms(2) unfolding transmitted_def by auto
  let ?c1 = "(rym_putchar RYM_CODE_C (rym_putchar RYM_CODE_ACK c1))\<lparr>rym_stage := RYM_STAGE_ESTABLISHED\<rparr>"
  obtain c2 where c2: "rym_trans_loop ?d ?c1 = Some (c2, RT_EOK)" "steady (rym_dev c2)"
    "stream (rym_dev c2) = RYM_CODE_EOT # rym_packet 0 (replicate 128 0) @ rest" "length (rym_buf c2) = RYM_STX_PKG_SZ"
    "user c2 = v" "tx (rym_dev c2) = tx (rym_dev ?c1) @ replicate (length ps) RYM_CODE_ACK"
    using trans_loop_numbered [of ?c1 ps "RYM_CODE_EOT # rym_packet 0 (replicate 128 0) @ rest" gd v] c1 assms(4,8,9) by auto
  obtain c3 where c3: "rym_do_fin ?b None c2 = Some (c3, RT_EOK)" "rym_stage c3 = RYM_STAGE_FINISHED" "user c3 = v"
    "tx (rym_dev c3) = tx (rym_dev c2) @ [RYM_CODE_NAK, RYM_CODE_ACK, RYM_CODE_C, RYM_CODE_ACK]"
    using fin_packets [OF c2(2-4), of ?b] c2(5) by auto
  have "rym_recv_body ?b ?d None (Suc tm) c = Some (c3, RT_EOK)"
    using c1(1) c2(1) c3(1,2) by (simp add: rym_recv_body_def rym_do_trans_def rym_sessions.simps [of ?b])
  then show ?thesis using c1(6) c2(6) c3 by (simp add: answers_def)
qed

lemma recv_body_transmission:
  assumes "steady (rym_dev c)" "stream (rym_dev c) = transmission hdr ds @ rest" "packet_data hdr" "\<forall>d \<in> set ds. packet_data d"
    and "length (rym_buf c) = RYM_STX_PKG_SZ" "end_tick (rym_dev c) < 2 ^ 32 - 100"
    and "accepts gb hdr (user c) u" "accepts_all gd ds u v"
  shows "\<exists>c'. rym_recv_body (Some (plain_callback gb)) (Some (plain_callback gd)) None (Suc tm) c = Some (c', RT_EOK) \<and>
    user c' = v \<and> rym_stage c' = RYM_STAGE_FINISHED \<and> tx (rym_dev c') = tx (rym_dev c) @ answers (length ds)"
  using recv_body_transmitted [OF assms(1) assms(2) [unfolded transmission_def] assms(3) _ assms(5-7), of gd v tm] assms(4,8)
    count_from_first [OF refl, of 1 ds] by simp

section \<open>The sender's side\<close>

lemma getchar_steady:
  "steady d \<Longrightarrow> stream d = b # bs \<Longrightarrow> \<exists>d'. uart_getchar d = Some (b, d') \<and> stream d' = bs \<and> follows d d'"
proof (induction d rule: uart_getchar.induct)
  case (1 d)
  show ?case
  proof (cases "rx d")
    case Nil
    obtain dt as es where a: "coming d = Arrive dt as # es"
      by (rule wait_steady [OF 1(2) _ Nil]) (use 1(3) in simp)
    let ?d = "d\<lparr>coming := es, now := now d + dt, rx := as\<rparr>"
    have w: "dev_wait_forever d = Some ?d" using a Nil by (simp add: dev_wait_forever_def)
    have f: "follows d ?d" by (rule follows_arrive [OF a])
    have "stream ?d = b # bs" "steady ?d" using 1(2,3) Nil a f by (simp_all add: stream_def follows_def)
    then obtain d' where "uart_getchar ?d = Some (b, d')" "stream d' = bs" "follows ?d d'"
      using 1(1) [OF Nil w] by blast
    then show ?thesis using follows_trans [OF f] w Nil by (subst uart_getchar.simps) auto
  next
    case (Cons a as)
    then show ?thesis using 1(3) by (subst uart_getchar.simps) (auto simp: dev_read_def stream_def)
  qed
qed

lemma expect_steady:
  "steady (rym_dev c) \<Longrightarrow> stream (rym_dev c) = as @ rest \<Longrightarrow>
   \<exists>d. rym_expect as c = Some (c\<lparr>rym_dev := d\<rparr>, RT_EOK) \<and> stream d = rest \<and> follows (rym_dev c) d"
proof (induction as arbitrary: c)
  case Nil
  then show ?case by (intro exI [of _ "rym_dev c"]) simp
next
  case (Cons a as)
  obtain d where d: "uart_getchar (rym_dev c) = Some (a, d)" "stream d = as @ rest" "follows (rym_dev c) d"
    using getchar_steady [OF Cons.prems(1)] Cons.prems(2) by auto
  have "steady d" using d(3) Cons.prems(1) by (simp add: follows_def)
  then obtain e where "rym_expect as (c\<lparr>rym_dev := d\<rparr>) = Some (c\<lparr>rym_dev := e\<rparr>, RT_EOK)" "stream e = rest" "follows d e"
    using Cons.IH [of "c\<lparr>rym_dev := d\<rparr>"] d(2) by auto
  then show ?case using d(1) follows_trans [OF d(3)] by (auto simp: rym_getchar_def)
qed

lemma send_packet_sends:
  assumes "length (rym_buf c) = RYM_STX_PKG_SZ" "take 128 (drop 3 (rym_buf c)) = d" "length d = 128"
  shows "rym_send_packet RYM_CODE_SOH i c =
    c\<lparr>rym_buf := rym_buf (rym_send_packet RYM_CODE_SOH i c), rym_dev := (rym_dev c)\<lparr>tx := tx (rym_dev c) @ rym_packet i d\<rparr>\<rparr>"
    "length (rym_buf (rym_send_packet RYM_CODE_SOH i c)) = RYM_STX_PKG_SZ"
proof -
  let ?crc = "CRC16 d 128"
  let ?b = "(rym_buf c)[0 := RYM_CODE_SOH, 1 := i, 2 := NOT i, 131 := byte_of 1 ?crc, 132 := byte_of 0 ?crc]"
  have n: "length (rym_buf c) = 1029" using assms(1) by (simp add: RYM_STX_PKG_SZ_def)
  have crc: "CRC16 (drop 3 (rym_buf c)) 128 = ?crc" using assms(2,3) by (simp add: CRC16_def)
  have "take 133 ?b = rym_packet i d"
  proof (rule nth_equalityI)
    show "length (take 133 ?b) = length (rym_packet i d)" using n assms(3) by (simp add: packet_length)
    fix k assume "k < length (take 133 ?b)"
    then have k: "k < 133" by simp
    have mid: "rym_buf c ! (3 + j) = d ! j" if "j < 128" for j using that assms(2) n by auto
    consider "k = 0" | "k = 1" | "k = 2" | "k = 131" | "k = 132" | j where "k = 3 + j" "j < 128"
    proof (cases "3 \<le> k \<and> k < 131")
      case True
      then have "k = 3 + (k - 3)" "k - 3 < 128" by linarith+
      then show ?thesis by (rule that(6))
    next
      case False
      then have "k = 0 \<or> k = 1 \<or> k = 2 \<or> k = 131 \<or> k = 132" using k by linarith
      then show ?thesis using that by blast
    qed
    then show "take 133 ?b ! k = rym_packet i d ! k"
    proof cases
      case (6 j)
      then show ?thesis using k n assms(3) mid [of j] by (simp add: rym_packet_def nth_append)
    qed (use n assms(3) in \<open>simp_all add: rym_packet_def nth_append numeral_2_eq_2\<close>)
  qed
  moreover have "rym_send_packet RYM_CODE_SOH i c =
      c\<lparr>rym_buf := ?b, rym_dev := (rym_dev c)\<lparr>tx := tx (rym_dev c) @ take 133 ?b\<rparr>\<rparr>"
    using crc by (simp add: rym_send_packet_def Let_def RYM_SOH_PKG_SZ_def)
  ultimately show "rym_send_packet RYM_CODE_SOH i c =
      c\<lparr>rym_buf := rym_buf (rym_send_packet RYM_CODE_SOH i c), rym_dev := (rym_dev c)\<lparr>tx := tx (rym_dev c) @ rym_packet i d\<rparr>\<rparr>"
    "length (rym_buf (rym_send_packet RYM_CODE_SOH i c)) = RYM_STX_PKG_SZ"
    using assms(1) by simp_all
qed

text \<open>A sender with a header and the blocks of a file, as the callbacks of a file sender.\<close>

definition source_begin :: "buf \<Rightarrow> 's rym_callback" where
  "source_begin hdr c n = Some (RYM_CODE_SOH, c\<lparr>rym_buf := overlay (rym_buf c) 3 hdr\<rparr>)"

definition source_data :: "buf list rym_callback" where
  "source_data c n =
     (case user c of
        [] \<Rightarrow> Some (RYM_CODE_EOT, c)
      | d # ds \<Rightarrow> Some (RYM_CODE_SOH, c\<lparr>user := ds, rym_buf := overlay (rym_buf c) 3 d,
          rym_stage := if ds = [] then RYM_STAGE_FINISHING else rym_stage c\<rparr>))"

lemma source_packet:
  assumes "length (rym_buf c) = RYM_STX_PKG_SZ" "length d = 128"
  defines "e \<equiv> c\<lparr>rym_buf := overlay (rym_buf c) 3 d\<rparr>"
  shows "\<exists>b. rym_send_packet RYM_CODE_SOH i e = c\<lparr>rym_buf := b, rym_dev := (rym_dev c)\<lparr>tx := tx (rym_dev c) @ rym_packet i d\<rparr>\<rparr> \<and>
    length b = RYM_STX_PKG_SZ"
proof -
  have n: "3 + length d \<le> length (rym_buf c)" using assms(1,2) by (simp add: RYM_STX_PKG_SZ_def)
  have "length (rym_buf e) = RYM_STX_PKG_SZ" using n assms(1) by (simp add: e_def)
  moreover have "take 128 (drop 3 (rym_buf e)) = d" using overlay_read [OF n] assms(2) by (simp add: e_def)
  ultimately show ?thesis
    using send_packet_sends [of e d i] assms(2) by (intro exI [of _ "rym_buf (rym_send_packet RYM_CODE_SOH i e)"]) (simp add: e_def)
qed

text \<open>The state after sending: what was sent, and how much of the answers has been read.\<close>

definition sends :: "'s rym_ctx \<Rightarrow> buf \<Rightarrow> buf \<Rightarrow> 's rym_ctx \<Rightarrow> bool" where
  "sends c as out c' \<longleftrightarrow> steady (rym_dev c') \<and> stream (rym_dev c) = as @ stream (rym_dev c') \<and>
     tx (rym_dev c') = tx (rym_dev c) @ out \<and> length (rym_buf c') = RYM_STX_PKG_SZ"

lemma packet_answered:
  assumes st: "steady (rym_dev c)" and str: "stream (rym_dev c) = as @ rest" and b: "length (rym_buf c) = RYM_STX_PKG_SZ" "length d = 128"
  shows "\<exists>c'. rym_expect as (rym_send_packet RYM_CODE_SOH i (c\<lparr>rym_buf := overlay (rym_buf c) 3 d\<rparr>)) = Some (c', RT_EOK) \<and>
    sends c as (rym_packet i d) c' \<and> stream (rym_dev c') = rest \<and> user c' = user c \<and> rym_stage c' = rym_stage c"
proof -
  obtain bf where bf: "rym_send_packet RYM_CODE_SOH i (c\<lparr>rym_buf := overlay (rym_buf c) 3 d\<rparr>) =
      c\<lparr>rym_buf := bf, rym_dev := (rym_dev c)\<lparr>tx := tx (rym_dev c) @ rym_packet i d\<rparr>\<rparr>" "length bf = RYM_STX_PKG_SZ"
    using source_packet [OF b] by blast
  let ?c = "c\<lparr>rym_buf := bf, rym_dev := (rym_dev c)\<lparr>tx := tx (rym_dev c) @ rym_packet i d\<rparr>\<rparr>"
  have "steady (rym_dev ?c)" "stream (rym_dev ?c) = as @ rest" using st str by (simp_all add: steady_def stream_def)
  from expect_steady [OF this] obtain e where "rym_expect as ?c = Some (?c\<lparr>rym_dev := e\<rparr>, RT_EOK)" "stream e = rest" "follows (rym_dev ?c) e"
    by blast
  moreover have "steady (rym_dev ?c)" by fact
  ultimately show ?thesis using bf str by (auto simp: sends_def follows_def)
qed

lemma send_loop_sends:
  assumes "steady (rym_dev c)" "stream (rym_dev c) = replicate (length ds) RYM_CODE_ACK @ rest" "length (rym_buf c) = RYM_STX_PKG_SZ"
    and "user c = ds" "ds \<noteq> []" "\<forall>d \<in> set ds. length d = 128" "rym_stage c \<noteq> RYM_STAGE_FINISHING"
  shows "\<exists>c'. rym_send_loop (Some source_data) i c = Some (c', RT_EOK) \<and>
    sends c (replicate (length ds) RYM_CODE_ACK) (packets (ucast i) ds) c'"
  using assms
proof (induction ds arbitrary: c i)
  case (Cons d ds)
  let ?c = "c\<lparr>user := ds, rym_stage := if ds = [] then RYM_STAGE_FINISHING else rym_stage c\<rparr>"
  have d: "length d = 128" using Cons.prems(6) by simp
  have "steady (rym_dev ?c)" "stream (rym_dev ?c) = [RYM_CODE_ACK] @ replicate (length ds) RYM_CODE_ACK @ rest"
    "length (rym_buf ?c) = RYM_STX_PKG_SZ" using Cons.prems(1-3) by simp_all
  from packet_answered [OF this d, of "ucast i"] obtain c1 where
    c1: "rym_expect [RYM_CODE_ACK] (rym_send_packet RYM_CODE_SOH (ucast i) (?c\<lparr>rym_buf := overlay (rym_buf ?c) 3 d\<rparr>)) = Some (c1, RT_EOK)"
    "sends ?c [RYM_CODE_ACK] (rym_packet (ucast i) d) c1" "stream (rym_dev c1) = replicate (length ds) RYM_CODE_ACK @ rest"
    "user c1 = ds" "rym_stage c1 = rym_stage ?c" by auto
  have f: "source_data c (RYM_SOH_PKG_SZ - 5) = Some (RYM_CODE_SOH, ?c\<lparr>rym_buf := overlay (rym_buf ?c) 3 d\<rparr>)"
    using Cons.prems(4) by (simp add: source_data_def)
  have step: "rym_send_loop (Some source_data) i c =
      (if ds = [] then Some (c1, RT_EOK) else rym_send_loop (Some source_data) (i + 1) c1)"
    using f c1(1,5) Cons.prems(7) by (subst rym_send_loop.simps) (simp del: rym_expect.simps)
  show ?case
  proof (cases "ds = []")
    case True
    then show ?thesis using step c1(2) by (simp add: sends_def)
  next
    case False
    have "steady (rym_dev c1)" "length (rym_buf c1) = RYM_STX_PKG_SZ" using c1(2) by (simp_all add: sends_def)
    then obtain c2 where "rym_send_loop (Some source_data) (i + 1) c1 = Some (c2, RT_EOK)"
      "sends c1 (replicate (length ds) RYM_CODE_ACK) (packets (ucast (i + 1)) ds) c2"
      using Cons.IH [OF _ c1(3) _ c1(4) False, of "i + 1"] Cons.prems(6,7) c1(5) False by auto
    moreover have "ucast (i + 1) = (ucast i + 1 :: u8)"
      by (simp add: word_unat_eq_iff unsigned_ucast_eq take_bit_eq_mod unat_word_ariths mod_mod_cancel mod_simps)
    ultimately show ?thesis using step False c1(2) by (auto simp: sends_def)
  qed
qed simp

lemma send_body_sends:
  assumes "steady (rym_dev c)" "stream (rym_dev c) = answers (length ds) @ rest" "length (rym_buf c) = RYM_STX_PKG_SZ"
    and "user c = ds" "ds \<noteq> []" "length hdr = 128" "\<forall>d \<in> set ds. length d = 128"
  shows "\<exists>c'. rym_send_body (Some (source_begin hdr)) (Some source_data) (Some (source_begin (replicate 128 0))) (Suc tm) c =
      Some (c', RT_EOK) \<and> tx (rym_dev c') = tx (rym_dev c) @ transmission hdr ds \<and> rym_stage c' = RYM_STAGE_FINISHED"
proof -
  let ?n = "length ds" and ?z = "replicate 128 (0 :: u8)"
  let ?b = "Some (source_begin hdr)" and ?e = "Some (source_begin ?z)"
  let ?c = "c\<lparr>rym_stage := RYM_STAGE_ESTABLISHING\<rparr>"
  let ?acks = "replicate ?n RYM_CODE_ACK" and ?tail = "[RYM_CODE_NAK] @ [RYM_CODE_ACK, RYM_CODE_C] @ RYM_CODE_ACK # rest"
  have s0: "steady (rym_dev ?c)" "stream (rym_dev ?c) = RYM_CODE_C # [RYM_CODE_ACK, RYM_CODE_C] @ ?acks @ ?tail"
    using assms(1,2) by (simp_all add: answers_def)
  obtain c1 where c1: "rym_read_code RYM_CHD_INTV_TICK ?c = (RYM_CODE_C, c1)" "receives ?c [RYM_CODE_C] c1"
    using read_code_steady [OF s0] by blast
  have r1: "steady (rym_dev c1)" "stream (rym_dev c1) = [RYM_CODE_ACK, RYM_CODE_C] @ ?acks @ ?tail"
    "length (rym_buf c1) = RYM_STX_PKG_SZ" "user c1 = ds" "tx (rym_dev c1) = tx (rym_dev c)" "rym_stage c1 = RYM_STAGE_ESTABLISHING"
    using receives_steady [OF c1(2) s0(1)] c1(2) s0(2) assms(3,4) by (simp_all add: receives_def follows_def)
  obtain c2 where c2: "rym_expect [RYM_CODE_ACK, RYM_CODE_C] (rym_send_packet RYM_CODE_SOH 0 (c1\<lparr>rym_buf := overlay (rym_buf c1) 3 hdr\<rparr>)) = Some (c2, RT_EOK)"
    "sends c1 [RYM_CODE_ACK, RYM_CODE_C] (rym_packet 0 hdr) c2" "stream (rym_dev c2) = ?acks @ ?tail" "user c2 = ds"
    "rym_stage c2 = RYM_STAGE_ESTABLISHING"
    using packet_answered [OF r1(1-3) assms(6), of 0] r1(4,6) by auto
  have h: "rym_do_send_handshake ?b (Suc tm) c = Some (c2\<lparr>rym_stage := RYM_STAGE_ESTABLISHED\<rparr>, RT_EOK)"
    using c1(1) c2(1) by (simp add: rym_do_send_handshake_def source_begin_def del: rym_expect.simps)
  let ?c2 = "c2\<lparr>rym_stage := RYM_STAGE_TRANSMITTING\<rparr>"
  obtain c3 where c3: "rym_send_loop (Some source_data) 1 ?c2 = Some (c3, RT_EOK)" "sends ?c2 ?acks (packets (ucast (1 :: u32)) ds) c3"
    using send_loop_sends [of ?c2 ds ?tail 1] c2 assms(5,7) by (auto simp: sends_def)
  let ?c3 = "rym_putchar RYM_CODE_EOT c3"
  have s3: "steady (rym_dev ?c3)" "stream (rym_dev ?c3) = [RYM_CODE_NAK] @ [RYM_CODE_ACK, RYM_CODE_C] @ RYM_CODE_ACK # rest"
    using c3(2) c2(3) by (simp_all add: sends_def)
  obtain d4 where d4: "rym_expect [RYM_CODE_NAK] ?c3 = Some (?c3\<lparr>rym_dev := d4\<rparr>, RT_EOK)"
    "stream d4 = [RYM_CODE_ACK, RYM_CODE_C] @ RYM_CODE_ACK # rest" "follows (rym_dev ?c3) d4"
    using expect_steady [OF s3] by blast
  let ?c4 = "rym_putchar RYM_CODE_EOT (?c3\<lparr>rym_dev := d4\<rparr>)"
  have s4: "steady (rym_dev ?c4)" "stream (rym_dev ?c4) = [RYM_CODE_ACK, RYM_CODE_C] @ RYM_CODE_ACK # rest"
    using d4(2,3) s3(1) by (simp_all add: follows_def)
  obtain d5 where d5: "rym_expect [RYM_CODE_ACK, RYM_CODE_C] ?c4 = Some (?c4\<lparr>rym_dev := d5\<rparr>, RT_EOK)" "follows (rym_dev ?c4) d5"
    using expect_steady [OF s4] by blast
  let ?c5 = "?c4\<lparr>rym_dev := d5\<rparr>"
  have l5: "length (rym_buf ?c5) = RYM_STX_PKG_SZ" using c3(2) by (simp add: sends_def)
  obtain bf where bf: "rym_send_packet RYM_CODE_SOH 0 (?c5\<lparr>rym_buf := overlay (rym_buf ?c5) 3 ?z\<rparr>) =
      ?c5\<lparr>rym_buf := bf, rym_dev := (rym_dev ?c5)\<lparr>tx := tx (rym_dev ?c5) @ rym_packet 0 ?z\<rparr>\<rparr>"
    using source_packet [OF l5, of ?z 0] by auto
  have f: "rym_do_send_fin ?e c3 =
      Some (?c5\<lparr>rym_buf := bf, rym_dev := (rym_dev ?c5)\<lparr>tx := tx (rym_dev ?c5) @ rym_packet 0 ?z\<rparr>, rym_stage := RYM_STAGE_FINISHED\<rparr>, RT_EOK)"
    using d4(1) d5(1) bf unfolding rym_do_send_fin_def source_begin_def by (simp del: rym_expect.simps)
  have "tx (rym_dev ?c5) = tx (rym_dev c3) @ [RYM_CODE_EOT, RYM_CODE_EOT]" using d4(3) d5(2) by (simp add: follows_def)
  moreover have "tx (rym_dev c3) = tx (rym_dev c) @ rym_packet 0 hdr @ packets 1 ds"
    using c2(2) c3(2) r1(5) by (simp add: sends_def)
  ultimately show ?thesis
    using h c3(1) f by (simp add: rym_send_body_def rym_do_send_trans_def transmission_def transmitted_def packets_def)
qed

section \<open>Both ends\<close>

text \<open>
  C18: the two ends of the protocol fit together: fed what a sender sends, in any pieces, the
  receiver hands the header and every block of the file to its callbacks in order, and fed the
  receiver's answers the sender sends exactly that; both report success, and both heaps
  have the blocks in use they had before.
\<close>

theorem ymodem_transfer:
  assumes "length hdr = 128" "ds \<noteq> []" "\<forall>d \<in> set ds. length d = 128"
    and "smem_live h W" "rt_malloc h (of_nat RYM_STX_PKG_SZ) = Some (h1, Some p)" "length junk = RYM_STX_PKG_SZ"
    and "steady (rym_dev c)" "stream (rym_dev c) = transmission hdr ds" "end_tick (rym_dev c) < 2 ^ 32 - 100"
    and "accepts on_begin hdr (user c) u" "accepts_all on_data ds u v"
    and "smem_live k V" "rt_malloc k (of_nat RYM_STX_PKG_SZ) = Some (k1, Some q)" "length dust = RYM_STX_PKG_SZ"
    and "steady (rym_dev s)" "stream (rym_dev s) = answers (length ds)" "user s = ds"
  shows "\<exists>h' c' k' s'.
    rym_do_recv (Some (plain_callback on_begin)) (Some (plain_callback on_data)) None (Suc tm) junk h c = Some (h', c', RT_EOK) \<and>
    user c' = v \<and> rym_stage c' = RYM_STAGE_FINISHED \<and> smem_live h' W \<and>
    rym_do_send (Some (source_begin hdr)) (Some source_data) (Some (source_begin (replicate 128 0))) (Suc tm) dust k s =
      Some (k', s', RT_EOK) \<and> smem_live k' V \<and>
    tx (rym_dev s') = tx (rym_dev s) @ stream (rym_dev c) \<and> tx (rym_dev c') = tx (rym_dev c) @ stream (rym_dev s)"
proof -
  let ?c = "c\<lparr>rym_stage := RYM_STAGE_NONE, rym_buf := junk\<rparr>" and ?s = "s\<lparr>rym_stage := RYM_STAGE_NONE, rym_buf := dust\<rparr>"
  have "packet_data hdr" "\<forall>d \<in> set ds. packet_data d" using assms(1,3) by (simp_all add: packet_data_def)
  with assms obtain c' where c': "rym_recv_body (Some (plain_callback on_begin)) (Some (plain_callback on_data)) None (Suc tm) ?c =
      Some (c', RT_EOK)" "user c' = v" "rym_stage c' = RYM_STAGE_FINISHED" "tx (rym_dev c') = tx (rym_dev c) @ answers (length ds)"
    using recv_body_transmission [of ?c hdr ds "[]" on_begin u on_data v tm] by auto
  obtain s' where s': "rym_send_body (Some (source_begin hdr)) (Some source_data) (Some (source_begin (replicate 128 0))) (Suc tm) ?s =
      Some (s', RT_EOK)" "tx (rym_dev s') = tx (rym_dev s) @ transmission hdr ds"
    using send_body_sends [of ?s ds "[]" hdr tm] assms by auto
  have "\<exists>h'. rym_do_recv (Some (plain_callback on_begin)) (Some (plain_callback on_data)) None (Suc tm) junk h c = Some (h', c', RT_EOK) \<and>
      smem_live h' W"
    unfolding rym_do_recv_def by (rule with_buf_allocated [OF assms(4,5)]) (rule c'(1))
  moreover have "\<exists>k'. rym_do_send (Some (source_begin hdr)) (Some source_data) (Some (source_begin (replicate 128 0))) (Suc tm) dust k s =
      Some (k', s', RT_EOK) \<and> smem_live k' V"
    unfolding rym_do_send_def by (rule with_buf_allocated [OF assms(12,13)]) (rule s'(1))
  ultimately show ?thesis using c'(2-4) s'(2) assms(8,16) by metis
qed

text \<open>A file of one block, the sender's bytes in two pieces; the receiver's file is a list.\<close>

theorem ymodem_transfer_witness:
  "\<exists>h' c' k' s'.
    rym_do_recv (Some (plain_callback (\<lambda>b n u. Some (RYM_CODE_ACK, [])))) (Some (plain_callback (\<lambda>b n u. Some (RYM_CODE_ACK, u @ take n b))))
      None 5 (replicate 1029 9) ym_heap
      \<lparr>rym_stage = RYM_STAGE_NONE, rym_buf = [],
       rym_dev = \<lparr>rx = [], coming = [Arrive 40 (take 70 (transmission (replicate 128 65) [replicate 128 66])),
         Arrive 3 (drop 70 (transmission (replicate 128 65) [replicate 128 66]))], now = 10, tx = []\<rparr>, user = []\<rparr> = Some (h', c', RT_EOK) \<and>
    user c' = replicate 128 66 \<and>
    rym_do_send (Some (source_begin (replicate 128 65))) (Some source_data) (Some (source_begin (replicate 128 0))) 5 (replicate 1029 8) ym_heap
      \<lparr>rym_stage = RYM_STAGE_NONE, rym_buf = [],
       rym_dev = \<lparr>rx = answers 1, coming = [], now = 0, tx = []\<rparr>, user = [replicate 128 66]\<rparr> = Some (k', s', RT_EOK) \<and>
    tx (rym_dev s') = transmission (replicate 128 65) [replicate 128 66]"
proof -
  let ?t = "transmission (replicate 128 65) [replicate 128 66]"
  obtain h1 p where "rt_malloc ym_heap (of_nat RYM_STX_PKG_SZ) = Some (h1, Some p)" using ym_heap(2) by blast
  then show ?thesis
    using ymodem_transfer [of "replicate 128 65" "[replicate 128 66]" ym_heap "{}" h1 p "replicate 1029 9"
        "\<lparr>rym_stage = RYM_STAGE_NONE, rym_buf = [], rym_dev = \<lparr>rx = [], coming = [Arrive 40 (take 70 ?t), Arrive 3 (drop 70 ?t)], now = 10, tx = []\<rparr>, user = []\<rparr>"
        "\<lambda>b n u. Some (RYM_CODE_ACK, [])" "[]" "\<lambda>b n u. Some (RYM_CODE_ACK, u @ take n b)" "replicate 128 66"
        ym_heap "{}" h1 p "replicate 1029 8"
        "\<lparr>rym_stage = RYM_STAGE_NONE, rym_buf = [], rym_dev = \<lparr>rx = answers 1, coming = [], now = 0, tx = []\<rparr>, user = [replicate 128 66]\<rparr>" 4]
      ym_heap(1)
    by (auto simp: RYM_STX_PKG_SZ_def steady_def stream_def end_tick_def accepts_def)
qed

end
