(* ===== verification/YmodemReturns.thy ===== *)
theory YmodemReturns
  imports Ymodem
begin

text \<open>
  The receiver of \<open>ymodem.c\<close> on any input: it comes back, whatever arrives or fails to, and
  leaves the heap as it found it.
\<close>

section \<open>Any input\<close>

text \<open>What reading leaves alone, how much input is left, and how the time goes.\<close>

fun events_left :: "rx_event list \<Rightarrow> nat" where
  "events_left [] = 0"
| "events_left (Arrive dt bs # es) = Suc (length bs + events_left es)"
| "events_left (Quiet # es) = Suc (events_left es)"

definition left :: "uart \<Rightarrow> nat" where
  "left d = length (rx d) + events_left (coming d)"

fun wait_ticks :: "rx_event list \<Rightarrow> nat" where
  "wait_ticks [] = 0"
| "wait_ticks (Arrive dt bs # es) = unat dt + wait_ticks es"
| "wait_ticks (Quiet # es) = 3000 + wait_ticks es"

definition horizon :: "uart \<Rightarrow> nat" where
  "horizon d = unat (now d) + wait_ticks (coming d)"

text \<open>\<open>passes k d d'\<close>: reading went on from \<open>d\<close> to \<open>d'\<close>, with \<open>k\<close> waits at most after the last event.\<close>

definition passes :: "nat \<Rightarrow> uart \<Rightarrow> uart \<Rightarrow> bool" where
  "passes k d d' \<longleftrightarrow> left d' \<le> left d \<and> tx d' = tx d \<and>
     (horizon d + 3000 * k < 2 ^ 32 \<longrightarrow> horizon d' \<le> horizon d + 3000 * k \<and> now d \<le> now d')"

lemma passes_refl [simp]: "passes k d d"
  by (simp add: passes_def)

lemma passes_trans: "passes j d e \<Longrightarrow> passes k e f \<Longrightarrow> passes (j + k) d f"
  unfolding passes_def by (auto simp: algebra_simps)

lemma passes_read: "passes 0 d (d\<lparr>rx := drop n (rx d)\<rparr>)"
  by (simp add: passes_def left_def horizon_def)

lemma wait_passes:
  assumes "dev_wait 3000 d = (b, d')"
  shows "passes (if b then 0 else 1) d d'" "b \<Longrightarrow> left d' < left d"
    "\<not> b \<Longrightarrow> horizon d + 3000 < 2 ^ 32 \<Longrightarrow> unat (now d') = unat (now d) + 3000"
proof -
  have n: "unat (now d + 3000) = unat (now d) + 3000" if "horizon d + 3000 < 2 ^ 32"
    using that by (simp add: horizon_def unat_word_ariths)
  have a: "unat (now d + dt) = unat (now d) + unat dt" if "horizon d < 2 ^ 32" "coming d = Arrive dt as # es" for dt as es
    using that by (simp add: horizon_def unat_word_ariths)
  show "passes (if b then 0 else 1) d d'"
    using assms n a by (auto simp: dev_wait_def passes_def left_def horizon_def word_le_nat_alt split: list.splits rx_event.splits)
  show "b \<Longrightarrow> left d' < left d"
    using assms by (auto simp: dev_wait_def left_def split: list.splits rx_event.splits)
  show "\<not> b \<Longrightarrow> horizon d + 3000 < 2 ^ 32 \<Longrightarrow> unat (now d') = unat (now d) + 3000"
    using assms n by (auto simp: dev_wait_def split: list.splits rx_event.splits)
qed

lemma wait_code_passes:
  "rym_wait_code 3000 d = (r, d') \<Longrightarrow> passes 1 d d' \<and> (r \<noteq> None \<longrightarrow> left d' < left d)"
proof (induction "3000 :: u32" d arbitrary: r d' rule: rym_wait_code.induct)
  case (1 d)
  obtain b e where w: "dev_wait 3000 d = (b, e)" by (rule prod.exhaust)
  note p = wait_passes [OF w]
  show ?case
  proof (cases b)
    case False
    then have "r = None" "d' = e" using 1(2) w by (simp_all add: rym_wait_code.simps)
    then show ?thesis using p(1) False by simp
  next
    case True
    then have e: "passes 0 d e" "left e < left d" using p by simp_all
    show ?thesis
    proof (cases "rx e")
      case Nil
      then have "rym_wait_code 3000 e = (r, d')" using 1(2) w True by (simp add: rym_wait_code.simps [of _ d])
      then have "passes 1 e d'" "r \<noteq> None \<longrightarrow> left d' < left e" using 1(1) [OF w [symmetric]] True Nil by auto
      then show ?thesis using passes_trans [OF e(1), of 1 d'] e(2) by auto
    next
      case (Cons a as)
      then have "r = Some a" "d' = e\<lparr>rx := drop 1 (rx e)\<rparr>" using 1(2) w True by (simp_all add: rym_wait_code.simps [of _ d] dev_read_def)
      then show ?thesis using passes_trans [OF e(1) passes_read [of e 1]] e(2) Cons
        by (auto simp: passes_def left_def horizon_def)
    qed
  qed
qed

text \<open>The same for sessions; the user's state, the stage and the buffer's length stay.\<close>

definition reads :: "nat \<Rightarrow> 's rym_ctx \<Rightarrow> 's rym_ctx \<Rightarrow> bool" where
  "reads k c c' \<longleftrightarrow> passes k (rym_dev c) (rym_dev c') \<and> user c' = user c \<and> rym_stage c' = rym_stage c \<and>
     length (rym_buf c') = length (rym_buf c)"

lemma read_code_reads:
  assumes "rym_read_code 3000 c = (code, c')"
  shows "reads 1 c c'" "code \<noteq> RYM_CODE_NONE \<Longrightarrow> left (rym_dev c') < left (rym_dev c)"
proof -
  have "reads 1 c c' \<and> (code \<noteq> RYM_CODE_NONE \<longrightarrow> left (rym_dev c') < left (rym_dev c))"
  proof (cases "rx (rym_dev c)")
    case Nil
    obtain r d where w: "rym_wait_code 3000 (rym_dev c) = (r, d)" by (rule prod.exhaust)
    show ?thesis using wait_code_passes [OF w] assms w Nil
      by (auto simp: rym_read_code_def reads_def split: option.splits)
  next
    case (Cons a as)
    then have "rym_dev c' = (rym_dev c)\<lparr>rx := drop 1 (rx (rym_dev c))\<rparr>" "user c' = user c" "rym_stage c' = rym_stage c"
      "length (rym_buf c') = length (rym_buf c)" using assms by (auto simp: rym_read_code_def dev_read_def)
    then show ?thesis using passes_read [of "rym_dev c" 1] Cons by (auto simp: reads_def passes_def left_def horizon_def)
  qed
  then show "reads 1 c c'" "code \<noteq> RYM_CODE_NONE \<Longrightarrow> left (rym_dev c') < left (rym_dev c)" by simp_all
qed

lemma read_loop_reads:
  "1 + len \<le> length (rym_buf c) \<Longrightarrow> k \<le> len \<Longrightarrow>
   \<exists>c' n. rym_read_loop len k c = Some (c', n) \<and> reads 1 c c' \<and> n \<le> len \<and>
     (n < len \<and> horizon (rym_dev c) + 3000 < 2 ^ 32 \<longrightarrow> unat (now (rym_dev c)) + 3000 \<le> unat (now (rym_dev c')))"
proof (induction len k c rule: rym_read_loop.induct)
  case (1 len k c)
  let ?d = "rym_dev c"
  let ?bs = "take (len - k) (rx ?d)" and ?e = "?d\<lparr>rx := drop (len - k) (rx ?d)\<rparr>"
  let ?c = "c\<lparr>rym_buf := overlay (rym_buf c) (1 + k) ?bs, rym_dev := ?e\<rparr>"
  have r: "dev_read (len - k) ?d = (?bs, ?e)" by (simp add: dev_read_def)
  have fit: "1 + k + length ?bs \<le> length (rym_buf c)" using 1(2,3) by (auto simp: min_def)
  then have w: "buf_write (rym_buf c) (1 + k) ?bs = Some (overlay (rym_buf c) (1 + k) ?bs)" by (simp add: buf_write_def)
  have p0: "passes 0 ?d ?e" by (rule passes_read)
  show ?case
  proof (cases "len \<le> k + length ?bs")
    case True
    then have "rym_read_loop len k c = Some (?c, len)" using r w 1(3) by (subst rym_read_loop.simps) (auto simp: Let_def)
    moreover have "reads 1 c ?c" using p0 fit by (auto simp: reads_def passes_def)
    ultimately show ?thesis by blast
  next
    case False
    obtain b f where dw: "dev_wait RYM_WAIT_CHR_TICK ?e = (b, f)" by (rule prod.exhaust)
    note pw = wait_passes [OF dw [unfolded RYM_WAIT_CHR_TICK_def]]
    show ?thesis
    proof (cases b)
      case b: False
      then have eq: "rym_read_loop len k c = Some (?c\<lparr>rym_dev := f\<rparr>, k + length ?bs)"
        using r w dw False by (subst rym_read_loop.simps) (simp add: Let_def)
      have "passes 1 ?d f" using passes_trans [OF p0, of 1 f] pw(1) b by simp
      then have "reads 1 c (?c\<lparr>rym_dev := f\<rparr>)" using fit by (simp add: reads_def)
      moreover have "unat (now f) = unat (now ?d) + 3000" if "horizon ?d + 3000 < 2 ^ 32"
        using pw(3) [OF b] that by (simp add: horizon_def)
      ultimately show ?thesis using eq False by auto
    next
      case True
      let ?g = "?c\<lparr>rym_dev := f\<rparr>"
      have step: "rym_read_loop len k c = rym_read_loop len (k + length ?bs) ?g"
        using r w dw False True by (subst rym_read_loop.simps) (auto simp: Let_def min_def)
      have "\<exists>c' n. rym_read_loop len (k + length ?bs) ?g = Some (c', n) \<and> reads 1 ?g c' \<and> n \<le> len \<and>
          (n < len \<and> horizon (rym_dev ?g) + 3000 < 2 ^ 32 \<longrightarrow> unat (now (rym_dev ?g)) + 3000 \<le> unat (now (rym_dev c')))"
        by (rule 1(1) [OF r [symmetric] refl w refl refl _ dw [symmetric]]) (use False True fit 1(2) in simp_all)
      then obtain c' n where c': "rym_read_loop len (k + length ?bs) ?g = Some (c', n)" "reads 1 ?g c'" "n \<le> len"
        "n < len \<and> horizon f + 3000 < 2 ^ 32 \<longrightarrow> unat (now f) + 3000 \<le> unat (now (rym_dev c'))" by auto
      have pf: "passes 0 ?d f" using passes_trans [OF p0, of 0 f] pw(1) True by simp
      then have "reads 1 c c'" using c'(2) passes_trans [OF pf, of 1 "rym_dev c'"] fit by (simp add: reads_def)
      moreover have "unat (now ?d) + 3000 \<le> unat (now (rym_dev c'))" if "n < len" "horizon ?d + 3000 < 2 ^ 32"
      proof -
        have "horizon f \<le> horizon ?d" "now ?d \<le> now f" using pf that(2) by (simp_all add: passes_def)
        then show ?thesis using c'(4) that by (simp add: word_le_nat_alt)
      qed
      ultimately show ?thesis using step c'(1,3) by auto
    qed
  qed
qed

lemma read_data_reads:
  assumes "1 + len \<le> length (rym_buf c)"
  obtains c' n where "rym_read_data len c = Some (c', n)" "reads 1 c c'" "n \<le> len"
    "n < len \<and> horizon (rym_dev c) + 3000 < 2 ^ 32 \<longrightarrow> unat (now (rym_dev c)) + 3000 \<le> unat (now (rym_dev c'))"
  using read_loop_reads [OF assms, of 0] unfolding rym_read_data_def by blast

text \<open>A callback that always answers and leaves the line and the size of the buffer alone.\<close>

definition answers_always :: "'s rym_callback option \<Rightarrow> bool" where
  "answers_always f \<longleftrightarrow> (case f of None \<Rightarrow> True | Some f \<Rightarrow>
     (\<forall>c n. length (rym_buf c) = RYM_STX_PKG_SZ \<longrightarrow>
        (\<exists>code c'. f c n = Some (code, c') \<and> rym_dev c' = rym_dev c \<and> length (rym_buf c') = RYM_STX_PKG_SZ)))"

abbreviation sized :: "'s rym_ctx \<Rightarrow> bool" where
  "sized c \<equiv> length (rym_buf c) = RYM_STX_PKG_SZ"

lemma left_putchar [simp]: "left (rym_dev (rym_putchar a c)) = left (rym_dev c)" "horizon (rym_dev (rym_putchar a c)) = horizon (rym_dev c)"
  by (simp_all add: left_def horizon_def)

lemma left_cans [simp]: "left (rym_dev ((rym_putchar a ^^ n) c)) = left (rym_dev c)" "rym_buf ((rym_putchar a ^^ n) c) = rym_buf c"
  "user ((rym_putchar a ^^ n) c) = user c"
  by (induction n) auto

lemma call_returns:
  assumes "answers_always (Some g)" "sized c"
  obtains code c' where "g c n = Some (code, c')" "rym_dev c' = rym_dev c" "sized c'"
proof -
  have "\<forall>c n. sized c \<longrightarrow> (\<exists>code c'. g c n = Some (code, c') \<and> rym_dev c' = rym_dev c \<and> sized c')"
    using assms(1) by (simp add: answers_always_def)
  from this [rule_format, of c n] show ?thesis using assms(2) that by blast
qed

lemma trans_data_returns:
  assumes "sized c" "answers_always f" "data_sz = 128 \<or> data_sz = 1024"
  obtains c' err code where "rym_trans_data f data_sz c = Some (c', err, code)" "sized c'" "left (rym_dev c') \<le> left (rym_dev c)"
proof -
  have "1 + (2 + data_sz + 2) \<le> length (rym_buf c)" using assms(1,3) by (auto simp: RYM_STX_PKG_SZ_def)
  then obtain c1 n where c1: "rym_read_data (2 + data_sz + 2) c = Some (c1, n)" "reads 1 c c1" by (rule read_data_reads)
  have s1: "sized c1" "left (rym_dev c1) \<le> left (rym_dev c)" using c1(2) assms(1) by (simp_all add: reads_def passes_def)
  let ?c = "c1\<lparr>rym_stage := RYM_STAGE_TRANSMITTING\<rparr>"
  have "\<exists>c' err code. rym_trans_data f data_sz c = Some (c', err, code) \<and> sized c' \<and> left (rym_dev c') \<le> left (rym_dev c)"
  proof (cases f)
    case None
    then show ?thesis using c1(1) s1 unfolding rym_trans_data_def Let_def by (auto simp del: add_2_eq_Suc add_2_eq_Suc')
  next
    case (Some g)
    have "\<forall>c n. sized c \<longrightarrow> (\<exists>code c'. g c n = Some (code, c') \<and> rym_dev c' = rym_dev c \<and> sized c')"
      using assms(2) Some by (simp add: answers_always_def)
    from this [rule_format, of ?c data_sz] have "\<exists>code c'. g ?c data_sz = Some (code, c') \<and> rym_dev c' = rym_dev ?c \<and> sized c'"
      using s1(1) by simp
    then obtain code c' where "g ?c data_sz = Some (code, c')" "rym_dev c' = rym_dev ?c" "sized c'" by blast
    then show ?thesis using c1(1) s1 Some unfolding rym_trans_data_def Let_def by (auto simp del: add_2_eq_Suc add_2_eq_Suc')
  qed
  then show ?thesis using that by blast
qed

lemma trans_loop_returns:
  "sized c \<Longrightarrow> answers_always f \<Longrightarrow>
   \<exists>c' err. rym_trans_loop f c = Some (c', err) \<and> sized c' \<and> left (rym_dev c') \<le> left (rym_dev c) \<and>
     (err = RT_EOK \<longrightarrow> left (rym_dev c') < left (rym_dev c))"
proof (induction "left (rym_dev c)" arbitrary: c rule: less_induct)
  case less
  obtain code c1 where c1: "rym_read_code RYM_WAIT_PKG_TICK c = (code, c1)" by (rule prod.exhaust)
  note r = read_code_reads [OF c1 [unfolded RYM_WAIT_PKG_TICK_def]]
  have s1: "sized c1" "left (rym_dev c1) \<le> left (rym_dev c)" using r(1) less.prems(1) by (simp_all add: reads_def passes_def)
  show ?case
  proof (cases "code = RYM_CODE_SOH \<or> code = RYM_CODE_STX")
    case False
    moreover have "RYM_CODE_EOT \<noteq> RYM_CODE_NONE" "RYM_ERR_CODE \<noteq> RT_EOK" by (simp_all add: rym_codes rym_errs)
    ultimately show ?thesis using c1 r(2) s1 by (subst rym_trans_loop.simps) (auto simp: rym_errs)
  next
    case True
    then have lt: "left (rym_dev c1) < left (rym_dev c)" using r(2) by (auto simp: rym_codes)
    have "(if code = RYM_CODE_SOH then 128 else 1024) = (128 :: nat) \<or> (if code = RYM_CODE_SOH then 128 else 1024) = (1024 :: nat)" by simp
    then obtain c2 err code2 where c2: "rym_trans_data f (if code = RYM_CODE_SOH then 128 else 1024) c1 = Some (c2, err, code2)"
      "sized c2" "left (rym_dev c2) \<le> left (rym_dev c1)" by (rule trans_data_returns [OF s1(1) less.prems(2)])
    let ?c = "if code2 = RYM_CODE_ACK then rym_putchar RYM_CODE_ACK c2 else c2"
    have IH: "\<exists>c' err. rym_trans_loop f ?c = Some (c', err) \<and> sized c' \<and> left (rym_dev c') \<le> left (rym_dev ?c) \<and>
        (err = RT_EOK \<longrightarrow> left (rym_dev c') < left (rym_dev ?c))"
      by (rule less.hyps) (use c2 lt less.prems(2) in \<open>auto split: if_splits\<close>)
    have le: "left (rym_dev ?c) = left (rym_dev c2)" "left (rym_dev c2) < left (rym_dev c)" using c2(3) lt by simp_all
    have step: "rym_trans_loop f c =
        (if err \<noteq> RT_EOK then Some (c2, err)
         else if code2 = RYM_CODE_CAN
              then Some ((rym_putchar RYM_CODE_CAN ^^ RYM_END_SESSION_SEND_CAN_NUM) c2, - RYM_ERR_CAN)
              else rym_trans_loop f ?c)"
      using c1 c2(1) True packet_codes by (subst rym_trans_loop.simps) auto
    consider "err \<noteq> RT_EOK" | "err = RT_EOK" "code2 = RYM_CODE_CAN" | "err = RT_EOK" "code2 \<noteq> RYM_CODE_CAN" by blast
    then show ?thesis
    proof cases
      case 1
      then show ?thesis using step c2(2) le by auto
    next
      case 2
      have "left (rym_dev ((rym_putchar RYM_CODE_CAN ^^ n) c2)) \<le> left (rym_dev c)" for n using le(2) by simp
      then show ?thesis using step 2 c2(2) le by (simp add: rym_errs)
    next
      case 3
      then show ?thesis using step IH le by fastforce
    qed
  qed
qed


lemma gather_returns:
  assumes "sized c" "1 + len \<le> RYM_STX_PKG_SZ" "horizon (rym_dev c) + 3005 < 2 ^ 32"
  obtains c' i where "rym_gather (now (rym_dev c)) len 0 c = Some (c', i)" "sized c'" "left (rym_dev c') \<le> left (rym_dev c)"
proof -
  let ?t = "now (rym_dev c)"
  have "1 + len \<le> length (rym_buf c)" using assms(1,2) by simp
  then obtain c1 n where c1: "rym_read_data len c = Some (c1, n)" "reads 1 c c1" "n \<le> len"
    "n < len \<and> horizon (rym_dev c) + 3000 < 2 ^ 32 \<longrightarrow> unat ?t + 3000 \<le> unat (now (rym_dev c1))" by (rule read_data_reads)
  let ?c = "rym_mdelay 5 c1"
  have s1: "sized ?c" "left (rym_dev ?c) \<le> left (rym_dev c)"
    using c1(2) assms(1) by (simp_all add: rym_mdelay_def reads_def passes_def left_def)
  have stop: "rym_gather ?t len n ?c = Some (?c, n)"
  proof (cases "n = len")
    case True
    then show ?thesis by (simp add: rym_gather.simps)
  next
    case False
    then have late: "unat ?t + 3000 \<le> unat (now (rym_dev c1))" using c1(3,4) assms(3) by simp
    have "horizon (rym_dev c1) \<le> horizon (rym_dev c) + 3000" using c1(2) assms(3) by (simp add: reads_def passes_def)
    then have "unat (now (rym_dev c1)) + 5 < 2 ^ 32" using assms(3) by (simp add: horizon_def)
    then have "unat (now (rym_dev ?c)) = unat (now (rym_dev c1)) + 5"
      by (simp add: rym_mdelay_def unat_word_ariths)
    moreover have "unat ?t + 100 < 2 ^ 32" using assms(3) by (simp add: horizon_def)
    then have "unat (?t + rt_tick_from_millisecond 100) = unat ?t + 100" by (simp add: unat_word_ariths)
    ultimately have "\<not> now (rym_dev ?c) \<le> ?t + rt_tick_from_millisecond 100" using late by (simp add: word_le_nat_alt)
    then show ?thesis by (simp add: rym_gather.simps)
  qed
  show thesis
  proof (cases "now (rym_dev c) \<le> ?t + rt_tick_from_millisecond 100 \<and> 0 < len")
    case True
    then have "rym_gather ?t len 0 c = Some (?c, n)" using c1(1) stop by (subst rym_gather.simps) simp
    then show ?thesis using that s1 by blast
  next
    case False
    then have "rym_gather ?t len 0 c = Some (c, 0)" by (subst rym_gather.simps) auto
    then show ?thesis using that assms(1) by blast
  qed
qed

lemma knock_returns:
  "rym_knock n c = (c', r) \<Longrightarrow> left (rym_dev c') \<le> left (rym_dev c) \<and> length (rym_buf c') = length (rym_buf c) \<and>
   (r = None \<or> r = Some RYM_SOH_PKG_SZ \<or> r = Some RYM_STX_PKG_SZ) \<and>
   (horizon (rym_dev c) + 3000 * n < 2 ^ 32 \<longrightarrow> horizon (rym_dev c') \<le> horizon (rym_dev c) + 3000 * n)"
proof (induction n arbitrary: c)
  case (Suc n)
  obtain code c1 where c1: "rym_read_code RYM_CHD_INTV_TICK (rym_putchar RYM_CODE_C c) = (code, c1)" by (rule prod.exhaust)
  have r: "reads 1 (rym_putchar RYM_CODE_C c) c1"
    using read_code_reads(1) [OF c1 [unfolded RYM_CHD_INTV_TICK_def]] .
  then have p: "left (rym_dev c1) \<le> left (rym_dev c)" "length (rym_buf c1) = length (rym_buf c)"
    "horizon (rym_dev c) + 3000 < 2 ^ 32 \<longrightarrow> horizon (rym_dev c1) \<le> horizon (rym_dev c) + 3000"
    by (auto simp: reads_def passes_def)
  show ?case
  proof (cases "code = RYM_CODE_SOH \<or> code = RYM_CODE_STX")
    case True
    then show ?thesis using Suc.prems c1 p by (auto split: if_splits)
  next
    case False
    then have "rym_knock n c1 = (c', r)" using Suc.prems c1 by simp
    note i = Suc.IH [OF this]
    have "horizon (rym_dev c') \<le> horizon (rym_dev c) + 3000 * Suc n" if "horizon (rym_dev c) + 3000 * Suc n < 2 ^ 32"
    proof -
      have "horizon (rym_dev c1) \<le> horizon (rym_dev c) + 3000" using p(3) that by simp
      then show ?thesis using i that by auto
    qed
    then show ?thesis using i p by auto
  qed
qed simp

lemma handshake_returns:
  assumes "sized c" "answers_always f" "horizon (rym_dev c) + 3000 * tm + 3005 < 2 ^ 32"
  obtains c' err where "rym_do_handshake f tm c = Some (c', err)" "sized c'" "left (rym_dev c') \<le> left (rym_dev c)"
proof -
  obtain c1 r where c1: "rym_knock tm (c\<lparr>rym_stage := RYM_STAGE_ESTABLISHING\<rparr>) = (c1, r)" by (rule prod.exhaust)
  have k: "left (rym_dev c1) \<le> left (rym_dev c)" "sized c1" "r = None \<or> r = Some RYM_SOH_PKG_SZ \<or> r = Some RYM_STX_PKG_SZ"
    "horizon (rym_dev c1) + 3005 < 2 ^ 32" using knock_returns [OF c1] assms(1,3) by auto
  have "\<exists>c' err. rym_do_handshake f tm c = Some (c', err) \<and> sized c' \<and> left (rym_dev c') \<le> left (rym_dev c)"
  proof (cases r)
    case None
    then show ?thesis using c1 k by (simp add: rym_do_handshake_def)
  next
    case (Some sz)
    then have "1 + (sz - 1) \<le> RYM_STX_PKG_SZ" using k(3) by (auto simp: RYM_STX_PKG_SZ_def RYM_SOH_PKG_SZ_def)
    then obtain c2 i where c2: "rym_gather (now (rym_dev c1)) (sz - 1) 0 c1 = Some (c2, i)" "sized c2" "left (rym_dev c2) \<le> left (rym_dev c1)"
      using gather_returns [OF k(2) _ k(4)] by blast
    show ?thesis
    proof (cases f)
      case None
      then show ?thesis using c1 c2 k(1) Some by (auto simp: rym_do_handshake_def)
    next
      case f: (Some g)
      obtain code c' where "g c2 (sz - 5) = Some (code, c')" "rym_dev c' = rym_dev c2" "sized c'"
        by (rule call_returns [OF assms(2) [unfolded f] c2(2)])
      then show ?thesis using c1 c2 k(1) Some f by (auto simp: rym_do_handshake_def)
    qed
  qed
  then show thesis using that by blast
qed

lemma fin_returns:
  assumes "sized c" "answers_always f" "answers_always e"
  obtains c' err where "rym_do_fin f e c = Some (c', err)" "sized c'" "left (rym_dev c') \<le> left (rym_dev c)"
proof -
  let ?c = "c\<lparr>rym_stage := RYM_STAGE_FINISHING\<rparr>"
  have "\<exists>c0. rym_call_end e ?c = Some c0 \<and> sized c0 \<and> rym_dev c0 = rym_dev c"
  proof (cases e)
    case None
    then show ?thesis using assms(1) by (simp add: rym_call_end_def)
  next
    case (Some g)
    obtain code c' where "g ?c 128 = Some (code, c')" "rym_dev c' = rym_dev ?c" "sized c'"
      by (rule call_returns [OF assms(3) [unfolded Some], of ?c]) (use assms(1) in simp)
    then show ?thesis using Some by (simp add: rym_call_end_def)
  qed
  then obtain c0 where c0: "rym_call_end e ?c = Some c0" "sized c0" "rym_dev c0 = rym_dev c" by blast
  obtain k1 c1 where c1: "rym_read_code RYM_WAIT_PKG_TICK (rym_putchar RYM_CODE_NAK c0) = (k1, c1)" by (rule prod.exhaust)
  obtain k2 c2 where c2: "rym_read_code RYM_WAIT_PKG_TICK (rym_putchar RYM_CODE_C (rym_putchar RYM_CODE_ACK c1)) = (k2, c2)"
    by (rule prod.exhaust)
  have s1: "sized c1" "left (rym_dev c1) \<le> left (rym_dev c)"
    using read_code_reads(1) [OF c1 [unfolded RYM_WAIT_PKG_TICK_def]] c0 by (auto simp: reads_def passes_def)
  have s2: "sized c2" "left (rym_dev c2) \<le> left (rym_dev c)"
    using read_code_reads(1) [OF c2 [unfolded RYM_WAIT_PKG_TICK_def]] s1 by (auto simp: reads_def passes_def)
  have "1 + (RYM_SOH_PKG_SZ - 1) \<le> length (rym_buf c2)" using s2(1) by (simp add: RYM_SOH_PKG_SZ_def RYM_STX_PKG_SZ_def)
  then obtain c3 i where c3: "rym_read_data (RYM_SOH_PKG_SZ - 1) c2 = Some (c3, i)" "reads 1 c2 c3" by (rule read_data_reads)
  have s3: "sized c3" "left (rym_dev c3) \<le> left (rym_dev c)" using c3(2) s2 by (simp_all add: reads_def passes_def)
  have "\<exists>c' err. rym_do_fin f e c = Some (c', err) \<and> sized c' \<and> left (rym_dev c') \<le> left (rym_dev c)"
  proof (cases f)
    case None
    then show ?thesis using c0 c1 c2 c3 s1 s2 s3 by (auto simp: rym_do_fin_def Let_def)
  next
    case (Some g)
    define sz where "sz = (if k2 = RYM_CODE_SOH then RYM_SOH_PKG_SZ else RYM_STX_PKG_SZ) - 5"
    obtain code c' where g: "g c3 sz = Some (code, c')" "rym_dev c' = rym_dev c3" "sized c'"
      by (rule call_returns [OF assms(2) [unfolded Some] s3(1)])
    have "rym_do_fin f e c =
        (if k1 \<noteq> RYM_CODE_EOT then Some (c1, - RYM_ERR_CODE)
         else if k2 \<noteq> RYM_CODE_SOH \<and> k2 \<noteq> RYM_CODE_STX then Some (c2, - RYM_ERR_CODE)
         else if i \<noteq> RYM_SOH_PKG_SZ - 1 then Some (c3, - RYM_ERR_DSZ)
         else if rym_buf c3 ! 1 \<noteq> 0 \<or> rym_buf c3 ! 2 \<noteq> 0xFF then Some (c3, - RYM_ERR_SEQ)
         else if rym_received_crc c3 (RYM_SOH_PKG_SZ - 2) \<noteq> CRC16 (drop 3 (rym_buf c3)) (RYM_SOH_PKG_SZ - 5)
         then Some (c3, - RYM_ERR_CRC)
         else if rym_buf c3 ! 3 \<noteq> 0 then map_option (\<lambda>(code, c). (c, if code \<noteq> RYM_CODE_ACK then - RYM_ERR_CAN else RT_EOK)) (g c3 sz)
         else Some (rym_putchar RYM_CODE_ACK (c3\<lparr>rym_stage := RYM_STAGE_FINISHED\<rparr>), RT_EOK))"
      unfolding rym_do_fin_def Let_def sz_def using c0(1) c1 c2 c3(1) Some by (simp only: Option.bind.simps prod.case option.case)
    then show ?thesis using g s1 s2 s3 by simp
  qed
  then show thesis using that by blast
qed

lemma sessions_return:
  "sized c \<Longrightarrow> answers_always f \<Longrightarrow> answers_always g \<Longrightarrow> answers_always e \<Longrightarrow> \<exists>c' err. rym_sessions f g e c = Some (c', err)"
proof (induction "left (rym_dev c)" arbitrary: c rule: less_induct)
  case less
  let ?c = "(rym_putchar RYM_CODE_C (rym_putchar RYM_CODE_ACK c))\<lparr>rym_stage := RYM_STAGE_ESTABLISHED\<rparr>"
  have "left (rym_dev ?c) = left (rym_dev c)" "sized ?c" using less.prems(1) by simp_all
  then obtain c1 err where c1: "rym_do_trans g c = Some (c1, err)" "sized c1" "err = RT_EOK \<longrightarrow> left (rym_dev c1) < left (rym_dev c)"
    using trans_loop_returns [of ?c g] less.prems(3) by (auto simp: rym_do_trans_def)
  show ?case
  proof (cases "err = RT_EOK")
    case False
    then show ?thesis using c1(1) by (subst rym_sessions.simps) simp
  next
    case True
    obtain c2 err2 where c2: "rym_do_fin f e c1 = Some (c2, err2)" "sized c2" "left (rym_dev c2) \<le> left (rym_dev c1)"
      by (rule fin_returns [OF c1(2) less.prems(2,4)])
    have "\<exists>c' err. rym_sessions f g e c2 = Some (c', err)" by (rule less.hyps) (use c1(3) c2 True less.prems in auto)
    then show ?thesis using c1(1) c2(1) True by (subst rym_sessions.simps) auto
  qed
qed

lemma recv_body_returns:
  assumes "sized c" "answers_always f" "answers_always g" "answers_always e" "horizon (rym_dev c) + 3000 * tm + 3005 < 2 ^ 32"
  shows "\<exists>c' err. rym_recv_body f g e tm c = Some (c', err)"
proof -
  obtain c1 err where "rym_do_handshake f tm c = Some (c1, err)" "sized c1" by (rule handshake_returns [OF assms(1,2,5)])
  then show ?thesis using sessions_return [of c1 f g e] assms(2-4) by (simp add: rym_recv_body_def)
qed

text \<open>
  C19: the receiver always returns: whatever bytes arrive, in whatever pieces and with whatever
  pauses, if the callbacks answer and the tick does not wrap meanwhile, \<open>rym_do_recv\<close> comes
  back with a result, and the heap has the same blocks in use as before the call.
\<close>

theorem ymodem_receive_returns:
  assumes "smem_live h W" "length junk = RYM_STX_PKG_SZ" "answers_always on_begin" "answers_always on_data" "answers_always on_end"
    and "horizon (rym_dev c) + 3000 * tm + 3005 < 2 ^ 32"
  shows "\<exists>h' c' err. rym_do_recv on_begin on_data on_end tm junk h c = Some (h', c', err) \<and> smem_live h' W"
proof -
  obtain c' err where r: "rym_recv_body on_begin on_data on_end tm (c\<lparr>rym_stage := RYM_STAGE_NONE, rym_buf := junk\<rparr>) = Some (c', err)"
    using recv_body_returns [of "c\<lparr>rym_stage := RYM_STAGE_NONE, rym_buf := junk\<rparr>" on_begin on_data on_end tm] assms(2-6) by auto
  have "\<exists>h'. rym_do_recv on_begin on_data on_end tm junk h c = Some (h', c', err) \<or>
      rym_do_recv on_begin on_data on_end tm junk h c = Some (h', c\<lparr>rym_stage := RYM_STAGE_NONE\<rparr>, - RT_ENOMEM)"
    unfolding rym_do_recv_def by (rule with_buf_runs [OF assms(1)]) (rule r)
  then show ?thesis using with_buf_live(1) [OF assms(1)] unfolding rym_do_recv_def by blast
qed

theorem ymodem_receive_returns_witness:
  "\<exists>h' c' err. rym_do_recv (Some (\<lambda>c n. Some (RYM_CODE_ACK, c))) None None 60 (replicate 1029 7) ym_heap
      \<lparr>rym_stage = RYM_STAGE_NONE, rym_buf = [],
       rym_dev = \<lparr>rx = [1, 0], coming = [Arrive 5 [255, 65], Quiet, Arrive 7 []], now = 10, tx = []\<rparr>, user = ()\<rparr> = Some (h', c', err) \<and>
    smem_live h' {}"
  by (rule ymodem_receive_returns [OF ym_heap(1)]) (simp_all add: answers_always_def horizon_def RYM_STX_PKG_SZ_def)

end
