(* ===== verification/YmodemClient.thy ===== *)
theory YmodemClient
  imports YmodemReturns
begin

text \<open>
  What a receiver of \<open>ymodem.c\<close> does to the state of its user: nothing but what the callbacks do.
  The contract between the receiver and its callbacks is a locale; a relation that every
  callback respects, whatever data it is given, relates the states before and after a call.
\<close>

text \<open>What a session keeps between two moments while it reads.\<close>

lemma reads_user: "reads k c c' \<Longrightarrow> user c' = user c \<and> length (rym_buf c') = length (rym_buf c)"
  by (simp add: reads_def)

lemma read_code_user: "rym_read_code 3000 c = (code, c') \<Longrightarrow> user c' = user c \<and> length (rym_buf c') = length (rym_buf c)"
  using read_code_reads(1) reads_user by blast

lemma read_data_user:
  assumes "rym_read_data len c = Some (c', n)" "1 + len \<le> length (rym_buf c)"
  shows "user c' = user c \<and> length (rym_buf c') = length (rym_buf c)"
proof -
  obtain c1 k where "rym_read_data len c = Some (c1, k)" "reads 1 c c1" by (rule read_data_reads [OF assms(2)])
  then show ?thesis using assms(1) reads_user by auto
qed

lemma knock_user: "rym_knock n c = (c', r) \<Longrightarrow> user c' = user c"
proof (induction n arbitrary: c)
  case (Suc n)
  obtain code c1 where c1: "rym_read_code RYM_CHD_INTV_TICK (rym_putchar RYM_CODE_C c) = (code, c1)" by (rule prod.exhaust)
  have "user c1 = user c" using read_code_user [OF c1 [unfolded RYM_CHD_INTV_TICK_def]] by simp
  then show ?case using Suc c1 by (auto split: if_splits)
qed simp

lemma gather_user:
  "rym_gather tick len i c = Some y \<Longrightarrow> 1 + len \<le> length (rym_buf c) \<longrightarrow>
   user (fst y) = user c \<and> length (rym_buf (fst y)) = length (rym_buf c)"
proof (induction rule: rym_gather.raw_induct [rotated, consumes 1])
  case (1 g tick len i c y)
  show ?case
  proof (intro impI)
    assume l: "1 + len \<le> length (rym_buf c)"
    show "user (fst y) = user c \<and> length (rym_buf (fst y)) = length (rym_buf c)"
    proof (cases "now (rym_dev c) \<le> tick + rt_tick_from_millisecond 100 \<and> i < len")
      case False
      then show ?thesis using 1(2) by (auto split: if_splits)
    next
      case True
      then obtain c1 n where c1: "rym_read_data len c = Some (c1, n)" "g tick len (i + n) (rym_mdelay 5 c1) = Some y"
        using 1(2) by (auto simp: bind_eq_Some_conv)
      have "user c1 = user c \<and> length (rym_buf c1) = length (rym_buf c)" by (rule read_data_user [OF c1(1) l])
      then show ?thesis using 1(1) [OF c1(2)] l by simp
    qed
  qed
qed

section \<open>The contract\<close>

definition callback_keeps :: "('s \<Rightarrow> 's \<Rightarrow> bool) \<Rightarrow> 's rym_callback option \<Rightarrow> bool" where
  "callback_keeps R f \<longleftrightarrow> (\<forall>g c n code c'. f = Some g \<and> sized c \<and> (n = 128 \<or> n = 1024) \<and> g c n = Some (code, c') \<longrightarrow>
     R (user c) (user c') \<and> sized c')"

lemma plain_keeps:
  assumes "\<And>b n u code v. length b = 1026 \<Longrightarrow> n = 128 \<or> n = 1024 \<Longrightarrow> g b n u = Some (code, v) \<Longrightarrow> R u v"
  shows "callback_keeps R (Some (plain_callback g))"
  unfolding callback_keeps_def
proof (intro allI impI)
  fix f c n code c'
  assume a: "Some (plain_callback g) = Some f \<and> sized c \<and> (n = 128 \<or> n = 1024) \<and> f c n = Some (code, c')"
  then obtain v where v: "g (drop 3 (rym_buf c)) n (user c) = Some (code, v)" "c' = c\<lparr>user := v\<rparr>"
    by (auto simp: plain_callback_def)
  have "length (drop 3 (rym_buf c)) = 1026" using a by (simp add: RYM_STX_PKG_SZ_def)
  from assms [OF this _ v(1)] a v(2) show "R (user c) (user c') \<and> sized c'" by simp
qed

locale rym_client =
  fixes R :: "'s \<Rightarrow> 's \<Rightarrow> bool" and on_begin on_data on_end :: "'s rym_callback option"
  assumes refl: "R u u"
    and trans: "R u v \<Longrightarrow> R v w \<Longrightarrow> R u w"
    and callbacks: "callback_keeps R on_begin" "callback_keeps R on_data" "callback_keeps R on_end"
begin

definition kept :: "'s rym_ctx \<Rightarrow> 's rym_ctx \<Rightarrow> bool" where
  "kept c c' \<longleftrightarrow> (sized c \<longrightarrow> sized c' \<and> R (user c) (user c'))"

lemma kept_trans: "kept c d \<Longrightarrow> kept d e \<Longrightarrow> kept c e"
  unfolding kept_def using trans by blast

lemma kept_same: "user c' = user c \<Longrightarrow> length (rym_buf c') = length (rym_buf c) \<Longrightarrow> kept c c'"
  unfolding kept_def using refl by simp

lemma call_keeps: "callback_keeps R (Some g) \<Longrightarrow> n = 128 \<or> n = 1024 \<Longrightarrow> g c n = Some (code, c') \<Longrightarrow> kept c c'"
  unfolding kept_def callback_keeps_def by blast

lemma trans_data_keeps:
  assumes "rym_trans_data on_data n c = Some (c', err, code)" "n = 128 \<or> n = 1024"
  shows "kept c c'"
proof (cases "sized c")
  case True
  obtain c1 i where c1: "rym_read_data (2 + n + 2) c = Some (c1, i)"
    using assms(1) unfolding rym_trans_data_def Let_def by (auto simp: bind_eq_Some_conv simp del: add_2_eq_Suc add_2_eq_Suc')
  have "1 + (2 + n + 2) \<le> length (rym_buf c)" using True assms(2) by (auto simp: RYM_STX_PKG_SZ_def)
  then have k1: "kept c (c1\<lparr>rym_stage := s\<rparr>)" "kept c c1" for s
    using read_data_user [OF c1] kept_same [of "c1\<lparr>rym_stage := s\<rparr>" c] kept_same [of c1 c] by simp_all
  let ?c = "c1\<lparr>rym_stage := RYM_STAGE_TRANSMITTING\<rparr>"
  consider "c' = c1" | "c' = ?c" | g where "on_data = Some g" "g ?c n = Some (code, c')"
    using assms(1) c1 unfolding rym_trans_data_def Let_def
    by (auto simp: bind_eq_Some_conv split: if_splits option.splits simp del: add_2_eq_Suc add_2_eq_Suc')
  then show ?thesis
  proof cases
    case 3
    then show ?thesis using kept_trans [OF k1(1)] call_keeps [OF _ assms(2)] callbacks(2) by metis
  qed (use k1 in simp_all)
qed (simp add: kept_def)

lemma trans_loop_keeps: "rym_trans_loop f c = Some y \<Longrightarrow> f = on_data \<longrightarrow> kept c (fst y)"
proof (induction rule: rym_trans_loop.raw_induct [rotated, consumes 1])
  case (1 g f c y)
  show ?case
  proof
    assume f: "f = on_data"
    obtain code c1 where c1: "rym_read_code RYM_WAIT_PKG_TICK c = (code, c1)" by (rule prod.exhaust)
    have k1: "kept c c1" using read_code_user [OF c1 [unfolded RYM_WAIT_PKG_TICK_def]] kept_same by simp
    let ?n = "if code = RYM_CODE_SOH then 128 else 1024"
    show "kept c (fst y)"
    proof (cases "rym_trans_data f ?n c1")
      case None
      then show ?thesis using 1(2) c1 k1 by (auto simp: Let_def split: if_splits)
    next
      case (Some r)
      then obtain c2 e code2 where c2: "rym_trans_data f ?n c1 = Some (c2, e, code2)" by (cases r) auto
      have "kept c1 c2" by (rule trans_data_keeps [OF c2 [unfolded f]]) simp
      then have k2: "kept c c2" by (rule kept_trans [OF k1])
      let ?can = "(rym_putchar RYM_CODE_CAN ^^ RYM_END_SESSION_SEND_CAN_NUM) c2"
      have kc: "kept c2 ?can" "kept c2 (rym_putchar RYM_CODE_ACK c2)" by (rule kept_same; simp)+
      consider "fst y = c1" | "fst y = c2" | "fst y = ?can" | "g f (rym_putchar RYM_CODE_ACK c2) = Some y" | "g f c2 = Some y"
        using 1(2) c1 c2 by (auto simp: Let_def split: if_splits)
      then show ?thesis
      proof cases
        case 4
        then show ?thesis using 1(1) [OF 4] f kept_trans [OF kept_trans [OF k2 kc(2)]] by blast
      next
        case 5
        then show ?thesis using 1(1) [OF 5] f kept_trans [OF k2] by blast
      qed (use k1 k2 kept_trans [OF k2 kc(1)] in simp_all)
    qed
  qed
qed

lemma fin_keeps:
  assumes "rym_do_fin on_begin on_end c = Some (c', err)"
  shows "kept c c'"
proof (cases "sized c")
  case True
  let ?c = "c\<lparr>rym_stage := RYM_STAGE_FINISHING\<rparr>"
  have s: "kept c ?c" by (rule kept_same) simp_all
  obtain c0 where c0: "rym_call_end on_end ?c = Some c0" using assms by (auto simp: rym_do_fin_def bind_eq_Some_conv)
  have "kept ?c c0"
  proof (cases on_end)
    case None
    then show ?thesis using c0 kept_same by (simp add: rym_call_end_def)
  next
    case (Some g)
    then obtain code where g: "g ?c 128 = Some (code, c0)" using c0 by (auto simp: rym_call_end_def)
    show ?thesis by (rule call_keeps [OF callbacks(3) [unfolded Some] _ g]) simp
  qed
  then have k0: "kept c c0" by (rule kept_trans [OF s])
  obtain k1 c1 where c1: "rym_read_code RYM_WAIT_PKG_TICK (rym_putchar RYM_CODE_NAK c0) = (k1, c1)" by (rule prod.exhaust)
  obtain k2 c2 where c2: "rym_read_code RYM_WAIT_PKG_TICK (rym_putchar RYM_CODE_C (rym_putchar RYM_CODE_ACK c1)) = (k2, c2)"
    by (rule prod.exhaust)
  have "kept c0 c1" "kept c1 c2"
    using read_code_user [OF c1 [unfolded RYM_WAIT_PKG_TICK_def]] read_code_user [OF c2 [unfolded RYM_WAIT_PKG_TICK_def]]
    by (auto intro: kept_same)
  then have k12: "kept c c1" "kept c c2" using k0 kept_trans by blast+
  show ?thesis
  proof (cases "k1 = RYM_CODE_EOT \<and> (k2 = RYM_CODE_SOH \<or> k2 = RYM_CODE_STX)")
    case False
    then have "c' = c1 \<or> c' = c2" using assms c0 c1 c2 by (cases "k1 = RYM_CODE_EOT") (auto simp: rym_do_fin_def)
    then show ?thesis using k12 by blast
  next
    case k: True
    obtain c3 i where c3: "rym_read_data (RYM_SOH_PKG_SZ - 1) c2 = Some (c3, i)"
      using assms c0 c1 c2 k by (auto simp: rym_do_fin_def Let_def bind_eq_Some_conv)
    have "sized c2" using k12(2) True by (simp add: kept_def)
    then have "1 + (RYM_SOH_PKG_SZ - 1) \<le> length (rym_buf c2)" by (simp add: RYM_SOH_PKG_SZ_def RYM_STX_PKG_SZ_def)
    from read_data_user [OF c3 this] have "kept c2 c3" by (intro kept_same) auto
    then have k3: "kept c c3" by (rule kept_trans [OF k12(2)])
    let ?fin = "rym_putchar RYM_CODE_ACK (c3\<lparr>rym_stage := RYM_STAGE_FINISHED\<rparr>)"
    have kf: "kept c3 ?fin" by (rule kept_same) simp_all
    let ?n = "(if k2 = RYM_CODE_SOH then RYM_SOH_PKG_SZ else RYM_STX_PKG_SZ) - 5"
    consider "c' = c3" | "c' = ?fin" | g code where "on_begin = Some g" "g c3 ?n = Some (code, c')"
      using assms c0 c1 c2 c3 k by (auto simp: rym_do_fin_def Let_def split: if_splits option.splits)
    then show ?thesis
    proof cases
      case 3
      have "kept c3 c'" by (rule call_keeps [OF callbacks(1) [unfolded 3(1)] _ 3(2)]) (simp add: RYM_SOH_PKG_SZ_def RYM_STX_PKG_SZ_def)
      then show ?thesis by (rule kept_trans [OF k3])
    qed (use k3 kept_trans [OF k3 kf] in simp_all)
  qed
qed (simp add: kept_def)

lemma sessions_keep: "rym_sessions b d e c = Some y \<Longrightarrow> b = on_begin \<and> d = on_data \<and> e = on_end \<longrightarrow> kept c (fst y)"
proof (induction rule: rym_sessions.raw_induct [rotated, consumes 1])
  case (1 g b d e c y)
  show ?case
  proof
    assume f: "b = on_begin \<and> d = on_data \<and> e = on_end"
    obtain c1 err where c1: "rym_do_trans d c = Some (c1, err)" using 1(2) by (auto simp: bind_eq_Some_conv)
    let ?c = "(rym_putchar RYM_CODE_C (rym_putchar RYM_CODE_ACK c))\<lparr>rym_stage := RYM_STAGE_ESTABLISHED\<rparr>"
    have "kept c ?c" by (rule kept_same) simp_all
    then have k1: "kept c c1" using c1 trans_loop_keeps [of d ?c] f kept_trans by (fastforce simp: rym_do_trans_def)
    show "kept c (fst y)"
    proof (cases "err = RT_EOK")
      case False
      then show ?thesis using 1(2) c1 k1 by auto
    next
      case True
      then obtain c2 err2 where c2: "rym_do_fin b e c1 = Some (c2, err2)" using 1(2) c1 by (auto simp: bind_eq_Some_conv)
      have k2: "kept c c2" using kept_trans [OF k1 fin_keeps] c2 f by blast
      consider "fst y = c2" | "g b d e c2 = Some y" using 1(2) c1 c2 True by (auto split: if_splits)
      then show ?thesis using 1(1) [of b d e c2 y] f k2 kept_trans [OF k2] by cases blast+
    qed
  qed
qed

lemma handshake_keeps:
  assumes "rym_do_handshake on_begin tm c = Some (c', err)"
  shows "kept c c'"
proof (cases "sized c")
  case True
  obtain c1 r where c1: "rym_knock tm (c\<lparr>rym_stage := RYM_STAGE_ESTABLISHING\<rparr>) = (c1, r)" by (rule prod.exhaust)
  have k: "length (rym_buf c1) = length (rym_buf c)" "r = None \<or> r = Some RYM_SOH_PKG_SZ \<or> r = Some RYM_STX_PKG_SZ"
    using knock_returns [OF c1] by auto
  have k1: "kept c c1" using knock_user [OF c1] k(1) by (auto intro: kept_same)
  show ?thesis
  proof (cases r)
    case None
    then show ?thesis using assms c1 k1 by (simp add: rym_do_handshake_def)
  next
    case (Some sz)
    then obtain c2 i where c2: "rym_gather (now (rym_dev c1)) (sz - 1) 0 c1 = Some (c2, i)"
      using assms c1 by (auto simp: rym_do_handshake_def bind_eq_Some_conv)
    have "1 + (sz - 1) \<le> length (rym_buf c1)"
      using k Some True by (auto simp: RYM_STX_PKG_SZ_def RYM_SOH_PKG_SZ_def)
    then have "kept c1 c2" using gather_user [OF c2] by (auto intro: kept_same)
    then have k2: "kept c c2" by (rule kept_trans [OF k1])
    consider "c' = c2" | g code where "on_begin = Some g" "g c2 (sz - 5) = Some (code, c')"
      using assms c1 c2 Some by (auto simp: rym_do_handshake_def split: if_splits option.splits)
    then show ?thesis
    proof cases
      case 2
      have "kept c2 c'"
        by (rule call_keeps [OF callbacks(1) [unfolded 2(1)] _ 2(2)]) (use k(2) Some in \<open>auto simp: RYM_STX_PKG_SZ_def RYM_SOH_PKG_SZ_def\<close>)
      then show ?thesis by (rule kept_trans [OF k2])
    qed (use k2 in simp)
  qed
qed (simp add: kept_def)

lemma recv_body_keeps:
  assumes "rym_recv_body on_begin on_data on_end tm c = Some (c', err)" "sized c"
  shows "R (user c) (user c')"
proof -
  obtain c1 e where c1: "rym_do_handshake on_begin tm c = Some (c1, e)" using assms(1) by (auto simp: rym_recv_body_def bind_eq_Some_conv)
  note k = handshake_keeps [OF c1]
  consider "c' = c1" | "rym_sessions on_begin on_data on_end c1 = Some (c', err)"
    using assms(1) c1 by (auto simp: rym_recv_body_def split: if_splits)
  then have "kept c c'" using k kept_trans [OF k] sessions_keep [of on_begin on_data on_end c1 "(c', err)"] by cases auto
  then show ?thesis using assms(2) by (simp add: kept_def)
qed

text \<open>Whatever arrives, and however the call ends.\<close>

lemma do_recv_keeps:
  assumes "rym_do_recv on_begin on_data on_end tm junk h c = Some (h', c', err)" "length junk = RYM_STX_PKG_SZ"
  shows "R (user c) (user c')"
proof -
  consider "c' = c\<lparr>rym_stage := RYM_STAGE_NONE\<rparr>"
    | "rym_recv_body on_begin on_data on_end tm (c\<lparr>rym_stage := RYM_STAGE_NONE, rym_buf := junk\<rparr>) = Some (c', err)"
    using assms(1) by (auto simp: rym_do_recv_def rym_with_buf_def bind_eq_Some_conv split: option.splits)
  then show ?thesis
  proof cases
    case 1
    then show ?thesis using refl by simp
  next
    case 2
    from recv_body_keeps [OF this] assms(2) show ?thesis by simp
  qed
qed

end

end
