(* ===== verification/YmodemOta.thy ===== *)
theory YmodemOta
  imports YmodemTransfer YmodemClient
begin

text \<open>
  Firmware over YMODEM, \<open>packages/ota_downloader-v1.0.0/src/ymodem_ota.c\<close>: the callbacks that take
  the size from the header packet, erase that much of the download partition and write the
  data packets to it. The statics of the file are a record; the flash is that of the
  abstraction layer.
\<close>

section \<open>What the C library gives\<close>

definition rt_strlen :: "buf \<Rightarrow> nat option" where
  "rt_strlen s = (if 0 \<in> set s then Some (length (takeWhile (\<lambda>x. x \<noteq> 0) s)) else None)"

definition c_isdigit :: "u8 \<Rightarrow> bool" where
  "c_isdigit x \<longleftrightarrow> 48 \<le> x \<and> x \<le> 57"

definition c_isspace :: "u8 \<Rightarrow> bool" where
  "c_isspace x \<longleftrightarrow> x = 32 \<or> 9 \<le> x \<and> x \<le> 13"

text \<open>\<open>atol\<close> saturates as \<open>strtol\<close> does; \<open>None\<close> if the number runs out of the buffer.\<close>

fun c_digits :: "buf \<Rightarrow> int \<Rightarrow> int option" where
  "c_digits [] acc = None"
| "c_digits (x # xs) acc = (if c_isdigit x then c_digits xs (10 * acc + (uint x - 48)) else Some acc)"

definition c_atol :: "buf \<Rightarrow> int option" where
  "c_atol s =
     (case dropWhile c_isspace s of
        [] \<Rightarrow> None
      | x # xs \<Rightarrow>
          if x = 45 then map_option (\<lambda>v. max (- (2 ^ 31)) (- v)) (c_digits xs 0)
          else map_option (\<lambda>v. min (2 ^ 31 - 1) v) (c_digits (if x = 43 then xs else x # xs) 0))"

section \<open>The callbacks\<close>

record ymodem_ota_vars =
  flash_mem :: mem
  update_file_total_size :: u32
  update_file_cur_size :: u32

definition ymodem_on_begin ::
    "flash_hw \<Rightarrow> nat option \<Rightarrow> fal \<Rightarrow> buf \<Rightarrow> nat \<Rightarrow> ymodem_ota_vars \<Rightarrow> (u8 \<times> ymodem_ota_vars) option" where
  "ymodem_on_begin hw dl_part f buf len u =
     Option.bind (rt_strlen buf) (\<lambda>n.
     Option.bind (c_atol (drop (n + 1) buf)) (\<lambda>v.
       let u = u\<lparr>update_file_total_size := word_of_int v, update_file_cur_size := 0\<rparr>
       in Option.bind (part_at dl_part f) (\<lambda>p.
            if part_len p < update_file_total_size u then Some (RYM_CODE_CAN, u)
            else map_option (\<lambda>(m, r). (if r < 0 then RYM_CODE_CAN else RYM_CODE_ACK, u\<lparr>flash_mem := m\<rparr>))
                   (fal_partition_erase hw dl_part 0 (update_file_total_size u) f (flash_mem u)))))"

definition ymodem_on_data ::
    "flash_hw \<Rightarrow> nat option \<Rightarrow> fal \<Rightarrow> buf \<Rightarrow> nat \<Rightarrow> ymodem_ota_vars \<Rightarrow> (u8 \<times> ymodem_ota_vars) option" where
  "ymodem_on_data hw dl_part f buf len u =
     map_option (\<lambda>(m, r).
       if r < 0 then (RYM_CODE_CAN, u\<lparr>flash_mem := m\<rparr>)
       else (RYM_CODE_ACK, u\<lparr>flash_mem := m, update_file_cur_size := update_file_cur_size u + of_nat len\<rparr>))
       (fal_partition_write hw dl_part (update_file_cur_size u) buf (of_nat len) f (flash_mem u))"

section \<open>Erasing the front of a partition\<close>

lemma sector_base_128k:
  assumes "k \<le> 7"
  shows "unat (sector_base (5 + k)) = 0x08020000 + k * 0x20000"
proof -
  have "k \<in> {0, 1, 2, 3, 4, 5, 6, 7}" using assms unfolding insert_iff empty_iff by presburger
  then show ?thesis by (elim insertE) (simp_all add: sector_base_values)
qed

definition whole_sectors :: "nat \<Rightarrow> nat" where
  "whole_sectors n = (n + 0x1FFFF) div 0x20000 * 0x20000"

lemma whole_sectors_bounds: "n \<le> whole_sectors n" "n \<le> 0x20000 * k \<Longrightarrow> whole_sectors n \<le> 0x20000 * k"
proof -
  have "(n + 0x1FFFF) mod 0x20000 < 0x20000" by simp
  moreover have "whole_sectors n + (n + 0x1FFFF) mod 0x20000 = n + 0x1FFFF" by (simp add: whole_sectors_def)
  ultimately show "n \<le> whole_sectors n" by linarith
  assume "n \<le> 0x20000 * k"
  then have "n + 0x1FFFF < (k + 1) * 0x20000" by simp
  then have "(n + 0x1FFFF) div 0x20000 < k + 1" by (rule less_mult_imp_div_less)
  then show "whole_sectors n \<le> 0x20000 * k" by (simp add: whole_sectors_def)
qed

lemma touched_front:
  assumes "i < 3" "0 < sz" "unat sz \<le> part_size i"
  shows "touched (part_start i) sz x \<longleftrightarrow> in_range (part_start i) (whole_sectors (unat sz)) x"
    "whole_sectors (unat sz) \<le> part_size i"
proof -
  obtain j where j: "unat (part_start i) = 0x08020000 + j * 0x20000" "part_size i = 0x20000 * (part_size i div 0x20000)"
    "j + part_size i div 0x20000 \<le> 7"
    using that [of 0] that [of 3] that [of 4] less_3_cases [OF assms(1)] by (elim disjE) (simp_all add: part_values)
  show w: "whole_sectors (unat sz) \<le> part_size i" using whole_sectors_bounds(2) assms(3) j(2) by metis
  have pos: "0 < unat sz" using assms(2) by (simp add: unat_gt_0)
  define k where "k = (unat sz - 1) div 0x20000"
  have k: "whole_sectors (unat sz) = (k + 1) * 0x20000" "k * 0x20000 < unat sz" "unat sz \<le> (k + 1) * 0x20000"
  proof -
    have "unat sz + 0x1FFFF = (unat sz - 1) + 0x20000" using pos by simp
    then have "(unat sz + 0x1FFFF) div 0x20000 = k + 1" unfolding k_def by (simp only: div_add_self2)
    then show "whole_sectors (unat sz) = (k + 1) * 0x20000" by (simp add: whole_sectors_def)
    define r where "r = (unat sz - 1) mod 0x20000"
    have "r < 0x20000" by (simp add: r_def)
    moreover have "k * 0x20000 + r = unat sz - 1" by (simp add: k_def r_def)
    then have "unat sz = k * 0x20000 + r + 1" using pos by linarith
    ultimately show "k * 0x20000 < unat sz" "unat sz \<le> (k + 1) * 0x20000" by simp_all
  qed
  have jk: "j + k + 1 \<le> 7" using k(1) w j(2,3) by simp
  have r: "0x08000000 \<le> part_start i" "unat (part_start i) + unat sz \<le> 0x08100000"
    using part_bounds [OF assms(1)] assms(3) by (simp_all add: word_le_nat_alt)
  note f = range_in_flash [OF r(1) assms(2) r(2)]
  have b: "unat (sector_base (5 + j)) = unat (part_start i)"
    "unat (sector_base (5 + j + n)) = unat (part_start i) + n * 0x20000" if "n \<le> k + 1" for n
    using sector_base_128k [of j] sector_base_128k [of "j + n"] j(1) jk that by (simp_all add: add.assoc)
  have "GetSector (part_start i) = of_nat (5 + j)"
    by (rule GetSector_at) (use b [of 1] b [of 0] jk in \<open>simp_all add: word_le_nat_alt word_less_nat_alt\<close>)
  moreover have "GetSector (part_start i + sz - 1) = of_nat (5 + j + k)"
    by (rule GetSector_at) (use b(2) [of k] b(2) [of "k + 1"] jk f(2) k pos in \<open>simp_all add: word_le_nat_alt word_less_nat_alt\<close>)
  moreover have "unat (of_nat (5 + j) :: u32) = 5 + j" "unat (of_nat (5 + j + k) :: u32) = 5 + j + k"
    by (rule unat_of_nat32; use jk in simp)+
  ultimately have "touched (part_start i) sz x \<longleftrightarrow> sector_base (5 + j) \<le> x \<and> x < sector_base (5 + j + (k + 1))"
    by (simp add: touched_def)
  also have "\<dots> \<longleftrightarrow> unat (part_start i) \<le> unat x \<and> unat x < unat (part_start i) + (k + 1) * 0x20000"
    using b(1) [of 0] b(2) [of "k + 1"] by (simp add: word_le_nat_alt word_less_nat_alt)
  also have "\<dots> \<longleftrightarrow> in_range (part_start i) (whole_sectors (unat sz)) x"
    using in_range_iff [of "part_start i" "whole_sectors (unat sz)" x] k(1) w part_bounds [OF assms(1)] by simp
  finally show "touched (part_start i) sz x \<longleftrightarrow> in_range (part_start i) (whole_sectors (unat sz)) x" .
qed

lemma erase_front_facts:
  assumes "nor_flash hw" "i < 3" "fal_partition_erase hw (Some i) 0 sz fal_booted m = Some (m', r)"
  shows "\<not> in_range (part_start i) (part_size i) x \<Longrightarrow> m' x = m x"
    "0 < sz \<Longrightarrow> unat sz \<le> part_size i \<Longrightarrow> no_fault hw \<Longrightarrow> r = int (unat sz)"
    "0 < sz \<Longrightarrow> unat sz \<le> part_size i \<Longrightarrow> r = int (unat sz) \<Longrightarrow> in_range (part_start i) (whole_sectors (unat sz)) x \<Longrightarrow> m' x = 0xFF"
proof -
  note b = booted_access [OF assms(2)]
  have e: "stm32_flash_erase hw (part_start i) sz m = (m', r)" if "unat sz \<le> part_size i"
  proof -
    have "\<not> part_len (partition_table_def ! i) < sz" using that by (simp add: part_size_def word_less_nat_alt)
    moreover have "STM32_FLASH_START_ADRESS_128K + offset (partition_table_def ! i) = part_start i" by (simp add: part_start_def)
    ultimately show ?thesis using assms(3) b by (simp add: fal_partition_erase_def ops_128k fal_flash_erase_128k_def)
  qed
  have r: "0x08000000 \<le> part_start i" "unat (part_start i) + unat sz \<le> 0x08100000" if "unat sz \<le> part_size i"
    using part_bounds [OF assms(2)] that by (simp_all add: word_le_nat_alt)
  show "m' x = m x" if "\<not> in_range (part_start i) (part_size i) x"
  proof (cases "unat sz \<le> part_size i")
    case False
    then have "part_len (partition_table_def ! i) < sz" by (simp add: part_size_def word_less_nat_alt)
    then show ?thesis using assms(3) b by (simp add: fal_partition_erase_def)
  next
    case le: True
    show ?thesis
    proof (cases "0 < sz")
      case False
      then have "sz = 0" by (simp add: word_gt_0)
      then show ?thesis using e [OF le] by (simp add: stm32_flash_erase_def split: if_splits)
    next
      case True
      note t = touched_front [OF assms(2) True le]
      have "\<not> touched (part_start i) sz x"
        using that t(2) part_bounds [OF assms(2)] unfolding t(1) by (simp add: in_range_def)
      then show ?thesis using erase_in_flash(2) [OF assms(1) r(1) [OF le] True r(2) [OF le] e [OF le]] by simp
    qed
  qed
  show "r = int (unat sz)" if "0 < sz" "unat sz \<le> part_size i" "no_fault hw"
    by (rule erase_in_flash(4) [OF assms(1) r(1) [OF that(2)] that(1) r(2) [OF that(2)] e [OF that(2)] that(3)])
  show "m' x = 0xFF" if "0 < sz" "unat sz \<le> part_size i" "r = int (unat sz)" "in_range (part_start i) (whole_sectors (unat sz)) x"
    using erase_in_flash(3) [OF assms(1) r(1) [OF that(2)] that(1) r(2) [OF that(2)] e [OF that(2)] that(3)] that(4)
      touched_front(1) [OF assms(2) that(1,2)] by simp
qed

section \<open>Only the download partition changes\<close>

definition ota_keeps :: "flash_hw \<Rightarrow> nat \<Rightarrow> ymodem_ota_vars \<Rightarrow> ymodem_ota_vars \<Rightarrow> bool" where
  "ota_keeps hw i u v \<longleftrightarrow> (nor_flash hw \<and> i < 3 \<and> unat (update_file_cur_size u) \<le> part_size i \<longrightarrow>
     (\<forall>x. \<not> in_range (part_start i) (part_size i) x \<longrightarrow> flash_mem v x = flash_mem u x) \<and>
     unat (update_file_cur_size v) \<le> part_size i)"

lemma on_begin_keeps:
  assumes "ymodem_on_begin hw (Some i) fal_booted b n u = Some (code, v)"
  shows "ota_keeps hw i u v"
  unfolding ota_keeps_def
proof (intro impI)
  assume h: "nor_flash hw \<and> i < 3 \<and> unat (update_file_cur_size u) \<le> part_size i"
  consider "flash_mem v = flash_mem u" "update_file_cur_size v = 0"
    | sz r where "fal_partition_erase hw (Some i) 0 sz fal_booted (flash_mem u) = Some (flash_mem v, r)" "update_file_cur_size v = 0"
    using assms by (auto simp: ymodem_on_begin_def Let_def bind_eq_Some_conv split: if_splits)
  then show "(\<forall>x. \<not> in_range (part_start i) (part_size i) x \<longrightarrow> flash_mem v x = flash_mem u x) \<and>
      unat (update_file_cur_size v) \<le> part_size i"
    using erase_front_facts(1) h by cases auto
qed

lemma on_data_keeps:
  assumes "ymodem_on_data hw (Some i) fal_booted b n u = Some (code, v)" "length b = 1026" "n = 128 \<or> n = 1024"
  shows "ota_keeps hw i u v"
  unfolding ota_keeps_def
proof (intro impI)
  let ?c = "update_file_cur_size u" and ?n = "of_nat n :: u32"
  assume h: "nor_flash hw \<and> i < 3 \<and> unat ?c \<le> part_size i"
  then have i: "i < 3" by simp
  have n: "unat ?n = n" "0 < ?n" using assms(3) by (auto simp: word_gt_0)
  have ps: "part_size i \<le> 0x60000" using less_3_cases [OF i] by (auto simp: part_values)
  then have add: "unat (?c + ?n) = unat ?c + n"
    using h assms(3) n(1) by (subst unat_add_range) auto
  obtain m r where w: "fal_partition_write hw (Some i) ?c b ?n fal_booted (flash_mem u) = Some (m, r)"
    and v: "flash_mem v = m" "update_file_cur_size v = (if r < 0 then ?c else ?c + ?n)"
    using assms(1) by (auto simp: ymodem_on_data_def rym_codes split: if_splits)
  show "(\<forall>x. \<not> in_range (part_start i) (part_size i) x \<longrightarrow> flash_mem v x = flash_mem u x) \<and>
      unat (update_file_cur_size v) \<le> part_size i"
  proof (cases "unat ?c + n \<le> part_size i")
    case True
    then have le: "unat ?c + unat ?n \<le> part_size i" "unat ?n \<le> length b" using n(1) assms(2,3) by auto
    note f = partition_write_facts(2) [OF _ i n(2) le w]
    have "m x = flash_mem u x" if "\<not> in_range (part_start i) (part_size i) x" for x
      by (rule f) (use h range_in_part [OF i le(1)] that in auto)
    then show ?thesis using v add True h by auto
  next
    case False
    then have "part_len (partition_table_def ! i) < ?c + ?n" using add by (simp add: word_less_nat_alt part_size_def)
    then have "m = flash_mem u" "r = - 1" using w booted_access [OF i] by (simp_all add: fal_partition_write_def)
    then show ?thesis using v h by simp
  qed
qed

interpretation ota: rym_client "ota_keeps hw i" "Some (plain_callback (ymodem_on_begin hw (Some i) fal_booted))"
  "Some (plain_callback (ymodem_on_data hw (Some i) fal_booted))" "None" for hw i
proof
  show "callback_keeps (ota_keeps hw i) (Some (plain_callback (ymodem_on_begin hw (Some i) fal_booted)))"
    by (rule plain_keeps) (rule on_begin_keeps)
  show "callback_keeps (ota_keeps hw i) (Some (plain_callback (ymodem_on_data hw (Some i) fal_booted)))"
    by (rule plain_keeps) (rule on_data_keeps)
  show "callback_keeps (ota_keeps hw i) None" by (simp add: callback_keeps_def)
qed (auto simp: ota_keeps_def)

text \<open>
  C9: whatever arrives on the line, garbled, malicious or cut off, a firmware download changes no
  byte of the flash outside the download partition: the running application and its data
  stay as they are, and the heap has the blocks in use it had before.
\<close>

theorem ymodem_ota_changes_only_download:
  assumes "nor_flash hw" "i < 3" "smem_live h W" "length junk = RYM_STX_PKG_SZ"
    and "unat (update_file_cur_size (user c)) \<le> part_size i"
    and "rym_do_recv (Some (plain_callback (ymodem_on_begin hw (Some i) fal_booted)))
      (Some (plain_callback (ymodem_on_data hw (Some i) fal_booted))) None tm junk h c = Some (h', c', err)"
  shows "(\<forall>x. \<not> in_range (part_start i) (part_size i) x \<longrightarrow> flash_mem (user c') x = flash_mem (user c) x) \<and>
    (\<forall>j < 3. j \<noteq> i \<longrightarrow> part_bytes j (flash_mem (user c')) = part_bytes j (flash_mem (user c))) \<and>
    unat (update_file_cur_size (user c')) \<le> part_size i \<and> smem_live h' W"
proof -
  have "ota_keeps hw i (user c) (user c')" by (rule ota.do_recv_keeps [OF assms(6,4)])
  then have k: "\<not> in_range (part_start i) (part_size i) x \<Longrightarrow> flash_mem (user c') x = flash_mem (user c) x"
    "unat (update_file_cur_size (user c')) \<le> part_size i" for x
    using assms(1,2,5) by (auto simp: ota_keeps_def)
  have "part_bytes j (flash_mem (user c')) = part_bytes j (flash_mem (user c))" if "j < 3" "j \<noteq> i" for j
    by (rule part_bytes_cong [OF that(1)]) (use k(1) parts_disjoint [OF assms(2) that(1) that(2) [symmetric]] in blast)
  then show ?thesis using k with_buf_live(1) [OF assms(3)] assms(6) unfolding rym_do_recv_def by blast
qed

section \<open>The header packet\<close>

fun decimal :: "nat \<Rightarrow> buf" where
  "decimal n = (if n < 10 then [of_nat (48 + n)] else decimal (n div 10) @ [of_nat (48 + n mod 10)])"

declare decimal.simps [simp del]

lemma digit: "k < 10 \<Longrightarrow> c_isdigit (of_nat (48 + k)) \<and> uint (of_nat (48 + k) :: u8) = 48 + int k"
proof -
  assume k: "k < 10"
  then have "unat (of_nat (48 + k) :: u8) = 48 + k" by (simp add: unsigned_of_nat take_bit_nat_eq_self del: of_nat_add)
  then show ?thesis using k by (simp add: c_isdigit_def word_le_nat_alt uint_nat del: of_nat_add)
qed

lemma c_digits_decimal:
  "c_digits (decimal n @ xs) a = c_digits xs (a * 10 ^ length (decimal n) + int n)"
proof (induction n arbitrary: xs a rule: decimal.induct)
  case (1 n)
  show ?case
  proof (cases "n < 10")
    case True
    then have "decimal n = [of_nat (48 + n)]" by (simp add: decimal.simps del: of_nat_add)
    then show ?thesis using digit [OF True] by (simp add: mult.commute del: of_nat_add)
  next
    case False
    let ?d = "of_nat (48 + n mod 10) :: u8"
    have d: "c_isdigit ?d" "uint ?d = 48 + int (n mod 10)" using digit [of "n mod 10"] by (simp_all del: of_nat_add)
    have n: "decimal n = decimal (n div 10) @ [?d]" using False by (simp add: decimal.simps [of n] del: of_nat_add)
    have "c_digits (decimal n @ xs) a = c_digits (?d # xs) (a * 10 ^ length (decimal (n div 10)) + int (n div 10))"
      unfolding n using 1 False by (simp del: of_nat_add)
    also have "\<dots> = c_digits xs (10 * (a * 10 ^ length (decimal (n div 10)) + int (n div 10)) + int (n mod 10))"
      using d by (simp del: of_nat_add)
    also have "10 * (a * 10 ^ length (decimal (n div 10)) + int (n div 10)) + int (n mod 10) = a * 10 ^ length (decimal n) + int n"
    proof -
      have "int n = 10 * int (n div 10) + int (n mod 10)" by (simp only: zdiv_int zmod_int of_nat_numeral mult_div_mod_eq)
      then show ?thesis by (simp add: n algebra_simps)
    qed
    finally show ?thesis .
  qed
qed

lemma decimal_first: "\<exists>d ds. decimal n = d # ds \<and> c_isdigit d"
proof (induction n rule: decimal.induct)
  case (1 n)
  show ?case
  proof (cases "n < 10")
    case True
    then show ?thesis using digit [OF True] by (simp add: decimal.simps [of n] del: of_nat_add)
  next
    case False
    then show ?thesis using 1 by (auto simp add: decimal.simps [of n] simp del: of_nat_add)
  qed
qed

lemma c_atol_decimal:
  assumes "\<not> c_isdigit t"
  shows "c_atol (decimal n @ t # rest) = Some (min (2 ^ 31 - 1) (int n))"
proof -
  obtain d ds where d: "decimal n = d # ds" "c_isdigit d" using decimal_first by blast
  then have "\<not> c_isspace d" "d \<noteq> 45" "d \<noteq> 43"
    by (auto simp: c_isdigit_def c_isspace_def word_le_nat_alt)
  then have "c_atol (decimal n @ t # rest) = map_option (min (2 ^ 31 - 1)) (c_digits (decimal n @ t # rest) 0)"
    using d by (simp add: c_atol_def)
  then show ?thesis using assms by (simp add: c_digits_decimal)
qed

lemma rt_strlen_terminated: "0 \<notin> set name \<Longrightarrow> rt_strlen (name @ 0 # s) = Some (length name)"
  by (simp add: rt_strlen_def takeWhile_append)

lemma on_begin_accepts:
  assumes "nor_flash hw" "no_fault hw" "i < 3" "0 \<notin> set name" "\<not> c_isdigit t" "0 < n" "n \<le> part_size i"
  obtains v where "accepts (ymodem_on_begin hw (Some i) fal_booted) (name @ 0 # decimal n @ t # rest) u v"
    "update_file_cur_size v = 0" "\<And>x. in_range (part_start i) (whole_sectors n) x \<Longrightarrow> flash_mem v x = 0xFF"
proof -
  have ps: "part_size i \<le> 0x60000" using less_3_cases [OF assms(3)] by (auto simp: part_values)
  then have n: "n < 2 ^ 31" "unat (of_nat n :: u32) = n" using assms(7) by (auto intro: unat_of_nat32)
  have pos: "0 < (of_nat n :: u32)" using n(2) assms(6) by (simp add: word_less_nat_alt)
  have le: "\<not> part_len (partition_table_def ! i) < of_nat n" "unat (of_nat n :: u32) \<le> part_size i"
    using n(2) assms(7) by (simp_all add: word_less_nat_alt part_size_def)
  obtain m r where e: "fal_partition_erase hw (Some i) 0 (of_nat n) fal_booted (flash_mem u) = Some (m, r)"
    using booted_access [OF assms(3)] le(1)
    by (cases "ops_erase stm32_onchip_flash_128k hw (offset (partition_table_def ! i)) (of_nat n) (flash_mem u)")
      (auto simp: fal_partition_erase_def)
  note f = erase_front_facts [OF assms(1,3) e]
  have r: "r = int n" using f(2) [OF pos le(2) assms(2)] n(2) by simp
  let ?v = "u\<lparr>update_file_total_size := of_nat n, update_file_cur_size := 0, flash_mem := m\<rparr>"
  have "ymodem_on_begin hw (Some i) fal_booted ((name @ 0 # decimal n @ t # rest) @ tail) k u = Some (RYM_CODE_ACK, ?v)" for tail k
    using rt_strlen_terminated [OF assms(4), of "decimal n @ t # rest @ tail"] c_atol_decimal [OF assms(5), of n "rest @ tail"]
      n booted_access [OF assms(3)] le(1) e r by (simp add: ymodem_on_begin_def)
  then have "accepts (ymodem_on_begin hw (Some i) fal_booted) (name @ 0 # decimal n @ t # rest) u ?v" by (simp add: accepts_def)
  then show thesis using that f(3) [OF pos le(2)] r n(2) by simp
qed

section \<open>The data packets\<close>

lemma write_takes: "length d = unat sz \<Longrightarrow> stm32_flash_write hw a (d @ tail) sz m = stm32_flash_write hw a d sz m"
  by (simp add: stm32_flash_write_def)

lemma on_data_accepts:
  assumes "nor_flash hw" "no_fault hw" "i < 3" "packet_data d" "unat (update_file_cur_size u) + length d \<le> part_size i"
    and "\<And>x. in_range (part_start i + update_file_cur_size u) (length d) x \<Longrightarrow> flash_mem u x = 0xFF"
  obtains v where "accepts (ymodem_on_data hw (Some i) fal_booted) d u v"
    "unat (update_file_cur_size v) = unat (update_file_cur_size u) + length d"
    "mem_read (flash_mem v) (part_start i + update_file_cur_size u) (length d) = d"
    "\<And>x. \<not> in_range (part_start i + update_file_cur_size u) (length d) x \<Longrightarrow> flash_mem v x = flash_mem u x"
proof -
  let ?c = "update_file_cur_size u" and ?n = "of_nat (length d) :: u32"
  have n: "unat ?n = length d" "0 < ?n" using assms(4) by (auto simp: packet_data_def word_gt_0)
  have ps: "part_size i \<le> 0x60000" using less_3_cases [OF assms(3)] by (auto simp: part_values)
  have le: "unat ?c + unat ?n \<le> part_size i" using assms(5) n by simp
  have eq: "fal_partition_write hw (Some i) ?c (d @ tail) ?n fal_booted m = fal_partition_write hw (Some i) ?c d ?n fal_booted m" for tail m
    unfolding partition_write_eq [OF assms(3) n(2) le] by (rule write_takes) (simp add: n(1))
  note p = part_range [OF assms(3) n(2) le]
  note f0 = range_in_flash [OF p(3) n(2) p(4)]
  obtain m r where w: "fal_partition_write hw (Some i) ?c d ?n fal_booted (flash_mem u) = Some (m, r)"
    unfolding partition_write_eq [OF assms(3) n(2) le] using f0(3,4) n(1)
    by (cases "flash_program hw (part_start i + ?c) d (flash_mem u)") (auto simp: stm32_flash_write_def)
  have len: "unat ?n \<le> length d" using n(1) by simp
  note f = partition_write_facts [OF assms(1,3) n(2) le len w]
  have r: "r = int (length d)" using f(4) [OF assms(2)] assms(6) n(1) by simp
  let ?v = "u\<lparr>flash_mem := m, update_file_cur_size := ?c + ?n\<rparr>"
  have "accepts (ymodem_on_data hw (Some i) fal_booted) d u ?v"
    using eq w r by (simp add: accepts_def ymodem_on_data_def)
  moreover have "unat (?c + ?n) = unat ?c + length d" using le ps n(1) by (subst unat_add_range) auto
  ultimately show thesis using that f(2,3) r n(1) by simp
qed

lemma on_data_accepts_all:
  assumes "nor_flash hw" "no_fault hw" "i < 3"
  shows "\<forall>d \<in> set ds. packet_data d \<Longrightarrow> unat (update_file_cur_size u) + length (concat ds) \<le> part_size i \<Longrightarrow>
    (\<And>x. in_range (part_start i + update_file_cur_size u) (length (concat ds)) x \<Longrightarrow> flash_mem u x = 0xFF) \<Longrightarrow>
    \<exists>v. accepts_all (ymodem_on_data hw (Some i) fal_booted) ds u v \<and>
      unat (update_file_cur_size v) = unat (update_file_cur_size u) + length (concat ds) \<and>
      mem_read (flash_mem v) (part_start i + update_file_cur_size u) (length (concat ds)) = concat ds \<and>
      (\<forall>x. \<not> in_range (part_start i + update_file_cur_size u) (length (concat ds)) x \<longrightarrow> flash_mem v x = flash_mem u x)"
proof (induction ds arbitrary: u)
  case (Cons d ds)
  let ?a = "part_start i + update_file_cur_size u" and ?k = "length d" and ?l = "length (concat ds)"
  have ps: "part_size i \<le> 0x60000" using less_3_cases [OF assms(3)] by (auto simp: part_values)
  then have lt: "?k + ?l \<le> 2 ^ 32" "?k < 2 ^ 32" "unat (update_file_cur_size u) + ?k < 2 ^ 32" using Cons.prems(2) by auto
  have d: "packet_data d" "unat (update_file_cur_size u) + ?k \<le> part_size i" using Cons.prems(1,2) by auto
  have "flash_mem u x = 0xFF" if "in_range ?a ?k x" for x
    by (rule Cons.prems(3)) (use that in \<open>simp add: in_range_def\<close>)
  then obtain v1 where v1: "accepts (ymodem_on_data hw (Some i) fal_booted) d u v1"
    "unat (update_file_cur_size v1) = unat (update_file_cur_size u) + ?k" "mem_read (flash_mem v1) ?a ?k = d"
    "\<And>x. \<not> in_range ?a ?k x \<Longrightarrow> flash_mem v1 x = flash_mem u x" using on_data_accepts [OF assms d] by blast
  have "update_file_cur_size v1 = update_file_cur_size u + of_nat ?k"
    unfolding word_unat_eq_iff v1(2) using lt(2,3) by (subst unat_add_range) (simp_all add: unat_of_nat32)
  then have a1: "part_start i + update_file_cur_size v1 = ?a + of_nat ?k" by (simp add: algebra_simps)
  have "flash_mem v1 x = 0xFF" if "in_range (?a + of_nat ?k) ?l x" for x
    using v1(4) [OF ranges_apart [OF that lt(1)]] Cons.prems(3) [of x] in_range_split [OF that lt(1)] by simp
  then obtain v where v: "accepts_all (ymodem_on_data hw (Some i) fal_booted) ds v1 v"
    "unat (update_file_cur_size v) = unat (update_file_cur_size v1) + ?l" "mem_read (flash_mem v) (?a + of_nat ?k) ?l = concat ds"
    "\<And>x. \<not> in_range (?a + of_nat ?k) ?l x \<Longrightarrow> flash_mem v x = flash_mem v1 x"
    using Cons.IH [of v1] Cons.prems(1,2) v1(2) unfolding a1 by auto
  have "mem_read (flash_mem v) ?a ?k = mem_read (flash_mem v1) ?a ?k"
  proof (rule mem_read_cong)
    fix j assume "j < ?k"
    then have "in_range ?a ?k (?a + of_nat j)" using lt(2) by simp
    then show "flash_mem v (?a + of_nat j) = flash_mem v1 (?a + of_nat j)" using v(4) ranges_apart lt(1) by blast
  qed
  then have "mem_read (flash_mem v) ?a (?k + ?l) = d @ concat ds" using v(3) v1(3) by (simp add: mem_read_append)
  moreover have "flash_mem v x = flash_mem u x" if "\<not> in_range ?a (?k + ?l) x" for x
  proof -
    have "\<not> in_range ?a ?k x" using that by (simp add: in_range_def)
    moreover have "\<not> in_range (?a + of_nat ?k) ?l x" using that in_range_split lt(1) by blast
    ultimately show ?thesis using v(4) v1(4) by simp
  qed
  ultimately show ?case using v1(1,2) v(1,2) by auto
qed simp

text \<open>A session that sends a header and blocks that fit into what the header makes the receiver erase.\<close>

lemma ota_session:
  assumes "nor_flash hw" "no_fault hw" "i < 3" "smem_live h W" "rt_malloc h (of_nat RYM_STX_PKG_SZ) = Some (h1, Some p)"
    and "length junk = RYM_STX_PKG_SZ" "steady (rym_dev c)" "stream (rym_dev c) = transmitted hdr ps" "end_tick (rym_dev c) < 2 ^ 32 - 100"
    and "hdr = name @ 0 # decimal n @ t # rest" "packet_data hdr" "0 \<notin> set name" "\<not> c_isdigit t" "0 < n" "n \<le> part_size i"
    and "\<forall>d \<in> set (map snd ps). packet_data d" "ps \<noteq> [] \<longrightarrow> fst (hd ps) \<noteq> 0" "length (concat (map snd ps)) \<le> whole_sectors n"
  shows "\<exists>h' c'. rym_do_recv (Some (plain_callback (ymodem_on_begin hw (Some i) fal_booted)))
      (Some (plain_callback (ymodem_on_data hw (Some i) fal_booted))) None (Suc tm) junk h c = Some (h', c', RT_EOK) \<and>
    smem_live h' W \<and> unat (update_file_cur_size (user c')) = length (concat (map snd ps)) \<and>
    mem_read (flash_mem (user c')) (part_start i) (length (concat (map snd ps))) = concat (map snd ps)"
proof -
  let ?b = "ymodem_on_begin hw (Some i) fal_booted" and ?d = "ymodem_on_data hw (Some i) fal_booted"
  let ?c = "c\<lparr>rym_stage := RYM_STAGE_NONE, rym_buf := junk\<rparr>" and ?ds = "map snd ps"
  obtain v where v: "accepts ?b hdr (user c) v" "update_file_cur_size v = 0"
    "\<And>x. in_range (part_start i) (whole_sectors n) x \<Longrightarrow> flash_mem v x = 0xFF"
    using on_begin_accepts [OF assms(1-3,12-15), of rest "user c"] unfolding assms(10) by blast
  have "whole_sectors n \<le> part_size i"
  proof -
    have "part_size i \<le> 0x60000" using less_3_cases [OF assms(3)] by (auto simp: part_values)
    then have "unat (of_nat n :: u32) = n" using assms(15) by (intro unat_of_nat32) simp
    then show ?thesis using touched_front(2) [OF assms(3), of "of_nat n"] assms(14,15) by (simp add: word_less_nat_alt)
  qed
  then have fit: "unat (update_file_cur_size v) + length (concat ?ds) \<le> part_size i" using v(2) assms(18) by simp
  have "flash_mem v x = 0xFF" if "in_range (part_start i + update_file_cur_size v) (length (concat ?ds)) x" for x
    by (rule v(3)) (use that v(2) assms(18) in \<open>simp add: in_range_def\<close>)
  then obtain w where w: "accepts_all ?d ?ds v w" "unat (update_file_cur_size w) = length (concat ?ds)"
    "mem_read (flash_mem w) (part_start i) (length (concat ?ds)) = concat ?ds"
    using on_data_accepts_all [OF assms(1-3,16) fit] v(2) by auto
  have s: "steady (rym_dev ?c)" "stream (rym_dev ?c) = transmitted hdr ps @ []" "length (rym_buf ?c) = RYM_STX_PKG_SZ"
    "end_tick (rym_dev ?c) < 2 ^ 32 - 100" "accepts ?b hdr (user ?c) v" using assms(6-9) v(1) by simp_all
  obtain c' where c': "rym_recv_body (Some (plain_callback ?b)) (Some (plain_callback ?d)) None (Suc tm) ?c = Some (c', RT_EOK)" "user c' = w"
    using recv_body_transmitted [OF s(1,2) assms(11,16) s(3,4,5) w(1) assms(17)] by blast
  have "\<exists>h'. rym_do_recv (Some (plain_callback ?b)) (Some (plain_callback ?d)) None (Suc tm) junk h c = Some (h', c', RT_EOK) \<and> smem_live h' W"
    unfolding rym_do_recv_def by (rule with_buf_allocated [OF assms(4,5)]) (rule c'(1))
  then show ?thesis using c'(2) w(2,3) by blast
qed

lemma whole_kilobytes: "(n + 1023) div 1024 * 1024 \<le> whole_sectors n"
proof -
  have "n \<le> whole_sectors n" by (rule whole_sectors_bounds)
  then have "(n + 1023) div 1024 \<le> (whole_sectors n + 1023) div 1024" by (intro div_le_mono) simp
  also have "\<dots> = (n + 0x1FFFF) div 0x20000 * 128"
    by (simp add: whole_sectors_def)
  finally have "(n + 1023) div 1024 * 1024 \<le> (n + 0x1FFFF) div 0x20000 * 128 * 1024" by (rule mult_le_mono1)
  then show ?thesis by (simp add: whole_sectors_def)
qed

section \<open>Properties\<close>

text \<open>
  C10: a firmware file that is sent over YMODEM, under a header with its name and size, cut into
  packets and padded, arrives in the download partition: the receiver reports success and the
  partition begins with the file, whatever it held before and however the bytes come in.
\<close>

theorem ymodem_ota_installs_file:
  assumes "nor_flash hw" "no_fault hw" "i < 3" "smem_live h W" "rt_malloc h (of_nat RYM_STX_PKG_SZ) = Some (h1, Some p)"
    and "length junk = RYM_STX_PKG_SZ" "steady (rym_dev c)" "stream (rym_dev c) = transmission hdr ds" "end_tick (rym_dev c) < 2 ^ 32 - 100"
    and "hdr = name @ 0 # decimal (length file) @ t # rest" "packet_data hdr" "0 \<notin> set name" "\<not> c_isdigit t"
    and "file \<noteq> []" "length file \<le> part_size i" "\<forall>d \<in> set ds. packet_data d" "concat ds = file @ pad"
    and "length (file @ pad) \<le> (length file + 1023) div 1024 * 1024"
  shows "\<exists>h' c'. rym_do_recv (Some (plain_callback (ymodem_on_begin hw (Some i) fal_booted)))
      (Some (plain_callback (ymodem_on_data hw (Some i) fal_booted))) None (Suc tm) junk h c = Some (h', c', RT_EOK) \<and>
    fal_partition_read (Some i) 0 (of_nat (length file)) fal_booted (flash_mem (user c')) = Some (file, int (length file)) \<and>
    smem_live h' W"
proof -
  let ?n = "of_nat (length file) :: u32"
  have "length (concat (map snd (count_from 1 ds))) \<le> whole_sectors (length file)"
    using assms(17,18) whole_kilobytes [of "length file"] by simp
  then obtain h' c' where c': "rym_do_recv (Some (plain_callback (ymodem_on_begin hw (Some i) fal_booted)))
      (Some (plain_callback (ymodem_on_data hw (Some i) fal_booted))) None (Suc tm) junk h c = Some (h', c', RT_EOK)"
    "smem_live h' W" "mem_read (flash_mem (user c')) (part_start i) (length (file @ pad)) = file @ pad"
    using ota_session [where tm = tm, OF assms(1-7) assms(8) [unfolded transmission_def] assms(9-13) _ assms(15)]
      count_from_first [OF refl, of 1 ds] assms(14,16,17) by auto
  have "mem_read (flash_mem (user c')) (part_start i) (length file) = file"
    using c'(3) by (simp add: mem_read_append)
  moreover have "unat ?n = length file" "0 < ?n"
  proof -
    have "length file < 2 ^ 32" using assms(15) less_3_cases [OF assms(3)] by (auto simp: part_values)
    then show "unat ?n = length file" by (rule unat_of_nat32)
    then show "0 < ?n" using assms(14) by (simp add: word_less_nat_alt)
  qed
  ultimately show ?thesis
    using c'(1,2) partition_read_eq [OF assms(3), of ?n 0 "flash_mem (user c')"] assms(15) by auto
qed

text \<open>The session of the witnesses: a file of three bytes.\<close>

definition ota_demo_line :: "buf \<Rightarrow> ymodem_ota_vars rym_ctx" where
  "ota_demo_line bs =
     \<lparr>rym_stage = RYM_STAGE_NONE, rym_buf = [],
      rym_dev = \<lparr>rx = [], coming = [Arrive 40 (take 70 bs), Arrive 3 (drop 70 bs)], now = 10, tx = []\<rparr>,
      user = \<lparr>flash_mem = \<lambda>_. 0, update_file_total_size = 0, update_file_cur_size = 0\<rparr>\<rparr>"

lemma ota_demo_line:
  "steady (rym_dev (ota_demo_line bs))" "stream (rym_dev (ota_demo_line bs)) = bs" "end_tick (rym_dev (ota_demo_line bs)) < 2 ^ 32 - 100"
  by (simp_all add: ota_demo_line_def steady_def stream_def end_tick_def)

definition ota_demo_header :: buf where
  "ota_demo_header = [65] @ 0 # decimal 3 @ 0 # replicate 124 0"

lemma ota_demo_header: "packet_data ota_demo_header"
  by (simp add: ota_demo_header_def packet_data_def decimal.simps)

theorem ymodem_ota_installs_file_witness:
  "\<exists>h' c'. rym_do_recv (Some (plain_callback (ymodem_on_begin nor_hw (Some 2) fal_booted)))
      (Some (plain_callback (ymodem_on_data nor_hw (Some 2) fal_booted))) None 5 (replicate 1029 9) ym_heap
      (ota_demo_line (transmission ota_demo_header [[1, 2, 3] @ replicate 125 26])) = Some (h', c', RT_EOK) \<and>
    fal_partition_read (Some 2) 0 3 fal_booted (flash_mem (user c')) = Some ([1, 2, 3], 3)"
proof -
  let ?c = "ota_demo_line (transmission ota_demo_header [[1, 2, 3] @ replicate 125 26])"
  obtain h1 p where m: "rt_malloc ym_heap (of_nat RYM_STX_PKG_SZ) = Some (h1, Some p)" using ym_heap(2) by blast
  have h: "ota_demo_header = [65] @ 0 # decimal (length [1, 2, 3 :: u8]) @ 0 # replicate 124 0"
    by (simp add: ota_demo_header_def numeral_3_eq_3)
  have "(2 :: nat) < 3" "length (replicate 1029 (9 :: u8)) = RYM_STX_PKG_SZ" by (simp_all add: RYM_STX_PKG_SZ_def)
  from ymodem_ota_installs_file [where pad = "replicate 125 26" and tm = 4 and ds = "[[1, 2, 3] @ replicate 125 26]",
    OF nor_hw this(1) ym_heap(1) m this(2) ota_demo_line h ota_demo_header]
  show ?thesis by (simp add: part_values c_isdigit_def packet_data_def) blast
qed

text \<open>
  C35: nothing compares what was received with the announced size: a sender that announces a file
  and then ends the transfer early, after any number of blocks, gets success reported, with
  less than the file in the download partition.
\<close>

theorem ymodem_ota_accepts_truncated:
  assumes "nor_flash hw" "no_fault hw" "i < 3" "smem_live h W" "rt_malloc h (of_nat RYM_STX_PKG_SZ) = Some (h1, Some p)"
    and "length junk = RYM_STX_PKG_SZ" "steady (rym_dev c)" "stream (rym_dev c) = transmission hdr ds" "end_tick (rym_dev c) < 2 ^ 32 - 100"
    and "hdr = name @ 0 # decimal n @ t # rest" "packet_data hdr" "0 \<notin> set name" "\<not> c_isdigit t"
    and "n \<le> part_size i" "\<forall>d \<in> set ds. packet_data d" "length (concat ds) < n"
  shows "\<exists>h' c'. rym_do_recv (Some (plain_callback (ymodem_on_begin hw (Some i) fal_booted)))
      (Some (plain_callback (ymodem_on_data hw (Some i) fal_booted))) None (Suc tm) junk h c = Some (h', c', RT_EOK) \<and>
    unat (update_file_cur_size (user c')) < n"
proof -
  have "length (concat (map snd (count_from 1 ds))) \<le> whole_sectors n"
    using assms(16) whole_sectors_bounds(1) [of n] by simp
  then show ?thesis
    using ota_session [where tm = tm, OF assms(1-7) assms(8) [unfolded transmission_def] assms(9-13) _ assms(14)]
      count_from_first [OF refl, of 1 ds] assms(15,16) by auto
qed

theorem ymodem_ota_accepts_truncated_witness:
  "\<exists>h' c'. rym_do_recv (Some (plain_callback (ymodem_on_begin nor_hw (Some 2) fal_booted)))
      (Some (plain_callback (ymodem_on_data nor_hw (Some 2) fal_booted))) None 5 (replicate 1029 9) ym_heap
      (ota_demo_line (transmission ota_demo_header [])) = Some (h', c', RT_EOK) \<and> unat (update_file_cur_size (user c')) < 3"
proof -
  obtain h1 p where m: "rt_malloc ym_heap (of_nat RYM_STX_PKG_SZ) = Some (h1, Some p)" using ym_heap(2) by blast
  show ?thesis
    using ymodem_ota_accepts_truncated [OF nor_hw _ ym_heap(1) m, of 2 "replicate 1029 9" "ota_demo_line (transmission ota_demo_header [])"
        ota_demo_header "[]" "[65]" 3 0 "replicate 124 0" 4]
      ota_demo_line ota_demo_header
    by (simp add: RYM_STX_PKG_SZ_def ota_demo_header_def part_values c_isdigit_def)
qed

text \<open>
  The receiver looks at a sequence number only to compare it with its complement: a packet that a
  sender repeats, because the acknowledgement was lost, is written a second time, behind
  the first copy, and success is reported.
\<close>

theorem ymodem_ota_writes_repeated_packet_twice:
  assumes "nor_flash hw" "no_fault hw" "i < 3" "smem_live h W" "rt_malloc h (of_nat RYM_STX_PKG_SZ) = Some (h1, Some p)"
    and "length junk = RYM_STX_PKG_SZ" "steady (rym_dev c)"
    and "stream (rym_dev c) = transmitted hdr ((1, d) # (1, d) # count_from 2 ds)" "end_tick (rym_dev c) < 2 ^ 32 - 100"
    and "hdr = name @ 0 # decimal n @ t # rest" "packet_data hdr" "0 \<notin> set name" "\<not> c_isdigit t"
    and "0 < n" "n \<le> part_size i" "packet_data d" "\<forall>d \<in> set ds. packet_data d" "length (d @ d @ concat ds) \<le> whole_sectors n"
  shows "\<exists>h' c'. rym_do_recv (Some (plain_callback (ymodem_on_begin hw (Some i) fal_booted)))
      (Some (plain_callback (ymodem_on_data hw (Some i) fal_booted))) None (Suc tm) junk h c = Some (h', c', RT_EOK) \<and>
    mem_read (flash_mem (user c')) (part_start i) (length (d @ d @ concat ds)) = d @ d @ concat ds"
  using ota_session [where tm = tm, OF assms(1-15)] assms(16-18) by auto

theorem ymodem_ota_changes_only_download_witness:
  "\<exists>h' c'. rym_do_recv (Some (plain_callback (ymodem_on_begin nor_hw (Some 2) fal_booted)))
      (Some (plain_callback (ymodem_on_data nor_hw (Some 2) fal_booted))) None 5 (replicate 1029 9) ym_heap
      (ota_demo_line (transmission ota_demo_header [replicate 128 7])) = Some (h', c', RT_EOK) \<and>
    part_bytes 0 (flash_mem (user c')) = part_bytes 0 (\<lambda>_. 0)"
proof -
  obtain h1 p where m: "rt_malloc ym_heap (of_nat RYM_STX_PKG_SZ) = Some (h1, Some p)" using ym_heap(2) by blast
  let ?c = "ota_demo_line (transmission ota_demo_header [replicate 128 7])"
  have s: "(2 :: nat) < 3" "length (replicate 1029 (9 :: u8)) = RYM_STX_PKG_SZ" by (simp_all add: RYM_STX_PKG_SZ_def)
  have "128 \<le> whole_sectors 3" by (simp add: whole_sectors_def)
  then obtain h' c' where c': "rym_do_recv (Some (plain_callback (ymodem_on_begin nor_hw (Some 2) fal_booted)))
      (Some (plain_callback (ymodem_on_data nor_hw (Some 2) fal_booted))) None 5 (replicate 1029 9) ym_heap ?c = Some (h', c', RT_EOK)"
    using ota_session [where tm = 4 and ps = "count_from 1 [replicate 128 7]",
        OF nor_hw s(1) ym_heap(1) m s(2) ota_demo_line [unfolded transmission_def] ota_demo_header_def ota_demo_header]
    by (auto simp: part_values c_isdigit_def packet_data_def transmission_def)
  show ?thesis
    using ymodem_ota_changes_only_download [OF nor_hw(1) s(1) ym_heap(1) s(2) _ c'] c' by (auto simp: ota_demo_line_def)
qed

end
