(* ===== verification/KService.thy ===== *)
theory KService
  imports Memory
begin

text \<open>
  The memory functions of the kernel, \<open>src/rt-thread/src/kservice.c\<close>, on byte memory.
  \<open>RT_KSERVICE_USING_TINY_SIZE\<close> is not defined, so \<open>rt_memset\<close> and \<open>rt_memcpy\<close> work by words of
  four bytes where the addresses are aligned. Pointers are 32-bit addresses. The lengths count
  as unsigned numbers, also in \<open>rt_memcpy\<close>, whose \<open>len\<close> is signed but is compared with sizes.
\<close>

section \<open>Memory\<close>

definition LBLOCKSIZE :: nat where "LBLOCKSIZE = 4"

definition UNALIGNED :: "u32 \<Rightarrow> bool" where
  "UNALIGNED x \<longleftrightarrow> x AND (of_nat LBLOCKSIZE - 1) \<noteq> 0"

text \<open>A word in memory, least significant byte first.\<close>

definition word_bytes :: "u32 \<Rightarrow> buf" where
  "word_bytes w = [byte_of 0 w, byte_of 1 w, byte_of 2 w, byte_of 3 w]"

definition store_word :: "u32 \<Rightarrow> u32 \<Rightarrow> mem \<Rightarrow> mem" where
  "store_word a w m = mem_write a (word_bytes w) m"

definition load_word :: "u32 \<Rightarrow> mem \<Rightarrow> u32" where
  "load_word a m = join32 (m (a + 3)) (m (a + 2)) (m (a + 1)) (m a)"

fun memset_bytes :: "nat \<Rightarrow> u8 \<Rightarrow> u32 \<Rightarrow> mem \<Rightarrow> mem" where
  "memset_bytes 0 d a m = m"
| "memset_bytes (Suc n) d a m = memset_bytes n d (a + 1) (m(a := d))"

function memset_words :: "nat \<Rightarrow> u32 \<Rightarrow> u32 \<Rightarrow> mem \<Rightarrow> nat \<times> u32 \<times> mem" where
  "memset_words n w a m =
     (if LBLOCKSIZE \<le> n then memset_words (n - LBLOCKSIZE) w (a + of_nat LBLOCKSIZE) (store_word a w m) else (n, a, m))"
  by auto
termination by (relation "measure fst") (auto simp: LBLOCKSIZE_def)

function memset_blocks :: "nat \<Rightarrow> u32 \<Rightarrow> u32 \<Rightarrow> mem \<Rightarrow> nat \<times> u32 \<times> mem" where
  "memset_blocks n w a m =
     (if LBLOCKSIZE * 4 \<le> n
      then memset_blocks (n - 4 * LBLOCKSIZE) w (a + 16)
             (store_word (a + 12) w (store_word (a + 8) w (store_word (a + 4) w (store_word a w m))))
      else (n, a, m))"
  by auto
termination by (relation "measure fst") (auto simp: LBLOCKSIZE_def)

declare memset_words.simps [simp del] memset_blocks.simps [simp del]

definition rt_memset :: "u32 \<Rightarrow> int \<Rightarrow> u32 \<Rightarrow> mem \<Rightarrow> mem" where
  "rt_memset s c count m =
     (let d = word_of_int c AND 0xff :: u32
      in if \<not> unat count < LBLOCKSIZE \<and> \<not> UNALIGNED s
         then let buffer = push_bit 8 d OR d; buffer = buffer OR push_bit 16 buffer;
                  (n, a, m) = memset_blocks (unat count) buffer s m;
                  (n, a, m) = memset_words n buffer a m
              in memset_bytes n (ucast d) a m
         else memset_bytes (unat count) (ucast d) s m)"

text \<open>The forward byte loop, in \<open>rt_memcpy\<close> and \<open>rt_memmove\<close>.\<close>

fun copy_bytes :: "nat \<Rightarrow> u32 \<Rightarrow> u32 \<Rightarrow> mem \<Rightarrow> mem" where
  "copy_bytes 0 d s m = m"
| "copy_bytes (Suc n) d s m = copy_bytes n (d + 1) (s + 1) (m(d := m s))"

definition copy_word :: "u32 \<Rightarrow> u32 \<Rightarrow> mem \<Rightarrow> mem" where
  "copy_word d s m = store_word d (load_word s m) m"

function memcpy_words :: "nat \<Rightarrow> u32 \<Rightarrow> u32 \<Rightarrow> mem \<Rightarrow> nat \<times> u32 \<times> u32 \<times> mem" where
  "memcpy_words n d s m =
     (if LBLOCKSIZE \<le> n then memcpy_words (n - LBLOCKSIZE) (d + 4) (s + 4) (copy_word d s m) else (n, d, s, m))"
  by auto
termination by (relation "measure fst") (auto simp: LBLOCKSIZE_def)

function memcpy_blocks :: "nat \<Rightarrow> u32 \<Rightarrow> u32 \<Rightarrow> mem \<Rightarrow> nat \<times> u32 \<times> u32 \<times> mem" where
  "memcpy_blocks n d s m =
     (if LBLOCKSIZE * 4 \<le> n
      then memcpy_blocks (n - LBLOCKSIZE * 4) (d + 16) (s + 16)
             (copy_word (d + 12) (s + 12) (copy_word (d + 8) (s + 8) (copy_word (d + 4) (s + 4) (copy_word d s m))))
      else (n, d, s, m))"
  by auto
termination by (relation "measure fst") (auto simp: LBLOCKSIZE_def)

declare memcpy_words.simps [simp del] memcpy_blocks.simps [simp del]

definition rt_memcpy :: "u32 \<Rightarrow> u32 \<Rightarrow> u32 \<Rightarrow> mem \<Rightarrow> mem" where
  "rt_memcpy dst src count m =
     (if \<not> unat count < LBLOCKSIZE * 4 \<and> \<not> (UNALIGNED src \<or> UNALIGNED dst)
      then let (n, d, s, m) = memcpy_blocks (unat count) dst src m;
               (n, d, s, m) = memcpy_words n d s m
           in copy_bytes n d s m
      else copy_bytes (unat count) dst src m)"

fun copy_down :: "nat \<Rightarrow> u32 \<Rightarrow> u32 \<Rightarrow> mem \<Rightarrow> mem" where
  "copy_down 0 d s m = m"
| "copy_down (Suc n) d s m = copy_down n (d - 1) (s - 1) (m(d - 1 := m (s - 1)))"

definition rt_memmove :: "u32 \<Rightarrow> u32 \<Rightarrow> u32 \<Rightarrow> mem \<Rightarrow> mem" where
  "rt_memmove dest src n m =
     (if src < dest \<and> dest < src + n then copy_down (unat n) (dest + n) (src + n) m
      else copy_bytes (unat n) dest src m)"

fun memcmp_loop :: "nat \<Rightarrow> u32 \<Rightarrow> u32 \<Rightarrow> mem \<Rightarrow> int" where
  "memcmp_loop 0 su1 su2 m = 0"
| "memcmp_loop (Suc n) su1 su2 m =
     (let res = uint (m su1) - uint (m su2) in if res \<noteq> 0 then res else memcmp_loop n (su1 + 1) (su2 + 1) m)"

definition rt_memcmp :: "u32 \<Rightarrow> u32 \<Rightarrow> u32 \<Rightarrow> mem \<Rightarrow> int" where
  "rt_memcmp cs ct count m = memcmp_loop (unat count) cs ct m"

section \<open>Reference: bytes at a time\<close>

lemma memset_bytes_add: "memset_bytes (j + k) d a m = memset_bytes k d (a + of_nat j) (memset_bytes j d a m)"
  by (induction j arbitrary: a m) (auto simp: algebra_simps)

lemma memset_bytes_at:
  "n \<le> 2 ^ 32 \<Longrightarrow> memset_bytes n d a m x = (if in_range a n x then d else m x)"
proof (induction n arbitrary: a m)
  case (Suc n)
  have "in_range a (Suc n) x \<longleftrightarrow> x = a \<or> in_range (a + 1) n x"
    using range_Suc [of n] Suc.prems by simp
  then show ?case using Suc by auto
qed simp

lemma copy_bytes_add:
  "copy_bytes (j + k) d s m = copy_bytes k (d + of_nat j) (s + of_nat j) (copy_bytes j d s m)"
  by (induction j arbitrary: d s m) (auto simp: algebra_simps)

lemma word_of_byte:
  "word_bytes ((push_bit 8 d OR d) OR push_bit 16 (push_bit 8 d OR d)) = [b, b, b, b]"
  if "d = ucast b" for d :: u32 and b :: u8
  unfolding word_bytes_def that
  by (simp only: list.inject simp_thms, intro conjI; rule bit_word_eqI; auto simp: bit_byte_of bit_or_iff bit_push_bit_iff bit_ucast_iff)

lemma store_fill: "word_bytes w = [b, b, b, b] \<Longrightarrow> store_word a w m = memset_bytes 4 b a m"
  by (simp add: store_word_def numeral_eq_Suc)

lemma memset_words_eq:
  assumes "word_bytes w = [b, b, b, b]" "memset_words n w a m = (n', a', m')"
  shows "memset_bytes n' b a' m' = memset_bytes n b a m"
  using assms
proof (induction n w a m rule: memset_words.induct)
  case (1 n w a m)
  show ?case
  proof (cases "LBLOCKSIZE \<le> n")
    case True
    then have "memset_bytes n b a m = memset_bytes (n - LBLOCKSIZE) b (a + of_nat LBLOCKSIZE) (memset_bytes LBLOCKSIZE b a m)"
      using memset_bytes_add [of LBLOCKSIZE "n - LBLOCKSIZE"] by simp
    then show ?thesis using 1 True by (simp add: memset_words.simps [of n] LBLOCKSIZE_def store_fill [OF 1(2)])
  next
    case False
    then show ?thesis using 1(3) by (simp add: memset_words.simps [of n])
  qed
qed

lemma memset_blocks_eq:
  assumes "word_bytes w = [b, b, b, b]" "memset_blocks n w a m = (n', a', m')"
  shows "memset_bytes n' b a' m' = memset_bytes n b a m"
  using assms
proof (induction n w a m rule: memset_blocks.induct)
  case (1 n w a m)
  show ?case
  proof (cases "LBLOCKSIZE * 4 \<le> n")
    case True
    let ?m = "memset_bytes 4 b (a + 12) (memset_bytes 4 b (a + 8) (memset_bytes 4 b (a + 4) (memset_bytes 4 b a m)))"
    have "memset_bytes 16 b a m = ?m"
      using memset_bytes_add [of 4 12 b a m] memset_bytes_add [of 4 8 b "a + 4"] memset_bytes_add [of 4 4 b "a + 8"] by (simp add: add.assoc)
    then have "memset_bytes n b a m = memset_bytes (n - 16) b (a + 16) ?m"
      using memset_bytes_add [of 16 "n - 16" b a m] True by (simp add: LBLOCKSIZE_def)
    then show ?thesis using 1 True by (simp add: memset_blocks.simps [of n] LBLOCKSIZE_def store_fill [OF 1(2)])
  next
    case False
    then show ?thesis using 1(3) by (simp add: memset_blocks.simps [of n])
  qed
qed

lemma low_byte: "(word_of_int c AND 0xff :: u32) = ucast (word_of_int c :: u8)"
proof -
  have "(0xff :: u32) = mask 8" by (simp add: mask_eq_exp_minus_1)
  then show ?thesis by (simp only: flip: take_bit_eq_mask) (rule bit_word_eqI, auto simp: bit_simps)
qed

lemma rt_memset_eq: "rt_memset s c count m = memset_bytes (unat count) (word_of_int c) s m"
proof -
  let ?b = "word_of_int c :: u8" and ?d = "word_of_int c AND 0xff :: u32"
  let ?w = "(push_bit 8 ?d OR ?d) OR push_bit 16 (push_bit 8 ?d OR ?d)"
  have w: "word_bytes ?w = [?b, ?b, ?b, ?b]" by (rule word_of_byte) (rule low_byte)
  have d: "ucast ?d = ?b" unfolding low_byte by (rule bit_word_eqI) (auto simp: bit_simps)
  obtain n1 a1 m1 where r1: "memset_blocks (unat count) ?w s m = (n1, a1, m1)" by (rule prod_cases3)
  obtain n2 a2 m2 where r2: "memset_words n1 ?w a1 m1 = (n2, a2, m2)" by (rule prod_cases3)
  note r = r1 r2
  show ?thesis
    using r d memset_words_eq [OF w r(2)] memset_blocks_eq [OF w r(1)] by (auto simp: rt_memset_def Let_def)
qed

lemma aligned_iff: "\<not> UNALIGNED (x :: u32) \<longleftrightarrow> unat x mod 4 = 0"
proof -
  have "x AND (of_nat LBLOCKSIZE - 1) = take_bit 2 x" by (simp add: LBLOCKSIZE_def take_bit_eq_mask mask_eq_exp_minus_1)
  moreover have "take_bit 2 x = 0 \<longleftrightarrow> unat x mod 4 = 0" by (simp add: word_unat_eq_iff take_bit_eq_mod unat_mod)
  ultimately show ?thesis by (simp add: UNALIGNED_def)
qed

lemma load_bytes: "word_bytes (load_word a m) = [m a, m (a + 1), m (a + 2), m (a + 3)]"
  by (simp add: word_bytes_def load_word_def)

lemma aligned_apart:
  fixes d s i j :: u32
  assumes "unat d mod 4 = 0" "unat s mod 4 = 0" "d + i = s + j" "unat i < 4" "unat j < 4"
  shows "i = j"
proof -
  have m: "unat (a + k) mod 4 = unat k" if "unat a mod 4 = 0" "unat k < 4" for a k :: u32
  proof -
    have "unat (a + k) mod 4 = (unat a + unat k) mod 4" by (simp add: unat_word_ariths mod_mod_cancel)
    also have "\<dots> = unat k" by (simp only: mod_add_left_eq [of "unat a" 4 "unat k", symmetric] that(1) add_0 mod_less [OF that(2)])
    finally show ?thesis .
  qed
  have "unat i = unat j" by (rule trans [OF m [OF assms(1,4), symmetric]]) (simp only: assms(3) m [OF assms(2,5)])
  then show ?thesis by (simp only: word_unat_eq_iff)
qed

lemma word_aligned_step: "unat (d :: u32) mod 4 = 0 \<Longrightarrow> unat (d + 4 * k) mod 4 = 0"
proof -
  assume d: "unat d mod 4 = 0"
  have "unat (d + 4 * k) mod 4 = (unat d + unat (4 * k)) mod 4" by (simp add: unat_word_ariths mod_mod_cancel)
  moreover have "unat (4 * k) mod 4 = 0" by (simp add: unat_word_ariths mod_mod_cancel)
  then have "(unat d + unat (4 * k)) mod 4 = 0" by (simp only: mod_add_eq [of "unat d" 4, symmetric] d add_0 mod_0)
  ultimately show ?thesis by (simp only:)
qed

lemma plus3: "(1 :: u32) + 2 = 3" "(2 :: u32) + 1 = 3" by simp_all

lemma copy_word_eq:
  assumes "unat d mod 4 = 0" "unat s mod 4 = 0"
  shows "copy_word d s m = copy_bytes 4 d s m"
proof -
  have ne: "d + i \<noteq> s + j" if "i \<noteq> j" "unat i < 4" "unat j < 4" for i j :: u32
    using aligned_apart [OF assms _ that(2,3)] that(1) by blast
  have "d \<noteq> s + 1" "d \<noteq> s + 2" "d \<noteq> s + 3" "d + 1 \<noteq> s + 2" "d + 1 \<noteq> s + 3" "d + 2 \<noteq> s + 3"
    using ne [of 0 1] ne [of 0 2] ne [of 0 3] ne [of 1 2] ne [of 1 3] ne [of 2 3] by simp_all
  then have ne': "s + 1 \<noteq> d" "s + 2 \<noteq> d" "s + 3 \<noteq> d" "s + 2 \<noteq> d + 1" "s + 3 \<noteq> d + 1" "s + 3 \<noteq> d + 2" by metis+
  have "copy_bytes 4 d s m = copy_bytes (Suc (Suc (Suc (Suc 0)))) d s m" by (simp add: numeral_eq_Suc del: copy_bytes.simps)
  also have "\<dots> = m(d := m s, d + 1 := m (s + 1), d + 2 := m (s + 2), d + 3 := m (s + 3))"
    by (simp only: copy_bytes.simps add.assoc one_add_one plus3 fun_upd_other [OF ne'(1)] fun_upd_other [OF ne'(2)]
        fun_upd_other [OF ne'(3)] fun_upd_other [OF ne'(4)] fun_upd_other [OF ne'(5)] fun_upd_other [OF ne'(6)])
  finally show ?thesis
    by (simp only: copy_word_def store_word_def load_bytes mem_write.simps add.assoc one_add_one plus3)
qed

lemma memcpy_words_eq:
  assumes "memcpy_words n d s m = (n', d', s', m')" "unat d mod 4 = 0" "unat s mod 4 = 0"
  shows "copy_bytes n' d' s' m' = copy_bytes n d s m"
  using assms
proof (induction n d s m rule: memcpy_words.induct)
  case (1 n d s m)
  have up: "unat (d + 4) mod 4 = 0" "unat (s + 4) mod 4 = 0" using word_aligned_step [of d 1] word_aligned_step [of s 1] 1(3,4) by simp_all
  show ?case
  proof (cases "LBLOCKSIZE \<le> n")
    case True
    then have "copy_bytes n d s m = copy_bytes (n - 4) (d + 4) (s + 4) (copy_bytes 4 d s m)"
      using copy_bytes_add [of 4 "n - 4"] by (simp add: LBLOCKSIZE_def)
    then show ?thesis using 1 up True by (simp add: memcpy_words.simps [of n] LBLOCKSIZE_def copy_word_eq)
  next
    case False
    then show ?thesis using 1(2) by (simp add: memcpy_words.simps [of n])
  qed
qed

lemma copy_four_words:
  assumes d: "unat d mod 4 = 0" and s: "unat s mod 4 = 0"
  shows "copy_word (d + 12) (s + 12) (copy_word (d + 8) (s + 8) (copy_word (d + 4) (s + 4) (copy_word d s m))) =
    copy_bytes 16 d s m" (is "?l = _")
    and "unat (d + 16) mod 4 = 0" "unat (s + 16) mod 4 = 0"
proof -
  have up: "unat (a + 4) mod 4 = 0" "unat (a + 8) mod 4 = 0" "unat (a + 12) mod 4 = 0" "unat (a + 16) mod 4 = 0"
    if "unat a mod 4 = 0" for a :: u32
    using word_aligned_step [OF that, of 1] word_aligned_step [OF that, of 2] word_aligned_step [OF that, of 3] word_aligned_step [OF that, of 4]
    by simp_all
  show "unat (d + 16) mod 4 = 0" "unat (s + 16) mod 4 = 0" by (rule up [OF d], rule up [OF s])
  have "?l = copy_bytes 4 (d + 12) (s + 12) (copy_bytes 4 (d + 8) (s + 8) (copy_bytes 4 (d + 4) (s + 4) (copy_bytes 4 d s m)))"
    by (simp only: copy_word_eq [OF d s] copy_word_eq [OF up(1) [OF d] up(1) [OF s]]
        copy_word_eq [OF up(2) [OF d] up(2) [OF s]] copy_word_eq [OF up(3) [OF d] up(3) [OF s]])
  also have "\<dots> = copy_bytes 16 d s m"
    using copy_bytes_add [of 4 12 d s m] copy_bytes_add [of 4 8 "d + 4" "s + 4"] copy_bytes_add [of 4 4 "d + 8" "s + 8"]
    by (simp add: add.assoc)
  finally show "?l = copy_bytes 16 d s m" .
qed

lemma memcpy_blocks_eq:
  assumes "memcpy_blocks n d s m = (n', d', s', m')" "unat d mod 4 = 0" "unat s mod 4 = 0"
  shows "copy_bytes n' d' s' m' = copy_bytes n d s m \<and> unat d' mod 4 = 0 \<and> unat s' mod 4 = 0"
  using assms
proof (induction n d s m rule: memcpy_blocks.induct)
  case (1 n d s m)
  note four = copy_four_words [OF 1(3,4)]
  show ?case
  proof (cases "LBLOCKSIZE * 4 \<le> n")
    case True
    then have go: "memcpy_blocks (n - LBLOCKSIZE * 4) (d + 16) (s + 16) (copy_bytes 16 d s m) = (n', d', s', m')"
      using 1(2) by (simp only: memcpy_blocks.simps [of n] if_True four(1))
    have "copy_bytes n d s m = copy_bytes (n - LBLOCKSIZE * 4) (d + 16) (s + 16) (copy_bytes 16 d s m)"
      using copy_bytes_add [of 16 "n - 16" d s m] True by (simp add: LBLOCKSIZE_def)
    then show ?thesis using 1(1) [OF True, unfolded four(1), OF go four(2,3)] by (simp only:)
  next
    case False
    then show ?thesis using 1(2-4) by (simp add: memcpy_blocks.simps [of n])
  qed
qed

lemma rt_memcpy_eq: "rt_memcpy d s count m = copy_bytes (unat count) d s m"
proof -
  obtain n1 d1 s1 m1 where r1: "memcpy_blocks (unat count) d s m = (n1, d1, s1, m1)" by (rule prod_cases4)
  obtain n2 d2 s2 m2 where r2: "memcpy_words n1 d1 s1 m1 = (n2, d2, s2, m2)" by (rule prod_cases4)
  note r = r1 r2
  show ?thesis
    using r memcpy_blocks_eq [OF r(1)] memcpy_words_eq [OF r(2)] by (auto simp: rt_memcpy_def aligned_iff simp flip: aligned_iff)
qed

text \<open>What a copy does when it does not run into itself.\<close>

definition copied :: "u32 \<Rightarrow> u32 \<Rightarrow> nat \<Rightarrow> mem \<Rightarrow> mem \<Rightarrow> bool" where
  "copied d s n m m' \<longleftrightarrow> (\<forall>i < n. m' (d + of_nat i) = m (s + of_nat i)) \<and> (\<forall>x. \<not> in_range d n x \<longrightarrow> m' x = m x)"

lemma copy_bytes_forward:
  "unat d + n \<le> 2 ^ 32 \<Longrightarrow> unat s + n \<le> 2 ^ 32 \<Longrightarrow> unat d \<le> unat s \<or> unat s + n \<le> unat d \<Longrightarrow> copied d s n m (copy_bytes n d s m)"
proof (induction n arbitrary: d s m)
  case (Suc n)
  let ?m = "m(d := m s)"
  have up: "unat (d + 1) = unat d + 1" "unat (s + 1) = unat s + 1" if "0 < n"
    using that Suc.prems(1,2) by (simp_all add: unat_word_ariths)
  have IH: "copied (d + 1) (s + 1) n ?m (copy_bytes n (d + 1) (s + 1) ?m)"
  proof (cases "n = 0")
    case False
    show ?thesis by (rule Suc.IH) (use False Suc.prems up in auto)
  qed (simp add: copied_def)
  have away: "s + 1 + of_nat i \<noteq> d" if "i < n" for i
  proof
    assume "s + 1 + of_nat i = d"
    moreover have "unat (s + of_nat (Suc i)) = unat s + Suc i"
      using that Suc.prems(2) by (simp add: unat_word_ariths unsigned_of_nat take_bit_nat_eq_self del: of_nat_Suc)
    ultimately show False using Suc.prems(3) that by (auto simp: add.assoc)
  qed
  have out: "\<not> in_range (d + 1) n d"
    using Suc.prems(1) by (simp add: in_range_def unsigned_minus_1_eq_mask mask_eq_exp_minus_1)
  show ?case unfolding copied_def
  proof (intro conjI allI impI)
    fix i assume "i < Suc n"
    then show "copy_bytes (Suc n) d s m (d + of_nat i) = m (s + of_nat i)"
      using IH out away by (cases i) (auto simp: copied_def add.assoc)
  next
    fix x assume "\<not> in_range d (Suc n) x"
    then show "copy_bytes (Suc n) d s m x = m x"
      using IH range_Suc [of n d x] Suc.prems(1) by (auto simp: copied_def)
  qed
qed (simp add: copied_def)

lemma copy_down_back:
  "unat s < unat d \<Longrightarrow> unat d + n < 2 ^ 32 \<Longrightarrow> copied d s n m (copy_down n (d + of_nat n) (s + of_nat n) m)"
proof (induction n arbitrary: m)
  case (Suc n)
  let ?m = "m(d + of_nat n := m (s + of_nat n))"
  have IH: "copied d s n ?m (copy_down n (d + of_nat n) (s + of_nat n) ?m)" using Suc by simp
  have u: "unat (a + of_nat i) = unat a + i" if "unat a \<le> unat d" "i \<le> n" for a :: u32 and i
    using that Suc.prems(2) by (simp add: unat_word_ariths unsigned_of_nat take_bit_nat_eq_self)
  have away: "s + of_nat i \<noteq> d + of_nat n" if "i < n" for i
    using u [of s i] u [of d n] that Suc.prems(1) by (metis add_less_mono less_imp_le less_irrefl order_refl)
  have n: "\<not> in_range d n (d + of_nat n)" using Suc.prems(2) by simp
  show ?case unfolding copied_def
  proof (intro conjI allI impI)
    fix i assume "i < Suc n"
    then show "copy_down (Suc n) (d + of_nat (Suc n)) (s + of_nat (Suc n)) m (d + of_nat i) = m (s + of_nat i)"
      using IH away n by (cases "i = n") (auto simp: copied_def)
  next
    fix x assume x: "\<not> in_range d (Suc n) x"
    then have "x \<noteq> d + of_nat n" "\<not> in_range d n x" using in_range_offset [of n d "Suc n"] Suc.prems(2) by (auto simp: in_range_def)
    then show "copy_down (Suc n) (d + of_nat (Suc n)) (s + of_nat (Suc n)) m x = m x"
      using IH by (auto simp: copied_def)
  qed
qed (simp add: copied_def)

section \<open>Properties of the memory functions\<close>

text \<open>
  C30: working by words makes no difference: for all addresses and lengths, aligned or not,
  \<open>rt_memset\<close> is the loop that stores one byte after the other, and \<open>rt_memcpy\<close> is the loop that
  copies one byte after the other, also where the two areas overlap.
\<close>

theorem memory_word_loops_equal_byte_loops:
  "rt_memset s c count m = memset_bytes (unat count) (word_of_int c) s m \<and>
   rt_memcpy d s count m = copy_bytes (unat count) d s m"
  by (rule conjI [OF rt_memset_eq rt_memcpy_eq])

text \<open>
  C0: \<open>rt_memmove\<close> gives the destination the bytes the source had before, however the two areas
  overlap, and changes nothing else; \<open>rt_memcpy\<close> does so if the destination does not begin
  inside the source.
\<close>

theorem memory_moves_preserve_source:
  assumes "unat d + unat n < 2 ^ 32" "unat s + unat n < 2 ^ 32"
  shows "copied d s (unat n) m (rt_memmove d s n m) \<and>
    (\<not> (s < d \<and> d < s + n) \<longrightarrow> copied d s (unat n) m (rt_memcpy d s n m))"
proof -
  have e: "unat (s + n) = unat s + unat n" "unat (d + n) = unat d + unat n" using assms by (simp_all add: unat_add_range)
  have fwd: "copied d s (unat n) m (copy_bytes (unat n) d s m)" if "\<not> (s < d \<and> d < s + n)"
    by (rule copy_bytes_forward) (use that e assms in \<open>auto simp: word_less_nat_alt\<close>)
  have "copied d s (unat n) m (copy_down (unat n) (d + n) (s + n) m)" if "s < d"
    using copy_down_back [of s d "unat n" m] that assms by (simp add: word_less_nat_alt)
  then show ?thesis using fwd by (simp add: rt_memmove_def rt_memcpy_eq)
qed

theorem memory_moves_preserve_source_witness:
  "rt_memmove 0x1002 0x1000 4 (\<lambda>x. ucast x) 0x1005 = 3 \<and> rt_memcpy 0x1000 0x1002 4 (\<lambda>x. ucast x) 0x1003 = 5"
proof -
  have r: "unat (0x1002 :: u32) + unat (4 :: u32) < 2 ^ 32" "unat (0x1000 :: u32) + unat (4 :: u32) < 2 ^ 32" by simp_all
  show ?thesis
    using memory_moves_preserve_source [OF r, of "\<lambda>x. ucast x"] memory_moves_preserve_source [OF r(2,1), of "\<lambda>x. ucast x"]
    by (auto simp: copied_def dest!: spec [of _ 3])
qed

end
