(* ===== verification/KString.thy ===== *)
theory KString
  imports KService "HOL-Library.List_Lexorder"
begin

text \<open>
  The string functions of \<open>src/rt-thread/src/kservice.c\<close>. A string is the bytes from an address up
  to the first zero; \<open>char\<close> is unsigned on this target. A loop that runs until a zero byte is
  a \<open>partial_function\<close>: \<open>None\<close> if it never ends.
\<close>

section \<open>Functions\<close>

partial_function (option) strlen_loop :: "mem \<Rightarrow> u32 \<Rightarrow> u32 option" where
  "strlen_loop m sc = (if m sc \<noteq> 0 then strlen_loop m (sc + 1) else Some sc)"

definition rt_strlen :: "u32 \<Rightarrow> mem \<Rightarrow> u32 option" where
  "rt_strlen s m = map_option (\<lambda>sc. sc - s) (strlen_loop m s)"

fun strnlen_loop :: "nat \<Rightarrow> u32 \<Rightarrow> mem \<Rightarrow> u32" where
  "strnlen_loop 0 sc m = sc"
| "strnlen_loop (Suc n) sc m = (if m sc \<noteq> 0 then strnlen_loop n (sc + 1) m else sc)"

definition rt_strnlen :: "u32 \<Rightarrow> u32 \<Rightarrow> mem \<Rightarrow> u32" where
  "rt_strnlen s maxlen m = strnlen_loop (unat maxlen) s m - s"

partial_function (option) rt_strcmp :: "u32 \<Rightarrow> u32 \<Rightarrow> mem \<Rightarrow> int option" where
  "rt_strcmp cs ct m =
     (if m cs \<noteq> 0 \<and> m cs = m ct then rt_strcmp (cs + 1) (ct + 1) m else Some (uint (m cs) - uint (m ct)))"

text \<open>The difference is kept in a \<open>signed char\<close>.\<close>

fun strncmp_loop :: "nat \<Rightarrow> u32 \<Rightarrow> u32 \<Rightarrow> mem \<Rightarrow> int" where
  "strncmp_loop 0 cs ct m = 0"
| "strncmp_loop (Suc count) cs ct m =
     (let res = m cs - m ct
      in if res \<noteq> 0 \<or> m cs = 0 then sint res else strncmp_loop count (cs + 1) (ct + 1) m)"

definition rt_strncmp :: "u32 \<Rightarrow> u32 \<Rightarrow> u32 \<Rightarrow> mem \<Rightarrow> int" where
  "rt_strncmp cs ct count m = strncmp_loop (unat count) cs ct m"

definition lower :: "u8 \<Rightarrow> int" where
  "lower c = (if 65 \<le> uint c \<and> uint c \<le> 90 then uint c + 32 else uint c)"

partial_function (option) rt_strcasecmp :: "u32 \<Rightarrow> u32 \<Rightarrow> mem \<Rightarrow> int option" where
  "rt_strcasecmp a b m =
     (if lower (m a) = lower (m b) \<and> lower (m a) \<noteq> 0 then rt_strcasecmp (a + 1) (b + 1) m
      else Some (lower (m a) - lower (m b)))"

partial_function (option) rt_strcpy :: "u32 \<Rightarrow> u32 \<Rightarrow> mem \<Rightarrow> mem option" where
  "rt_strcpy dst src m =
     (if m src \<noteq> 0 then rt_strcpy (dst + 1) (src + 1) (m(dst := m src)) else Some (m(dst := 0)))"

fun strncpy_loop :: "nat \<Rightarrow> u32 \<Rightarrow> u32 \<Rightarrow> mem \<Rightarrow> mem" where
  "strncpy_loop 0 d s m = m"
| "strncpy_loop (Suc n) d s m =
     (if m s = 0 then memset_bytes n 0 (d + 1) (m(d := 0)) else strncpy_loop n (d + 1) (s + 1) (m(d := m s)))"

definition rt_strncpy :: "u32 \<Rightarrow> u32 \<Rightarrow> u32 \<Rightarrow> mem \<Rightarrow> mem" where
  "rt_strncpy dst src n m = strncpy_loop (unat n) dst src m"

text \<open>The result is an address or the null pointer, \<open>Some None\<close>.\<close>

function strstr_loop :: "int \<Rightarrow> int \<Rightarrow> u32 \<Rightarrow> u32 \<Rightarrow> mem \<Rightarrow> u32 option" where
  "strstr_loop l1 l2 s1 s2 m =
     (if l2 \<le> l1
      then if rt_memcmp s1 s2 (word_of_int l2) m = 0 then Some s1 else strstr_loop (l1 - 1) l2 (s1 + 1) s2 m
      else None)"
  by auto
termination by (relation "measure (\<lambda>(l1, l2, _). nat (l1 - l2 + 1))") auto

declare strstr_loop.simps [simp del]

definition rt_strstr :: "u32 \<Rightarrow> u32 \<Rightarrow> mem \<Rightarrow> u32 option option" where
  "rt_strstr s1 s2 m =
     Option.bind (rt_strlen s2 m) (\<lambda>l2.
       if l2 = 0 then Some (Some s1)
       else map_option (\<lambda>l1. strstr_loop (sint l1) (sint l2) s1 s2 m) (rt_strlen s1 m))"

declare strlen_loop.simps [code] rt_strcmp.simps [code] rt_strcasecmp.simps [code] rt_strcpy.simps [code]

section \<open>Strings in memory\<close>

fun c_string :: "mem \<Rightarrow> u32 \<Rightarrow> buf \<Rightarrow> bool" where
  "c_string m s [] \<longleftrightarrow> m s = 0"
| "c_string m s (c # cs) \<longleftrightarrow> m s = c \<and> c \<noteq> 0 \<and> c_string m (s + 1) cs"

lemma strlen_loop_string: "c_string m s cs \<Longrightarrow> strlen_loop m s = Some (s + of_nat (length cs))"
  by (induction m s cs rule: c_string.induct) (simp_all add: strlen_loop.simps add.assoc)

lemma strlen_string: "c_string m s cs \<Longrightarrow> rt_strlen s m = Some (of_nat (length cs))"
  by (simp add: rt_strlen_def strlen_loop_string)

lemma strnlen_loop_string: "c_string m s cs \<Longrightarrow> strnlen_loop k s m = s + of_nat (min (length cs) k)"
proof (induction k arbitrary: s cs)
  case (Suc k)
  then show ?case by (cases cs) (auto simp: add.assoc)
qed simp

lemma strnlen_string: "c_string m s cs \<Longrightarrow> rt_strnlen s n m = of_nat (min (length cs) (unat n))"
  by (simp add: rt_strnlen_def strnlen_loop_string)

lemma byte_diff:
  fixes c d :: u8
  shows "uint c = uint d \<longleftrightarrow> c = d" "uint c < uint d \<longleftrightarrow> c < d" "uint c = 0 \<longleftrightarrow> c = 0"
    "0 < uint c \<longleftrightarrow> c \<noteq> 0"
  using uint_0_iff [of c] by (simp_all add: word_less_def word_uint_eq_iff order_less_le)

lemma byte_pos: "(c :: u8) \<noteq> 0 \<Longrightarrow> 0 < c"
  by (simp add: word_gt_0)

lemma strcmp_string:
  "c_string m a x \<Longrightarrow> c_string m b y \<Longrightarrow>
   \<exists>r. rt_strcmp a b m = Some r \<and> (r = 0 \<longleftrightarrow> x = y) \<and> (r < 0 \<longleftrightarrow> x < y)"
proof (induction x arbitrary: a b y)
  case Nil
  then show ?case
    by (cases y) (auto simp: rt_strcmp.simps [of a] byte_diff dest: byte_pos)
next
  case (Cons c x)
  show ?case
  proof (cases y)
    case Nil
    then show ?thesis using Cons.prems by (auto simp: rt_strcmp.simps [of a] byte_diff)
  next
    case (Cons d y')
    show ?thesis
    proof (cases "c = d")
      case True
      then show ?thesis using Cons.prems Cons.IH [of "a + 1" "b + 1" y'] Cons
        by (auto simp: rt_strcmp.simps [of a])
    next
      case False
      then show ?thesis using Cons.prems Cons by (auto simp: rt_strcmp.simps [of a] byte_diff)
    qed
  qed
qed

lemma byte_diff_zero: "sint ((c :: u8) - d) = 0 \<longleftrightarrow> c = d" "sint (c :: u8) = 0 \<longleftrightarrow> c = 0"
  by (metis eq_iff_diff_eq_0 signed_eq_0_iff) (rule signed_eq_0_iff)

lemma strncmp_string:
  "c_string m a x \<Longrightarrow> c_string m b y \<Longrightarrow> strncmp_loop n a b m = 0 \<longleftrightarrow> take n x = take n y"
proof (induction n arbitrary: a b x y)
  case (Suc n)
  then show ?case
    by (cases x; cases y) (auto simp: Let_def byte_diff_zero simp flip: diff_0)
qed simp

lemma lower_zero: "lower c = 0 \<longleftrightarrow> c = 0" "lower 0 = 0"
  by (auto simp: lower_def byte_diff)

lemma strcasecmp_string:
  "c_string m a x \<Longrightarrow> c_string m b y \<Longrightarrow> \<exists>r. rt_strcasecmp a b m = Some r \<and> (r = 0 \<longleftrightarrow> map lower x = map lower y)"
proof (induction x arbitrary: a b y)
  case Nil
  then show ?case by (cases y) (auto simp: rt_strcasecmp.simps [of a] lower_zero)
next
  case (Cons c x)
  show ?case
  proof (cases y)
    case Nil
    then show ?thesis using Cons.prems by (auto simp: rt_strcasecmp.simps [of a] lower_zero)
  next
    case (Cons d y')
    then show ?thesis
      using Cons.prems Cons.IH [of "a + 1" "b + 1" y'] by (auto simp: rt_strcasecmp.simps [of a] lower_zero)
  qed
qed

section \<open>Copies\<close>

lemma c_string_upd:
  "c_string m s cs \<Longrightarrow> \<not> in_range s (Suc (length cs)) x \<Longrightarrow> length cs < 2 ^ 32 \<Longrightarrow> c_string (m(x := b)) s cs"
proof (induction cs arbitrary: s)
  case (Cons c cs)
  then have "x \<noteq> s" "\<not> in_range (s + 1) (Suc (length cs)) x" using range_Suc [of "Suc (length cs)" s x] by auto
  then show ?case using Cons by auto
qed (auto simp: range_Suc)

lemma strcpy_string:
  assumes "c_string m s cs" "length cs < 2 ^ 32"
    and "\<And>x. in_range d (Suc (length cs)) x \<Longrightarrow> \<not> in_range s (Suc (length cs)) x"
  shows "rt_strcpy d s m = Some (mem_write d (cs @ [0]) m)"
  using assms
proof (induction cs arbitrary: s d m)
  case Nil
  then show ?case by (simp add: rt_strcpy.simps fun_eq_iff)
next
  case (Cons c cs)
  let ?n = "Suc (length cs)"
  have n: "?n < 2 ^ 32" using Cons.prems(2) by simp
  have apart: "\<not> in_range (s + 1) ?n x" if "x = d \<or> in_range (d + 1) ?n x" for x
    using Cons.prems(3) [of x] that range_Suc [OF n] by simp
  have "c_string (m(d := c)) (s + 1) cs"
    by (rule c_string_upd) (use Cons.prems(1) apart n in auto)
  then have "rt_strcpy (d + 1) (s + 1) (m(d := c)) = Some (mem_write (d + 1) (cs @ [0]) (m(d := c)))"
    by (rule Cons.IH) (use n apart in auto)
  then show ?case using Cons.prems(1) by (simp add: rt_strcpy.simps [of d s])
qed

lemma memset_replicate: "memset_bytes n b a m = mem_write a (replicate n b) m"
  by (induction n arbitrary: a m) simp_all

lemma strncpy_string:
  assumes "c_string m s cs" "length cs < 2 ^ 32" "n < 2 ^ 32"
    and "\<And>x. in_range d n x \<Longrightarrow> \<not> in_range s (Suc (length cs)) x"
  shows "strncpy_loop n d s m = mem_write d (take n (cs @ replicate n 0)) m"
  using assms
proof (induction n arbitrary: s cs d m)
  case (Suc n)
  show ?case
  proof (cases cs)
    case Nil
    then show ?thesis using Suc.prems(1) by (simp add: memset_replicate)
  next
    case (Cons c cs')
    have n: "n < 2 ^ 32" and l: "Suc (length cs') < 2 ^ 32" using Suc.prems(2,3) Cons by simp_all
    have apart: "\<not> in_range (s + 1) (Suc (length cs')) x" if "x = d \<or> in_range (d + 1) n x" for x
      using Suc.prems(4) [of x] that range_Suc [OF n] range_Suc [OF l] Cons by simp
    have "c_string (m(d := c)) (s + 1) cs'"
      by (rule c_string_upd) (use Suc.prems(1) apart l Cons in auto)
    then have "strncpy_loop n (d + 1) (s + 1) (m(d := c)) = mem_write (d + 1) (take n (cs' @ replicate n 0)) (m(d := c))"
      by (rule Suc.IH) (use n l apart in auto)
    moreover have "take n (cs' @ replicate (Suc n) 0) = take n (cs' @ replicate n (0 :: u8))"
      by (simp add: min_def del: replicate_Suc)
    ultimately show ?thesis using Suc.prems(1) Cons by simp
  qed
qed simp

section \<open>Search\<close>

lemma c_string_at: "c_string m a x \<Longrightarrow> i < length x \<Longrightarrow> m (a + of_nat i) = x ! i"
proof (induction x arbitrary: a i)
  case (Cons c x)
  then show ?case by (cases i) (auto simp: add.assoc [symmetric])
qed simp

lemma memcmp_zero: "memcmp_loop n a b m = 0 \<longleftrightarrow> (\<forall>i < n. m (a + of_nat i) = m (b + of_nat i))"
proof (induction n arbitrary: a b)
  case (Suc n)
  then show ?case
    by (auto simp: Let_def byte_diff All_less_Suc2 add.assoc)
qed simp

lemma c_string_drop: "c_string m a x \<Longrightarrow> k \<le> length x \<Longrightarrow> c_string m (a + of_nat k) (drop k x)"
proof (induction x arbitrary: a k)
  case (Cons c x)
  then show ?case by (cases k) (auto simp: add.assoc [symmetric])
qed simp

definition occurs_at :: "buf \<Rightarrow> buf \<Rightarrow> nat \<Rightarrow> bool" where
  "occurs_at y x k \<longleftrightarrow> take (length y) (drop k x) = y"

lemma memcmp_occurs:
  assumes "c_string m a x" "c_string m b y" "length y \<le> length x"
  shows "memcmp_loop (length y) a b m = 0 \<longleftrightarrow> take (length y) x = y"
proof -
  have "memcmp_loop (length y) a b m = 0 \<longleftrightarrow> (\<forall>i < length y. x ! i = y ! i)"
    using c_string_at [OF assms(1)] c_string_at [OF assms(2)] assms(3) by (simp add: memcmp_zero)
  then show ?thesis using assms(3) by (auto simp: list_eq_iff_nth_eq)
qed

text \<open>The places where \<open>y\<close> occurs in \<open>x\<close>, in order; \<open>rt_strstr\<close> finds the first.\<close>

lemma find_upt:
  "find P [i..<Suc j] = (if j < i then None else if P i then Some i else find P [Suc i..<Suc j])"
proof (cases "i \<le> j")
  case True
  then have "[i..<Suc j] = i # [Suc i..<Suc j]" by (subst upt_rec) simp
  then show ?thesis using True by (simp del: upt_Suc)
qed simp

lemma strstr_loop_string:
  assumes "c_string m b y" "c_string m a x" "length y < 2 ^ 31" "k \<le> length x"
  shows "strstr_loop (int (length x) - int k) (int (length y)) (a + of_nat k) b m =
    map_option (\<lambda>k. a + of_nat k) (find (occurs_at y x) [k..<Suc (length x)])"
  using assms(4)
proof (induction "length x - k" arbitrary: k rule: less_induct)
  case less
  have u: "unat (of_nat (length y) :: u32) = length y" by (rule unat_of_nat32) (use assms(3) in simp)
  have short: "find (occurs_at y x) [k..<Suc (length x)] = None" if "length x < k + length y"
    using that by (auto simp: find_None_iff occurs_at_def dest!: arg_cong [where f = length])
  show ?case
  proof (cases "k + length y \<le> length x")
    case True
    have "memcmp_loop (length y) (a + of_nat k) b m = 0 \<longleftrightarrow> occurs_at y x k"
      using memcmp_occurs [OF c_string_drop [OF assms(2) less.prems] assms(1)] True by (simp add: occurs_at_def)
    then have c: "rt_memcmp (a + of_nat k) b (word_of_int (int (length y))) m = 0 \<longleftrightarrow> occurs_at y x k"
      using u by (simp add: rt_memcmp_def)
    have n: "strstr_loop (int (length x) - int (Suc k)) (int (length y)) (a + of_nat (Suc k)) b m =
        map_option (\<lambda>k. a + of_nat k) (find (occurs_at y x) [Suc k..<Suc (length x)])" if "k < length x"
      using less.hyps [of "Suc k"] that by simp
    show ?thesis
    proof (cases "occurs_at y x k")
      case False
      then have "k < length x" using True less.prems by (cases y) (auto simp: occurs_at_def)
      then show ?thesis
        using n False c True by (subst strstr_loop.simps, subst find_upt) (simp add: algebra_simps)
    qed (use True c in \<open>subst strstr_loop.simps, subst find_upt, simp\<close>)
  next
    case False
    then show ?thesis using short by (subst strstr_loop.simps) simp
  qed
qed

section \<open>Properties of the string functions\<close>

lemma memcmp_mem_read:
  "(memcmp_loop n a b m = 0 \<longleftrightarrow> mem_read m a n = mem_read m b n) \<and>
   (memcmp_loop n a b m < 0 \<longleftrightarrow> mem_read m a n < mem_read m b n)"
  by (induction n arbitrary: a b) (auto simp: Let_def byte_diff)

text \<open>
  The comparisons order as they say: for two strings, \<open>rt_strcmp\<close> returns, and its result is
  zero, negative or positive as the first is equal to, before or after the second in
  lexicographic order of the bytes; \<open>rt_memcmp\<close> does the same for two areas of one length.
  \<open>rt_strncmp\<close> is zero exactly if the strings agree up to the given length, and \<open>rt_strcasecmp\<close>
  if they agree up to the case of letters.
\<close>

theorem string_comparisons_lexicographic:
  assumes "c_string m a x" "c_string m b y"
  shows "(\<exists>r. rt_strcmp a b m = Some r \<and> (r = 0 \<longleftrightarrow> x = y) \<and> (r < 0 \<longleftrightarrow> x < y) \<and> (0 < r \<longleftrightarrow> y < x))
    \<and> (rt_memcmp a b n m = 0 \<longleftrightarrow> mem_read m a (unat n) = mem_read m b (unat n))
    \<and> (rt_memcmp a b n m < 0 \<longleftrightarrow> mem_read m a (unat n) < mem_read m b (unat n))
    \<and> (rt_strncmp a b n m = 0 \<longleftrightarrow> take (unat n) x = take (unat n) y)
    \<and> (\<exists>r. rt_strcasecmp a b m = Some r \<and> (r = 0 \<longleftrightarrow> map lower x = map lower y))"
proof -
  obtain r where r: "rt_strcmp a b m = Some r" "r = 0 \<longleftrightarrow> x = y" "r < 0 \<longleftrightarrow> x < y" using strcmp_string [OF assms] by blast
  then have "0 < r \<longleftrightarrow> y < x" by (metis less_linear not_less_iff_gr_or_eq)
  then have cmp: "\<exists>r. rt_strcmp a b m = Some r \<and> (r = 0 \<longleftrightarrow> x = y) \<and> (r < 0 \<longleftrightarrow> x < y) \<and> (0 < r \<longleftrightarrow> y < x)"
    using r by blast
  show ?thesis
    using cmp memcmp_mem_read [of "unat n" a b m] strncmp_string [OF assms, of "unat n"] strcasecmp_string [OF assms]
    unfolding rt_memcmp_def rt_strncmp_def by blast
qed

text \<open>Three strings in memory: \<open>bca\<close>, \<open>BCa\<close> and \<open>ca\<close>.\<close>

definition sample_strings :: mem where
  "sample_strings = mem_write 0x100 [98, 99, 97, 0] (mem_write 0x200 [66, 67, 97, 0] (mem_write 0x300 [99, 97, 0] (\<lambda>_. 1)))"

lemma sample_strings:
  "c_string sample_strings 0x100 [98, 99, 97]" "c_string sample_strings 0x200 [66, 67, 97]"
  "c_string sample_strings 0x300 [99, 97]"
  by (simp_all add: sample_strings_def)

theorem string_comparisons_lexicographic_witness:
  "(\<exists>r > 0. rt_strcmp 0x100 0x200 sample_strings = Some r) \<and> rt_strcasecmp 0x100 0x200 sample_strings = Some 0 \<and>
   rt_strncmp 0x100 0x200 1 sample_strings \<noteq> 0"
  using string_comparisons_lexicographic [OF sample_strings(1,2), of 1] by (auto simp: lower_def)

text \<open>
  C31: \<open>rt_strstr\<close> returns the first place where the second string occurs in the first, and the
  null pointer if there is none.
\<close>

theorem strstr_finds_first_occurrence:
  assumes "c_string m a x" "c_string m b y" "length x < 2 ^ 31" "length y < 2 ^ 31"
  shows "rt_strstr a b m = Some (map_option (\<lambda>k. a + of_nat k) (find (occurs_at y x) [0..<Suc (length x)]))"
proof -
  have len: "sint (of_nat (length z) :: u32) = int (length z)" if "length z < 2 ^ 31" for z :: buf
    using that by (simp add: sint_uint unsigned_of_nat take_bit_nat_eq_self signed_take_bit_int_eq_self)
  have empty: "of_nat (length y) = (0 :: u32) \<longleftrightarrow> y = []"
    using of_nat_inject_exact [of "length y" 0] assms(4) by simp
  show ?thesis
  proof (cases y)
    case Nil
    then show ?thesis
      using strlen_string [OF assms(2)] find_upt [of "occurs_at y x" 0 "length x"]
      by (simp add: rt_strstr_def occurs_at_def del: upt_Suc)
  next
    case Cons
    then show ?thesis
      using strlen_string [OF assms(1)] strlen_string [OF assms(2)] strstr_loop_string [OF assms(2,1,4), of 0] empty
        len [OF assms(3)] len [OF assms(4)]
      by (simp add: rt_strstr_def del: upt_Suc)
  qed
qed

theorem strstr_finds_first_occurrence_witness:
  "rt_strstr 0x100 0x300 sample_strings = Some (Some 0x101) \<and> rt_strstr 0x200 0x300 sample_strings = Some None"
  using strstr_finds_first_occurrence [OF sample_strings(1,3)] strstr_finds_first_occurrence [OF sample_strings(2,3)]
  by (simp add: occurs_at_def upt_rec)

text \<open>
  C0: \<open>rt_strcpy\<close> returns and leaves the string with its zero at the destination, and \<open>rt_strncpy\<close>
  exactly \<open>n\<close> bytes, the string cut or filled up with zeros; neither writes anything else.
\<close>

theorem string_copies_write_exactly:
  assumes "c_string m s cs" "length cs < k" "unat n \<le> k" "k < 2 ^ 32"
    and "\<And>x. in_range d k x \<Longrightarrow> \<not> in_range s k x"
  shows "rt_strcpy d s m = Some (mem_write d (cs @ [0]) m)
    \<and> rt_strncpy d s n m = mem_write d (take (unat n) (cs @ replicate (unat n) 0)) m"
proof (intro conjI)
  have apart: "\<not> in_range s (Suc (length cs)) x" if "in_range d k' x" "k' \<le> k" for x k'
    using assms(5) [of x] that assms(2) by (auto simp: in_range_def)
  show "rt_strcpy d s m = Some (mem_write d (cs @ [0]) m)"
    by (rule strcpy_string [OF assms(1)]) (use assms(2,4) apart in auto)
  show "rt_strncpy d s n m = mem_write d (take (unat n) (cs @ replicate (unat n) 0)) m"
    unfolding rt_strncpy_def by (rule strncpy_string [OF assms(1)]) (use assms(2-4) apart in auto)
qed

theorem string_copies_write_exactly_witness:
  "rt_strncpy 0x400 0x300 4 sample_strings = mem_write 0x400 [99, 97, 0, 0] sample_strings"
proof -
  have apart: "\<not> in_range 0x300 4 x" if "in_range 0x400 4 x" for x
    using that in_range_iff [of "0x300" 4 x] in_range_iff [of "0x400" 4 x] by simp
  have "replicate 2 (0 :: u8) = [0, 0]" by (simp add: numeral_eq_Suc)
  then show ?thesis
    using string_copies_write_exactly [OF sample_strings(3), of 4 4 "0x400"] apart by simp
qed

text \<open>
  \<open>rt_strncmp\<close> keeps the difference of two bytes in a \<open>signed char\<close>: bytes more than 127 apart
  are ordered the wrong way round.
\<close>

lemma strncmp_orders_far_bytes_wrongly:
  assumes "m a = 200" "m b = 10"
  shows "rt_strncmp a b 1 m = - 66"
proof -
  have "sint (200 - 10 :: u8) = - 66" by code_simp
  moreover have "(200 :: u8) - 10 \<noteq> 0" by code_simp
  ultimately show ?thesis using assms by (simp only: rt_strncmp_def unsigned_1 One_nat_def strncmp_loop.simps Let_def if_True simp_thms)
qed

end
