(* ===== verification/Printf.thy ===== *)
theory Printf
  imports KString
begin

text \<open>
  Formatted output of the kernel: \<open>rt_vsnprintf\<close> of \<open>src/rt-thread/src/kservice.c\<close>, with
  \<open>RT_PRINTF_PRECISION\<close> defined and neither \<open>RT_PRINTF_LONGLONG\<close> nor \<open>RT_PRINTF_SPECIAL\<close>. The format is
  the bytes before its zero. Memory is written through \<open>put\<close>, which counts on beyond the end of
  the buffer. The arguments are words or addresses; taking one of the wrong kind, or reading a
  string that has no end, is \<open>None\<close>. Widths and precisions are counted without a bound.
\<close>

section \<open>Arguments, flags and digits\<close>

datatype varg = Int_arg u32 | Ptr_arg u32

definition va_int :: "varg list \<Rightarrow> (u32 \<times> varg list) option" where
  "va_int args = (case args of Int_arg v # args' \<Rightarrow> Some (v, args') | _ \<Rightarrow> None)"

definition va_ptr :: "varg list \<Rightarrow> (u32 \<times> varg list) option" where
  "va_ptr args = (case args of Ptr_arg p # args' \<Rightarrow> Some (p, args') | _ \<Rightarrow> None)"

definition ZEROPAD :: u8 where "ZEROPAD = 1"
definition SIGN :: u8 where "SIGN = 2"
definition PLUS :: u8 where "PLUS = 4"
definition SPACE :: u8 where "SPACE = 8"
definition LEFT :: u8 where "LEFT = 16"
definition SPECIAL :: u8 where "SPECIAL = 32"
definition LARGE :: u8 where "LARGE = 64"

definition isset :: "u8 \<Rightarrow> u8 \<Rightarrow> bool" where
  "isset f flags \<longleftrightarrow> flags AND f \<noteq> 0"

abbreviation (input) ch :: "char \<Rightarrow> u8" where "ch c \<equiv> of_char c"

definition is_digit :: "u8 \<Rightarrow> bool" where
  "is_digit c \<longleftrightarrow> ch CHR ''0'' \<le> c \<and> c \<le> ch CHR ''9''"

definition divide_base :: "u32 \<Rightarrow> int \<Rightarrow> u32 \<times> u32" where
  "divide_base n base = (if base = 10 then (n mod 10, n div 10) else (n mod 16, n div 16))"

definition digit_char :: "u8 \<Rightarrow> u32 \<Rightarrow> u8" where
  "digit_char type d =
     (if d < 10 then ch CHR ''0'' + ucast d
      else (if isset LARGE type then ch CHR ''A'' else ch CHR ''a'') + ucast (d - 10))"

text \<open>The digits as they are put into \<open>tmp\<close>, least significant first.\<close>

function number_digits :: "u8 \<Rightarrow> int \<Rightarrow> u32 \<Rightarrow> buf" where
  "number_digits type base num =
     (if num = 0 then []
      else let (res, n) = divide_base num base in digit_char type res # number_digits type base n)"
  by auto
termination
  by (relation "measure (\<lambda>(_, _, n). unat n)")
    (auto simp: divide_base_def unat_div unat_gt_0 split: if_splits)

declare number_digits.simps [simp del]

section \<open>Output\<close>

type_synonym sink = "u32 \<times> mem"

definition put :: "u32 \<Rightarrow> u8 \<Rightarrow> sink \<Rightarrow> sink" where
  "put lim c = (\<lambda>(str, m). (str + 1, if str < lim then m(str := c) else m))"

fun fill :: "nat \<Rightarrow> u32 \<Rightarrow> u8 \<Rightarrow> sink \<Rightarrow> sink" where
  "fill 0 lim c k = k"
| "fill (Suc n) lim c k = fill n lim c (put lim c k)"

text \<open>\<open>while (size-- > 0)\<close>.\<close>

definition pad :: "int \<Rightarrow> u32 \<Rightarrow> u8 \<Rightarrow> sink \<Rightarrow> int \<times> sink" where
  "pad n lim c k = (min n 0 - 1, fill (nat n) lim c k)"

fun put_bytes :: "u32 \<Rightarrow> buf \<Rightarrow> sink \<Rightarrow> sink" where
  "put_bytes lim [] k = k"
| "put_bytes lim (b # bs) k = put_bytes lim bs (put lim b k)"

fun put_string :: "nat \<Rightarrow> u32 \<Rightarrow> u32 \<Rightarrow> sink \<Rightarrow> sink" where
  "put_string 0 lim s k = k"
| "put_string (Suc n) lim s k = put_string n lim (s + 1) (put lim (snd k s) k)"

definition print_number :: "u32 \<Rightarrow> u32 \<Rightarrow> int \<Rightarrow> int \<Rightarrow> int \<Rightarrow> u8 \<Rightarrow> sink \<Rightarrow> sink" where
  "print_number lim num base s precision type k =
     (let precision_bak = precision;
          type = (if isset LEFT type then type AND NOT ZEROPAD else type);
          c = (if isset ZEROPAD type then ch CHR ''0'' else ch CHR '' '');
          (sign, num) =
            (if isset SIGN type then
               if sint num < 0 then (ch CHR ''-'', - num)
               else if isset PLUS type then (ch CHR ''+'', num)
               else if isset SPACE type then (ch CHR '' '', num) else (0, num)
             else (0, num));
          tmp = (if num = 0 then [ch CHR ''0''] else number_digits type base num);
          i = int (length tmp);
          precision = (if precision < i then i else precision);
          size = s - precision;
          (size, k) =
            (if \<not> isset ZEROPAD type \<and> \<not> isset LEFT type
             then pad (if sign \<noteq> 0 \<and> 0 < size then size - 1 else size) lim (ch CHR '' '') k else (size, k));
          (size, k) = (if sign \<noteq> 0 then (size - 1, put lim sign k) else (size, k));
          (size, k) = (if \<not> isset LEFT type then pad size lim c k else (size, k));
          k = fill (nat (precision - i)) lim (ch CHR ''0'') k;
          k = (if precision_bak \<noteq> 0 then put_bytes lim (rev tmp) k else k)
      in snd (pad size lim (ch CHR '' '') k))"

section \<open>The parts of a conversion\<close>

fun skip_atoi :: "int \<Rightarrow> buf \<Rightarrow> int \<times> buf" where
  "skip_atoi i [] = (i, [])"
| "skip_atoi i (c # fmt) = (if is_digit c then skip_atoi (i * 10 + (uint c - 48)) fmt else (i, c # fmt))"

fun get_flags :: "u8 \<Rightarrow> buf \<Rightarrow> u8 \<times> buf" where
  "get_flags flags [] = (flags, [])"
| "get_flags flags (c # fmt) =
     (if c = ch CHR ''-'' then get_flags (flags OR LEFT) fmt
      else if c = ch CHR ''+'' then get_flags (flags OR PLUS) fmt
      else if c = ch CHR '' '' then get_flags (flags OR SPACE) fmt
      else if c = ch CHR ''#'' then get_flags (flags OR SPECIAL) fmt
      else if c = ch CHR ''0'' then get_flags (flags OR ZEROPAD) fmt
      else (flags, c # fmt))"

definition starts :: "(u8 \<Rightarrow> bool) \<Rightarrow> buf \<Rightarrow> bool" where
  "starts P fmt \<longleftrightarrow> (case fmt of [] \<Rightarrow> False | c # _ \<Rightarrow> P c)"

definition get_width :: "u8 \<Rightarrow> buf \<Rightarrow> varg list \<Rightarrow> (int \<times> u8 \<times> buf \<times> varg list) option" where
  "get_width flags fmt args =
     (if starts is_digit fmt then let (w, fmt) = skip_atoi 0 fmt in Some (w, flags, fmt, args)
      else if starts (\<lambda>c. c = ch CHR ''*'') fmt then
        map_option (\<lambda>(v, args). if sint v < 0 then (- sint v, flags OR LEFT, tl fmt, args) else (sint v, flags, tl fmt, args))
          (va_int args)
      else Some (- 1, flags, fmt, args))"

definition get_precision :: "buf \<Rightarrow> varg list \<Rightarrow> (int \<times> buf \<times> varg list) option" where
  "get_precision fmt args =
     (if starts (\<lambda>c. c = ch CHR ''.'') fmt then
        let fmt = tl fmt
        in map_option (\<lambda>(p, fmt, args). (if p < 0 then 0 else p, fmt, args))
             (if starts is_digit fmt then let (p, fmt) = skip_atoi 0 fmt in Some (p, fmt, args)
              else if starts (\<lambda>c. c = ch CHR ''*'') fmt then map_option (\<lambda>(v, args). (sint v, tl fmt, args)) (va_int args)
              else Some (- 1, fmt, args))
      else Some (- 1, fmt, args))"

definition get_qualifier :: "buf \<Rightarrow> u8 \<times> buf" where
  "get_qualifier fmt = (if starts (\<lambda>c. c = ch CHR ''h'' \<or> c = ch CHR ''l'') fmt then (hd fmt, tl fmt) else (0, fmt))"

record directive =
  flags :: u8
  field_width :: int
  precision :: int
  qualifier :: u8

definition get_directive :: "buf \<Rightarrow> varg list \<Rightarrow> (directive \<times> buf \<times> varg list) option" where
  "get_directive fmt args =
     (let (fl, fmt) = get_flags 0 fmt
      in Option.bind (get_width fl fmt args) (\<lambda>(w, fl, fmt, args).
           map_option (\<lambda>(p, fmt, args).
             let (q, fmt) = get_qualifier fmt
             in (\<lparr>flags = fl, field_width = w, precision = p, qualifier = q\<rparr>, fmt, args))
             (get_precision fmt args)))"

section \<open>Conversions\<close>

text \<open>\<open>%s\<close>: the length is counted up to the field width, if there is one.\<close>

definition null_string :: buf where
  "null_string = map of_char ''(NULL)''"

definition string_length :: "int \<Rightarrow> u32 \<Rightarrow> mem \<Rightarrow> int option" where
  "string_length w s m =
     (if s = 0 then Some (if 0 \<le> w then min w 6 else 6)
      else if 0 \<le> w then Some (uint (strnlen_loop (nat w) s m - s))
      else map_option (\<lambda>sc. uint (sc - s)) (strlen_loop m s))"

definition conv_string :: "directive \<Rightarrow> u32 \<Rightarrow> u32 \<Rightarrow> sink \<Rightarrow> sink option" where
  "conv_string d lim s k =
     map_option (\<lambda>len.
       let len = (if 0 < precision d \<and> precision d < len then precision d else len);
           spaces = nat (field_width d - len);
           k = (if isset LEFT (flags d) then k else fill spaces lim (ch CHR '' '') k);
           k = (if s = 0 then put_bytes lim (take (nat len) null_string) k else put_string (nat len) lim s k)
       in if isset LEFT (flags d) then fill spaces lim (ch CHR '' '') k else k)
     (string_length (field_width d) s (snd k))"

definition conv_char :: "directive \<Rightarrow> u32 \<Rightarrow> u32 \<Rightarrow> sink \<Rightarrow> sink" where
  "conv_char d lim v k =
     (let spaces = nat (field_width d - 1);
          k = (if isset LEFT (flags d) then k else fill spaces lim (ch CHR '' '') k);
          k = put lim (ucast v) k
      in if isset LEFT (flags d) then fill spaces lim (ch CHR '' '') k else k)"

definition conv_pointer :: "directive \<Rightarrow> u32 \<Rightarrow> u32 \<Rightarrow> sink \<Rightarrow> sink" where
  "conv_pointer d lim p k =
     (let d = (if field_width d = - 1 then d\<lparr>field_width := 8, flags := flags d OR ZEROPAD\<rparr> else d)
      in print_number lim p 16 (field_width d) (precision d) (flags d) k)"

text \<open>Base and flags of the integer conversions; \<open>None\<close> for another character.\<close>

definition int_conv :: "u8 \<Rightarrow> u8 \<Rightarrow> (int \<times> u8) option" where
  "int_conv c fl =
     (if c = ch CHR ''o'' then Some (8, fl)
      else if c = ch CHR ''X'' then Some (16, fl OR LARGE)
      else if c = ch CHR ''x'' then Some (16, fl)
      else if c = ch CHR ''d'' \<or> c = ch CHR ''i'' then Some (10, fl OR SIGN)
      else if c = ch CHR ''u'' then Some (10, fl) else None)"

definition apply_qualifier :: "u8 \<Rightarrow> u8 \<Rightarrow> u32 \<Rightarrow> u32" where
  "apply_qualifier q fl v =
     (if q = ch CHR ''h'' then if isset SIGN fl then scast (ucast v :: 16 word) else ucast (ucast v :: 16 word) else v)"

definition convert :: "directive \<Rightarrow> u8 \<Rightarrow> u32 \<Rightarrow> varg list \<Rightarrow> sink \<Rightarrow> (varg list \<times> sink) option" where
  "convert d c lim args k =
     (if c = ch CHR ''c'' then map_option (\<lambda>(v, args). (args, conv_char d lim v k)) (va_int args)
      else if c = ch CHR ''s'' then
        Option.bind (va_ptr args) (\<lambda>(s, args). map_option (\<lambda>k. (args, k)) (conv_string d lim s k))
      else if c = ch CHR ''p'' then map_option (\<lambda>(p, args). (args, conv_pointer d lim p k)) (va_ptr args)
      else if c = ch CHR ''%'' then Some (args, put lim c k)
      else case int_conv c (flags d) of
          Some (base, fl) \<Rightarrow>
            map_option (\<lambda>(v, args).
              (args, print_number lim (apply_qualifier (qualifier d) fl v) base (field_width d) (precision d) fl k)) (va_int args)
        | None \<Rightarrow> Some (args, put lim c (put lim (ch CHR ''%'') k)))"

lemma skip_atoi_length: "length (snd (skip_atoi i fmt)) \<le> length fmt"
  by (induction i fmt rule: skip_atoi.induct) auto

lemma get_flags_length: "length (snd (get_flags fl fmt)) \<le> length fmt"
  by (induction fl fmt rule: get_flags.induct) auto

lemma get_directive_length:
  assumes "get_directive fmt args = Some (d, fmt', args')"
  shows "length fmt' \<le> length fmt"
proof -
  obtain fl f1 where 1: "get_flags 0 fmt = (fl, f1)" by (rule prod.exhaust)
  obtain w fl' f2 a2 where 2: "get_width fl f1 args = Some (w, fl', f2, a2)"
    using assms 1 by (auto simp: get_directive_def split: bind_splits)
  obtain p f3 a3 where 3: "get_precision f2 a2 = Some (p, f3, a3)"
    using assms 1 2 by (auto simp: get_directive_def)
  obtain q f4 where 4: "get_qualifier f3 = (q, f4)" by (rule prod.exhaust)
  have "length f1 \<le> length fmt" using get_flags_length [of 0 fmt] 1 by simp
  moreover have "length f2 \<le> length f1"
    using 2 skip_atoi_length [of 0 f1] by (auto simp: get_width_def split: if_splits prod.splits)
  moreover have "length f3 \<le> length f2"
    using 3 skip_atoi_length [of 0 "tl f2"] by (auto simp: get_precision_def Let_def split: if_splits prod.splits)
  moreover have "length f4 \<le> length f3" using 4 by (auto simp: get_qualifier_def split: if_splits)
  moreover have "fmt' = f4" using assms 1 2 3 4 by (simp add: get_directive_def)
  ultimately show ?thesis by simp
qed

function vsn_loop :: "u32 \<Rightarrow> buf \<Rightarrow> varg list \<Rightarrow> sink \<Rightarrow> sink option" where
  "vsn_loop lim [] args k = Some k"
| "vsn_loop lim (c # fmt) args k =
     (if c \<noteq> ch CHR ''%'' then vsn_loop lim fmt args (put lim c k)
      else Option.bind (get_directive fmt args) (\<lambda>(d, fmt', args).
        case fmt' of
          [] \<Rightarrow> Some (put lim (ch CHR ''%'') k)
        | c # fmt'' \<Rightarrow>
            Option.bind (convert d c lim args k) (\<lambda>(args, k). vsn_loop lim fmt'' args k)))"
  by pat_completeness auto
termination
  by (relation "measure (\<lambda>(_, fmt, _). length fmt)") (auto dest!: get_directive_length)

declare vsn_loop.simps(2) [simp del]

definition rt_vsnprintf :: "u32 \<Rightarrow> u32 \<Rightarrow> buf \<Rightarrow> varg list \<Rightarrow> mem \<Rightarrow> (int \<times> mem) option" where
  "rt_vsnprintf buf sz fmt args m =
     (let lim = buf + sz;
          (lim, sz) = (if lim < buf then (- 1, - 1 - buf) else (lim, sz))
      in map_option (\<lambda>(str, m).
           (sint (str - buf),
            if 0 < sz then if str < lim then m(str := 0) else m(lim - 1 := 0) else m))
           (vsn_loop lim fmt args (buf, m)))"

definition rt_vsprintf :: "u32 \<Rightarrow> buf \<Rightarrow> varg list \<Rightarrow> mem \<Rightarrow> (int \<times> mem) option" where
  "rt_vsprintf buf fmt args m = rt_vsnprintf buf (- 1) fmt args m"

text \<open>
  \<open>rt_kprintf\<close> with a console device: the length it returns, the memory, and the bytes handed to
  \<open>rt_device_write\<close>. \<open>rt_log_buf\<close> is the address of its static buffer.
\<close>

definition RT_CONSOLEBUF_SIZE :: u32 where "RT_CONSOLEBUF_SIZE = 256"

definition rt_kprintf :: "u32 \<Rightarrow> buf \<Rightarrow> varg list \<Rightarrow> mem \<Rightarrow> (u32 \<times> mem \<times> buf) option" where
  "rt_kprintf rt_log_buf fmt args m =
     map_option (\<lambda>(n, m).
       let len = word_of_int n :: u32;
           len = (if RT_CONSOLEBUF_SIZE - 1 < len then RT_CONSOLEBUF_SIZE - 1 else len)
       in (len, m, mem_read m rt_log_buf (unat len)))
       (rt_vsnprintf rt_log_buf (RT_CONSOLEBUF_SIZE - 1) fmt args m)"

end
