(* ===== verification/PrintfText.thy ===== *)
theory PrintfText
  imports Printf
begin

text \<open>
  What formatted output writes. \<open>formatted\<close> is the text of a format and its arguments as a list of
  bytes; \<open>fmt_kinds\<close> are the kinds of arguments a format asks for. For arguments of these kinds
  \<open>rt_vsnprintf\<close> leaves as much of the text as fits, with a zero, and writes nothing else.
\<close>

section \<open>The text\<close>

definition sign_text :: "u8 \<Rightarrow> u32 \<Rightarrow> buf" where
  "sign_text type num =
     (if \<not> isset SIGN type then []
      else if sint num < 0 then [ch CHR ''-'']
      else if isset PLUS type then [ch CHR ''+'']
      else if isset SPACE type then [ch CHR '' ''] else [])"

definition magnitude :: "u8 \<Rightarrow> u32 \<Rightarrow> u32" where
  "magnitude type num = (if isset SIGN type \<and> sint num < 0 then - num else num)"

definition digits_text :: "u8 \<Rightarrow> int \<Rightarrow> u32 \<Rightarrow> buf" where
  "digits_text type base num = (if num = 0 then [ch CHR ''0''] else rev (number_digits type base num))"

definition number_text :: "u32 \<Rightarrow> int \<Rightarrow> int \<Rightarrow> int \<Rightarrow> u8 \<Rightarrow> buf" where
  "number_text num base width prec type =
     (let sign = sign_text type num;
          digits = digits_text type base (magnitude type num);
          n = max prec (int (length digits));
          body = replicate (nat (n - int (length digits))) (ch CHR ''0'') @ (if prec = 0 then [] else digits);
          room = nat (width - n - int (length sign))
      in if isset LEFT type then sign @ body @ replicate room (ch CHR '' '')
         else if isset ZEROPAD type then sign @ replicate room (ch CHR ''0'') @ body
         else replicate room (ch CHR '' '') @ sign @ body)"

text \<open>A field with room to the left or to the right.\<close>

definition field_text :: "bool \<Rightarrow> int \<Rightarrow> buf \<Rightarrow> buf" where
  "field_text left width body =
     (let room = replicate (nat (width - int (length body))) (ch CHR '' '')
      in if left then body @ room else room @ body)"

definition string_text :: "mem \<Rightarrow> directive \<Rightarrow> u32 \<Rightarrow> buf option" where
  "string_text m d s =
     map_option (\<lambda>len.
       let len = nat (if 0 < precision d \<and> precision d < len then precision d else len)
       in field_text (isset LEFT (flags d)) (field_width d) (if s = 0 then take len null_string else mem_read m s len))
       (string_length (field_width d) s m)"

definition pointer_text :: "directive \<Rightarrow> u32 \<Rightarrow> buf" where
  "pointer_text d p =
     (if field_width d = - 1 then number_text p 16 8 (precision d) (flags d OR ZEROPAD)
      else number_text p 16 (field_width d) (precision d) (flags d))"

definition conv_text :: "mem \<Rightarrow> directive \<Rightarrow> u8 \<Rightarrow> varg list \<Rightarrow> (buf \<times> varg list) option" where
  "conv_text m d c args =
     (if c = ch CHR ''c'' then
        map_option (\<lambda>(v, args). (field_text (isset LEFT (flags d)) (field_width d) [ucast v], args)) (va_int args)
      else if c = ch CHR ''s'' then
        Option.bind (va_ptr args) (\<lambda>(s, args). map_option (\<lambda>t. (t, args)) (string_text m d s))
      else if c = ch CHR ''p'' then map_option (\<lambda>(p, args). (pointer_text d p, args)) (va_ptr args)
      else if c = ch CHR ''%'' then Some ([c], args)
      else case int_conv c (flags d) of
          Some (base, fl) \<Rightarrow>
            map_option (\<lambda>(v, args).
              (number_text (apply_qualifier (qualifier d) fl v) base (field_width d) (precision d) fl, args)) (va_int args)
        | None \<Rightarrow> Some ([ch CHR ''%'', c], args))"

function formatted :: "mem \<Rightarrow> buf \<Rightarrow> varg list \<Rightarrow> buf option" where
  "formatted m [] args = Some []"
| "formatted m (c # fmt) args =
     (if c \<noteq> ch CHR ''%'' then map_option ((#) c) (formatted m fmt args)
      else Option.bind (get_directive fmt args) (\<lambda>(d, fmt', args).
        case fmt' of
          [] \<Rightarrow> Some [ch CHR ''%'']
        | c # fmt'' \<Rightarrow>
            Option.bind (conv_text m d c args) (\<lambda>(t, args). map_option ((@) t) (formatted m fmt'' args))))"
  by pat_completeness auto
termination
  by (relation "measure (\<lambda>(_, fmt, _). length fmt)") (auto dest!: get_directive_length)

declare formatted.simps(2) [simp del]

section \<open>The kinds of arguments\<close>

datatype kind = Number | String | Address

text \<open>How many arguments the width and the precision take, and what follows them.\<close>

definition scan_width :: "buf \<Rightarrow> nat \<times> buf" where
  "scan_width fmt =
     (if starts is_digit fmt then (0, snd (skip_atoi 0 fmt))
      else if starts (\<lambda>c. c = ch CHR ''*'') fmt then (1, tl fmt) else (0, fmt))"

definition scan_directive :: "buf \<Rightarrow> nat \<times> buf" where
  "scan_directive fmt =
     (let (n, fmt) = scan_width (snd (get_flags 0 fmt));
          (m, fmt) = (if starts (\<lambda>c. c = ch CHR ''.'') fmt then scan_width (tl fmt) else (0, fmt))
      in (n + m, snd (get_qualifier fmt)))"

definition conv_kinds :: "u8 \<Rightarrow> kind list" where
  "conv_kinds c =
     (if c = ch CHR ''s'' then [String]
      else if c = ch CHR ''p'' then [Address]
      else if c \<in> set (map of_char ''cdiouxX'') then [Number] else [])"

lemma scan_width_length: "length (snd (scan_width fmt)) \<le> length fmt"
  using skip_atoi_length by (auto simp: scan_width_def)

lemma scan_directive_length: "length (snd (scan_directive fmt)) \<le> length fmt"
proof -
  let ?f = "snd (get_flags 0 fmt)"
  let ?g = "snd (scan_width ?f)"
  let ?h = "if starts (\<lambda>c. c = ch CHR ''.'') ?g then snd (scan_width (tl ?g)) else ?g"
  have e: "snd (scan_directive fmt) = snd (get_qualifier ?h)"
    by (simp add: scan_directive_def split_beta)
  have q: "length (snd (get_qualifier ?h)) \<le> length ?h" by (simp add: get_qualifier_def)
  have "length (snd (scan_width (tl ?g))) \<le> length ?g"
    using scan_width_length [of "tl ?g"] by (rule order_trans) simp
  then have h: "length ?h \<le> length ?g" by simp
  show ?thesis unfolding e
    by (rule order_trans [OF q order_trans [OF h order_trans [OF scan_width_length get_flags_length]]])
qed

function fmt_kinds :: "buf \<Rightarrow> kind list" where
  "fmt_kinds [] = []"
| "fmt_kinds (c # fmt) =
     (if c \<noteq> ch CHR ''%'' then fmt_kinds fmt
      else let (stars, rest) = scan_directive fmt
           in replicate stars Number @ (case rest of [] \<Rightarrow> [] | c # r \<Rightarrow> conv_kinds c @ fmt_kinds r))"
  by pat_completeness auto
termination
proof (relation "measure length", goal_cases)
  case (3 c fmt stars rest c' r)
  then show ?case using scan_directive_length [of fmt] by (cases "scan_directive fmt") auto
qed auto

declare fmt_kinds.simps(2) [simp del]

section \<open>Bits and bytes\<close>

lemma isset_bit:
  "isset ZEROPAD x \<longleftrightarrow> bit x 0" "isset SIGN x \<longleftrightarrow> bit x 1" "isset PLUS x \<longleftrightarrow> bit x 2"
  "isset SPACE x \<longleftrightarrow> bit x 3" "isset LEFT x \<longleftrightarrow> bit x 4" "isset LARGE x \<longleftrightarrow> bit x 6"
  using and_power_bit [of 0 x] and_power_bit [of 1 x] and_power_bit [of 2 x] and_power_bit [of 3 x]
    and_power_bit [of 4 x] and_power_bit [of 6 x]
  by (simp_all add: isset_def ZEROPAD_def SIGN_def PLUS_def SPACE_def LEFT_def LARGE_def)

lemma isset_clear [simp]:
  "\<not> isset ZEROPAD (x AND NOT ZEROPAD)" "isset SIGN (x AND NOT ZEROPAD) = isset SIGN x"
  "isset PLUS (x AND NOT ZEROPAD) = isset PLUS x" "isset SPACE (x AND NOT ZEROPAD) = isset SPACE x"
  "isset LEFT (x AND NOT ZEROPAD) = isset LEFT x" "isset LARGE (x AND NOT ZEROPAD) = isset LARGE x"
  unfolding isset_bit by (simp_all add: bit_and_iff bit_not_iff ZEROPAD_def bit_1_iff)

lemma fill_bytes: "fill n lim c k = put_bytes lim (replicate n c) k"
  by (induction n arbitrary: k) simp_all

lemma put_bytes_append: "put_bytes lim (as @ bs) k = put_bytes lim bs (put_bytes lim as k)"
  by (induction as arbitrary: k) simp_all

lemma put_one: "put lim c k = put_bytes lim [c] k"
  by simp

lemma number_digits_cong: "isset LARGE type' = isset LARGE type \<Longrightarrow> number_digits type' base num = number_digits type base num"
proof (induction type base num rule: number_digits.induct)
  case (1 type base num)
  then show ?case
    by (subst (1 2) number_digits.simps) (auto simp: Let_def digit_char_def split: prod.splits)
qed

lemma print_number_text:
  "print_number lim num base s p type k = put_bytes lim (number_text num base s p type) k"
proof -
  let ?t = "if isset LEFT type then type AND NOT ZEROPAD else type"
  let ?sg = "sign_text type num" and ?mag = "magnitude type num"
  let ?sign = "case ?sg of [] \<Rightarrow> 0 | c # _ \<Rightarrow> c"
  have sg: "?sg = [] \<or> (\<exists>c. ?sg = [c] \<and> c \<noteq> 0)" by (simp add: sign_text_def)
  have pair: "(if isset SIGN ?t then
               if sint num < 0 then (ch CHR ''-'', - num)
               else if isset PLUS ?t then (ch CHR ''+'', num)
               else if isset SPACE ?t then (ch CHR '' '', num) else (0, num)
             else (0, num)) = (?sign, ?mag)"
    by (simp add: sign_text_def magnitude_def)
  have dig: "(if ?mag = 0 then [ch CHR ''0''] else number_digits ?t base ?mag) = rev (digits_text type base ?mag)"
    using number_digits_cong [of ?t type base ?mag] by (simp add: digits_text_def)
  note unf = print_number_def number_text_def Let_def pair dig prod.case pad_def fill_bytes snd_conv length_rev rev_rev_ident
  show ?thesis
  proof (cases "isset LEFT type")
    case True
    then have z: "\<not> isset ZEROPAD ?t" "isset LEFT ?t" by simp_all
    from sg show ?thesis
      unfolding unf using z True by (elim disjE exE conjE) (simp_all add: put_bytes_append max_def)
  next
    case False
    then have z: "isset ZEROPAD ?t = isset ZEROPAD type" "\<not> isset LEFT ?t" by simp_all
    from sg show ?thesis
      unfolding unf using z False
      by (cases "isset ZEROPAD type"; elim disjE exE conjE) (simp_all add: put_bytes_append max_def)
  qed
qed

section \<open>Arguments of the right kind\<close>

text \<open>A string argument is the null pointer or a string that ends and lies outside the buffer.\<close>

definition inside :: "u32 \<Rightarrow> u32 \<Rightarrow> u32 \<Rightarrow> bool" where
  "inside b lim x \<longleftrightarrow> b \<le> x \<and> x < lim"

definition string_ok :: "mem \<Rightarrow> u32 \<Rightarrow> u32 \<Rightarrow> u32 \<Rightarrow> bool" where
  "string_ok m b lim s \<longleftrightarrow>
     s = 0 \<or> (\<exists>cs. c_string m s cs \<and> length cs < 2 ^ 32 \<and> (\<forall>i \<le> length cs. \<not> inside b lim (s + of_nat i)))"

fun arg_ok :: "mem \<Rightarrow> u32 \<Rightarrow> u32 \<Rightarrow> varg \<Rightarrow> kind \<Rightarrow> bool" where
  "arg_ok m b lim (Int_arg v) k \<longleftrightarrow> k = Number"
| "arg_ok m b lim (Ptr_arg p) k \<longleftrightarrow> k = Address \<or> k = String \<and> string_ok m b lim p"

definition outside_same :: "u32 \<Rightarrow> u32 \<Rightarrow> mem \<Rightarrow> mem \<Rightarrow> bool" where
  "outside_same b lim m m' \<longleftrightarrow> (\<forall>x. \<not> inside b lim x \<longrightarrow> m' x = m x)"

lemma unat_suc: "unat str + Suc n < 2 ^ 32 \<Longrightarrow> unat (str + 1 :: u32) = unat str + 1"
  by (simp add: unat_word_ariths)

lemma put_bytes_result:
  "unat str + length t < 2 ^ 32 \<Longrightarrow>
   put_bytes lim t (str, m) = (str + of_nat (length t), mem_write str (take (unat lim - unat str) t) m)"
proof (induction t arbitrary: str m)
  case (Cons c t)
  have u: "unat (str + 1) = unat str + 1" using Cons.prems by (intro unat_suc) simp
  have IH: "put_bytes lim t (str + 1, m') = (str + 1 + of_nat (length t), mem_write (str + 1) (take (unat lim - unat (str + 1)) t) m')" for m'
    by (rule Cons.IH) (use Cons.prems u in simp)
  show ?case
  proof (cases "str < lim")
    case True
    then have "unat lim - unat str = Suc (unat lim - unat (str + 1))" unfolding u by (simp add: word_less_nat_alt)
    then show ?thesis using True by (simp add: put_def IH add.assoc)
  next
    case False
    then have "unat lim - unat str = 0" "unat lim - unat (str + 1) = 0" unfolding u by (simp_all add: word_less_nat_alt)
    then show ?thesis using False by (simp add: put_def IH add.assoc)
  qed
qed simp

lemma put_bytes_keeps:
  "unat str + length t < 2 ^ 32 \<Longrightarrow> b \<le> str \<Longrightarrow> outside_same b lim m0 m \<Longrightarrow> put_bytes lim t (str, m) = (str', m') \<Longrightarrow>
   outside_same b lim m0 m' \<and> b \<le> str' \<and> unat str' = unat str + length t"
proof (induction t arbitrary: str m)
  case (Cons c t)
  have u: "unat (str + 1) = unat str + 1" using Cons.prems(1) by (intro unat_suc) simp
  let ?m = "if str < lim then m(str := c) else m"
  have "outside_same b lim m0 ?m" using Cons.prems(2,3) by (auto simp: outside_same_def inside_def)
  moreover have "b \<le> str + 1" using Cons.prems(2) u by (simp add: word_le_nat_alt)
  moreover have "put_bytes lim t (str + 1, ?m) = (str', m')" using Cons.prems(4) by (simp add: put_def)
  ultimately show ?case using Cons.IH [of "str + 1" ?m] Cons.prems(1) u by simp
qed simp

lemma put_string_bytes:
  assumes "outside_same b lim m0 m1" "b \<le> str" "unat str + n < 2 ^ 32" "\<And>i. i < n \<Longrightarrow> \<not> inside b lim (s + of_nat i)"
  shows "put_string n lim s (str, m1) = put_bytes lim (mem_read m0 s n) (str, m1)"
  using assms
proof (induction n arbitrary: s str m1)
  case (Suc n)
  have u: "unat (str + 1) = unat str + 1" using Suc.prems(3) by (intro unat_suc) simp
  let ?m = "if str < lim then m1(str := m0 s) else m1"
  have s: "m1 s = m0 s" using Suc.prems(1) Suc.prems(4) [of 0] by (simp add: outside_same_def)
  have "outside_same b lim m0 ?m" using Suc.prems(1,2) by (auto simp: outside_same_def inside_def)
  moreover have "b \<le> str + 1" using Suc.prems(2) u by (simp add: word_le_nat_alt)
  moreover have "\<not> inside b lim (s + 1 + of_nat i)" if "i < n" for i
    using Suc.prems(4) [of "Suc i"] that by (simp add: add.assoc)
  ultimately have "put_string n lim (s + 1) (str + 1, ?m) = put_bytes lim (mem_read m0 (s + 1) n) (str + 1, ?m)"
    using Suc.prems(3) u by (intro Suc.IH) simp_all
  then show ?case by (simp add: put_def s)
qed simp

lemma c_string_cong: "c_string m s cs \<Longrightarrow> (\<And>i. i \<le> length cs \<Longrightarrow> m' (s + of_nat i) = m (s + of_nat i)) \<Longrightarrow> c_string m' s cs"
proof (induction cs arbitrary: s)
  case (Cons c cs)
  have "c_string m' (s + 1) cs"
    by (rule Cons.IH) (use Cons.prems(1) Cons.prems(2) [of "Suc i" for i] in \<open>auto simp: add.assoc\<close>)
  then show ?case using Cons.prems(1) Cons.prems(2) [of 0] by simp
qed (force dest: spec)

lemma string_length_string:
  assumes "c_string m s cs" "length cs < 2 ^ 32" "s \<noteq> 0"
  shows "string_length w s m = Some (int (if 0 \<le> w then min (length cs) (nat w) else length cs))"
proof -
  have u: "uint (of_nat k :: u32) = int k" if "k \<le> length cs" for k
    using that assms(2) unat_of_nat32 [of k] by (simp add: uint_nat)
  show ?thesis
    using u [of "min (length cs) (nat w)"] u [of "length cs"] assms(3)
    by (simp add: string_length_def strnlen_loop_string [OF assms(1)] strlen_loop_string [OF assms(1)])
qed

lemma conv_string_text:
  assumes ok: "string_ok m0 b lim s" and out: "outside_same b lim m0 m1" and str: "b \<le> str"
    and t: "string_text m0 d s = Some t" and fits: "unat str + length t < 2 ^ 32"
  shows "conv_string d lim s (str, m1) = Some (put_bytes lim t (str, m1))"
proof -
  obtain len where len: "string_length (field_width d) s m0 = Some len" "string_length (field_width d) s m1 = Some len" "0 \<le> len"
    and in_string: "s = 0 \<and> len \<le> 6 \<or> s \<noteq> 0 \<and> (\<forall>i < nat len. \<not> inside b lim (s + of_nat i))"
  proof (cases "s = 0")
    case True
    then show thesis using that by (auto simp: string_length_def)
  next
    case False
    then obtain cs where cs: "c_string m0 s cs" "length cs < 2 ^ 32" "\<forall>i \<le> length cs. \<not> inside b lim (s + of_nat i)"
      using ok by (auto simp: string_ok_def)
    have "c_string m1 s cs" by (rule c_string_cong [OF cs(1)]) (use cs(3) out in \<open>simp add: outside_same_def\<close>)
    then show thesis
      using that string_length_string [OF cs(1,2) False] string_length_string [of m1, OF _ cs(2) False] cs(3) False by simp
  qed
  define len' where "len' = (if 0 < precision d \<and> precision d < len then precision d else len)"
  define body where "body = (if s = 0 then take (nat len') null_string else mem_read m0 s (nat len'))"
  let ?sp = "replicate (nat (field_width d - len')) (ch CHR '' '')"
  have l: "0 \<le> len'" "len' \<le> len" using len(3) by (auto simp: len'_def)
  have lb: "int (length body) = len'" using l in_string by (auto simp: body_def null_string_def)
  have "t = field_text (isset LEFT (flags d)) (field_width d) body"
    using t len(1) by (auto simp: string_text_def Let_def len'_def body_def)
  then have t': "t = (if isset LEFT (flags d) then body @ ?sp else ?sp @ body)"
    by (simp add: field_text_def Let_def lb)
  have copy: "(if s = 0 then put_bytes lim (take (nat len') null_string) k else put_string (nat len') lim s k) = put_bytes lim body k"
    if "k = (str', m')" "outside_same b lim m0 m'" "b \<le> str'" "unat str' + length body < 2 ^ 32" for k str' m'
  proof (cases "s = 0")
    case False
    then show ?thesis
      using put_string_bytes [OF that(2,3), of "nat len'" s] that(1,4) in_string l lb by (simp add: body_def)
  qed (simp add: body_def)
  show ?thesis
  proof (cases "isset LEFT (flags d)")
    case True
    have "unat str + length body < 2 ^ 32" using fits True by (simp add: t')
    note c = copy [OF refl out str this]
    show ?thesis using len(2) True unfolding conv_string_def t' snd_conv
      using c by (auto simp: Let_def fill_bytes put_bytes_append simp flip: len'_def split: if_splits)
  next
    case False
    obtain str' m' where k: "put_bytes lim ?sp (str, m1) = (str', m')" by (rule prod.exhaust)
    have f: "unat str + length ?sp + length body < 2 ^ 32" using fits False by (simp add: t')
    then have "unat str + length ?sp < 2 ^ 32" by simp
    note r = put_bytes_keeps [OF this str out k]
    have "unat str' + length body < 2 ^ 32" using r f by simp
    then have c: "(if s = 0 then put_bytes lim (take (nat len') null_string) (str', m') else put_string (nat len') lim s (str', m')) =
        put_bytes lim body (str', m')"
      using copy [OF refl] r by blast
    show ?thesis using len(2) False k unfolding conv_string_def t' snd_conv
      using c by (auto simp: Let_def fill_bytes put_bytes_append simp flip: len'_def split: if_splits)
  qed
qed

lemma conv_char_text: "conv_char d lim v k = put_bytes lim (field_text (isset LEFT (flags d)) (field_width d) [ucast v]) k"
  by (simp add: conv_char_def field_text_def Let_def fill_bytes put_bytes_append)

lemma conv_pointer_text: "conv_pointer d lim p k = put_bytes lim (pointer_text d p) k"
  by (simp add: conv_pointer_def pointer_text_def print_number_text)

section \<open>One conversion\<close>

abbreviation (input) args_ok :: "mem \<Rightarrow> u32 \<Rightarrow> u32 \<Rightarrow> varg list \<Rightarrow> kind list \<Rightarrow> bool" where
  "args_ok m b lim \<equiv> list_all2 (arg_ok m b lim)"

lemma arg_ok_cases:
  assumes "arg_ok m b lim a k"
  obtains v where "a = Int_arg v" "k = Number" | p where "a = Ptr_arg p" "k = Address"
    | p where "a = Ptr_arg p" "k = String" "string_ok m b lim p"
  using assms by (cases a) auto

lemma get_width_scan:
  assumes "args_ok m b lim as (replicate n Number)" "scan_width fmt = (n, rest)"
  obtains w fl' where "get_width fl fmt (as @ args) = Some (w, fl', rest, args)"
proof (cases "\<not> starts is_digit fmt \<and> starts (\<lambda>c. c = ch CHR ''*'') fmt")
  case True
  then have n: "n = 1" "rest = tl fmt" using assms(2) by (auto simp: scan_width_def)
  then obtain v where "as = [Int_arg v]" using assms(1) by (auto simp: list_all2_Cons2 elim: arg_ok_cases)
  then show thesis using that True n by (cases "sint v < 0") (auto simp: get_width_def va_int_def)
next
  case False
  then have n: "n = 0" "rest = (if starts is_digit fmt then snd (skip_atoi 0 fmt) else fmt)"
    using assms(2) by (auto simp: scan_width_def split: if_splits)
  then have "as = []" using assms(1) by simp
  then show thesis
    using that [of "if starts is_digit fmt then fst (skip_atoi 0 fmt) else - 1" fl] False n
    by (auto simp: get_width_def split_beta)
qed

lemma get_precision_scan:
  assumes "args_ok m b lim as (replicate n Number)"
    and "(if starts (\<lambda>c. c = ch CHR ''.'') fmt then scan_width (tl fmt) else (0, fmt)) = (n, rest)"
  obtains p where "get_precision fmt (as @ args) = Some (p, rest, args)"
proof (cases "starts (\<lambda>c. c = ch CHR ''.'') fmt")
  case True
  obtain w fl' where "get_width 0 (tl fmt) (as @ args) = Some (w, fl', rest, args)"
    using get_width_scan [OF assms(1)] assms(2) True by (metis (full_types))
  then show thesis
    using that True by (auto simp: get_precision_def get_width_def Let_def split: if_splits prod.splits)
next
  case False
  then have "n = 0" "rest = fmt" using assms(2) by simp_all
  then show thesis using that False assms(1) by (simp add: get_precision_def)
qed

lemma get_directive_scan:
  assumes "args_ok m b lim as (replicate n Number)" "scan_directive fmt = (n, rest)"
  obtains d where "get_directive fmt (as @ args) = Some (d, rest, args)"
proof -
  obtain fl f1 where 1: "get_flags 0 fmt = (fl, f1)" by (rule prod.exhaust)
  obtain n1 f2 where 2: "scan_width f1 = (n1, f2)" by (rule prod.exhaust)
  obtain n2 f3 where 3: "(if starts (\<lambda>c. c = ch CHR ''.'') f2 then scan_width (tl f2) else (0, f2)) = (n2, f3)"
    by (rule prod.exhaust)
  obtain q f4 where 4: "get_qualifier f3 = (q, f4)" by (rule prod.exhaust)
  have n: "n = n1 + n2" "rest = f4" using assms(2) 1 2 3 4 by (auto simp: scan_directive_def split_beta)
  then obtain as1 as2 where as: "as = as1 @ as2" "args_ok m b lim as1 (replicate n1 Number)" "args_ok m b lim as2 (replicate n2 Number)"
    using assms(1) by (auto simp: replicate_add list_all2_append2)
  obtain w fl' where w: "get_width fl f1 (as1 @ as2 @ args) = Some (w, fl', f2, as2 @ args)"
    by (rule get_width_scan [OF as(2) 2])
  obtain p where p: "get_precision f2 (as2 @ args) = Some (p, f3, args)"
    by (rule get_precision_scan [OF as(3) 3])
  show thesis using that w p 1 4 by (simp add: get_directive_def as(1) n(2))
qed

lemma int_conv_number: "int_conv c fl \<noteq> None \<longleftrightarrow> c \<in> set (map of_char ''diouxX'')"
  by (auto simp: int_conv_def)

lemma convert_text:
  assumes ok: "args_ok m0 b lim as (conv_kinds c)"
  obtains t where "conv_text m0 d c (as @ args) = Some (t, args)"
    "\<And>str m1. outside_same b lim m0 m1 \<Longrightarrow> b \<le> str \<Longrightarrow> unat str + length t < 2 ^ 32 \<Longrightarrow>
       convert d c lim (as @ args) (str, m1) = Some (args, put_bytes lim t (str, m1))"
proof -
  consider "c = ch CHR ''c''" | "c = ch CHR ''s''" | "c = ch CHR ''p''" | "c = ch CHR ''%''"
    | "c \<notin> set (map of_char ''csp%'')" "int_conv c (flags d) \<noteq> None" | "c \<notin> set (map of_char ''csp%'')" "int_conv c (flags d) = None"
    by (cases "c \<in> set (map of_char ''csp%'')"; cases "int_conv c (flags d) = None") auto
  then show thesis
  proof cases
    case 1
    then obtain v where "as = [Int_arg v]" using ok by (auto simp: conv_kinds_def list_all2_Cons2 elim: arg_ok_cases)
    then show thesis using that 1 by (simp add: conv_text_def convert_def va_int_def conv_char_text)
  next
    case 2
    then obtain p where p: "as = [Ptr_arg p]" "string_ok m0 b lim p"
      using ok by (auto simp: conv_kinds_def list_all2_Cons2 elim: arg_ok_cases)
    have "\<exists>len. string_length (field_width d) p m0 = Some len"
    proof (cases "p = 0")
      case False
      then show ?thesis using p(2) string_length_string [of m0 p] by (auto simp: string_ok_def)
    qed (simp add: string_length_def)
    then obtain t where t: "string_text m0 d p = Some t" by (auto simp: string_text_def)
    show thesis
      using that [of t] 2 t conv_string_text [OF p(2) _ _ t] by (simp add: conv_text_def convert_def va_ptr_def p(1))
  next
    case 3
    then obtain p where "as = [Ptr_arg p]" using ok by (auto simp: conv_kinds_def list_all2_Cons2 elim: arg_ok_cases)
    then show thesis using that 3 by (simp add: conv_text_def convert_def va_ptr_def conv_pointer_text)
  next
    case 4
    then have "as = []" using ok by (simp add: conv_kinds_def)
    then show thesis using that 4 by (simp add: conv_text_def convert_def)
  next
    case 5
    then have "conv_kinds c = [Number]" using int_conv_number [of c "flags d"] by (auto simp: conv_kinds_def)
    then obtain v where "as = [Int_arg v]" using ok by (auto simp: list_all2_Cons2 elim: arg_ok_cases)
    then show thesis using that 5 by (auto simp: conv_text_def convert_def va_int_def print_number_text)
  next
    case 6
    then have "conv_kinds c = []" using int_conv_number [of c "flags d"] by (auto simp: conv_kinds_def)
    then have "as = []" using ok by simp
    then show thesis using that 6 by (simp add: conv_text_def convert_def)
  qed
qed

section \<open>The whole format\<close>

lemma vsn_loop_text:
  "args_ok m0 b lim args (fmt_kinds fmt) \<Longrightarrow>
   \<exists>t. formatted m0 fmt args = Some t \<and>
     (\<forall>str m1. outside_same b lim m0 m1 \<longrightarrow> b \<le> str \<longrightarrow> unat str + length t < 2 ^ 32 \<longrightarrow>
        vsn_loop lim fmt args (str, m1) = Some (put_bytes lim t (str, m1)))"
proof (induction fmt arbitrary: args rule: fmt_kinds.induct)
  case (2 c fmt)
  show ?case
  proof (cases "c = ch CHR ''%''")
    case False
    then have "args_ok m0 b lim args (fmt_kinds fmt)" using 2(3) by (simp add: fmt_kinds.simps(2))
    then obtain t where t: "formatted m0 fmt args = Some t"
      "\<forall>str m1. outside_same b lim m0 m1 \<longrightarrow> b \<le> str \<longrightarrow> unat str + length t < 2 ^ 32 \<longrightarrow>
         vsn_loop lim fmt args (str, m1) = Some (put_bytes lim t (str, m1))"
      using 2(1) [OF False] by blast
    have "vsn_loop lim (c # fmt) args (str, m1) = Some (put_bytes lim (c # t) (str, m1))"
      if "outside_same b lim m0 m1" "b \<le> str" "unat str + length (c # t) < 2 ^ 32" for str m1
    proof -
      obtain str' m' where k: "put lim c (str, m1) = (str', m')" by (rule prod.exhaust)
      have "outside_same b lim m0 m' \<and> b \<le> str' \<and> unat str' = unat str + 1"
        using put_bytes_keeps [of str "[c]" b lim m0 m1 str' m'] that k by simp
      then show ?thesis using t(2) [rule_format, of m' str'] that(3) False k by (simp add: vsn_loop.simps(2))
    qed
    then show ?thesis using t(1) False by (auto simp: formatted.simps(2))
  next
    case True
    obtain n rest where sc: "scan_directive fmt = (n, rest)" by (rule prod.exhaust)
    let ?more = "case rest of [] \<Rightarrow> [] | c # r \<Rightarrow> conv_kinds c @ fmt_kinds r"
    have "args_ok m0 b lim args (replicate n Number @ ?more)" using 2(3) True sc by (simp add: fmt_kinds.simps(2))
    then obtain as bs where as: "args = as @ bs" "args_ok m0 b lim as (replicate n Number)" "args_ok m0 b lim bs ?more"
      by (auto simp: list_all2_append2)
    obtain d where d: "get_directive fmt (as @ bs) = Some (d, rest, bs)" by (rule get_directive_scan [OF as(2) sc])
    show ?thesis
    proof (cases rest)
      case Nil
      then show ?thesis using d True by (simp add: as(1) formatted.simps(2) vsn_loop.simps(2))
    next
      case (Cons c' r)
      then obtain cs ds where bs: "bs = cs @ ds" "args_ok m0 b lim cs (conv_kinds c')" "args_ok m0 b lim ds (fmt_kinds r)"
        using as(3) by (auto simp: list_all2_append2)
      obtain t where t: "conv_text m0 d c' (cs @ ds) = Some (t, ds)"
        "\<And>str m1. outside_same b lim m0 m1 \<Longrightarrow> b \<le> str \<Longrightarrow> unat str + length t < 2 ^ 32 \<Longrightarrow>
           convert d c' lim (cs @ ds) (str, m1) = Some (ds, put_bytes lim t (str, m1))"
        using convert_text [OF bs(2)] by blast
      obtain u where u: "formatted m0 r ds = Some u"
        "\<forall>str m1. outside_same b lim m0 m1 \<longrightarrow> b \<le> str \<longrightarrow> unat str + length u < 2 ^ 32 \<longrightarrow>
           vsn_loop lim r ds (str, m1) = Some (put_bytes lim u (str, m1))"
        using 2(2) [OF _ sc [symmetric] refl Cons bs(3)] True by blast
      have "vsn_loop lim (c # fmt) args (str, m1) = Some (put_bytes lim (t @ u) (str, m1))"
        if "outside_same b lim m0 m1" "b \<le> str" "unat str + length (t @ u) < 2 ^ 32" for str m1
      proof -
        obtain str' m' where k: "put_bytes lim t (str, m1) = (str', m')" by (rule prod.exhaust)
        have f: "unat str + length t < 2 ^ 32" using that(3) by simp
        note kept = put_bytes_keeps [OF f that(2,1) k]
        have "vsn_loop lim r ds (str', m') = Some (put_bytes lim u (str', m'))"
          using u(2) [rule_format, of m' str'] kept that(3) by simp
        then show ?thesis
          using t(2) [OF that(1,2) f] True d Cons k by (simp add: as(1) bs(1) vsn_loop.simps(2) put_bytes_append)
      qed
      then show ?thesis using t(1) u(1) True d Cons by (auto simp: as(1) bs(1) formatted.simps(2))
    qed
  qed
qed simp

section \<open>Numbers\<close>

lemma digit_char_decimal:
  assumes "d < 10"
  shows "is_digit (digit_char type d)" "uint (digit_char type d) - 48 = uint d"
proof -
  have d: "unat d < 10" using assms by (simp add: word_less_nat_alt)
  have c: "unat (ucast d :: u8) = unat d" unfolding unsigned_ucast_eq by (rule take_bit_nat_eq_self) (use d in simp)
  have "unat (48 + ucast d :: u8) = 48 + unat d"
    unfolding unat_word_ariths c by (rule trans [OF mod_less]) (use d in simp_all)
  moreover have "digit_char type d = 48 + ucast d" using assms by (simp add: digit_char_def)
  ultimately have u: "unat (digit_char type d) = 48 + unat d" by simp
  have "ch CHR ''0'' = 48" "ch CHR ''9'' = 57" by simp_all
  then show "is_digit (digit_char type d)" using d u unfolding is_digit_def word_le_nat_alt by simp
  show "uint (digit_char type d) - 48 = uint d" unfolding uint_nat u by simp
qed

lemma number_digits_value:
  "skip_atoi acc (rev (number_digits type 10 n) @ rest) = skip_atoi (acc * 10 ^ length (number_digits type 10 n) + uint n) rest"
proof (induction "unat n" arbitrary: n rest rule: less_induct)
  case less
  show ?case
  proof (cases "n = 0")
    case True
    have "number_digits type 10 0 = []" by (subst number_digits.simps) simp
    then show ?thesis using True by simp
  next
    case False
    let ?d = "digit_char type (n mod 10)"
    have e: "number_digits type 10 n = ?d # number_digits type 10 (n div 10)"
      using False by (simp add: number_digits.simps [of _ _ n] divide_base_def)
    have "n mod 10 < 10" by (simp add: word_less_nat_alt unat_mod)
    note d = digit_char_decimal [OF this]
    have "unat (n div 10) < unat n" using False by (simp add: unat_div unat_gt_0)
    then have IH: "skip_atoi acc (rev (number_digits type 10 (n div 10)) @ ?d # rest) =
        skip_atoi (acc * 10 ^ length (number_digits type 10 (n div 10)) + uint (n div 10)) (?d # rest)"
      by (rule less.hyps)
    have "uint n = uint (n div 10) * 10 + uint (n mod 10)" by (simp add: uint_div uint_mod)
    then show ?thesis using IH d by (simp add: e algebra_simps)
  qed
qed

text \<open>A number has at most ten digits, so the array \<open>tmp\<close> of 16 bytes is long enough.\<close>

lemma number_digits_bound: "unat n < 10 ^ k \<Longrightarrow> length (number_digits type base n) \<le> k"
proof (induction k arbitrary: n)
  case 0
  then have "n = 0" by (simp add: unat_eq_0)
  then show ?case by (subst number_digits.simps) simp
next
  case (Suc k)
  have "unat (n div 10) < 10 ^ k" using Suc.prems by (simp add: unat_div)
  moreover have "unat (n div 16) \<le> unat (n div 10)" by (simp add: unat_div div_le_mono2)
  ultimately have "length (number_digits type base (snd (divide_base n base))) \<le> k"
    using Suc.IH [of "n div 10"] Suc.IH [of "n div 16"] by (auto simp: divide_base_def)
  then show ?case by (subst number_digits.simps) (simp add: split_beta)
qed

lemma number_fits_tmp: "length (digits_text type base n) \<le> 10"
proof -
  have "unat n < 10 ^ 10" by (rule less_trans [OF unsigned_less]) simp
  then show ?thesis using number_digits_bound [of n 10 type base] by (simp add: digits_text_def)
qed

lemma digits_text_value: "skip_atoi 0 (digits_text type 10 n) = (uint n, [])"
proof (cases "n = 0")
  case False
  then show ?thesis using number_digits_value [of 0 type n "[]"] by (simp add: digits_text_def)
qed (simp add: digits_text_def is_digit_def)

lemma plain_number_text:
  "number_text num base (- 1) (- 1) type = sign_text type num @ digits_text type base (magnitude type num)"
  by (simp add: number_text_def Let_def max_def)

lemma formatted_plain:
  assumes "int_conv c 0 = Some (base, fl)"
  shows "formatted m [ch CHR ''%'', c] [Int_arg v] = Some (number_text v base (- 1) (- 1) fl)"
proof -
  have c: "c \<in> {111, 88, 120, 100, 105, 117}" using assms by (auto simp: int_conv_def split: if_splits)
  have "get_directive [c] [Int_arg v] = Some (\<lparr>flags = 0, field_width = - 1, precision = - 1, qualifier = 0\<rparr>, [c], [Int_arg v])"
    using c by (auto simp: get_directive_def get_width_def get_precision_def get_qualifier_def starts_def is_digit_def)
  moreover have "conv_text m \<lparr>flags = 0, field_width = - 1, precision = - 1, qualifier = 0\<rparr> c [Int_arg v] =
      Some (number_text v base (- 1) (- 1) fl, [])"
    using c assms by (auto simp: conv_text_def va_int_def apply_qualifier_def)
  ultimately show ?thesis by (simp add: formatted.simps(2))
qed

lemma uint_of_small:
  fixes v :: u32
  assumes "v = word_of_int k" "0 \<le> k" "k < 2 ^ 32"
  shows "uint v = k"
  unfolding assms(1) unsigned_of_int using assms(2,3) by (simp add: take_bit_int_eq_self)

lemma sint_not_negative: "\<not> sint v < 0 \<Longrightarrow> uint v = sint v" for v :: u32
  by (rule uint_of_small) (use sint_less [of v] in simp_all)

lemma negative_magnitude: "sint v < 0 \<Longrightarrow> uint (- v) = - sint v" for v :: u32
  by (rule uint_of_small) (use sint_greater_eq [of v] in simp_all)

section \<open>What is left in the buffer\<close>

text \<open>
  For arguments of the kinds that the format asks for, \<open>rt_vsnprintf\<close> returns the length of the text
  and leaves in the buffer as much of it as fits, with a zero behind it. String arguments are null
  or end somewhere and lie outside the buffer; the text does not wrap around the end of the
  address space.
\<close>

lemma output_of_text:
  assumes ok: "list_all2 (arg_ok m buf (buf + sz)) args (fmt_kinds fmt)"
    and sz: "0 < sz" "unat buf + unat sz < 2 ^ 32"
  shows "\<exists>t. formatted m fmt args = Some t \<and>
    (length t < 2 ^ 31 \<and> unat buf + length t < 2 ^ 32 \<longrightarrow>
     rt_vsnprintf buf sz fmt args m = Some (int (length t), mem_write buf (take (unat sz - 1) t @ [0]) m))"
proof -
  let ?lim = "buf + sz"
  obtain t where t: "formatted m fmt args = Some t"
    and run: "\<forall>str m1. outside_same buf ?lim m m1 \<longrightarrow> buf \<le> str \<longrightarrow> unat str + length t < 2 ^ 32 \<longrightarrow>
      vsn_loop ?lim fmt args (str, m1) = Some (put_bytes ?lim t (str, m1))"
    using vsn_loop_text [OF ok] by blast
  have lim: "unat ?lim = unat buf + unat sz" by (rule unat_add_range [OF sz(2)])
  have "rt_vsnprintf buf sz fmt args m = Some (int (length t), mem_write buf (take (unat sz - 1) t @ [0]) m)"
    if "length t < 2 ^ 31" "unat buf + length t < 2 ^ 32"
  proof -
    let ?str = "buf + of_nat (length t) :: u32"
    have u: "unat (of_nat (length t) :: u32) = length t" by (rule unat_of_nat32) (use that in simp)
    have str: "unat ?str = unat buf + length t" using unat_add_range [of buf "of_nat (length t)"] that u by simp
    have n: "sint (?str - buf) = int (length t)"
      using that u by (simp add: sint_uint unsigned_of_nat take_bit_nat_eq_self signed_take_bit_int_eq_self)
    have nl: "\<not> ?lim < buf" using lim by (simp add: word_less_nat_alt)
    have v: "vsn_loop ?lim fmt args (buf, m) = Some (?str, mem_write buf (take (unat sz) t) m)"
      using run that put_bytes_result [OF that(2), of ?lim m] lim by (simp add: outside_same_def)
    have z: "0 < unat sz" using sz(1) by (simp add: word_less_nat_alt)
    show ?thesis
    proof (cases "length t < unat sz")
      case True
      then have "?str < ?lim" using str lim by (simp add: word_less_nat_alt)
      then show ?thesis using v n nl sz(1) True by (simp add: rt_vsnprintf_def Let_def mem_write_append)
    next
      case False
      then have no: "\<not> ?str < ?lim" using str lim by (simp add: word_less_nat_alt)
      have l: "?lim - 1 = buf + of_nat (unat sz - 1)" using z by (simp add: of_nat_diff)
      have "take (unat sz) t = take (unat sz - 1) t @ [t ! (unat sz - 1)]"
        using False z by (metis Suc_diff_1 Suc_le_lessD not_less take_Suc_conv_app_nth)
      moreover have "length (take (unat sz - 1) t) = unat sz - 1" using False by simp
      ultimately have "(mem_write buf (take (unat sz) t) m)(?lim - 1 := 0) = mem_write buf (take (unat sz - 1) t @ [0]) m"
        by (simp add: mem_write_append l)
      then show ?thesis using v n nl sz(1) no by (simp add: rt_vsnprintf_def Let_def)
    qed
  qed
  then show ?thesis using t by blast
qed

section \<open>Properties\<close>

text \<open>
  C40: what \<open>%u\<close> and \<open>%d\<close> print is the decimal number: \<open>skip_atoi\<close> reads the argument back from it, its
  absolute value behind the sign in the second case, for every 32-bit value.
\<close>

theorem decimal_output_reads_back:
  "\<exists>t u. formatted m (map of_char ''%u'') [Int_arg v] = Some t \<and> skip_atoi 0 t = (uint v, []) \<and>
     formatted m (map of_char ''%d'') [Int_arg v] = Some ((if sint v < 0 then [ch CHR ''-''] else []) @ u) \<and>
     skip_atoi 0 u = (\<bar>sint v\<bar>, [])"
proof -
  have flags: "\<not> isset SIGN 0" "isset SIGN SIGN" "\<not> isset PLUS SIGN" "\<not> isset SPACE SIGN"
    by (simp_all add: isset_def SIGN_def PLUS_def SPACE_def)
  let ?t = "digits_text 0 10 v" and ?u = "digits_text SIGN 10 (magnitude SIGN v)"
  have "formatted m (map of_char ''%u'') [Int_arg v] = Some ?t"
    using formatted_plain [of "ch CHR ''u''" 10 0 m v] flags
    by (simp add: int_conv_def plain_number_text sign_text_def magnitude_def)
  moreover have "formatted m (map of_char ''%d'') [Int_arg v] = Some ((if sint v < 0 then [ch CHR ''-''] else []) @ ?u)"
    using formatted_plain [of "ch CHR ''d''" 10 SIGN m v] flags
    by (simp add: int_conv_def plain_number_text sign_text_def)
  moreover have "uint (magnitude SIGN v) = \<bar>sint v\<bar>"
    using flags negative_magnitude [of v] sint_not_negative [of v] by (simp add: magnitude_def)
  ultimately show ?thesis using digits_text_value [of 0 v] digits_text_value [of SIGN "magnitude SIGN v"] by metis
qed

text \<open>\<open>%o\<close> prints in hexadecimal, since \<open>divide\<close> knows two bases.\<close>

lemma octal_prints_hexadecimal:
  "formatted m (map of_char ''%o'') [Int_arg v] = formatted m (map of_char ''%x'') [Int_arg v]"
proof -
  have "number_digits fl 8 n = number_digits fl 16 n" for fl n
  proof (induction "unat n" arbitrary: n rule: less_induct)
    case less
    have "unat (n div 16) < unat n" if "n \<noteq> 0" using that by (simp add: unat_div unat_gt_0)
    then show ?case using less.hyps [of "n div 16"]
      by (subst (1 2) number_digits.simps) (simp add: divide_base_def)
  qed
  then show ?thesis
    using formatted_plain [of "ch CHR ''o''" 8 0 m v] formatted_plain [of "ch CHR ''x''" 16 0 m v]
    by (simp add: int_conv_def plain_number_text digits_text_def)
qed

text \<open>A field width cuts longer strings off, and \<open>%.0d\<close> prints no digit at all.\<close>

lemma width_cuts_string:
  assumes "c_string m s cs" "length cs < 2 ^ 32" "s \<noteq> 0" "0 \<le> field_width d" "nat (field_width d) < length cs"
    "precision d \<le> 0"
  shows "string_text m d s = Some (take (nat (field_width d)) cs)"
proof -
  have "mem_read m s (nat (field_width d)) = take (nat (field_width d)) cs"
    using assms(5) c_string_at [OF assms(1)] by (simp add: mem_read_eq_iff)
  then show ?thesis
    using string_length_string [OF assms(1-3), of "field_width d"] assms(3-6)
    by (simp add: string_text_def field_text_def Let_def)
qed

lemma precision_zero_prints_nothing:
  "width \<le> 0 \<Longrightarrow> \<not> isset SIGN type \<Longrightarrow> number_text num base width 0 type = []"
  by (simp add: number_text_def Let_def sign_text_def max_def)

text \<open>
  Of a text that is longer than its buffer, \<open>rt_kprintf\<close> hands the first 254 bytes and the zero
  behind them to the console.
\<close>

lemma kprintf_long_output_ends_with_zero:
  assumes ok: "list_all2 (arg_ok m log (log + 255)) args (fmt_kinds fmt)" and "unat log + 255 < 2 ^ 32"
    and t: "formatted m fmt args = Some t" "255 \<le> length t" "length t < 2 ^ 31" "unat log + length t < 2 ^ 32"
  shows "\<exists>m'. rt_kprintf log fmt args m = Some (255, m', take 254 t @ [0])"
proof -
  let ?m = "mem_write log (take 254 t @ [0]) m"
  have v: "rt_vsnprintf log 255 fmt args m = Some (int (length t), ?m)"
    using output_of_text [OF ok] assms(2-) by simp
  have u: "unat (of_nat (length t) :: u32) = length t" by (rule unat_of_nat32) (use t(3) in simp)
  have l: "length (take 254 t @ [0 :: u8]) = 255" using t(2) by simp
  have "mem_read ?m log 255 = take 254 t @ [0]" using mem_read_write [of "take 254 t @ [0]" log m] unfolding l by simp
  moreover have "\<not> 255 < (of_nat (length t) :: u32) \<Longrightarrow> (of_nat (length t) :: u32) = 255"
    using u t(2) by (simp add: word_less_nat_alt word_unat_eq_iff)
  ultimately show ?thesis using v by (auto simp: rt_kprintf_def RT_CONSOLEBUF_SIZE_def Let_def)
qed

end
