(* ===== verification/PrintfFormat.thy ===== *)
theory PrintfFormat
  imports PrintfText
begin

text \<open>
  What a format means, independently of how \<open>rt_vsnprintf\<close> reads it and makes digits. A format is
  a list of items, plain bytes and conversions with their flags, width, precision and qualifier;
  \<open>unparse\<close> writes it as the C string. \<open>text_of\<close> is the text of the items for a list of values:
  words, addresses, and strings as lists of bytes. The deviations of the code from the C standard
  are in it as the code has them: \<open>%o\<close> prints base 16, a width also cuts strings off, a precision
  of zero prints no digits but counts them, and \<open>%%\<close> ignores its width.
\<close>

section \<open>Formats\<close>

datatype amount = Absent | Fixed nat | Star

datatype fmt_item =
    Plain u8
  | Conv "char list" amount amount "char option" char

datatype fvalue = Word_value u32 | String_value "buf option" | Address_value u32

definition digit :: "bool \<Rightarrow> nat \<Rightarrow> u8" where
  "digit upper d = of_char ((if upper then ''0123456789ABCDEF'' else ''0123456789abcdef'') ! d)"

text \<open>The digits of a number, most significant first.\<close>

function digits_of :: "nat \<Rightarrow> bool \<Rightarrow> nat \<Rightarrow> buf" where
  "digits_of b upper n =
     (if b < 2 \<or> n < b then [digit upper n] else digits_of b upper (n div b) @ [digit upper (n mod b)])"
  by auto
termination
  by (relation "measure (\<lambda>(_, _, n). n)") auto

declare digits_of.simps [simp del]

definition unparse_amount :: "amount \<Rightarrow> buf" where
  "unparse_amount a = (case a of Absent \<Rightarrow> [] | Fixed n \<Rightarrow> digits_of 10 False n | Star \<Rightarrow> [ch CHR ''*''])"

fun unparse :: "fmt_item list \<Rightarrow> buf" where
  "unparse [] = []"
| "unparse (Plain c # its) = c # unparse its"
| "unparse (Conv fl w p q c # its) =
     ch CHR ''%'' # map of_char fl @ unparse_amount w @
     (if p = Absent then [] else ch CHR ''.'' # unparse_amount p) @
     (case q of None \<Rightarrow> [] | Some q \<Rightarrow> [of_char q]) @ of_char c # unparse its"

text \<open>
  A plain byte is no percent sign and not the end of the string; a width is not zero, since a
  zero in its place is a flag.
\<close>

fun item_ok :: "fmt_item \<Rightarrow> bool" where
  "item_ok (Plain c) \<longleftrightarrow> c \<noteq> 0 \<and> c \<noteq> ch CHR ''%''"
| "item_ok (Conv fl w p q c) \<longleftrightarrow>
     set fl \<subseteq> set ''-+ #0'' \<and> w \<noteq> Fixed 0 \<and> q \<in> {None, Some CHR ''h'', Some CHR ''l''} \<and>
     c \<in> set ''cspdiuxXo%''"

section \<open>The text of a format\<close>

definition pad_field :: "bool \<Rightarrow> nat \<Rightarrow> buf \<Rightarrow> buf" where
  "pad_field left w t =
     (if left then t @ replicate (w - length t) (ch CHR '' '') else replicate (w - length t) (ch CHR '' '') @ t)"

definition number_field :: "bool \<Rightarrow> bool \<Rightarrow> nat \<Rightarrow> nat option \<Rightarrow> buf \<Rightarrow> buf \<Rightarrow> buf" where
  "number_field left zero w p sign ds =
     (let zeros = (case p of None \<Rightarrow> 0 | Some p \<Rightarrow> p - length ds);
          body = replicate zeros (ch CHR ''0'') @ (if p = Some 0 then [] else ds);
          room = w - (zeros + length ds + length sign)
      in if left then sign @ body @ replicate room (ch CHR '' '')
         else if zero then sign @ replicate room (ch CHR ''0'') @ body
         else replicate room (ch CHR '' '') @ sign @ body)"

definition sign_of :: "char list \<Rightarrow> int \<Rightarrow> buf" where
  "sign_of fl v =
     (if v < 0 then [ch CHR ''-'']
      else if CHR ''+'' \<in> set fl then [ch CHR ''+'']
      else if CHR '' '' \<in> set fl then [ch CHR '' ''] else [])"

definition cut_string :: "nat option \<Rightarrow> nat option \<Rightarrow> buf \<Rightarrow> buf" where
  "cut_string w p t =
     (let t = (case w of None \<Rightarrow> t | Some w \<Rightarrow> take w t)
      in case p of None \<Rightarrow> t | Some p \<Rightarrow> if p = 0 then t else take p t)"

definition wide :: "nat option \<Rightarrow> nat" where
  "wide w = (case w of None \<Rightarrow> 0 | Some n \<Rightarrow> n)"

definition short :: "char option \<Rightarrow> bool" where
  "short q \<longleftrightarrow> q = Some CHR ''h''"

fun word_text :: "bool \<Rightarrow> char list \<Rightarrow> nat option \<Rightarrow> nat option \<Rightarrow> char option \<Rightarrow> char \<Rightarrow> u32 \<Rightarrow> buf" where
  "word_text left fl w p q c v =
     (let signed = (if short q then sint (ucast v :: 16 word) else sint v);
          unsigned = (if short q then unat (ucast v :: 16 word) else unat v);
          number = number_field left (CHR ''0'' \<in> set fl) (wide w) p
      in if c = CHR ''c'' then pad_field left (wide w) [ucast v]
         else if c = CHR ''d'' \<or> c = CHR ''i'' then number (sign_of fl signed) (digits_of 10 False (nat \<bar>signed\<bar>))
         else if c = CHR ''u'' then number [] (digits_of 10 False unsigned)
         else number [] (digits_of 16 (c = CHR ''X'') unsigned))"

definition address_text :: "bool \<Rightarrow> char list \<Rightarrow> nat option \<Rightarrow> nat option \<Rightarrow> u32 \<Rightarrow> buf" where
  "address_text left fl w p a =
     number_field left (w = None \<or> CHR ''0'' \<in> set fl) (if w = None then 8 else wide w) p [] (digits_of 16 False (unat a))"

definition bytes_text :: "bool \<Rightarrow> nat option \<Rightarrow> nat option \<Rightarrow> buf option \<Rightarrow> buf" where
  "bytes_text left w p s =
     pad_field left (wide w) (cut_string w p (case s of None \<Rightarrow> map of_char ''(NULL)'' | Some cs \<Rightarrow> cs))"

text \<open>A star takes a word: as a width, a negative one also means \<open>-\<close>; as a precision, it means zero.\<close>

fun take_width :: "amount \<Rightarrow> fvalue list \<Rightarrow> (bool \<times> nat option \<times> fvalue list) option" where
  "take_width Absent vs = Some (False, None, vs)"
| "take_width (Fixed n) vs = Some (False, Some n, vs)"
| "take_width Star (Word_value v # vs) = Some (sint v < 0, Some (nat \<bar>sint v\<bar>), vs)"
| "take_width Star _ = None"

fun take_precision :: "amount \<Rightarrow> fvalue list \<Rightarrow> (nat option \<times> fvalue list) option" where
  "take_precision Absent vs = Some (None, vs)"
| "take_precision (Fixed n) vs = Some (Some n, vs)"
| "take_precision Star (Word_value v # vs) = Some (Some (nat (sint v)), vs)"
| "take_precision Star _ = None"

fun value_text :: "bool \<Rightarrow> char list \<Rightarrow> nat option \<Rightarrow> nat option \<Rightarrow> char option \<Rightarrow> char \<Rightarrow> fvalue list \<Rightarrow> (buf \<times> fvalue list) option" where
  "value_text left fl w p q c vs =
     (if c = CHR ''%'' then Some ([ch CHR ''%''], vs)
      else case vs of
          Word_value v # vs \<Rightarrow> if c \<in> set ''cdiuxXo'' then Some (word_text left fl w p q c v, vs) else None
        | String_value s # vs \<Rightarrow> if c = CHR ''s'' then Some (bytes_text left w p s, vs) else None
        | Address_value a # vs \<Rightarrow> if c = CHR ''p'' then Some (address_text left fl w p a, vs) else None
        | [] \<Rightarrow> None)"

fun text_of :: "fmt_item list \<Rightarrow> fvalue list \<Rightarrow> buf option" where
  "text_of [] vs = Some []"
| "text_of (Plain c # its) vs = map_option ((#) c) (text_of its vs)"
| "text_of (Conv fl w p q c # its) vs =
     Option.bind (take_width w vs) (\<lambda>(neg, w, vs).
     Option.bind (take_precision p vs) (\<lambda>(p, vs).
     Option.bind (value_text (neg \<or> CHR ''-'' \<in> set fl) fl w p q c vs) (\<lambda>(t, vs).
       map_option ((@) t) (text_of its vs))))"

text \<open>The kinds of values that a format needs.\<close>

fun needs :: "fmt_item list \<Rightarrow> kind list" where
  "needs [] = []"
| "needs (Plain c # its) = needs its"
| "needs (Conv fl w p q c # its) =
     (if w = Star then [Number] else []) @ (if p = Star then [Number] else []) @
     (if c = CHR ''%'' then [] else if c = CHR ''s'' then [String] else if c = CHR ''p'' then [Address] else [Number]) @
     needs its"

fun kind_of :: "fvalue \<Rightarrow> kind" where
  "kind_of (Word_value v) = Number"
| "kind_of (String_value s) = String"
| "kind_of (Address_value a) = Address"

text \<open>
  How values are passed: a string by an address where it stands, outside the buffer from \<open>b\<close> to
  \<open>lim\<close>.
\<close>

fun passes :: "mem \<Rightarrow> u32 \<Rightarrow> u32 \<Rightarrow> varg \<Rightarrow> fvalue \<Rightarrow> bool" where
  "passes m b lim (Int_arg v) (Word_value v') \<longleftrightarrow> v = v'"
| "passes m b lim (Ptr_arg a) (Address_value a') \<longleftrightarrow> a = a'"
| "passes m b lim (Ptr_arg a) (String_value None) \<longleftrightarrow> a = 0"
| "passes m b lim (Ptr_arg a) (String_value (Some cs)) \<longleftrightarrow>
     a \<noteq> 0 \<and> c_string m a cs \<and> length cs < 2 ^ 32 \<and> (\<forall>i \<le> length cs. \<not> inside b lim (a + of_nat i))"
| "passes m b lim _ _ \<longleftrightarrow> False"

section \<open>Values of the right kinds have a text\<close>

lemma text_exists: "list_all item_ok its \<Longrightarrow> map kind_of vs = needs its \<Longrightarrow> \<exists>t. text_of its vs = Some t"
proof (induction its arbitrary: vs)
  case (Cons i its)
  show ?case
  proof (cases i)
    case (Plain c)
    then show ?thesis using Cons by auto
  next
    case (Conv fl w p q c)
    have kn: "kind_of v = Number \<longleftrightarrow> (\<exists>x. v = Word_value x)" "kind_of v = String \<longleftrightarrow> (\<exists>x. v = String_value x)"
      "kind_of v = Address \<longleftrightarrow> (\<exists>x. v = Address_value x)" for v by (cases v; simp)+
    obtain ng w' vs1 where 1: "take_width w vs = Some (ng, w', vs1)"
      "map kind_of vs1 = (if p = Star then [Number] else []) @
       (if c = CHR ''%'' then [] else if c = CHR ''s'' then [String] else if c = CHR ''p'' then [Address] else [Number]) @
       needs its"
      using Cons.prems(2) Conv by (cases w) (auto simp: map_eq_Cons_conv kn)
    then obtain p' vs2 where 2: "take_precision p vs1 = Some (p', vs2)"
      "map kind_of vs2 = (if c = CHR ''%'' then [] else if c = CHR ''s'' then [String] else if c = CHR ''p'' then [Address] else [Number]) @ needs its"
      by (cases p) (auto simp: map_eq_Cons_conv kn)
    let ?l = "ng \<or> CHR ''-'' \<in> set fl"
    have "c \<in> set ''cspdiuxXo%''" using Cons.prems(1) Conv by simp
    then obtain t vs3 where 3: "value_text ?l fl w' p' q c vs2 = Some (t, vs3)" "map kind_of vs3 = needs its"
      using 2(2) by (cases "c = CHR ''%''"; cases "c = CHR ''s''"; cases "c = CHR ''p''") (auto simp: map_eq_Cons_conv kn)
    obtain u where "text_of its vs3 = Some u" using Cons.IH [OF _ 3(2)] Cons.prems(1) by auto
    then show ?thesis using 1(1) 2(1) 3(1) Conv by auto
  qed
qed simp

section \<open>Reading a format back\<close>

lemma digit_is_digit: "d < 10 \<Longrightarrow> is_digit (digit up d) \<and> uint (digit up d) - 48 = int d"
proof -
  assume "d < 10"
  then have "d \<in> {0, 1, 2, 3, 4, 5, 6, 7, 8, 9}" by auto
  then show ?thesis by (auto simp: digit_def is_digit_def)
qed

text \<open>\<open>skip_atoi\<close> reads the digits of a number.\<close>

lemma skip_digits:
  "skip_atoi k (digits_of 10 up n @ rest) = skip_atoi (k * 10 ^ length (digits_of 10 up n) + int n) rest"
proof (induction n arbitrary: rest rule: less_induct)
  case (less n)
  show ?case
  proof (cases "n < 10")
    case True
    then show ?thesis using digit_is_digit [OF True, of up] by (simp add: digits_of.simps [of _ _ n])
  next
    case False
    then have e: "digits_of 10 up n = digits_of 10 up (n div 10) @ [digit up (n mod 10)]"
      by (simp add: digits_of.simps [of _ _ n])
    have "int n = int (n div 10) * 10 + int (n mod 10)" by (simp add: zdiv_int zmod_int)
    then show ?thesis
      using less.IH [of "n div 10" "digit up (n mod 10) # rest"] digit_is_digit [of "n mod 10" up] False
      by (simp add: e algebra_simps)
  qed
qed

lemma skip_number:
  "\<not> starts is_digit rest \<Longrightarrow> skip_atoi 0 (digits_of 10 up n @ rest) = (int n, rest)"
  using skip_digits [of 0 up n rest] by (cases rest) (auto simp: starts_def)

text \<open>The first digit of a number that is not zero is not zero.\<close>

lemma digits_head:
  "\<exists>d r. digits_of 10 up n = digit up d # r \<and> d < 10 \<and> (0 < n \<longrightarrow> 0 < d)"
proof (induction n rule: less_induct)
  case (less n)
  show ?case
  proof (cases "n < 10")
    case True
    then show ?thesis by (intro exI [of _ n]) (simp add: digits_of.simps [of _ _ n])
  next
    case False
    then show ?thesis using less.IH [of "n div 10"] by (auto simp: digits_of.simps [of _ _ n])
  qed
qed

definition is_flag :: "u8 \<Rightarrow> bool" where
  "is_flag c \<longleftrightarrow> c \<in> ch ` set ''-+ #0''"

definition flag_byte :: "char \<Rightarrow> u8" where
  "flag_byte c = (if c = CHR ''-'' then LEFT else if c = CHR ''+'' then PLUS else if c = CHR '' '' then SPACE
     else if c = CHR ''#'' then SPECIAL else ZEROPAD)"

lemma get_flags_unparse:
  "set fl \<subseteq> set ''-+ #0'' \<Longrightarrow> \<not> starts is_flag rest \<Longrightarrow>
   get_flags a (map of_char fl @ rest) = (fold (\<lambda>c a. a OR flag_byte c) fl a, rest)"
proof (induction fl arbitrary: a)
  case Nil
  then show ?case by (cases rest) (auto simp: starts_def is_flag_def)
next
  case (Cons c fl)
  then show ?case by (auto simp: flag_byte_def)
qed

lemma flag_byte_isset:
  "c \<in> set ''-+ #0'' \<Longrightarrow>
   isset LEFT (a OR flag_byte c) = (isset LEFT a \<or> c = CHR ''-'') \<and>
   isset PLUS (a OR flag_byte c) = (isset PLUS a \<or> c = CHR ''+'') \<and>
   isset SPACE (a OR flag_byte c) = (isset SPACE a \<or> c = CHR '' '') \<and>
   isset ZEROPAD (a OR flag_byte c) = (isset ZEROPAD a \<or> c = CHR ''0'') \<and>
   isset SIGN (a OR flag_byte c) = isset SIGN a \<and> isset LARGE (a OR flag_byte c) = isset LARGE a"
proof -
  have "bit LEFT 4" "\<not> bit LEFT 2" "\<not> bit LEFT 3" "\<not> bit LEFT 0" "\<not> bit LEFT 1" "\<not> bit LEFT 6"
    "\<not> bit PLUS 4" "bit PLUS 2" "\<not> bit PLUS 3" "\<not> bit PLUS 0" "\<not> bit PLUS 1" "\<not> bit PLUS 6"
    "\<not> bit SPACE 4" "\<not> bit SPACE 2" "bit SPACE 3" "\<not> bit SPACE 0" "\<not> bit SPACE 1" "\<not> bit SPACE 6"
    "\<not> bit SPECIAL 4" "\<not> bit SPECIAL 2" "\<not> bit SPECIAL 3" "\<not> bit SPECIAL 0" "\<not> bit SPECIAL 1" "\<not> bit SPECIAL 6"
    "\<not> bit ZEROPAD 4" "\<not> bit ZEROPAD 2" "\<not> bit ZEROPAD 3" "bit ZEROPAD 0" "\<not> bit ZEROPAD 1" "\<not> bit ZEROPAD 6"
    by code_simp+
  note bits = this [unfolded One_nat_def]
  assume "c \<in> set ''-+ #0''"
  then consider "c = CHR ''-''" | "c = CHR ''+''" | "c = CHR '' ''" | "c = CHR ''#''" | "c = CHR ''0''" by auto
  then show ?thesis unfolding isset_bit bit_or_iff by cases (simp_all add: flag_byte_def bits)
qed

lemma fold_flags:
  "set fl \<subseteq> S \<Longrightarrow> \<forall>c \<in> S. \<forall>a. isset F (a OR flag_byte c) = (isset F a \<or> P c) \<Longrightarrow>
   isset F (fold (\<lambda>c a. a OR flag_byte c) fl a) \<longleftrightarrow> isset F a \<or> (\<exists>c \<in> set fl. P c)"
  by (induction fl arbitrary: a) auto

lemma directive_bits:
  assumes "set fl \<subseteq> set ''-+ #0''"
  defines "b \<equiv> fold (\<lambda>c a. a OR flag_byte c) fl 0"
  shows "isset LEFT b \<longleftrightarrow> CHR ''-'' \<in> set fl" "isset PLUS b \<longleftrightarrow> CHR ''+'' \<in> set fl"
    "isset SPACE b \<longleftrightarrow> CHR '' '' \<in> set fl" "isset ZEROPAD b \<longleftrightarrow> CHR ''0'' \<in> set fl"
    "\<not> isset SIGN b" "\<not> isset LARGE b"
proof -
  have z: "\<not> isset F 0" for F by (simp add: isset_def)
  show "isset LEFT b \<longleftrightarrow> CHR ''-'' \<in> set fl"
    unfolding b_def using fold_flags [OF assms(1), of LEFT "\<lambda>c. c = CHR ''-''" 0] flag_byte_isset z by blast
  show "isset PLUS b \<longleftrightarrow> CHR ''+'' \<in> set fl"
    unfolding b_def using fold_flags [OF assms(1), of PLUS "\<lambda>c. c = CHR ''+''" 0] flag_byte_isset z by blast
  show "isset SPACE b \<longleftrightarrow> CHR '' '' \<in> set fl"
    unfolding b_def using fold_flags [OF assms(1), of SPACE "\<lambda>c. c = CHR '' ''" 0] flag_byte_isset z by blast
  show "isset ZEROPAD b \<longleftrightarrow> CHR ''0'' \<in> set fl"
    unfolding b_def using fold_flags [OF assms(1), of ZEROPAD "\<lambda>c. c = CHR ''0''" 0] flag_byte_isset z by blast
  show "\<not> isset SIGN b"
    unfolding b_def using fold_flags [OF assms(1), of SIGN "\<lambda>c. False" 0] flag_byte_isset z by blast
  show "\<not> isset LARGE b"
    unfolding b_def using fold_flags [OF assms(1), of LARGE "\<lambda>c. False" 0] flag_byte_isset z by blast
qed

text \<open>The numbers of the code: a missing width or precision is \<open>-1\<close>.\<close>

definition int_or :: "nat option \<Rightarrow> int" where
  "int_or n = (case n of None \<Rightarrow> - 1 | Some n \<Rightarrow> int n)"

definition conv_tail :: "char option \<Rightarrow> char \<Rightarrow> buf \<Rightarrow> buf" where
  "conv_tail q c rest = (case q of None \<Rightarrow> [] | Some q \<Rightarrow> [of_char q]) @ of_char c # rest"

definition prec_tail :: "amount \<Rightarrow> buf \<Rightarrow> buf" where
  "prec_tail p rest = (if p = Absent then [] else ch CHR ''.'' # unparse_amount p) @ rest"

lemma conv_tail_starts:
  assumes "q \<in> {None, Some CHR ''h'', Some CHR ''l''}" "c \<in> set ''cspdiuxXo%''"
  shows "\<not> starts is_digit (conv_tail q c rest)" "\<not> starts (\<lambda>c. c = ch CHR ''*'') (conv_tail q c rest)"
    "\<not> starts (\<lambda>c. c = ch CHR ''.'') (conv_tail q c rest)" "\<not> starts is_flag (conv_tail q c rest)"
    "get_qualifier (conv_tail q c rest) = (case q of None \<Rightarrow> 0 | Some q \<Rightarrow> of_char q, of_char c # rest)"
  using assms by (auto simp: conv_tail_def starts_def is_digit_def is_flag_def get_qualifier_def)

lemma prec_tail_starts:
  assumes "\<not> starts is_digit r" "\<not> starts (\<lambda>c. c = ch CHR ''*'') r" "\<not> starts is_flag r"
  shows "\<not> starts is_digit (prec_tail p r)" "\<not> starts (\<lambda>c. c = ch CHR ''*'') (prec_tail p r)"
    "\<not> starts is_flag (prec_tail p r)"
  using assms by (auto simp: prec_tail_def starts_def is_digit_def is_flag_def)

abbreviation passed :: "mem \<Rightarrow> u32 \<Rightarrow> u32 \<Rightarrow> varg list \<Rightarrow> fvalue list \<Rightarrow> bool" where
  "passed m b lim args vs \<equiv> list_all2 (passes m b lim) args vs"

lemma passes_word: "passes m b lim a (Word_value v) \<longleftrightarrow> a = Int_arg v"
  by (cases a) auto

lemma passes_address: "passes m b lim a (Address_value v) \<longleftrightarrow> a = Ptr_arg v"
  by (cases a) auto

lemma starts_digits: "starts is_digit (digits_of 10 up n @ r)"
proof -
  obtain d r' where "digits_of 10 up n = digit up d # r'" "d < 10" using digits_head by blast
  then show ?thesis using digit_is_digit by (simp add: starts_def)
qed

lemma get_width_unparse:
  assumes "take_width w vs = Some (neg, w', vs')" "passed m b lim args vs"
    and "\<not> starts is_digit r" "\<not> starts (\<lambda>c. c = ch CHR ''*'') r"
  shows "\<exists>args'. get_width fl (unparse_amount w @ r) args =
      Some (int_or w', if neg then fl OR LEFT else fl, r, args') \<and> passed m b lim args' vs'"
proof (cases w)
  case Absent
  then show ?thesis using assms by (auto simp: unparse_amount_def get_width_def int_or_def)
next
  case (Fixed n)
  then show ?thesis
    using assms skip_number [OF assms(3), of False n] starts_digits [of False n r]
    by (auto simp: unparse_amount_def get_width_def int_or_def)
next
  case Star
  then obtain v where vs: "vs = Word_value v # vs'" and w': "neg = (sint v < 0)" "w' = Some (nat \<bar>sint v\<bar>)"
    using assms(1) by (cases "(w, vs)" rule: take_width.cases) auto
  then obtain args' where "args = Int_arg v # args'" "passed m b lim args' vs'"
    using assms(2) by (auto simp: list_all2_Cons2 passes_word)
  then show ?thesis
    using w' Star by (auto simp: unparse_amount_def get_width_def int_or_def starts_def is_digit_def va_int_def)
qed

lemma get_precision_unparse:
  assumes "take_precision p vs = Some (p', vs')" "passed m b lim args vs"
    and "\<not> starts is_digit r" "\<not> starts (\<lambda>c. c = ch CHR ''*'') r" "\<not> starts (\<lambda>c. c = ch CHR ''.'') r"
  shows "\<exists>args'. get_precision (prec_tail p r) args = Some (int_or p', r, args') \<and> passed m b lim args' vs'"
proof (cases p)
  case Absent
  then show ?thesis using assms by (auto simp: prec_tail_def unparse_amount_def get_precision_def int_or_def)
next
  case (Fixed n)
  have "starts (\<lambda>c. c = ch CHR ''.'') (prec_tail p r)" "tl (prec_tail p r) = digits_of 10 False n @ r"
    using Fixed by (simp_all add: prec_tail_def unparse_amount_def starts_def)
  then show ?thesis
    using assms(1,2) skip_number [OF assms(3), of False n] starts_digits [of False n r] Fixed
    by (auto simp: get_precision_def int_or_def)
next
  case Star
  then obtain v where vs: "vs = Word_value v # vs'" and p': "p' = Some (nat (sint v))"
    using assms(1) by (cases "(p, vs)" rule: take_precision.cases) auto
  then obtain args' where "args = Int_arg v # args'" "passed m b lim args' vs'"
    using assms(2) by (auto simp: list_all2_Cons2 passes_word)
  then show ?thesis
    using p' Star by (auto simp: prec_tail_def unparse_amount_def get_precision_def int_or_def starts_def is_digit_def va_int_def)
qed

lemma get_flags_conv:
  assumes ok: "item_ok (Conv fl w p q c)"
  shows "get_flags 0 (map of_char fl @ unparse_amount w @ prec_tail p (conv_tail q c rest)) =
    (fold (\<lambda>c a. a OR flag_byte c) fl 0, unparse_amount w @ prec_tail p (conv_tail q c rest))"
proof -
  let ?r2 = "prec_tail p (conv_tail q c rest)"
  have fl: "set fl \<subseteq> set ''-+ #0''" and w0: "w \<noteq> Fixed 0" using ok by simp_all
  have c: "q \<in> {None, Some CHR ''h'', Some CHR ''l''}" "c \<in> set ''cspdiuxXo%''" using ok by simp_all
  note r1 = conv_tail_starts [OF c, of rest]
  note r2 = prec_tail_starts [OF r1(1,2,4), of p]
  have "\<not> starts is_flag (unparse_amount w @ ?r2)"
  proof (cases w)
    case (Fixed n)
    then have "0 < n" using w0 by simp
    then obtain d r' where "digits_of 10 False n = digit False d # r'" "d < 10" "0 < d" using digits_head by blast
    moreover from this have "d \<in> {1, 2, 3, 4, 5, 6, 7, 8, 9}" by auto
    ultimately show ?thesis using Fixed by (auto simp: unparse_amount_def starts_def is_flag_def digit_def)
  qed (use r2(3) in \<open>auto simp: unparse_amount_def starts_def is_flag_def\<close>)
  then show ?thesis using get_flags_unparse [OF fl] by blast
qed

text \<open>A conversion is read as it was written.\<close>

lemma get_directive_unparse:
  assumes ok: "item_ok (Conv fl w p q c)" and w: "take_width w vs = Some (neg, w', vs1)"
    and p: "take_precision p vs1 = Some (p', vs2)" and args: "passed m b lim args vs"
  obtains d args' where "get_directive (map of_char fl @ unparse_amount w @ prec_tail p (conv_tail q c rest)) args =
      Some (d, of_char c # rest, args')" "passed m b lim args' vs2"
    "isset LEFT (flags d) \<longleftrightarrow> neg \<or> CHR ''-'' \<in> set fl" "isset PLUS (flags d) \<longleftrightarrow> CHR ''+'' \<in> set fl"
    "isset SPACE (flags d) \<longleftrightarrow> CHR '' '' \<in> set fl" "isset ZEROPAD (flags d) \<longleftrightarrow> CHR ''0'' \<in> set fl"
    "\<not> isset SIGN (flags d)" "\<not> isset LARGE (flags d)" "field_width d = int_or w'" "precision d = int_or p'"
    "qualifier d = (case q of None \<Rightarrow> 0 | Some q \<Rightarrow> of_char q)"
proof -
  let ?r1 = "conv_tail q c rest" and ?b = "fold (\<lambda>c a. a OR flag_byte c) fl 0"
  let ?r2 = "prec_tail p ?r1"
  have fl: "set fl \<subseteq> set ''-+ #0''" using ok by simp
  note r1 = conv_tail_starts [of q c rest]
  have c: "q \<in> {None, Some CHR ''h'', Some CHR ''l''}" "c \<in> set ''cspdiuxXo%''" using ok by simp_all
  note r2 = prec_tail_starts [OF r1(1) [OF c] r1(2) [OF c] r1(4) [OF c], of p]
  have 1: "get_flags 0 (map of_char fl @ unparse_amount w @ ?r2) = (?b, unparse_amount w @ ?r2)"
    by (rule get_flags_conv [OF ok])
  obtain args1 where 2: "get_width ?b (unparse_amount w @ ?r2) args =
      Some (int_or w', if neg then ?b OR LEFT else ?b, ?r2, args1)" "passed m b lim args1 vs1"
    using get_width_unparse [OF w args r2(1,2)] by blast
  obtain args2 where 3: "get_precision ?r2 args1 = Some (int_or p', ?r1, args2)" "passed m b lim args2 vs2"
    using get_precision_unparse [OF p 2(2) r1(1-3) [OF c]] by blast
  let ?d = "\<lparr>flags = (if neg then ?b OR LEFT else ?b), field_width = int_or w', precision = int_or p',
    qualifier = (case q of None \<Rightarrow> 0 | Some q \<Rightarrow> of_char q)\<rparr>"
  have "get_directive (map of_char fl @ unparse_amount w @ ?r2) args = Some (?d, of_char c # rest, args2)"
    using r1(5) [OF c] by (simp add: get_directive_def 1 2(1) 3(1))
  note dir = this
  have "LEFT = flag_byte CHR ''-''" by (simp add: flag_byte_def)
  then have "isset LEFT (?b OR LEFT)" "isset PLUS (?b OR LEFT) = isset PLUS ?b" "isset SPACE (?b OR LEFT) = isset SPACE ?b"
    "isset ZEROPAD (?b OR LEFT) = isset ZEROPAD ?b" "isset SIGN (?b OR LEFT) = isset SIGN ?b"
    "isset LARGE (?b OR LEFT) = isset LARGE ?b"
    using flag_byte_isset [of "CHR ''-''" ?b] by simp_all
  note left = this
  show thesis
    by (rule that [OF dir 3(2)]) (cases neg; simp add: left directive_bits [OF fl])+
qed

section \<open>The text of a conversion\<close>

lemma digit_char_digit:
  assumes "unat d < 16"
  shows "digit_char type d = digit (isset LARGE type) (unat d)"
proof -
  have "d = of_nat (unat d)" by simp
  moreover have "unat d \<in> {0, 1, 2, 3, 4, 5, 6, 7, 8, 9, 10, 11, 12, 13, 14, 15}" using assms by (simp only: insert_iff empty_iff) presburger
  ultimately obtain k where k: "d = of_nat k" "unat d = k" "k \<in> {0, 1, 2, 3, 4, 5, 6, 7, 8, 9, 10, 11, 12, 13, 14, 15}"
    by blast
  show ?thesis
    using k(3) unfolding k(2) unfolding k(1) by (elim insertE emptyE) (simp_all add: digit_char_def digit_def)
qed

lemma number_digits_rev:
  assumes "n \<noteq> 0"
  shows "rev (number_digits type base n) = digits_of (if base = 10 then 10 else 16) (isset LARGE type) (unat n)"
  using assms
proof (induction "unat n" arbitrary: n rule: less_induct)
  case less
  define B :: nat where "B = (if base = 10 then 10 else 16)"
  have B: "2 \<le> B" "B \<le> 16" by (simp_all add: B_def)
  obtain res q where d: "divide_base n base = (res, q)" by (rule prod.exhaust)
  have r: "unat res = unat n mod B" "unat q = unat n div B"
    using d by (auto simp: divide_base_def B_def unat_mod unat_div split: if_splits)
  have "unat res < B" unfolding r using B by simp
  then have c: "digit_char type res = digit (isset LARGE type) (unat n mod B)"
    using digit_char_digit [of res type] B(2) r(1) by (metis less_le_trans)
  have e: "rev (number_digits type base n) = rev (number_digits type base q) @ [digit (isset LARGE type) (unat n mod B)]"
    using less.prems d c by (simp add: number_digits.simps [of _ _ n])
  show ?case
  proof (cases "unat n < B")
    case True
    then have "q = 0" using r by (simp add: unat_eq_zero [symmetric])
    then have "number_digits type base q = []" by (simp add: number_digits.simps)
    then show ?thesis using e True unfolding B_def [symmetric] by (simp add: digits_of.simps [of _ _ "unat n"])
  next
    case False
    then have "q \<noteq> 0" "unat q < unat n" using r B by (auto simp: unat_eq_zero [symmetric] div_eq_0_iff)
    then have "rev (number_digits type base q) = digits_of B (isset LARGE type) (unat n div B)"
      using less.hyps [of q] r unfolding B_def by simp
    then show ?thesis
      using e False B unfolding B_def [symmetric] by (simp add: digits_of.simps [of _ _ "unat n"])
  qed
qed

lemma digits_text_of:
  "digits_text type base n = digits_of (if base = 10 then 10 else 16) (isset LARGE type) (unat n)"
proof (cases "n = 0")
  case True
  then show ?thesis by (simp add: digits_text_def digits_of.simps digit_def)
next
  case False
  then show ?thesis using number_digits_rev by (simp add: digits_text_def)
qed

lemma number_text_field:
  "number_text num base (int_or w) (int_or p) type =
   number_field (isset LEFT type) (isset ZEROPAD type) (wide w) p (sign_text type num)
     (digits_of (if base = 10 then 10 else 16) (isset LARGE type) (unat (magnitude type num)))"
proof -
  let ?ds = "digits_text type base (magnitude type num)"
  let ?z = "case p of None \<Rightarrow> 0 | Some p \<Rightarrow> p - length ?ds"
  have n: "max (int_or p) (int (length ?ds)) = int (?z + length ?ds)"
    by (auto simp: int_or_def split: option.splits)
  have p0: "int_or p = 0 \<longleftrightarrow> p = Some 0" by (auto simp: int_or_def split: option.splits)
  have room: "nat (int_or w - int (?z + length ?ds) - int (length (sign_text type num))) =
      wide w - (?z + length ?ds + length (sign_text type num))"
    by (cases w) (auto simp: int_or_def wide_def)
  show ?thesis
    unfolding number_text_def number_field_def Let_def n p0 room digits_text_of [symmetric] by simp
qed

lemma isset_or_sign:
  "isset SIGN (x OR SIGN)" "isset PLUS (x OR SIGN) = isset PLUS x" "isset SPACE (x OR SIGN) = isset SPACE x"
  "isset LEFT (x OR SIGN) = isset LEFT x" "isset ZEROPAD (x OR SIGN) = isset ZEROPAD x"
  "isset LARGE (x OR SIGN) = isset LARGE x" "isset LARGE (x OR LARGE)" "isset SIGN (x OR LARGE) = isset SIGN x"
  "isset LEFT (x OR LARGE) = isset LEFT x" "isset ZEROPAD (x OR LARGE) = isset ZEROPAD x"
proof -
  have "bit SIGN 1" "\<not> bit SIGN 0" "\<not> bit SIGN 2" "\<not> bit SIGN 3" "\<not> bit SIGN 4" "\<not> bit SIGN 6"
    "bit LARGE 6" "\<not> bit LARGE 0" "\<not> bit LARGE 1" "\<not> bit LARGE 4" by code_simp+
  note b = this [unfolded One_nat_def]
  show "isset SIGN (x OR SIGN)" "isset PLUS (x OR SIGN) = isset PLUS x" "isset SPACE (x OR SIGN) = isset SPACE x"
    "isset LEFT (x OR SIGN) = isset LEFT x" "isset ZEROPAD (x OR SIGN) = isset ZEROPAD x"
    "isset LARGE (x OR SIGN) = isset LARGE x" "isset LARGE (x OR LARGE)" "isset SIGN (x OR LARGE) = isset SIGN x"
    "isset LEFT (x OR LARGE) = isset LEFT x" "isset ZEROPAD (x OR LARGE) = isset ZEROPAD x"
    unfolding isset_bit bit_or_iff by (simp_all add: b)
qed

lemma short_values:
  fixes v :: u32
  shows "sint (scast (ucast v :: 16 word) :: u32) = sint (ucast v :: 16 word)"
    "unat (ucast (ucast v :: 16 word) :: u32) = unat (ucast v :: 16 word)"
proof -
  have "sint (ucast v :: 16 word) < 2 ^ 15" "- (2 ^ 15) \<le> sint (ucast v :: 16 word)"
    using sint_less [of "ucast v :: 16 word"] sint_greater_eq [of "ucast v :: 16 word"] by simp_all
  then show "sint (scast (ucast v :: 16 word) :: u32) = sint (ucast v :: 16 word)"
    unfolding signed_scast_eq by (intro signed_take_bit_int_eq_self) simp_all
  have "unat (ucast w :: u32) = unat w" for w :: "16 word"
    using unsigned_less [of w, where ?'a = nat] by (simp add: unsigned_ucast_eq take_bit_nat_eq_self)
  then show "unat (ucast (ucast v :: 16 word) :: u32) = unat (ucast v :: 16 word)" .
qed

lemma signed_parts:
  fixes num :: u32
  assumes "isset SIGN type"
  shows "unat (magnitude type num) = nat \<bar>sint num\<bar>"
proof (cases "sint num < 0")
  case True
  then have "magnitude type num = - num" "nat (uint (- num)) = nat \<bar>sint num\<bar>"
    using assms negative_magnitude [of num] by (simp_all add: magnitude_def)
  then show ?thesis by (simp only: unat_eq_nat_uint)
next
  case False
  then have "magnitude type num = num" "nat (uint num) = nat \<bar>sint num\<bar>"
    using sint_not_negative [of num] by (simp_all add: magnitude_def)
  then show ?thesis by (simp only: unat_eq_nat_uint)
qed

lemma word_conv_text:
  assumes c: "c \<in> set ''cdiuxXo''" and d: "isset LEFT (flags d) \<longleftrightarrow> left"
    "isset PLUS (flags d) \<longleftrightarrow> CHR ''+'' \<in> set fl" "isset SPACE (flags d) \<longleftrightarrow> CHR '' '' \<in> set fl"
    "isset ZEROPAD (flags d) \<longleftrightarrow> CHR ''0'' \<in> set fl" "\<not> isset SIGN (flags d)" "\<not> isset LARGE (flags d)"
    "field_width d = int_or w" "precision d = int_or p" "qualifier d = (case q of None \<Rightarrow> 0 | Some q \<Rightarrow> of_char q)"
    and q: "q \<in> {None, Some CHR ''h'', Some CHR ''l''}"
  shows "conv_text m d (of_char c) (Int_arg v # args) = Some (word_text left fl w p q c v, args)"
proof -
  have h: "qualifier d = ch CHR ''h'' \<longleftrightarrow> short q" using q d(9) by (auto simp: short_def)
  define fs where "fs = flags d OR SIGN"
  have fs: "isset SIGN fs" "isset LEFT fs = left" "isset PLUS fs \<longleftrightarrow> CHR ''+'' \<in> set fl"
    "isset SPACE fs \<longleftrightarrow> CHR '' '' \<in> set fl" "isset ZEROPAD fs \<longleftrightarrow> CHR ''0'' \<in> set fl" "\<not> isset LARGE fs"
    unfolding fs_def using d by (simp_all add: isset_or_sign)
  have signed: "sint (apply_qualifier (qualifier d) fs v) = (if short q then sint (ucast v :: 16 word) else sint v)"
    using h fs(1) by (simp add: apply_qualifier_def short_values)
  have sg: "sign_text fs x = sign_of fl (sint x)" for x using fs by (simp add: sign_text_def sign_of_def)
  have unsigned: "unat (magnitude f (apply_qualifier (qualifier d) f v)) = (if short q then unat (ucast v :: 16 word) else unat v)"
    "sign_text f (apply_qualifier (qualifier d) f v) = []" if "\<not> isset SIGN f" for f
    using h that by (simp_all add: apply_qualifier_def short_values magnitude_def sign_text_def)
  have large: "\<not> isset SIGN (flags d OR LARGE)" "isset LARGE (flags d OR LARGE)"
    "isset LEFT (flags d OR LARGE) = left" "isset ZEROPAD (flags d OR LARGE) \<longleftrightarrow> CHR ''0'' \<in> set fl"
    using d by (simp_all add: isset_or_sign)
  consider "c = CHR ''c''" | "c = CHR ''d''" | "c = CHR ''i''" | "c = CHR ''u''" | "c = CHR ''x''" | "c = CHR ''X''" | "c = CHR ''o''"
    using c by auto
  then show ?thesis
  proof cases
    case 1
    have "nat (int_or w - 1) = wide w - 1" by (cases w) (auto simp: int_or_def wide_def)
    then show ?thesis using 1 d(1,7) by (simp add: conv_text_def va_int_def field_text_def pad_field_def Let_def)
  next
    case 2
    show ?thesis unfolding 2
      by (simp add: conv_text_def va_int_def int_conv_def fs_def [symmetric] d(7,8) number_text_field signed_parts fs signed sg Let_def)
  next
    case 3
    show ?thesis unfolding 3
      by (simp add: conv_text_def va_int_def int_conv_def fs_def [symmetric] d(7,8) number_text_field signed_parts fs signed sg Let_def)
  next
    case 4
    show ?thesis unfolding 4
      by (simp add: conv_text_def va_int_def int_conv_def d(1-8) number_text_field unsigned Let_def)
  next
    case 5
    show ?thesis unfolding 5
      by (simp add: conv_text_def va_int_def int_conv_def d(1-8) number_text_field unsigned Let_def)
  next
    case 6
    show ?thesis unfolding 6
      by (simp add: conv_text_def va_int_def int_conv_def d(7,8) large number_text_field unsigned Let_def)
  next
    case 7
    show ?thesis unfolding 7
      by (simp add: conv_text_def va_int_def int_conv_def d(1-8) number_text_field unsigned Let_def)
  qed
qed

lemma address_conv_text:
  assumes "isset LEFT (flags d) \<longleftrightarrow> left" "isset ZEROPAD (flags d) \<longleftrightarrow> CHR ''0'' \<in> set fl" "\<not> isset SIGN (flags d)"
    "\<not> isset LARGE (flags d)" "field_width d = int_or w" "precision d = int_or p"
  shows "conv_text m d (ch CHR ''p'') (Ptr_arg a # args) = Some (address_text left fl w p a, args)"
proof -
  have "isset ZEROPAD (flags d OR ZEROPAD)" "isset LEFT (flags d OR ZEROPAD) = isset LEFT (flags d)"
    "isset SIGN (flags d OR ZEROPAD) = isset SIGN (flags d)" "isset LARGE (flags d OR ZEROPAD) = isset LARGE (flags d)"
    using flag_byte_isset [of "CHR ''0''" "flags d"] by (simp_all add: flag_byte_def)
  note z = this
  show ?thesis
  proof (cases w)
    case None
    have "number_text a 16 8 (int_or p) f = number_field (isset LEFT f) (isset ZEROPAD f) 8 p (sign_text f a)
        (digits_of 16 (isset LARGE f) (unat (magnitude f a)))" for f
      using number_text_field [of a 16 "Some 8" p f] by (simp add: int_or_def wide_def)
    then show ?thesis
      using assms z None by (simp add: conv_text_def va_ptr_def pointer_text_def address_text_def
          sign_text_def magnitude_def int_or_def)
  next
    case (Some n)
    then have "int_or w \<noteq> - 1" by (simp add: int_or_def)
    then show ?thesis
      using assms Some by (simp add: conv_text_def va_ptr_def pointer_text_def address_text_def number_text_field
          sign_text_def magnitude_def)
  qed
qed

lemma string_conv_text:
  assumes "isset LEFT (flags d) \<longleftrightarrow> left" "field_width d = int_or w" "precision d = int_or p"
    and "passes m b lim a (String_value s)"
  shows "conv_text m d (ch CHR ''s'') (a # args) = Some (bytes_text left w p s, args)"
proof -
  define t where "t = (case s of None \<Rightarrow> map of_char ''(NULL)'' | Some cs \<Rightarrow> cs)"
  obtain x where a: "a = Ptr_arg x" using assms(4) by (cases a) auto
  have len: "string_length (int_or w) x m = Some (int (case w of None \<Rightarrow> length t | Some w \<Rightarrow> min (length t) w))"
    and body: "(if x = 0 then take k null_string else mem_read m x k) = take k t" if "k \<le> length t" for k
  proof -
    show "string_length (int_or w) x m = Some (int (case w of None \<Rightarrow> length t | Some w \<Rightarrow> min (length t) w))"
    proof (cases s)
      case None
      then show ?thesis using assms(4) a by (cases w) (auto simp: string_length_def int_or_def t_def min_def)
    next
      case (Some cs)
      then show ?thesis
        using assms(4) a string_length_string [of m x cs "int_or w"] by (cases w) (auto simp: int_or_def t_def)
    qed
    show "(if x = 0 then take k null_string else mem_read m x k) = take k t"
    proof (cases s)
      case None
      then show ?thesis using assms(4) a by (simp add: t_def null_string_def)
    next
      case (Some cs)
      then have "c_string m x cs" "x \<noteq> 0" "t = cs" using assms(4) a by (auto simp: t_def)
      then show ?thesis using that c_string_at [of m x cs] by (simp add: mem_read_eq_iff)
    qed
  qed
  define L where "L = int (case w of None \<Rightarrow> length t | Some w \<Rightarrow> min (length t) w)"
  define K where "K = nat (if 0 < int_or p \<and> int_or p < L then int_or p else L)"
  have k: "K \<le> length t" by (cases w) (auto simp: K_def L_def)
  have c: "take K t = cut_string w p t"
    by (cases w; cases p) (auto simp: cut_string_def int_or_def min_def K_def L_def)
  have room: "nat (int_or w - int (length (cut_string w p t))) = wide w - length (cut_string w p t)"
    by (cases w) (auto simp: int_or_def wide_def)
  have "string_text m d x = Some (field_text left (int_or w) (if x = 0 then take K null_string else mem_read m x K))"
    using len [OF le0, folded L_def] assms(1-3) by (simp add: string_text_def K_def Let_def)
  also have "\<dots> = Some (bytes_text left w p s)"
    unfolding body [OF k] c by (simp add: field_text_def bytes_text_def pad_field_def room t_def [symmetric])
  finally show ?thesis by (simp add: conv_text_def va_ptr_def a)
qed

section \<open>The text of a whole format\<close>

lemma value_conv_text:
  assumes t: "value_text left fl w p q c vs = Some (t, vs')" and args: "passed m b lim args vs"
    and ok: "item_ok (Conv fl wa pa q c)"
    and d: "isset LEFT (flags d) \<longleftrightarrow> left" "isset PLUS (flags d) \<longleftrightarrow> CHR ''+'' \<in> set fl"
    "isset SPACE (flags d) \<longleftrightarrow> CHR '' '' \<in> set fl" "isset ZEROPAD (flags d) \<longleftrightarrow> CHR ''0'' \<in> set fl"
    "\<not> isset SIGN (flags d)" "\<not> isset LARGE (flags d)" "field_width d = int_or w" "precision d = int_or p"
    "qualifier d = (case q of None \<Rightarrow> 0 | Some q \<Rightarrow> of_char q)"
  shows "\<exists>args'. conv_text m d (of_char c) args = Some (t, args') \<and> passed m b lim args' vs'"
proof (cases "c = CHR ''%''")
  case True
  then show ?thesis using t args by (auto simp: conv_text_def)
next
  case False
  then obtain v where vs: "vs = v # vs'" using t by (auto split: list.splits fvalue.splits if_splits)
  then obtain a args' where a: "args = a # args'" "passes m b lim a v" "passed m b lim args' vs'"
    using args by (auto simp: list_all2_Cons2)
  show ?thesis
  proof (cases v)
    case (Word_value x)
    then have "c \<in> set ''cdiuxXo''" "t = word_text left fl w p q c x" "a = Int_arg x"
      using t vs False a(2) by (auto simp: passes_word simp del: word_text.simps split: if_splits)
    then show ?thesis using word_conv_text [OF _ d, of c m x args'] ok a by auto
  next
    case (String_value x)
    then have "c = CHR ''s''" "t = bytes_text left w p x" using t vs False by (auto split: if_splits)
    then show ?thesis using string_conv_text [OF d(1,7,8), of m b lim a x args'] String_value a by auto
  next
    case (Address_value x)
    then have "c = CHR ''p''" "t = address_text left fl w p x" "a = Ptr_arg x"
      using t vs False a(2) by (auto simp: passes_address split: if_splits)
    then show ?thesis using address_conv_text [OF d(1,4-8), of m x args'] a by auto
  qed
qed

lemma unparse_conv:
  "unparse (Conv fl w p q c # its) =
     ch CHR ''%'' # map of_char fl @ unparse_amount w @ prec_tail p (conv_tail q c (unparse its))"
  by (simp add: prec_tail_def conv_tail_def)

lemma text_formatted:
  "list_all item_ok its \<Longrightarrow> text_of its vs = Some t \<Longrightarrow> passed m b lim args vs \<Longrightarrow>
   formatted m (unparse its) args = Some t"
proof (induction its arbitrary: vs t args)
  case (Cons i its)
  show ?case
  proof (cases i)
    case (Plain c)
    then show ?thesis using Cons by (auto simp: formatted.simps(2))
  next
    case (Conv fl w p q c)
    have ok: "item_ok (Conv fl w p q c)" using Cons.prems(1) Conv by simp
    obtain neg w' vs1 p' vs2 u vs3 r where
      1: "take_width w vs = Some (neg, w', vs1)" "take_precision p vs1 = Some (p', vs2)"
        "value_text (neg \<or> CHR ''-'' \<in> set fl) fl w' p' q c vs2 = Some (u, vs3)"
        "text_of its vs3 = Some r" "t = u @ r"
      using Cons.prems(2) Conv by (auto simp: bind_eq_Some_conv simp del: value_text.simps)
    obtain d args1 where 2: "get_directive (map of_char fl @ unparse_amount w @ prec_tail p (conv_tail q c (unparse its))) args =
        Some (d, of_char c # unparse its, args1)" "passed m b lim args1 vs2"
      and d: "isset LEFT (flags d) \<longleftrightarrow> neg \<or> CHR ''-'' \<in> set fl" "isset PLUS (flags d) \<longleftrightarrow> CHR ''+'' \<in> set fl"
        "isset SPACE (flags d) \<longleftrightarrow> CHR '' '' \<in> set fl" "isset ZEROPAD (flags d) \<longleftrightarrow> CHR ''0'' \<in> set fl"
        "\<not> isset SIGN (flags d)" "\<not> isset LARGE (flags d)" "field_width d = int_or w'" "precision d = int_or p'"
        "qualifier d = (case q of None \<Rightarrow> 0 | Some q \<Rightarrow> of_char q)"
      using get_directive_unparse [OF ok 1(1,2) Cons.prems(3)] by blast
    obtain args2 where 3: "conv_text m d (of_char c) args1 = Some (u, args2)" "passed m b lim args2 vs3"
      using value_conv_text [OF 1(3) 2(2) ok d] by blast
    have "formatted m (unparse its) args2 = Some r" using Cons.IH [OF _ 1(4) 3(2)] Cons.prems(1) by simp
    then show ?thesis unfolding Conv unparse_conv using 2(1) 3(1) 1(5) by (simp add: formatted.simps(2))
  qed
qed simp

text \<open>The kinds of arguments that \<open>rt_vsnprintf\<close> takes are those the format needs.\<close>

lemma scan_width_unparse:
  "\<not> starts is_digit r \<Longrightarrow> \<not> starts (\<lambda>c. c = ch CHR ''*'') r \<Longrightarrow>
   scan_width (unparse_amount a @ r) = (if a = Star then 1 else 0, r)"
  using skip_number [of r False] starts_digits [of False]
  by (cases a) (auto simp: scan_width_def unparse_amount_def starts_def is_digit_def)

lemma scan_directive_unparse:
  assumes "item_ok (Conv fl w p q c)"
  shows "scan_directive (map of_char fl @ unparse_amount w @ prec_tail p (conv_tail q c rest)) =
    ((if w = Star then 1 else 0) + (if p = Star then 1 else 0), of_char c # rest)"
proof -
  have c: "q \<in> {None, Some CHR ''h'', Some CHR ''l''}" "c \<in> set ''cspdiuxXo%''" using assms by simp_all
  note r1 = conv_tail_starts [OF c, of rest]
  note r2 = prec_tail_starts [OF r1(1,2,4), of p]
  have "starts (\<lambda>c. c = ch CHR ''.'') (prec_tail p (conv_tail q c rest)) \<longleftrightarrow> p \<noteq> Absent"
    using r1(3) by (simp add: prec_tail_def starts_def)
  moreover have "p \<noteq> Absent \<Longrightarrow> tl (prec_tail p (conv_tail q c rest)) = unparse_amount p @ conv_tail q c rest"
    by (simp add: prec_tail_def)
  moreover have "p = Absent \<Longrightarrow> prec_tail p (conv_tail q c rest) = conv_tail q c rest" by (simp add: prec_tail_def)
  ultimately show ?thesis
    using get_flags_conv [OF assms, of rest] scan_width_unparse [OF r2(1,2), of w]
      scan_width_unparse [OF r1(1,2), of p] r1(5)
    by (cases "p = Absent") (simp_all add: scan_directive_def)
qed

lemma kinds_unparse: "list_all item_ok its \<Longrightarrow> fmt_kinds (unparse its) = needs its"
proof (induction its)
  case (Cons i its)
  show ?case
  proof (cases i)
    case (Plain c)
    then show ?thesis using Cons by (simp add: fmt_kinds.simps(2))
  next
    case (Conv fl w p q c)
    have ok: "item_ok (Conv fl w p q c)" using Cons.prems Conv by simp
    then have "c \<in> set ''cspdiuxXo%''" by simp
    then have "conv_kinds (of_char c) = (if c = CHR ''%'' then [] else if c = CHR ''s'' then [String]
        else if c = CHR ''p'' then [Address] else [Number])"
      by (auto simp: conv_kinds_def)
    then show ?thesis
      unfolding Conv unparse_conv using scan_directive_unparse [OF ok, of "unparse its"] Cons
      by (simp add: fmt_kinds.simps(2) numeral_2_eq_2)
  qed
qed (simp add: fmt_kinds.simps)

lemma passed_ok: "passed m b lim args vs \<Longrightarrow> list_all2 (arg_ok m b lim) args (map kind_of vs)"
proof (induction rule: list_all2_induct)
  case (Cons a args v vs)
  have "arg_ok m b lim a (kind_of v)"
    using Cons(1) by (cases "(m, b, lim, a, v)" rule: passes.cases) (auto simp: string_ok_def)
  then show ?case using Cons by simp
qed simp

section \<open>Properties\<close>

text \<open>
  C29: formatted output prints what the format means. For any format of plain bytes and conversions,
  and values of the kinds it needs, passed as words, addresses and strings, there is a text, and
  \<open>rt_vsnprintf\<close> leaves as much of it in the buffer as fits, with a zero behind it, and changes no
  other byte of the memory. It returns the length of the whole text, also when only a part fits
  (the comment above the function says the number of characters written). Strings end somewhere
  and lie outside the buffer, or are null; the text does not wrap around the end of the memory.
\<close>

theorem format_prints_its_text:
  assumes "list_all item_ok its" "map kind_of vs = needs its"
    and "list_all2 (passes m buf (buf + sz)) args vs" "0 < sz" "unat buf + unat sz < 2 ^ 32"
  shows "\<exists>t. text_of its vs = Some t \<and>
    (length t < 2 ^ 31 \<and> unat buf + length t < 2 ^ 32 \<longrightarrow>
     rt_vsnprintf buf sz (unparse its) args m = Some (int (length t), mem_write buf (take (unat sz - 1) t @ [0]) m))"
proof -
  obtain t where t: "text_of its vs = Some t" using text_exists [OF assms(1,2)] by blast
  have "list_all2 (arg_ok m buf (buf + sz)) args (fmt_kinds (unparse its))"
    using passed_ok [OF assms(3)] unfolding kinds_unparse [OF assms(1)] assms(2) .
  from output_of_text [OF this assms(4,5)] show ?thesis
    using t text_formatted [OF assms(1) t assms(3)] by auto
qed

text \<open>\<open>v=%+05d %-4s|%X\<close> with a negative number, a string and a word, into a buffer of 12 bytes.\<close>

definition sample_items :: "fmt_item list" where
  "sample_items = [Plain (ch CHR ''v''), Plain (ch CHR ''=''), Conv ''+0'' (Fixed 5) Absent None CHR ''d'',
     Plain (ch CHR '' ''), Conv ''-'' (Fixed 4) Absent None CHR ''s'', Plain (ch CHR ''|''), Conv [] Absent Absent None CHR ''X'']"

theorem format_prints_its_text_witness:
  "unparse sample_items = map of_char ''v=%+05d %-4s|%X'' \<and>
   rt_vsnprintf 0x400 12 (map of_char ''v=%+05d %-4s|%X'') [Int_arg (- 7), Ptr_arg 0x100, Int_arg 0x1F] sample_strings =
     Some (15, mem_write 0x400 (map of_char ''v=-0007 bca'' @ [0]) sample_strings)"
proof -
  let ?vs = "[Word_value (- 7), String_value (Some [98, 99, 97]), Word_value 0x1F]"
  let ?as = "[Int_arg (- 7), Ptr_arg 0x100, Int_arg 0x1F]"
  have far: "\<not> inside 0x400 0x40C (0x100 + of_nat i)" if "i \<le> 3" for i
  proof -
    have "unat (of_nat i :: u32) = i" by (rule unat_of_nat32) (use that in simp)
    then have "unat (0x100 + of_nat i :: u32) = 0x100 + i"
      using unat_add_range [of "0x100" "of_nat i"] that by simp
    then show ?thesis using that by (simp add: inside_def word_le_nat_alt)
  qed
  have ok: "list_all item_ok sample_items" "map kind_of ?vs = needs sample_items" by (simp_all add: sample_items_def)
  have u: "unparse sample_items = map of_char ''v=%+05d %-4s|%X''" by code_simp
  have dg: "digits_of 10 False 7 = [55]" "digits_of 16 True 31 = [49, 70]"
    by (simp_all add: digits_of.simps [of _ _ 7] digits_of.simps [of _ _ 31] digits_of.simps [of _ _ "Suc 0"] digit_def)
  have z: "replicate 3 x = [x, x, x]" for x :: u8 by (simp add: numeral_eq_Suc)
  have t: "text_of sample_items ?vs = Some (map of_char ''v=-0007 bca |1F'')"
    by (simp add: sample_items_def number_field_def sign_of_def bytes_text_def pad_field_def cut_string_def wide_def
        short_def dg z Let_def)
  have "list_all2 (passes sample_strings 0x400 (0x400 + 12)) ?as ?vs" using sample_strings(1) far by simp
  from format_prints_its_text [OF ok this]
  have "rt_vsnprintf 0x400 12 (unparse sample_items) ?as sample_strings =
      Some (15, mem_write 0x400 (take 11 (map of_char ''v=-0007 bca |1F'') @ [0]) sample_strings)"
    unfolding t by simp
  moreover have "take 11 (map of_char ''v=-0007 bca |1F'') = (map of_char ''v=-0007 bca'' :: buf)" by simp
  ultimately show ?thesis unfolding u by simp
qed

end
