(* ===== verification/Spec2Isabelle.thy ===== *)
theory Spec2Isabelle
  imports NormalCalc UidEncryption NtcTemp Lcr ThreadCtl Mutex Event Mailbox RingBuffer MemPool YmodemOta PrintfFormat
begin

text \<open>
  DETECT_BOARD is the firmware of a measuring board with an STM32F407: it judges the state of
  a negative plate from measured capacitances, reports over CAN, and can replace its own
  firmware over CAN or over a serial line. It runs on RT-Thread, whose kernel is part of the
  repository. This development models the parts that decide something - the kernel, its
  heap and its objects, the flash path of an update, and the application's protocols and
  filters - in the terms of the C code, and proves what they promise each other.

  How the parts work together. The application (\<open>src/applications\<close>) is a set of threads
  that exchange messages through kernel objects. \<open>can.c\<close> receives CAN messages into a message
  queue, dispatches them, and hands the update registers to \<open>ota_handle.c\<close>; that file and the
  YMODEM command write the new image through the flash abstraction layer to the \<open>download\<close>
  partition and reset the board when it is complete. \<open>lcr_task.c\<close> turns capacitances into a
  plate state with the median filter, and tells the CAN tasks when it changes.
  \<open>UID_Encryption.c\<close> lets the application start only on a chip whose key is right. Everything
  blocks and wakes through \<open>src/rt-thread/src\<close>: scheduler, timers, semaphores, mutexes, event
  sets, mailboxes, message queues, memory pools and the heap.

  Theories and what they model, with the files under \<open>src/\<close>.

  \<^item> \<open>Prelude\<close>, \<open>Memory\<close>: C integer types as words, buffers as byte lists with \<open>None\<close> for an access
    outside, byte memory with 32-bit addresses, splitting words into bytes.
  \<^item> \<open>Crc16\<close>, \<open>NormalCalc\<close>, \<open>UidEncryption\<close>, \<open>Float32\<close>, \<open>NtcTemp\<close>: \<open>applications/normal_calc.c\<close>,
    \<open>normal_calc.h\<close>, \<open>UID_Encryption.c\<close>. The table CRC against the bitwise reference and what it
    detects; accessors and ciphers as inverse pairs (locales \<open>codec\<close> and \<open>buffer_field\<close>); the
    start-up gate; the thermistor table in \<open>binary32\<close> arithmetic.
  \<^item> \<open>MedianFilter\<close>, \<open>Lcr\<close>: \<open>median_filter.c\<close> and \<open>lcr_info_judge\<close> of \<open>lcr_task.c\<close>: the filter is the
    median of the last inputs, every change of state is offered to the queue for the bus once
    (and lost if the queue is full), recovery from errors.
  \<^item> \<open>Kernel\<close>, \<open>Thread\<close>: \<open>rt-thread/src/scheduler.c\<close>, \<open>thread.c\<close>, \<open>timer.c\<close>, \<open>clock.c\<close>. One record holds
    threads, ready table, suspend lists and timers; \<open>sched_inv\<close> is the invariant of the
    scheduler, and \<open>kernel_step\<close> the calls that threads and interrupts make.
  \<^item> \<open>Ipc\<close>, \<open>IpcFrame\<close>, \<open>Mutex\<close>, \<open>Event\<close>, \<open>Mailbox\<close>, \<open>Mq\<close>: \<open>ipc.c\<close>. A call that may block ends where it
    calls the scheduler; what the thread does when it runs again is a definition of its own
    (the suffix \<open>_resumed\<close>). \<open>Fifo\<close> is the contract of a bounded queue (locales \<open>bounded_fifo\<close> and
    \<open>bounded_deque\<close>), met by the message queue, the mailbox and, in \<open>RingBuffer\<close>
    (\<open>components/drivers/ipc/ringbuffer.c\<close>), by the byte ring.
  \<^item> \<open>Allocator\<close>, \<open>SmallMem\<close>, \<open>Heap\<close>, \<open>MemPool\<close>: \<open>mem.c\<close>, the heap calls of \<open>kservice.c\<close>, and
    \<open>mempool.c\<close>. \<open>Allocator\<close> is the contract between an allocator and clients that allocate,
    free and write in any order; heap and pools are interpretations of it.
  \<^item> \<open>FlashF4\<close>, \<open>Fal\<close>: \<open>drivers/drv_flash_f4.c\<close>, \<open>components/fal/src\<close>, \<open>applications/fal_cfg.h\<close>. The
    flash controller is an argument (\<open>flash_hw\<close>); \<open>nor_flash\<close> and \<open>no_fault\<close> are what its manual
    promises.
  \<^item> \<open>CanMsg\<close>, \<open>Ota\<close>, \<open>Can\<close>: \<open>drivers/can.h\<close>, \<open>ota_handle.c\<close>, \<open>can.c\<close>. The board's state is one
    record over the kernel's; an outcome says whether a handler returned or reset the board.
  \<^item> \<open>Ymodem\<close>, \<open>YmodemTransfer\<close>, \<open>YmodemReturns\<close>, \<open>YmodemClient\<close>, \<open>YmodemOta\<close>:
    \<open>components/utilities/ymodem/ymodem.c\<close> and \<open>packages/ota_downloader-v1.0.0/src/ymodem_ota.c\<close>.
    The serial line is the environment. The first theory has the definitions; the others
    show that sender and receiver fit, that the receiver returns on any input, what its
    callbacks are held to (locale \<open>rym_client\<close>), and what that means for the flash.
  \<^item> \<open>KService\<close>, \<open>KString\<close>: the memory and string functions of \<open>kservice.c\<close> on byte memory. The loops
    by words equal the loops by bytes; comparisons, copies and search against lists.
  \<^item> \<open>TimerCheck\<close>, \<open>ThreadCtl\<close>: that the tick interrupt returns, with the invariant of the timers
    (\<open>timers_wf\<close>); soft timers, delays, and the calls that end or control a thread.
  \<^item> \<open>Printf\<close>, \<open>PrintfText\<close>, \<open>PrintfFormat\<close>: formatted output (\<open>rt_vsnprintf\<close>, \<open>rt_kprintf\<close> in \<open>kservice.c\<close>);
    formats and what they mean as a specification of its own, and that the output is that text.

  What the properties show. Composed ones first: whatever traffic arrives on the bus, the
  handling of a message resets the board only when the download partition holds an image with
  the announced size and checksum, and an update that is sent completely does reset it (apart
  from the messages, the timer that \<open>ota_handle.c\<close> starts at the beginning of an update resets
  the board after 50000 ticks without data, whatever the partition holds: \<open>ota_timer_timeout\<close>); a transfer over YMODEM
  changes no other partition, and a complete one installs the file. Below them each component
  has its invariant (scheduler, heap, mutex), its refinement of an abstract queue or
  allocator, the calls' results on every branch, and its wake-up and termination properties.
  Each property has a witness, the theorem applied to a concrete run, where it has
  hypotheses. Properties that state a defect of the code are recorded with the finding.

  Bounds and fuel. Integers have the width of the C code and wrap; arithmetic on them is
  unbounded only where the text of a theory says so. Loops are structural or have a
  measure. \<open>rt_timer_check\<close> takes fuel, one unit for each timer that expires; \<open>TimerCheck\<close>
  shows that in every reachable state as many units are enough as there are running timers.
  The loops of \<open>Ymodem\<close> are \<open>partial_function\<close>s, so that a call that never returns is
  \<open>None\<close>; \<open>YmodemReturns\<close> shows that the receiver's calls return. The searches of the heap are
  \<open>while_option\<close> loops; \<open>SmallMem\<close> shows that they end. Assertions of the kernel are compiled
  in (\<open>RT_DEBUG\<close>), and one that fails is \<open>None\<close>. The checks of the calling context are left
  to the caller: that \<open>rt_thread_suspend\<close> is called by the thread itself, and that a call that
  can block is made by a thread with the scheduler running and not locked
  (\<open>RT_DEBUG_SCHEDULER_AVAILABLE\<close>, \<open>RT_DEBUG_NOT_IN_INTERRUPT\<close>). The nesting depth of the
  scheduler lock is an \<open>rt_int16_t\<close> in the code and unbounded here, so what is shown holds for
  fewer than 32768 nested \<open>rt_enter_critical\<close>.

  Not modelled, and why. Device drivers over hardware registers, start-up code, ST's HAL and
  CMSIS, and the application's DAC, ADC, lamp and switch files: they consist of register
  accesses whose effect the source does not show. The impedance calculation
  (\<open>lcr_calc.c\<close>, \<open>math_calc.c\<close>): its results depend on the C library's trigonometric functions.
  The shell, the file systems and the C library glue of RT-Thread; memory managers and
  multiprocessing that \<open>rtconfig.h\<close> does not select. Within the modelled files: printing, debug
  output and hooks, whose effect is outside the state; the object registry and the memory of
  created objects (whether an allocation succeeds is an argument of the creating call), and the
  creation of threads, timers, memory pools and ring buffers on the heap;
  concurrency below the level of a critical section, since the code runs each of these
  steps with interrupts disabled or under the scheduler lock.
\<close>

end
